(* ===== verification/Wt_Prelude.thy ===== *)
theory Wt_Prelude
  imports Main "HOL-Library.Word"
begin

text \<open>
  Shared vocabulary of the development: machine integer types, the error codes the C code
  returns, the result type of a fallible function, and generic lemmas on words and lists.

  A C function that returns 0 or an error code and hands values back through pointers is a HOL
  function into \<open>'a result\<close>: \<open>Inl e\<close> is the error return, \<open>Inr v\<close> is return code 0 with the
  values \<open>v\<close>.
\<close>

unbundle bit_operations_syntax

type_synonym u8 = "8 word"
type_synonym u32 = "32 word"
type_synonym u64 = "64 word"

text \<open>
  Error codes. \<open>OutOfBounds\<close> is not a code of the program: it marks a read past the end of the
  buffer a function was given, which C leaves undefined.
\<close>

datatype wt_error =
    EINVAL | EBUSY | ENOTSUP | ENOMEM | EPERM | WT_ERROR | WT_NOTFOUND | WT_PANIC | WT_RESTART
  | WT_PREPARE_CONFLICT | WT_ROLLBACK | OutOfBounds

type_synonym 'a result = "wt_error + 'a"

text \<open>\<open>WT_RET\<close>: return the error, or go on with the value.\<close>

definition wt_ret :: "'a result \<Rightarrow> ('a \<Rightarrow> 'b result) \<Rightarrow> 'b result" where
  "wt_ret r k = (case r of Inl e \<Rightarrow> Inl e | Inr v \<Rightarrow> k v)"

lemma wt_ret_simps [simp]:
  "wt_ret (Inl e) k = Inl e"
  "wt_ret (Inr v) k = k v"
  by (simp_all add: wt_ret_def)

lemma wt_ret_cong [fundef_cong]:
  "r = r' \<Longrightarrow> (\<And>v. r' = Inr v \<Longrightarrow> k v = k' v) \<Longrightarrow> wt_ret r k = wt_ret r' k'"
  by (cases r') auto

lemma wt_ret_assoc: "wt_ret (wt_ret r f) g = wt_ret r (\<lambda>v. wt_ret (f v) g)"
  by (cases r) auto

lemma wt_ret_Inr_iff: "wt_ret r k = Inr w \<longleftrightarrow> (\<exists>v. r = Inr v \<and> k v = Inr w)"
  by (cases r) auto

lemma wt_ret_InrE:
  assumes "wt_ret r k = Inr w"
  obtains v where "r = Inr v" and "k v = Inr w"
  using assms by (auto simp: wt_ret_Inr_iff)

text \<open>A loop that stops at the first error.\<close>

fun fold_result :: "('s \<Rightarrow> 'x \<Rightarrow> 's result) \<Rightarrow> 'x list \<Rightarrow> 's \<Rightarrow> 's result" where
  "fold_result f [] s = Inr s"
| "fold_result f (x # xs) s = wt_ret (f s x) (fold_result f xs)"

lemma fold_result_append:
  "fold_result f (xs @ ys) s = wt_ret (fold_result f xs s) (fold_result f ys)"
  by (induction f xs s rule: fold_result.induct) (auto simp: wt_ret_def split: sum.splits)

named_theorems wt_codec \<open>round-trip and size facts of the encoders\<close>
named_theorems wt_inv \<open>invariant preservation facts\<close>
named_theorems wt_unat \<open>readings of word expressions as naturals\<close>

subsection \<open>Words read as naturals\<close>

lemma unat_ucast_u8 [wt_unat]: "unat (ucast (x :: u64) :: u8) = unat x mod 256"
  by (simp add: unsigned_ucast_eq take_bit_eq_mod)

lemma unat_and_mask [wt_unat]:
  "unat ((x :: u64) AND (push_bit n 1 - 1)) = unat x mod 2 ^ n"
proof -
  have "(push_bit n 1 - 1 :: u64) = mask n"
    by (simp add: mask_eq_exp_minus_1 push_bit_eq_mult)
  then have "x AND (push_bit n 1 - 1) = take_bit n x"
    by (simp add: take_bit_eq_mask)
  then show ?thesis
    by (simp only: unsigned_take_bit_eq) (simp only: take_bit_eq_mod)
qed

lemma unat_drop_bit [wt_unat]: "unat (drop_bit n (x :: 'a::len word)) = unat x div 2 ^ n"
  by (simp only: unat_drop_bit_eq) (simp only: drop_bit_eq_div)

lemma nat_or_marker:
  assumes "2 ^ k dvd m" and "b < 2 ^ k"
  shows "m OR b = m + (b :: nat)"
proof -
  obtain q where q: "m = push_bit k q"
    using assms(1) by (auto simp: push_bit_eq_mult mult.commute elim: dvdE)
  have b: "take_bit k b = b"
    using assms(2) by (simp add: take_bit_nat_eq_self)
  have "push_bit k q AND take_bit k b = 0"
    by (rule bit_eqI) (auto simp: bit_simps)
  then show ?thesis
    using q b by (simp add: disjunctive_add_eq_or)
qed

lemma unat_or_marker:
  assumes "2 ^ k dvd unat m" and "unat b < 2 ^ k"
  shows "unat (m OR b :: 'a::len word) = unat m + unat b"
  using nat_or_marker [OF assms] by (simp add: unsigned_or_eq)

lemma unat_low_nibble [wt_unat]: "unat (b AND 15 :: u8) = unat b mod 16"
proof -
  have "b AND 15 = take_bit 4 b"
    by (simp add: take_bit_eq_mask mask_numeral)
  then have "unat (b AND 15) = take_bit 4 (unat b)"
    by (simp only: unsigned_take_bit_eq)
  then show ?thesis
    by (simp add: take_bit_eq_mod)
qed

lemma unat_high_nibble [wt_unat]: "unat (b AND 240 :: u8) = 16 * (unat b div 16)"
proof -
  have "b = (b AND 240) OR (b AND 15)"
  proof -
    have "(b AND 240) OR (b AND 15) = b AND (240 OR 15)"
      by (simp only: bit.conj_disj_distrib)
    also have "(240 OR 15 :: u8) = - 1"
      by simp
    finally show ?thesis by simp
  qed
  moreover have "(b AND 240) AND (b AND 15) = 0"
  proof -
    have "(b AND 240) AND (b AND 15) = b AND (240 AND 15)"
      by (simp only: and.assoc and.left_commute and.left_idem)
    then show ?thesis by simp
  qed
  ultimately have "b = (b AND 240) + (b AND 15)"
    by (simp add: disjunctive_add_eq_or)
  then have "b AND 240 = b - (b AND 15)"
    by (simp add: algebra_simps)
  moreover have "(b AND 15) \<le> b"
    by (simp add: word_and_le2)
  ultimately have "unat (b AND 240) = unat b - unat b mod 16"
    by (simp add: unat_sub unat_low_nibble)
  then show ?thesis
    by (simp add: minus_mod_eq_mult_div)
qed

lemma u8_less: "unat (b :: u8) < 256"
  using unsigned_less [of b] by simp

lemma u64_less: "unat (x :: u64) < 2 ^ 64"
  using unsigned_less [of x] by simp

lemma unat_minus_1_u64: "unat (- 1 :: u64) = 2 ^ 64 - 1"
  by (simp only: unsigned_minus_1_eq_mask mask_eq_exp_minus_1) simp

lemma unat_shift_in: "unat (push_bit 8 (x :: u64) OR ucast (b :: u8)) = (unat x * 256 + unat b) mod 2 ^ 64"
proof -
  have "push_bit 8 x AND ucast b = (0 :: u64)"
    by (rule bit_word_eqI) (auto simp: bit_simps dest: bit_imp_le_length)
  then have "push_bit 8 x OR ucast b = push_bit 8 x + (ucast b :: u64)"
    by (simp add: disjunctive_add_eq_or)
  moreover have "push_bit 8 x = x * 256"
    by (simp add: push_bit_eq_mult)
  moreover have "unat (ucast b :: u64) = unat b"
    using u8_less [of b] by (simp add: unsigned_ucast_eq take_bit_nat_eq_self)
  ultimately show ?thesis
    by (simp add: unat_word_ariths mod_add_left_eq)
qed

lemma nat_le_word [wt_unat]: "(x :: 'a::len word) \<le> y \<longleftrightarrow> unat x \<le> unat y"
  by (simp add: word_le_nat_alt)

lemma nat_less_word [wt_unat]: "(x :: 'a::len word) < y \<longleftrightarrow> unat x < unat y"
  by (simp add: word_less_nat_alt)

lemma u8_eq_iff: "(x :: u8) = y \<longleftrightarrow> unat x = unat y"
  by (rule word_unat_eq_iff)

subsection \<open>Signed readings and division\<close>

lemma uint_sint_neg: "sint (x :: u64) < 0 \<Longrightarrow> uint x = sint x + 2 ^ 64"
proof -
  assume a: "sint x < 0"
  have "uint x = sint x mod 2 ^ 64"
    by (simp add: uint_sint take_bit_eq_mod)
  also have "sint x mod 2 ^ 64 = (sint x + 2 ^ 64) mod 2 ^ 64" by simp
  also have "\<dots> = sint x + 2 ^ 64"
    using a sint_greater_eq [of x] by (intro mod_pos_pos_trivial) auto
  finally show ?thesis .
qed

lemma uint_sint_nonneg: "0 \<le> sint (x :: u64) \<Longrightarrow> uint x = sint x"
proof -
  assume a: "0 \<le> sint x"
  have "uint x = sint x mod 2 ^ 64"
    by (simp add: uint_sint take_bit_eq_mod)
  then show ?thesis using a sint_less [of x] by simp
qed

lemma unat_plus_neg:
  assumes "sint (x :: u64) < 0" and "0 \<le> sint x + int k" and "k < 2 ^ 63"
  shows "unat (x + of_nat k) = nat (sint x + int k)"
proof -
  have "k < 2 ^ 64" using assms(3) by simp
  then have "take_bit 64 k = k" by (rule take_bit_nat_eq_self)
  then have "uint (of_nat k :: u64) = int k" by (simp add: unsigned_of_nat)
  then have "uint (x + of_nat k) = (uint x + int k) mod 2 ^ 64"
    by (simp add: uint_word_ariths)
  also have "\<dots> = (sint x + int k + 2 ^ 64) mod 2 ^ 64"
    using uint_sint_neg [OF assms(1)] by (simp add: algebra_simps)
  also have "\<dots> = sint x + int k"
    using assms by simp
  finally show ?thesis by (simp add: unat_eq_nat_uint)
qed

lemma div_mod_less_nat:
  assumes "(m :: nat) < n"
  shows "m div 256 < n div 256 \<or> (m div 256 = n div 256 \<and> m mod 256 < n mod 256)"
proof (cases "m div 256 = n div 256")
  case True
  have "m = n div 256 * 256 + m mod 256" using True by (metis div_mult_mod_eq)
  moreover have "n = n div 256 * 256 + n mod 256" by simp
  ultimately show ?thesis using assms True by linarith
next
  case False
  then show ?thesis using div_le_mono [of m n 256] assms by linarith
qed

subsection \<open>Counters\<close>

lemma unat_inc:
  assumes "cnt < (mx :: 'a::len word)"
  shows "unat (cnt + 1) = unat cnt + 1"
proof -
  have "unat cnt + 1 \<le> unat mx" using assms by (simp add: word_less_nat_alt)
  then have "unat cnt + 1 < 2 ^ LENGTH('a)"
    using unsigned_less [of mx, where 'a = nat] by (rule le_less_trans)
  then show ?thesis by (simp add: unat_word_ariths)
qed

lemma unat_dec: "(cnt :: 'a::len word) \<noteq> 0 \<Longrightarrow> unat (cnt - 1) = unat cnt - 1"
  by (subst unat_sub) (simp_all add: word_le_nat_alt unat_eq_0 [symmetric] Suc_le_eq)

lemma unat_inc_room:
  assumes "unat (cnt :: 'a::len word) + 1 < 2 ^ LENGTH('a)"
  shows "unat (cnt + 1) = unat cnt + 1"
  using assms by (simp add: unat_word_ariths)

end
