(* ===== verification/IntPack.thy ===== *)
theory IntPack
  imports Wt_Prelude
begin

text \<open>
  Variable-length integer packing, \<open>src/include/intpack_inline.h\<close>. A packing function returns
  the bytes it stores from \<open>*pp\<close> on; an unpacking function takes the bytes from \<open>*pp\<close> on and
  returns the value with the bytes that follow it. \<open>maxlen = 0\<close> is "unchecked", as in the code.
  Signed values are kept as the 64-bit pattern of the \<open>int64_t\<close>, read with \<open>sint\<close>.
\<close>

subsection \<open>Markers, ranges and helpers\<close>

definition NEG_MULTI_MARKER :: u8 where "NEG_MULTI_MARKER = 0x10"
definition NEG_2BYTE_MARKER :: u8 where "NEG_2BYTE_MARKER = 0x20"
definition NEG_1BYTE_MARKER :: u8 where "NEG_1BYTE_MARKER = 0x40"
definition POS_1BYTE_MARKER :: u8 where "POS_1BYTE_MARKER = 0x80"
definition POS_2BYTE_MARKER :: u8 where "POS_2BYTE_MARKER = 0xc0"
definition POS_MULTI_MARKER :: u8 where "POS_MULTI_MARKER = 0xe0"

definition NEG_1BYTE_MIN :: int where "NEG_1BYTE_MIN = - (2 ^ 6)"
definition NEG_2BYTE_MIN :: int where "NEG_2BYTE_MIN = - (2 ^ 13) + NEG_1BYTE_MIN"
definition POS_1BYTE_MAX :: u64 where "POS_1BYTE_MAX = 2 ^ 6 - 1"
definition POS_2BYTE_MAX :: u64 where "POS_2BYTE_MAX = 2 ^ 13 + POS_1BYTE_MAX"

definition GET_BITS :: "u64 \<Rightarrow> nat \<Rightarrow> nat \<Rightarrow> u64" where
  "GET_BITS x start end_bit = drop_bit end_bit (x AND (push_bit start 1 - 1))"

definition WT_SIZE_CHECK_PACK :: "nat \<Rightarrow> nat \<Rightarrow> bool" where
  "WT_SIZE_CHECK_PACK l maxl \<longleftrightarrow> maxl \<noteq> 0 \<and> l > maxl"

definition WT_SIZE_CHECK_UNPACK :: "nat \<Rightarrow> nat \<Rightarrow> bool" where
  "WT_SIZE_CHECK_UNPACK l maxl \<longleftrightarrow> maxl \<noteq> 0 \<and> l > maxl"

text \<open>
  The number of leading zero bytes: the portable loop of the macro, which slides the mask
  \<open>0xff\<close> down from the top byte; \<open>r\<close> counts the bytes still to look at.
\<close>

fun leading_zeros_loop :: "u64 \<Rightarrow> u64 \<Rightarrow> nat \<Rightarrow> nat" where
  "leading_zeros_loop x m 0 = 0"
| "leading_zeros_loop x m (Suc r) =
     (if x AND m = 0 then Suc (leading_zeros_loop x (drop_bit 8 m) r) else 0)"

definition WT_LEADING_ZEROS :: "u64 \<Rightarrow> nat" where
  "WT_LEADING_ZEROS x = leading_zeros_loop x (push_bit 56 0xff) 8"

text \<open>The byte loops: most significant byte first.\<close>

fun pack_bytes :: "nat \<Rightarrow> u64 \<Rightarrow> u8 list" where
  "pack_bytes 0 x = []"
| "pack_bytes (Suc len) x = ucast (drop_bit (8 * len) x) # pack_bytes len x"

fun unpack_bytes :: "nat \<Rightarrow> u64 \<Rightarrow> u8 list \<Rightarrow> (u64 \<times> u8 list) result" where
  "unpack_bytes 0 x p = Inr (x, p)"
| "unpack_bytes (Suc len) x [] = Inl OutOfBounds"
| "unpack_bytes (Suc len) x (b # p) = unpack_bytes len (push_bit 8 x OR ucast b) p"

subsection \<open>Packing\<close>

text \<open>\<open>b0\<close> is the marker the caller has stored at \<open>*pp\<close>.\<close>

definition wt_vpack_posint :: "u8 \<Rightarrow> nat \<Rightarrow> u64 \<Rightarrow> u8 list result" where
  "wt_vpack_posint b0 maxlen x =
     (let lz = WT_LEADING_ZEROS x; len = 8 - lz in
      if WT_SIZE_CHECK_PACK (len + 1) maxlen then Inl ENOMEM
      else Inr ((b0 OR (of_nat len AND 0xf)) # pack_bytes len x))"

definition wt_vpack_negint :: "u8 \<Rightarrow> nat \<Rightarrow> u64 \<Rightarrow> u8 list result" where
  "wt_vpack_negint b0 maxlen x =
     (let lz = WT_LEADING_ZEROS (NOT x); len = 8 - lz in
      if WT_SIZE_CHECK_PACK (len + 1) maxlen then Inl ENOMEM
      else Inr ((b0 OR (of_nat lz AND 0xf)) # pack_bytes len x))"

definition wt_vpack_uint :: "nat \<Rightarrow> u64 \<Rightarrow> u8 list result" where
  "wt_vpack_uint maxlen x =
     (if WT_SIZE_CHECK_PACK 1 maxlen then Inl ENOMEM
      else if x \<le> POS_1BYTE_MAX then Inr [POS_1BYTE_MARKER OR ucast (GET_BITS x 6 0)]
      else if x \<le> POS_2BYTE_MAX then
        (if WT_SIZE_CHECK_PACK 2 maxlen then Inl ENOMEM
         else let x = x - (POS_1BYTE_MAX + 1) in
           Inr [POS_2BYTE_MARKER OR ucast (GET_BITS x 13 8), ucast (GET_BITS x 8 0)])
      else if x = POS_2BYTE_MAX + 1 then Inr [POS_MULTI_MARKER OR 0x1, 0]
      else wt_vpack_posint POS_MULTI_MARKER maxlen (x - (POS_2BYTE_MAX + 1)))"

definition wt_vpack_int :: "nat \<Rightarrow> u64 \<Rightarrow> u8 list result" where
  "wt_vpack_int maxlen x =
     (if WT_SIZE_CHECK_PACK 1 maxlen then Inl ENOMEM
      else if sint x < NEG_2BYTE_MIN then wt_vpack_negint NEG_MULTI_MARKER maxlen x
      else if sint x < NEG_1BYTE_MIN then
        (if WT_SIZE_CHECK_PACK 2 maxlen then Inl ENOMEM
         else let x = x - of_int NEG_2BYTE_MIN in
           Inr [NEG_2BYTE_MARKER OR ucast (GET_BITS x 13 8), ucast (GET_BITS x 8 0)])
      else if sint x < 0 then
        (let x = x - of_int NEG_1BYTE_MIN in Inr [NEG_1BYTE_MARKER OR ucast (GET_BITS x 6 0)])
      else wt_vpack_uint maxlen x)"

subsection \<open>Unpacking\<close>

definition wt_vunpack_posint :: "nat \<Rightarrow> u8 list \<Rightarrow> (u64 \<times> u8 list) result" where
  "wt_vunpack_posint maxlen p =
     (case p of [] \<Rightarrow> Inl OutOfBounds
      | b # p \<Rightarrow>
        (let len = unat (b AND 0xf) in
         if WT_SIZE_CHECK_UNPACK (len + 1) maxlen then Inl EINVAL
         else unpack_bytes len 0 p))"

text \<open>The length is stored in a \<open>uint8_t\<close>: \<open>8 - (b & 0xf)\<close> wraps when the nibble exceeds 8.\<close>

definition wt_vunpack_negint :: "nat \<Rightarrow> u8 list \<Rightarrow> (u64 \<times> u8 list) result" where
  "wt_vunpack_negint maxlen p =
     (case p of [] \<Rightarrow> Inl OutOfBounds
      | b # p \<Rightarrow>
        (let len = unat (8 - (b AND 0xf)) in
         if WT_SIZE_CHECK_UNPACK (len + 1) maxlen then Inl EINVAL
         else unpack_bytes len (- 1) p))"

definition wt_vunpack_uint :: "nat \<Rightarrow> u8 list \<Rightarrow> (u64 \<times> u8 list) result" where
  "wt_vunpack_uint maxlen p =
     (if WT_SIZE_CHECK_UNPACK 1 maxlen then Inl EINVAL
      else case p of [] \<Rightarrow> Inl OutOfBounds
      | b # p' \<Rightarrow>
        (let c = b AND 0xf0 in
         if c = POS_1BYTE_MARKER \<or> c = POS_1BYTE_MARKER OR 0x10 \<or>
            c = POS_1BYTE_MARKER OR 0x20 \<or> c = POS_1BYTE_MARKER OR 0x30
         then Inr (GET_BITS (ucast b) 6 0, p')
         else if c = POS_2BYTE_MARKER \<or> c = POS_2BYTE_MARKER OR 0x10 then
           (if WT_SIZE_CHECK_UNPACK 2 maxlen then Inl EINVAL
            else case p' of [] \<Rightarrow> Inl OutOfBounds
            | b' # p'' \<Rightarrow>
              Inr ((push_bit 8 (GET_BITS (ucast b) 5 0) OR ucast b') + (POS_1BYTE_MAX + 1), p''))
         else if c = POS_MULTI_MARKER then
           wt_ret (wt_vunpack_posint maxlen p) (\<lambda>(x, p). Inr (x + (POS_2BYTE_MAX + 1), p))
         else Inl EINVAL))"

definition wt_vunpack_int :: "nat \<Rightarrow> u8 list \<Rightarrow> (u64 \<times> u8 list) result" where
  "wt_vunpack_int maxlen p =
     (if WT_SIZE_CHECK_UNPACK 1 maxlen then Inl EINVAL
      else case p of [] \<Rightarrow> Inl OutOfBounds
      | b # p' \<Rightarrow>
        (let c = b AND 0xf0 in
         if c = NEG_MULTI_MARKER then wt_vunpack_negint maxlen p
         else if c = NEG_2BYTE_MARKER \<or> c = NEG_2BYTE_MARKER OR 0x10 then
           (if WT_SIZE_CHECK_UNPACK 2 maxlen then Inl EINVAL
            else case p' of [] \<Rightarrow> Inl OutOfBounds
            | b' # p'' \<Rightarrow>
              Inr ((push_bit 8 (GET_BITS (ucast b) 5 0) OR ucast b') + of_int NEG_2BYTE_MIN, p''))
         else if c = NEG_1BYTE_MARKER \<or> c = NEG_1BYTE_MARKER OR 0x10 \<or>
            c = NEG_1BYTE_MARKER OR 0x20 \<or> c = NEG_1BYTE_MARKER OR 0x30
         then Inr (of_int NEG_1BYTE_MIN + GET_BITS (ucast b) 6 0, p')
         else wt_vunpack_uint maxlen p))"

text \<open>Reading consumes at least one byte.\<close>

lemma unpack_bytes_length: "unpack_bytes l x p = Inr (y, q) \<Longrightarrow> length q \<le> length p"
  by (induction l x p rule: unpack_bytes.induct) auto

lemma wt_vunpack_uint_shorter: "wt_vunpack_uint n p = Inr (x, q) \<Longrightarrow> length q < length p"
  by (auto simp: wt_vunpack_uint_def wt_vunpack_posint_def Let_def wt_ret_Inr_iff le_imp_less_Suc
      dest!: unpack_bytes_length split: list.splits if_splits)

subsection \<open>Packed sizes\<close>

definition WT_INTPACK64_MAXSIZE :: nat where "WT_INTPACK64_MAXSIZE = 8 + 1"

definition wt_vsize_posint :: "u64 \<Rightarrow> nat" where
  "wt_vsize_posint x = WT_INTPACK64_MAXSIZE - WT_LEADING_ZEROS x"

definition wt_vsize_negint :: "u64 \<Rightarrow> nat" where
  "wt_vsize_negint x = WT_INTPACK64_MAXSIZE - WT_LEADING_ZEROS (NOT x)"

definition wt_vsize_uint :: "u64 \<Rightarrow> nat" where
  "wt_vsize_uint x =
     (if x \<le> POS_1BYTE_MAX then 1
      else if x \<le> POS_2BYTE_MAX + 1 then 2
      else wt_vsize_posint (x - (POS_2BYTE_MAX + 1)))"

definition wt_vsize_int :: "u64 \<Rightarrow> nat" where
  "wt_vsize_int x =
     (if sint x < NEG_2BYTE_MIN then wt_vsize_negint x
      else if sint x < NEG_1BYTE_MIN then 2
      else if sint x < 0 then 1
      else wt_vsize_uint x)"

subsection \<open>What the encodings look like\<close>

text \<open>The big-endian value of a byte string, and the shape of every packed integer.\<close>

lemma unat_GET_BITS [wt_unat]: "unat (GET_BITS x s e) = (unat x mod 2 ^ s) div 2 ^ e"
  by (simp only: GET_BITS_def unat_drop_bit unat_and_mask)

fun be_val :: "u8 list \<Rightarrow> nat" where
  "be_val [] = 0"
| "be_val (b # bs) = unat b * 256 ^ length bs + be_val bs"

lemma be_val_bound: "be_val bs < 256 ^ length bs"
proof (induction bs)
  case (Cons b bs)
  have "(unat b + 1) * 256 ^ length bs \<le> 256 * (256 :: nat) ^ length bs"
    using u8_less [of b] by (intro mult_le_mono1) simp
  then have "unat b * 256 ^ length bs + 256 ^ length bs \<le> 256 * 256 ^ length bs"
    by (simp only: add_mult_distrib mult_1)
  moreover have "256 ^ length (b # bs) = 256 * (256 :: nat) ^ length bs" by simp
  ultimately show ?case using Cons.IH by (simp only: be_val.simps)
qed simp

lemma length_pack_bytes [simp]: "length (pack_bytes l x) = l"
  by (induction l) auto

lemma be_val_pack_bytes [simp]: "be_val (pack_bytes l x) = unat x mod 256 ^ l"
proof (induction l)
  case (Suc l)
  have "unat (ucast (drop_bit (8 * l) x) :: u8) = unat x div 256 ^ l mod 256"
    by (simp add: unat_ucast_u8 unat_drop_bit power_mult)
  moreover have "unat x mod (256 ^ l * 256) = 256 ^ l * (unat x div 256 ^ l mod 256) + unat x mod 256 ^ l"
    by (rule mod_mult2_eq)
  ultimately show ?case
    using Suc by (simp add: mult.commute)
qed simp

lemma unpack_bytes_append:
  assumes "length bs = l"
  shows "\<exists>y. unpack_bytes l x (bs @ r) = Inr (y, r) \<and>
     unat y = (unat x * 256 ^ l + be_val bs) mod 2 ^ 64"
  using assms
proof (induction bs arbitrary: l x)
  case Nil
  then show ?case using u64_less [of x] by simp
next
  case (Cons b bs)
  then obtain l' where l: "l = Suc l'" "length bs = l'" by auto
  obtain y where y: "unpack_bytes l' (push_bit 8 x OR ucast b) (bs @ r) = Inr (y, r)"
    "unat y = (unat (push_bit 8 x OR ucast b) * 256 ^ l' + be_val bs) mod 2 ^ 64"
    using Cons.IH [OF l(2)] by blast
  have "unat y = ((unat x * 256 + unat b) * 256 ^ l' + be_val bs) mod 2 ^ 64"
    using y(2) by (simp only: unat_shift_in) (metis mod_add_left_eq mod_mult_left_eq)
  also have "\<dots> = (unat x * 256 ^ l + be_val (b # bs)) mod 2 ^ 64"
    using l by (simp add: algebra_simps)
  finally show ?case using y(1) l by auto
qed

lemma and_ff_zero: "(x AND push_bit n 0xff = 0) \<longleftrightarrow> unat (x :: u64) div 2 ^ n mod 256 = 0" if "n \<le> 56"
proof -
  have ff: "(0xff :: u64) = mask 8" by (simp add: mask_eq_exp_minus_1)
  have "x AND push_bit n 0xff = push_bit n (take_bit 8 (drop_bit n x))"
    unfolding ff by (rule bit_word_eqI) (auto simp: bit_simps)
  moreover have "push_bit n (take_bit 8 (drop_bit n x)) = 0 \<longleftrightarrow> take_bit 8 (drop_bit n x) = 0"
  proof
    assume a: "push_bit n (take_bit 8 (drop_bit n x)) = 0"
    show "take_bit 8 (drop_bit n x) = 0"
    proof (rule bit_word_eqI)
      fix k assume "k < LENGTH(64)"
      have "bit (push_bit n (take_bit 8 (drop_bit n x))) (n + k) = False" using a by simp
      then show "bit (take_bit 8 (drop_bit n x)) k = bit 0 k"
        using that by (auto simp: bit_simps dest: bit_imp_le_length)
    qed
  qed simp
  moreover have "take_bit 8 (drop_bit n x) = 0 \<longleftrightarrow> unat (take_bit 8 (drop_bit n x)) = 0"
    by (simp only: unat_eq_0)
  moreover have "unat (take_bit 8 (drop_bit n x)) = unat x div 2 ^ n mod 256"
    by (simp only: unsigned_take_bit_eq unat_drop_bit) (simp add: take_bit_eq_mod)
  ultimately show ?thesis by simp
qed

lemma leading_zeros_loop_spec:
  assumes "r \<le> 8" and "unat x < 256 ^ r"
  shows "let z = leading_zeros_loop x (push_bit (8 * (r - 1)) 0xff) r in
    z \<le> r \<and> unat x < 256 ^ (r - z) \<and> (z < r \<longrightarrow> 256 ^ (r - 1 - z) \<le> unat x)"
  using assms
proof (induction r)
  case 0
  then show ?case by simp
next
  case (Suc r)
  have e: "2 ^ (8 * r) = (256 :: nat) ^ r" by (simp add: power_mult)
  have z: "x AND push_bit (8 * r) 0xff = 0 \<longleftrightarrow> unat x div 256 ^ r mod 256 = 0"
    using and_ff_zero [of "8 * r" x] Suc.prems(1) by (simp add: e)
  have lt: "unat x div 256 ^ r < 256"
    using Suc.prems(2) by (simp add: less_mult_imp_div_less mult.commute)
  show ?case
  proof (cases "unat x div 256 ^ r = 0")
    case True
    then have small: "unat x < 256 ^ r" by (simp add: div_eq_0_iff)
    have m: "leading_zeros_loop x (drop_bit 8 (push_bit (8 * r) 0xff)) r =
        leading_zeros_loop x (push_bit (8 * (r - 1)) 0xff) r"
    proof (cases r)
      case (Suc k)
      have "drop_bit 8 (push_bit (8 * r) 0xff) = (push_bit (8 * k) 0xff :: u64)"
      proof (rule bit_word_eqI)
        fix n assume "n < LENGTH(64)"
        have ff: "(0xff :: u64) = mask 8" by (simp add: mask_eq_exp_minus_1)
        show "bit (drop_bit 8 (push_bit (8 * r) 0xff) :: u64) n = bit (push_bit (8 * k) 0xff :: u64) n"
          unfolding ff using Suc Suc.prems(1) by (auto simp: bit_simps)
      qed
      then show ?thesis using Suc by simp
    qed simp
    show ?thesis
      using Suc.IH Suc.prems small z True m by (auto simp: Let_def)
  next
    case False
    then have "256 ^ r \<le> unat x" by (simp add: div_eq_0_iff)
    then show ?thesis using z lt False Suc.prems by (simp add: Let_def)
  qed
qed

lemma WT_LEADING_ZEROS_spec:
  "WT_LEADING_ZEROS x \<le> 8"
  "unat x < 256 ^ (8 - WT_LEADING_ZEROS x)"
  "WT_LEADING_ZEROS x < 8 \<Longrightarrow> 256 ^ (7 - WT_LEADING_ZEROS x) \<le> unat x"
  using leading_zeros_loop_spec [of 8 x] u64_less [of x]
  by (auto simp: WT_LEADING_ZEROS_def Let_def)


definition uint_form :: "nat \<Rightarrow> u8 \<Rightarrow> u8 list \<Rightarrow> bool" where
  "uint_form n b ts \<longleftrightarrow>
     (if n \<le> 63 then unat b = 128 + n \<and> ts = []
      else if n \<le> 8255 then
        unat b = 192 + (n - 64) div 256 \<and> length ts = 1 \<and> be_val ts = (n - 64) mod 256
      else unat b = 224 + length ts \<and> 1 \<le> length ts \<and> length ts \<le> 8 \<and>
        be_val ts = n - 8256 \<and> (1 < length ts \<longrightarrow> 256 ^ (length ts - 1) \<le> n - 8256))"

lemmas intpack_consts = NEG_MULTI_MARKER_def NEG_2BYTE_MARKER_def NEG_1BYTE_MARKER_def
  POS_1BYTE_MARKER_def POS_2BYTE_MARKER_def POS_MULTI_MARKER_def
  NEG_1BYTE_MIN_def NEG_2BYTE_MIN_def POS_1BYTE_MAX_def POS_2BYTE_MAX_def

lemma unat_POS_BYTE_MAX [wt_unat]:
  "unat POS_1BYTE_MAX = 63" "unat POS_2BYTE_MAX = 8255" "unat (POS_2BYTE_MAX + 1) = 8256"
  "unat (POS_1BYTE_MAX + 1) = 64"
  by (simp_all add: intpack_consts)

lemma unat_marker_GET_BITS:
  assumes "2 ^ k dvd unat (m :: u8)" and "(unat x mod 2 ^ s) div 2 ^ e < 2 ^ k" and "k \<le> 8"
  shows "unat (m OR ucast (GET_BITS x s e)) = unat m + (unat x mod 2 ^ s) div 2 ^ e"
proof -
  have "(2 :: nat) ^ k \<le> 2 ^ 8" using assms(3) by (intro power_increasing) auto
  then have "unat (ucast (GET_BITS x s e) :: u8) = (unat x mod 2 ^ s) div 2 ^ e"
    using assms(2) by (simp add: unat_ucast_u8 unat_GET_BITS)
  then show ?thesis
    using unat_or_marker [OF assms(1), of "ucast (GET_BITS x s e)"] assms(2) by simp
qed

lemma wt_vpack_posint_form:
  assumes "wt_vpack_posint b0 maxlen x = Inr bs" and "unat b0 mod 16 = 0"
  obtains b ts where "bs = b # ts" and "unat b = unat b0 + length ts" and "length ts \<le> 8"
    and "be_val ts = unat x" and "0 < length ts \<longrightarrow> 256 ^ (length ts - 1) \<le> unat x"
    and "maxlen = 0 \<or> length bs \<le> maxlen"
proof -
  define len where "len = 8 - WT_LEADING_ZEROS x"
  have len: "len \<le> 8" by (simp add: len_def)
  have bs: "bs = (b0 OR (of_nat len AND 0xf)) # pack_bytes len x"
    and mx: "maxlen = 0 \<or> len + 1 \<le> maxlen"
    using assms(1) by (auto simp: wt_vpack_posint_def len_def WT_SIZE_CHECK_PACK_def Let_def split: if_splits)
  have u: "unat (of_nat len AND 0xf :: u8) = len"
    using len by (simp add: unat_low_nibble unat_of_nat)
  have "unat (b0 OR (of_nat len AND 0xf)) = unat b0 + len"
    using unat_or_marker [of 4 b0 "of_nat len AND 0xf"] u len assms(2) by auto
  moreover have "be_val (pack_bytes len x) = unat x"
    using WT_LEADING_ZEROS_spec(2) [of x] by (simp add: len_def)
  moreover have "0 < len \<longrightarrow> 256 ^ (len - 1) \<le> unat x"
    using WT_LEADING_ZEROS_spec(3) [of x] by (auto simp: len_def)
  ultimately show thesis using that bs mx len by auto
qed

lemma wt_vpack_uint_form:
  assumes "wt_vpack_uint maxlen x = Inr bs"
  obtains b ts where "bs = b # ts" and "uint_form (unat x) b ts"
    and "maxlen = 0 \<or> length bs \<le> maxlen \<or> x = POS_2BYTE_MAX + 1"
proof -
  consider (one) "unat x \<le> 63" | (two) "63 < unat x" "unat x \<le> 8255" | (special) "unat x = 8256"
    | (multi) "8256 < unat x" by linarith
  then show thesis
  proof cases
    case one
    then have bs: "bs = [POS_1BYTE_MARKER OR ucast (GET_BITS x 6 0)]"
      and mx: "maxlen = 0 \<or> 1 \<le> maxlen"
      using assms by (auto simp: wt_vpack_uint_def WT_SIZE_CHECK_PACK_def nat_le_word unat_POS_BYTE_MAX split: if_splits)
    have "unat (POS_1BYTE_MARKER OR ucast (GET_BITS x 6 0)) = 128 + unat x"
      using unat_marker_GET_BITS [of 6 POS_1BYTE_MARKER x 6 0] one by (simp add: intpack_consts)
    then show thesis using that bs one mx by (auto simp: uint_form_def)
  next
    case two
    define y where "y = x - (POS_1BYTE_MAX + 1)"
    have y: "unat y = unat x - 64"
      using two by (simp add: y_def unat_sub nat_le_word unat_POS_BYTE_MAX)
    have bs: "bs = [POS_2BYTE_MARKER OR ucast (GET_BITS y 13 8), ucast (GET_BITS y 8 0)]"
      and mx: "maxlen = 0 \<or> 2 \<le> maxlen"
      using assms two by (auto simp: wt_vpack_uint_def WT_SIZE_CHECK_PACK_def nat_le_word
          unat_POS_BYTE_MAX y_def Let_def split: if_splits)
    have "(unat y mod 2 ^ 13) div 2 ^ 8 = (unat x - 64) div 256" "(unat x - 64) div 256 < 32"
      using y two by auto
    then have "unat (POS_2BYTE_MARKER OR ucast (GET_BITS y 13 8)) = 192 + (unat x - 64) div 256"
      using unat_marker_GET_BITS [of 5 POS_2BYTE_MARKER y 13 8] by (simp add: intpack_consts)
    moreover have "unat (ucast (GET_BITS y 8 0) :: u8) = (unat x - 64) mod 256"
      by (simp add: unat_ucast_u8 unat_GET_BITS y)
    ultimately show thesis using that bs two mx by (auto simp: uint_form_def)
  next
    case special
    then have x: "x = POS_2BYTE_MAX + 1" by (simp add: word_unat_eq_iff unat_POS_BYTE_MAX)
    then have "bs = [0xe1, 0]"
      using assms special by (auto simp: wt_vpack_uint_def nat_le_word unat_POS_BYTE_MAX intpack_consts split: if_splits)
    then show thesis using that [of "0xe1" "[0]"] special x by (auto simp: uint_form_def)
  next
    case multi
    define y where "y = x - (POS_2BYTE_MAX + 1)"
    have y: "unat y = unat x - 8256"
      using multi by (simp add: y_def unat_sub nat_le_word unat_POS_BYTE_MAX)
    have "\<not> x \<le> POS_1BYTE_MAX" "\<not> x \<le> POS_2BYTE_MAX" "x \<noteq> POS_2BYTE_MAX + 1"
      using multi by (auto simp: nat_le_word unat_POS_BYTE_MAX word_unat_eq_iff)
    then have "wt_vpack_posint POS_MULTI_MARKER maxlen y = Inr bs"
      using assms by (auto simp: wt_vpack_uint_def y_def split: if_splits)
    then obtain b ts where f: "bs = b # ts" "unat b = unat POS_MULTI_MARKER + length ts"
      "length ts \<le> 8" "be_val ts = unat y" "0 < length ts \<longrightarrow> 256 ^ (length ts - 1) \<le> unat y"
      "maxlen = 0 \<or> length bs \<le> maxlen"
      by (rule wt_vpack_posint_form) (simp add: intpack_consts)
    have "ts \<noteq> []" using f(4) y multi by auto
    then have "uint_form (unat x) b ts"
      using f y multi by (auto simp: uint_form_def intpack_consts Suc_le_eq)
    then show thesis using that f by auto
  qed
qed

lemma high_nibble_eq: "b AND 0xf0 = c \<longleftrightarrow> 16 * (unat (b :: u8) div 16) = unat c"
  by (simp add: u8_eq_iff unat_high_nibble)

lemma wt_vunpack_uint_form:
  assumes f: "uint_form (unat x) b ts" and mx: "maxlen = 0 \<or> length ts + 1 \<le> maxlen"
  shows "wt_vunpack_uint maxlen (b # ts @ r) = Inr (x, r)"
proof -
  have mx1: "\<not> WT_SIZE_CHECK_UNPACK 1 maxlen"
    using mx by (auto simp: WT_SIZE_CHECK_UNPACK_def)
  consider (one) "unat x \<le> 63" | (two) "63 < unat x" "unat x \<le> 8255" | (multi) "8255 < unat x"
    by linarith
  then show ?thesis
  proof cases
    case one
    then have b: "unat b = 128 + unat x" and t: "ts = []" using f by (auto simp: uint_form_def)
    have "unat b div 16 \<in> {8, 9, 10, 11}" using b one by auto
    then have "16 * (unat b div 16) \<in> {128, 144, 160, 176}" by auto
    moreover have "GET_BITS (ucast b) 6 0 = x"
    proof -
      have "unat (ucast b :: u64) = unat b"
        using u8_less [of b] by (simp add: unsigned_ucast_eq take_bit_nat_eq_self)
      moreover have "unat b = unat x + 2 * 64" using b by simp
      then have "unat b mod 64 = unat x" using one by (simp only: mod_mult_self1) simp
      ultimately show ?thesis by (simp add: word_unat_eq_iff unat_GET_BITS)
    qed
    ultimately show ?thesis
      using mx1 t by (auto simp: wt_vunpack_uint_def Let_def high_nibble_eq intpack_consts)
  next
    case two
    then have b: "unat b = 192 + (unat x - 64) div 256" and t: "length ts = 1" "be_val ts = (unat x - 64) mod 256"
      using f by (auto simp: uint_form_def)
    then obtain b' where ts: "ts = [b']" "unat b' = (unat x - 64) mod 256" by (cases ts) auto
    have mx2: "\<not> WT_SIZE_CHECK_UNPACK 2 maxlen" using mx t by (auto simp: WT_SIZE_CHECK_UNPACK_def)
    have lt: "(unat x - 64) div 256 < 32" using two by auto
    then have "192 \<le> unat b" "unat b < 224" using b by simp_all
    then have "unat b div 16 = 12 \<or> unat b div 16 = 13"
      using div_le_mono [of 192 "unat b" 16] div_le_mono [of "unat b" 223 16] by auto
    then have c: "16 * (unat b div 16) \<in> {192, 208}" by auto
    have ub: "unat (ucast b :: u64) = unat b"
      using u8_less [of b] by (simp add: unsigned_ucast_eq take_bit_nat_eq_self)
    have "unat (GET_BITS (ucast b) 5 0) = (unat x - 64) div 256"
      using b lt ub by (simp add: unat_GET_BITS mod_add_eq [symmetric, of 192])
    then have "unat (push_bit 8 (GET_BITS (ucast b) 5 0) OR ucast b') = unat x - 64"
      using ts(2) two by (simp add: unat_shift_in)
    then have "(push_bit 8 (GET_BITS (ucast b) 5 0) OR ucast b') + (POS_1BYTE_MAX + 1) = x"
      using two by (simp add: word_unat_eq_iff unat_word_ariths unat_POS_BYTE_MAX(1))
    then show ?thesis
      using mx1 mx2 ts c by (auto simp: wt_vunpack_uint_def Let_def high_nibble_eq intpack_consts)
  next
    case multi
    then have b: "unat b = 224 + length ts" and t: "1 \<le> length ts" "length ts \<le> 8" "be_val ts = unat x - 8256"
      using f by (auto simp: uint_form_def)
    have c: "unat b div 16 = 14" using b t by auto
    have "unat b = length ts + 14 * 16" using b by simp
    then have nib: "unat (b AND 0xf) = length ts"
      using t by (simp only: unat_low_nibble mod_mult_self1) simp
    obtain y where y: "unpack_bytes (length ts) 0 (ts @ r) = Inr (y, r)"
      "unat y = (unat (0 :: u64) * 256 ^ length ts + be_val ts) mod 2 ^ 64"
      using unpack_bytes_append [of ts "length ts" 0 r] by blast
    have "unat y = unat x - 8256" using y(2) t(3) u64_less [of x] by simp
    then have "y + (POS_2BYTE_MAX + 1) = x"
      using multi u64_less [of x] by (simp add: word_unat_eq_iff unat_word_ariths unat_POS_BYTE_MAX(2))
    then have "wt_ret (wt_vunpack_posint maxlen (b # ts @ r)) (\<lambda>(x, p). Inr (x + (POS_2BYTE_MAX + 1), p)) = Inr (x, r)"
      using y(1) mx by (auto simp: wt_vunpack_posint_def nib Let_def WT_SIZE_CHECK_UNPACK_def)
    then show ?thesis
      using mx1 c by (auto simp: wt_vunpack_uint_def Let_def high_nibble_eq intpack_consts)
  qed
qed


definition int_form :: "int \<Rightarrow> u8 \<Rightarrow> u8 list \<Rightarrow> bool" where
  "int_form n b ts \<longleftrightarrow>
     (if 0 \<le> n then uint_form (nat n) b ts
      else if - 64 \<le> n then unat b = 64 + nat (n + 64) \<and> ts = []
      else if - 8256 \<le> n then
        unat b = 32 + nat (n + 8256) div 256 \<and> length ts = 1 \<and> be_val ts = nat (n + 8256) mod 256
      else unat b = 24 - length ts \<and> 1 \<le> length ts \<and> length ts \<le> 8 \<and>
        n = int (be_val ts) - 256 ^ length ts \<and> 256 ^ (length ts - 1) \<le> - n - 1)"

lemma wt_vpack_int_form:
  assumes "wt_vpack_int maxlen x = Inr bs"
  obtains b ts where "bs = b # ts" and "int_form (sint x) b ts"
    and "maxlen = 0 \<or> length bs \<le> maxlen \<or> x = POS_2BYTE_MAX + 1"
proof -
  consider (multi) "sint x < - 8256" | (two) "- 8256 \<le> sint x" "sint x < - 64"
    | (one) "- 64 \<le> sint x" "sint x < 0" | (pos) "0 \<le> sint x" by linarith
  then show thesis
  proof cases
    case multi
    define len where "len = 8 - WT_LEADING_ZEROS (NOT x)"
    have n: "uint x = sint x + 2 ^ 64" using multi by (intro uint_sint_neg) simp
    have v: "int (unat (NOT x)) = - sint x - 1"
    proof -
      have "NOT x = - 1 - x" by (simp add: not_eq_complement)
      moreover have "unat (- 1 - x) = unat (- 1 :: u64) - unat x"
        by (intro unat_sub) simp
      ultimately have "unat (NOT x) = 2 ^ 64 - 1 - unat x" by (simp only: unat_minus_1_u64)
      then have "int (unat (NOT x)) = 2 ^ 64 - 1 - int (unat x)"
        using u64_less [of x] by (simp add: of_nat_diff)
      then show ?thesis using n by simp
    qed
    have lz: "unat (NOT x) < 256 ^ len" "len \<le> 8"
      "len > 0 \<Longrightarrow> 256 ^ (len - 1) \<le> unat (NOT x)"
      using WT_LEADING_ZEROS_spec [of "NOT x"] by (auto simp: len_def)
    have len1: "1 \<le> len"
    proof (rule ccontr)
      assume "\<not> 1 \<le> len"
      then have "len = 0" by simp
      then have "unat (NOT x) = 0" using lz(1) by simp
      then show False using v multi by simp
    qed
    have bs: "bs = (NEG_MULTI_MARKER OR (of_nat (8 - len) AND 0xf)) # pack_bytes len x"
      and mx: "maxlen = 0 \<or> len + 1 \<le> maxlen"
      using assms multi WT_LEADING_ZEROS_spec(1) [of "NOT x"]
      by (auto simp: wt_vpack_int_def wt_vpack_negint_def intpack_consts len_def
          WT_SIZE_CHECK_PACK_def Let_def split: if_splits)
    have "unat (of_nat (8 - len) AND 0xf :: u8) = 8 - len"
      by (simp add: unat_low_nibble unat_of_nat)
    then have b: "unat (NEG_MULTI_MARKER OR (of_nat (8 - len) AND 0xf)) = 24 - len"
      using unat_or_marker [of 4 NEG_MULTI_MARKER "of_nat (8 - len) AND 0xf"] lz(2)
      by (simp add: intpack_consts)
    have "int (unat x mod 256 ^ len) = sint x + 256 ^ len"
    proof -
      have "(256 :: int) ^ len dvd 2 ^ 64"
      proof -
        have "(2 :: int) ^ 64 = 256 ^ 8" by simp
        then show ?thesis using lz(2) by (simp only: le_imp_power_dvd)
      qed
      then obtain q where q: "(2 :: int) ^ 64 = 256 ^ len * q" by (elim dvdE)
      have "sint x + 256 ^ len < 256 ^ len" using multi by simp
      moreover have "0 \<le> sint x + 256 ^ len"
      proof -
        have "int (unat (NOT x)) < int (256 ^ len)" using lz(1) by (simp only: of_nat_less_iff)
        then show ?thesis using v by simp
      qed
      moreover have "uint x = sint x + 256 ^ len + 256 ^ len * (q - 1)"
        using n q by (simp add: algebra_simps)
      ultimately have "uint x mod 256 ^ len = sint x + 256 ^ len"
        by (simp only: mod_mult_self2 mod_pos_pos_trivial)
      then show ?thesis by (simp add: zmod_int)
    qed
    moreover have "256 ^ (len - 1) \<le> - sint x - 1"
    proof -
      have "int (256 ^ (len - 1)) \<le> int (unat (NOT x))"
        using lz(3) len1 by (simp only: of_nat_le_iff)
      then show ?thesis using v by simp
    qed
    ultimately have "int_form (sint x) (NEG_MULTI_MARKER OR (of_nat (8 - len) AND 0xf)) (pack_bytes len x)"
      using multi b lz(2) len1 by (simp add: int_form_def)
    then show thesis using that bs mx by auto
  next
    case two
    define y where "y = x + of_nat 8256"
    have y: "unat y = nat (sint x + 8256)"
      unfolding y_def using two unat_plus_neg [of x 8256] by simp
    have bs: "bs = [NEG_2BYTE_MARKER OR ucast (GET_BITS y 13 8), ucast (GET_BITS y 8 0)]"
      and mx: "maxlen = 0 \<or> 2 \<le> maxlen"
      using assms two by (auto simp: wt_vpack_int_def WT_SIZE_CHECK_PACK_def intpack_consts
          y_def Let_def split: if_splits)
    define k where "k = nat (sint x + 8256)"
    have k: "unat y = k" "k < 8192" using y two by (auto simp: k_def)
    have "(unat y mod 2 ^ 13) div 2 ^ 8 = k div 256" "k div 256 < 32"
      using k by auto
    then have "unat (NEG_2BYTE_MARKER OR ucast (GET_BITS y 13 8)) = 32 + k div 256"
      using unat_marker_GET_BITS [of 5 NEG_2BYTE_MARKER y 13 8] by (simp add: intpack_consts)
    moreover have "unat (ucast (GET_BITS y 8 0) :: u8) = k mod 256"
      by (simp add: unat_ucast_u8 unat_GET_BITS k)
    ultimately show thesis using that bs two mx by (auto simp: int_form_def k_def)
  next
    case one
    define y where "y = x + of_nat 64"
    have y: "unat y = nat (sint x + 64)"
      unfolding y_def using one unat_plus_neg [of x 64] by simp
    have bs: "bs = [NEG_1BYTE_MARKER OR ucast (GET_BITS y 6 0)]"
      and mx: "maxlen = 0 \<or> 1 \<le> maxlen"
      using assms one by (auto simp: wt_vpack_int_def WT_SIZE_CHECK_PACK_def intpack_consts
          y_def Let_def split: if_splits)
    have "unat (NEG_1BYTE_MARKER OR ucast (GET_BITS y 6 0)) = 64 + nat (sint x + 64)"
      using unat_marker_GET_BITS [of 6 NEG_1BYTE_MARKER y 6 0] y one by (simp add: intpack_consts)
    then show thesis using that bs one mx by (auto simp: int_form_def)
  next
    case pos
    then have "wt_vpack_uint maxlen x = Inr bs"
      using assms by (auto simp: wt_vpack_int_def intpack_consts split: if_splits)
    then obtain b ts where "bs = b # ts" "uint_form (unat x) b ts"
      "maxlen = 0 \<or> length bs \<le> maxlen \<or> x = POS_2BYTE_MAX + 1"
      by (rule wt_vpack_uint_form)
    moreover have "unat x = nat (sint x)"
      using uint_sint_nonneg [OF pos] by (simp add: unat_eq_nat_uint)
    ultimately show thesis using that pos by (auto simp: int_form_def)
  qed
qed


lemma wt_vunpack_int_form:
  assumes f: "int_form (sint x) b ts" and mx: "maxlen = 0 \<or> length ts + 1 \<le> maxlen"
  shows "wt_vunpack_int maxlen (b # ts @ r) = Inr (x, r)"
proof -
  have mx1: "\<not> WT_SIZE_CHECK_UNPACK 1 maxlen"
    using mx by (auto simp: WT_SIZE_CHECK_UNPACK_def)
  have ub: "unat (ucast b :: u64) = unat b"
    using u8_less [of b] by (simp add: unsigned_ucast_eq take_bit_nat_eq_self)
  consider (multi) "sint x < - 8256" | (two) "- 8256 \<le> sint x" "sint x < - 64"
    | (one) "- 64 \<le> sint x" "sint x < 0" | (pos) "0 \<le> sint x" by linarith
  then show ?thesis
  proof cases
    case multi
    then have b: "unat b = 24 - length ts" and t: "1 \<le> length ts" "length ts \<le> 8"
      "sint x = int (be_val ts) - 256 ^ length ts"
      using f by (auto simp: int_form_def)
    have "16 \<le> unat b" "unat b < 32" using b t by auto
    then have c: "unat b div 16 = 1" by simp
    have "unat b = (8 - length ts) + 1 * 16" using b t by simp
    then have "unat (b AND 0xf) = 8 - length ts"
      by (simp only: unat_low_nibble mod_mult_self1) simp
    moreover then have "unat (8 - (b AND 0xf)) = 8 - unat (b AND 0xf)"
      by (intro unat_sub [THEN trans]) (auto simp: nat_le_word)
    ultimately have nib: "unat (8 - (b AND 0xf)) = length ts" using t by simp
    obtain y where y: "unpack_bytes (length ts) (- 1) (ts @ r) = Inr (y, r)"
      "unat y = (unat (- 1 :: u64) * 256 ^ length ts + be_val ts) mod 2 ^ 64"
      using unpack_bytes_append [of ts "length ts" "- 1" r] by blast
    have "y = x"
    proof -
      have "int (unat y) = ((2 ^ 64 - 1) * 256 ^ length ts + int (be_val ts)) mod 2 ^ 64"
        unfolding y(2) unat_minus_1_u64 by (simp add: zmod_int)
      also have "\<dots> = (sint x + 2 ^ 64 * 256 ^ length ts) mod 2 ^ 64"
        unfolding t(3) by (simp add: algebra_simps)
      also have "\<dots> = sint x mod 2 ^ 64" by simp
      also have "\<dots> = uint x" by (simp add: uint_sint take_bit_eq_mod)
      finally show ?thesis by (simp add: word_uint_eq_iff)
    qed
    then have "wt_vunpack_negint maxlen (b # ts @ r) = Inr (x, r)"
      using y(1) mx by (auto simp: wt_vunpack_negint_def nib Let_def WT_SIZE_CHECK_UNPACK_def)
    then show ?thesis
      using mx1 c by (auto simp: wt_vunpack_int_def Let_def high_nibble_eq intpack_consts)
  next
    case two
    define k where "k = nat (sint x + 8256)"
    have b: "unat b = 32 + k div 256" and t: "length ts = 1" "be_val ts = k mod 256"
      using f two by (auto simp: int_form_def k_def)
    then obtain b' where ts: "ts = [b']" "unat b' = k mod 256" by (cases ts) auto
    have mx2: "\<not> WT_SIZE_CHECK_UNPACK 2 maxlen" using mx t by (auto simp: WT_SIZE_CHECK_UNPACK_def)
    have k: "k < 8192" using two by (simp add: k_def)
    have "32 \<le> unat b" "unat b < 64" using b k by auto
    then have "unat b div 16 = 2 \<or> unat b div 16 = 3"
      using div_le_mono [of 32 "unat b" 16] div_le_mono [of "unat b" 63 16] by auto
    then have c: "16 * (unat b div 16) \<in> {32, 48}" by auto
    have "unat (GET_BITS (ucast b) 5 0) = k div 256"
    proof -
      have "unat b = k div 256 + 1 * 32" using b by simp
      then have "unat b mod 32 = k div 256" using k by (simp only: mod_mult_self1) simp
      then show ?thesis using ub by (simp add: unat_GET_BITS)
    qed
    then have w: "unat (push_bit 8 (GET_BITS (ucast b) 5 0) OR ucast b') = k"
      using ts(2) k by (simp add: unat_shift_in)
    define w where "w = push_bit 8 (GET_BITS (ucast b) 5 0) OR ucast b'"
    have "w + of_int NEG_2BYTE_MIN = x"
    proof -
      have "unat (x + of_nat 8256) = k" unfolding k_def using two unat_plus_neg [of x 8256] by simp
      then have "w = x + of_nat 8256" using w by (simp add: w_def word_unat_eq_iff)
      then show ?thesis by (simp add: intpack_consts)
    qed
    then show ?thesis
      using mx1 mx2 ts c by (auto simp: wt_vunpack_int_def Let_def high_nibble_eq w_def intpack_consts)
  next
    case one
    define k where "k = nat (sint x + 64)"
    have b: "unat b = k + 1 * 64" and t: "ts = []" and k: "k < 64"
      using f one by (auto simp: int_form_def k_def)
    have "64 \<le> unat b" "unat b < 128" using b k by auto
    then have "unat b div 16 \<in> {4, 5, 6, 7}"
      using div_le_mono [of 64 "unat b" 16] div_le_mono [of "unat b" 127 16] by auto
    then have c: "16 * (unat b div 16) \<in> {64, 80, 96, 112}" by auto
    have "unat b mod 64 = k" using b k by (simp only: mod_mult_self1) simp
    then have g: "unat (GET_BITS (ucast b) 6 0) = k" using ub by (simp add: unat_GET_BITS)
    have "of_int NEG_1BYTE_MIN + GET_BITS (ucast b) 6 0 = x"
    proof -
      have "unat (x + of_nat 64) = k" unfolding k_def using one unat_plus_neg [of x 64] by simp
      then have "GET_BITS (ucast b) 6 0 = x + of_nat 64" using g by (simp add: word_unat_eq_iff)
      then show ?thesis by (simp add: intpack_consts)
    qed
    then show ?thesis
      using mx1 t c by (auto simp: wt_vunpack_int_def Let_def high_nibble_eq intpack_consts)
  next
    case pos
    then have u: "uint_form (unat x) b ts"
      using f uint_sint_nonneg [OF pos] by (simp add: int_form_def unat_eq_nat_uint)
    then have "128 \<le> unat b" by (auto simp: uint_form_def split: if_splits)
    then have "8 \<le> unat b div 16" using div_le_mono [of 128 "unat b" 16] by simp
    then show ?thesis
      using mx1 wt_vunpack_uint_form [OF u mx]
      by (auto simp: wt_vunpack_int_def Let_def high_nibble_eq intpack_consts)
  qed
qed

text \<open>A smaller number has a smaller first byte, or the same first byte and a smaller tail.\<close>

lemma uint_form_mono:
  assumes "m < n" and "uint_form m b ts" and "uint_form n c us"
  shows "unat b < unat c \<or> (unat b = unat c \<and> length ts = length us \<and> be_val ts < be_val us)"
proof -
  consider (one) "m \<le> 63" | (two) "63 < m" "m \<le> 8255" | (multi) "8255 < m" by linarith
  then show ?thesis
  proof cases
    case one
    with assms show ?thesis by (auto simp: uint_form_def split: if_splits)
  next
    case two
    show ?thesis
    proof (cases "n \<le> 8255")
      case True
      have "(m - 64) div 256 < (n - 64) div 256 \<or>
          ((m - 64) div 256 = (n - 64) div 256 \<and> (m - 64) mod 256 < (n - 64) mod 256)"
        using two assms(1) by (intro div_mod_less_nat) simp
      then show ?thesis using True two assms by (auto simp: uint_form_def)
    next
      case False
      have "(m - 64) div 256 < 32" using two by auto
      then show ?thesis using False two assms by (auto simp: uint_form_def)
    qed
  next
    case multi
    then have a: "unat b = 224 + length ts" "be_val ts = m - 8256" "1 \<le> length ts"
        "1 < length ts \<longrightarrow> 256 ^ (length ts - 1) \<le> m - 8256"
      and c: "unat c = 224 + length us" "be_val us = n - 8256" 
      using assms by (auto simp: uint_form_def)
    have "length ts \<le> length us"
    proof (rule ccontr)
      assume "\<not> length ts \<le> length us"
      then have l: "length us \<le> length ts - 1" "1 < length ts"
        using a(3) assms(3) multi assms(1) by (auto simp: uint_form_def)
      have "be_val us < 256 ^ length us" by (rule be_val_bound)
      also have "\<dots> \<le> 256 ^ (length ts - 1)" using l(1) by (intro power_increasing) auto
      also have "\<dots> \<le> m - 8256" using a(4) l(2) by blast
      finally show False using c(2) assms(1) multi by simp
    qed
    then show ?thesis using a c assms(1) multi by auto
  qed
qed

lemma int_form_mono:
  assumes "m < n" and "int_form m b ts" and "int_form n c us"
  shows "unat b < unat c \<or> (unat b = unat c \<and> length ts = length us \<and> be_val ts < be_val us)"
proof -
  have pos: "128 \<le> unat c" if "0 \<le> n"
    using that assms(3) by (auto simp: int_form_def uint_form_def split: if_splits)
  consider (multi) "m < - 8256" | (two) "- 8256 \<le> m" "m < - 64"
    | (one) "- 64 \<le> m" "m < 0" | (pos) "0 \<le> m" by linarith
  then show ?thesis
  proof cases
    case multi
    then have a: "unat b = 24 - length ts" "1 \<le> length ts" "length ts \<le> 8"
        "m = int (be_val ts) - 256 ^ length ts" "256 ^ (length ts - 1) \<le> - m - 1"
      using assms(2) by (auto simp: int_form_def)
    show ?thesis
    proof (cases "n < - 8256")
      case True
      then have c: "unat c = 24 - length us" "1 \<le> length us" "length us \<le> 8"
          "n = int (be_val us) - 256 ^ length us" "256 ^ (length us - 1) \<le> - n - 1"
        using assms(3) by (auto simp: int_form_def)
      have "length us \<le> length ts"
      proof (rule ccontr)
        assume "\<not> length us \<le> length ts"
        then have "(256 :: int) ^ length ts \<le> 256 ^ (length us - 1)"
          by (intro power_increasing) auto
        also have "\<dots> \<le> - n - 1" by (rule c(5))
        finally show False using a(4) assms(1) by simp
      qed
      then consider "length us < length ts" | "length us = length ts" by linarith
      then show ?thesis using a c assms(1) by cases auto
    next
      case False
      have "unat b < 24" using a by auto
      then show ?thesis
        using False assms(3) pos by (cases "0 \<le> n") (auto simp: int_form_def split: if_splits)
    qed
  next
    case two
    define j where "j = nat (m + 8256)"
    have a: "unat b = 32 + j div 256" "length ts = 1" "be_val ts = j mod 256" and j: "j < 8192"
      using two assms(2) by (auto simp: int_form_def j_def)
    show ?thesis
    proof (cases "n < - 64")
      case True
      define k where "k = nat (n + 8256)"
      have c: "unat c = 32 + k div 256" "length us = 1" "be_val us = k mod 256"
        using True two assms by (auto simp: int_form_def k_def)
      have "j < k" using two assms(1) by (simp add: j_def k_def)
      then have "j div 256 < k div 256 \<or> (j div 256 = k div 256 \<and> j mod 256 < k mod 256)"
        by (rule div_mod_less_nat)
      then show ?thesis using a c by auto
    next
      case False
      have "unat b < 64" using a j by auto
      then show ?thesis
        using False assms(3) pos by (cases "0 \<le> n") (auto simp: int_form_def split: if_splits)
    qed
  next
    case one
    then show ?thesis
      using assms pos by (cases "0 \<le> n") (auto simp: int_form_def split: if_splits)
  next
    case pos
    then show ?thesis using assms uint_form_mono [of "nat m" "nat n"] by (auto simp: int_form_def)
  qed
qed

subsection \<open>Round trips\<close>

lemma wt_vunpack_uint_vpack:
  assumes "wt_vpack_uint maxlen x = Inr bs" and "n = 0 \<or> length bs \<le> n"
  shows "wt_vunpack_uint n (bs @ r) = Inr (x, r)"
proof -
  obtain b ts where "bs = b # ts" "uint_form (unat x) b ts"
    by (rule wt_vpack_uint_form [OF assms(1)])
  then show ?thesis
    using assms(2) wt_vunpack_uint_form [of x b ts n r] by simp
qed

lemma wt_vunpack_int_vpack:
  assumes "wt_vpack_int maxlen x = Inr bs" and "n = 0 \<or> length bs \<le> n"
  shows "wt_vunpack_int n (bs @ r) = Inr (x, r)"
proof -
  obtain b ts where "bs = b # ts" "int_form (sint x) b ts"
    by (rule wt_vpack_int_form [OF assms(1)])
  then show ?thesis
    using assms(2) wt_vunpack_int_form [of x b ts n r] by simp
qed

text \<open>
  A packed unsigned integer reads back as itself, followed by whatever bytes come after it,
  under every reader's length bound that covers its bytes.
\<close>

theorem vpack_uint_roundtrip:
  assumes "wt_vpack_uint maxlen x = Inr bs" and "n = 0 \<or> length bs \<le> n"
  shows "wt_vunpack_uint n (bs @ r) = Inr (x, r)"
  using assms by (rule wt_vunpack_uint_vpack)

theorem vpack_uint_roundtrip_witness:
  "wt_vunpack_uint 3 ([0xe2, 0x01, 0x00] @ [7]) = Inr (8512, [7])"
proof (rule vpack_uint_roundtrip [of 0])
  show "wt_vpack_uint 0 8512 = Inr [0xe2, 0x01, 0x00]" by code_simp
qed simp

text \<open>
  C28: a packed signed integer (the 64-bit pattern of an \<open>int64_t\<close>) reads back as itself, in every
  one of the seven encodings.
\<close>

theorem vpack_int_roundtrip:
  assumes "wt_vpack_int maxlen x = Inr bs" and "n = 0 \<or> length bs \<le> n"
  shows "wt_vunpack_int n (bs @ r) = Inr (x, r)"
  using assms by (rule wt_vunpack_int_vpack)

theorem vpack_int_roundtrip_witness:
  "wt_vunpack_int 0 ([0x16, 0x79, 0x60] @ [1, 2]) = Inr (- 34464, [1, 2])"
proof (rule vpack_int_roundtrip [of 0])
  show "wt_vpack_int 0 (- 34464) = Inr [0x16, 0x79, 0x60]" by code_simp
qed simp

subsection \<open>Sizes and bounds\<close>

lemma wt_vsize_uint_le: "wt_vsize_uint x \<le> WT_INTPACK64_MAXSIZE"
  by (simp add: wt_vsize_uint_def wt_vsize_posint_def WT_INTPACK64_MAXSIZE_def)

lemma wt_vpack_uint_total:
  assumes "maxlen = 0 \<or> wt_vsize_uint x \<le> maxlen"
  shows "\<exists>bs. wt_vpack_uint maxlen x = Inr bs \<and> length bs = wt_vsize_uint x"
  using assms WT_LEADING_ZEROS_spec(1) [of "x - (POS_2BYTE_MAX + 1)"]
  by (auto simp: wt_vpack_uint_def wt_vsize_uint_def wt_vpack_posint_def wt_vsize_posint_def
      WT_SIZE_CHECK_PACK_def WT_INTPACK64_MAXSIZE_def Let_def not_le nat_le_word nat_less_word
      unat_POS_BYTE_MAX word_unat_eq_iff split: if_splits)

lemma wt_vpack_int_total:
  assumes "maxlen = 0 \<or> wt_vsize_int x \<le> maxlen"
  shows "\<exists>bs. wt_vpack_int maxlen x = Inr bs \<and> length bs = wt_vsize_int x"
proof (cases "sint x < 0")
  case True
  then show ?thesis
    using assms WT_LEADING_ZEROS_spec(1) [of "NOT x"]
    by (auto simp: wt_vpack_int_def wt_vsize_int_def wt_vpack_negint_def wt_vsize_negint_def
        WT_SIZE_CHECK_PACK_def WT_INTPACK64_MAXSIZE_def Let_def split: if_splits)
next
  case False
  then have "\<not> sint x < NEG_2BYTE_MIN" "\<not> sint x < NEG_1BYTE_MIN"
    by (auto simp: intpack_consts)
  moreover have "1 \<le> wt_vsize_uint x"
    using WT_LEADING_ZEROS_spec(1) [of "x - (POS_2BYTE_MAX + 1)"]
    by (auto simp: wt_vsize_uint_def wt_vsize_posint_def WT_INTPACK64_MAXSIZE_def Suc_le_eq)
  ultimately show ?thesis
    using False assms wt_vpack_uint_total [of maxlen x]
    by (auto simp: wt_vpack_int_def wt_vsize_int_def WT_SIZE_CHECK_PACK_def)
qed

text \<open>The bound decides whether packing succeeds, never what is stored.\<close>

lemma wt_vpack_uint_unchecked: "wt_vpack_uint m x = Inr bs \<Longrightarrow> wt_vpack_uint 0 x = Inr bs"
  by (auto simp: wt_vpack_uint_def wt_vpack_posint_def WT_SIZE_CHECK_PACK_def Let_def split: if_splits)

lemma wt_vpack_int_unchecked: "wt_vpack_int m x = Inr bs \<Longrightarrow> wt_vpack_int 0 x = Inr bs"
  by (auto simp: wt_vpack_int_def wt_vpack_negint_def WT_SIZE_CHECK_PACK_def Let_def
      wt_vpack_uint_unchecked split: if_splits)

text \<open>
  C29: the size functions are exact and total: with room for \<open>__wt_vsize_int\<close> bytes (or an
  unchecked buffer) packing succeeds and stores exactly that many bytes, never more than
  \<open>WT_INTPACK64_MAXSIZE\<close>.
\<close>

theorem vsize_int_exact:
  assumes "maxlen = 0 \<or> wt_vsize_int x \<le> maxlen"
  shows "\<exists>bs. wt_vpack_int maxlen x = Inr bs \<and> length bs = wt_vsize_int x \<and>
    length bs \<le> WT_INTPACK64_MAXSIZE"
proof -
  have "wt_vsize_int x \<le> WT_INTPACK64_MAXSIZE"
    using wt_vsize_uint_le [of x]
    by (auto simp: wt_vsize_int_def wt_vsize_negint_def WT_INTPACK64_MAXSIZE_def)
  then show ?thesis using wt_vpack_int_total [OF assms] by auto
qed

theorem vsize_int_exact_witness:
  "\<exists>bs. wt_vpack_int 3 8512 = Inr bs \<and> length bs = wt_vsize_int 8512 \<and>
    length bs \<le> WT_INTPACK64_MAXSIZE"
proof (rule vsize_int_exact)
  have "wt_vsize_int 8512 = 3" by code_simp
  then show "(3 :: nat) = 0 \<or> wt_vsize_int 8512 \<le> 3" by simp
qed

text \<open>
  A packing that was given a bound stays inside it, with exactly one exception: the value
  \<open>2^13 + 2^6\<close> with a bound of one byte, which is stored as two bytes after a check for one.
\<close>

theorem vpack_uint_within:
  assumes "wt_vpack_uint maxlen x = Inr bs" and "0 < maxlen"
  shows "length bs \<le> maxlen \<longleftrightarrow> \<not> (maxlen = 1 \<and> x = POS_2BYTE_MAX + 1)"
proof -
  have "(POS_2BYTE_MAX + 1 \<le> POS_1BYTE_MAX) = False" "(POS_2BYTE_MAX + 1 \<le> POS_2BYTE_MAX) = False"
    by (simp_all add: nat_le_word unat_POS_BYTE_MAX)
  then show ?thesis
    using assms by (auto simp: wt_vpack_uint_def wt_vpack_posint_def WT_SIZE_CHECK_PACK_def Let_def
        split: if_splits)
qed

theorem vpack_uint_within_witness:
  "wt_vpack_uint 1 (POS_2BYTE_MAX + 1) = Inr [0xe1, 0] \<and>
   (length [0xe1 :: u8, 0] \<le> 1 \<longleftrightarrow> \<not> ((1 :: nat) = 1 \<and> POS_2BYTE_MAX + 1 = POS_2BYTE_MAX + 1))"
proof -
  have *: "wt_vpack_uint 1 (POS_2BYTE_MAX + 1) = Inr [0xe1, 0]" by code_simp
  show ?thesis by (rule conjI [OF * vpack_uint_within [OF *]]) simp
qed

subsection \<open>Interface: a byte codec\<close>

text \<open>
  What every client of the packed integers relies on: encoding never fails on an unchecked buffer,
  and decoding an encoding gives the value back and leaves the bytes after it.
\<close>

locale byte_codec =
  fixes enc :: "'a \<Rightarrow> u8 list result" and dec :: "u8 list \<Rightarrow> ('a \<times> u8 list) result"
  assumes enc_total: "\<exists>bs. enc x = Inr bs"
    and dec_enc: "enc x = Inr bs \<Longrightarrow> dec (bs @ r) = Inr (x, r)"
begin

definition bytes :: "'a \<Rightarrow> u8 list" where
  "bytes x = (case enc x of Inl e \<Rightarrow> [] | Inr bs \<Rightarrow> bs)"

lemma enc_bytes [simp]: "enc x = Inr (bytes x)"
  using enc_total [of x] by (auto simp: bytes_def)

lemma dec_bytes [simp]: "dec (bytes x @ r) = Inr (x, r)"
  by (rule dec_enc) simp

lemma bytes_nonempty_rest: "dec (bytes x) = Inr (x, [])"
  using dec_bytes [of x "[]"] by simp

lemma bytes_inj: "bytes x @ r = bytes y @ s \<Longrightarrow> x = y \<and> r = s"
  by (metis dec_bytes Inr_inject prod.inject)

end

interpretation uint_codec: byte_codec "wt_vpack_uint 0" "wt_vunpack_uint 0"
proof unfold_locales
  show "\<exists>bs. wt_vpack_uint 0 x = Inr bs" for x
    using wt_vpack_uint_total [of 0 x] by blast
  show "wt_vpack_uint 0 x = Inr bs \<Longrightarrow> wt_vunpack_uint 0 (bs @ r) = Inr (x, r)" for x bs r
    by (rule wt_vunpack_uint_vpack) simp_all
qed

interpretation int_codec: byte_codec "wt_vpack_int 0" "wt_vunpack_int 0"
proof unfold_locales
  show "\<exists>bs. wt_vpack_int 0 x = Inr bs" for x
    using wt_vpack_int_total [of 0 x] by blast
  show "wt_vpack_int 0 x = Inr bs \<Longrightarrow> wt_vunpack_int 0 (bs @ r) = Inr (x, r)" for x bs r
    by (rule wt_vunpack_int_vpack) simp_all
qed

end
