(* ===== verification/KeyCompare.thy ===== *)
theory KeyCompare
  imports IntPack
begin

text \<open>
  Key comparison, \<open>src/include/btree_cmp_inline.h\<close>. A \<open>WT_ITEM\<close> is its bytes. The comparison
  results are the C values -1, 0 and 1. The vectorised loops compare 16 bytes at a time; which of
  them is compiled in is a parameter (\<open>simd\<close>), and \<open>aligned\<close> is the outcome of the run-time
  alignment test of both pointers. An application collator is a function argument.
\<close>

subsection \<open>The comparison routines\<close>

text \<open>\<open>(usz == tsz) ? 0 : (usz < tsz) ? -1 : 1\<close>\<close>

definition len_cmp :: "nat \<Rightarrow> nat \<Rightarrow> int" where
  "len_cmp usz tsz = (if usz = tsz then 0 else if usz < tsz then - 1 else 1)"

datatype simd = NoSimd | X86 | Neon

definition WT_VECTOR_SIZE :: nat where "WT_VECTOR_SIZE = 16"

text \<open>
  The vector loop: it runs over whole chunks and stops at the first that differs, with the bytes
  still to compare.
\<close>

fun vector_loop :: "nat \<Rightarrow> u8 list \<Rightarrow> u8 list \<Rightarrow> nat \<times> u8 list \<times> u8 list" where
  "vector_loop 0 u t = (0, u, t)"
| "vector_loop (Suc k) u t =
     (if take WT_VECTOR_SIZE u = take WT_VECTOR_SIZE t
      then vector_loop k (drop WT_VECTOR_SIZE u) (drop WT_VECTOR_SIZE t)
      else (Suc k, u, t))"

definition vector_prefix :: "nat \<Rightarrow> nat \<Rightarrow> u8 list \<Rightarrow> u8 list \<Rightarrow> nat \<times> u8 list \<times> u8 list" where
  "vector_prefix minlen len u t =
     (if len \<ge> minlen then
        (let remain = len mod WT_VECTOR_SIZE;
             (k, u, t) = vector_loop ((len - remain) div WT_VECTOR_SIZE) u t
         in (k * WT_VECTOR_SIZE + remain, u, t))
      else (len, u, t))"

definition simd_prefix :: "simd \<Rightarrow> nat \<Rightarrow> u8 list \<Rightarrow> u8 list \<Rightarrow> nat \<times> u8 list \<times> u8 list" where
  "simd_prefix arch len u t =
     (case arch of NoSimd \<Rightarrow> (len, u, t)
      | X86 \<Rightarrow> vector_prefix (WT_VECTOR_SIZE * 2) len u t
      | Neon \<Rightarrow> vector_prefix WT_VECTOR_SIZE len u t)"

text \<open>The byte loop: \<open>None\<close> when it runs to its end.\<close>

fun lex_loop :: "bool \<Rightarrow> nat \<Rightarrow> u8 list \<Rightarrow> u8 list \<Rightarrow> int option" where
  "lex_loop prefix (Suc len) (a # u) (b # t) =
     (if prefix \<and> (a = 0 \<or> b = 0) then Some (if a = 0 then 0 else 1)
      else if a \<noteq> b then Some (if a < b then - 1 else 1)
      else lex_loop prefix len u t)"
| "lex_loop prefix len u t = None"

definition wt_lex_compare :: "simd \<Rightarrow> u8 list \<Rightarrow> u8 list \<Rightarrow> bool \<Rightarrow> int" where
  "wt_lex_compare arch user tree prefix =
     (let usz = length user; tsz = length tree; len = min usz tsz;
          (len, userp, treep) = simd_prefix arch len user tree
      in case lex_loop prefix len userp treep of
           Some c \<Rightarrow> c
         | None \<Rightarrow> if usz = tsz \<or> (prefix \<and> usz < tsz) then 0 else if usz < tsz then - 1 else 1)"

type_synonym collator = "u8 list \<Rightarrow> u8 list \<Rightarrow> int result"

definition wt_compare :: "simd \<Rightarrow> collator option \<Rightarrow> u8 list \<Rightarrow> u8 list \<Rightarrow> int result" where
  "wt_compare arch collator user tree =
     (case collator of None \<Rightarrow> Inr (wt_lex_compare arch user tree False) | Some f \<Rightarrow> f user tree)"

definition wt_prefix_match :: "simd \<Rightarrow> u8 list \<Rightarrow> u8 list \<Rightarrow> int" where
  "wt_prefix_match arch prefix tree = wt_lex_compare arch prefix tree True"

text \<open>The bounds of a cursor and what of its tree the check reads.\<close>

record cursor_bounds =
  upper_bound :: "u8 list"
  lower_bound :: "u8 list"
  upper_inclusive :: bool
  lower_inclusive :: bool
  btree_row :: bool
  btree_collator :: "collator option"

text \<open>\<open>__wt_struct_unpack\<close> for the one-field format \<open>"q"\<close> of a record number bound.\<close>

definition struct_unpack_q :: "u8 list \<Rightarrow> u64 result" where
  "struct_unpack_q data =
     (if WT_SIZE_CHECK_UNPACK 1 (length data) then Inl EINVAL
      else wt_ret (wt_vunpack_int (length data) data) (\<lambda>(x, p). Inr x))"

definition wt_compare_bounds ::
    "simd \<Rightarrow> cursor_bounds \<Rightarrow> u8 list \<Rightarrow> u64 \<Rightarrow> bool \<Rightarrow> bool result" where
  "wt_compare_bounds arch c key recno upper =
     (if upper then
        wt_ret (if btree_row c
                then wt_ret (wt_compare arch (btree_collator c) key (upper_bound c)) (\<lambda>cmpp. Inr (cmpp, 0))
                else wt_ret (struct_unpack_q (upper_bound c)) (\<lambda>r. Inr (0, r)))
          (\<lambda>(cmpp, recno_bound).
            if upper_inclusive c
            then Inr (if btree_row c then cmpp > 0 else recno > recno_bound)
            else Inr (if btree_row c then cmpp \<ge> 0 else recno \<ge> recno_bound))
      else
        wt_ret (if btree_row c
                then wt_ret (wt_compare arch (btree_collator c) key (lower_bound c)) (\<lambda>cmpp. Inr (cmpp, 0))
                else wt_ret (struct_unpack_q (lower_bound c)) (\<lambda>r. Inr (0, r)))
          (\<lambda>(cmpp, recno_bound).
            if lower_inclusive c
            then Inr (if btree_row c then cmpp < 0 else recno < recno_bound)
            else Inr (if btree_row c then cmpp \<le> 0 else recno \<le> recno_bound)))"

text \<open>
  The skipping variant returns the comparison and the new \<open>*matchp\<close>. The vector loop advances
  \<open>*matchp\<close> by the bytes it consumed. On Neon it runs only when both pointers are aligned.
\<close>

definition skip_prefix :: "simd \<Rightarrow> bool \<Rightarrow> nat \<Rightarrow> u8 list \<Rightarrow> u8 list \<Rightarrow> nat \<times> u8 list \<times> u8 list" where
  "skip_prefix arch aligned len u t =
     (case arch of NoSimd \<Rightarrow> (len, u, t)
      | X86 \<Rightarrow> vector_prefix (WT_VECTOR_SIZE * 2) len u t
      | Neon \<Rightarrow> if aligned then vector_prefix WT_VECTOR_SIZE len u t else (len, u, t))"

fun skip_loop :: "nat \<Rightarrow> u8 list \<Rightarrow> u8 list \<Rightarrow> nat \<Rightarrow> int option \<times> nat" where
  "skip_loop (Suc len) (a # u) (b # t) matchp =
     (if a \<noteq> b then (Some (if a < b then - 1 else 1), matchp)
      else skip_loop len u t (matchp + 1))"
| "skip_loop len u t matchp = (None, matchp)"

definition wt_lex_compare_skip ::
    "simd \<Rightarrow> bool \<Rightarrow> u8 list \<Rightarrow> u8 list \<Rightarrow> nat \<Rightarrow> int \<times> nat" where
  "wt_lex_compare_skip arch aligned user tree matchp =
     (let usz = length user; tsz = length tree; len = min usz tsz - matchp;
          (len', userp, treep) = skip_prefix arch aligned len (drop matchp user) (drop matchp tree);
          matchp = matchp + (len - len')
      in case skip_loop len' userp treep matchp of
           (Some c, matchp) \<Rightarrow> (c, matchp)
         | (None, matchp) \<Rightarrow> (len_cmp usz tsz, matchp))"

definition wt_compare_skip ::
    "simd \<Rightarrow> bool \<Rightarrow> collator option \<Rightarrow> u8 list \<Rightarrow> u8 list \<Rightarrow> nat \<Rightarrow> (int \<times> nat) result" where
  "wt_compare_skip arch aligned collator user tree matchp =
     (case collator of None \<Rightarrow> Inr (wt_lex_compare_skip arch aligned user tree matchp)
      | Some f \<Rightarrow> wt_ret (f user tree) (\<lambda>cmpp. Inr (cmpp, matchp)))"

text \<open>
  The short variant: the switch enters at case \<open>len\<close> and falls through to case 1. A length that
  is not one of the cases goes straight to the comparison after the switch, which reads one byte
  of each item whatever their length.
\<close>

definition WT_COMPARE_SHORT_MAXLEN :: nat where "WT_COMPARE_SHORT_MAXLEN = 9"

definition short_last :: "u8 list \<Rightarrow> u8 list \<Rightarrow> int result" where
  "short_last u t =
     (case (u, t) of (a # u', b # t') \<Rightarrow> Inr (if a < b then - 1 else 1)
      | (_, _) \<Rightarrow> Inl OutOfBounds)"

fun short_case :: "nat \<Rightarrow> u8 list \<Rightarrow> u8 list \<Rightarrow> int option result" where
  "short_case 0 u t = Inr None"
| "short_case (Suc k) (a # u) (b # t) =
     (if a \<noteq> b then wt_ret (short_last (a # u) (b # t)) (\<lambda>c. Inr (Some c))
      else short_case k u t)"
| "short_case (Suc k) u t = Inl OutOfBounds"

definition wt_lex_compare_short :: "u8 list \<Rightarrow> u8 list \<Rightarrow> int result" where
  "wt_lex_compare_short user tree =
     (let usz = length user; tsz = length tree; len = min usz tsz in
      if 1 \<le> len \<and> len \<le> WT_COMPARE_SHORT_MAXLEN then
        wt_ret (short_case len user tree)
          (\<lambda>r. case r of Some c \<Rightarrow> Inr c
             | None \<Rightarrow> Inr (len_cmp usz tsz))
      else short_last user tree)"

subsection \<open>The byte order\<close>

fun bytes_cmp :: "u8 list \<Rightarrow> u8 list \<Rightarrow> int" where
  "bytes_cmp [] [] = 0"
| "bytes_cmp [] (b # t) = - 1"
| "bytes_cmp (a # u) [] = 1"
| "bytes_cmp (a # u) (b # t) = (if a < b then - 1 else if b < a then 1 else bytes_cmp u t)"

fun common_prefix :: "u8 list \<Rightarrow> u8 list \<Rightarrow> nat" where
  "common_prefix (a # u) (b # t) = (if a = b then Suc (common_prefix u t) else 0)"
| "common_prefix u t = 0"

lemma bytes_cmp_lexordp:
  "bytes_cmp u t < 0 \<longleftrightarrow> ord_class.lexordp u t"
  "bytes_cmp u t > 0 \<longleftrightarrow> ord_class.lexordp t u"
  "bytes_cmp u t = 0 \<longleftrightarrow> u = t"
  by (induction u t rule: bytes_cmp.induct) auto

lemma bytes_cmp_append [simp]: "bytes_cmp (p @ u) (p @ t) = bytes_cmp u t"
  by (induction p) auto

lemma common_prefix_append [simp]: "common_prefix (p @ u) (p @ t) = length p + common_prefix u t"
  by (induction p) auto

lemma common_prefix_maximal:
  "take (common_prefix u t) u = take (common_prefix u t) t"
  "common_prefix u t \<le> min (length u) (length t)"
  "common_prefix u t < min (length u) (length t) \<Longrightarrow> u ! common_prefix u t \<noteq> t ! common_prefix u t"
  by (induction u t rule: common_prefix.induct) auto

lemma len_cmp_Suc [simp]:
  "len_cmp (Suc m) (Suc n) = len_cmp m n" "len_cmp n n = 0"
  "len_cmp 0 (Suc n) = - 1" "len_cmp (Suc n) 0 = 1"
  by (simp_all add: len_cmp_def)

lemma lex_loop_bytes_cmp:
  "(case lex_loop False (min (length u) (length t)) u t of
      Some c \<Rightarrow> c | None \<Rightarrow> len_cmp (length u) (length t)) = bytes_cmp u t"
  by (induction u t rule: bytes_cmp.induct) (auto cong: option.case_cong prod.case_cong)

lemma skip_loop_bytes_cmp:
  "(case skip_loop (min (length u) (length t)) u t m of
      (Some c, m) \<Rightarrow> (c, m) | (None, m) \<Rightarrow> (len_cmp (length u) (length t), m)) =
   (bytes_cmp u t, m + common_prefix u t)"
  by (induction u t arbitrary: m rule: bytes_cmp.induct) (auto cong: option.case_cong prod.case_cong)

lemma short_case_bytes_cmp:
  "wt_ret (short_case (min (length u) (length t)) u t)
     (\<lambda>r. case r of Some c \<Rightarrow> Inr c | None \<Rightarrow> Inr (len_cmp (length u) (length t))) =
   Inr (bytes_cmp u t)"
  by (induction u t rule: bytes_cmp.induct) (auto simp: short_last_def)

subsection \<open>The vector loops skip equal bytes only\<close>

lemma vector_loop_prefix:
  assumes "vector_loop k u t = (k', u', t')" and "WT_VECTOR_SIZE * k \<le> min (length u) (length t)"
  shows "\<exists>p. u = p @ u' \<and> t = p @ t' \<and> k' \<le> k \<and> length p = WT_VECTOR_SIZE * (k - k')"
  using assms
proof (induction k u t arbitrary: k' u' t' rule: vector_loop.induct)
  case (2 k u t)
  show ?case
  proof (cases "take WT_VECTOR_SIZE u = take WT_VECTOR_SIZE t")
    case True
    have a: "WT_VECTOR_SIZE * k \<le> min (length (drop WT_VECTOR_SIZE u)) (length (drop WT_VECTOR_SIZE t))"
      using "2.prems"(2) by auto
    obtain p where p: "drop WT_VECTOR_SIZE u = p @ u'" "drop WT_VECTOR_SIZE t = p @ t'"
      "k' \<le> k" "length p = WT_VECTOR_SIZE * (k - k')"
      using "2.IH" [OF True _ a] "2.prems"(1) True by auto
    have "u = (take WT_VECTOR_SIZE u @ p) @ u'" "t = (take WT_VECTOR_SIZE u @ p) @ t'"
      using p True by (metis append.assoc append_take_drop_id)+
    moreover have "length (take WT_VECTOR_SIZE u @ p) = WT_VECTOR_SIZE * (Suc k - k')"
      using p "2.prems"(2) by (simp add: Suc_diff_le)
    ultimately show ?thesis using p(3) by (metis le_SucI)
  qed (use 2 in auto)
qed auto

lemma vector_prefix_prefix:
  assumes "vector_prefix minlen len u t = (len', u', t')" and "len = min (length u) (length t)"
  shows "\<exists>p. u = p @ u' \<and> t = p @ t' \<and> len' = min (length u') (length t') \<and> len = length p + len'"
proof (cases "minlen \<le> len")
  case True
  define r where "r = len mod WT_VECTOR_SIZE"
  define K where "K = (len - r) div WT_VECTOR_SIZE"
  obtain k' where k: "vector_loop K u t = (k', u', t')" "len' = k' * WT_VECTOR_SIZE + r"
    using assms(1) True by (auto simp: vector_prefix_def Let_def K_def r_def split: prod.splits)
  have "len - r = WT_VECTOR_SIZE * K"
    by (simp add: K_def r_def minus_mod_eq_mult_div)
  moreover have "r \<le> len" by (simp add: r_def)
  ultimately have e: "WT_VECTOR_SIZE * K + r = len" by linarith
  then have "WT_VECTOR_SIZE * K \<le> min (length u) (length t)" using assms(2) by linarith
  from vector_loop_prefix [OF k(1) this] obtain p where p: "u = p @ u'" "t = p @ t'" "k' \<le> K"
    "length p = WT_VECTOR_SIZE * (K - k')" by blast
  obtain d where d: "K = k' + d" using p(3) by (auto simp: le_iff_add)
  have "length p + len' = WT_VECTOR_SIZE * K + r"
    using p(4) k(2) unfolding d by (simp add: algebra_simps)
  then have "length p + len' = len" using e by linarith
  then show ?thesis using p assms(2) by (intro exI [of _ p]) auto
qed (use assms in \<open>auto simp: vector_prefix_def\<close>)

lemma simd_prefix_prefix:
  assumes "simd_prefix arch len u t = (len', u', t')" and "len = min (length u) (length t)"
  shows "\<exists>p. u = p @ u' \<and> t = p @ t' \<and> len' = min (length u') (length t') \<and> len = length p + len'"
  using assms by (cases arch) (auto simp: simd_prefix_def dest: vector_prefix_prefix)

lemma skip_prefix_prefix:
  assumes "skip_prefix arch aligned len u t = (len', u', t')" and "len = min (length u) (length t)"
  shows "\<exists>p. u = p @ u' \<and> t = p @ t' \<and> len' = min (length u') (length t') \<and> len = length p + len'"
  using assms by (cases arch) (auto simp: skip_prefix_def dest: vector_prefix_prefix split: if_splits)

lemma wt_lex_compare_bytes_cmp [simp]: "wt_lex_compare arch u t False = bytes_cmp u t"
proof -
  obtain len' u' t' where s: "simd_prefix arch (min (length u) (length t)) u t = (len', u', t')"
    by (metis prod_cases3)
  obtain p where p: "u = p @ u'" "t = p @ t'" "len' = min (length u') (length t')"
    using simd_prefix_prefix [OF s refl] by blast
  have "wt_lex_compare arch u t False =
      (case lex_loop False len' u' t' of Some c \<Rightarrow> c | None \<Rightarrow> len_cmp (length u) (length t))"
    using s by (simp add: wt_lex_compare_def len_cmp_def Let_def cong: option.case_cong)
  also have "len_cmp (length u) (length t) = len_cmp (length u') (length t')"
    using p by (simp add: len_cmp_def)
  finally show ?thesis using p lex_loop_bytes_cmp [of u' t'] by simp
qed

lemma wt_lex_compare_short_bytes_cmp:
  assumes "1 \<le> min (length u) (length t)" and "min (length u) (length t) \<le> WT_COMPARE_SHORT_MAXLEN"
  shows "wt_lex_compare_short u t = Inr (bytes_cmp u t)"
  using assms short_case_bytes_cmp [of u t] by (simp add: wt_lex_compare_short_def)

lemma wt_lex_compare_skip_bytes_cmp:
  assumes "matchp \<le> common_prefix u t"
  shows "wt_lex_compare_skip arch aligned u t matchp = (bytes_cmp u t, common_prefix u t)"
proof -
  let ?u = "drop matchp u" and ?t = "drop matchp t"
  have m: "matchp \<le> min (length u) (length t)"
    using assms common_prefix_maximal(2) [of u t] by linarith
  have "take matchp u = take matchp t"
    using common_prefix_maximal(1) [of u t] assms by (metis min.absorb1 take_take)
  then have ut: "u = take matchp u @ ?u" "t = take matchp u @ ?t" by (metis append_take_drop_id)+
  have cmp: "bytes_cmp u t = bytes_cmp ?u ?t" "common_prefix u t = matchp + common_prefix ?u ?t"
    using m ut by (metis bytes_cmp_append, metis common_prefix_append length_take min.bounded_iff min.absorb2)
  obtain len' u' t' where s: "skip_prefix arch aligned (min (length ?u) (length ?t)) ?u ?t = (len', u', t')"
    by (metis prod_cases3)
  obtain p where p: "?u = p @ u'" "?t = p @ t'" "len' = min (length u') (length t')"
    "min (length ?u) (length ?t) = length p + len'"
    using skip_prefix_prefix [OF s refl] by blast
  have len: "min (length u) (length t) - matchp = min (length ?u) (length ?t)" by (simp add: min_diff)
  have lc: "len_cmp (length u) (length t) = len_cmp (length u') (length t')"
  proof -
    have "length u = matchp + (length p + length u')" "length t = matchp + (length p + length t')"
      using p(1,2) m by (metis length_append length_drop le_add_diff_inverse min.bounded_iff)+
    then show ?thesis by (simp add: len_cmp_def)
  qed
  have "wt_lex_compare_skip arch aligned u t matchp =
      (case skip_loop len' u' t' (matchp + length p) of
        (Some c, m) \<Rightarrow> (c, m) | (None, m) \<Rightarrow> (len_cmp (length u') (length t'), m))"
    by (simp only: wt_lex_compare_skip_def Let_def len s [unfolded p(4)] prod.case lc p(4) diff_add_inverse2)
  also have "\<dots> = (bytes_cmp u' t', matchp + length p + common_prefix u' t')"
    using p(3) by (simp only: skip_loop_bytes_cmp)
  finally show ?thesis using p cmp by simp
qed

subsection \<open>The order of packed integers\<close>

lemma bytes_cmp_be_val: "length u = length t \<Longrightarrow> be_val u < be_val t \<Longrightarrow> bytes_cmp u t = - 1"
proof (induction u t rule: bytes_cmp.induct)
  case (4 a u b t)
  have l: "length u = length t" using 4 by simp
  have bu: "be_val u < 256 ^ length t" "be_val t < 256 ^ length t"
    using be_val_bound [of u] be_val_bound [of t] l by auto
  show ?case
  proof (cases "a = b")
    case True
    then show ?thesis using 4 by auto
  next
    case False
    then have ne: "unat a \<noteq> unat b" by (simp add: u8_eq_iff)
    have "\<not> unat b < unat a"
    proof
      assume "unat b < unat a"
      then have "(unat b + 1) * 256 ^ length t \<le> unat a * 256 ^ length t"
        by (intro mult_le_mono1) simp
      then show False using 4(3) bu l by (simp add: algebra_simps)
    qed
    then show ?thesis using ne by (simp add: nat_less_word)
  qed
qed auto

lemma wt_vpack_int_mono:
  assumes "wt_vpack_int m x = Inr bs" and "wt_vpack_int n y = Inr cs" and "sint x < sint y"
  shows "bytes_cmp bs cs = - 1"
proof -
  obtain b ts where b: "bs = b # ts" "int_form (sint x) b ts" by (rule wt_vpack_int_form [OF assms(1)])
  obtain c us where c: "cs = c # us" "int_form (sint y) c us" by (rule wt_vpack_int_form [OF assms(2)])
  show ?thesis
    using int_form_mono [OF assms(3) b(2) c(2)] b(1) c(1) bytes_cmp_be_val [of ts us]
    by (auto simp: nat_less_word u8_eq_iff)
qed

lemma wt_vpack_uint_mono:
  assumes "wt_vpack_uint m x = Inr bs" and "wt_vpack_uint n y = Inr cs" and "x < y"
  shows "bytes_cmp bs cs = - 1"
proof -
  obtain b ts where b: "bs = b # ts" "uint_form (unat x) b ts" by (rule wt_vpack_uint_form [OF assms(1)])
  obtain c us where c: "cs = c # us" "uint_form (unat y) c us" by (rule wt_vpack_uint_form [OF assms(2)])
  have "unat x < unat y" using assms(3) by (simp add: nat_less_word)
  then show ?thesis
    using uint_form_mono [OF _ b(2) c(2)] b(1) c(1) bytes_cmp_be_val [of ts us]
    by (auto simp: nat_less_word u8_eq_iff)
qed

lemma bytes_cmp_swap: "bytes_cmp t u = - bytes_cmp u t"
  by (induction u t rule: bytes_cmp.induct) (auto dest: less_asym)

subsection \<open>Properties\<close>

text \<open>
  C35: whichever vector unit is compiled in, the comparison without the prefix option decides the
  lexicographic order of the two byte strings.
\<close>

theorem lex_compare_order:
  "(wt_lex_compare arch u t False < 0 \<longleftrightarrow> ord_class.lexordp u t) \<and>
   (wt_lex_compare arch u t False = 0 \<longleftrightarrow> u = t) \<and>
   (wt_lex_compare arch u t False > 0 \<longleftrightarrow> ord_class.lexordp t u)"
  by (simp add: bytes_cmp_lexordp)

text \<open>
  C36: the skipping comparison, started anywhere inside the common prefix of the two keys, gives
  the result of the full comparison and leaves \<open>*matchp\<close> at the length of their longest common
  prefix.
\<close>

theorem lex_compare_skip_full:
  assumes "matchp \<le> common_prefix u t"
  shows "wt_lex_compare_skip arch aligned u t matchp =
    (wt_lex_compare arch' u t False, common_prefix u t)"
  by (simp add: wt_lex_compare_skip_bytes_cmp [OF assms])

theorem lex_compare_skip_full_witness:
  "wt_lex_compare_skip X86 True (replicate 33 7 @ [2]) (replicate 33 7 @ [3, 0]) 1 =
    (wt_lex_compare NoSimd (replicate 33 7 @ [2]) (replicate 33 7 @ [3, 0]) False,
     common_prefix (replicate 33 7 @ [2]) (replicate 33 7 @ [3, 0]))"
proof (rule lex_compare_skip_full)
  show "1 \<le> common_prefix (replicate 33 7 @ [2]) (replicate 33 7 @ [3, 0])" by simp
qed

text \<open>
  C37: packed integers sort as bytes the way the integers they encode sort as numbers, across all
  encodings, signs and lengths: keys made of packed record numbers need no collator.
\<close>

theorem packed_int_order:
  assumes "wt_vpack_int m x = Inr bs" and "wt_vpack_int n y = Inr cs"
  shows "wt_lex_compare arch bs cs False =
    (if sint x < sint y then - 1 else if sint x = sint y then 0 else 1)"
proof -
  consider "sint x < sint y" | "sint x = sint y" | "sint y < sint x" by linarith
  then show ?thesis
  proof cases
    case 1
    then show ?thesis using wt_vpack_int_mono [OF assms] by simp
  next
    case 2
    then have "x = y" by (rule signed_word_eqI)
    then have "bs = cs"
      using wt_vpack_int_unchecked [OF assms(1)] wt_vpack_int_unchecked [OF assms(2)] by simp
    then show ?thesis using 2 by (simp add: bytes_cmp_lexordp)
  next
    case 3
    then show ?thesis
      using wt_vpack_int_mono [OF assms(2,1)] bytes_cmp_swap [of cs bs] by simp
  qed
qed

theorem packed_int_order_witness:
  "wt_lex_compare X86 [0x3f, 0xff] [0x40] False =
    (if sint (- 65 :: u64) < sint (- 64 :: u64) then - 1
     else if sint (- 65 :: u64) = sint (- 64 :: u64) then 0 else 1)"
proof (rule packed_int_order)
  show "wt_vpack_int 0 (- 65) = Inr [0x3f, 0xff]" by code_simp
  show "wt_vpack_int 1 (- 64) = Inr [0x40]" by code_simp
qed

text \<open>
  The cursor bound check is the order test it stands for: on a row store without a collator it
  compares keys as byte strings, on a column store it compares the record number with the one
  packed in the bound (any bytes after the packed number are ignored), and it is strict exactly
  when the bound is inclusive.
\<close>

theorem compare_bounds_order:
  assumes "btree_collator c = None" and "wt_vpack_int m r = Inr bs" and "0 < length bs"
    and "btree_row c \<or> upper_bound c = bs @ rest \<and> lower_bound c = bs @ rest"
  shows "wt_compare_bounds arch c key recno upper = Inr (
    if btree_row c then
      (if upper then
         ord_class.lexordp (upper_bound c) key \<or> \<not> upper_inclusive c \<and> key = upper_bound c
       else ord_class.lexordp key (lower_bound c) \<or> \<not> lower_inclusive c \<and> key = lower_bound c)
    else if upper then r < recno \<or> \<not> upper_inclusive c \<and> recno = r
    else recno < r \<or> \<not> lower_inclusive c \<and> recno = r)"
proof (cases "btree_row c")
  case True
  then show ?thesis
    using assms(1) bytes_cmp_lexordp [of key "upper_bound c"] bytes_cmp_lexordp [of key "lower_bound c"]
    by (auto simp: wt_compare_bounds_def wt_compare_def) 
next
  case False
  have "struct_unpack_q (bs @ rest) = Inr r"
    using assms(3) wt_vunpack_int_vpack [OF assms(2), of "length (bs @ rest)" rest]
    by (simp add: struct_unpack_q_def WT_SIZE_CHECK_UNPACK_def)
  then show ?thesis
    using False assms(4) by (auto simp: wt_compare_bounds_def)
qed

theorem compare_bounds_order_witness:
  "wt_compare_bounds NoSimd \<lparr>upper_bound = [0xe1, 0, 9], lower_bound = [0xe1, 0, 9],
      upper_inclusive = False, lower_inclusive = True, btree_row = False, btree_collator = None\<rparr>
     [] 8256 True = Inr True"
  by (subst compare_bounds_order [where m = 0 and r = 8256 and bs = "[0xe1, 0]" and rest = "[9]"]) (simp, code_simp, simp_all)

text \<open>
  The prefix comparison stops at a NUL byte in the byte loop only: the vector loop passes over
  equal chunks that hold one, so the same two items compare differently with and without it.
\<close>

lemma prefix_match_vector_differs:
  "wt_prefix_match NoSimd (replicate 16 0 @ replicate 16 1) (replicate 16 0 @ replicate 16 2) = 0"
  "wt_prefix_match X86 (replicate 16 0 @ replicate 16 1) (replicate 16 0 @ replicate 16 2) = - 1"
  by code_simp+

end
