(* ===== verification/BlockAddr.thy ===== *)
theory BlockAddr
  imports IntPack
begin

text \<open>
  Block address and checkpoint cookies, \<open>src/block/block_addr.c\<close>. File offsets (\<open>wt_off_t\<close>) are
  kept as their 64-bit patterns, sizes and checksums as 32-bit words. A packing function returns
  the bytes stored from \<open>*pp\<close> on, an unpacking function the components and the bytes that follow.
  Assertions (diagnostic builds only) are not modelled; they do not change a result.
\<close>

subsection \<open>Data\<close>

definition WT_BLOCK_COOKIE_FILEID :: u8 where "WT_BLOCK_COOKIE_FILEID = 0x01"
definition WT_BLOCK_INVALID_OFFSET :: u64 where "WT_BLOCK_INVALID_OFFSET = 0"
definition WT_TIERED_OBJECTID_NONE :: u64 where "WT_TIERED_OBJECTID_NONE = 0"

text \<open>What a cookie needs of a \<open>WT_BLOCK\<close>.\<close>

record block_file =
  bf_allocsize :: u32
  bf_objectid :: u32
  bf_size :: u64

text \<open>The components of an address cookie.\<close>

record block_addr =
  a_objectid :: u32
  a_offset :: u64
  a_size :: u32
  a_checksum :: u32

text \<open>The part of a \<open>WT_BLOCK_CKPT\<close> a checkpoint cookie carries.\<close>

record block_ckpt =
  ci_version :: u8
  ci_root :: block_addr
  ci_alloc :: block_addr
  ci_avail :: block_addr
  ci_discard :: block_addr
  ci_file_size :: u64
  ci_ckpt_size :: u64

definition no_addr :: block_addr where
  "no_addr = \<lparr>a_objectid = 0, a_offset = 0, a_size = 0, a_checksum = 0\<rparr>"

subsection \<open>Address cookies\<close>

text \<open>The optional trailing object ID; \<open>consumed\<close> bytes of the cookie have been read.\<close>

definition block_addr_unpack :: "block_file \<Rightarrow> nat \<Rightarrow> u8 list \<Rightarrow> (block_addr \<times> u8 list) result" where
  "block_addr_unpack block addr_size begin_p =
     wt_ret (wt_vunpack_uint 0 begin_p) (\<lambda>(o', p).
     wt_ret (wt_vunpack_uint 0 p) (\<lambda>(s, p).
     wt_ret (wt_vunpack_uint 0 p) (\<lambda>(c, p).
     wt_ret
       (if addr_size \<noteq> 0 \<and> length begin_p - length p < addr_size then
          (case p of [] \<Rightarrow> Inl OutOfBounds
           | flags # p \<Rightarrow>
             if flags AND WT_BLOCK_COOKIE_FILEID \<noteq> 0 then wt_vunpack_uint 0 p else Inr (0, p))
        else Inr (0, p))
       (\<lambda>(i, p).
         Inr (if s = 0 then no_addr
              else \<lparr>a_objectid = ucast i,
                    a_offset = (o' + 1) * ucast (bf_allocsize block),
                    a_size = ucast s * bf_allocsize block,
                    a_checksum = ucast c\<rparr>, p)))))"

definition wt_block_addr_pack :: "block_file \<Rightarrow> block_addr \<Rightarrow> u8 list result" where
  "wt_block_addr_pack block a =
     (let (i, o', s, c) =
        (if a_size a = 0 then (0, WT_BLOCK_INVALID_OFFSET, 0, 0)
         else (ucast (a_objectid a), a_offset a div ucast (bf_allocsize block) - 1,
               ucast (a_size a div bf_allocsize block), ucast (a_checksum a)))
      in wt_ret (wt_vpack_uint 0 o') (\<lambda>bo.
         wt_ret (wt_vpack_uint 0 s) (\<lambda>bs.
         wt_ret (wt_vpack_uint 0 c) (\<lambda>bc.
         if i \<noteq> WT_TIERED_OBJECTID_NONE
         then wt_ret (wt_vpack_uint 0 i) (\<lambda>bi. Inr (bo @ bs @ bc @ WT_BLOCK_COOKIE_FILEID # bi))
         else Inr (bo @ bs @ bc)))))"

definition wt_block_addr_unpack :: "block_file \<Rightarrow> u8 list \<Rightarrow> nat \<Rightarrow> block_addr result" where
  "wt_block_addr_unpack block p addr_size =
     wt_ret (block_addr_unpack block addr_size p) (\<lambda>(a, p). Inr a)"

text \<open>\<open>offset + size\<close> is a signed 64-bit addition.\<close>

definition wt_block_addr_invalid :: "block_file \<Rightarrow> u8 list \<Rightarrow> nat \<Rightarrow> unit result" where
  "wt_block_addr_invalid block addr addr_size =
     wt_ret (wt_block_addr_unpack block addr addr_size) (\<lambda>a.
       if a_objectid a = bf_objectid block \<and>
          sint (a_offset a + ucast (a_size a)) > sint (bf_size block)
       then Inl EINVAL else Inr ())"

subsection \<open>Checkpoint cookies\<close>

definition block_ckpt_unpack :: "block_file \<Rightarrow> u8 list \<Rightarrow> nat \<Rightarrow> block_ckpt result" where
  "block_ckpt_unpack block begin_p ckpt_size =
     (case begin_p of [] \<Rightarrow> Inl OutOfBounds
      | version # p \<Rightarrow>
        wt_ret (block_addr_unpack block 0 p) (\<lambda>(root, p).
        wt_ret (block_addr_unpack block 0 p) (\<lambda>(alloc, p).
        wt_ret (block_addr_unpack block 0 p) (\<lambda>(avail, p).
        wt_ret (block_addr_unpack block 0 p) (\<lambda>(discard, p).
        wt_ret (wt_vunpack_uint 0 p) (\<lambda>(file_size, p).
        wt_ret (wt_vunpack_uint 0 p) (\<lambda>(ckpt_sz, p).
        wt_ret
          (if length begin_p - length p \<noteq> ckpt_size then
             (case p of [] \<Rightarrow> Inl OutOfBounds
              | flags # p \<Rightarrow>
                if flags AND WT_BLOCK_COOKIE_FILEID \<noteq> 0 then wt_vunpack_uint 0 p else Inr (0, p))
           else Inr (0, p))
          (\<lambda>(objectid, p).
            Inr \<lparr>ci_version = version,
                 ci_root = root\<lparr>a_objectid := ucast objectid\<rparr>,
                 ci_alloc = alloc\<lparr>a_objectid := ucast objectid\<rparr>,
                 ci_avail = avail\<lparr>a_objectid := ucast objectid\<rparr>,
                 ci_discard = discard\<lparr>a_objectid := ucast objectid\<rparr>,
                 ci_file_size = file_size, ci_ckpt_size = ckpt_sz\<rparr>))))))))"

definition wt_block_ckpt_pack :: "block_file \<Rightarrow> block_ckpt \<Rightarrow> bool \<Rightarrow> u8 list result" where
  "wt_block_ckpt_pack block ci skip_avail =
     wt_ret (wt_block_addr_pack block ((ci_root ci)\<lparr>a_objectid := 0\<rparr>)) (\<lambda>root.
     wt_ret (wt_block_addr_pack block ((ci_alloc ci)\<lparr>a_objectid := 0\<rparr>)) (\<lambda>alloc.
     wt_ret (if skip_avail then wt_block_addr_pack block no_addr
             else wt_block_addr_pack block ((ci_avail ci)\<lparr>a_objectid := 0\<rparr>)) (\<lambda>avail.
     wt_ret (wt_block_addr_pack block ((ci_discard ci)\<lparr>a_objectid := 0\<rparr>)) (\<lambda>discard.
     wt_ret (wt_vpack_uint 0 (ci_file_size ci)) (\<lambda>file_size.
     wt_ret (wt_vpack_uint 0 (ci_ckpt_size ci)) (\<lambda>ckpt_size.
     wt_ret (if bf_objectid block \<noteq> 0
             then wt_ret (wt_vpack_uint 0 (ucast (bf_objectid block)))
                    (\<lambda>i. Inr (WT_BLOCK_COOKIE_FILEID # i))
             else Inr [])
       (\<lambda>objectid. Inr (ci_version ci # root @ alloc @ avail @ discard @ file_size @ ckpt_size
          @ objectid))))))))"

subsection \<open>Round trips\<close>

text \<open>
  An address that survives packing: its offset is a positive multiple of the allocation size, its
  size a multiple; a size of zero stands for "no block".
\<close>

definition addr_ok :: "block_file \<Rightarrow> block_addr \<Rightarrow> bool" where
  "addr_ok block a \<longleftrightarrow> 0 < bf_allocsize block \<and>
     unat (bf_allocsize block) dvd unat (a_offset a) \<and> unat (bf_allocsize block) dvd unat (a_size a) \<and>
     (a_size a \<noteq> 0 \<longrightarrow> 0 < a_offset a)"

definition addr_norm :: "block_addr \<Rightarrow> block_addr" where
  "addr_norm a = (if a_size a = 0 then no_addr else a)"

lemma div_mult_word:
  assumes "unat (d :: 'a::len word) dvd unat x"
  shows "x div d * d = x"
proof -
  have "unat (x div d * d) = unat x mod 2 ^ LENGTH('a)"
    using assms by (simp add: unat_word_ariths(2) unat_div_distrib)
  then show ?thesis by (simp add: word_unat_eq_iff take_bit_nat_eq_self flip: take_bit_eq_mod)
qed

lemma ucast_u32_u64 [simp]:
  "(ucast (ucast (x :: u32) :: u64) :: u32) = x"
  "(ucast x :: u64) = 0 \<longleftrightarrow> x = 0"
  "unat (ucast x :: u64) = unat x"
proof -
  have "unat x < 2 ^ 32" using unsigned_less [of x] by simp
  then have "unat x < 2 ^ 64" by simp
  then show u: "unat (ucast x :: u64) = unat x"
    by (simp add: unsigned_ucast_eq take_bit_nat_eq_self)
  then show "(ucast x :: u64) = 0 \<longleftrightarrow> x = 0" by (simp add: word_unat_eq_iff)
  show "(ucast (ucast x :: u64) :: u32) = x"
    by (rule bit_word_eqI) (simp add: bit_simps)
qed

lemma addr_offset_back:
  assumes "addr_ok block a"
  shows "(a_offset a div ucast (bf_allocsize block) - 1 + 1) * ucast (bf_allocsize block) = a_offset a"
  using assms div_mult_word [of "ucast (bf_allocsize block)" "a_offset a"] by (simp add: addr_ok_def)

lemma addr_size_back:
  assumes "addr_ok block a"
  shows "a_size a div bf_allocsize block * bf_allocsize block = a_size a"
    and "a_size a div bf_allocsize block = 0 \<longleftrightarrow> a_size a = 0"
  using assms div_mult_word [of "bf_allocsize block" "a_size a"] by (auto simp: addr_ok_def)

text \<open>The optional object ID, with the bytes before it: written when not zero, read when present.\<close>

definition objectid_bytes :: "u32 \<Rightarrow> u8 list" where
  "objectid_bytes i = (if i = 0 then [] else WT_BLOCK_COOKIE_FILEID # uint_codec.bytes (ucast i))"

lemma fileid_flag [simp]: "WT_BLOCK_COOKIE_FILEID \<noteq> 0"
  by (simp add: WT_BLOCK_COOKIE_FILEID_def)

text \<open>What \<open>__wt_block_addr_pack\<close> stores: the triple and the object ID.\<close>

definition triple_bytes :: "block_file \<Rightarrow> block_addr \<Rightarrow> u8 list" where
  "triple_bytes block a =
     (if a_size a = 0
      then uint_codec.bytes 0 @ uint_codec.bytes 0 @ uint_codec.bytes 0
      else uint_codec.bytes (a_offset a div ucast (bf_allocsize block) - 1)
         @ uint_codec.bytes (ucast (a_size a div bf_allocsize block))
         @ uint_codec.bytes (ucast (a_checksum a)))"

lemma wt_block_addr_pack_bytes:
  "wt_block_addr_pack block a =
     Inr (triple_bytes block a @ (if a_size a = 0 then [] else objectid_bytes (a_objectid a)))"
  by (simp add: wt_block_addr_pack_def triple_bytes_def objectid_bytes_def
      WT_BLOCK_INVALID_OFFSET_def WT_TIERED_OBJECTID_NONE_def)

text \<open>Reading a triple inside a checkpoint cookie, where the cookie size passed is zero.\<close>

lemma block_addr_unpack_triple [simp]:
  assumes "addr_ok block a"
  shows "block_addr_unpack block 0 (triple_bytes block a @ r) =
    Inr (addr_norm (a\<lparr>a_objectid := 0\<rparr>), r)"
  using addr_offset_back [OF assms] addr_size_back [OF assms]
  by (auto simp: block_addr_unpack_def triple_bytes_def addr_norm_def)

lemma block_addr_unpack_cookie:
  assumes "addr_ok block a" and "wt_block_addr_pack block a = Inr bs"
  shows "block_addr_unpack block (length bs) bs = Inr (addr_norm a, [])"
proof (cases "a_size a = 0")
  case True
  then have "bs = uint_codec.bytes 0 @ uint_codec.bytes 0 @ uint_codec.bytes 0"
    using assms(2) by (simp add: wt_block_addr_pack_bytes triple_bytes_def)
  then show ?thesis
    using True uint_codec.bytes_nonempty_rest by (simp add: block_addr_unpack_def addr_norm_def)
next
  case False
  then have bs: "bs = uint_codec.bytes (a_offset a div ucast (bf_allocsize block) - 1)
      @ uint_codec.bytes (ucast (a_size a div bf_allocsize block))
      @ uint_codec.bytes (ucast (a_checksum a)) @ objectid_bytes (a_objectid a)"
    using assms(2) by (simp add: wt_block_addr_pack_bytes triple_bytes_def)
  show ?thesis
    using False addr_offset_back [OF assms(1)] addr_size_back [OF assms(1)]
      uint_codec.bytes_nonempty_rest
    by (auto simp: bs block_addr_unpack_def addr_norm_def objectid_bytes_def)
qed

lemma addr_ok_objectid [simp]: "addr_ok block (a\<lparr>a_objectid := i\<rparr>) = addr_ok block a"
  by (simp add: addr_ok_def)

lemma triple_bytes_objectid [simp]: "triple_bytes block (a\<lparr>a_objectid := i\<rparr>) = triple_bytes block a"
  by (simp add: triple_bytes_def)

lemma addr_norm_objectid [simp]:
  "(addr_norm (a\<lparr>a_objectid := i\<rparr>))\<lparr>a_objectid := j\<rparr> = (addr_norm a)\<lparr>a_objectid := j\<rparr>"
  by (simp add: addr_norm_def no_addr_def)

lemma addr_ok_no_addr [simp]: "addr_ok block no_addr \<longleftrightarrow> 0 < bf_allocsize block"
  by (auto simp: addr_ok_def no_addr_def)

text \<open>The checkpoint read back: every extent list gets the object ID of the block.\<close>

definition ckpt_norm :: "block_file \<Rightarrow> bool \<Rightarrow> block_ckpt \<Rightarrow> block_ckpt" where
  "ckpt_norm block skip_avail ci =
     ci\<lparr>ci_root := (addr_norm (ci_root ci))\<lparr>a_objectid := bf_objectid block\<rparr>,
        ci_alloc := (addr_norm (ci_alloc ci))\<lparr>a_objectid := bf_objectid block\<rparr>,
        ci_avail := (addr_norm (if skip_avail then no_addr else ci_avail ci))\<lparr>a_objectid := bf_objectid block\<rparr>,
        ci_discard := (addr_norm (ci_discard ci))\<lparr>a_objectid := bf_objectid block\<rparr>\<rparr>"

definition ckpt_ok :: "block_file \<Rightarrow> block_ckpt \<Rightarrow> bool" where
  "ckpt_ok block ci \<longleftrightarrow> addr_ok block (ci_root ci) \<and> addr_ok block (ci_alloc ci) \<and>
     addr_ok block (ci_avail ci) \<and> addr_ok block (ci_discard ci)"

lemma ckpt_pack_bytes:
  "wt_block_ckpt_pack block ci skip_avail = Inr (ci_version ci # triple_bytes block (ci_root ci)
     @ triple_bytes block (ci_alloc ci)
     @ triple_bytes block (if skip_avail then no_addr else ci_avail ci)
     @ triple_bytes block (ci_discard ci)
     @ uint_codec.bytes (ci_file_size ci) @ uint_codec.bytes (ci_ckpt_size ci)
     @ objectid_bytes (bf_objectid block))"
  by (simp add: wt_block_ckpt_pack_def wt_block_addr_pack_bytes objectid_bytes_def no_addr_def)

lemma block_ckpt_unpack_pack:
  assumes "ckpt_ok block ci" and "wt_block_ckpt_pack block ci skip_avail = Inr bs"
  shows "block_ckpt_unpack block bs (length bs) = Inr (ckpt_norm block skip_avail ci)"
proof -
  define av where "av = (if skip_avail then no_addr else ci_avail ci)"
  have ok: "addr_ok block (ci_root ci)" "addr_ok block (ci_alloc ci)" "addr_ok block av"
    "addr_ok block (ci_discard ci)"
    using assms(1) by (auto simp: ckpt_ok_def av_def) (simp add: addr_ok_def)
  have bs: "bs = ci_version ci # triple_bytes block (ci_root ci) @ triple_bytes block (ci_alloc ci)
     @ triple_bytes block av @ triple_bytes block (ci_discard ci)
     @ uint_codec.bytes (ci_file_size ci) @ uint_codec.bytes (ci_ckpt_size ci)
     @ objectid_bytes (bf_objectid block)"
    using assms(2) by (simp add: ckpt_pack_bytes av_def)
  show ?thesis
    using ok uint_codec.bytes_nonempty_rest
    by (cases "bf_objectid block = 0")
      (simp_all add: bs block_ckpt_unpack_def objectid_bytes_def ckpt_norm_def av_def [symmetric])
qed

subsection \<open>Properties\<close>

text \<open>
  C33: an address cookie unpacks to the address it was packed from, object ID included; an address
  of size zero unpacks to the "no block" address.
\<close>

theorem block_addr_roundtrip:
  assumes "addr_ok block a" and "wt_block_addr_pack block a = Inr bs"
  shows "wt_block_addr_unpack block bs (length bs) = Inr (if a_size a = 0 then no_addr else a)"
  by (simp add: wt_block_addr_unpack_def block_addr_unpack_cookie [OF assms] addr_norm_def)

theorem block_addr_roundtrip_witness:
  "wt_block_addr_unpack \<lparr>bf_allocsize = 4096, bf_objectid = 0, bf_size = 0\<rparr>
     [0x82, 0x82, 0xe1, 0x21, 1, 0x85] (length [0x82, 0x82, 0xe1, 0x21, 1, 0x85 :: u8]) =
   Inr (if a_size \<lparr>a_objectid = 5, a_offset = 12288, a_size = 8192, a_checksum = 8289\<rparr> = 0 then no_addr
        else \<lparr>a_objectid = 5, a_offset = 12288, a_size = 8192, a_checksum = 8289\<rparr>)"
proof (rule block_addr_roundtrip)
  show "addr_ok \<lparr>bf_allocsize = 4096, bf_objectid = 0, bf_size = 0\<rparr>
      \<lparr>a_objectid = 5, a_offset = 12288, a_size = 8192, a_checksum = 8289\<rparr>"
    by (simp add: addr_ok_def dvd_eq_mod_eq_0)
  show "wt_block_addr_pack \<lparr>bf_allocsize = 4096, bf_objectid = 0, bf_size = 0\<rparr>
      \<lparr>a_objectid = 5, a_offset = 12288, a_size = 8192, a_checksum = 8289\<rparr> =
    Inr [0x82, 0x82, 0xe1, 0x21, 1, 0x85]"
    by code_simp
qed

text \<open>
  C34: a checkpoint cookie unpacks to the checkpoint it was packed from: root and extent list
  addresses, file and checkpoint size, with the object ID of the block given to all four addresses
  and the available list left out when asked to.
\<close>

theorem block_ckpt_roundtrip:
  assumes "ckpt_ok block ci" and "wt_block_ckpt_pack block ci skip_avail = Inr bs"
  shows "block_ckpt_unpack block bs (length bs) = Inr (ckpt_norm block skip_avail ci)"
  using assms by (rule block_ckpt_unpack_pack)

theorem block_ckpt_roundtrip_witness:
  "\<exists>bs ci. ci_root ci = \<lparr>a_objectid = 2, a_offset = 12288, a_size = 8192, a_checksum = 8289\<rparr> \<and>
     block_ckpt_unpack \<lparr>bf_allocsize = 4096, bf_objectid = 2, bf_size = 0\<rparr> bs (length bs) = Inr ci"
proof -
  let ?b = "\<lparr>bf_allocsize = 4096, bf_objectid = 2, bf_size = 0\<rparr>"
  let ?r = "\<lparr>a_objectid = 2, a_offset = 12288, a_size = 8192, a_checksum = 8289\<rparr>"
  let ?ci = "\<lparr>ci_version = 1, ci_root = ?r, ci_alloc = no_addr, ci_avail = ?r, ci_discard = no_addr,
    ci_file_size = 65536, ci_ckpt_size = 4096\<rparr>"
  have "ckpt_ok ?b ?ci" by (simp add: ckpt_ok_def addr_ok_def no_addr_def dvd_eq_mod_eq_0)
  note * = block_ckpt_roundtrip [OF this ckpt_pack_bytes, of True]
  have "ci_root (ckpt_norm ?b True ?ci) = ?r" by (simp add: ckpt_norm_def addr_norm_def)
  with * show ?thesis by blast
qed

end
