(* ===== verification/SkipList.thy ===== *)
theory SkipList
  imports Wt_Prelude
begin

text \<open>
  The skip lists of the block manager (\<open>src/block/block_ext.c\<close>, \<open>src/include/btree_inline.h\<close>).

  A skip list is the list of its \<open>WT_SKIP_MAXDEPTH\<close> chains: chain \<open>i\<close> holds the nodes reached
  from the list head by following \<open>next[i]\<close>. A node is one object: it is the same value on every
  chain, and storing into it (\<open>skip_store\<close>) changes it on all of them. A slot (\<open>WT_EXT **\<close>), as kept on a
  search stack, is the head or the \<open>next[i]\<close> field of a node: \<open>None\<close> or \<open>Some node\<close>, with
  its level. The key and the depth of a node are given as functions, so the same search serves the
  by-offset lists, the by-size list and the offset lists of a size entry.
\<close>

definition WT_SKIP_MAXDEPTH :: nat where "WT_SKIP_MAXDEPTH = 10"
definition WT_SKIP_PROBABILITY :: u32 where "WT_SKIP_PROBABILITY = drop_bit 2 0xffffffff"

text \<open>
  \<open>__wt_skip_choose_depth\<close>: \<open>draw d\<close> is what \<open>__wt_random\<close> returns in the test at depth \<open>d\<close>; \<open>r\<close>
  counts the depths left below the maximum.
\<close>

fun choose_depth_loop :: "(nat \<Rightarrow> u32) \<Rightarrow> nat \<Rightarrow> nat \<Rightarrow> nat" where
  "choose_depth_loop draw d 0 = d"
| "choose_depth_loop draw d (Suc r) =
     (if draw d < WT_SKIP_PROBABILITY then choose_depth_loop draw (d + 1) r else d)"

definition wt_skip_choose_depth :: "(nat \<Rightarrow> u32) \<Rightarrow> nat" where
  "wt_skip_choose_depth draw = choose_depth_loop draw 1 (WT_SKIP_MAXDEPTH - 1)"

subsection \<open>Slots\<close>

text \<open>The chain from a slot on, and what the slot points to (\<open>*extp\<close>).\<close>

fun from_slot :: "'n option \<Rightarrow> 'n list \<Rightarrow> 'n list" where
  "from_slot None c = c"
| "from_slot (Some n) [] = []"
| "from_slot (Some n) (m # c) = (if m = n then c else from_slot (Some n) c)"

fun hd_opt :: "'n list \<Rightarrow> 'n option" where
  "hd_opt [] = None"
| "hd_opt (n # c) = Some n"

fun last_opt :: "'n list \<Rightarrow> 'n option" where
  "last_opt [] = None"
| "last_opt (n # c) = (case last_opt c of None \<Rightarrow> Some n | Some m \<Rightarrow> Some m)"

text \<open>Storing a pointer into a slot: the chain up to the slot, then the given rest.\<close>

fun set_slot :: "'n option \<Rightarrow> 'n list \<Rightarrow> 'n list \<Rightarrow> 'n list" where
  "set_slot None rest c = rest"
| "set_slot (Some n) rest [] = []"
| "set_slot (Some n) rest (m # c) = m # (if m = n then rest else set_slot (Some n) rest c)"

subsection \<open>Searching\<close>

text \<open>Go as far as possible at one level: from the slot \<open>cur\<close> over the chain that follows it.\<close>

fun go_right :: "('n \<Rightarrow> int) \<Rightarrow> int \<Rightarrow> 'n option \<Rightarrow> 'n list \<Rightarrow> 'n option" where
  "go_right key k cur [] = cur"
| "go_right key k cur (n # c) = (if key n < k then go_right key k (Some n) c else cur)"

text \<open>
  The search loop over the chains, given from the top level down: the stack of slots, lowest level
  first, with the last node passed.
\<close>

fun srch_down :: "('n \<Rightarrow> int) \<Rightarrow> int \<Rightarrow> 'n option \<Rightarrow> 'n list list \<Rightarrow> 'n option list \<Rightarrow> 'n option list \<times> 'n option"
  where
  "srch_down key k cur [] stack = (stack, cur)"
| "srch_down key k cur (c # cs) stack =
     (let cur = go_right key k cur (from_slot cur c) in srch_down key k cur cs (cur # stack))"

definition skip_srch :: "('n \<Rightarrow> int) \<Rightarrow> int \<Rightarrow> 'n list list \<Rightarrow> 'n option list \<times> 'n option" where
  "skip_srch key k lv = srch_down key k None (rev lv) []"

text \<open>The search for the end of the list: the same walk with no key to stop it.\<close>

fun go_end :: "'n option \<Rightarrow> 'n list \<Rightarrow> 'n option" where
  "go_end cur [] = cur"
| "go_end cur (n # c) = go_end (Some n) c"

fun last_down :: "'n option \<Rightarrow> 'n list list \<Rightarrow> 'n option list \<Rightarrow> 'n option list \<times> 'n option" where
  "last_down cur [] stack = (stack, cur)"
| "last_down cur (c # cs) stack =
     (let cur = go_end cur (from_slot cur c) in last_down cur cs (cur # stack))"

definition skip_last :: "'n list list \<Rightarrow> 'n option list \<times> 'n option" where
  "skip_last lv = last_down None (rev lv) []"

text \<open>The search for the nodes before and at or after a key.\<close>

fun pair_right :: "('n \<Rightarrow> int) \<Rightarrow> int \<Rightarrow> 'n option \<Rightarrow> 'n option \<Rightarrow> 'n list \<Rightarrow> 'n option \<times> 'n option" where
  "pair_right key k before after [] = (before, after)"
| "pair_right key k before after (n # c) =
     (if key n < k then pair_right key k (Some n) after c else (before, Some n))"

fun pair_down :: "('n \<Rightarrow> int) \<Rightarrow> int \<Rightarrow> 'n option \<Rightarrow> 'n option \<Rightarrow> 'n list list \<Rightarrow> 'n option \<times> 'n option" where
  "pair_down key k before after [] = (before, after)"
| "pair_down key k before after (c # cs) =
     (let (before, after) = pair_right key k before after (from_slot before c)
      in pair_down key k before after cs)"

definition skip_pair :: "('n \<Rightarrow> int) \<Rightarrow> int \<Rightarrow> 'n list list \<Rightarrow> 'n option \<times> 'n option" where
  "skip_pair key k lv = pair_down key k None None (rev lv)"

subsection \<open>Linking and unlinking\<close>

text \<open>
  Insertion of a node of depth \<open>d\<close> through a stack, \<open>n->next[i] = *stack[i]; *stack[i] = n\<close>, and
  removal, \<open>*stack[i] = n->next[i]\<close>, on the levels below \<open>d\<close>.
\<close>

definition skip_link :: "'n option list \<Rightarrow> nat \<Rightarrow> 'n \<Rightarrow> 'n list list \<Rightarrow> 'n list list" where
  "skip_link stack d n lv =
     map (\<lambda>i. if i < d then set_slot (stack ! i) (n # from_slot (stack ! i) (lv ! i)) (lv ! i)
              else lv ! i) [0..<length lv]"

definition skip_unlink :: "'n option list \<Rightarrow> nat \<Rightarrow> 'n \<Rightarrow> 'n list list \<Rightarrow> 'n list list" where
  "skip_unlink stack d n lv =
     map (\<lambda>i. if i < d then set_slot (stack ! i) (from_slot (Some n) (lv ! i)) (lv ! i)
              else lv ! i) [0..<length lv]"

text \<open>Appending at the end through a stack: \<open>*stack[i] = n\<close>, where \<open>n->next[i]\<close> is \<open>NULL\<close>.\<close>

definition skip_append :: "'n option list \<Rightarrow> nat \<Rightarrow> 'n \<Rightarrow> 'n list list \<Rightarrow> 'n list list" where
  "skip_append stack d n lv =
     map (\<lambda>i. if i < d then set_slot (stack ! i) [n] (lv ! i) else lv ! i) [0..<length lv]"

text \<open>What the lowest slot of a stack points to.\<close>

definition stack_node :: "'n option list \<Rightarrow> 'n list list \<Rightarrow> 'n option" where
  "stack_node stack lv = hd_opt (from_slot (stack ! 0) (lv ! 0))"

definition skip_store :: "'n \<Rightarrow> 'n \<Rightarrow> 'n list list \<Rightarrow> 'n list list" where
  "skip_store n n' lv = map (map (\<lambda>m. if m = n then n' else m)) lv"

subsection \<open>Well-formed towers\<close>

text \<open>The skip list of a sorted list of nodes: every chain holds the nodes deeper than its level.\<close>

definition towers :: "('n \<Rightarrow> nat) \<Rightarrow> 'n list \<Rightarrow> 'n list list" where
  "towers dep xs = map (\<lambda>i. filter (\<lambda>n. i < dep n) xs) [0..<WT_SKIP_MAXDEPTH]"

definition dep_ok :: "('n \<Rightarrow> nat) \<Rightarrow> 'n list \<Rightarrow> bool" where
  "dep_ok dep xs \<longleftrightarrow> (\<forall>n\<in>set xs. 1 \<le> dep n \<and> dep n \<le> WT_SKIP_MAXDEPTH)"

definition key_sorted :: "('n \<Rightarrow> int) \<Rightarrow> 'n list \<Rightarrow> bool" where
  "key_sorted key xs \<longleftrightarrow> sorted_wrt (\<lambda>a b. key a < key b) xs"

definition below :: "('n \<Rightarrow> int) \<Rightarrow> int \<Rightarrow> 'n list \<Rightarrow> 'n list" where
  "below key k xs = filter (\<lambda>n. key n < k) xs"

definition above :: "('n \<Rightarrow> int) \<Rightarrow> int \<Rightarrow> 'n list \<Rightarrow> 'n list" where
  "above key k xs = filter (\<lambda>n. k \<le> key n) xs"

lemma wt_skip_choose_depth_bounds:
  "1 \<le> wt_skip_choose_depth draw" "wt_skip_choose_depth draw \<le> WT_SKIP_MAXDEPTH"
proof -
  have "d \<le> choose_depth_loop draw d r \<and> choose_depth_loop draw d r \<le> d + r" for d r
    by (induction draw d r rule: choose_depth_loop.induct) auto
  from this [of 1 "WT_SKIP_MAXDEPTH - 1"]
  show "1 \<le> wt_skip_choose_depth draw" "wt_skip_choose_depth draw \<le> WT_SKIP_MAXDEPTH"
    by (auto simp: wt_skip_choose_depth_def WT_SKIP_MAXDEPTH_def)
qed

lemma key_sorted_Nil [simp]: "key_sorted key []"
  by (simp add: key_sorted_def)

lemma key_sorted_Cons [simp]:
  "key_sorted key (n # xs) \<longleftrightarrow> (\<forall>m\<in>set xs. key n < key m) \<and> key_sorted key xs"
  by (simp add: key_sorted_def)

lemma key_sorted_append [simp]:
  "key_sorted key (xs @ ys) \<longleftrightarrow>
    key_sorted key xs \<and> key_sorted key ys \<and> (\<forall>x\<in>set xs. \<forall>y\<in>set ys. key x < key y)"
  by (simp add: key_sorted_def sorted_wrt_append)

lemma key_sorted_filter [simp]: "key_sorted key xs \<Longrightarrow> key_sorted key (filter P xs)"
  by (simp add: key_sorted_def sorted_wrt_filter)

lemma key_sorted_distinct: "key_sorted key xs \<Longrightarrow> distinct xs"
  by (induction xs) auto

lemma below_simps [simp]:
  "below key k [] = []"
  "below key k (n # xs) = (if key n < k then n # below key k xs else below key k xs)"
  "below key k (xs @ ys) = below key k xs @ below key k ys"
  "set (below key k xs) = {n \<in> set xs. key n < k}"
  "below key k (filter P xs) = filter P (below key k xs)"
  by (auto simp: below_def intro: filter_cong)

lemma above_simps [simp]:
  "above key k [] = []"
  "above key k (n # xs) = (if k \<le> key n then n # above key k xs else above key k xs)"
  "above key k (xs @ ys) = above key k xs @ above key k ys"
  "set (above key k xs) = {n \<in> set xs. k \<le> key n}"
  "above key k (filter P xs) = filter P (above key k xs)"
  by (auto simp: above_def intro: filter_cong)

lemma below_above: "key_sorted key xs \<Longrightarrow> below key k xs @ above key k xs = xs"
proof (induction xs)
  case (Cons n xs)
  show ?case
  proof (cases "key n < k")
    case False
    then have "below key k xs = []" using Cons.prems by (auto simp: below_def filter_empty_conv)
    then show ?thesis using Cons False by auto
  qed (use Cons in auto)
qed simp

lemma below_all: "(\<And>n. n \<in> set xs \<Longrightarrow> key n < k) \<Longrightarrow> below key k xs = xs \<and> above key k xs = []"
  by (force simp: below_def above_def filter_id_conv filter_empty_conv)

lemma above_all: "(\<And>n. n \<in> set xs \<Longrightarrow> k \<le> key n) \<Longrightarrow> below key k xs = [] \<and> above key k xs = xs"
  by (force simp: below_def above_def filter_id_conv filter_empty_conv)

text \<open>A split of a sorted list at a key is the split the searches compute.\<close>

lemma below_above_split:
  assumes "\<And>n. n \<in> set xs \<Longrightarrow> key n < k" and "\<And>n. n \<in> set ys \<Longrightarrow> k \<le> key n"
  shows "below key k (xs @ ys) = xs" and "above key k (xs @ ys) = ys"
  using below_all [of xs key k] above_all [of ys k key] assms by auto

lemma last_opt_append: "last_opt (xs @ ys) = (case last_opt ys of None \<Rightarrow> last_opt xs | Some m \<Rightarrow> Some m)"
  by (induction xs) (auto split: option.splits)

lemma last_opt_snoc [simp]: "last_opt (xs @ [n]) = Some n"
  by (simp add: last_opt_append)

lemma last_opt_None [simp]: "last_opt xs = None \<longleftrightarrow> xs = []"
  by (cases xs) (auto split: option.splits)

lemma last_opt_Some: "last_opt xs = Some n \<longleftrightarrow> (\<exists>ys. xs = ys @ [n])"
  by (cases xs rule: rev_cases) auto

lemma last_opt_in_set: "last_opt xs = Some n \<Longrightarrow> n \<in> set xs"
  by (auto simp: last_opt_Some)

lemma hd_opt_Some: "hd_opt xs = Some n \<longleftrightarrow> (\<exists>ys. xs = n # ys)"
  by (cases xs) auto

lemma hd_opt_None [simp]: "hd_opt xs = None \<longleftrightarrow> xs = []"
  by (cases xs) auto

lemma from_slot_split: "n \<notin> set p \<Longrightarrow> from_slot (Some n) (p @ n # s) = s"
  by (induction p) auto

lemma set_slot_split: "n \<notin> set p \<Longrightarrow> set_slot (Some n) r (p @ n # s) = p @ n # r"
  by (induction p) auto

lemma slot_of_prefix:
  assumes "distinct (p @ s)"
  shows "from_slot (last_opt p) (p @ s) = s" and "set_slot (last_opt p) r (p @ s) = p @ r"
  using assms by (cases p rule: rev_cases; simp add: from_slot_split set_slot_split)+

lemma slot_below:
  assumes "key_sorted key c"
  shows "from_slot (last_opt (below key k c)) c = above key k c"
    and "set_slot (last_opt (below key k c)) r c = below key k c @ r"
  using slot_of_prefix [of "below key k c" "above key k c"] below_above [OF assms]
    key_sorted_distinct [OF assms] by metis+

text \<open>One level of the search, from the head or from a node below the key.\<close>

definition slot_ok :: "('n \<Rightarrow> int) \<Rightarrow> int \<Rightarrow> 'n option \<Rightarrow> 'n list \<Rightarrow> bool" where
  "slot_ok key k cur c \<longleftrightarrow> (\<forall>n. cur = Some n \<longrightarrow> n \<in> set c \<and> key n < k)"

lemma slot_ok_split:
  assumes "key_sorted key c" and "slot_ok key k cur c"
  obtains p s where "c = p @ s" and "last_opt p = cur" and "from_slot cur c = s"
    and "\<And>n. n \<in> set p \<Longrightarrow> key n < k"
proof (cases cur)
  case None
  then show thesis using that [of "[]" c] by simp
next
  case (Some n)
  then have n: "n \<in> set c" "key n < k" using assms(2) by (auto simp: slot_ok_def)
  then obtain p s where c: "c = p @ n # s" by (meson split_list)
  moreover have "n \<notin> set p" using assms(1) c by auto
  moreover have "\<And>m. m \<in> set p \<Longrightarrow> key m < k" using assms(1) c n(2) by force
  ultimately show thesis
    using that [of "p @ [n]" s] Some n(2) by (auto simp: from_slot_split)
qed

lemma go_right_sorted:
  "key_sorted key c \<Longrightarrow>
    go_right key k cur c = (case last_opt (below key k c) of None \<Rightarrow> cur | Some m \<Rightarrow> Some m)"
proof (induction key k cur c rule: go_right.induct)
  case (2 key k cur n c)
  show ?case
  proof (cases "key n < k")
    case False
    then have "below key k c = []" using 2(2) by (auto simp: below_def filter_empty_conv)
    then show ?thesis using False by simp
  qed (use 2 in \<open>auto split: option.splits\<close>)
qed simp

lemma go_right_level:
  assumes "key_sorted key c" and "slot_ok key k cur c"
  shows "go_right key k cur (from_slot cur c) = last_opt (below key k c)"
proof -
  obtain p s where s: "c = p @ s" "last_opt p = cur" "from_slot cur c = s"
    "\<And>n. n \<in> set p \<Longrightarrow> key n < k" using slot_ok_split [OF assms] by metis
  then have "below key k c = p @ below key k s" using below_all [of p key k] by simp
  then show ?thesis using s assms(1) by (auto simp: go_right_sorted last_opt_append split: option.splits)
qed

lemma go_end_level:
  assumes "key_sorted key c" and "slot_ok key k cur c"
  shows "go_end cur (from_slot cur c) = last_opt c"
proof -
  have "go_end cur s = (case last_opt s of None \<Rightarrow> cur | Some m \<Rightarrow> Some m)" for cur :: "'a option" and s
    by (induction cur s rule: go_end.induct) (auto split: option.splits)
  moreover obtain p s where "c = p @ s" "last_opt p = cur" "from_slot cur c = s"
    using slot_ok_split [OF assms] by metis
  ultimately show ?thesis by (auto simp: last_opt_append split: option.splits)
qed

subsection \<open>The searches on well-formed towers\<close>

definition level :: "('n \<Rightarrow> nat) \<Rightarrow> nat \<Rightarrow> 'n list \<Rightarrow> 'n list" where
  "level dep i xs = filter (\<lambda>n. i < dep n) xs"

lemma towers_nth [simp]: "i < WT_SKIP_MAXDEPTH \<Longrightarrow> towers dep xs ! i = level dep i xs"
  by (simp add: towers_def level_def)

lemma length_towers [simp]: "length (towers dep xs) = WT_SKIP_MAXDEPTH"
  by (simp add: towers_def)

lemma level_sorted [simp]: "key_sorted key xs \<Longrightarrow> key_sorted key (level dep i xs)"
  by (simp add: level_def)

lemma level_simps [simp]:
  "level dep i [] = []"
  "level dep i (xs @ ys) = level dep i xs @ level dep i ys"
  "level dep i (n # xs) = (if i < dep n then n # level dep i xs else level dep i xs)"
  by (auto simp: level_def)

lemma below_level: "below key k (level dep i xs) = level dep i (below key k xs)"
  and above_level: "above key k (level dep i xs) = level dep i (above key k xs)"
  by (simp_all add: level_def)

lemma level_0: "dep_ok dep xs \<Longrightarrow> level dep 0 xs = xs"
  by (force simp: level_def dep_ok_def filter_id_conv)

lemma dep_ok_simps [simp]:
  "dep_ok dep []"
  "dep_ok dep (n # xs) \<longleftrightarrow> 1 \<le> dep n \<and> dep n \<le> WT_SKIP_MAXDEPTH \<and> dep_ok dep xs"
  "dep_ok dep (xs @ ys) \<longleftrightarrow> dep_ok dep xs \<and> dep_ok dep ys"
  by (auto simp: dep_ok_def)

lemma dep_ok_mono: "dep_ok dep xs \<Longrightarrow> set ys \<subseteq> set xs \<Longrightarrow> dep_ok dep ys"
  by (auto simp: dep_ok_def)

lemma SKIP_MAXDEPTH_pos [simp]: "0 < WT_SKIP_MAXDEPTH"
  by (simp add: WT_SKIP_MAXDEPTH_def)

lemma towers_rev: "rev (towers dep xs) = map (\<lambda>i. level dep i xs) (rev [0..<WT_SKIP_MAXDEPTH])"
  by (simp add: towers_def level_def rev_map)

lemma towers_hd: "dep_ok dep xs \<Longrightarrow> towers dep xs ! 0 = xs"
  by (simp add: level_0)

text \<open>
  The walks down the levels. A node the walk stands on at a level is on every lower one, so each
  level continues where the one above stopped and still finds its own last node below the key.
\<close>

definition cur_ok :: "('n \<Rightarrow> nat) \<Rightarrow> ('n \<Rightarrow> int) \<Rightarrow> int \<Rightarrow> nat \<Rightarrow> 'n option \<Rightarrow> 'n list \<Rightarrow> bool" where
  "cur_ok dep key k j cur xs \<longleftrightarrow> (\<forall>n. cur = Some n \<longrightarrow> n \<in> set xs \<and> key n < k \<and> j \<le> dep n)"

lemma cur_ok_slot: "cur_ok dep key k (Suc j) cur xs \<Longrightarrow> slot_ok key k cur (level dep j xs)"
  by (auto simp: cur_ok_def slot_ok_def level_def)

lemma cur_ok_next: "cur_ok dep key k j (last_opt (below key k (level dep j xs))) xs"
  by (auto simp: cur_ok_def level_def dest!: last_opt_in_set)

lemma srch_down_levels:
  assumes "key_sorted key xs" and "cur_ok dep key k j cur xs"
  shows "srch_down key k cur (map (\<lambda>i. level dep i xs) (rev [0..<j])) stack =
    (map (\<lambda>i. last_opt (below key k (level dep i xs))) [0..<j] @ stack,
     if j = 0 then cur else last_opt (below key k (level dep 0 xs)))"
  using assms(2)
proof (induction j arbitrary: cur stack)
  case (Suc j)
  have "go_right key k cur (from_slot cur (level dep j xs)) = last_opt (below key k (level dep j xs))"
    using assms(1) cur_ok_slot [OF Suc.prems] by (simp add: go_right_level)
  then show ?case
    using Suc.IH [OF cur_ok_next [of dep key k j xs]] by (cases j) (auto simp: Let_def)
qed simp

lemma skip_srch_towers:
  assumes "key_sorted key xs"
  shows "skip_srch key k (towers dep xs) =
    (map (\<lambda>i. last_opt (below key k (level dep i xs))) [0..<WT_SKIP_MAXDEPTH],
     last_opt (below key k (level dep 0 xs)))"
  using srch_down_levels [OF assms, of dep k WT_SKIP_MAXDEPTH None "[]"]
  by (simp add: skip_srch_def towers_rev cur_ok_def WT_SKIP_MAXDEPTH_def del: upt_Suc rev_map)

lemma last_down_levels:
  assumes "key_sorted key xs" and "cur_ok dep key k j cur xs" and "\<And>n. n \<in> set xs \<Longrightarrow> key n < k"
  shows "last_down cur (map (\<lambda>i. level dep i xs) (rev [0..<j])) stack =
    (map (\<lambda>i. last_opt (level dep i xs)) [0..<j] @ stack,
     if j = 0 then cur else last_opt (level dep 0 xs))"
  using assms(2)
proof (induction j arbitrary: cur stack)
  case (Suc j)
  have "below key k (level dep j xs) = level dep j xs"
    using below_all [of "level dep j xs" key k] assms(3) by (auto simp: level_def)
  then have c: "cur_ok dep key k j (last_opt (level dep j xs)) xs"
    using cur_ok_next [of dep key k j xs] by simp
  have "go_end cur (from_slot cur (level dep j xs)) = last_opt (level dep j xs)"
    using assms(1) go_end_level [OF _ cur_ok_slot [OF Suc.prems]] by simp
  then show ?case
    using Suc.IH [OF c] by (cases j) (auto simp: Let_def)
qed simp

lemma pair_right_sorted:
  "key_sorted key c \<Longrightarrow> pair_right key k b a c =
    (case last_opt (below key k c) of None \<Rightarrow> b | Some m \<Rightarrow> Some m,
     case hd_opt (above key k c) of None \<Rightarrow> a | Some m \<Rightarrow> Some m)"
proof (induction key k b a c rule: pair_right.induct)
  case (2 key k b a n c)
  show ?case
  proof (cases "key n < k")
    case False
    then have "below key k c = []" using 2(2) by (auto simp: below_def filter_empty_conv)
    then show ?thesis using False by simp
  qed (use 2 in \<open>auto split: option.splits\<close>)
qed simp

lemma pair_right_level:
  assumes "key_sorted key c" and "slot_ok key k cur c"
  shows "pair_right key k cur a (from_slot cur c) =
    (last_opt (below key k c), case hd_opt (above key k c) of None \<Rightarrow> a | Some m \<Rightarrow> Some m)"
proof -
  obtain p s where s: "c = p @ s" "last_opt p = cur" "from_slot cur c = s"
    "\<And>n. n \<in> set p \<Longrightarrow> key n < k" using slot_ok_split [OF assms] by metis
  then have "below key k c = p @ below key k s" "above key k c = above key k s"
    using below_all [of p key k] by simp_all
  then show ?thesis
    using s assms(1) by (auto simp: pair_right_sorted last_opt_append split: option.splits)
qed

definition after_ok :: "('n \<Rightarrow> nat) \<Rightarrow> ('n \<Rightarrow> int) \<Rightarrow> int \<Rightarrow> nat \<Rightarrow> 'n option \<Rightarrow> 'n list \<Rightarrow> bool" where
  "after_ok dep key k j a xs \<longleftrightarrow> (\<forall>n. a = Some n \<longrightarrow> n \<in> set xs \<and> k \<le> key n \<and> j \<le> dep n)"

lemma pair_down_levels:
  assumes "key_sorted key xs" and "cur_ok dep key k j cur xs" and "after_ok dep key k j a xs"
  shows "pair_down key k cur a (map (\<lambda>i. level dep i xs) (rev [0..<j])) =
    (if j = 0 then (cur, a)
     else (last_opt (below key k (level dep 0 xs)), hd_opt (above key k (level dep 0 xs))))"
  using assms(2,3)
proof (induction j arbitrary: cur a)
  case (Suc j)
  define a' where "a' = (case hd_opt (above key k (level dep j xs)) of None \<Rightarrow> a | Some m \<Rightarrow> Some m)"
  have a': "a' = hd_opt (above key k (level dep j xs))"
  proof (cases "hd_opt (above key k (level dep j xs))")
    case None
    then have "above key k (level dep j xs) = []" by simp
    moreover have "n \<in> set (above key k (level dep j xs))" if "a = Some n" for n
      using Suc.prems(2) that by (auto simp: after_ok_def level_def)
    ultimately have "a = None" by (cases a) auto
    then show ?thesis using None by (simp add: a'_def)
  qed (simp add: a'_def)
  have ok: "after_ok dep key k j a' xs"
    unfolding a' after_ok_def by (auto simp: hd_opt_Some level_def above_def filter_eq_Cons_iff)
  have "pair_right key k cur a (from_slot cur (level dep j xs)) =
      (last_opt (below key k (level dep j xs)), a')"
    using assms(1) cur_ok_slot [OF Suc.prems(1)] by (simp add: pair_right_level a'_def)
  then show ?case
    using Suc.IH [OF cur_ok_next [of dep key k j xs] ok] a' by (cases j) auto
qed simp

lemma skip_pair_towers:
  assumes "key_sorted key xs" and "dep_ok dep xs"
  shows "skip_pair key k (towers dep xs) = (last_opt (below key k xs), hd_opt (above key k xs))"
  using pair_down_levels [OF assms(1), of dep k WT_SKIP_MAXDEPTH None None] level_0 [OF assms(2)]
  by (simp add: skip_pair_def towers_rev cur_ok_def after_ok_def WT_SKIP_MAXDEPTH_def
      del: upt_Suc rev_map)

lemma skip_last_towers:
  assumes "key_sorted key xs" and "dep_ok dep xs"
  shows "skip_last (towers dep xs) =
    (map (\<lambda>i. last_opt (level dep i xs)) [0..<WT_SKIP_MAXDEPTH], last_opt xs)"
proof -
  have "\<exists>k. \<forall>n\<in>set xs. key n < k"
    by (metis finite_imageI List.finite_set imageI Max_ge le_less_trans less_add_one)
  then obtain k where "\<And>n. n \<in> set xs \<Longrightarrow> key n < k" by blast
  then show ?thesis
    using last_down_levels [OF assms(1), of dep k WT_SKIP_MAXDEPTH None "[]"] level_0 [OF assms(2)]
    by (simp add: skip_last_def towers_rev cur_ok_def WT_SKIP_MAXDEPTH_def del: upt_Suc rev_map)
qed

lemma stack_node_towers:
  assumes "key_sorted key xs" and "dep_ok dep xs"
  shows "stack_node (fst (skip_srch key k (towers dep xs))) (towers dep xs) = hd_opt (above key k xs)"
  using assms by (simp add: stack_node_def skip_srch_towers towers_hd level_0 slot_below)

text \<open>Insertion, removal, appending and storing, as operations on the sorted list.\<close>

lemma towers_cong:
  "length lv = WT_SKIP_MAXDEPTH \<Longrightarrow> (\<And>i. i < WT_SKIP_MAXDEPTH \<Longrightarrow> lv ! i = level dep i xs) \<Longrightarrow>
    lv = towers dep xs"
  by (simp add: list_eq_iff_nth_eq)

lemma slot_level:
  assumes "key_sorted key xs"
  shows "from_slot (last_opt (level dep i (below key k xs))) (level dep i xs) = level dep i (above key k xs)"
    and "set_slot (last_opt (level dep i (below key k xs))) r (level dep i xs) =
      level dep i (below key k xs) @ r"
  using slot_below [of key "level dep i xs" k] assms by (simp_all add: below_level above_level)

lemma level_split:
  "key_sorted key xs \<Longrightarrow> level dep i xs = level dep i (below key k xs) @ level dep i (above key k xs)"
  by (metis below_above level_simps(2))

lemma skip_link_towers:
  assumes "key_sorted key xs" and "d = dep n" and "k = key n"
  shows "skip_link (fst (skip_srch key k (towers dep xs))) d n (towers dep xs) =
    towers dep (below key k xs @ n # above key k xs)"
proof (rule towers_cong)
  fix i assume i: "i < WT_SKIP_MAXDEPTH"
  show "skip_link (fst (skip_srch key k (towers dep xs))) d n (towers dep xs) ! i =
      level dep i (below key k xs @ n # above key k xs)"
    using i assms level_split [OF assms(1), of dep i k, symmetric]
    by (cases "i < dep n") (simp_all add: skip_link_def skip_srch_towers slot_level below_level)
qed (simp add: skip_link_def)

lemma skip_unlink_towers:
  assumes "key_sorted key xs" and "above key k xs = n # r" and "d = dep n"
  shows "skip_unlink (fst (skip_srch key k (towers dep xs))) d n (towers dep xs) =
    towers dep (below key k xs @ r)"
proof (rule towers_cong)
  fix i assume i: "i < WT_SKIP_MAXDEPTH"
  have l: "level dep i xs = level dep i (below key k xs) @ level dep i (n # r)"
    using level_split [OF assms(1), of dep i k] assms(2) by simp
  have "n \<notin> set (below key k xs)"
    using assms(2) by (metis above_simps(4) below_simps(4) list.set_intros(1) mem_Collect_eq not_le)
  then have unlinked: "i < dep n \<Longrightarrow> from_slot (Some n) (level dep i xs) = level dep i r"
    unfolding l by (simp add: from_slot_split level_def)
  have rest: "\<not> i < dep n \<Longrightarrow> level dep i xs = level dep i (below key k xs) @ level dep i r"
    using l by simp
  show "skip_unlink (fst (skip_srch key k (towers dep xs))) d n (towers dep xs) ! i =
      level dep i (below key k xs @ r)"
    using i assms unlinked rest by (auto simp: skip_unlink_def skip_srch_towers slot_level below_level)
qed (simp add: skip_unlink_def)

lemma skip_append_towers:
  assumes "key_sorted key xs" and "dep_ok dep xs" and "d = dep n"
  shows "skip_append (fst (skip_last (towers dep xs))) d n (towers dep xs) = towers dep (xs @ [n])"
proof (rule towers_cong)
  fix i assume i: "i < WT_SKIP_MAXDEPTH"
  have "distinct (level dep i xs @ [])" using assms(1) by (simp add: key_sorted_distinct level_def)
  from slot_of_prefix(2) [OF this]
  have "set_slot (last_opt (level dep i xs)) [n] (level dep i xs) = level dep i xs @ [n]" by simp
  then show "skip_append (fst (skip_last (towers dep xs))) d n (towers dep xs) ! i =
      level dep i (xs @ [n])"
    using i assms(3) by (simp add: skip_append_def skip_last_towers [OF assms(1,2)])
qed (simp add: skip_append_def)

lemma skip_store_towers:
  assumes "dep n' = dep n"
  shows "skip_store n n' (towers dep xs) = towers dep (map (\<lambda>m. if m = n then n' else m) xs)"
proof -
  have "map (\<lambda>m. if m = n then n' else m) (level dep i xs) =
      level dep i (map (\<lambda>m. if m = n then n' else m) xs)" for i
    using assms by (induction xs) auto
  then show ?thesis
    by (simp add: skip_store_def towers_def comp_def level_def [symmetric])
qed

end
