(* ===== verification/ExtList.thy ===== *)
theory ExtList
  imports SkipList
begin

text \<open>
  Extent lists, \<open>src/block/block_ext.c\<close> and the types of \<open>src/include/block.h\<close>. File offsets and
  sizes (\<open>wt_off_t\<close>) are integers; the byte and entry counts keep their width. The structures a
  session hands out for new extents have random depths: \<open>rnd off\<close> is the sequence of values
  \<open>__wt_random\<close> returns while the depth of the structure used for the extent at \<open>off\<close> is chosen.

  An error return of an operation that has begun to change a list is a panic or, when verifying, an
  abandoned handle: the value of the operation is then the error alone. Memory allocation does not
  fail in the model.
\<close>

subsection \<open>Data\<close>

record ext =
  e_off :: int
  e_size :: int
  e_depth :: nat

record wt_size =
  s_size :: int
  s_depth :: nat
  s_off :: "ext list list"

record extlist =
  el_bytes :: u64
  el_entries :: u32
  el_objectid :: u32
  el_offset :: int
  el_checksum :: u32
  el_size :: int
  el_track_size :: bool
  el_last :: "ext option"
  el_offs :: "ext list list"
  el_szs :: "wt_size list list"

text \<open>What of a \<open>WT_BLOCK\<close> the extent list code reads and changes; \<open>live\<close> is its checkpoint.\<close>

record ckpt_lists =
  alloc_list :: extlist
  avail_list :: extlist
  discard_list :: extlist
  ckpt_avail_list :: extlist

record wt_block =
  blk_size :: int
  blk_allocsize :: int
  blk_objectid :: u32
  blk_allocfirst :: nat
  blk_verify :: bool
  blk_final_ckpt :: bool
  blk_live :: ckpt_lists

type_synonym draws = "int \<Rightarrow> nat \<Rightarrow> u32"

text \<open>\<open>WT_BLOCK_RET\<close>: the error when verifying, a panic otherwise.\<close>

definition WT_BLOCK_RET :: "wt_block \<Rightarrow> wt_error \<Rightarrow> 'a result" where
  "WT_BLOCK_RET block e = Inl (if blk_verify block then e else WT_PANIC)"

definition wt_block_ext_alloc :: "draws \<Rightarrow> int \<Rightarrow> int \<Rightarrow> ext" where
  "wt_block_ext_alloc rnd off sz = \<lparr>e_off = off, e_size = sz, e_depth = wt_skip_choose_depth (rnd off)\<rparr>"

definition ext_end :: "ext \<Rightarrow> int" where
  "ext_end e = e_off e + e_size e"

subsection \<open>Searching\<close>

definition block_off_srch_last :: "extlist \<Rightarrow> bool \<Rightarrow> ext option list \<times> ext option" where
  "block_off_srch_last el need_traverse =
     (if \<not> need_traverse then ([], el_last el) else skip_last (el_offs el))"

definition block_off_srch :: "ext list list \<Rightarrow> int \<Rightarrow> ext option list \<times> ext option" where
  "block_off_srch head off = skip_srch e_off off head"

text \<open>The linear walk for the first extent that is large enough; then the stack for its offset.\<close>

fun first_large :: "int \<Rightarrow> ext list \<Rightarrow> ext option" where
  "first_large sz [] = None"
| "first_large sz (e # c) = (if e_size e \<ge> sz then Some e else first_large sz c)"

definition block_first_srch :: "ext list list \<Rightarrow> int \<Rightarrow> ext option list option" where
  "block_first_srch head sz =
     (case first_large sz (head ! 0) of None \<Rightarrow> None
      | Some e \<Rightarrow> Some (fst (block_off_srch head (e_off e))))"

definition block_size_srch :: "wt_size list list \<Rightarrow> int \<Rightarrow> wt_size option list" where
  "block_size_srch head sz = fst (skip_srch s_size sz head)"

definition block_off_srch_pair :: "extlist \<Rightarrow> int \<Rightarrow> ext option \<times> ext option" where
  "block_off_srch_pair el off = skip_pair e_off off (el_offs el)"

subsection \<open>Inserting and removing one extent\<close>

text \<open>The size entry an extent goes into, created when there is none, and its offset list updated.\<close>

definition size_insert :: "wt_size list list \<Rightarrow> ext \<Rightarrow> wt_size list list" where
  "size_insert szs ext =
     (let sstack = block_size_srch szs (e_size ext);
          found = (case stack_node sstack szs of
                     Some szp \<Rightarrow> if s_size szp \<noteq> e_size ext then None else Some szp | None \<Rightarrow> None);
          (szs, szp) =
            (case found of Some szp \<Rightarrow> (szs, szp)
             | None \<Rightarrow>
               let n = \<lparr>s_size = e_size ext, s_depth = e_depth ext, s_off = replicate WT_SKIP_MAXDEPTH []\<rparr>
               in (skip_link sstack (e_depth ext) n szs, n));
          (astack, _) = block_off_srch (s_off szp) (e_off ext)
      in skip_store szp (szp\<lparr>s_off := skip_link astack (e_depth ext) ext (s_off szp)\<rparr>) szs)"

definition block_ext_insert :: "extlist \<Rightarrow> ext \<Rightarrow> extlist" where
  "block_ext_insert el ext =
     (let el = (if el_track_size el then el\<lparr>el_szs := size_insert (el_szs el) ext\<rparr> else el);
          (astack, _) = block_off_srch (el_offs el) (e_off ext);
          offs = skip_link astack (e_depth ext) ext (el_offs el)
      in el\<lparr>el_offs := offs,
            el_entries := el_entries el + 1,
            el_bytes := el_bytes el + of_int (e_size ext),
            el_last := (if from_slot (Some ext) (offs ! 0) = [] then Some ext else el_last el)\<rparr>)"

definition block_off_insert :: "draws \<Rightarrow> extlist \<Rightarrow> int \<Rightarrow> int \<Rightarrow> extlist" where
  "block_off_insert rnd el off sz = block_ext_insert el (wt_block_ext_alloc rnd off sz)"

text \<open>Diagnostic check: does a range overlap an extent of the list?\<close>

definition block_off_match :: "extlist \<Rightarrow> int \<Rightarrow> int \<Rightarrow> bool" where
  "block_off_match el off sz =
     (case block_off_srch_pair el off of (before, after) \<Rightarrow>
        (case before of Some b \<Rightarrow> ext_end b > off | None \<Rightarrow> False) \<or>
        (case after of Some a \<Rightarrow> off + sz > e_off a | None \<Rightarrow> False))"

definition wt_block_misplaced :: "wt_block \<Rightarrow> bool \<Rightarrow> int \<Rightarrow> int \<Rightarrow> bool \<Rightarrow> unit result" where
  "wt_block_misplaced block quiet_corrupt_file off sz live =
     (if quiet_corrupt_file then Inr ()
      else if block_off_match (avail_list (blk_live block)) off sz \<or>
              live \<and> block_off_match (discard_list (blk_live block)) off sz
      then Inl WT_PANIC else Inr ())"

text \<open>The removal of an extent from its size entry, the entry itself when it becomes empty.\<close>

definition size_remove :: "wt_block \<Rightarrow> wt_size list list \<Rightarrow> ext \<Rightarrow> int \<Rightarrow> (ext \<times> wt_size list list) result"
  where
  "size_remove block szs ext off =
     (let sstack = block_size_srch szs (e_size ext) in
      case stack_node sstack szs of None \<Rightarrow> Inl WT_PANIC
      | Some szp \<Rightarrow>
        if s_size szp \<noteq> e_size ext then Inl WT_PANIC
        else
          (let (astack, _) = block_off_srch (s_off szp) off in
           case stack_node astack (s_off szp) of None \<Rightarrow> WT_BLOCK_RET block EINVAL
           | Some ext \<Rightarrow>
             if e_off ext \<noteq> off then WT_BLOCK_RET block EINVAL
             else
               (let off' = skip_unlink astack (e_depth ext) ext (s_off szp);
                    szp' = szp\<lparr>s_off := off'\<rparr>
                in Inr (ext,
                  if off' ! 0 = []
                  then skip_unlink sstack (s_depth szp) szp szs
                  else skip_store szp szp' szs))))"

definition block_off_remove :: "wt_block \<Rightarrow> extlist \<Rightarrow> int \<Rightarrow> (ext \<times> extlist) result" where
  "block_off_remove block el off =
     (let (astack, penultimate) = block_off_srch (el_offs el) off in
      case stack_node astack (el_offs el) of None \<Rightarrow> WT_BLOCK_RET block EINVAL
      | Some ext \<Rightarrow>
        if e_off ext \<noteq> off then WT_BLOCK_RET block EINVAL
        else
          (let offs = skip_unlink astack (e_depth ext) ext (el_offs el) in
           wt_ret (if el_track_size el then size_remove block (el_szs el) ext off
                   else Inr (ext, el_szs el))
             (\<lambda>(ext, szs).
               Inr (ext,
                 el\<lparr>el_offs := offs, el_szs := szs,
                    el_entries := el_entries el - 1,
                    el_bytes := el_bytes el - of_int (e_size ext),
                    el_last := (if el_last el = Some ext then penultimate else el_last el)\<rparr>))))"

subsection \<open>Removing and merging ranges\<close>

text \<open>
  The end of \<open>__wt_block_off_remove_overlap\<close>: put back what is left before and after the removed
  range, using the removed structure for the first of the two.
\<close>

definition remove_overlap_put_back ::
    "draws \<Rightarrow> extlist \<Rightarrow> ext \<Rightarrow> int \<Rightarrow> int \<Rightarrow> int \<Rightarrow> int \<Rightarrow> extlist" where
  "remove_overlap_put_back rnd el ext a_off a_size b_off b_size =
     (let (el, used) =
        (if a_size \<noteq> 0 then (block_ext_insert el (ext\<lparr>e_off := a_off, e_size := a_size\<rparr>), True)
         else (el, False))
      in if b_size \<noteq> 0 then
           (if used then block_off_insert rnd el b_off b_size
            else block_ext_insert el (ext\<lparr>e_off := b_off, e_size := b_size\<rparr>))
         else el)"

definition wt_block_off_remove_overlap ::
    "draws \<Rightarrow> wt_block \<Rightarrow> extlist \<Rightarrow> int \<Rightarrow> int \<Rightarrow> extlist result" where
  "wt_block_off_remove_overlap rnd block el off sz =
     (let (before, after) = block_off_srch_pair el off;
          before_hit = (case before of Some b \<Rightarrow> ext_end b > off | None \<Rightarrow> False);
          after_hit = (case after of Some a \<Rightarrow> off + sz > e_off a | None \<Rightarrow> False)
      in if before_hit then
           (let b = the before in
            if ext_end b < off + sz then Inl WT_PANIC
            else wt_ret (block_off_remove block el (e_off b)) (\<lambda>(ext, el).
              let a_off = e_off ext; a_size = off - e_off ext;
                  b_off = off + sz; b_size = e_size ext - (a_size + sz)
              in Inr (remove_overlap_put_back rnd el ext a_off a_size b_off b_size)))
         else if after_hit then
           (let a = the after in
            if off \<noteq> e_off a \<or> off + sz > ext_end a then Inl WT_PANIC
            else wt_ret (block_off_remove block el (e_off a)) (\<lambda>(ext, el).
              let b_off = off + sz; b_size = e_size ext - (b_off - e_off ext)
              in Inr (remove_overlap_put_back rnd el ext 0 0 b_off b_size)))
         else Inl WT_NOTFOUND)"

definition block_merge :: "draws \<Rightarrow> wt_block \<Rightarrow> extlist \<Rightarrow> int \<Rightarrow> int \<Rightarrow> extlist result" where
  "block_merge rnd block el off sz =
     (let (before, after) = block_off_srch_pair el off in
      if (case before of Some b \<Rightarrow> ext_end b > off | None \<Rightarrow> False) then WT_BLOCK_RET block EINVAL
      else
       (let before = (case before of Some b \<Rightarrow> if ext_end b \<noteq> off then None else Some b | None \<Rightarrow> None) in
        if (case after of Some a \<Rightarrow> off + sz > e_off a | None \<Rightarrow> False) then WT_BLOCK_RET block EINVAL
        else
         (let after = (case after of Some a \<Rightarrow> if off + sz \<noteq> e_off a then None else Some a | None \<Rightarrow> None) in
          case (before, after) of
            (None, None) \<Rightarrow> Inr (block_off_insert rnd el off sz)
          | (None, Some a) \<Rightarrow>
              wt_ret (block_off_remove block el (e_off a)) (\<lambda>(ext, el).
                Inr (block_ext_insert el (ext\<lparr>e_off := off, e_size := e_size ext + sz\<rparr>)))
          | (Some b, _) \<Rightarrow>
              wt_ret (case after of None \<Rightarrow> Inr (sz, el)
                      | Some a \<Rightarrow> wt_ret (block_off_remove block el (e_off a))
                                    (\<lambda>(ext, el). Inr (sz + e_size a, el)))
                (\<lambda>(sz, el). wt_ret (block_off_remove block el (e_off b)) (\<lambda>(ext, el).
                  Inr (block_ext_insert el (ext\<lparr>e_size := e_size ext + sz\<rparr>)))))))"

definition wt_block_insert_ext :: "draws \<Rightarrow> wt_block \<Rightarrow> extlist \<Rightarrow> int \<Rightarrow> int \<Rightarrow> extlist result" where
  "wt_block_insert_ext rnd block el off sz = block_merge rnd block el off sz"

text \<open>
  Appending at the end of the file. Growing an extent stores into it: on the chains, and in the
  cached last element.
\<close>

definition grow_ext :: "extlist \<Rightarrow> ext \<Rightarrow> int \<Rightarrow> extlist \<times> ext" where
  "grow_ext el ext sz =
     (let ext' = ext\<lparr>e_size := e_size ext + sz\<rparr>
      in (el\<lparr>el_offs := skip_store ext ext' (el_offs el)\<rparr>, ext'))"

definition ends_at :: "int \<Rightarrow> ext option \<Rightarrow> ext option" where
  "ends_at off lst = (case lst of Some e \<Rightarrow> if ext_end e = off then Some e else None | None \<Rightarrow> None)"

definition block_append :: "draws \<Rightarrow> extlist \<Rightarrow> int \<Rightarrow> int \<Rightarrow> extlist" where
  "block_append rnd el off sz =
     (let (astack, lst) = block_off_srch_last el True;
          el = (case ends_at off (el_last el) of
            Some ext \<Rightarrow> (let (el, ext') = grow_ext el ext sz in el\<lparr>el_last := Some ext'\<rparr>)
          | None \<Rightarrow>
            (case ends_at off lst of
               Some ext \<Rightarrow> (let (el, ext') = grow_ext el ext sz in el\<lparr>el_last := Some ext'\<rparr>)
             | None \<Rightarrow>
               (let ext = wt_block_ext_alloc rnd off sz
                in el\<lparr>el_offs := skip_append astack (e_depth ext) ext (el_offs el),
                      el_entries := el_entries el + 1, el_last := Some ext\<rparr>)))
      in el\<lparr>el_bytes := el_bytes el + of_int sz\<rparr>)"

definition wt_block_extlist_init :: "bool \<Rightarrow> extlist" where
  "wt_block_extlist_init track_size =
     \<lparr>el_bytes = 0, el_entries = 0, el_objectid = 0, el_offset = 0, el_checksum = 0, el_size = 0,
      el_track_size = track_size, el_last = None,
      el_offs = replicate WT_SKIP_MAXDEPTH [], el_szs = replicate WT_SKIP_MAXDEPTH []\<rparr>"

text \<open>Diagnostic check that two lists do not overlap: both walked in parallel.\<close>

fun extlist_check_loop :: "ext list \<Rightarrow> ext list \<Rightarrow> unit result" where
  "extlist_check_loop (a # as) (b # bs) =
     (if ext_end a \<le> e_off b then extlist_check_loop as (b # bs)
      else if ext_end b \<le> e_off a then extlist_check_loop (a # as) bs
      else Inl WT_PANIC)"
| "extlist_check_loop as bs = Inr ()"

definition wt_block_extlist_check :: "extlist \<Rightarrow> extlist \<Rightarrow> unit result" where
  "wt_block_extlist_check al bl = extlist_check_loop (el_offs al ! 0) (el_offs bl ! 0)"

subsection \<open>The invariant of an extent list\<close>

definition exts :: "extlist \<Rightarrow> ext list" where
  "exts el = el_offs el ! 0"

text \<open>Extents are not empty, do not overlap and are sorted by offset.\<close>

definition ext_list_ok :: "ext list \<Rightarrow> bool" where
  "ext_list_ok xs \<longleftrightarrow> sorted_wrt (\<lambda>a b. ext_end a \<le> e_off b) xs \<and> (\<forall>x\<in>set xs. 0 < e_size x) \<and>
     dep_ok e_depth xs"

text \<open>Every size has its entry, and an entry lists the extents of its size, by offset.\<close>

definition sizes_ok :: "ext list \<Rightarrow> wt_size list list \<Rightarrow> bool" where
  "sizes_ok xs szs \<longleftrightarrow> (\<exists>ss. szs = towers s_depth ss \<and> key_sorted s_size ss \<and> dep_ok s_depth ss \<and>
     s_size ` set ss = e_size ` set xs \<and>
     (\<forall>s\<in>set ss. s_off s = towers e_depth (filter (\<lambda>x. e_size x = s_size s) xs)))"

definition ext_bytes :: "ext list \<Rightarrow> int" where
  "ext_bytes xs = sum_list (map e_size xs)"

definition el_ok :: "extlist \<Rightarrow> bool" where
  "el_ok el \<longleftrightarrow> el_offs el = towers e_depth (exts el) \<and> ext_list_ok (exts el) \<and>
     el_bytes el = of_int (ext_bytes (exts el)) \<and> el_entries el = of_nat (length (exts el)) \<and>
     el_last el = last_opt (exts el) \<and>
     (if el_track_size el then sizes_ok (exts el) (el_szs el) else el_szs el = towers s_depth [])"

lemma sizes_okI:
  assumes "szs = towers s_depth ss" and "key_sorted s_size ss" and "dep_ok s_depth ss"
    and "s_size ` set ss = e_size ` set xs"
    and "\<And>s. s \<in> set ss \<Longrightarrow> s_off s = towers e_depth (filter (\<lambda>x. e_size x = s_size s) xs)"
  shows "sizes_ok xs szs"
  using assms unfolding sizes_ok_def by blast

lemma ext_bytes_simps [simp]:
  "ext_bytes [] = 0" "ext_bytes (x # xs) = e_size x + ext_bytes xs"
  "ext_bytes (xs @ ys) = ext_bytes xs + ext_bytes ys"
  by (simp_all add: ext_bytes_def)

lemma ext_list_ok_simps [simp]:
  "ext_list_ok []"
  "ext_list_ok (x # xs) \<longleftrightarrow> 0 < e_size x \<and> 1 \<le> e_depth x \<and> e_depth x \<le> WT_SKIP_MAXDEPTH \<and>
     (\<forall>y\<in>set xs. ext_end x \<le> e_off y) \<and> ext_list_ok xs"
  "ext_list_ok (xs @ ys) \<longleftrightarrow> ext_list_ok xs \<and> ext_list_ok ys \<and>
     (\<forall>x\<in>set xs. \<forall>y\<in>set ys. ext_end x \<le> e_off y)"
  by (auto simp: ext_list_ok_def sorted_wrt_append)

lemma ext_list_ok_sorted: "ext_list_ok xs \<Longrightarrow> key_sorted e_off xs"
  by (induction xs) (auto simp: ext_end_def intro: less_le_trans)

lemma ext_list_ok_depth: "ext_list_ok xs \<Longrightarrow> dep_ok e_depth xs"
  by (simp add: ext_list_ok_def)

lemma ext_list_ok_filter: "ext_list_ok xs \<Longrightarrow> ext_list_ok (filter P xs)"
  by (auto simp: ext_list_ok_def sorted_wrt_filter dep_ok_def)

lemma towers_Nil: "towers dep [] = replicate WT_SKIP_MAXDEPTH []"
  by (simp add: towers_def map_replicate_const)

lemma key_sorted_map: "map key xs = map key ys \<Longrightarrow> key_sorted key xs \<Longrightarrow> key_sorted key ys"
  by (metis key_sorted_def sorted_wrt_map)

lemma key_sorted_inj:
  "key_sorted key xs \<Longrightarrow> m \<in> set xs \<Longrightarrow> n \<in> set xs \<Longrightarrow> key m = key n \<Longrightarrow> m = n"
  by (induction xs) auto

lemma skip_srch_last_passed:
  assumes "key_sorted key xs" and "dep_ok dep xs"
  shows "snd (skip_srch key k (towers dep xs)) = last_opt (below key k xs)"
  using assms by (simp add: skip_srch_towers level_0)

lemma above_key: "key_sorted key xs \<Longrightarrow> n \<in> set xs \<Longrightarrow> \<exists>r. above key (key n) xs = n # r"
  by (induction xs) auto

lemma above_mem: "above key k xs = n # r \<Longrightarrow> n \<in> set xs \<and> k \<le> key n"
  by (metis above_simps(4) list.set_intros(1) mem_Collect_eq)

text \<open>Inserting between the extents before and after an offset.\<close>

definition fits :: "ext list \<Rightarrow> ext \<Rightarrow> ext list \<Rightarrow> bool" where
  "fits bs x as \<longleftrightarrow> (\<forall>b\<in>set bs. e_off b < e_off x) \<and> (\<forall>a\<in>set as. e_off x < e_off a)"

lemma fits_parts:
  assumes "fits bs x as"
  shows "below e_off (e_off x) bs = bs" "above e_off (e_off x) bs = []"
    "below e_off (e_off x) as = []" "above e_off (e_off x) as = as"
  using below_all [of bs e_off "e_off x"] above_all [of as "e_off x" e_off] assms
  by (auto simp: fits_def less_imp_le)

lemma fits_split:
  assumes "fits bs x as"
  shows "below e_off (e_off x) (bs @ as) = bs" "above e_off (e_off x) (bs @ as) = as"
    "below e_off (e_off x) (bs @ x # as) = bs" "above e_off (e_off x) (bs @ x # as) = x # as"
  using fits_parts [OF assms] by simp_all

lemma fits_filter: "fits bs x as \<Longrightarrow> fits (filter P bs) x (filter P as)"
  by (auto simp: fits_def)

lemma fits_sorted: "key_sorted e_off (bs @ x # as) \<longleftrightarrow> key_sorted e_off (bs @ as) \<and> fits bs x as"
  by (auto simp: fits_def)

lemma stack_node_size:
  assumes "key_sorted s_size ss" and "dep_ok s_depth ss"
  shows "stack_node (block_size_srch (towers s_depth ss) k) (towers s_depth ss) = hd_opt (above s_size k ss)"
  using stack_node_towers [OF assms] by (simp add: block_size_srch_def)

text \<open>Storing a new offset list into the entry of a size.\<close>

lemma size_entry_store:
  assumes ks: "key_sorted s_size ss" and ds: "dep_ok s_depth ss" and szp: "szp \<in> set ss"
    and offs: "\<And>s. s \<in> set ss \<Longrightarrow> s_off s = towers e_depth (filter (\<lambda>y. e_size y = s_size s) xs)"
    and szs: "s_size ` set ss = e_size ` set ys"
    and other: "\<And>k. k \<noteq> s_size szp \<Longrightarrow> filter (\<lambda>y. e_size y = k) ys = filter (\<lambda>y. e_size y = k) xs"
  shows "sizes_ok ys (skip_store szp
    (szp\<lparr>s_off := towers e_depth (filter (\<lambda>y. e_size y = s_size szp) ys)\<rparr>) (towers s_depth ss))"
proof -
  define szp' where "szp' = szp\<lparr>s_off := towers e_depth (filter (\<lambda>y. e_size y = s_size szp) ys)\<rparr>"
  let ?ss = "map (\<lambda>s. if s = szp then szp' else s) ss"
  have m: "map s_size ss = map s_size ?ss" by (auto simp: szp'_def)
  have "skip_store szp szp' (towers s_depth ss) = towers s_depth ?ss"
    by (rule skip_store_towers) (simp add: szp'_def)
  moreover have "key_sorted s_size ?ss" using key_sorted_map [OF m ks] .
  moreover have "dep_ok s_depth ?ss" using ds by (auto simp: dep_ok_def szp'_def)
  moreover have "s_size ` set ?ss = e_size ` set ys" using szs m by (metis image_set)
  moreover have "s_off t = towers e_depth (filter (\<lambda>y. e_size y = s_size t) ys)" if "t \<in> set ?ss" for t
  proof -
    obtain s where s: "s \<in> set ss" "t = (if s = szp then szp' else s)" using \<open>t \<in> set ?ss\<close> by auto
    show ?thesis
    proof (cases "s = szp")
      case True
      then show ?thesis using s(2) by (simp add: szp'_def)
    next
      case False
      then have "s_size s \<noteq> s_size szp" using key_sorted_inj [OF ks s(1) szp] by blast
      then show ?thesis using s False offs [OF s(1)] other by simp
    qed
  qed
  ultimately have "sizes_ok ys (skip_store szp szp' (towers s_depth ss))" by (intro sizes_okI)
  then show ?thesis by (simp add: szp'_def)
qed

lemma size_insert_ok:
  assumes ok: "sizes_ok (bs @ as) szs" and ks: "key_sorted e_off (bs @ x # as)"
    and dep: "1 \<le> e_depth x" "e_depth x \<le> WT_SKIP_MAXDEPTH" and dok: "dep_ok e_depth (bs @ as)"
  shows "sizes_ok (bs @ x # as) (size_insert szs x)"
proof -
  let ?k = "e_size x" and ?P = "\<lambda>s y. e_size y = s_size (s :: wt_size)"
  obtain ss where ss: "szs = towers s_depth ss" "key_sorted s_size ss" "dep_ok s_depth ss"
    "s_size ` set ss = e_size ` set (bs @ as)"
    "\<And>s. s \<in> set ss \<Longrightarrow> s_off s = towers e_depth (filter (?P s) (bs @ as))"
    using ok by (auto simp: sizes_ok_def)
  have fit: "fits bs x as" and kb: "key_sorted e_off (bs @ as)" using ks fits_sorted by blast+
  let ?st = "block_size_srch szs ?k"
  have node: "stack_node ?st szs = hd_opt (above s_size ?k ss)"
    using stack_node_size [OF ss(2,3)] ss(1) by simp
  \<comment> \<open>After the first step there is an entry for the size.\<close>
  have "\<exists>ss' szp szs'. (case (case stack_node ?st szs of
             Some szp \<Rightarrow> if s_size szp \<noteq> ?k then None else Some szp | None \<Rightarrow> None)
            of Some szp \<Rightarrow> (szs, szp)
             | None \<Rightarrow>
               let n = \<lparr>s_size = ?k, s_depth = e_depth x, s_off = replicate WT_SKIP_MAXDEPTH []\<rparr>
               in (skip_link ?st (e_depth x) n szs, n)) = (szs', szp) \<and>
      szs' = towers s_depth ss' \<and> key_sorted s_size ss' \<and> dep_ok s_depth ss' \<and>
      szp \<in> set ss' \<and> s_size szp = ?k \<and> s_size ` set ss' = e_size ` set (bs @ x # as) \<and>
      (\<forall>s\<in>set ss'. s_off s = towers e_depth (filter (?P s) (bs @ as)))"
  proof (cases "?k \<in> s_size ` set ss")
    case True
    then obtain s where s: "s \<in> set ss" "s_size s = ?k" by auto
    obtain r where a: "above s_size ?k ss = s # r" using above_key [OF ss(2) s(1)] s(2) by auto
    then have "stack_node ?st szs = Some s" using node by simp
    moreover have "s_size ` set ss = e_size ` set (bs @ x # as)"
      using True ss(4) by (auto simp: insert_absorb)
    ultimately show ?thesis
      using ss s by (intro exI [of _ ss] exI [of _ s] exI [of _ szs]) auto
  next
    case False
    let ?n = "\<lparr>s_size = ?k, s_depth = e_depth x, s_off = replicate WT_SKIP_MAXDEPTH []\<rparr>"
    let ?ss = "below s_size ?k ss @ ?n # above s_size ?k ss"
    have none: "(case stack_node ?st szs of
        Some szp \<Rightarrow> if s_size szp \<noteq> ?k then None else Some szp | None \<Rightarrow> None) = None"
    proof (cases "above s_size ?k ss")
      case (Cons szp r)
      then have "szp \<in> set ss" using above_mem by metis
      then have "s_size szp \<noteq> ?k" using False by (metis imageI)
      then show ?thesis using node Cons by auto
    qed (use node in simp)
    have link: "skip_link ?st (e_depth x) ?n szs = towers s_depth ?ss"
      using skip_link_towers [OF ss(2), where n = ?n and dep = s_depth and k = ?k] ss(1)
      by (simp add: block_size_srch_def)
    have set: "set ?ss = insert ?n (set ss)" by auto
    have "key_sorted s_size ?ss"
      using ss(2) False by (auto simp: below_def above_def order_le_less)
    moreover have "dep_ok s_depth ?ss" using ss(3) dep by (auto simp: dep_ok_def)
    moreover have "filter (?P ?n) (bs @ as) = []"
      using False unfolding ss(4)
      by (intro filter_False ballI notI) (simp only: wt_size.simps, metis imageI)
    ultimately show ?thesis
      using none link set ss(4,5) False
      by (intro exI [of _ ?ss] exI [of _ ?n] exI [of _ "towers s_depth ?ss"])
        (auto simp: towers_Nil [symmetric] Let_def)
  qed
  then obtain ss' szp szs' where st: "(case (case stack_node ?st szs of
             Some szp \<Rightarrow> if s_size szp \<noteq> ?k then None else Some szp | None \<Rightarrow> None)
            of Some szp \<Rightarrow> (szs, szp)
             | None \<Rightarrow>
               let n = \<lparr>s_size = ?k, s_depth = e_depth x, s_off = replicate WT_SKIP_MAXDEPTH []\<rparr>
               in (skip_link ?st (e_depth x) n szs, n)) = (szs', szp)"
    and ss': "szs' = towers s_depth ss'" "key_sorted s_size ss'" "dep_ok s_depth ss'"
      "szp \<in> set ss'" "s_size szp = ?k" "s_size ` set ss' = e_size ` set (bs @ x # as)"
      "\<And>s. s \<in> set ss' \<Longrightarrow> s_off s = towers e_depth (filter (?P s) (bs @ as))"
    by blast
  have kf: "key_sorted e_off (filter (?P szp) (bs @ as))" using kb key_sorted_filter by blast
  let ?f = "filter (?P szp)"
  have fa: "?f (bs @ as) = ?f bs @ ?f as" and fx: "?f (bs @ x # as) = ?f bs @ x # ?f as"
    using ss'(5) by simp_all
  note fs = fits_split(1,2) [OF fits_filter [OF fit, of "?P szp"]]
  have off: "skip_link (fst (block_off_srch (s_off szp) (e_off x))) (e_depth x) x (s_off szp) =
      towers e_depth (?f (bs @ x # as))"
    using skip_link_towers [where dep = e_depth and n = x, OF kf [unfolded fa] refl refl]
    by (simp only: block_off_srch_def ss'(7) [OF ss'(4)] fa fx fs)
  define szp' where "szp' = szp\<lparr>s_off := towers e_depth (filter (?P szp) (bs @ x # as))\<rparr>"
  have "size_insert szs x = skip_store szp szp' szs'"
  proof -
    obtain astack lst where b: "block_off_srch (s_off szp) (e_off x) = (astack, lst)" by fastforce
    have "skip_link astack (e_depth x) x (s_off szp) = towers e_depth (?f (bs @ x # as))"
      using off b by simp
    then show ?thesis
      by (simp only: size_insert_def Let_def [of "block_size_srch szs ?k"] st [unfolded Let_def]
          Let_def prod.case b szp'_def)
  qed
  moreover have "filter (\<lambda>y. e_size y = k) (bs @ x # as) = filter (\<lambda>y. e_size y = k) (bs @ as)"
    if "k \<noteq> s_size szp" for k using that ss'(5) by auto
  ultimately show ?thesis
    using size_entry_store [OF ss'(2-4,7,6)] unfolding szp'_def ss'(1) by simp
qed

lemma size_remove_ok:
  assumes ok: "sizes_ok (bs @ x # as) szs" and ks: "key_sorted e_off (bs @ x # as)"
    and dok: "dep_ok e_depth (bs @ x # as)"
  shows "\<exists>szs'. size_remove block szs x (e_off x) = Inr (x, szs') \<and> sizes_ok (bs @ as) szs'"
proof -
  let ?k = "e_size x" and ?P = "\<lambda>s y. e_size y = s_size (s :: wt_size)"
  obtain ss where ss: "szs = towers s_depth ss" "key_sorted s_size ss" "dep_ok s_depth ss"
    "s_size ` set ss = e_size ` set (bs @ x # as)"
    "\<And>s. s \<in> set ss \<Longrightarrow> s_off s = towers e_depth (filter (?P s) (bs @ x # as))"
    using ok by (auto simp: sizes_ok_def)
  have fit: "fits bs x as" using ks fits_sorted by blast
  have "?k \<in> s_size ` set ss" using ss(4) by simp
  then obtain szp where szp: "szp \<in> set ss" "s_size szp = ?k" by auto
  obtain r where a: "above s_size ?k ss = szp # r" using above_key [OF ss(2) szp(1)] szp(2) by auto
  let ?st = "block_size_srch szs ?k"
  have node: "stack_node ?st szs = Some szp"
    using stack_node_size [OF ss(2,3)] ss(1) a by simp
  let ?f = "filter (?P szp)"
  have kf: "key_sorted e_off (?f (bs @ x # as))" using ks key_sorted_filter by blast
  have df: "dep_ok e_depth (?f (bs @ x # as))" using dok by (auto simp: dep_ok_def)
  have f: "?f (bs @ x # as) = ?f bs @ x # ?f as" using szp by simp
  note fs = fits_split(3,4) [OF fits_filter [OF fit, of "?P szp"]]
  have node': "stack_node (fst (block_off_srch (s_off szp) (e_off x))) (s_off szp) = Some x"
    using stack_node_towers [OF kf df, of "e_off x"] fs f
    by (simp add: block_off_srch_def ss(5) [OF szp(1)])
  have off: "skip_unlink (fst (block_off_srch (s_off szp) (e_off x))) (e_depth x) x (s_off szp) =
      towers e_depth (?f bs @ ?f as)"
    using skip_unlink_towers [OF kf [unfolded f] fs(2) refl, of e_depth]
    by (simp only: block_off_srch_def ss(5) [OF szp(1)] f fs(1))
  define szp' where "szp' = szp\<lparr>s_off := towers e_depth (?f (bs @ as))\<rparr>"
  have dfa: "dep_ok e_depth (?f (bs @ as))" using dok by (auto simp: dep_ok_def)
  have eq: "size_remove block szs x (e_off x) = Inr (x,
      if ?f (bs @ as) = [] then skip_unlink ?st (s_depth szp) szp szs else skip_store szp szp' szs)"
  proof -
    obtain astack lst where "block_off_srch (s_off szp) (e_off x) = (astack, lst)" by fastforce
    then show ?thesis
      using node node' szp(2) off towers_hd [OF dfa] by (simp add: size_remove_def Let_def szp'_def)
  qed
  have uniq: "s = szp" if "s \<in> set ss" "s_size s = ?k" for s
    using ss(2) szp that by (metis key_sorted_inj)
  show ?thesis
  proof (cases "?f (bs @ as) = []")
    case True
    obtain B where B: "below s_size ?k ss = B" and ssplit: "ss = B @ szp # r"
      using that [OF refl] below_above [OF ss(2), of ?k] a by metis
    let ?ss = "B @ r"
    have un: "skip_unlink ?st (s_depth szp) szp szs = towers s_depth ?ss"
      using skip_unlink_towers [OF ss(2) a, of "s_depth szp" s_depth] ss(1) B
      by (simp add: block_size_srch_def)
    have ks: "key_sorted s_size (B @ szp # r)" and ds: "dep_ok s_depth (B @ szp # r)"
      using ss(2,3) unfolding ssplit .
    then have so: "key_sorted s_size ?ss" "dep_ok s_depth ?ss" by auto
    have "distinct (B @ szp # r)" by (rule key_sorted_distinct [OF ks])
    then have sub: "set ?ss = set ss - {szp}" unfolding ssplit by auto
    have img: "s_size ` (set ss - {szp}) = e_size ` set (bs @ as)"
    proof -
      have "s_size ` (set ss - {szp}) = s_size ` set ss - {?k}"
      proof -
        have "inj_on s_size (set ss)" using key_sorted_inj [OF ss(2)] by (auto intro: inj_onI)
        from inj_on_image_set_diff [OF this, of "set ss" "{szp}"] show ?thesis using szp by simp
      qed
      also have "\<dots> = e_size ` set (bs @ as)"
      proof -
        have "?k \<notin> e_size ` set (bs @ as)" using True szp(2) by (force simp: filter_empty_conv)
        then show ?thesis using ss(4) by simp
      qed
      finally show ?thesis .
    qed
    have "s_off s = towers e_depth (filter (?P s) (bs @ as))" if "s \<in> set ss - {szp}" for s
      using ss(5) that uniq by auto
    then have "sizes_ok (bs @ as) (towers s_depth ?ss)"
      using sub img by (intro sizes_okI [OF refl so]) simp_all
    then show ?thesis using eq True un by simp
  next
    case False
    have "\<exists>y\<in>set (bs @ as). e_size y = ?k" using False szp(2) by (auto simp: filter_empty_conv)
    then have "?k \<in> e_size ` set (bs @ as)" by (metis imageI)
    moreover have "set (bs @ x # as) = insert x (set (bs @ as))" by auto
    ultimately have "e_size ` set (bs @ x # as) = e_size ` set (bs @ as)"
      by (simp only: image_insert insert_absorb)
    then have img: "s_size ` set ss = e_size ` set (bs @ as)" using ss(4) by simp
    have other: "filter (\<lambda>y. e_size y = k) (bs @ as) = filter (\<lambda>y. e_size y = k) (bs @ x # as)"
      if "k \<noteq> s_size szp" for k using that szp(2) by auto
    have "sizes_ok (bs @ as) (skip_store szp szp' szs)"
      unfolding szp'_def ss(1) by (rule size_entry_store [OF ss(2,3) szp(1) ss(5) img other])
    then show ?thesis using eq [unfolded if_not_P [OF False]] by blast
  qed
qed

text \<open>What the operations on extents leave alone.\<close>

definition el_meta :: "extlist \<Rightarrow> u32 \<times> int \<times> u32 \<times> int \<times> bool" where
  "el_meta el = (el_objectid el, el_offset el, el_checksum el, el_size el, el_track_size el)"

lemma el_meta_track: "el_meta el = el_meta el' \<Longrightarrow> el_track_size el = el_track_size el'"
  by (simp add: el_meta_def)

lemma el_okD:
  assumes "el_ok el"
  shows "el_offs el = towers e_depth (exts el)" "ext_list_ok (exts el)" "key_sorted e_off (exts el)"
    "dep_ok e_depth (exts el)" "el_bytes el = of_int (ext_bytes (exts el))"
    "el_entries el = of_nat (length (exts el))" "el_last el = last_opt (exts el)"
  using assms by (auto simp: el_ok_def ext_list_ok_sorted ext_list_ok_depth)

lemma el_okI:
  assumes "el_offs el = towers e_depth xs" and "ext_list_ok xs"
    and "el_bytes el = of_int (ext_bytes xs)" and "el_entries el = of_nat (length xs)"
    and "el_last el = last_opt xs"
    and "if el_track_size el then sizes_ok xs (el_szs el) else el_szs el = towers s_depth []"
  shows "el_ok el" and "exts el = xs"
  using assms towers_hd [OF ext_list_ok_depth [OF assms(2)]] by (simp_all add: el_ok_def exts_def)

lemma ext_list_ok_fits: "ext_list_ok (bs @ x # as) \<Longrightarrow> fits bs x as"
  using ext_list_ok_sorted fits_sorted by blast

lemma block_ext_insert_ok:
  assumes ok: "el_ok el" and xs: "exts el = bs @ as" and new: "ext_list_ok (bs @ x # as)"
  shows "el_ok (block_ext_insert el x)" and "exts (block_ext_insert el x) = bs @ x # as"
    and "el_meta (block_ext_insert el x) = el_meta el"
proof -
  note d = el_okD [OF ok]
  note f = fits_parts [OF ext_list_ok_fits [OF new]]
  have ks: "key_sorted e_off (bs @ x # as)" using new by (rule ext_list_ok_sorted)
  have link: "skip_link (fst (block_off_srch (el_offs el) (e_off x))) (e_depth x) x (el_offs el) =
      towers e_depth (bs @ x # as)"
    using skip_link_towers [where dep = e_depth and n = x, OF d(3) refl refl] f xs
    by (simp add: block_off_srch_def d(1))
  obtain astack lst where b: "block_off_srch (el_offs el) (e_off x) = (astack, lst)" by fastforce
  have "towers e_depth (bs @ x # as) ! 0 = bs @ x # as"
    by (rule towers_hd [OF ext_list_ok_depth [OF new]])
  moreover have "x \<notin> set bs" using key_sorted_distinct [OF ks] by simp
  ultimately have last: "from_slot (Some x) (towers e_depth (bs @ x # as) ! 0) = as"
    by (simp add: from_slot_split)
  have szs: "if el_track_size el then sizes_ok (bs @ x # as) (size_insert (el_szs el) x)
      else el_szs el = towers s_depth []"
    using ok size_insert_ok [OF _ ks, of "el_szs el"] new d(4) xs by (auto simp: el_ok_def)
  define el' where "el' = block_ext_insert el x"
  have fields: "el_offs el' = towers e_depth (bs @ x # as)" "el_entries el' = el_entries el + 1"
    "el_bytes el' = el_bytes el + of_int (e_size x)"
    "el_last el' = (if from_slot (Some x) (towers e_depth (bs @ x # as) ! 0) = [] then Some x else el_last el)" "el_track_size el' = el_track_size el"
    "el_szs el' = (if el_track_size el then size_insert (el_szs el) x else el_szs el)"
    "el_meta el' = el_meta el"
    using link b by (simp_all add: el'_def block_ext_insert_def Let_def el_meta_def del: towers_nth)
  have "el_last el' = last_opt (bs @ x # as)"
    using d(7) xs fields(4) unfolding last by (cases as rule: rev_cases) (auto simp: last_opt_append)
  with fields show "el_ok (block_ext_insert el x)" "exts (block_ext_insert el x) = bs @ x # as"
    "el_meta (block_ext_insert el x) = el_meta el"
    using el_okI [of el' "bs @ x # as"] new d(5,6) xs szs unfolding el'_def [symmetric]
    by (simp_all add: algebra_simps split: if_splits)
qed

lemma block_off_remove_ok:
  assumes ok: "el_ok el" and xs: "exts el = bs @ x # as"
  shows "\<exists>el'. block_off_remove block el (e_off x) = Inr (x, el') \<and> el_ok el' \<and> exts el' = bs @ as \<and>
    el_meta el' = el_meta el"
proof -
  note d = el_okD [OF ok]
  have lok: "ext_list_ok (bs @ x # as)" using d(2) xs by simp
  then have lok': "ext_list_ok (bs @ as)" by simp
  note f = fits_parts [OF ext_list_ok_fits [OF lok]]
  obtain astack pen where b: "block_off_srch (el_offs el) (e_off x) = (astack, pen)" by fastforce
  have node: "stack_node astack (el_offs el) = Some x"
    using stack_node_towers [OF d(3,4), of "e_off x"] f xs b by (simp add: block_off_srch_def d(1))
  have unlink: "skip_unlink astack (e_depth x) x (el_offs el) = towers e_depth (bs @ as)"
    using skip_unlink_towers [where dep = e_depth, OF d(3) _ refl, of "e_off x" x as] f xs b
    by (simp add: block_off_srch_def d(1))
  have pen: "pen = last_opt bs"
    using skip_srch_last_passed [OF d(3,4), of "e_off x"] f xs b by (simp add: block_off_srch_def d(1))
  have "\<exists>szs'. (if el_track_size el then size_remove block (el_szs el) x (e_off x)
        else Inr (x, el_szs el)) = Inr (x, szs') \<and>
      (if el_track_size el then sizes_ok (bs @ as) szs' else szs' = towers s_depth [])"
    using ok size_remove_ok [OF _ ext_list_ok_sorted [OF lok] ext_list_ok_depth [OF lok], of "el_szs el" block]
      xs by (auto simp: el_ok_def)
  then obtain szs' where szs': "(if el_track_size el then size_remove block (el_szs el) x (e_off x)
        else Inr (x, el_szs el)) = Inr (x, szs')"
      "if el_track_size el then sizes_ok (bs @ as) szs' else szs' = towers s_depth []" by blast
  define el' where "el' = el\<lparr>el_offs := towers e_depth (bs @ as), el_szs := szs',
    el_entries := el_entries el - 1, el_bytes := el_bytes el - of_int (e_size x),
    el_last := (if el_last el = Some x then pen else el_last el)\<rparr>"
  have rem: "block_off_remove block el (e_off x) = Inr (x, el')"
    using b node unlink szs'(1) by (simp add: block_off_remove_def el'_def)
  have "x \<notin> set as" using key_sorted_distinct [OF ext_list_ok_sorted [OF lok]] by simp
  then have "el_last el' = last_opt (bs @ as)"
    using d(7) xs pen by (cases as rule: rev_cases) (auto simp: el'_def last_opt_append split: option.splits)
  then have "el_ok el'" "exts el' = bs @ as"
    using el_okI [of el' "bs @ as"] lok' d(5,6) xs szs'(2) by (simp_all add: el'_def algebra_simps)
  then show ?thesis using rem by (auto simp: el'_def el_meta_def)
qed

lemma block_off_srch_pair_ok:
  assumes "el_ok el"
  shows "block_off_srch_pair el off =
    (last_opt (below e_off off (exts el)), hd_opt (above e_off off (exts el)))"
  using el_okD [OF assms] by (simp add: block_off_srch_pair_def skip_pair_towers)

lemma block_off_remove_none:
  assumes ok: "el_ok el" and "\<And>x. x \<in> set (exts el) \<Longrightarrow> e_off x \<noteq> off"
  shows "block_off_remove block el off = WT_BLOCK_RET block EINVAL"
proof -
  note d = el_okD [OF ok]
  obtain astack pen where b: "block_off_srch (el_offs el) off = (astack, pen)" by fastforce
  have "stack_node astack (el_offs el) = hd_opt (above e_off off (exts el))"
    using stack_node_towers [OF d(3,4), of off] b by (simp add: block_off_srch_def d(1))
  then show ?thesis
    using b assms(2) above_mem [of e_off off "exts el"]
    by (cases "above e_off off (exts el)") (auto simp: block_off_remove_def)
qed

subsection \<open>Byte ranges\<close>

definition byte_range :: "int \<Rightarrow> int \<Rightarrow> int set" where
  "byte_range off sz = {off..<off + sz}"

definition cover :: "ext list \<Rightarrow> int set" where
  "cover xs = (\<Union>x\<in>set xs. byte_range (e_off x) (e_size x))"

text \<open>No two extents touch.\<close>

definition coalesced :: "ext list \<Rightarrow> bool" where
  "coalesced xs \<longleftrightarrow> sorted_wrt (\<lambda>a b. ext_end a < e_off b) xs"

lemma cover_simps [simp]:
  "cover [] = {}" "cover (x # xs) = byte_range (e_off x) (e_size x) \<union> cover xs"
  "cover (xs @ ys) = cover xs \<union> cover ys"
  by (auto simp: cover_def)

lemma in_range [simp]: "i \<in> byte_range off sz \<longleftrightarrow> off \<le> i \<and> i < off + sz"
  by (simp add: byte_range_def)

lemma in_cover: "i \<in> cover xs \<longleftrightarrow> (\<exists>x\<in>set xs. e_off x \<le> i \<and> i < ext_end x)"
  by (auto simp: cover_def ext_end_def)

lemma coalesced_simps [simp]:
  "coalesced []" "coalesced (x # xs) \<longleftrightarrow> (\<forall>y\<in>set xs. ext_end x < e_off y) \<and> coalesced xs"
  "coalesced (xs @ ys) \<longleftrightarrow> coalesced xs \<and> coalesced ys \<and> (\<forall>x\<in>set xs. \<forall>y\<in>set ys. ext_end x < e_off y)"
  by (auto simp: coalesced_def sorted_wrt_append)

lemma ext_list_ok_pos: "ext_list_ok xs \<Longrightarrow> x \<in> set xs \<Longrightarrow> e_off x < ext_end x"
  by (auto simp: ext_list_ok_def ext_end_def)

text \<open>A range and an extent list: the extents before and after the offset decide.\<close>

lemma range_disjoint_iff:
  assumes "ext_list_ok xs" and "0 < sz"
  shows "byte_range off sz \<inter> cover xs = {} \<longleftrightarrow>
    (\<forall>b\<in>set (below e_off off xs). ext_end b \<le> off) \<and>
    (\<forall>a\<in>set (above e_off off xs). off + sz \<le> e_off a)"
proof
  assume d: "byte_range off sz \<inter> cover xs = {}"
  have "ext_end b \<le> off" if "b \<in> set xs" "e_off b < off" for b
  proof (rule ccontr)
    assume "\<not> ext_end b \<le> off"
    then have "off \<in> byte_range off sz \<inter> cover xs" using that assms(2) by (auto simp: in_cover intro!: bexI [of _ b])
    then show False using d by blast
  qed
  moreover have "off + sz \<le> e_off a" if "a \<in> set xs" "off \<le> e_off a" for a
  proof (rule ccontr)
    assume "\<not> off + sz \<le> e_off a"
    then have "e_off a \<in> byte_range off sz \<inter> cover xs"
      using that assms(2) ext_list_ok_pos [OF assms(1) that(1)] by (auto simp: in_cover)
    then show False using d by blast
  qed
  ultimately show "(\<forall>b\<in>set (below e_off off xs). ext_end b \<le> off) \<and>
    (\<forall>a\<in>set (above e_off off xs). off + sz \<le> e_off a)" by auto
next
  assume d: "(\<forall>b\<in>set (below e_off off xs). ext_end b \<le> off) \<and>
    (\<forall>a\<in>set (above e_off off xs). off + sz \<le> e_off a)"
  have False if "i \<in> byte_range off sz" "x \<in> set xs" "e_off x \<le> i" "i < ext_end x" for i x
  proof (cases "e_off x < off")
    case True
    then have "ext_end x \<le> off" using d that(2) by simp
    then show False using that by simp
  next
    case False
    then have "off + sz \<le> e_off x" using d that(2) by simp
    then show False using that by simp
  qed
  then show "byte_range off sz \<inter> cover xs = {}" by (metis disjoint_iff in_cover)
qed

text \<open>The extent before the offset reaches furthest, the one after it starts first.\<close>

lemma below_last_end:
  assumes "ext_list_ok xs" and "last_opt (below e_off off xs) = Some b" and "x \<in> set (below e_off off xs)"
  shows "ext_end x \<le> ext_end b"
proof -
  obtain ys where ys: "below e_off off xs = ys @ [b]" using assms(2) by (auto simp: last_opt_Some)
  have ok: "ext_list_ok (ys @ [b])"
    using ext_list_ok_filter [OF assms(1)] ys by (metis below_def)
  then show ?thesis using assms(3) ys ext_list_ok_pos [OF ok, of b] by force
qed

lemma above_first_off:
  assumes "ext_list_ok xs" and "hd_opt (above e_off off xs) = Some a" and "x \<in> set (above e_off off xs)"
  shows "e_off a \<le> e_off x"
proof -
  obtain ys where ys: "above e_off off xs = a # ys" using assms(2) by (auto simp: hd_opt_Some)
  have ok: "ext_list_ok (a # ys)"
    using ext_list_ok_filter [OF assms(1)] ys by (metis above_def)
  then show ?thesis using assms(3) ys ext_list_ok_pos [OF ok, of a] by force
qed

definition hits_before :: "ext list \<Rightarrow> int \<Rightarrow> bool" where
  "hits_before xs off \<longleftrightarrow> (\<exists>b. last_opt (below e_off off xs) = Some b \<and> ext_end b > off)"

definition hits_after :: "ext list \<Rightarrow> int \<Rightarrow> int \<Rightarrow> bool" where
  "hits_after xs off sz \<longleftrightarrow> (\<exists>a. hd_opt (above e_off off xs) = Some a \<and> off + sz > e_off a)"

lemma hits_iff:
  assumes "ext_list_ok xs" and "0 < sz"
  shows "byte_range off sz \<inter> cover xs \<noteq> {} \<longleftrightarrow> hits_before xs off \<or> hits_after xs off sz"
proof -
  have "(\<exists>b\<in>set (below e_off off xs). \<not> ext_end b \<le> off) \<longleftrightarrow> hits_before xs off"
  proof
    assume "\<exists>b\<in>set (below e_off off xs). \<not> ext_end b \<le> off"
    then obtain x where x: "x \<in> set (below e_off off xs)" "ext_end x > off" by auto
    then obtain b where "last_opt (below e_off off xs) = Some b"
      by (metis last_opt_None list.set(1) empty_iff option.exhaust)
    then show "hits_before xs off"
      using below_last_end [OF assms(1) _ x(1)] x(2) by (force simp: hits_before_def)
  next
    assume "hits_before xs off"
    then show "\<exists>b\<in>set (below e_off off xs). \<not> ext_end b \<le> off"
      unfolding hits_before_def by (metis last_opt_in_set not_le)
  qed
  moreover have "(\<exists>a\<in>set (above e_off off xs). \<not> off + sz \<le> e_off a) \<longleftrightarrow> hits_after xs off sz"
  proof
    assume "\<exists>a\<in>set (above e_off off xs). \<not> off + sz \<le> e_off a"
    then obtain x where x: "x \<in> set (above e_off off xs)" "off + sz > e_off x" by auto
    then obtain a where "hd_opt (above e_off off xs) = Some a"
      by (metis hd_opt_None list.set(1) empty_iff option.exhaust)
    then show "hits_after xs off sz"
      using above_first_off [OF assms(1) _ x(1)] x(2) by (force simp: hits_after_def)
  next
    assume "hits_after xs off sz"
    then show "\<exists>a\<in>set (above e_off off xs). \<not> off + sz \<le> e_off a"
      unfolding hits_after_def by (metis hd_opt_Some list.set_intros(1) not_le)
  qed
  ultimately show ?thesis unfolding range_disjoint_iff [OF assms] by blast
qed

lemma hits_case:
  assumes "el_ok el"
  shows "(case fst (block_off_srch_pair el off) of Some b \<Rightarrow> ext_end b > off | None \<Rightarrow> False) =
      hits_before (exts el) off"
    and "(case snd (block_off_srch_pair el off) of Some a \<Rightarrow> off + sz > e_off a | None \<Rightarrow> False) =
      hits_after (exts el) off sz"
  by (auto simp: block_off_srch_pair_ok [OF assms] hits_before_def hits_after_def split: option.splits)

lemma block_off_match_iff:
  assumes "el_ok el" and "0 < sz"
  shows "block_off_match el off sz \<longleftrightarrow> byte_range off sz \<inter> cover (exts el) \<noteq> {}"
  using hits_case [OF assms(1)] hits_iff [OF el_okD(2) [OF assms(1)] assms(2)]
  by (simp add: block_off_match_def case_prod_beta)

text \<open>The extents on the two sides of an offset.\<close>

lemma split_exts:
  assumes "el_ok el"
  shows "exts el = below e_off off (exts el) @ above e_off off (exts el)"
  using below_above [OF el_okD(3) [OF assms]] by metis

lemma wt_block_ext_alloc_simps [simp]:
  "e_off (wt_block_ext_alloc rnd off sz) = off" "e_size (wt_block_ext_alloc rnd off sz) = sz"
  "ext_end (wt_block_ext_alloc rnd off sz) = off + sz"
  "Suc 0 \<le> e_depth (wt_block_ext_alloc rnd off sz)"
  "e_depth (wt_block_ext_alloc rnd off sz) \<le> WT_SKIP_MAXDEPTH"
  using wt_skip_choose_depth_bounds [of "rnd off"] by (simp_all add: wt_block_ext_alloc_def ext_end_def)

subsection \<open>Removing a range\<close>

text \<open>What \<open>__wt_block_off_remove_overlap\<close> leaves of the extent the range is cut out of.\<close>

definition ext_if :: "bool \<Rightarrow> ext \<Rightarrow> ext list" where
  "ext_if b x = (if b then [x] else [])"

lemma ext_if_simps [simp]: "ext_if True x = [x]" "ext_if False x = []"
  by (simp_all add: ext_if_def)

definition cut_ext :: "draws \<Rightarrow> ext \<Rightarrow> int \<Rightarrow> int \<Rightarrow> ext list" where
  "cut_ext rnd x off sz =
     ext_if (e_off x < off) (x\<lparr>e_size := off - e_off x\<rparr>) @
     ext_if (off + sz < ext_end x)
        (if e_off x < off then wt_block_ext_alloc rnd (off + sz) (ext_end x - (off + sz))
         else x\<lparr>e_off := off + sz, e_size := ext_end x - (off + sz)\<rparr>)"

lemma cut_ext_cases:
  obtains "e_off x < off" "off + sz < ext_end x"
      "cut_ext rnd x off sz = [x\<lparr>e_size := off - e_off x\<rparr>,
         wt_block_ext_alloc rnd (off + sz) (ext_end x - (off + sz))]"
    | "e_off x < off" "\<not> off + sz < ext_end x" "cut_ext rnd x off sz = [x\<lparr>e_size := off - e_off x\<rparr>]"
    | "\<not> e_off x < off" "off + sz < ext_end x"
      "cut_ext rnd x off sz = [x\<lparr>e_off := off + sz, e_size := ext_end x - (off + sz)\<rparr>]"
    | "\<not> e_off x < off" "\<not> off + sz < ext_end x" "cut_ext rnd x off sz = []"
  by (cases "e_off x < off"; cases "off + sz < ext_end x") (simp_all add: cut_ext_def)

lemma cut_ext_in:
  assumes "y \<in> set (cut_ext rnd x off sz)" and "e_off x \<le> off" and "off + sz \<le> ext_end x" and "0 < sz"
  shows "e_off x \<le> e_off y" and "ext_end y \<le> ext_end x"
  using assms by (cases rule: cut_ext_cases [of x off sz rnd]; auto simp: ext_end_def)+

lemma cut_ext_ok:
  assumes "ext_list_ok (bs @ x # as)" and "e_off x \<le> off" and "off + sz \<le> ext_end x" and "0 < sz"
  shows "ext_list_ok (bs @ cut_ext rnd x off sz @ as)"
    and "cover (bs @ cut_ext rnd x off sz @ as) = cover (bs @ x # as) - byte_range off sz"
    and "coalesced (bs @ x # as) \<Longrightarrow> coalesced (bs @ cut_ext rnd x off sz @ as)"
proof -
  have cut: "ext_list_ok (cut_ext rnd x off sz)" "coalesced (cut_ext rnd x off sz)"
    using assms by (cases rule: cut_ext_cases [of x off sz rnd]; auto simp: ext_end_def)+
  note inn = cut_ext_in [of _ rnd x off sz, OF _ assms(2-4)]
  show "ext_list_ok (bs @ cut_ext rnd x off sz @ as)"
    using cut assms(1) inn by (auto intro: order_trans)
  show "coalesced (bs @ x # as) \<Longrightarrow> coalesced (bs @ cut_ext rnd x off sz @ as)"
    using cut inn by (auto intro: less_le_trans le_less_trans)
  have c: "cover (cut_ext rnd x off sz) = byte_range (e_off x) (e_size x) - byte_range off sz"
    using assms(2-4) by (cases rule: cut_ext_cases [of x off sz rnd]) (auto simp: ext_end_def)
  have "byte_range off sz \<inter> cover bs = {}" "byte_range off sz \<inter> cover as = {}"
    using assms by (fastforce simp: in_cover ext_end_def)+
  then show "cover (bs @ cut_ext rnd x off sz @ as) = cover (bs @ x # as) - byte_range off sz"
    using c by auto
qed

lemma remove_overlap_put_back_ok:
  assumes el: "el_ok el" "exts el = bs @ as" and ok: "ext_list_ok (bs @ cut_ext rnd x off sz @ as)"
    and inside: "e_off x \<le> off" "off + sz \<le> ext_end x"
    and a: "a_size = off - e_off x" "a_size \<noteq> 0 \<longrightarrow> a_off = e_off x"
    and b: "b_off = off + sz" "b_size = ext_end x - (off + sz)"
  shows "el_ok (remove_overlap_put_back rnd el x a_off a_size b_off b_size)"
    and "exts (remove_overlap_put_back rnd el x a_off a_size b_off b_size) = bs @ cut_ext rnd x off sz @ as"
    and "el_meta (remove_overlap_put_back rnd el x a_off a_size b_off b_size) = el_meta el"
proof -
  let ?a = "x\<lparr>e_size := off - e_off x\<rparr>"
  define el1 where "el1 = (if e_off x < off then block_ext_insert el ?a else el)"
  let ?bs = "if e_off x < off then bs @ [?a] else bs"
  have 1: "el_ok el1 \<and> exts el1 = ?bs @ as \<and> el_meta el1 = el_meta el"
  proof (cases "e_off x < off")
    case True
    have "ext_list_ok (bs @ ?a # as)" using ok True by (simp add: cut_ext_def)
    then show ?thesis using block_ext_insert_ok [OF el] True by (simp add: el1_def)
  qed (use el in \<open>simp add: el1_def\<close>)
  let ?b = "if e_off x < off then wt_block_ext_alloc rnd b_off b_size
    else x\<lparr>e_off := b_off, e_size := b_size\<rparr>"
  define el2 where "el2 = (if off + sz < ext_end x then block_ext_insert el1 ?b else el1)"
  have cut: "bs @ cut_ext rnd x off sz @ as = (if off + sz < ext_end x then ?bs @ ?b # as else ?bs @ as)"
    using b by (simp add: cut_ext_def)
  have 2: "el_ok el2 \<and> exts el2 = bs @ cut_ext rnd x off sz @ as \<and> el_meta el2 = el_meta el"
  proof (cases "off + sz < ext_end x")
    case True
    then have "ext_list_ok (?bs @ ?b # as)" using ok cut by simp
    then show ?thesis using block_ext_insert_ok [of el1 ?bs as ?b] 1 True cut by (simp add: el2_def)
  qed (use 1 cut in \<open>simp add: el2_def\<close>)
  have a_upd: "a_size \<noteq> 0 \<Longrightarrow> x\<lparr>e_off := a_off, e_size := a_size\<rparr> = ?a" using a by simp
  have "remove_overlap_put_back rnd el x a_off a_size b_off b_size = el2"
    using inside a b a_upd
    by (auto simp: remove_overlap_put_back_def el1_def el2_def block_off_insert_def)
  then show "el_ok (remove_overlap_put_back rnd el x a_off a_size b_off b_size)"
    "exts (remove_overlap_put_back rnd el x a_off a_size b_off b_size) = bs @ cut_ext rnd x off sz @ as"
    "el_meta (remove_overlap_put_back rnd el x a_off a_size b_off b_size) = el_meta el"
    using 2 by simp_all
qed

lemma remove_overlap_inside:
  assumes ok: "el_ok el" and xs: "exts el = bs @ x # as"
    and inside: "e_off x \<le> off" "off + sz \<le> ext_end x" "0 < sz"
  shows "\<exists>el'. wt_block_off_remove_overlap rnd block el off sz = Inr el' \<and> el_ok el' \<and>
    exts el' = bs @ cut_ext rnd x off sz @ as \<and> el_meta el' = el_meta el"
proof -
  have lok: "ext_list_ok (bs @ x # as)" using el_okD(2) [OF ok] xs by simp
  obtain el' where rm: "block_off_remove block el (e_off x) = Inr (x, el')" "el_ok el'"
    "exts el' = bs @ as" "el_meta el' = el_meta el"
    using block_off_remove_ok [OF ok xs] by blast
  note cut = cut_ext_ok(1) [OF lok inside, of rnd]
  have pair: "block_off_srch_pair el off =
      (last_opt (below e_off off (bs @ x # as)), hd_opt (above e_off off (bs @ x # as)))"
    using block_off_srch_pair_ok [OF ok] xs by simp
  have bs: "\<And>b. b \<in> set bs \<Longrightarrow> e_off b < off"
    using lok inside(1) ext_list_ok_pos [OF lok] by force
  have as: "\<And>a. a \<in> set as \<Longrightarrow> off \<le> e_off a"
    using lok inside by fastforce
  show ?thesis
  proof (cases "e_off x < off")
    case True
    then have "below e_off off (bs @ x # as) = bs @ [x]" "above e_off off (bs @ x # as) = as"
      using bs as below_all [of bs e_off off] above_all [of as off e_off] by auto
    then have "block_off_srch_pair el off = (Some x, hd_opt as)" using pair by simp
    moreover have "off < ext_end x" using inside by simp
    ultimately show ?thesis
      using inside rm(1) rm(4) remove_overlap_put_back_ok [OF rm(2,3) cut inside(1,2),
          where a_size = "off - e_off x" and a_off = "e_off x" and b_off = "off + sz"
            and b_size = "e_size x - (off - e_off x + sz)"]
      by (simp add: wt_block_off_remove_overlap_def Let_def ext_end_def)
  next
    case False
    then have e: "e_off x = off" using inside(1) by simp
    have "below e_off off (bs @ x # as) = bs" "above e_off off (bs @ x # as) = x # as"
      using e bs as below_all [of bs e_off off] above_all [of as off e_off] by auto
    then have "block_off_srch_pair el off = (last_opt bs, Some x)" using pair by simp
    moreover have "(case last_opt bs of Some b \<Rightarrow> ext_end b > off | None \<Rightarrow> False) = False"
      using lok e by (auto split: option.splits dest!: last_opt_in_set)
    ultimately show ?thesis
      using inside rm(1) rm(4) e remove_overlap_put_back_ok [OF rm(2,3) cut inside(1,2),
          where a_size = 0 and a_off = 0 and b_off = "off + sz"
            and b_size = "e_size x - (off + sz - e_off x)"]
      by (simp add: wt_block_off_remove_overlap_def Let_def ext_end_def)
  qed
qed

lemma remove_overlap_notfound:
  assumes ok: "el_ok el" and "0 < sz" and "byte_range off sz \<inter> cover (exts el) = {}"
  shows "wt_block_off_remove_overlap rnd block el off sz = Inl WT_NOTFOUND"
  using hits_case [OF ok] hits_iff [OF el_okD(2) [OF ok] assms(2), of off] assms(3)
  by (simp add: wt_block_off_remove_overlap_def case_prod_beta Let_def)

text \<open>A range that overlaps the list without lying in one extent is out of bounds.\<close>

lemma remove_overlap_panic:
  assumes ok: "el_ok el" and "0 < sz" and hit: "byte_range off sz \<inter> cover (exts el) \<noteq> {}"
    and out: "\<And>x. x \<in> set (exts el) \<Longrightarrow> \<not> (e_off x \<le> off \<and> off + sz \<le> ext_end x)"
  shows "wt_block_off_remove_overlap rnd block el off sz = Inl WT_PANIC"
proof (cases "hits_before (exts el) off")
  case True
  then obtain b where b: "fst (block_off_srch_pair el off) = Some b" "ext_end b > off"
    by (auto simp: hits_before_def block_off_srch_pair_ok [OF ok])
  then have "b \<in> set (exts el)" "e_off b < off"
    using last_opt_in_set [of "below e_off off (exts el)" b] by (auto simp: block_off_srch_pair_ok [OF ok])
  then have "ext_end b < off + sz" using out by force
  then show ?thesis using b by (simp add: wt_block_off_remove_overlap_def case_prod_beta Let_def)
next
  case False
  then have "hits_after (exts el) off sz"
    using hits_iff [OF el_okD(2) [OF ok] assms(2)] hit by blast
  then obtain a where a: "snd (block_off_srch_pair el off) = Some a" "off + sz > e_off a"
    by (auto simp: hits_after_def block_off_srch_pair_ok [OF ok])
  then have "a \<in> set (exts el)" "off \<le> e_off a"
    using above_mem [of e_off off "exts el" a] by (auto simp: block_off_srch_pair_ok [OF ok] hd_opt_Some)
  then have "off \<noteq> e_off a \<or> off + sz > ext_end a" using out by force
  then show ?thesis
    using a hits_case(1) [OF ok, of off] False
    by (simp add: wt_block_off_remove_overlap_def case_prod_beta Let_def)
qed

subsection \<open>Merging a range\<close>

text \<open>The list with a range added: joined to the extents it touches.\<close>

definition join_before :: "ext list \<Rightarrow> int \<Rightarrow> ext option" where
  "join_before xs off = ends_at off (last_opt (below e_off off xs))"

definition join_after :: "ext list \<Rightarrow> int \<Rightarrow> int \<Rightarrow> ext option" where
  "join_after xs off sz =
     (case hd_opt (above e_off off xs) of Some a \<Rightarrow> if off + sz = e_off a then Some a else None | None \<Rightarrow> None)"

lemma block_merge_cases:
  assumes ok: "el_ok el" and dis: "byte_range off sz \<inter> cover (exts el) = {}" and "0 < sz"
  shows "block_merge rnd block el off sz =
    (case (join_before (exts el) off, join_after (exts el) off sz) of
       (None, None) \<Rightarrow> Inr (block_off_insert rnd el off sz)
     | (None, Some a) \<Rightarrow>
         wt_ret (block_off_remove block el (e_off a)) (\<lambda>(ext, el).
           Inr (block_ext_insert el (ext\<lparr>e_off := off, e_size := e_size ext + sz\<rparr>)))
     | (Some b, after) \<Rightarrow>
         wt_ret (case after of None \<Rightarrow> Inr (sz, el)
                 | Some a \<Rightarrow> wt_ret (block_off_remove block el (e_off a)) (\<lambda>(ext, el). Inr (sz + e_size a, el)))
           (\<lambda>(sz, el). wt_ret (block_off_remove block el (e_off b)) (\<lambda>(ext, el).
             Inr (block_ext_insert el (ext\<lparr>e_size := e_size ext + sz\<rparr>)))))"
proof -
  have "(case fst (block_off_srch_pair el off) of Some b \<Rightarrow> ext_end b > off | None \<Rightarrow> False) = False"
    "(case snd (block_off_srch_pair el off) of Some a \<Rightarrow> off + sz > e_off a | None \<Rightarrow> False) = False"
    using hits_case [OF ok] hits_iff [OF el_okD(2) [OF ok] assms(3)] dis by auto
  moreover have "(case fst (block_off_srch_pair el off) of Some b \<Rightarrow> if ext_end b \<noteq> off then None else Some b
      | None \<Rightarrow> None) = join_before (exts el) off"
    "(case snd (block_off_srch_pair el off) of Some a \<Rightarrow> if off + sz \<noteq> e_off a then None else Some a
      | None \<Rightarrow> None) = join_after (exts el) off sz"
    by (auto simp: join_before_def join_after_def ends_at_def block_off_srch_pair_ok [OF ok] split: option.splits)
  ultimately show ?thesis
    by (simp add: block_merge_def case_prod_beta Let_def)
qed

definition merged :: "extlist \<Rightarrow> extlist \<Rightarrow> int \<Rightarrow> int \<Rightarrow> bool" where
  "merged el el' off sz \<longleftrightarrow> el_ok el' \<and> cover (exts el') = cover (exts el) \<union> byte_range off sz \<and>
     el_meta el' = el_meta el \<and> (coalesced (exts el) \<longrightarrow> coalesced (exts el'))"

text \<open>The list after a merge, given what the range touches.\<close>

lemma mergedI:
  assumes "el_ok el'" and "exts el' = bs @ z # as" and "el_meta el' = el_meta el"
    and "cover (exts el) \<union> byte_range off sz = cover (bs @ z # as)"
    and "coalesced (exts el) \<Longrightarrow> coalesced (bs @ z # as)"
  shows "merged el el' off sz"
  using assms by (simp add: merged_def)

lemma join_before_Some:
  "join_before xs off = Some x \<Longrightarrow> \<exists>bs. below e_off off xs = bs @ [x] \<and> ext_end x = off"
  by (auto simp: join_before_def ends_at_def last_opt_Some split: option.splits if_splits)

lemma join_after_Some:
  "join_after xs off sz = Some y \<Longrightarrow> \<exists>as. above e_off off xs = y # as \<and> e_off y = off + sz"
  by (auto simp: join_after_def hd_opt_Some split: option.splits if_splits)

lemma join_before_None:
  assumes "ext_list_ok xs" and "join_before xs off = None" and "b \<in> set (below e_off off xs)"
    and "\<And>b. b \<in> set (below e_off off xs) \<Longrightarrow> ext_end b \<le> off"
  shows "ext_end b < off"
proof -
  obtain l where l: "last_opt (below e_off off xs) = Some l"
    using assms(3) by (cases "last_opt (below e_off off xs)") (auto simp del: below_simps(4))
  then have "ext_end l \<noteq> off" using assms(2) by (simp add: join_before_def ends_at_def split: if_splits)
  then have "ext_end l < off" using assms(4) l by (metis last_opt_in_set le_less)
  then show ?thesis using below_last_end [OF assms(1) l assms(3)] by simp
qed

lemma join_after_None:
  assumes "ext_list_ok xs" and "join_after xs off sz = None" and "a \<in> set (above e_off off xs)"
    and "\<And>a. a \<in> set (above e_off off xs) \<Longrightarrow> off + sz \<le> e_off a"
  shows "off + sz < e_off a"
proof -
  obtain h where h: "hd_opt (above e_off off xs) = Some h"
    using assms(3) by (cases "hd_opt (above e_off off xs)") (auto simp del: above_simps(4))
  then have "off + sz \<noteq> e_off h" using assms(2) by (simp add: join_after_def split: if_splits)
  moreover have "h \<in> set (above e_off off xs)" using h by (auto simp: hd_opt_Some simp del: above_simps(4))
  ultimately have "off + sz < e_off h" using assms(4) by (metis le_less)
  then show ?thesis using above_first_off [OF assms(1) h assms(3)] by simp
qed

lemma range_join: "0 \<le> m \<Longrightarrow> 0 \<le> n \<Longrightarrow> byte_range a m \<union> byte_range (a + m) n = byte_range a (m + n)"
  by auto

lemma block_merge_disjoint:
  assumes ok: "el_ok el" and dis: "byte_range off sz \<inter> cover (exts el) = {}" and sz: "0 < sz"
  shows "\<exists>el'. block_merge rnd block el off sz = Inr el' \<and> merged el el' off sz"
proof -
  let ?xs = "exts el"
  define bs as where "bs = below e_off off ?xs" and "as = above e_off off ?xs"
  have xs: "?xs = bs @ as" unfolding bs_def as_def by (rule split_exts [OF ok])
  note lok = el_okD(2) [OF ok]
  have b: "\<And>b. b \<in> set (below e_off off ?xs) \<Longrightarrow> ext_end b \<le> off"
    and a: "\<And>a. a \<in> set (above e_off off ?xs) \<Longrightarrow> off + sz \<le> e_off a"
    using range_disjoint_iff [OF lok sz] dis by blast+
  have lok': "ext_list_ok (bs @ as)" using lok xs by simp
  note cases = block_merge_cases [OF ok dis sz, of rnd block]
  consider (new) "join_before ?xs off = None" "join_after ?xs off sz = None"
    | (after) y where "join_before ?xs off = None" "join_after ?xs off sz = Some y"
    | (before) x where "join_before ?xs off = Some x" "join_after ?xs off sz = None"
    | (both) x y where "join_before ?xs off = Some x" "join_after ?xs off sz = Some y"
    by (cases "join_before ?xs off"; cases "join_after ?xs off sz") auto
  then show ?thesis
  proof cases
    case new
    let ?z = "wt_block_ext_alloc rnd off sz"
    have sb: "\<And>b. b \<in> set bs \<Longrightarrow> ext_end b < off" and sa: "\<And>a. a \<in> set as \<Longrightarrow> off + sz < e_off a"
      using join_before_None [OF lok new(1) _ b] join_after_None [OF lok new(2) _ a]
      unfolding bs_def as_def by blast+
    have new_ok: "ext_list_ok (bs @ ?z # as)" using lok' sb sa sz by (auto intro: less_imp_le)
    note ins = block_ext_insert_ok [OF ok xs new_ok]
    have "merged el (block_off_insert rnd el off sz) off sz"
      unfolding block_off_insert_def
      by (rule mergedI [OF ins]) (use xs sb sa in auto)
    then show ?thesis using cases new by simp
  next
    case (after y)
    obtain as' where as': "as = y # as'" "e_off y = off + sz"
      using join_after_Some [OF after(2)] as_def by auto
    have sb: "\<And>b. b \<in> set bs \<Longrightarrow> ext_end b < off"
      using join_before_None [OF lok after(1) _ b] unfolding bs_def by blast
    obtain el1 where rm: "block_off_remove block el (e_off y) = Inr (y, el1)" "el_ok el1"
      "exts el1 = bs @ as'" "el_meta el1 = el_meta el"
      using block_off_remove_ok [OF ok, of bs y as'] xs as' by auto
    let ?z = "y\<lparr>e_off := off, e_size := e_size y + sz\<rparr>"
    have ez: "ext_end ?z = ext_end y" using as' by (simp add: ext_end_def)
    have new_ok: "ext_list_ok (bs @ ?z # as')" using lok' as' sb sz ez by (auto intro: less_imp_le)
    note ins = block_ext_insert_ok [OF rm(2,3) new_ok]
    have "0 < e_size y" using lok' as' by simp
    then have "byte_range off (sz + e_size y) = byte_range off sz \<union> byte_range (e_off y) (e_size y)"
      using range_join [of sz "e_size y" off] as' sz by simp
    then have "merged el (block_ext_insert el1 ?z) off sz"
      using ins(3) rm(4) xs as' sb ez
      by (intro mergedI [OF ins(1,2)]) (auto simp: add.commute)
    then show ?thesis using cases after rm(1) by simp
  next
    case (before x)
    obtain bs' where bs': "bs = bs' @ [x]" "ext_end x = off"
      using join_before_Some [OF before(1)] bs_def by auto
    have sa: "\<And>a. a \<in> set as \<Longrightarrow> off + sz < e_off a"
      using join_after_None [OF lok before(2) _ a] unfolding as_def by blast
    obtain el1 where rm: "block_off_remove block el (e_off x) = Inr (x, el1)" "el_ok el1"
      "exts el1 = bs' @ as" "el_meta el1 = el_meta el"
      using block_off_remove_ok [OF ok, of bs' x as] xs bs' by auto
    let ?z = "x\<lparr>e_size := e_size x + sz\<rparr>"
    have ez: "ext_end ?z = off + sz" using bs' by (simp add: ext_end_def)
    have new_ok: "ext_list_ok (bs' @ ?z # as)" using lok' bs' sa sz ez by (auto intro: less_imp_le)
    note ins = block_ext_insert_ok [OF rm(2,3) new_ok]
    have "0 < e_size x" using lok' bs' by simp
    then have "byte_range (e_off x) (e_size x + sz) = byte_range (e_off x) (e_size x) \<union> byte_range off sz"
      using range_join [of "e_size x" sz "e_off x"] bs' sz by (simp add: ext_end_def)
    then have "merged el (block_ext_insert el1 ?z) off sz"
      using ins(3) rm(4) xs bs' sa ez
      by (intro mergedI [OF ins(1,2)]) auto
    then show ?thesis using cases before rm(1) by simp
  next
    case (both x y)
    obtain bs' where bs': "bs = bs' @ [x]" "ext_end x = off"
      using join_before_Some [OF both(1)] bs_def by auto
    obtain as' where as': "as = y # as'" "e_off y = off + sz"
      using join_after_Some [OF both(2)] as_def by auto
    obtain el1 where rm: "block_off_remove block el (e_off y) = Inr (y, el1)" "el_ok el1"
      "exts el1 = bs @ as'" "el_meta el1 = el_meta el"
      using block_off_remove_ok [OF ok, of bs y as'] xs as' by auto
    obtain el2 where rm2: "block_off_remove block el1 (e_off x) = Inr (x, el2)" "el_ok el2"
      "exts el2 = bs' @ as'" "el_meta el2 = el_meta el1"
      using block_off_remove_ok [OF rm(2), of bs' x as'] rm(3) bs' by auto
    let ?z = "x\<lparr>e_size := e_size x + (sz + e_size y)\<rparr>"
    have ez: "ext_end ?z = ext_end y" using bs' as' by (simp add: ext_end_def)
    have pos: "0 < e_size x" "0 < e_size y" using lok' bs' as' by simp_all
    have new_ok: "ext_list_ok (bs' @ ?z # as')" using lok' bs' as' sz ez pos by auto
    note ins = block_ext_insert_ok [OF rm2(2,3) new_ok]
    have "byte_range (e_off x) (e_size x + (sz + e_size y)) =
        byte_range (e_off x) (e_size x) \<union> (byte_range off sz \<union> byte_range (e_off y) (e_size y))"
      using range_join [of "e_size x" "sz + e_size y" "e_off x"] range_join [of sz "e_size y" off]
        pos bs' as' sz by (simp add: ext_end_def)
    then have "merged el (block_ext_insert el2 ?z) off sz"
      using ins(3) rm(4) rm2(4) xs bs' as' ez
      by (intro mergedI [OF ins(1,2)]) auto
    then show ?thesis using cases both rm(1) rm2(1) by simp
  qed
qed

lemma block_merge_overlap:
  assumes ok: "el_ok el" and hit: "byte_range off sz \<inter> cover (exts el) \<noteq> {}" and sz: "0 < sz"
  shows "block_merge rnd block el off sz = WT_BLOCK_RET block EINVAL"
  using hits_case [OF ok, of off] hits_iff [OF el_okD(2) [OF ok] sz, of off] hit
  by (auto simp: block_merge_def case_prod_beta Let_def split: option.splits)

lemma last_opt_ex: "x \<in> set xs \<Longrightarrow> \<exists>l. last_opt xs = Some l"
  by (cases "last_opt xs") auto

definition removed :: "extlist \<Rightarrow> extlist \<Rightarrow> int \<Rightarrow> int \<Rightarrow> bool" where
  "removed el el' off sz \<longleftrightarrow> el_ok el' \<and> cover (exts el') = cover (exts el) - byte_range off sz \<and>
     el_meta el' = el_meta el \<and> (coalesced (exts el) \<longrightarrow> coalesced (exts el'))"

lemma remove_overlap_removed:
  assumes ok: "el_ok el" and x: "x \<in> set (exts el)" "e_off x \<le> off" "off + sz \<le> ext_end x" and "0 < sz"
  shows "\<exists>el'. wt_block_off_remove_overlap rnd block el off sz = Inr el' \<and> removed el el' off sz"
proof -
  obtain bs as where xs: "exts el = bs @ x # as" using x(1) by (meson split_list)
  obtain el' where el': "wt_block_off_remove_overlap rnd block el off sz = Inr el'" "el_ok el'"
    "exts el' = bs @ cut_ext rnd x off sz @ as" "el_meta el' = el_meta el"
    using remove_overlap_inside [OF ok xs x(2,3) assms(5)] by blast
  have "ext_list_ok (bs @ x # as)" using el_okD(2) [OF ok] xs by simp
  note cut = cut_ext_ok [OF this x(2,3) assms(5), of rnd]
  have "removed el el' off sz"
    unfolding removed_def el'(3) xs using el'(2,4) cut(2,3) by blast
  then show ?thesis using el'(1) by blast
qed

text \<open>
  In a coalesced list a range that is covered lies in one extent: two extents leave a byte between
  them.
\<close>

lemma coalesced_range:
  assumes ok: "ext_list_ok xs" and co: "coalesced xs" and sub: "byte_range off sz \<subseteq> cover xs" and sz: "0 < sz"
  shows "\<exists>x\<in>set xs. e_off x \<le> off \<and> off + sz \<le> ext_end x"
proof -
  have "off \<in> cover xs" using sub sz by auto
  then obtain x where x: "x \<in> set xs" "e_off x \<le> off" "off < ext_end x" by (auto simp: in_cover)
  obtain bs as where xs: "xs = bs @ x # as" using x(1) by (meson split_list)
  have "off + sz \<le> ext_end x"
  proof (rule ccontr)
    assume "\<not> off + sz \<le> ext_end x"
    then have "ext_end x \<in> cover xs" using sub x(3) by auto
    then obtain y where y: "y \<in> set xs" "e_off y \<le> ext_end x" "ext_end x < ext_end y" by (auto simp: in_cover)
    have "y \<noteq> x" using y by auto
    then consider "y \<in> set bs" | "y \<in> set as" using y(1) xs by auto
    then show False
    proof cases
      case 1
      then have "ext_end y < e_off x" using co xs by simp
      then show False using y(3) ext_list_ok_pos [OF ok x(1)] by simp
    next
      case 2
      then have "ext_end x < e_off y" using co xs by simp
      then show False using y(2) by simp
    qed
  qed
  then show ?thesis using x by blast
qed

lemma remove_overlap_covered:
  assumes "el_ok el" and "coalesced (exts el)" and "byte_range off sz \<subseteq> cover (exts el)" and "0 < sz"
  shows "\<exists>el'. wt_block_off_remove_overlap rnd block el off sz = Inr el' \<and> removed el el' off sz"
  using coalesced_range [OF el_okD(2) [OF assms(1)] assms(2-4)] remove_overlap_removed [OF assms(1) _ _ _ assms(4)]
  by blast

subsection \<open>Appending\<close>

lemma grow_last:
  assumes ok: "el_ok el" and xs: "exts el = bs @ [x]" and track: "\<not> el_track_size el" and sz: "0 < sz"
  defines "x' \<equiv> x\<lparr>e_size := e_size x + sz\<rparr>"
  shows "grow_ext el x sz = (el\<lparr>el_offs := towers e_depth (bs @ [x'])\<rparr>, x')"
proof -
  note d = el_okD [OF ok]
  have "x \<notin> set bs" using key_sorted_distinct [OF d(3)] xs by simp
  then have m: "map (\<lambda>m. if m = x then x' else m) (bs @ [x]) = bs @ [x']"
    by (auto intro: map_idI)
  have "skip_store x x' (el_offs el) = towers e_depth (bs @ [x'])"
    using skip_store_towers [of e_depth x' x "bs @ [x]"] m by (simp add: d(1) xs x'_def)
  then show ?thesis by (simp add: grow_ext_def x'_def Let_def)
qed

lemma block_append_merged:
  assumes ok: "el_ok el" and track: "\<not> el_track_size el" and sz: "0 < sz"
    and after: "\<And>x. x \<in> set (exts el) \<Longrightarrow> ext_end x \<le> off"
  shows "merged el (block_append rnd el off sz) off sz"
proof -
  note d = el_okD [OF ok]
  have szs: "el_szs el = towers s_depth []" using ok track by (simp add: el_ok_def)
  have srch: "block_off_srch_last el True =
      (map (\<lambda>i. last_opt (level e_depth i (exts el))) [0..<WT_SKIP_MAXDEPTH], last_opt (exts el))"
    using skip_last_towers [OF d(3,4)] by (simp add: block_off_srch_last_def d(1))
  show ?thesis
  proof (cases "ends_at off (last_opt (exts el))")
    case None
    let ?z = "wt_block_ext_alloc rnd off sz"
    define el' where "el' = block_append rnd el off sz"
    have app: "skip_append (map (\<lambda>i. last_opt (level e_depth i (exts el))) [0..<WT_SKIP_MAXDEPTH])
        (e_depth ?z) ?z (el_offs el) = towers e_depth (exts el @ [?z])"
      using skip_append_towers [where n = ?z and dep = e_depth, OF d(3,4) refl] d(1)
        skip_last_towers [OF d(3,4)] by simp
    have el': "el' = el\<lparr>el_offs := towers e_depth (exts el @ [?z]), el_entries := el_entries el + 1,
        el_last := Some ?z, el_bytes := el_bytes el + of_int sz\<rparr>"
      using None app srch d(7) by (simp add: el'_def block_append_def Let_def)
    have new_ok: "ext_list_ok (exts el @ [?z])" using d(2) after sz by simp
    have "el_ok el'" "exts el' = exts el @ [?z]"
      using el_okI [of el' "exts el @ [?z]"] new_ok d(5,6) track szs by (simp_all add: el')
    moreover have "coalesced (exts el @ [?z])" if "coalesced (exts el)"
    proof -
      have "\<And>x. x \<in> set (exts el) \<Longrightarrow> e_off x < off"
        using ext_list_ok_pos [OF d(2)] after by force
      then have pos_below: "below e_off off (exts el) = exts el"
        using below_all [of "exts el" e_off off] by blast
      have "ext_end x < off" if x: "x \<in> set (exts el)" for x
      proof -
        obtain l where l: "last_opt (exts el) = Some l"
          using last_opt_ex [OF x] by blast
        then obtain ys where ys: "exts el = ys @ [l]" by (auto simp: last_opt_Some)
        have "ext_end l \<noteq> off" using None l by (simp add: ends_at_def split: if_splits)
        moreover have "ext_end l \<le> off" using after ys by simp
        moreover have "ext_end x \<le> ext_end l"
          using below_last_end [OF d(2), of off l x] x l pos_below by simp
        ultimately show ?thesis by simp
      qed
      then show ?thesis using that by simp
    qed
    ultimately have "merged el el' off sz"
      by (simp add: merged_def el_meta_def el' [symmetric]) (simp add: el')
    then show ?thesis by (simp add: el'_def)
  next
    case (Some x)
    then have l: "last_opt (exts el) = Some x" "ext_end x = off"
      by (auto simp: ends_at_def split: option.splits if_splits)
    then obtain bs where xs: "exts el = bs @ [x]" by (auto simp: last_opt_Some)
    let ?z = "x\<lparr>e_size := e_size x + sz\<rparr>"
    define el' where "el' = block_append rnd el off sz"
    have el': "el' = el\<lparr>el_offs := towers e_depth (bs @ [?z]), el_last := Some ?z,
        el_bytes := el_bytes el + of_int sz\<rparr>"
      using Some srch d(7) l grow_last [OF ok xs track sz] by (simp add: el'_def block_append_def Let_def)
    have pos: "0 < e_size x" using d(2) xs by simp
    have new_ok: "ext_list_ok (bs @ [?z])" using d(2) xs sz by simp
    have "el_ok el'" "exts el' = bs @ [?z]"
      using el_okI [of el' "bs @ [?z]"] new_ok d(5,6) xs track szs by (simp_all add: el' algebra_simps)
    moreover have "byte_range (e_off x) (e_size x + sz) = byte_range (e_off x) (e_size x) \<union> byte_range off sz"
      using range_join [of "e_size x" sz "e_off x"] l(2) pos sz by (simp add: ext_end_def)
    moreover have "coalesced (bs @ [x]) \<Longrightarrow> coalesced (bs @ [?z])" by simp
    ultimately have "merged el el' off sz"
      using xs by (simp add: merged_def) (auto simp: el_meta_def el')
    then show ?thesis by (simp add: el'_def)
  qed
qed

lemma wt_block_extlist_init_ok:
  "el_ok (wt_block_extlist_init track)" "exts (wt_block_extlist_init track) = []"
proof -
  have "sizes_ok [] (towers s_depth [])" by (rule sizes_okI [OF refl]) simp_all
  then show "el_ok (wt_block_extlist_init track)" "exts (wt_block_extlist_init track) = []"
    using el_okI [of "wt_block_extlist_init track" "[]"]
    by (simp_all add: wt_block_extlist_init_def towers_Nil)
qed

lemma extlist_check_loop_iff:
  assumes "ext_list_ok as" and "ext_list_ok bs"
  shows "extlist_check_loop as bs = (if cover as \<inter> cover bs = {} then Inr () else Inl WT_PANIC)"
  using assms
proof (induction as bs rule: extlist_check_loop.induct)
  case (1 a as b bs)
  have pa: "e_off a < ext_end a" and pb: "e_off b < ext_end b" using 1 by (auto simp: ext_end_def)
  have la: "\<And>x. x \<in> set as \<Longrightarrow> ext_end a \<le> e_off x" and lb: "\<And>x. x \<in> set bs \<Longrightarrow> ext_end b \<le> e_off x"
    using 1 by auto
  consider "ext_end a \<le> e_off b" | "\<not> ext_end a \<le> e_off b" "ext_end b \<le> e_off a"
    | "\<not> ext_end a \<le> e_off b" "\<not> ext_end b \<le> e_off a" by blast
  then show ?case
  proof cases
    case 1
    then have "byte_range (e_off a) (e_size a) \<inter> cover (b # bs) = {}"
      using lb pb by (fastforce simp: in_cover ext_end_def)
    then show ?thesis using 1 "1.IH"(1) "1.prems" by (simp add: Int_Un_distrib2)
  next
    case 2
    then have "byte_range (e_off b) (e_size b) \<inter> cover (a # as) = {}"
      using la pa by (fastforce simp: in_cover ext_end_def)
    then show ?thesis using 2 "1.IH"(2) "1.prems" by (simp add: Int_Un_distrib Int_commute Un_commute)
  next
    case 3
    then have "max (e_off a) (e_off b) \<in> byte_range (e_off a) (e_size a) \<inter> byte_range (e_off b) (e_size b)"
      using pa pb by (auto simp: ext_end_def)
    then have "cover (a # as) \<inter> cover (b # bs) \<noteq> {}" unfolding cover_simps by blast
    then show ?thesis using 3 by simp
  qed
qed auto

subsection \<open>Interface: a list of byte ranges\<close>

text \<open>
  What the block allocator relies on: adding a range that is not in the list, removing one that is,
  and being told when there is nothing to remove.
\<close>

locale range_list =
  fixes ok :: "'l \<Rightarrow> bool" and cov :: "'l \<Rightarrow> int set" and meta :: "'l \<Rightarrow> 'm"
    and add :: "'l \<Rightarrow> int \<Rightarrow> int \<Rightarrow> 'l result" and rm :: "'l \<Rightarrow> int \<Rightarrow> int \<Rightarrow> 'l result"
  assumes add_law: "ok l \<Longrightarrow> 0 < sz \<Longrightarrow> byte_range off sz \<inter> cov l = {} \<Longrightarrow>
      \<exists>l'. add l off sz = Inr l' \<and> ok l' \<and> cov l' = cov l \<union> byte_range off sz \<and> meta l' = meta l"
    and rm_law: "ok l \<Longrightarrow> 0 < sz \<Longrightarrow> byte_range off sz \<subseteq> cov l \<Longrightarrow>
      \<exists>l'. rm l off sz = Inr l' \<and> ok l' \<and> cov l' = cov l - byte_range off sz \<and> meta l' = meta l"
    and rm_none: "ok l \<Longrightarrow> 0 < sz \<Longrightarrow> byte_range off sz \<inter> cov l = {} \<Longrightarrow> rm l off sz = Inl WT_NOTFOUND"
begin

lemma move:
  assumes "ok a" and "ok b" and "cov a \<inter> cov b = {}" and "0 < sz" and "byte_range off sz \<subseteq> cov a"
  shows "\<exists>a' b'. rm a off sz = Inr a' \<and> add b off sz = Inr b' \<and> ok a' \<and> ok b' \<and>
    cov a' = cov a - byte_range off sz \<and> cov b' = cov b \<union> byte_range off sz \<and>
    meta a' = meta a \<and> meta b' = meta b"
proof -
  have "byte_range off sz \<inter> cov b = {}" using assms(3,5) by blast
  then show ?thesis using rm_law [OF assms(1,4,5)] add_law [OF assms(2,4)] by blast
qed

lemma add_rm:
  assumes "ok l" and "0 < sz" and "byte_range off sz \<inter> cov l = {}" and "add l off sz = Inr l'"
  shows "\<exists>l''. rm l' off sz = Inr l'' \<and> ok l'' \<and> cov l'' = cov l \<and> meta l'' = meta l"
proof -
  have l': "ok l'" "cov l' = cov l \<union> byte_range off sz" "meta l' = meta l"
    using add_law [OF assms(1-3)] assms(4) by auto
  then have "\<exists>l''. rm l' off sz = Inr l'' \<and> ok l'' \<and> cov l'' = cov l' - byte_range off sz \<and> meta l'' = meta l'"
    using assms(2) by (intro rm_law) auto
  moreover have "cov l' - byte_range off sz = cov l" using l'(2) assms(3) by blast
  ultimately show ?thesis using l'(3) by simp
qed

text \<open>Adding the ranges of a list one by one.\<close>

lemma add_all:
  assumes "ok l" and "ext_list_ok xs" and "cover xs \<inter> cov l = {}"
  shows "\<exists>l'. fold_result (\<lambda>l x. add l (e_off x) (e_size x)) xs l = Inr l' \<and> ok l' \<and>
    cov l' = cov l \<union> cover xs \<and> meta l' = meta l"
  using assms
proof (induction xs arbitrary: l)
  case (Cons x xs)
  have "0 < e_size x" "byte_range (e_off x) (e_size x) \<inter> cov l = {}" using Cons.prems by auto
  then obtain l1 where l1: "add l (e_off x) (e_size x) = Inr l1" "ok l1"
    "cov l1 = cov l \<union> byte_range (e_off x) (e_size x)" "meta l1 = meta l"
    using add_law [OF Cons.prems(1)] by blast
  have "byte_range (e_off x) (e_size x) \<inter> cover xs = {}"
    using Cons.prems(2) by (fastforce simp: in_cover ext_end_def)
  then have "cover xs \<inter> cov l1 = {}" using Cons.prems(3) l1(3) by auto
  then obtain l2 where "fold_result (\<lambda>l x. add l (e_off x) (e_size x)) xs l1 = Inr l2" "ok l2"
    "cov l2 = cov l1 \<union> cover xs" "meta l2 = meta l1"
    using Cons.IH [OF l1(2)] Cons.prems(2) by auto
  then show ?case using l1 by auto
qed simp

end

text \<open>The extent lists of the block manager, kept coalesced, are such lists.\<close>

definition list_ok :: "extlist \<Rightarrow> bool" where
  "list_ok el \<longleftrightarrow> el_ok el \<and> coalesced (exts el)"

definition el_cover :: "extlist \<Rightarrow> int set" where
  "el_cover el = cover (exts el)"

interpretation rl: range_list list_ok el_cover el_meta "block_merge rnd block"
  "wt_block_off_remove_overlap rnd block" for rnd block
proof unfold_locales
  fix l sz off
  show "list_ok l \<Longrightarrow> 0 < sz \<Longrightarrow> byte_range off sz \<inter> el_cover l = {} \<Longrightarrow>
      \<exists>l'. block_merge rnd block l off sz = Inr l' \<and> list_ok l' \<and>
        el_cover l' = el_cover l \<union> byte_range off sz \<and> el_meta l' = el_meta l"
    using block_merge_disjoint [of l off sz rnd block]
    by (auto simp: list_ok_def el_cover_def merged_def)
  show "list_ok l \<Longrightarrow> 0 < sz \<Longrightarrow> byte_range off sz \<subseteq> el_cover l \<Longrightarrow>
      \<exists>l'. wt_block_off_remove_overlap rnd block l off sz = Inr l' \<and> list_ok l' \<and>
        el_cover l' = el_cover l - byte_range off sz \<and> el_meta l' = el_meta l"
    using remove_overlap_covered [of l off sz rnd block]
    by (auto simp: list_ok_def el_cover_def removed_def)
  show "list_ok l \<Longrightarrow> 0 < sz \<Longrightarrow> byte_range off sz \<inter> el_cover l = {} \<Longrightarrow>
      wt_block_off_remove_overlap rnd block l off sz = Inl WT_NOTFOUND"
    by (simp add: list_ok_def el_cover_def remove_overlap_notfound)
qed

subsection \<open>A new file\<close>

text \<open>\<open>__wt_block_ckpt_init\<close> (the lists of the checkpoint structure), and a file that has no blocks yet.\<close>

definition wt_block_ckpt_init :: ckpt_lists where
  "wt_block_ckpt_init = \<lparr>alloc_list = wt_block_extlist_init False, avail_list = wt_block_extlist_init True,
     discard_list = wt_block_extlist_init False, ckpt_avail_list = wt_block_extlist_init True\<rparr>"

definition new_block :: wt_block where
  "new_block = \<lparr>blk_size = 4096, blk_allocsize = 4096, blk_objectid = 0, blk_allocfirst = 0,
     blk_verify = False, blk_final_ckpt = False, blk_live = wt_block_ckpt_init\<rparr>"

lemma init_list_ok [simp]:
  "list_ok (wt_block_extlist_init track)" "el_cover (wt_block_extlist_init track) = {}"
  "el_track_size (wt_block_extlist_init track) = track"
  by (simp_all add: list_ok_def wt_block_extlist_init_ok el_cover_def)
    (simp add: wt_block_extlist_init_def)

subsection \<open>Properties\<close>

text \<open>
  C30: the three skip list searches find what a walk over the lowest level finds, whatever the depths
  of the nodes: the neighbours of a key, the first node at or after it, and the last node.
\<close>

theorem skip_searches_linear:
  assumes "key_sorted key xs" and "dep_ok dep xs"
  shows "skip_pair key k (towers dep xs) = (last_opt (below key k xs), hd_opt (above key k xs)) \<and>
    stack_node (fst (skip_srch key k (towers dep xs))) (towers dep xs) = hd_opt (above key k xs) \<and>
    snd (skip_srch key k (towers dep xs)) = last_opt (below key k xs) \<and>
    snd (skip_last (towers dep xs)) = last_opt xs"
  using skip_pair_towers [OF assms] stack_node_towers [OF assms] skip_srch_last_passed [OF assms]
    skip_last_towers [OF assms]
  by simp

theorem skip_searches_linear_witness:
  "skip_pair fst 12 (towers snd [(5, 1), (10, 3), (20, 2 :: nat)]) = (Some (10, 3), Some (20, 2)) \<and>
   snd (skip_last (towers snd [(5, 1), (10, 3), (20 :: int, 2)])) = Some (20, 2)"
proof -
  have "key_sorted fst [(5 :: int, 1), (10, 3), (20, 2 :: nat)]" "dep_ok snd [(5 :: int, 1), (10, 3), (20, 2 :: nat)]"
    by (simp_all add: WT_SKIP_MAXDEPTH_def)
  from skip_searches_linear [OF this, of 12] show ?thesis by simp
qed

text \<open>
  C27: inserting an extent into the list's skip lists (offset towers, and size towers when sizes are
  tracked) puts it at its place in the sorted list and keeps the counters and the cached last extent;
  removing it by offset returns it and restores the list.
\<close>

theorem insert_remove_refine:
  assumes "el_ok el" and "exts el = bs @ as" and "ext_list_ok (bs @ x # as)"
  shows "el_ok (block_ext_insert el x) \<and> exts (block_ext_insert el x) = bs @ x # as \<and>
    (\<exists>el'. block_off_remove block (block_ext_insert el x) (e_off x) = Inr (x, el') \<and> el_ok el' \<and>
      exts el' = exts el \<and> el_meta el' = el_meta el)"
  using block_ext_insert_ok [OF assms] block_off_remove_ok [of "block_ext_insert el x" bs x as block] assms(2)
  by auto

theorem insert_remove_refine_witness:
  "exts (block_ext_insert (wt_block_extlist_init True) \<lparr>e_off = 4096, e_size = 512, e_depth = 3\<rparr>) =
     [\<lparr>e_off = 4096, e_size = 512, e_depth = 3\<rparr>]"
  using insert_remove_refine [of "wt_block_extlist_init True" "[]" "[]" "\<lparr>e_off = 4096, e_size = 512, e_depth = 3\<rparr>"]
  by (simp add: wt_block_extlist_init_ok WT_SKIP_MAXDEPTH_def)

text \<open>
  C24: removing a range: when the list holds all of it, exactly the range goes and the list stays
  well-formed (sorted, disjoint, no two extents touching, counters right); when it holds none of it
  the answer is \<open>WT_NOTFOUND\<close>, and when it holds a part it is a panic.
\<close>

theorem remove_overlap_exact:
  assumes "list_ok el" and "0 < sz"
  shows "if byte_range off sz \<subseteq> el_cover el
    then \<exists>el'. wt_block_off_remove_overlap rnd block el off sz = Inr el' \<and> list_ok el' \<and>
      el_cover el' = el_cover el - byte_range off sz \<and> el_meta el' = el_meta el
    else wt_block_off_remove_overlap rnd block el off sz =
      Inl (if byte_range off sz \<inter> el_cover el = {} then WT_NOTFOUND else WT_PANIC)"
proof (cases "byte_range off sz \<subseteq> el_cover el")
  case True
  then show ?thesis using rl.rm_law [OF assms True] by simp
next
  case False
  have ok: "el_ok el" using assms(1) by (simp add: list_ok_def)
  have "wt_block_off_remove_overlap rnd block el off sz = Inl WT_PANIC" if "byte_range off sz \<inter> el_cover el \<noteq> {}"
    using False that
    by (intro remove_overlap_panic [OF ok assms(2)]) (auto simp: el_cover_def in_cover subset_iff)
  then show ?thesis using False rl.rm_none [OF assms] by auto
qed

theorem remove_overlap_exact_witness:
  "wt_block_off_remove_overlap (\<lambda>_ _. 0) new_block (wt_block_extlist_init False) 4096 512 = Inl WT_NOTFOUND"
  using remove_overlap_exact [of "wt_block_extlist_init False" 512 4096 "\<lambda>_ _. 0" new_block]
  by (simp add: byte_range_def)

text \<open>
  C23: adding a range to a list succeeds exactly when the list holds none of it; then the list covers
  the range as well, joined with the extents it touches, and stays well-formed. An overlap is an
  error (a panic unless the file is being verified).
\<close>

theorem block_merge_exact:
  assumes "list_ok el" and "0 < sz"
  shows "if byte_range off sz \<inter> el_cover el = {}
    then \<exists>el'. block_merge rnd block el off sz = Inr el' \<and> list_ok el' \<and>
      el_cover el' = el_cover el \<union> byte_range off sz \<and> el_meta el' = el_meta el
    else block_merge rnd block el off sz = WT_BLOCK_RET block EINVAL"
  using rl.add_law [OF assms, of off rnd block] block_merge_overlap [of el off sz rnd block] assms
  by (auto simp: list_ok_def el_cover_def)

theorem block_merge_exact_witness:
  "\<exists>el'. block_merge (\<lambda>_ _. 0) new_block (wt_block_extlist_init True) 4096 512 = Inr el' \<and> list_ok el' \<and>
    el_cover el' = {4096..<4608}"
  using block_merge_exact [of "wt_block_extlist_init True" 512 4096 "\<lambda>_ _. 0" new_block]
  by (auto simp: byte_range_def)

text \<open>
  The diagnostic checks decide overlap exactly: two lists pass \<open>__wt_block_extlist_check\<close> when
  they share no byte, and a range is misplaced when the available list, or for the live system the
  discard list, holds one of its bytes.
\<close>

theorem overlap_checks_exact:
  assumes "list_ok al" and "list_ok bl" and "list_ok (avail_list (blk_live block))"
    and "list_ok (discard_list (blk_live block))" and "0 < sz"
  shows "wt_block_extlist_check al bl = (if el_cover al \<inter> el_cover bl = {} then Inr () else Inl WT_PANIC) \<and>
    wt_block_misplaced block False off sz live =
      (if byte_range off sz \<inter> (el_cover (avail_list (blk_live block)) \<union>
            (if live then el_cover (discard_list (blk_live block)) else {})) = {}
       then Inr () else Inl WT_PANIC)"
  using assms extlist_check_loop_iff [of "exts al" "exts bl"] block_off_match_iff [OF _ assms(5), of _ off]
  by (auto simp: list_ok_def el_ok_def wt_block_extlist_check_def exts_def el_cover_def wt_block_misplaced_def)

theorem overlap_checks_exact_witness:
  "wt_block_extlist_check (wt_block_extlist_init True) (wt_block_extlist_init False) = Inr () \<and>
   wt_block_misplaced new_block False 4096 512 True = Inr ()"
  using overlap_checks_exact [of "wt_block_extlist_init True" "wt_block_extlist_init False" new_block 512 4096 True]
  by (simp add: new_block_def wt_block_ckpt_init_def)

end
