(* ===== verification/BlockAlloc.thy ===== *)
theory BlockAlloc
  imports ExtList BlockAddr
begin

text \<open>
  Allocation and freeing of file space, \<open>src/block/block_ext.c\<close>. The live system's lock is held by
  the callers; an operation is one step.
\<close>

subsection \<open>Allocation\<close>

definition INT64_MAX :: int where "INT64_MAX = 2 ^ 63 - 1"

definition set_alloc :: "extlist \<Rightarrow> wt_block \<Rightarrow> wt_block" where
  "set_alloc el block = block\<lparr>blk_live := (blk_live block)\<lparr>alloc_list := el\<rparr>\<rparr>"

definition set_avail :: "extlist \<Rightarrow> wt_block \<Rightarrow> wt_block" where
  "set_avail el block = block\<lparr>blk_live := (blk_live block)\<lparr>avail_list := el\<rparr>\<rparr>"

definition set_discard :: "extlist \<Rightarrow> wt_block \<Rightarrow> wt_block" where
  "set_discard el block = block\<lparr>blk_live := (blk_live block)\<lparr>discard_list := el\<rparr>\<rparr>"

definition set_ckpt_avail :: "extlist \<Rightarrow> wt_block \<Rightarrow> wt_block" where
  "set_ckpt_avail el block = block\<lparr>blk_live := (blk_live block)\<lparr>ckpt_avail_list := el\<rparr>\<rparr>"

abbreviation live_alloc :: "wt_block \<Rightarrow> extlist" where "live_alloc block \<equiv> alloc_list (blk_live block)"
abbreviation live_avail :: "wt_block \<Rightarrow> extlist" where "live_avail block \<equiv> avail_list (blk_live block)"
abbreviation live_discard :: "wt_block \<Rightarrow> extlist" where "live_discard block \<equiv> discard_list (blk_live block)"
abbreviation live_ckpt_avail :: "wt_block \<Rightarrow> extlist" where
  "live_ckpt_avail block \<equiv> ckpt_avail_list (blk_live block)"

definition block_extend :: "wt_block \<Rightarrow> int \<Rightarrow> (int \<times> wt_block) result" where
  "block_extend block sz =
     (if blk_size block < blk_allocsize block then Inl EINVAL
      else if blk_size block > INT64_MAX - sz then Inl WT_ERROR
      else Inr (blk_size block, block\<lparr>blk_size := blk_size block + sz\<rparr>))"

text \<open>The \<open>append\<close> label: extend the file and record the new extent.\<close>

definition alloc_append :: "draws \<Rightarrow> wt_block \<Rightarrow> int \<Rightarrow> (int \<times> wt_block) result" where
  "alloc_append rnd block sz =
     wt_ret (block_extend block sz) (\<lambda>(off, block).
       Inr (off, set_alloc (block_append rnd (live_alloc block) off sz) block))"

text \<open>
  The extent to take from the available list: the first that is large enough, or the first of the
  smallest size that is. \<open>OutOfBounds\<close> marks a size entry with no extent, whose first record the
  code would use without a test.
\<close>

definition alloc_choose :: "wt_block \<Rightarrow> int \<Rightarrow> ext option result" where
  "alloc_choose block sz =
     (if blk_allocfirst block > 0 then
        (case block_first_srch (el_offs (live_avail block)) sz of None \<Rightarrow> Inr None
         | Some estack \<Rightarrow> Inr (stack_node estack (el_offs (live_avail block))))
      else
        (case stack_node (block_size_srch (el_szs (live_avail block)) sz) (el_szs (live_avail block)) of
           None \<Rightarrow> Inr None
         | Some szp \<Rightarrow> (case s_off szp ! 0 of [] \<Rightarrow> Inl OutOfBounds | ext # _ \<Rightarrow> Inr (Some ext))))"

definition wt_block_alloc :: "draws \<Rightarrow> wt_block \<Rightarrow> int \<Rightarrow> (int \<times> wt_block) result" where
  "wt_block_alloc rnd block sz =
     (if sz mod blk_allocsize block \<noteq> 0 then Inl EINVAL
      else if el_bytes (live_avail block) < of_int sz then alloc_append rnd block sz
      else wt_ret (alloc_choose block sz) (\<lambda>choice.
        case choice of None \<Rightarrow> alloc_append rnd block sz
        | Some ext \<Rightarrow>
          wt_ret (block_off_remove block (live_avail block) (e_off ext)) (\<lambda>(ext, avail).
            let off = e_off ext;
                avail = (if e_size ext > sz
                         then block_ext_insert avail (ext\<lparr>e_off := e_off ext + sz, e_size := e_size ext - sz\<rparr>)
                         else avail)
            in wt_ret (block_merge rnd block (live_alloc block) off sz) (\<lambda>alloc.
                 Inr (off, set_alloc alloc (set_avail avail block))))))"

subsection \<open>Freeing\<close>

definition wt_block_off_free :: "draws \<Rightarrow> wt_block \<Rightarrow> u32 \<Rightarrow> int \<Rightarrow> int \<Rightarrow> wt_block result" where
  "wt_block_off_free rnd block objectid off sz =
     (if objectid \<noteq> blk_objectid block then Inr block
      else case wt_block_off_remove_overlap rnd block (live_alloc block) off sz of
        Inr alloc \<Rightarrow>
          wt_ret (block_merge rnd block (live_avail block) off sz) (\<lambda>avail.
            Inr (set_avail avail (set_alloc alloc block)))
      | Inl e \<Rightarrow>
          if e = WT_NOTFOUND then
            wt_ret (block_merge rnd block (live_discard block) off sz) (\<lambda>discard.
              Inr (set_discard discard block))
          else Inl e)"

text \<open>What \<open>__wt_block_addr_unpack\<close> needs of the block.\<close>

definition block_file_of :: "wt_block \<Rightarrow> block_file" where
  "block_file_of block = \<lparr>bf_allocsize = of_int (blk_allocsize block), bf_objectid = blk_objectid block,
     bf_size = of_int (blk_size block)\<rparr>"

text \<open>The diagnostic check runs in diagnostic builds (\<open>diag\<close>).\<close>

definition wt_block_free :: "draws \<Rightarrow> bool \<Rightarrow> wt_block \<Rightarrow> u8 list \<Rightarrow> nat \<Rightarrow> wt_block result" where
  "wt_block_free rnd diag block addr addr_size =
     wt_ret (wt_block_addr_unpack (block_file_of block) addr addr_size) (\<lambda>a.
       let off = sint (a_offset a); sz = uint (a_size a) in
       if a_objectid a \<noteq> blk_objectid block then Inr block
       else wt_ret (if diag then wt_block_misplaced block False off sz True else Inr ()) (\<lambda>_.
         wt_block_off_free rnd block (a_objectid a) off sz))"

subsection \<open>The invariant of the live system\<close>

definition block_ok :: "wt_block \<Rightarrow> bool" where
  "block_ok block \<longleftrightarrow> 0 < blk_allocsize block \<and> blk_allocsize block \<le> blk_size block \<and>
     blk_size block \<le> INT64_MAX \<and>
     list_ok (live_alloc block) \<and> list_ok (live_avail block) \<and> list_ok (live_discard block) \<and>
     \<not> el_track_size (live_alloc block) \<and> el_track_size (live_avail block) \<and>
     \<not> el_track_size (live_discard block) \<and>
     el_cover (live_alloc block) \<inter> el_cover (live_avail block) = {} \<and>
     el_cover (live_alloc block) \<inter> el_cover (live_discard block) = {} \<and>
     el_cover (live_avail block) \<inter> el_cover (live_discard block) = {} \<and>
     el_cover (live_alloc block) \<union> el_cover (live_avail block) \<union> el_cover (live_discard block)
       \<subseteq> {blk_allocsize block..<blk_size block}"

lemma live_sets [simp]:
  "live_alloc (set_alloc el block) = el" "live_avail (set_alloc el block) = live_avail block"
  "live_discard (set_alloc el block) = live_discard block"
  "live_alloc (set_avail el block) = live_alloc block" "live_avail (set_avail el block) = el"
  "live_discard (set_avail el block) = live_discard block"
  "live_alloc (set_discard el block) = live_alloc block" "live_avail (set_discard el block) = live_avail block"
  "live_discard (set_discard el block) = el"
  "live_ckpt_avail (set_alloc el block) = live_ckpt_avail block"
  "live_ckpt_avail (set_avail el block) = live_ckpt_avail block"
  "live_ckpt_avail (set_discard el block) = live_ckpt_avail block"
  "blk_size (set_alloc el block) = blk_size block" "blk_size (set_avail el block) = blk_size block"
  "blk_size (set_discard el block) = blk_size block"
  "blk_allocsize (set_alloc el block) = blk_allocsize block"
  "blk_allocsize (set_avail el block) = blk_allocsize block"
  "blk_allocsize (set_discard el block) = blk_allocsize block"
  "blk_objectid (set_alloc el block) = blk_objectid block"
  "blk_objectid (set_avail el block) = blk_objectid block"
  "blk_objectid (set_discard el block) = blk_objectid block"
  by (simp_all add: set_alloc_def set_avail_def set_discard_def)

text \<open>The byte count of a list that lies in a range is exact: it does not wrap.\<close>

lemma ext_bytes_bound:
  assumes "ext_list_ok xs" and "cover xs \<subseteq> {lo..<hi}" and "lo \<le> hi"
  shows "0 \<le> ext_bytes xs" and "ext_bytes xs \<le> hi - lo"
proof -
  have "0 \<le> ext_bytes xs \<and> ext_bytes xs \<le> hi - lo"
    using assms
  proof (induction xs arbitrary: lo)
    case (Cons x xs)
    have x: "0 < e_size x" "lo \<le> e_off x" "ext_end x \<le> hi"
    proof -
      show s: "0 < e_size x" using Cons.prems(1) by simp
      have "e_off x \<in> {lo..<hi}" using Cons.prems(2) s by (intro subsetD [OF Cons.prems(2)]) simp
      moreover have "ext_end x - 1 \<in> {lo..<hi}"
        using s by (intro subsetD [OF Cons.prems(2)]) (simp add: ext_end_def)
      ultimately show "lo \<le> e_off x" "ext_end x \<le> hi" by auto
    qed
    have "cover xs \<subseteq> {ext_end x..<hi}"
    proof
      fix i assume i: "i \<in> cover xs"
      then obtain y where "y \<in> set xs" "e_off y \<le> i" by (auto simp: in_cover)
      then have "ext_end x \<le> i" using Cons.prems(1) by fastforce
      moreover have "i \<in> {lo..<hi}" using i Cons.prems(2) by auto
      ultimately show "i \<in> {ext_end x..<hi}" by simp
    qed
    then have "0 \<le> ext_bytes xs \<and> ext_bytes xs \<le> hi - ext_end x"
      using Cons.IH [of "ext_end x"] Cons.prems(1) x by simp
    then show ?case using x by (simp add: ext_end_def)
  qed simp
  then show "0 \<le> ext_bytes xs" "ext_bytes xs \<le> hi - lo" by simp_all
qed

lemma of_int_less_u64:
  assumes "0 \<le> m" and "m < 2 ^ 64" and "0 \<le> n" and "n < 2 ^ 64"
  shows "(of_int m :: u64) < of_int n \<longleftrightarrow> m < n"
  using assms by (simp add: word_less_def unsigned_of_int take_bit_int_eq_self)

lemma bytes_short:
  assumes "el_ok el" and "cover (exts el) \<subseteq> {lo..<hi}" and "0 \<le> lo" and "lo \<le> hi" and "hi \<le> INT64_MAX"
    and "0 \<le> sz" and "sz \<le> INT64_MAX"
  shows "el_bytes el < of_int sz \<longleftrightarrow> ext_bytes (exts el) < sz"
  using ext_bytes_bound [OF el_okD(2) [OF assms(1)] assms(2,4)] el_okD(5) [OF assms(1)] assms(3-)
  by (simp add: of_int_less_u64 INT64_MAX_def)

lemma ext_bytes_member: "ext_list_ok xs \<Longrightarrow> x \<in> set xs \<Longrightarrow> e_size x \<le> ext_bytes xs"
proof (induction xs)
  case (Cons y ys)
  have "0 \<le> ext_bytes ys"
    using Cons.prems(1) unfolding ext_bytes_def
    by (intro sum_list_nonneg) (force simp: ext_list_ok_def)
  then show ?case using Cons by auto
qed simp

subsection \<open>The choice of an extent\<close>

definition fits_best :: "wt_block \<Rightarrow> int \<Rightarrow> ext \<Rightarrow> bool" where
  "fits_best block sz x \<longleftrightarrow> x \<in> set (exts (live_avail block)) \<and> sz \<le> e_size x \<and>
     (\<forall>y\<in>set (exts (live_avail block)). sz \<le> e_size y \<longrightarrow>
       (if blk_allocfirst block > 0 then e_off x \<le> e_off y
        else e_size x < e_size y \<or> e_size x = e_size y \<and> e_off x \<le> e_off y))"

lemma first_large_spec:
  assumes "key_sorted e_off xs"
  shows "(case first_large sz xs of None \<Rightarrow> \<forall>x\<in>set xs. e_size x < sz
     | Some x \<Rightarrow> x \<in> set xs \<and> sz \<le> e_size x \<and> (\<forall>y\<in>set xs. sz \<le> e_size y \<longrightarrow> e_off x \<le> e_off y))"
  using assms
proof (induction xs)
  case (Cons y ys)
  then show ?case by (cases "first_large sz ys") (auto intro: less_imp_le)
qed simp

lemma alloc_choose_first:
  assumes ok: "el_ok (live_avail block)" and first: "blk_allocfirst block > 0"
  shows "(alloc_choose block sz = Inr None \<and> (\<forall>x\<in>set (exts (live_avail block)). e_size x < sz)) \<or>
    (\<exists>x. alloc_choose block sz = Inr (Some x) \<and> fits_best block sz x)"
proof -
  let ?el = "live_avail block"
  note d = el_okD [OF ok]
  have xs: "el_offs ?el ! 0 = exts ?el" by (simp add: exts_def)
  show ?thesis
  proof (cases "first_large sz (exts ?el)")
    case None
    then show ?thesis
      using first first_large_spec [OF d(3), of sz] xs by (simp add: alloc_choose_def block_first_srch_def)
  next
    case (Some x)
    then have x: "x \<in> set (exts ?el)" "sz \<le> e_size x"
      "\<forall>y\<in>set (exts ?el). sz \<le> e_size y \<longrightarrow> e_off x \<le> e_off y"
      using first_large_spec [OF d(3), of sz] by auto
    obtain r where "above e_off (e_off x) (exts ?el) = x # r" using above_key [OF d(3) x(1)] by blast
    then have "stack_node (fst (block_off_srch (el_offs ?el) (e_off x))) (el_offs ?el) = Some x"
      using stack_node_towers [OF d(3,4), of "e_off x"] by (simp add: block_off_srch_def d(1))
    then show ?thesis
      using first x Some xs by (auto simp: alloc_choose_def block_first_srch_def fits_best_def)
  qed
qed

lemma alloc_choose_best:
  assumes ok: "el_ok (live_avail block)" and track: "el_track_size (live_avail block)"
    and first: "blk_allocfirst block = 0"
  shows "(alloc_choose block sz = Inr None \<and> (\<forall>x\<in>set (exts (live_avail block)). e_size x < sz)) \<or>
    (\<exists>x. alloc_choose block sz = Inr (Some x) \<and> fits_best block sz x)"
proof -
  let ?xs = "exts (live_avail block)"
  note d = el_okD [OF ok]
  have "sizes_ok ?xs (el_szs (live_avail block))" using ok track by (simp add: el_ok_def)
  then obtain ss where ss: "el_szs (live_avail block) = towers s_depth ss" "key_sorted s_size ss"
    "dep_ok s_depth ss" "s_size ` set ss = e_size ` set ?xs"
    "\<And>s. s \<in> set ss \<Longrightarrow> s_off s = towers e_depth (filter (\<lambda>y. e_size y = s_size s) ?xs)"
    by (auto simp: sizes_ok_def)
  have node: "stack_node (block_size_srch (el_szs (live_avail block)) sz) (el_szs (live_avail block)) =
      hd_opt (above s_size sz ss)"
    using stack_node_size [OF ss(2,3)] ss(1) by simp
  show ?thesis
  proof (cases "above s_size sz ss")
    case Nil
    then have "\<forall>s\<in>set ss. s_size s < sz" by (force simp: above_def filter_empty_conv)
    then have "\<forall>k\<in>e_size ` set ?xs. k < sz" using ss(4) by (metis imageE)
    then show ?thesis using node Nil first by (simp add: alloc_choose_def)
  next
    case (Cons szp r)
    then have szp: "szp \<in> set ss" "sz \<le> s_size szp" using above_mem [OF Cons] by auto
    have least: "s_size szp \<le> s_size s" if "s \<in> set ss" "sz \<le> s_size s" for s
    proof -
      have "s \<in> set (above s_size sz ss)" using that by simp
      then have "s \<in> set (szp # r)" by (simp only: Cons)
      moreover have "key_sorted s_size (szp # r)" using ss(2) Cons key_sorted_filter by (metis above_def)
      ultimately show ?thesis by auto
    qed
    let ?f = "filter (\<lambda>y. e_size y = s_size szp) ?xs"
    have "s_size szp \<in> e_size ` set ?xs" using szp(1) ss(4) by (metis imageI)
    then have "?f \<noteq> []" by (auto simp: filter_empty_conv)
    then obtain x c where f: "?f = x # c" by (cases ?f) auto
    have "x \<in> set ?f" using f by simp
    then have x: "x \<in> set ?xs" "e_size x = s_size szp" by auto
    have low: "e_off x \<le> e_off y" if "y \<in> set ?xs" "e_size y = s_size szp" for y
    proof -
      have "key_sorted e_off (x # c)" using key_sorted_filter [OF d(3)] f by metis
      moreover have "y \<in> set ?f" using that by simp
      then have "y \<in> set (x # c)" by (simp only: f)
      ultimately show ?thesis by auto
    qed
    have "dep_ok e_depth ?f" by (rule dep_ok_mono [OF d(4)]) simp
    then have "s_off szp ! 0 = x # c"
      using towers_hd [of e_depth ?f] ss(5) [OF szp(1)] f by simp
    then have "alloc_choose block sz = Inr (Some x)"
      using node Cons first by (simp add: alloc_choose_def)
    moreover have "fits_best block sz x"
    proof -
      have "e_size x < e_size y \<or> e_size x = e_size y \<and> e_off x \<le> e_off y"
        if y: "y \<in> set ?xs" "sz \<le> e_size y" for y
      proof -
        have "e_size y \<in> s_size ` set ss" using y(1) ss(4) by (metis imageI)
        then obtain s where "s \<in> set ss" "s_size s = e_size y" by auto
        then have "s_size szp \<le> e_size y" using least y(2) by metis
        then show ?thesis using x(2) low [OF y(1)] by force
      qed
      then show ?thesis using x szp(2) first by (auto simp: fits_best_def)
    qed
    ultimately show ?thesis by blast
  qed
qed

lemma alloc_choose_ok:
  assumes "el_ok (live_avail block)" and "el_track_size (live_avail block)"
  shows "(alloc_choose block sz = Inr None \<and> (\<forall>x\<in>set (exts (live_avail block)). e_size x < sz)) \<or>
    (\<exists>x. alloc_choose block sz = Inr (Some x) \<and> fits_best block sz x)"
  using alloc_choose_first [OF assms(1)] alloc_choose_best [OF assms] by (cases "blk_allocfirst block") auto

subsection \<open>Allocation preserves the invariant and hands out free space\<close>

definition allocated :: "wt_block \<Rightarrow> int \<Rightarrow> int \<Rightarrow> wt_block \<Rightarrow> bool" where
  "allocated block sz off block' \<longleftrightarrow> block_ok block' \<and>
     byte_range off sz \<inter> (el_cover (live_alloc block) \<union> el_cover (live_discard block)) = {} \<and>
     el_cover (live_alloc block') = el_cover (live_alloc block) \<union> byte_range off sz \<and>
     live_discard block' = live_discard block"

lemma block_okD:
  assumes "block_ok block"
  shows "el_ok (live_alloc block)" "el_ok (live_avail block)" "el_ok (live_discard block)"
    "list_ok (live_alloc block)" "list_ok (live_avail block)" "list_ok (live_discard block)"
    "\<not> el_track_size (live_alloc block)" "el_track_size (live_avail block)"
  using assms by (auto simp: block_ok_def list_ok_def)

lemma alloc_append_ok:
  assumes ok: "block_ok block" and sz: "0 < sz"
  shows "if blk_size block > INT64_MAX - sz then alloc_append rnd block sz = Inl WT_ERROR
    else \<exists>block'. alloc_append rnd block sz = Inr (blk_size block, block') \<and>
      allocated block sz (blk_size block) block' \<and> live_avail block' = live_avail block \<and>
      blk_size block' = blk_size block + sz"
proof (cases "blk_size block > INT64_MAX - sz")
  case True
  then show ?thesis using ok by (simp add: alloc_append_def block_extend_def block_ok_def)
next
  case False
  let ?el = "live_alloc block" and ?off = "blk_size block"
  define block' where "block' = set_alloc (block_append rnd ?el ?off sz) (block\<lparr>blk_size := ?off + sz\<rparr>)"
  have eq: "alloc_append rnd block sz = Inr (?off, block')"
    using ok False by (simp add: alloc_append_def block_extend_def block_ok_def block'_def)
  have sub: "el_cover ?el \<union> el_cover (live_avail block) \<union> el_cover (live_discard block) \<subseteq>
      {blk_allocsize block..<?off}" using ok by (simp add: block_ok_def)
  have "ext_end x \<le> ?off" if "x \<in> set (exts ?el)" for x
  proof -
    have "e_off x < ext_end x" using ext_list_ok_pos [OF el_okD(2) [OF block_okD(1) [OF ok]] that] .
    then have "ext_end x - 1 \<in> el_cover ?el" using that by (auto simp: el_cover_def in_cover intro!: bexI [of _ x])
    then show ?thesis using sub by fastforce
  qed
  then have m: "merged ?el (block_append rnd ?el ?off sz) ?off sz"
    using block_append_merged [OF block_okD(1,7) [OF ok] sz] by blast
  then have app: "list_ok (block_append rnd ?el ?off sz)"
    "el_cover (block_append rnd ?el ?off sz) = el_cover ?el \<union> byte_range ?off sz"
    "el_track_size (block_append rnd ?el ?off sz) = el_track_size ?el"
    using block_okD(4) [OF ok] by (auto simp: merged_def list_ok_def el_cover_def el_meta_def)
  have "byte_range ?off sz \<inter> {blk_allocsize block..<?off} = {}" by auto
  then have disj: "byte_range ?off sz \<inter> el_cover ?el = {}" "byte_range ?off sz \<inter> el_cover (live_avail block) = {}"
    "byte_range ?off sz \<inter> el_cover (live_discard block) = {}"
    using sub by blast+
  have new: "live_alloc block' = block_append rnd ?el ?off sz" "live_avail block' = live_avail block"
    "live_discard block' = live_discard block" "blk_size block' = ?off + sz"
    "blk_allocsize block' = blk_allocsize block"
    by (simp_all add: block'_def)
  have "byte_range ?off sz \<subseteq> {blk_allocsize block..<?off + sz}"
    "{blk_allocsize block..<?off} \<subseteq> {blk_allocsize block..<?off + sz}"
    using ok sz by (auto simp: block_ok_def)
  then have cov: "el_cover ?el \<union> byte_range ?off sz \<union> el_cover (live_avail block) \<union> el_cover (live_discard block)
      \<subseteq> {blk_allocsize block..<?off + sz}" using sub by blast
  have "block_ok block'"
    using ok app disj cov False sz unfolding block_ok_def new by (auto simp: Int_Un_distrib2)
  then show ?thesis
    using False eq new app(2) disj by (auto simp: allocated_def)
qed

lemma alloc_take_ok:
  assumes ok: "block_ok block" and sz: "0 < sz" and x: "fits_best block sz x"
  shows "\<exists>block' avail. block_off_remove block (live_avail block) (e_off x) = Inr (x, avail) \<and>
    wt_ret (block_merge rnd block (live_alloc block) (e_off x) sz) (\<lambda>alloc.
      Inr (e_off x, set_alloc alloc (set_avail
        (if e_size x > sz
         then block_ext_insert avail (x\<lparr>e_off := e_off x + sz, e_size := e_size x - sz\<rparr>)
         else avail) block))) = Inr (e_off x, block') \<and>
    allocated block sz (e_off x) block' \<and> byte_range (e_off x) sz \<subseteq> el_cover (live_avail block) \<and>
    el_cover (live_avail block') = el_cover (live_avail block) - byte_range (e_off x) sz \<and>
    blk_size block' = blk_size block"
proof -
  let ?el = "live_avail block" and ?r = "byte_range (e_off x) sz"
  have xin: "x \<in> set (exts ?el)" "sz \<le> e_size x" using x by (auto simp: fits_best_def)
  obtain bs as where xs: "exts ?el = bs @ x # as" using xin(1) by (meson split_list)
  obtain avail where rm: "block_off_remove block ?el (e_off x) = Inr (x, avail)" "el_ok avail"
    "exts avail = bs @ as" "el_meta avail = el_meta ?el"
    using block_off_remove_ok [OF block_okD(2) [OF ok] xs] by blast
  have lok: "ext_list_ok (bs @ x # as)" using el_okD(2) [OF block_okD(2) [OF ok]] xs by simp
  have inside: "e_off x \<le> e_off x" "e_off x + sz \<le> ext_end x" using xin(2) by (simp_all add: ext_end_def)
  note cut = cut_ext_ok [OF lok inside sz, of rnd]
  let ?z = "x\<lparr>e_off := e_off x + sz, e_size := e_size x - sz\<rparr>"
  define avail' where "avail' = (if e_size x > sz then block_ext_insert avail ?z else avail)"
  have c: "cut_ext rnd x (e_off x) sz = ext_if (e_size x > sz) ?z"
    by (simp add: cut_ext_def ext_end_def)
  have av: "el_ok avail' \<and> exts avail' = bs @ cut_ext rnd x (e_off x) sz @ as \<and> el_meta avail' = el_meta ?el"
  proof (cases "e_size x > sz")
    case True
    then have "ext_list_ok (bs @ ?z # as)" using cut(1) c by simp
    then show ?thesis using block_ext_insert_ok [OF rm(2,3)] rm(4) True c by (simp add: avail'_def)
  qed (use rm c in \<open>simp add: avail'_def\<close>)
  have av_ok: "list_ok avail'" "el_cover avail' = el_cover ?el - ?r"
  proof -
    have co: "coalesced (bs @ x # as)" using block_okD(5) [OF ok] xs by (simp only: list_ok_def)
    show "list_ok avail'" by (simp only: list_ok_def av cut(3) [OF co])
    show "el_cover avail' = el_cover ?el - ?r" by (simp only: el_cover_def av cut(2) xs)
  qed
  have av_track: "el_track_size avail' = el_track_size ?el" using av by (simp add: el_meta_def)
  have sub: "?r \<subseteq> el_cover ?el"
  proof
    fix i assume "i \<in> ?r"
    then have "e_off x \<le> i \<and> i < ext_end x" using xin(2) by (simp add: ext_end_def)
    then show "i \<in> el_cover ?el" using xin(1) by (auto simp: el_cover_def in_cover)
  qed
  have inv: "el_cover (live_alloc block) \<inter> el_cover ?el = {}" "el_cover ?el \<inter> el_cover (live_discard block) = {}"
    using ok by (auto simp: block_ok_def)
  then have dis: "?r \<inter> el_cover (live_alloc block) = {}" "?r \<inter> el_cover (live_discard block) = {}"
    using sub by blast+
  obtain al where al: "block_merge rnd block (live_alloc block) (e_off x) sz = Inr al" "list_ok al"
    "el_cover al = el_cover (live_alloc block) \<union> ?r" "el_meta al = el_meta (live_alloc block)"
    using rl.add_law [OF block_okD(4) [OF ok] sz dis(1)] by blast
  define block' where "block' = set_alloc al (set_avail avail' block)"
  have new: "live_alloc block' = al" "live_avail block' = avail'" "live_discard block' = live_discard block"
    "blk_size block' = blk_size block" "blk_allocsize block' = blk_allocsize block"
    by (simp_all add: block'_def)
  have "el_track_size al = el_track_size (live_alloc block)" using al(4) by (simp add: el_meta_def)
  moreover have "el_cover (live_alloc block) \<inter> el_cover (live_discard block) = {}"
    using ok by (simp add: block_ok_def)
  moreover have "(A \<union> R) \<inter> (V - R) = {} \<and> (A \<union> R) \<inter> D = {} \<and> (V - R) \<inter> D = {} \<and>
      A \<union> R \<union> (V - R) \<union> D = A \<union> V \<union> D"
    if "A \<inter> V = {}" "A \<inter> D = {}" "V \<inter> D = {}" "R \<subseteq> V" for A V D R :: "int set"
    using that by blast
  note this [OF inv(1) _ inv(2) sub]
  ultimately have "block_ok block'"
    using ok al(2,3) av_ok av_track unfolding block_ok_def new by simp
  then have "allocated block sz (e_off x) block'"
    using dis al(3) new by (simp add: allocated_def Int_Un_distrib)
  then show ?thesis
    using rm(1) al(1) sub av_ok new by (auto simp: avail'_def block'_def)
qed

definition block_bounds :: "wt_block \<Rightarrow> int set" where
  "block_bounds block = {blk_allocsize block..<blk_size block}"

lemma alloc_bytes_short:
  assumes ok: "block_ok block" and "0 < sz" and "sz \<le> INT64_MAX"
    and "el_bytes (live_avail block) < of_int sz" and "x \<in> set (exts (live_avail block))"
  shows "e_size x < sz"
proof -
  have "cover (exts (live_avail block)) \<subseteq> {blk_allocsize block..<blk_size block}"
    using ok by (simp add: block_ok_def el_cover_def)
  then have "ext_bytes (exts (live_avail block)) < sz"
    using bytes_short [OF block_okD(2) [OF ok], of "blk_allocsize block" "blk_size block" sz] ok assms(2-4)
    by (simp add: block_ok_def)
  moreover have "e_size x \<le> ext_bytes (exts (live_avail block))"
    using ext_bytes_member [OF el_okD(2) [OF block_okD(2) [OF ok]] assms(5)] .
  ultimately show ?thesis by simp
qed

lemma wt_block_alloc_ok:
  assumes ok: "block_ok block" and sz: "0 < sz" "sz \<le> INT64_MAX" "sz mod blk_allocsize block = 0"
  shows "(\<exists>x block'. fits_best block sz x \<and> wt_block_alloc rnd block sz = Inr (e_off x, block') \<and>
      allocated block sz (e_off x) block' \<and> byte_range (e_off x) sz \<subseteq> el_cover (live_avail block) \<and>
      el_cover (live_avail block') = el_cover (live_avail block) - byte_range (e_off x) sz \<and>
      blk_size block' = blk_size block) \<or>
    (\<forall>x\<in>set (exts (live_avail block)). e_size x < sz) \<and>
      (if blk_size block > INT64_MAX - sz then wt_block_alloc rnd block sz = Inl WT_ERROR
       else \<exists>block'. wt_block_alloc rnd block sz = Inr (blk_size block, block') \<and>
         allocated block sz (blk_size block) block' \<and> live_avail block' = live_avail block \<and>
         blk_size block' = blk_size block + sz)"
proof (cases "el_bytes (live_avail block) < of_int sz")
  case True
  then have "wt_block_alloc rnd block sz = alloc_append rnd block sz"
    using sz(3) by (simp add: wt_block_alloc_def)
  then show ?thesis using alloc_append_ok [OF ok sz(1), of rnd] alloc_bytes_short [OF ok sz(1,2) True] by simp
next
  case False
  consider "alloc_choose block sz = Inr None" "\<forall>x\<in>set (exts (live_avail block)). e_size x < sz"
    | x where "alloc_choose block sz = Inr (Some x)" "fits_best block sz x"
    using alloc_choose_ok [OF block_okD(2,8) [OF ok], of sz] by blast
  then show ?thesis
  proof cases
    case 1
    then have "wt_block_alloc rnd block sz = alloc_append rnd block sz"
      using sz(3) False by (simp add: wt_block_alloc_def)
    then show ?thesis using alloc_append_ok [OF ok sz(1), of rnd] 1(2) by simp
  next
    case 2
    obtain block' avail where rm: "block_off_remove block (live_avail block) (e_off x) = Inr (x, avail)"
      and take: "wt_ret (block_merge rnd block (live_alloc block) (e_off x) sz) (\<lambda>alloc.
        Inr (e_off x, set_alloc alloc (set_avail
          (if e_size x > sz
           then block_ext_insert avail (x\<lparr>e_off := e_off x + sz, e_size := e_size x - sz\<rparr>)
           else avail) block))) = Inr (e_off x, block')"
      and post: "allocated block sz (e_off x) block'"
        "byte_range (e_off x) sz \<subseteq> el_cover (live_avail block)"
        "el_cover (live_avail block') = el_cover (live_avail block) - byte_range (e_off x) sz"
        "blk_size block' = blk_size block"
      using alloc_take_ok [OF ok sz(1) 2(2), of rnd] by blast
    have "wt_block_alloc rnd block sz = Inr (e_off x, block')"
      using take by (simp add: wt_block_alloc_def sz(3) False 2(1) rm Let_def)
    then show ?thesis using post 2(2) by blast
  qed
qed

lemma wt_block_alloc_allocated:
  assumes "block_ok block" and "0 < sz" and "sz \<le> INT64_MAX"
    and "wt_block_alloc rnd block sz = Inr (off, block')"
  shows "allocated block sz off block'" and "byte_range off sz \<inter> el_cover (live_avail block') = {}"
    and "blk_allocsize block' = blk_allocsize block" and "blk_objectid block' = blk_objectid block"
proof -
  have "sz mod blk_allocsize block = 0"
    using assms(4) by (auto simp: wt_block_alloc_def split: if_splits)
  then show a: "allocated block sz off block'"
    using wt_block_alloc_ok [OF assms(1-3), of rnd] assms(4) by (auto split: if_splits)
  then show "byte_range off sz \<inter> el_cover (live_avail block') = {}"
    by (auto simp: allocated_def block_ok_def)
  show "blk_allocsize block' = blk_allocsize block" "blk_objectid block' = blk_objectid block"
    using assms(4) by (auto simp: wt_block_alloc_def alloc_append_def block_extend_def Let_def wt_ret_Inr_iff
        split: if_splits option.splits)
qed

subsection \<open>Freeing\<close>

definition freed :: "wt_block \<Rightarrow> wt_block \<Rightarrow> bool" where
  "freed block block' \<longleftrightarrow> block_ok block' \<and> blk_size block' = blk_size block \<and>
     blk_allocsize block' = blk_allocsize block \<and> blk_objectid block' = blk_objectid block"

lemma off_free_alloced:
  assumes ok: "block_ok block" and sz: "0 < sz" and r: "byte_range off sz \<subseteq> el_cover (live_alloc block)"
  shows "\<exists>block'. wt_block_off_free rnd block (blk_objectid block) off sz = Inr block' \<and> freed block block' \<and>
    el_cover (live_alloc block') = el_cover (live_alloc block) - byte_range off sz \<and>
    el_cover (live_avail block') = el_cover (live_avail block) \<union> byte_range off sz \<and>
    live_discard block' = live_discard block"
proof -
  have inv: "el_cover (live_alloc block) \<inter> el_cover (live_avail block) = {}"
    "el_cover (live_alloc block) \<inter> el_cover (live_discard block) = {}"
    "el_cover (live_avail block) \<inter> el_cover (live_discard block) = {}"
    using ok by (auto simp: block_ok_def)
  obtain al av where mv: "wt_block_off_remove_overlap rnd block (live_alloc block) off sz = Inr al"
    "block_merge rnd block (live_avail block) off sz = Inr av" "list_ok al" "list_ok av"
    "el_cover al = el_cover (live_alloc block) - byte_range off sz"
    "el_cover av = el_cover (live_avail block) \<union> byte_range off sz"
    "el_meta al = el_meta (live_alloc block)" "el_meta av = el_meta (live_avail block)"
    using rl.move [OF block_okD(4,5) [OF ok] inv(1) sz r, of rnd block] by blast
  define block' where "block' = set_avail av (set_alloc al block)"
  have new: "live_alloc block' = al" "live_avail block' = av" "live_discard block' = live_discard block"
    "blk_size block' = blk_size block" "blk_allocsize block' = blk_allocsize block"
    "blk_objectid block' = blk_objectid block"
    by (simp_all add: block'_def)
  have sets: "(A - R) \<inter> (V \<union> R) = {} \<and> (A - R) \<inter> D = {} \<and> (V \<union> R) \<inter> D = {} \<and>
      (A - R) \<union> (V \<union> R) \<union> D = A \<union> V \<union> D"
    if "A \<inter> V = {}" "A \<inter> D = {}" "V \<inter> D = {}" "R \<subseteq> A" for A V D R :: "int set"
    using that by blast
  have "block_ok block'"
    using ok mv(3-6) el_meta_track [OF mv(7)] el_meta_track [OF mv(8)] sets [OF inv r]
    unfolding block_ok_def new by simp
  then show ?thesis
    using mv new by (auto simp: wt_block_off_free_def block'_def freed_def)
qed

lemma off_free_discard:
  assumes ok: "block_ok block" and sz: "0 < sz" and b: "byte_range off sz \<subseteq> block_bounds block"
    and r: "byte_range off sz \<inter> el_cover (live_alloc block) = {}"
      "byte_range off sz \<inter> el_cover (live_avail block) = {}" "byte_range off sz \<inter> el_cover (live_discard block) = {}"
  shows "\<exists>block'. wt_block_off_free rnd block (blk_objectid block) off sz = Inr block' \<and> freed block block' \<and>
    live_alloc block' = live_alloc block \<and> live_avail block' = live_avail block \<and>
    el_cover (live_discard block') = el_cover (live_discard block) \<union> byte_range off sz"
proof -
  have none: "wt_block_off_remove_overlap rnd block (live_alloc block) off sz = Inl WT_NOTFOUND"
    by (rule rl.rm_none [OF block_okD(4) [OF ok] sz r(1)])
  obtain di where di: "block_merge rnd block (live_discard block) off sz = Inr di" "list_ok di"
    "el_cover di = el_cover (live_discard block) \<union> byte_range off sz" "el_meta di = el_meta (live_discard block)"
    using rl.add_law [OF block_okD(6) [OF ok] sz r(3)] by blast
  define block' where "block' = set_discard di block"
  have new: "live_alloc block' = live_alloc block" "live_avail block' = live_avail block"
    "live_discard block' = di" "blk_size block' = blk_size block"
    "blk_allocsize block' = blk_allocsize block" "blk_objectid block' = blk_objectid block"
    by (simp_all add: block'_def)
  have "block_ok block'"
    using ok di(2,3) el_meta_track [OF di(4)] r b unfolding block_ok_def new block_bounds_def
    by (simp add: Int_Un_distrib Int_commute)
  then show ?thesis
    using none di(1,3) new by (auto simp: wt_block_off_free_def block'_def freed_def)
qed

lemma off_free_bad:
  assumes ok: "block_ok block" and sz: "0 < sz"
    and hit: "byte_range off sz \<inter> el_cover (live_alloc block) \<noteq> {}"
    and out: "\<not> byte_range off sz \<subseteq> el_cover (live_alloc block)"
  shows "wt_block_off_free rnd block (blk_objectid block) off sz = Inl WT_PANIC"
proof -
  have "\<not> (e_off x \<le> off \<and> off + sz \<le> ext_end x)" if "x \<in> set (exts (live_alloc block))" for x
    using out that by (fastforce simp: el_cover_def in_cover)
  then have "wt_block_off_remove_overlap rnd block (live_alloc block) off sz = Inl WT_PANIC"
    using remove_overlap_panic [OF block_okD(1) [OF ok] sz] hit by (simp add: el_cover_def)
  then show ?thesis by (simp add: wt_block_off_free_def)
qed

subsection \<open>Histories of allocations and frees\<close>

text \<open>
  A state is the block and the ranges its clients own: those they were given and have not freed.
  Every call may meet other random depths.
\<close>

inductive owner_step :: "wt_block \<times> (int \<times> int) list \<Rightarrow> wt_block \<times> (int \<times> int) list \<Rightarrow> bool" where
  alloc: "wt_block_alloc rnd block sz = Inr (off, block') \<Longrightarrow> 0 < sz \<Longrightarrow> sz \<le> INT64_MAX \<Longrightarrow>
    owner_step (block, owned) (block', (off, sz) # owned)"
| free: "wt_block_off_free rnd block (blk_objectid block) off sz = Inr block' \<Longrightarrow> (off, sz) \<in> set owned \<Longrightarrow>
    owner_step (block, owned) (block', remove1 (off, sz) owned)"

inductive owner_run :: "wt_block \<times> (int \<times> int) list \<Rightarrow> wt_block \<times> (int \<times> int) list \<Rightarrow> bool" where
  start: "owner_run s s"
| step: "owner_run s t \<Longrightarrow> owner_step t u \<Longrightarrow> owner_run s u"

inductive_cases owner_stepE: "owner_step s t"

definition owned_bytes :: "(int \<times> int) list \<Rightarrow> int set" where
  "owned_bytes rs = (\<Union>r\<in>set rs. byte_range (fst r) (snd r))"

lemma owned_bytes_simps [simp]:
  "owned_bytes [] = {}" "owned_bytes (r # rs) = byte_range (fst r) (snd r) \<union> owned_bytes rs"
  by (simp_all add: owned_bytes_def)

lemma owned_bytes_member: "r \<in> set rs \<Longrightarrow> byte_range (fst r) (snd r) \<subseteq> owned_bytes rs"
  by (auto simp: owned_bytes_def)

fun disjoint_ranges :: "(int \<times> int) list \<Rightarrow> bool" where
  "disjoint_ranges [] = True"
| "disjoint_ranges (r # rs) \<longleftrightarrow> 0 < snd r \<and> byte_range (fst r) (snd r) \<inter> owned_bytes rs = {} \<and>
     disjoint_ranges rs"

definition owner_inv :: "wt_block \<times> (int \<times> int) list \<Rightarrow> bool" where
  "owner_inv s \<longleftrightarrow> block_ok (fst s) \<and> disjoint_ranges (snd s) \<and>
     el_cover (live_alloc (fst s)) = owned_bytes (snd s)"

lemma disjoint_ranges_remove1:
  "disjoint_ranges rs \<Longrightarrow> r \<in> set rs \<Longrightarrow> disjoint_ranges (remove1 r rs) \<and>
    owned_bytes (remove1 r rs) = owned_bytes rs - byte_range (fst r) (snd r)"
proof (induction rs)
  case (Cons q rs)
  show ?case
  proof (cases "q = r")
    case True
    then show ?thesis using Cons.prems by auto
  next
    case False
    then have r: "r \<in> set rs" using Cons.prems(2) by simp
    then show ?thesis
      using False Cons.IH Cons.prems(1) owned_bytes_member [OF r] by auto
  qed
qed simp

lemma disjoint_ranges_pos: "disjoint_ranges rs \<Longrightarrow> r \<in> set rs \<Longrightarrow> 0 < snd r"
  by (induction rs) auto

lemma disjoint_ranges_nth:
  "disjoint_ranges rs \<Longrightarrow> i < j \<Longrightarrow> j < length rs \<Longrightarrow>
    byte_range (fst (rs ! i)) (snd (rs ! i)) \<inter> byte_range (fst (rs ! j)) (snd (rs ! j)) = {}"
proof (induction rs arbitrary: i j)
  case (Cons q rs)
  then obtain j' where j: "j = Suc j'" by (cases j) auto
  show ?case
  proof (cases i)
    case 0
    have "rs ! j' \<in> set rs" using Cons.prems(3) j by simp
    from owned_bytes_member [OF this] show ?thesis using Cons.prems(1) 0 j by auto
  next
    case (Suc i')
    then show ?thesis using Cons j by simp
  qed
qed simp

lemma owner_step_inv [wt_inv]:
  assumes "owner_step s t" and "owner_inv s"
  shows "owner_inv t"
  using assms
proof (cases rule: owner_step.cases)
  case (alloc rnd block sz off block' owned)
  then have ok: "block_ok block" "disjoint_ranges owned" "el_cover (live_alloc block) = owned_bytes owned"
    using assms(2) by (simp_all add: owner_inv_def)
  have "allocated block sz off block'" using wt_block_alloc_allocated(1) [OF ok(1) alloc(4,5,3)] .
  then show ?thesis
    using alloc ok by (auto simp: owner_inv_def allocated_def)
next
  case (free rnd block off sz block' owned)
  then have ok: "block_ok block" "disjoint_ranges owned" "el_cover (live_alloc block) = owned_bytes owned"
    using assms(2) by (simp_all add: owner_inv_def)
  have "0 < sz" using disjoint_ranges_pos [OF ok(2) free(4)] by simp
  moreover have "byte_range off sz \<subseteq> el_cover (live_alloc block)"
    using owned_bytes_member [OF free(4)] ok(3) by simp
  ultimately have "freed block block'" "el_cover (live_alloc block') = el_cover (live_alloc block) - byte_range off sz"
    using off_free_alloced [OF ok(1), of sz off rnd] free(3) by auto
  then show ?thesis
    using free disjoint_ranges_remove1 [OF ok(2) free(4)] ok by (simp add: owner_inv_def freed_def)
qed

lemma owner_run_inv: "owner_run s t \<Longrightarrow> owner_inv s \<Longrightarrow> owner_inv t"
  by (induction rule: owner_run.induct) (auto intro: owner_step_inv)

subsection \<open>Properties\<close>

lemma new_block_ok [simp]: "block_ok new_block"
  by (simp add: block_ok_def new_block_def wt_block_ckpt_init_def INT64_MAX_def)

lemma new_block_live [simp]:
  "live_alloc new_block = wt_block_extlist_init False" "live_avail new_block = wt_block_extlist_init True"
  "live_discard new_block = wt_block_extlist_init False" "live_ckpt_avail new_block = wt_block_extlist_init True"
  "blk_size new_block = 4096" "blk_allocsize new_block = 4096"
  by (simp_all add: new_block_def wt_block_ckpt_init_def)

text \<open>
  C21: allocation. A request that is a multiple of the allocation unit is met from the available list
  when some extent is large enough: from the extent that starts first in first-fit mode, and otherwise
  from the first of the smallest that fits; exactly the requested bytes move from the available to the
  allocated list. When no extent is large enough the file is extended, or the request fails if the
  size would overflow. The invariant of the live lists is kept in every case.
\<close>

theorem block_alloc_best_fit:
  assumes "block_ok block" and "0 < sz" and "sz \<le> INT64_MAX" and "sz mod blk_allocsize block = 0"
  shows "(\<exists>x block'. fits_best block sz x \<and> wt_block_alloc rnd block sz = Inr (e_off x, block') \<and>
      allocated block sz (e_off x) block' \<and> byte_range (e_off x) sz \<subseteq> el_cover (live_avail block) \<and>
      el_cover (live_avail block') = el_cover (live_avail block) - byte_range (e_off x) sz \<and>
      blk_size block' = blk_size block) \<or>
    (\<forall>x\<in>set (exts (live_avail block)). e_size x < sz) \<and>
      (if blk_size block > INT64_MAX - sz then wt_block_alloc rnd block sz = Inl WT_ERROR
       else \<exists>block'. wt_block_alloc rnd block sz = Inr (blk_size block, block') \<and>
         allocated block sz (blk_size block) block' \<and> live_avail block' = live_avail block \<and>
         blk_size block' = blk_size block + sz)"
  by (rule wt_block_alloc_ok [OF assms])

theorem block_alloc_best_fit_witness:
  "\<exists>block'. wt_block_alloc (\<lambda>_ _. 0) new_block 8192 = Inr (4096, block') \<and> blk_size block' = 12288"
proof -
  have "set (exts (live_avail new_block)) = {}" by (simp add: wt_block_extlist_init_ok)
  then show ?thesis
    using block_alloc_best_fit [of new_block 8192 "\<lambda>_ _. 0"] by (auto simp: INT64_MAX_def fits_best_def)
qed

text \<open>
  C25: freeing a range of this file. An allocated range becomes available; a range the live system
  does not own goes to the discard list; a range that is partly allocated is a panic; and an address
  of another file changes nothing. The invariant is kept.
\<close>

theorem off_free_outcomes:
  assumes "block_ok block" and "0 < sz" and "byte_range off sz \<subseteq> block_bounds block"
    and "byte_range off sz \<inter> (el_cover (live_avail block) \<union> el_cover (live_discard block)) = {}"
  shows "if objectid \<noteq> blk_objectid block then wt_block_off_free rnd block objectid off sz = Inr block
    else if byte_range off sz \<subseteq> el_cover (live_alloc block) then
      \<exists>block'. wt_block_off_free rnd block objectid off sz = Inr block' \<and> freed block block' \<and>
        el_cover (live_alloc block') = el_cover (live_alloc block) - byte_range off sz \<and>
        el_cover (live_avail block') = el_cover (live_avail block) \<union> byte_range off sz \<and>
        live_discard block' = live_discard block
    else if byte_range off sz \<inter> el_cover (live_alloc block) = {} then
      \<exists>block'. wt_block_off_free rnd block objectid off sz = Inr block' \<and> freed block block' \<and>
        live_alloc block' = live_alloc block \<and> live_avail block' = live_avail block \<and>
        el_cover (live_discard block') = el_cover (live_discard block) \<union> byte_range off sz
    else wt_block_off_free rnd block objectid off sz = Inl WT_PANIC"
proof -
  have d: "byte_range off sz \<inter> el_cover (live_avail block) = {}" "byte_range off sz \<inter> el_cover (live_discard block) = {}"
    using assms(4) by blast+
  show ?thesis
    using off_free_alloced [OF assms(1,2), of off rnd] off_free_discard [OF assms(1-3) _ d, of rnd]
      off_free_bad [OF assms(1,2), of off rnd]
    by (simp add: wt_block_off_free_def [of rnd block objectid])
qed

theorem off_free_outcomes_witness:
  "wt_block_off_free (\<lambda>_ _. 0) (new_block\<lparr>blk_size := 8192\<rparr>) 1 4096 4096 = Inr (new_block\<lparr>blk_size := 8192\<rparr>)"
proof -
  have "block_ok (new_block\<lparr>blk_size := 8192\<rparr>)"
    by (simp add: block_ok_def new_block_def wt_block_ckpt_init_def INT64_MAX_def)
  moreover have "blk_objectid (new_block\<lparr>blk_size := 8192\<rparr>) = 0" by (simp add: new_block_def)
  ultimately show ?thesis
    using off_free_outcomes [of "new_block\<lparr>blk_size := 8192\<rparr>" 4096 4096 1 "\<lambda>_ _. 0"]
    by (simp add: block_bounds_def byte_range_def)
qed

text \<open>
  C20: no byte of the file is handed out twice. In every state reached from a file with no live
  allocations by allocating blocks and freeing blocks that are owned, with any sizes, order and random
  skip list depths, the owned blocks are disjoint, lie inside the file after its first allocation unit,
  and are exactly what the allocated list records; the invariant holds; and freeing an owned block
  cannot fail.
\<close>

theorem alloc_free_safe:
  assumes "owner_run (block, []) (block', owned)" and "block_ok block" and "el_cover (live_alloc block) = {}"
  shows "block_ok block' \<and> owned_bytes owned = el_cover (live_alloc block') \<and>
    owned_bytes owned \<subseteq> block_bounds block' \<and>
    (\<forall>i j. i < j \<and> j < length owned \<longrightarrow>
      byte_range (fst (owned ! i)) (snd (owned ! i)) \<inter> byte_range (fst (owned ! j)) (snd (owned ! j)) = {}) \<and>
    (\<forall>(off, sz)\<in>set owned. \<exists>block''. wt_block_off_free rnd block' (blk_objectid block') off sz = Inr block'' \<and>
      owner_step (block', owned) (block'', remove1 (off, sz) owned))"
proof -
  have inv: "owner_inv (block', owned)"
    using owner_run_inv [OF assms(1)] assms(2,3) by (simp add: owner_inv_def)
  then have ok: "block_ok block'" and own: "el_cover (live_alloc block') = owned_bytes owned"
    and dis: "disjoint_ranges owned" by (simp_all add: owner_inv_def)
  have "\<exists>block''. wt_block_off_free rnd block' (blk_objectid block') off sz = Inr block'' \<and>
      owner_step (block', owned) (block'', remove1 (off, sz) owned)" if m: "(off, sz) \<in> set owned" for off sz
    using off_free_alloced [OF ok, of sz off rnd] disjoint_ranges_pos [OF dis m] owned_bytes_member [OF m] own m
    by (auto intro: owner_step.free)
  then show ?thesis
    using ok own disjoint_ranges_nth [OF dis] by (auto simp: block_ok_def block_bounds_def)
qed

theorem alloc_free_safe_witness:
  "\<exists>block'. owner_run (new_block, []) (block', [(4096, 8192)]) \<and> el_cover (live_alloc block') = {4096..<12288} \<and>
    (\<exists>block''. wt_block_off_free (\<lambda>_ _. 0) block' (blk_objectid block') 4096 8192 = Inr block'')"
proof -
  have "set (exts (live_avail new_block)) = {}" by (simp add: wt_block_extlist_init_ok)
  then obtain block' where b: "wt_block_alloc (\<lambda>_ _. 0) new_block 8192 = Inr (4096, block')"
    using wt_block_alloc_ok [of new_block 8192 "\<lambda>_ _. 0"] by (auto simp: INT64_MAX_def fits_best_def)
  have run: "owner_run (new_block, []) (block', [(4096, 8192)])"
    by (rule owner_run.step [OF owner_run.start]) (rule owner_step.alloc [OF b]; simp add: INT64_MAX_def)
  from alloc_free_safe [OF run, of "\<lambda>_ _. 0"] show ?thesis
    using run by (auto simp: byte_range_def)
qed

end
