(* ===== verification/BlockCkpt.thy ===== *)
theory BlockCkpt
  imports BlockAlloc
begin

text \<open>
  The checkpoint's work on extent lists: merging two lists, reconciling the overlaps of a
  checkpoint's allocation and discard lists, writing a list to the file and reading it back,
  truncating the file; \<open>src/block/block_ext.c\<close>, with the pair encoding of \<open>src/include/block_inline.h\<close> and
  the file size change of \<open>src/block/block_write.c\<close>.
\<close>

subsection \<open>Merging lists and reconciling overlaps\<close>

definition wt_block_extlist_merge ::
    "draws \<Rightarrow> wt_block \<Rightarrow> extlist \<Rightarrow> extlist \<Rightarrow> (extlist \<times> extlist) result" where
  "wt_block_extlist_merge rnd block a b =
     (let (a, b) =
        (if el_track_size a = el_track_size b \<and> el_entries a > el_entries b then
           (a\<lparr>el_bytes := el_bytes b, el_entries := el_entries b, el_offs := el_offs b, el_szs := el_szs b\<rparr>,
            b\<lparr>el_bytes := el_bytes a, el_entries := el_entries a, el_offs := el_offs a, el_szs := el_szs a\<rparr>)
         else (a, b))
      in wt_ret (fold_result (\<lambda>b x. block_merge rnd block b (e_off x) (e_size x)) (el_offs a ! 0) b)
           (\<lambda>b. Inr (a, b)))"

text \<open>\<open>next[0]\<close> of an extent of a list.\<close>

definition next_ext :: "extlist \<Rightarrow> ext \<Rightarrow> ext option" where
  "next_ext el x = hd_opt (from_slot (Some x) (el_offs el ! 0))"

definition reinsert :: "wt_block \<Rightarrow> extlist \<Rightarrow> ext \<Rightarrow> (ext \<Rightarrow> ext) \<Rightarrow> (ext \<times> extlist) result" where
  "reinsert block el x f =
     wt_ret (block_off_remove block el (e_off x)) (\<lambda>(x, el). Inr (f x, block_ext_insert el (f x)))"

definition discard_ext :: "wt_block \<Rightarrow> extlist \<Rightarrow> ext \<Rightarrow> extlist result" where
  "discard_ext block el x = wt_ret (block_off_remove block el (e_off x)) (\<lambda>(_, el). Inr el)"

text \<open>
  The cases with \<open>a\<close> the lower range. The result is the available list and, for each of the two
  lists, the list and the caller's pointer into it. A pointer is the extent it points to.
\<close>

definition ext_overlap_lower ::
    "draws \<Rightarrow> wt_block \<Rightarrow> extlist \<Rightarrow> extlist \<Rightarrow> ext \<Rightarrow> extlist \<Rightarrow> ext \<Rightarrow>
      (extlist \<times> extlist \<times> ext option \<times> extlist \<times> ext option) result" where
  "ext_overlap_lower rnd block avail ael a bel b =
     (if e_off a = e_off b then
        if e_size a = e_size b then
          (let ap = next_ext ael a; bp = next_ext bel b in
           wt_ret (block_merge rnd block avail (e_off b) (e_size b)) (\<lambda>avail.
           wt_ret (discard_ext block ael a) (\<lambda>ael.
           wt_ret (discard_ext block bel b) (\<lambda>bel. Inr (avail, ael, ap, bel, bp)))))
        else if e_size a > e_size b then
          wt_ret (reinsert block ael a (\<lambda>a. a\<lparr>e_off := e_off a + e_size b, e_size := e_size a - e_size b\<rparr>))
            (\<lambda>(a, ael).
           let bp = next_ext bel b in
           wt_ret (block_merge rnd block avail (e_off b) (e_size b)) (\<lambda>avail.
           wt_ret (discard_ext block bel b) (\<lambda>bel. Inr (avail, ael, Some a, bel, bp))))
        else
          wt_ret (reinsert block bel b (\<lambda>b. b\<lparr>e_off := e_off b + e_size a, e_size := e_size b - e_size a\<rparr>))
            (\<lambda>(b, bel).
           let ap = next_ext ael a in
           wt_ret (block_merge rnd block avail (e_off a) (e_size a)) (\<lambda>avail.
           wt_ret (discard_ext block ael a) (\<lambda>ael. Inr (avail, ael, ap, bel, Some b))))
      else if ext_end a = ext_end b then
        wt_ret (reinsert block ael a (\<lambda>a. a\<lparr>e_size := e_size a - e_size b\<rparr>)) (\<lambda>(a, ael).
          let bp = next_ext bel b in
          wt_ret (block_merge rnd block avail (e_off b) (e_size b)) (\<lambda>avail.
          wt_ret (discard_ext block bel b) (\<lambda>bel. Inr (avail, ael, Some a, bel, bp))))
      else if ext_end a < ext_end b then
        (let off = e_off b; sz = ext_end a - e_off b in
         wt_ret (block_merge rnd block avail off sz) (\<lambda>avail.
         wt_ret (reinsert block ael a (\<lambda>a. a\<lparr>e_size := e_size a - sz\<rparr>)) (\<lambda>(a, ael).
         wt_ret (reinsert block bel b (\<lambda>b. b\<lparr>e_off := e_off b + sz, e_size := e_size b - sz\<rparr>)) (\<lambda>(b, bel).
           Inr (avail, ael, Some a, bel, Some b)))))
      else
        (let off = ext_end b; sz = ext_end a - off in
         wt_ret (reinsert block ael a (\<lambda>a. a\<lparr>e_size := e_off b - e_off a\<rparr>)) (\<lambda>(a, ael).
         wt_ret (block_merge rnd block ael off sz) (\<lambda>ael.
         let bp = next_ext bel b in
         wt_ret (block_merge rnd block avail (e_off b) (e_size b)) (\<lambda>avail.
         wt_ret (discard_ext block bel b) (\<lambda>bel. Inr (avail, ael, Some a, bel, bp)))))))"

definition block_ext_overlap ::
    "draws \<Rightarrow> wt_block \<Rightarrow> extlist \<Rightarrow> extlist \<Rightarrow> ext \<Rightarrow> extlist \<Rightarrow> ext \<Rightarrow>
      (extlist \<times> extlist \<times> ext option \<times> extlist \<times> ext option) result" where
  "block_ext_overlap rnd block avail ael a bel b =
     (if e_off a > e_off b then
        wt_ret (ext_overlap_lower rnd block avail bel b ael a)
          (\<lambda>(avail, bel, bp, ael, ap). Inr (avail, ael, ap, bel, bp))
      else ext_overlap_lower rnd block avail ael a bel b)"

partial_function (option) extlist_overlap_loop ::
    "draws \<Rightarrow> wt_block \<Rightarrow> extlist \<Rightarrow> extlist \<Rightarrow> ext option \<Rightarrow> extlist \<Rightarrow> ext option \<Rightarrow>
      (extlist \<times> extlist \<times> extlist) result option" where
  "extlist_overlap_loop rnd block avail ael ap bel bp =
     (case ap of None \<Rightarrow> Some (Inr (avail, ael, bel))
      | Some a \<Rightarrow>
        (case bp of None \<Rightarrow> Some (Inr (avail, ael, bel))
         | Some b \<Rightarrow>
           if ext_end a \<le> e_off b then extlist_overlap_loop rnd block avail ael (next_ext ael a) bel bp
           else if ext_end b \<le> e_off a then extlist_overlap_loop rnd block avail ael ap bel (next_ext bel b)
           else (case block_ext_overlap rnd block avail ael a bel b of
               Inl e \<Rightarrow> Some (Inl e)
             | Inr r \<Rightarrow> (case r of (avail, ael, ap, bel, bp) \<Rightarrow>
                 extlist_overlap_loop rnd block avail ael ap bel bp))))"

text \<open>The checkpoint \<open>ci\<close> is not the live one; the block changes in its \<open>ckpt_avail\<close> list only.\<close>

definition wt_block_extlist_overlap ::
    "draws \<Rightarrow> wt_block \<Rightarrow> ckpt_lists \<Rightarrow> (wt_block \<times> ckpt_lists) result option" where
  "wt_block_extlist_overlap rnd block ci =
     map_option (map_sum id (\<lambda>(avail, alloc, discard).
         (set_ckpt_avail avail block, ci\<lparr>alloc_list := alloc, discard_list := discard\<rparr>)))
       (extlist_overlap_loop rnd block (live_ckpt_avail block)
          (alloc_list ci) (hd_opt (el_offs (alloc_list ci) ! 0))
          (discard_list ci) (hd_opt (el_offs (discard_list ci) ! 0)))"

subsection \<open>Writing and reading a list\<close>

definition WT_BLOCK_EXTLIST_MAGIC :: int where "WT_BLOCK_EXTLIST_MAGIC = 71002"
definition WT_BLOCK_EXTLIST_VERSION_CKPT :: int where "WT_BLOCK_EXTLIST_VERSION_CKPT = 1"

definition wt_extlist_write_pair :: "int \<Rightarrow> int \<Rightarrow> u8 list result" where
  "wt_extlist_write_pair off sz =
     wt_ret (wt_vpack_uint 0 (of_int off)) (\<lambda>bo. wt_ret (wt_vpack_uint 0 (of_int sz)) (\<lambda>bs. Inr (bo @ bs)))"

definition wt_extlist_read_pair :: "u8 list \<Rightarrow> ((int \<times> int) \<times> u8 list) result" where
  "wt_extlist_read_pair p =
     wt_ret (wt_vunpack_uint 0 p) (\<lambda>(v, p). wt_ret (wt_vunpack_uint 0 p) (\<lambda>(w, p).
       Inr ((sint v, sint w), p)))"

fun write_exts :: "ext list \<Rightarrow> u8 list result" where
  "write_exts [] = Inr []"
| "write_exts (x # xs) =
     wt_ret (wt_extlist_write_pair (e_off x) (e_size x)) (\<lambda>bs.
       wt_ret (write_exts xs) (\<lambda>r. Inr (bs @ r)))"

text \<open>The data of the block \<open>__wt_block_extlist_write\<close> writes, after the page and block headers.\<close>

definition extlist_image :: "wt_block \<Rightarrow> extlist \<Rightarrow> extlist option \<Rightarrow> u8 list result" where
  "extlist_image block el additional =
     wt_ret (wt_extlist_write_pair WT_BLOCK_EXTLIST_MAGIC 0) (\<lambda>magic.
     wt_ret (write_exts (el_offs el ! 0)) (\<lambda>body.
     wt_ret (case additional of None \<Rightarrow> Inr [] | Some al \<Rightarrow> write_exts (el_offs al ! 0)) (\<lambda>more.
     wt_ret (wt_extlist_write_pair (sint WT_BLOCK_INVALID_OFFSET)
               (if blk_final_ckpt block then WT_BLOCK_EXTLIST_VERSION_CKPT else 0)) (\<lambda>stop.
       Inr (magic @ body @ more @ stop)))))"

text \<open>
  \<open>write_off\<close> stands for \<open>__wt_block_write_off\<close>, which allocates space for the block on the live
  system and returns its address. The result is the block and the address stored in the list; the
  list itself may be one of the block's live lists, so it is not returned.
\<close>

definition wt_block_extlist_write ::
    "draws \<Rightarrow> (wt_block \<Rightarrow> u8 list \<Rightarrow> (wt_block \<times> u32 \<times> int \<times> int \<times> u32) result) \<Rightarrow>
      wt_block \<Rightarrow> extlist \<Rightarrow> extlist option \<Rightarrow> (wt_block \<times> u32 \<times> int \<times> int \<times> u32) result" where
  "wt_block_extlist_write rnd write_off block el additional =
     (let entries = el_entries el + (case additional of None \<Rightarrow> 0 | Some al \<Rightarrow> el_entries al) in
      if entries = 0 \<and> \<not> blk_final_ckpt block
      then Inr (block, el_objectid el, sint WT_BLOCK_INVALID_OFFSET, 0, 0)
      else wt_ret (extlist_image block el additional) (\<lambda>data.
        wt_ret (write_off block data) (\<lambda>(block, objectid, off, sz, checksum).
        wt_ret (wt_block_off_remove_overlap rnd block (live_alloc block) off sz) (\<lambda>alloc.
          Inr (set_alloc alloc block, objectid, off, sz, checksum)))))"

text \<open>The read loop; \<open>p\<close> is the rest of the block.\<close>

function extlist_read_loop :: "draws \<Rightarrow> wt_block \<Rightarrow> int \<Rightarrow> extlist \<Rightarrow> u8 list \<Rightarrow> extlist result" where
  "extlist_read_loop rnd block ckpt_size el p =
     wt_ret (wt_extlist_read_pair p) (\<lambda>(pair, p).
       let (off, sz) = pair in
       if off = sint WT_BLOCK_INVALID_OFFSET then Inr el
       else if off < blk_allocsize block \<or> off mod blk_allocsize block \<noteq> 0 \<or>
               sz mod blk_allocsize block \<noteq> 0 \<or> off + sz > ckpt_size
       then WT_BLOCK_RET block WT_ERROR
       else wt_ret (if \<not> el_track_size el then Inr (block_append rnd el off sz)
                    else block_merge rnd block el off sz)
              (\<lambda>el. extlist_read_loop rnd block ckpt_size el p))"
  by pat_completeness auto
termination
  by (relation "measure (\<lambda>(_, _, _, _, p). length p)")
    (auto simp: wt_extlist_read_pair_def wt_ret_Inr_iff dest!: wt_vunpack_uint_shorter)

text \<open>\<open>read_off\<close> stands for \<open>__wt_block_read_off\<close>: the data of the block at an address.\<close>

definition wt_block_extlist_read ::
    "draws \<Rightarrow> (u32 \<Rightarrow> int \<Rightarrow> int \<Rightarrow> u32 \<Rightarrow> u8 list result) \<Rightarrow> wt_block \<Rightarrow> extlist \<Rightarrow> int \<Rightarrow> extlist result" where
  "wt_block_extlist_read rnd read_off block el ckpt_size =
     (if el_offset el = sint WT_BLOCK_INVALID_OFFSET then Inr el
      else wt_ret (read_off (el_objectid el) (el_offset el) (el_size el) (el_checksum el)) (\<lambda>p.
        wt_ret (wt_extlist_read_pair p) (\<lambda>(pair, p).
          if fst pair \<noteq> WT_BLOCK_EXTLIST_MAGIC then WT_BLOCK_RET block WT_ERROR
          else extlist_read_loop rnd block ckpt_size el p)))"

definition wt_block_extlist_read_avail ::
    "draws \<Rightarrow> (u32 \<Rightarrow> int \<Rightarrow> int \<Rightarrow> u32 \<Rightarrow> u8 list result) \<Rightarrow> wt_block \<Rightarrow> extlist \<Rightarrow> int \<Rightarrow> extlist result" where
  "wt_block_extlist_read_avail rnd read_off block el ckpt_size =
     (if el_offset el = sint WT_BLOCK_INVALID_OFFSET then Inr el
      else wt_ret (wt_block_extlist_read rnd read_off block el ckpt_size) (\<lambda>el.
        case wt_block_off_remove_overlap rnd block el (el_offset el) (el_size el) of
          Inl e \<Rightarrow> if e = WT_NOTFOUND then Inr el else Inl e
        | Inr el \<Rightarrow> Inr el))"

text \<open>
  Truncating the file: the size kept in memory changes whatever the file system answers;
  \<open>ftruncate\<close> is its answer when the system call is made (no backup is running).
\<close>

definition wt_block_truncate :: "unit result \<Rightarrow> bool \<Rightarrow> wt_block \<Rightarrow> int \<Rightarrow> wt_block result" where
  "wt_block_truncate ftruncate hot_backup block len =
     (let block = block\<lparr>blk_size := len\<rparr>;
          ret = (if hot_backup then Inr () else ftruncate)
      in case ret of Inr _ \<Rightarrow> Inr block | Inl e \<Rightarrow> if e = EBUSY \<or> e = ENOTSUP then Inr block else Inl e)"

text \<open>The list is one of the block's own; it is returned beside the block.\<close>

definition wt_block_extlist_truncate ::
    "unit result \<Rightarrow> bool \<Rightarrow> wt_block \<Rightarrow> extlist \<Rightarrow> (wt_block \<times> extlist) result" where
  "wt_block_extlist_truncate ftruncate hot_backup block el =
     (case snd (block_off_srch_last el False) of None \<Rightarrow> Inr (block, el)
      | Some ext \<Rightarrow>
        if ext_end ext < blk_size block then Inr (block, el)
        else wt_ret (block_off_remove block el (e_off ext)) (\<lambda>(_, el).
          wt_ret (wt_block_truncate ftruncate hot_backup block (e_off ext)) (\<lambda>block.
            Inr (block, el))))"

subsection \<open>Reconciling two lists\<close>

lemma list_okD: "list_ok el \<Longrightarrow> el_ok el" "list_ok el \<Longrightarrow> coalesced (exts el)" "list_ok el \<Longrightarrow> ext_list_ok (exts el)"
  by (auto simp: list_ok_def el_okD)

lemma next_ext_ok:
  assumes "el_ok el" and "exts el = bs @ x # as"
  shows "next_ext el x = hd_opt as"
proof -
  have "x \<notin> set bs" using key_sorted_distinct [OF el_okD(3) [OF assms(1)]] assms(2) by simp
  then show ?thesis using assms(2) by (simp add: next_ext_def exts_def from_slot_split)
qed

text \<open>An extent cut down in place.\<close>

definition trims :: "ext \<Rightarrow> ext \<Rightarrow> bool" where
  "trims x' x \<longleftrightarrow> e_off x \<le> e_off x' \<and> ext_end x' \<le> ext_end x \<and> 0 < e_size x' \<and> e_depth x' = e_depth x"

lemma trims_ok:
  assumes "trims x' x"
  shows "ext_list_ok (bs @ x # as) \<Longrightarrow> ext_list_ok (bs @ x' # as)"
    and "coalesced (bs @ x # as) \<Longrightarrow> coalesced (bs @ x' # as)"
  using assms by (auto simp: trims_def intro: order_trans less_le_trans le_less_trans)

lemma reinsert_ok:
  assumes ok: "list_ok el" and xs: "exts el = bs @ x # as" and f: "trims (f x) x"
  shows "\<exists>el'. reinsert block el x f = Inr (f x, el') \<and> list_ok el' \<and> exts el' = bs @ [f x] @ as \<and>
    el_meta el' = el_meta el"
proof -
  obtain el1 where rm: "block_off_remove block el (e_off x) = Inr (x, el1)" "el_ok el1" "exts el1 = bs @ as"
    "el_meta el1 = el_meta el"
    using block_off_remove_ok [OF list_okD(1) [OF ok] xs] by blast
  have "ext_list_ok (bs @ f x # as)" using trims_ok(1) [OF f list_okD(3) [OF ok, unfolded xs]] .
  note ins = block_ext_insert_ok [OF rm(2,3) this]
  have "coalesced (bs @ f x # as)" using trims_ok(2) [OF f list_okD(2) [OF ok, unfolded xs]] .
  then have "list_ok (block_ext_insert el1 (f x))" using ins by (simp only: list_ok_def)
  then show ?thesis using rm(1,4) ins(2,3) by (simp add: reinsert_def)
qed

lemma discard_ext_ok:
  assumes ok: "list_ok el" and xs: "exts el = bs @ x # as"
  shows "\<exists>el'. discard_ext block el x = Inr el' \<and> list_ok el' \<and> exts el' = bs @ [] @ as \<and> el_meta el' = el_meta el"
proof -
  obtain el1 where rm: "block_off_remove block el (e_off x) = Inr (x, el1)" "el_ok el1" "exts el1 = bs @ as"
    "el_meta el1 = el_meta el"
    using block_off_remove_ok [OF list_okD(1) [OF ok] xs] by blast
  have "coalesced (bs @ as)" using list_okD(2) [OF ok] xs by simp
  then show ?thesis using rm by (auto simp: discard_ext_def list_ok_def)
qed

text \<open>The bytes two extents share, and extents that share none.\<close>

definition shared :: "ext \<Rightarrow> ext \<Rightarrow> int set" where
  "shared a b = cover [a] \<inter> cover [b]"

definition apart :: "ext option \<Rightarrow> ext option \<Rightarrow> bool" where
  "apart p q \<longleftrightarrow> (\<forall>a b. p = Some a \<longrightarrow> q = Some b \<longrightarrow> ext_end a \<le> e_off b \<or> ext_end b \<le> e_off a)"

text \<open>
  What one reconciliation leaves: the pieces \<open>A\<close> and \<open>B\<close> of the two extents, in their places, and
  pointers to what now stands there. Either an extent is gone, or the two pointers are apart.
\<close>

definition reconciled ::
    "extlist \<Rightarrow> extlist \<Rightarrow> ext \<Rightarrow> extlist \<Rightarrow> ext \<Rightarrow> ext list \<Rightarrow> ext list \<Rightarrow> ext list \<Rightarrow> ext list \<Rightarrow>
      (extlist \<times> extlist \<times> ext option \<times> extlist \<times> ext option) result \<Rightarrow> bool" where
  "reconciled avail ael a bel b pa sa pb sb r \<longleftrightarrow>
     (\<exists>av ael' ap bel' bp A B. r = Inr (av, ael', ap, bel', bp) \<and>
       list_ok av \<and> el_cover av = el_cover avail \<union> shared a b \<and> el_meta av = el_meta avail \<and>
       list_ok ael' \<and> exts ael' = pa @ A @ sa \<and> ap = hd_opt (A @ sa) \<and>
       cover A = cover [a] - shared a b \<and> el_meta ael' = el_meta ael \<and>
       list_ok bel' \<and> exts bel' = pb @ B @ sb \<and> bp = hd_opt (B @ sb) \<and>
       cover B = cover [b] - shared a b \<and> el_meta bel' = el_meta bel \<and>
       (length A + length B \<le> 1 \<or> length A + length B = 2 \<and> apart ap bp))"

lemma reconciledI:
  assumes "list_ok av" and "el_cover av = el_cover avail \<union> shared a b" and "el_meta av = el_meta avail"
    and "list_ok ael'" and "exts ael' = pa @ A @ sa" and "el_meta ael' = el_meta ael"
    and "list_ok bel'" and "exts bel' = pb @ B @ sb" and "el_meta bel' = el_meta bel"
    and "cover A = cover [a] - shared a b" and "cover B = cover [b] - shared a b"
    and "length A + length B \<le> 1 \<or> length A + length B = 2 \<and> apart (hd_opt (A @ sa)) (hd_opt (B @ sb))"
    and "ap = hd_opt (A @ sa)" and "bp = hd_opt (B @ sb)"
  shows "reconciled avail ael a bel b pa sa pb sb (Inr (av, ael', ap, bel', bp))"
  using assms unfolding reconciled_def by blast

lemma shared_range:
  assumes "e_off a \<le> e_off b" and "e_off b < ext_end a" and "0 < e_size b"
  shows "shared a b = byte_range (e_off b) (min (ext_end a) (ext_end b) - e_off b)"
  using assms by (auto simp: shared_def ext_end_def)

lemma cover_one: "cover [x] = {e_off x..<ext_end x}"
  by (auto simp: ext_end_def)

lemma ext_overlap_lower_ok:
  assumes av: "list_ok avail" and a: "list_ok ael" "exts ael = pa @ a # sa"
    and b: "list_ok bel" "exts bel = pb @ b # sb"
    and low: "e_off a \<le> e_off b" and ov: "e_off b < ext_end a"
    and free: "shared a b \<inter> el_cover avail = {}"
  shows "reconciled avail ael a bel b pa sa pb sb (ext_overlap_lower rnd block avail ael a bel b)"
proof -
  have pos: "0 < e_size a" "0 < e_size b" using list_okD(3) [OF a(1)] list_okD(3) [OF b(1)] a(2) b(2) by auto
  have loka: "ext_list_ok (pa @ a # sa)" "coalesced (pa @ a # sa)" using list_okD(2,3) [OF a(1)] a(2) by auto
  have lokb: "ext_list_ok (pb @ b # sb)" "coalesced (pb @ b # sb)" using list_okD(2,3) [OF b(1)] b(2) by auto
  have sh: "shared a b = byte_range (e_off b) (min (ext_end a) (ext_end b) - e_off b)"
    by (rule shared_range [OF low ov pos(2)])
  define S where "S = min (ext_end a) (ext_end b) - e_off b"
  have S: "0 < S" "shared a b = byte_range (e_off b) S" using sh ov pos by (auto simp: S_def ext_end_def)
  obtain av' where av': "block_merge rnd block avail (e_off b) S = Inr av'" "list_ok av'"
    "el_cover av' = el_cover avail \<union> shared a b" "el_meta av' = el_meta avail"
    using rl.add_law [OF av S(1), of "e_off b"] free S(2) by metis
  note na = next_ext_ok [OF list_okD(1) [OF a(1)] a(2)] and nb = next_ext_ok [OF list_okD(1) [OF b(1)] b(2)]
  obtain da where da: "discard_ext block ael a = Inr da" "list_ok da" "exts da = pa @ [] @ sa" "el_meta da = el_meta ael"
    using discard_ext_ok [OF a] by blast
  obtain db where db: "discard_ext block bel b = Inr db" "list_ok db" "exts db = pb @ [] @ sb" "el_meta db = el_meta bel"
    using discard_ext_ok [OF b] by blast
  have sbo: "ext_end b < e_off y" if "y \<in> set sb" for y using lokb(2) that by simp
  consider (same) "e_off a = e_off b" "e_size a = e_size b" | (prefix_b) "e_off a = e_off b" "e_size a > e_size b"
    | (prefix_a) "e_off a = e_off b" "e_size a < e_size b" | (suffix) "e_off a < e_off b" "ext_end a = ext_end b"
    | (tail) "e_off a < e_off b" "ext_end a < ext_end b" | (middle) "e_off a < e_off b" "ext_end a > ext_end b"
    using low by linarith
  then show ?thesis
  proof cases
    case same
    then have "S = e_size b" by (simp add: S_def ext_end_def)
    then have "ext_overlap_lower rnd block avail ael a bel b = Inr (av', da, hd_opt sa, db, hd_opt sb)"
      using same av'(1) da(1) db(1) na nb by (simp add: ext_overlap_lower_def)
    moreover have "cover [] = cover [a] - shared a b" "cover [] = cover [b] - shared a b"
      using same by (auto simp: shared_def)
    ultimately show ?thesis
      by (simp only:) (rule reconciledI [OF av'(2-4) da(2-4) db(2-4)]; simp)
  next
    case prefix_b
    let ?f = "\<lambda>a. a\<lparr>e_off := e_off a + e_size b, e_size := e_size a - e_size b\<rparr>"
    have "trims (?f a) a" using prefix_b pos by (simp add: trims_def ext_end_def)
    then obtain ra where ra: "reinsert block ael a ?f = Inr (?f a, ra)" "list_ok ra"
      "exts ra = pa @ [?f a] @ sa" "el_meta ra = el_meta ael"
      using reinsert_ok [OF a, of ?f block] by blast
    have "S = e_size b" using prefix_b by (simp add: S_def ext_end_def)
    then have "ext_overlap_lower rnd block avail ael a bel b = Inr (av', ra, Some (?f a), db, hd_opt sb)"
      using prefix_b av'(1) ra(1) db(1) nb by (simp add: ext_overlap_lower_def Let_def)
    moreover have "cover [?f a] = cover [a] - shared a b" "cover [] = cover [b] - shared a b"
      using prefix_b pos by (auto simp: shared_def)
    ultimately show ?thesis
      by (simp only:) (rule reconciledI [OF av'(2-4) ra(2-4) db(2-4)]; simp)
  next
    case prefix_a
    let ?f = "\<lambda>b. b\<lparr>e_off := e_off b + e_size a, e_size := e_size b - e_size a\<rparr>"
    have "trims (?f b) b" using prefix_a pos by (simp add: trims_def ext_end_def)
    then obtain rb where rb: "reinsert block bel b ?f = Inr (?f b, rb)" "list_ok rb"
      "exts rb = pb @ [?f b] @ sb" "el_meta rb = el_meta bel"
      using reinsert_ok [OF b, of ?f block] by blast
    have "S = e_size a" using prefix_a by (simp add: S_def ext_end_def)
    then have "ext_overlap_lower rnd block avail ael a bel b = Inr (av', da, hd_opt sa, rb, Some (?f b))"
      using prefix_a av'(1) rb(1) da(1) na by (simp add: ext_overlap_lower_def Let_def)
    moreover have "cover [] = cover [a] - shared a b" "cover [?f b] = cover [b] - shared a b"
      using prefix_a pos by (auto simp: shared_def)
    ultimately show ?thesis
      by (simp only:) (rule reconciledI [OF av'(2-4) da(2-4) rb(2-4)]; simp)
  next
    case suffix
    let ?f = "\<lambda>a. a\<lparr>e_size := e_size a - e_size b\<rparr>"
    have "trims (?f a) a" using suffix pos by (simp add: trims_def ext_end_def)
    then obtain ra where ra: "reinsert block ael a ?f = Inr (?f a, ra)" "list_ok ra"
      "exts ra = pa @ [?f a] @ sa" "el_meta ra = el_meta ael"
      using reinsert_ok [OF a, of ?f block] by blast
    have "S = e_size b" using suffix by (simp add: S_def ext_end_def)
    then have "ext_overlap_lower rnd block avail ael a bel b = Inr (av', ra, Some (?f a), db, hd_opt sb)"
      using suffix av'(1) ra(1) db(1) nb by (simp add: ext_overlap_lower_def Let_def)
    moreover have "cover [?f a] = cover [a] - shared a b"
      using suffix pos by (auto simp: shared_def ext_end_def)
    moreover have "cover [] = cover [b] - shared a b"
      using suffix pos by (auto simp: shared_def ext_end_def)
    ultimately show ?thesis
      by (simp only:) (rule reconciledI [OF av'(2-4) ra(2-4) db(2-4)]; simp)
  next
    case tail
    let ?f = "\<lambda>a. a\<lparr>e_size := e_size a - S\<rparr>" and ?g = "\<lambda>b. b\<lparr>e_off := e_off b + S, e_size := e_size b - S\<rparr>"
    have Se: "S = ext_end a - e_off b" using tail by (simp add: S_def)
    have "trims (?f a) a" "trims (?g b) b" using tail pos ov Se by (simp_all add: trims_def ext_end_def)
    then obtain ra rb where ra: "reinsert block ael a ?f = Inr (?f a, ra)" "list_ok ra"
      "exts ra = pa @ [?f a] @ sa" "el_meta ra = el_meta ael"
      and rb: "reinsert block bel b ?g = Inr (?g b, rb)" "list_ok rb"
      "exts rb = pb @ [?g b] @ sb" "el_meta rb = el_meta bel"
      using reinsert_ok [OF a, of ?f block] reinsert_ok [OF b, of ?g block] by blast
    have "ext_overlap_lower rnd block avail ael a bel b = Inr (av', ra, Some (?f a), rb, Some (?g b))"
      using tail av'(1) ra(1) rb(1) by (simp add: ext_overlap_lower_def Let_def Se [symmetric])
    moreover have "cover [?f a] = cover [a] - shared a b" "cover [?g b] = cover [b] - shared a b"
      using tail pos ov Se by (auto simp: shared_def ext_end_def)
    moreover have "apart (Some (?f a)) (Some (?g b))" using S by (simp add: apart_def ext_end_def Se)
    ultimately show ?thesis
      by (simp only:) (rule reconciledI [OF av'(2-4) ra(2-4) rb(2-4)]; simp)
  next
    case middle
    let ?f = "\<lambda>a. a\<lparr>e_size := e_off b - e_off a\<rparr>"
    let ?off = "ext_end b" and ?sz = "ext_end a - ext_end b"
    have "trims (?f a) a" using middle pos ov by (simp add: trims_def ext_end_def)
    then obtain ra where ra: "reinsert block ael a ?f = Inr (?f a, ra)" "list_ok ra"
      "exts ra = pa @ [?f a] @ sa" "el_meta ra = el_meta ael"
      using reinsert_ok [OF a, of ?f block] by blast
    let ?t = "wt_block_ext_alloc rnd ?off ?sz"
    have tpos: "0 < ?sz" using middle by simp
    have fa: "ext_end (?f a) = e_off b" "e_off (?f a) = e_off a" by (simp_all add: ext_end_def)
    have pae: "ext_end x < e_off a" if "x \<in> set pa" for x using loka(2) that by simp
    have sao: "ext_end a < e_off y" if "y \<in> set sa" for y using loka(2) that by simp
    have bb: "e_off b < ?off" using pos by (simp add: ext_end_def)
    have lokr: "ext_list_ok ((pa @ [?f a]) @ sa)" "coalesced ((pa @ [?f a]) @ sa)"
      using list_okD(2,3) [OF ra(2)] ra(3) by auto
    have tail_ok: "ext_list_ok ((pa @ [?f a]) @ ?t # sa)"
      using lokr(1) tpos fa pae sao bb middle by (auto intro: less_imp_le)
    have tail_co: "coalesced ((pa @ [?f a]) @ ?t # sa)"
    proof -
      have "ext_end x < ?off" if "x \<in> set pa" for x using pae [OF that] bb middle by simp
      then show ?thesis using lokr(2) fa sao bb middle by auto
    qed
    have bel: "below e_off ?off (exts ra) = pa @ [?f a]" and abo: "above e_off ?off (exts ra) = sa"
    proof -
      have "e_off x < ?off" if "x \<in> set (pa @ [?f a])" for x
        using that pae bb middle ext_list_ok_pos [OF lokr(1), of x] by force
      moreover have "?off \<le> e_off y" if "y \<in> set sa" for y using sao [OF that] middle by simp
      ultimately show "below e_off ?off (exts ra) = pa @ [?f a]" "above e_off ?off (exts ra) = sa"
        using below_above_split [of "pa @ [?f a]" e_off ?off sa] ra(3) by auto
    qed
    have jb: "join_before (exts ra) ?off = None"
      using bb fa(1) by (simp only: join_before_def bel last_opt_snoc ends_at_def option.case) simp
    have ja: "join_after (exts ra) ?off ?sz = None"
    proof (cases "hd_opt sa")
      case (Some y)
      then have "ext_end a < e_off y" using sao by (auto simp: hd_opt_Some)
      then show ?thesis using Some by (simp add: join_after_def abo)
    qed (simp add: join_after_def abo)
    have dis: "byte_range ?off ?sz \<inter> cover (exts ra) = {}"
      unfolding range_disjoint_iff [OF list_okD(3) [OF ra(2)] tpos] bel abo
      using pae sao bb fa(1) middle by force
    have "\<exists>ta. block_merge rnd block ra ?off ?sz = Inr ta \<and> list_ok ta \<and> exts ta = pa @ [?f a, ?t] @ sa \<and>
        el_meta ta = el_meta ael"
    proof -
      have "block_merge rnd block ra ?off ?sz = Inr (block_ext_insert ra ?t)"
        using block_merge_cases [OF list_okD(1) [OF ra(2)] dis tpos, of rnd block] jb ja
        by (simp add: block_off_insert_def)
      moreover have "exts ra = (pa @ [?f a]) @ sa" using ra(3) by simp
      note ins = block_ext_insert_ok [OF list_okD(1) [OF ra(2)] this tail_ok]
      ultimately show ?thesis using ins tail_co ra(4) by (simp add: list_ok_def)
    qed
    then obtain ta where ta: "block_merge rnd block ra ?off ?sz = Inr ta" "list_ok ta"
      "exts ta = pa @ [?f a, ?t] @ sa" "el_meta ta = el_meta ael" by blast
    have "S = e_size b" using middle by (simp add: S_def ext_end_def)
    then have "ext_overlap_lower rnd block avail ael a bel b = Inr (av', ta, Some (?f a), db, hd_opt sb)"
      using middle av'(1) ra(1) ta(1) db(1) nb by (simp add: ext_overlap_lower_def Let_def)
    moreover have "cover [?f a, ?t] = cover [a] - shared a b" "cover [] = cover [b] - shared a b"
      using middle pos ov by (auto simp: shared_def ext_end_def)
    moreover have "apart (Some (?f a)) (hd_opt sb)"
    proof -
      have "ext_end (?f a) \<le> e_off y" if "hd_opt sb = Some y" for y
        using sbo [of y] that pos by (auto simp: ext_end_def hd_opt_Some)
      then show ?thesis by (simp add: apart_def)
    qed
    ultimately show ?thesis
      by (simp only:) (rule reconciledI [OF av'(2-4) ta(2-4) db(2-4)]; simp)
  qed
qed

lemma shared_commute: "shared a b = shared b a"
  by (simp only: shared_def Int_commute)

lemma block_ext_overlap_ok:
  assumes av: "list_ok avail" and a: "list_ok ael" "exts ael = pa @ a # sa"
    and b: "list_ok bel" "exts bel = pb @ b # sb"
    and ov: "e_off b < ext_end a" "e_off a < ext_end b" and free: "shared a b \<inter> el_cover avail = {}"
  shows "reconciled avail ael a bel b pa sa pb sb (block_ext_overlap rnd block avail ael a bel b)"
proof (cases "e_off a > e_off b")
  case False
  then show ?thesis
    using ext_overlap_lower_ok [OF av a b _ ov(1) free] by (simp add: block_ext_overlap_def)
next
  case True
  have "reconciled avail bel b ael a pb sb pa sa (ext_overlap_lower rnd block avail bel b ael a)"
    using ext_overlap_lower_ok [OF av b a _ ov(2)] free True by (simp add: shared_commute)
  then obtain av' bel' bp ael' ap A B where r:
    "ext_overlap_lower rnd block avail bel b ael a = Inr (av', bel', bp, ael', ap)"
    "list_ok av'" "el_cover av' = el_cover avail \<union> shared b a" "el_meta av' = el_meta avail"
    "list_ok bel'" "exts bel' = pb @ B @ sb" "bp = hd_opt (B @ sb)" "cover B = cover [b] - shared b a"
    "el_meta bel' = el_meta bel" "list_ok ael'" "exts ael' = pa @ A @ sa" "ap = hd_opt (A @ sa)"
    "cover A = cover [a] - shared b a" "el_meta ael' = el_meta ael"
    "length B + length A \<le> 1 \<or> length B + length A = 2 \<and> apart bp ap"
    unfolding reconciled_def by blast
  have "length A + length B \<le> 1 \<or> length A + length B = 2 \<and> apart ap bp"
    using r(15) by (auto simp: apart_def add.commute)
  then have "reconciled avail ael a bel b pa sa pb sb (Inr (av', ael', ap, bel', bp))"
    using r(2-14) unfolding shared_commute [of b a] by (intro reconciledI) simp_all
  then show ?thesis using True r(1) by (simp add: block_ext_overlap_def)
qed

lemma cover_apart: "(\<And>y. y \<in> set ys \<Longrightarrow> ext_end a \<le> e_off y) \<Longrightarrow> cover [a] \<inter> cover ys = {}"
  by (force simp: in_cover ext_end_def cover_one)

text \<open>The measure of the walk: the extents still to look at, and whether the two pointers overlap.\<close>

definition walk_size :: "ext list \<Rightarrow> ext list \<Rightarrow> nat" where
  "walk_size sa sb = 2 * (length sa + length sb) + (if apart (hd_opt sa) (hd_opt sb) then 0 else 1)"

definition reconciled_lists ::
    "extlist \<Rightarrow> extlist \<Rightarrow> extlist \<Rightarrow> (extlist \<times> extlist \<times> extlist) result option \<Rightarrow> bool" where
  "reconciled_lists avail ael bel r \<longleftrightarrow>
     (\<exists>av ael' bel'. r = Some (Inr (av, ael', bel')) \<and> list_ok av \<and> list_ok ael' \<and> list_ok bel' \<and>
       el_cover ael' = el_cover ael - el_cover bel \<and> el_cover bel' = el_cover bel - el_cover ael \<and>
       el_cover av = el_cover avail \<union> (el_cover ael \<inter> el_cover bel) \<and>
       el_meta av = el_meta avail \<and> el_meta ael' = el_meta ael \<and> el_meta bel' = el_meta bel)"

lemma reconciled_lists_done:
  assumes "list_ok avail" and "list_ok ael" and "list_ok bel" and "el_cover ael \<inter> el_cover bel = {}"
  shows "reconciled_lists avail ael bel (Some (Inr (avail, ael, bel)))"
  using assms unfolding reconciled_lists_def by blast

lemma cover_around:
  assumes "ext_list_ok (p @ a # r)"
  shows "cover [a] \<inter> cover r = {}" "cover [a] \<inter> cover p = {}" "cover p \<inter> cover r = {}"
proof -
  have "ext_end a \<le> e_off y" if "y \<in> set r" for y
    using assms that by force
  then show "cover [a] \<inter> cover r = {}" by (rule cover_apart)
  have pa: "ext_end x \<le> e_off a" if "x \<in> set p" for x
    using assms that by force
  then show "cover [a] \<inter> cover p = {}" by (force simp: in_cover ext_end_def cover_one)
  have "ext_end x \<le> e_off y" if "x \<in> set p" "y \<in> set r" for x y
    using assms that by force
  then show "cover p \<inter> cover r = {}" by (force simp: in_cover ext_end_def)
qed

lemma take_middle:
  fixes P M R I :: "int set"
  assumes "M \<inter> R = {}" "M \<inter> P = {}" "I \<subseteq> M"
  shows "P \<union> ((M - I) \<union> R) = (P \<union> (M \<union> R)) - I"
  using assms by blast

lemma reconciled_lists_step:
  assumes r: "reconciled_lists av' ael' bel' r"
    and cov: "el_cover ael' = el_cover ael - I" "el_cover bel' = el_cover bel - I" "el_cover av' = el_cover av \<union> I"
    and meta: "el_meta av' = el_meta av" "el_meta ael' = el_meta ael" "el_meta bel' = el_meta bel"
    and I: "I \<subseteq> el_cover ael" "I \<subseteq> el_cover bel"
  shows "reconciled_lists av ael bel r"
proof -
  obtain x y z where x: "r = Some (Inr (x, y, z))" "list_ok x" "list_ok y" "list_ok z"
    "el_cover y = el_cover ael' - el_cover bel'" "el_cover z = el_cover bel' - el_cover ael'"
    "el_cover x = el_cover av' \<union> (el_cover ael' \<inter> el_cover bel')"
    "el_meta x = el_meta av'" "el_meta y = el_meta ael'" "el_meta z = el_meta bel'"
    using r unfolding reconciled_lists_def by blast
  have alg: "(A - I) - (B - I) = A - B" "(V \<union> I) \<union> ((A - I) \<inter> (B - I)) = V \<union> (A \<inter> B)"
    if "I \<subseteq> A" "I \<subseteq> B" for A B V :: "int set" using that by blast+
  have "el_cover y = el_cover ael - el_cover bel" "el_cover z = el_cover bel - el_cover ael"
    "el_cover x = el_cover av \<union> (el_cover ael \<inter> el_cover bel)"
    unfolding x(5-7) cov by (rule alg [OF I], rule alg [OF I(2,1)], rule alg [OF I])
  then show ?thesis using x(1-4,8-10) meta unfolding reconciled_lists_def by metis
qed

lemma extlist_overlap_loop_ok:
  assumes "list_ok avail" and "list_ok ael" and "list_ok bel"
    and "exts ael = pa @ sa" and "exts bel = pb @ sb"
    and "cover pa \<inter> el_cover bel = {}" and "cover pb \<inter> el_cover ael = {}"
    and "el_cover avail \<inter> (el_cover ael \<inter> el_cover bel) = {}"
  shows "reconciled_lists avail ael bel
    (extlist_overlap_loop rnd block avail ael (hd_opt sa) bel (hd_opt sb))"
  using assms
proof (induction "walk_size sa sb" arbitrary: avail ael bel pa sa pb sb rule: less_induct)
  case less
  note av = less.prems(1) and la = less.prems(2) and lb = less.prems(3)
  show ?case
  proof (cases sa)
    case Nil
    then have "el_cover ael \<inter> el_cover bel = {}" using less.prems(4,6) by (simp add: el_cover_def)
    then show ?thesis
      using Nil reconciled_lists_done [OF av la lb] by (simp add: extlist_overlap_loop.simps)
  next
    case sa: (Cons a ra)
    show ?thesis
    proof (cases sb)
      case Nil
      then have "el_cover ael \<inter> el_cover bel = {}" using less.prems(5,7) by (auto simp: el_cover_def)
      then show ?thesis
        using Nil sa reconciled_lists_done [OF av la lb] by (simp add: extlist_overlap_loop.simps)
    next
      case sb: (Cons b rb)
      have xa: "exts ael = pa @ a # ra" and xb: "exts bel = pb @ b # rb" using less.prems(4,5) sa sb by simp_all
      have na: "next_ext ael a = hd_opt ra" by (rule next_ext_ok [OF list_okD(1) [OF la] xa])
      have nb: "next_ext bel b = hd_opt rb" by (rule next_ext_ok [OF list_okD(1) [OF lb] xb])
      have oka: "ext_list_ok (pa @ a # ra)" and okb: "ext_list_ok (pb @ b # rb)"
        using list_okD(3) [OF la] list_okD(3) [OF lb] xa xb by simp_all
      consider (left) "ext_end a \<le> e_off b" | (right) "\<not> ext_end a \<le> e_off b" "ext_end b \<le> e_off a"
        | (over) "e_off b < ext_end a" "e_off a < ext_end b" by linarith
      then show ?thesis
      proof cases
        case left
        have "walk_size ra sb < walk_size sa sb" using left by (simp add: walk_size_def sa sb apart_def)
        moreover have "cover (pa @ [a]) \<inter> el_cover bel = {}"
        proof -
          have "cover [a] \<inter> cover (b # rb) = {}"
            using left okb ext_list_ok_pos [OF okb, of b] by (intro cover_apart) force
          moreover have "cover [a] \<inter> cover pb = {}" using less.prems(7) xa by (auto simp: el_cover_def)
          ultimately show ?thesis using less.prems(6) xb by (auto simp: el_cover_def)
        qed
        ultimately have "reconciled_lists avail ael bel
            (extlist_overlap_loop rnd block avail ael (hd_opt ra) bel (hd_opt sb))"
          using less.hyps [of ra sb avail ael bel "pa @ [a]" pb] av la lb xa less.prems(5,7,8) by simp
        then show ?thesis using left sa sb na by (simp add: extlist_overlap_loop.simps [of _ _ _ _ "Some a"])
      next
        case right
        have "walk_size sa rb < walk_size sa sb" using right by (simp add: walk_size_def sa sb apart_def)
        moreover have "cover (pb @ [b]) \<inter> el_cover ael = {}"
        proof -
          have "cover [b] \<inter> cover (a # ra) = {}"
            using right oka ext_list_ok_pos [OF oka, of a] by (intro cover_apart) force
          moreover have "cover [b] \<inter> cover pa = {}" using less.prems(6) xb by (auto simp: el_cover_def)
          ultimately show ?thesis using less.prems(7) xa by (auto simp: el_cover_def)
        qed
        ultimately have "reconciled_lists avail ael bel
            (extlist_overlap_loop rnd block avail ael (hd_opt sa) bel (hd_opt rb))"
          using less.hyps [of sa rb avail ael bel pa "pb @ [b]"] av la lb xb less.prems(4,6,8) by simp
        then show ?thesis using right sa sb nb by (simp add: extlist_overlap_loop.simps [of _ _ _ _ "Some a"])
      next
        case over
        let ?I = "shared a b"
        have I: "?I \<subseteq> el_cover ael" "?I \<subseteq> el_cover bel" using xa xb by (auto simp: shared_def el_cover_def)
        then have "?I \<inter> el_cover avail = {}" using less.prems(8) by blast
        from block_ext_overlap_ok [OF av la xa lb xb over this, of rnd block]
        obtain av' ael' ap bel' bp A B where r:
          "block_ext_overlap rnd block avail ael a bel b = Inr (av', ael', ap, bel', bp)"
          "list_ok av'" "el_cover av' = el_cover avail \<union> ?I" "el_meta av' = el_meta avail"
          "list_ok ael'" "exts ael' = pa @ A @ ra" "ap = hd_opt (A @ ra)" "cover A = cover [a] - ?I"
          "el_meta ael' = el_meta ael" "list_ok bel'" "exts bel' = pb @ B @ rb" "bp = hd_opt (B @ rb)"
          "cover B = cover [b] - ?I" "el_meta bel' = el_meta bel"
          "length A + length B \<le> 1 \<or> length A + length B = 2 \<and> apart ap bp"
          unfolding reconciled_def by blast
        have "\<not> apart (Some a) (Some b)" using over by (simp add: apart_def)
        then have w: "walk_size (A @ ra) (B @ rb) < walk_size sa sb"
          using r(15) r(7,12) by (auto simp: walk_size_def sa sb)
        have split: "cover (p @ e # q) = cover p \<union> (cover [e] \<union> cover q)" "cover (p @ E @ q) = cover p \<union> (cover E \<union> cover q)"
          for p q e E by (auto simp: cover_def)
        have ca: "el_cover ael' = el_cover ael - ?I"
          unfolding el_cover_def r(6) xa split r(8)
          by (rule take_middle [OF cover_around(1,2) [OF oka]]) (simp add: shared_def)
        have cb: "el_cover bel' = el_cover bel - ?I"
          unfolding el_cover_def r(11) xb split r(13)
          by (rule take_middle [OF cover_around(1,2) [OF okb]]) (simp add: shared_def)
        have inv: "cover pa \<inter> el_cover bel' = {}" "cover pb \<inter> el_cover ael' = {}"
          "el_cover av' \<inter> (el_cover ael' \<inter> el_cover bel') = {}"
          unfolding ca cb r(3) using less.prems(6-8) by blast+
        have "reconciled_lists av' ael' bel'
            (extlist_overlap_loop rnd block av' ael' (hd_opt (A @ ra)) bel' (hd_opt (B @ rb)))"
          by (rule less.hyps [OF w r(2,5,10,6,11) inv])
        then have "reconciled_lists avail ael bel
            (extlist_overlap_loop rnd block av' ael' (hd_opt (A @ ra)) bel' (hd_opt (B @ rb)))"
          by (rule reconciled_lists_step [OF _ ca cb r(3,4,9,14) I])
        moreover have "extlist_overlap_loop rnd block avail ael (hd_opt sa) bel (hd_opt sb) =
            extlist_overlap_loop rnd block av' ael' (hd_opt (A @ ra)) bel' (hd_opt (B @ rb))"
          using over r(1,7,12) sa sb by (simp add: extlist_overlap_loop.simps [of _ _ _ _ "Some a"])
        ultimately show ?thesis by simp
      qed
    qed
  qed
qed

subsection \<open>Merging two lists\<close>

text \<open>The list operations look at the cached last extent only to keep it up to date.\<close>

definition no_last :: "extlist \<Rightarrow> extlist" where
  "no_last el = el\<lparr>el_last := None\<rparr>"

lemma no_last_eqD: "no_last el = no_last el' \<Longrightarrow> \<exists>l. el' = el\<lparr>el_last := l\<rparr>"
  by (cases el; cases el') (simp add: no_last_def)

lemma no_last_set [simp]: "no_last (el\<lparr>el_last := l\<rparr>) = no_last el"
  by (simp add: no_last_def)

lemma no_last_exts: "no_last el = no_last el' \<Longrightarrow> exts el = exts el'"
  by (auto dest!: no_last_eqD simp: exts_def)

lemma no_last_insert: "no_last el = no_last el' \<Longrightarrow> no_last (block_ext_insert el x) = no_last (block_ext_insert el' x)"
  by (drule no_last_eqD, erule exE, hypsubst_thin)
    (simp add: block_ext_insert_def no_last_def Let_def split: prod.splits)

lemma no_last_remove:
  assumes "no_last el = no_last el'"
  shows "map_sum id (map_prod id no_last) (block_off_remove block el off) =
    map_sum id (map_prod id no_last) (block_off_remove block el' off)"
proof -
  obtain l where "el' = el\<lparr>el_last := l\<rparr>" using no_last_eqD [OF assms] by blast
  then show ?thesis
    by (auto simp: block_off_remove_def no_last_def Let_def WT_BLOCK_RET_def wt_ret_def
        split: prod.splits option.splits sum.splits)
qed

lemma no_last_bind:
  assumes "map_sum id (map_prod id no_last) r = map_sum id (map_prod id no_last) r'"
    and "\<And>x el el'. no_last el = no_last el' \<Longrightarrow> map_sum id no_last (f (x, el)) = map_sum id no_last (f' (x, el'))"
  shows "map_sum id no_last (wt_ret r f) = map_sum id no_last (wt_ret r' f')"
  using assms by (cases r; cases r') (auto simp: map_prod_def)

lemma no_last_then:
  assumes "map_sum id no_last r = map_sum id no_last r'"
    and "\<And>el el'. no_last el = no_last el' \<Longrightarrow> map_sum id no_last (f el) = map_sum id no_last (f' el')"
  shows "map_sum id no_last (wt_ret r f) = map_sum id no_last (wt_ret r' f')"
  using assms by (cases r; cases r') auto

lemma no_last_pair:
  assumes "map_sum id (map_prod id no_last) r = map_sum id (map_prod id no_last) r'"
  shows "map_sum id (map_prod id no_last) (wt_ret r (\<lambda>(x, el). Inr (g, el))) =
    map_sum id (map_prod id no_last) (wt_ret r' (\<lambda>(x, el). Inr (g, el)))"
  using assms by (cases r; cases r') auto

lemma no_last_merge:
  assumes eq: "no_last el = no_last el'"
  shows "map_sum id no_last (block_merge rnd block el off sz) = map_sum id no_last (block_merge rnd block el' off sz)"
proof -
  have "block_off_srch_pair el' off = block_off_srch_pair el off"
    using no_last_eqD [OF eq] by (auto simp: block_off_srch_pair_def)
  then show ?thesis
    unfolding block_merge_def
    by (auto simp: Let_def WT_BLOCK_RET_def block_off_insert_def eq
        intro!: no_last_insert no_last_bind no_last_pair no_last_remove
        split: prod.splits option.splits)
qed

lemma no_last_merge_all:
  "no_last el = no_last el' \<Longrightarrow>
    map_sum id no_last (fold_result (\<lambda>b x. block_merge rnd block b (e_off x) (e_size x)) xs el) =
    map_sum id no_last (fold_result (\<lambda>b x. block_merge rnd block b (e_off x) (e_size x)) xs el')"
proof (induction xs arbitrary: el el')
  case (Cons x xs)
  show ?case
    unfolding fold_result.simps by (rule no_last_then [OF no_last_merge [OF Cons.prems] Cons.IH])
qed simp

definition fix_last :: "extlist \<Rightarrow> extlist" where
  "fix_last el = el\<lparr>el_last := last_opt (exts el)\<rparr>"

lemma fix_last_ok: "list_ok el \<Longrightarrow> no_last el = no_last el' \<Longrightarrow> fix_last el' = el"
  by (drule no_last_eqD, erule exE, hypsubst_thin)
    (simp add: list_ok_def el_ok_def fix_last_def exts_def)

text \<open>The swapped contents, each with its right last extent.\<close>

lemma swapped:
  assumes "list_ok b" and "el_track_size a = el_track_size b"
  shows "list_ok (fix_last (a\<lparr>el_bytes := el_bytes b, el_entries := el_entries b, el_offs := el_offs b, el_szs := el_szs b\<rparr>))"
proof -
  let ?a = "fix_last (a\<lparr>el_bytes := el_bytes b, el_entries := el_entries b, el_offs := el_offs b, el_szs := el_szs b\<rparr>)"
  have "exts ?a = exts b" "el_last ?a = last_opt (exts b)" "el_track_size ?a = el_track_size b"
    "el_offs ?a = el_offs b" "el_szs ?a = el_szs b" "el_bytes ?a = el_bytes b" "el_entries ?a = el_entries b"
    using assms(2) by (simp_all add: fix_last_def exts_def)
  then show ?thesis using assms(1) unfolding list_ok_def el_ok_def by metis
qed

lemma extlist_merge_ok:
  assumes a: "list_ok a" and b: "list_ok b" and dis: "el_cover a \<inter> el_cover b = {}"
  shows "\<exists>a' b'. wt_block_extlist_merge rnd block a b = Inr (a', b') \<and> list_ok (fix_last b') \<and>
    el_cover b' = el_cover a \<union> el_cover b \<and> el_meta b' = el_meta b"
proof -
  have fin: "\<exists>b'. fold_result (\<lambda>b x. block_merge rnd block b (e_off x) (e_size x)) (el_offs x ! 0) y = Inr b' \<and>
      list_ok (fix_last b') \<and> el_cover b' = el_cover x \<union> el_cover y \<and> el_meta b' = el_meta y"
    if x: "list_ok (fix_last x)" and y: "list_ok (fix_last y)" and d: "el_cover x \<inter> el_cover y = {}" for x y
  proof -
    have c: "el_cover (fix_last z) = el_cover z" "el_meta (fix_last z) = el_meta z" "exts (fix_last z) = exts z"
      "no_last (fix_last z) = no_last z" for z
      by (simp_all add: fix_last_def el_cover_def exts_def el_meta_def)
    have sx: "ext_list_ok (exts x)" "cover (exts x) \<inter> el_cover (fix_last y) = {}"
      using list_okD(3) [OF x] d by (simp_all add: c el_cover_def)
    from rl.add_all [OF y this, of rnd block] obtain z where
      z: "fold_result (\<lambda>b x. block_merge rnd block b (e_off x) (e_size x)) (exts x) (fix_last y) = Inr z"
      "list_ok z" "el_cover z = el_cover (fix_last y) \<union> cover (exts x)" "el_meta z = el_meta (fix_last y)"
      by blast
    from no_last_merge_all [OF c(4), of rnd block "exts x" y] z(1) obtain b' where
      b': "fold_result (\<lambda>b x. block_merge rnd block b (e_off x) (e_size x)) (exts x) y = Inr b'"
      "no_last b' = no_last z"
      by (cases "fold_result (\<lambda>b x. block_merge rnd block b (e_off x) (e_size x)) (exts x) y") auto
    have "fix_last b' = z" using fix_last_ok [OF z(2)] b'(2) by simp
    then have "list_ok (fix_last b')" "el_cover b' = el_cover x \<union> el_cover y" "el_meta b' = el_meta y"
      using z(2-4) c by (auto simp: el_cover_def)
    then show ?thesis using b'(1) by (auto simp: exts_def)
  qed
  have self: "fix_last z = z" if "list_ok z" for z using fix_last_ok [OF that refl] .
  show ?thesis
  proof (cases "el_track_size a = el_track_size b \<and> el_entries a > el_entries b")
    case False
    then show ?thesis using fin [of a b] a b dis self by (auto simp: wt_block_extlist_merge_def wt_ret_Inr_iff)
  next
    case True
    let ?a = "a\<lparr>el_bytes := el_bytes b, el_entries := el_entries b, el_offs := el_offs b, el_szs := el_szs b\<rparr>"
    let ?b = "b\<lparr>el_bytes := el_bytes a, el_entries := el_entries a, el_offs := el_offs a, el_szs := el_szs a\<rparr>"
    have e: "exts ?a = exts b" "exts ?b = exts a" by (simp_all add: exts_def)
    have "list_ok (fix_last ?a)" "list_ok (fix_last ?b)"
      by (rule swapped [OF b], use True in simp) (rule swapped [OF a], use True in simp)
    moreover have "el_cover ?a = el_cover b" "el_cover ?b = el_cover a" "el_meta ?b = el_meta b"
      by (simp_all add: el_cover_def e el_meta_def)
    ultimately show ?thesis
      using fin [of ?a ?b] dis True by (auto simp: wt_block_extlist_merge_def wt_ret_Inr_iff Int_commute Un_commute)
  qed
qed

subsection \<open>Writing a list and reading it back\<close>

declare extlist_read_loop.simps [simp del]

lemma pair_roundtrip:
  assumes "0 \<le> off" and "off \<le> INT64_MAX" and "0 \<le> sz" and "sz \<le> INT64_MAX"
  shows "\<exists>bs. wt_extlist_write_pair off sz = Inr bs \<and>
    (\<forall>r. wt_extlist_read_pair (bs @ r) = Inr ((off, sz), r))"
proof -
  obtain bo bs where b: "wt_vpack_uint 0 (of_int off) = Inr bo" "wt_vpack_uint 0 (of_int sz) = Inr bs"
    using uint_codec.enc_total by metis
  have s: "sint (of_int v :: u64) = v" if "0 \<le> v" "v \<le> INT64_MAX" for v
    using that by (simp add: INT64_MAX_def signed_of_int signed_take_bit_int_eq_self)
  show ?thesis
    using b wt_vunpack_uint_vpack [OF b(1), of 0] wt_vunpack_uint_vpack [OF b(2), of 0] s assms
    by (simp add: wt_extlist_write_pair_def wt_extlist_read_pair_def)
qed

text \<open>What the reader accepts as an extent of a checkpoint of a given size.\<close>

definition ext_readable :: "wt_block \<Rightarrow> int \<Rightarrow> ext \<Rightarrow> bool" where
  "ext_readable block ckpt_size x \<longleftrightarrow> blk_allocsize block \<le> e_off x \<and> e_off x mod blk_allocsize block = 0 \<and>
     e_size x mod blk_allocsize block = 0 \<and> ext_end x \<le> ckpt_size \<and> 0 < e_size x"

definition read_add :: "draws \<Rightarrow> wt_block \<Rightarrow> extlist \<Rightarrow> ext \<Rightarrow> extlist result" where
  "read_add rnd block el x =
     (if \<not> el_track_size el then Inr (block_append rnd el (e_off x) (e_size x))
      else block_merge rnd block el (e_off x) (e_size x))"

lemma invalid_offset [simp]: "sint WT_BLOCK_INVALID_OFFSET = 0"
  by (simp add: WT_BLOCK_INVALID_OFFSET_def)

lemma write_exts_read:
  assumes "\<forall>x\<in>set xs. ext_readable block ckpt_size x" and "0 < blk_allocsize block" and "ckpt_size \<le> INT64_MAX"
  shows "\<exists>bs. write_exts xs = Inr bs \<and> (\<forall>el r. extlist_read_loop rnd block ckpt_size el (bs @ r) =
    wt_ret (fold_result (read_add rnd block) xs el) (\<lambda>el. extlist_read_loop rnd block ckpt_size el r))"
  using assms(1)
proof (induction xs)
  case (Cons x xs)
  then obtain bs where bs: "write_exts xs = Inr bs"
    "\<And>el r. extlist_read_loop rnd block ckpt_size el (bs @ r) =
      wt_ret (fold_result (read_add rnd block) xs el) (\<lambda>el. extlist_read_loop rnd block ckpt_size el r)" by auto
  have x: "blk_allocsize block \<le> e_off x" "e_off x mod blk_allocsize block = 0"
    "e_size x mod blk_allocsize block = 0" "e_off x + e_size x \<le> ckpt_size" "0 < e_size x"
    using Cons.prems by (simp_all add: ext_readable_def ext_end_def)
  then obtain ps where ps: "wt_extlist_write_pair (e_off x) (e_size x) = Inr ps"
    "\<And>r. wt_extlist_read_pair (ps @ r) = Inr ((e_off x, e_size x), r)"
    using pair_roundtrip [of "e_off x" "e_size x"] assms(2,3) by fastforce
  have "extlist_read_loop rnd block ckpt_size el (ps @ (bs @ r)) =
      wt_ret (read_add rnd block el x) (\<lambda>el. extlist_read_loop rnd block ckpt_size el (bs @ r))" for el r
    using x assms(2) by (subst extlist_read_loop.simps) (simp add: ps read_add_def Let_def)
  then have "extlist_read_loop rnd block ckpt_size el ((ps @ bs) @ r) =
      wt_ret (fold_result (read_add rnd block) (x # xs) el) (\<lambda>el. extlist_read_loop rnd block ckpt_size el r)" for el r
    by (cases "read_add rnd block el x") (simp_all add: bs)
  then show ?case using ps(1) bs(1) by simp
qed simp

lemma read_add_tracked:
  assumes "list_ok el" and "el_track_size el" and "ext_list_ok xs" and "cover xs \<inter> el_cover el = {}"
  shows "\<exists>el'. fold_result (read_add rnd block) xs el = Inr el' \<and> list_ok el' \<and>
    el_cover el' = el_cover el \<union> cover xs \<and> el_meta el' = el_meta el"
proof -
  have "fold_result (read_add rnd block) xs el = fold_result (\<lambda>l x. block_merge rnd block l (e_off x) (e_size x)) xs el"
    using assms
  proof (induction xs arbitrary: el)
    case (Cons x xs)
    have c: "byte_range (e_off x) (e_size x) \<inter> el_cover el = {}" and p: "0 < e_size x"
      using Cons.prems by auto
    obtain el' where el': "block_merge rnd block el (e_off x) (e_size x) = Inr el'" "list_ok el'"
      "el_cover el' = el_cover el \<union> byte_range (e_off x) (e_size x)" "el_meta el' = el_meta el"
      using rl.add_law [OF Cons.prems(1) p c, of rnd block] by blast
    have "byte_range (e_off x) (e_size x) \<inter> cover xs = {}"
      using cover_apart [of xs x] Cons.prems(3) by simp
    then have "cover xs \<inter> el_cover el' = {}" using Cons.prems(4) el'(3) by auto
    then show ?case
      using Cons.IH [OF el'(2)] Cons.prems el' el_meta_track [OF el'(4)] by (simp add: read_add_def)
  qed simp
  then show ?thesis using rl.add_all [OF assms(1,3,4)] by simp
qed

lemma read_add_appended:
  assumes "list_ok el" and "\<not> el_track_size el" and "ext_list_ok xs"
    and "\<forall>x\<in>set (exts el). \<forall>y\<in>set xs. ext_end x \<le> e_off y"
  shows "\<exists>el'. fold_result (read_add rnd block) xs el = Inr el' \<and> list_ok el' \<and>
    el_cover el' = el_cover el \<union> cover xs \<and> el_meta el' = el_meta el"
  using assms
proof (induction xs arbitrary: el)
  case (Cons x xs)
  let ?el = "block_append rnd el (e_off x) (e_size x)"
  have p: "0 < e_size x" using Cons.prems(3) by simp
  have m: "merged el ?el (e_off x) (e_size x)"
    using block_append_merged [OF list_okD(1) [OF Cons.prems(1)] Cons.prems(2) p] Cons.prems(4) by simp
  then have el': "list_ok ?el" "el_cover ?el = el_cover el \<union> byte_range (e_off x) (e_size x)" "el_meta ?el = el_meta el"
    using list_okD(2) [OF Cons.prems(1)] by (auto simp: merged_def list_ok_def el_cover_def)
  have "ext_end z \<le> e_off y" if z: "z \<in> set (exts ?el)" and y: "y \<in> set xs" for z y
  proof -
    have pz: "e_off z < ext_end z" using ext_list_ok_pos [OF list_okD(3) [OF el'(1)] z] .
    then have "ext_end z - 1 \<in> el_cover ?el" using z by (force simp: el_cover_def in_cover)
    then have "ext_end z - 1 \<in> el_cover el \<or> ext_end z - 1 < ext_end x" unfolding el'(2) by (auto simp: ext_end_def)
    then show ?thesis using Cons.prems(3,4) y by (force simp: el_cover_def in_cover)
  qed
  then obtain el2 where "fold_result (read_add rnd block) xs ?el = Inr el2" "list_ok el2"
    "el_cover el2 = el_cover ?el \<union> cover xs" "el_meta el2 = el_meta ?el"
    using Cons.IH [OF el'(1)] Cons.prems(2,3) el_meta_track [OF el'(3)] by fastforce
  then show ?case using Cons.prems(2) el' by (auto simp: read_add_def [of rnd block el x])
qed simp
definition more_exts :: "extlist option \<Rightarrow> ext list" where
  "more_exts additional = (case additional of None \<Rightarrow> [] | Some al \<Rightarrow> exts al)"

lemma more_exts_simps [simp]: "more_exts None = []" "more_exts (Some al) = exts al"
  by (simp_all add: more_exts_def)

lemma read_back_all:
  assumes el0: "list_ok el0" "exts el0 = []" and "additional = None \<or> el_track_size el0"
    and "ext_list_ok xs" and "ext_list_ok (more_exts additional)" and "cover xs \<inter> cover (more_exts additional) = {}"
  shows "\<exists>el'. wt_ret (fold_result (read_add rnd block) xs el0) (fold_result (read_add rnd block) (more_exts additional))
      = Inr el' \<and> list_ok el' \<and> el_cover el' = cover xs \<union> cover (more_exts additional) \<and> el_meta el' = el_meta el0"
proof (cases "el_track_size el0")
  case True
  from read_add_tracked [OF el0(1) True assms(4), of rnd block] el0(2) obtain el1 where
    el1: "fold_result (read_add rnd block) xs el0 = Inr el1" "list_ok el1" "el_cover el1 = cover xs" "el_meta el1 = el_meta el0"
    by (auto simp: el_cover_def)
  show ?thesis
    using read_add_tracked [OF el1(2) _ assms(5), of rnd block] True el_meta_track [OF el1(4)] el1 assms(6)
    by (simp add: Int_commute)
next
  case False
  from read_add_appended [OF el0(1) False assms(4), of rnd block] el0(2) obtain el' where
    "fold_result (read_add rnd block) xs el0 = Inr el'" "list_ok el'" "el_cover el' = cover xs" "el_meta el' = el_meta el0"
    by (auto simp: el_cover_def)
  then show ?thesis using assms(3) False by simp
qed

text \<open>
  C26: an extent list written to the file, with the list added to it when there is one, reads back as
  the same bytes: writing does not fail, and reading the block into an empty list (which tracks sizes
  when two lists were written, since they are not sorted together) gives a well-formed list that
  covers exactly what the lists covered, whatever padding follows the data. Reading is the argument
  \<open>read_off\<close>; it returns what was written, padded.
\<close>

theorem extlist_roundtrip:
  assumes "list_ok el" and "\<forall>al. additional = Some al \<longrightarrow> list_ok al \<and> el_cover el \<inter> el_cover al = {}"
    and "\<forall>x\<in>set (exts el @ more_exts additional). ext_readable block ckpt_size x"
    and "0 < blk_allocsize block" and "ckpt_size \<le> INT64_MAX"
    and "list_ok el0" and "exts el0 = []" and "el_offset el0 \<noteq> 0" and "additional = None \<or> el_track_size el0"
  shows "\<exists>data. extlist_image block el additional = Inr data \<and>
    (\<forall>pad read_off. read_off (el_objectid el0) (el_offset el0) (el_size el0) (el_checksum el0) = Inr (data @ pad) \<longrightarrow>
      (\<exists>el'. wt_block_extlist_read rnd read_off block el0 ckpt_size = Inr el' \<and> list_ok el' \<and>
        el_cover el' = el_cover el \<union> cover (more_exts additional)))"
proof -
  note ok = assms(4,5)
  obtain b1 b2 where b: "write_exts (exts el) = Inr b1" "write_exts (more_exts additional) = Inr b2"
    "\<And>l r. extlist_read_loop rnd block ckpt_size l (b1 @ r) =
      wt_ret (fold_result (read_add rnd block) (exts el) l) (\<lambda>l. extlist_read_loop rnd block ckpt_size l r)"
    "\<And>l r. extlist_read_loop rnd block ckpt_size l (b2 @ r) =
      wt_ret (fold_result (read_add rnd block) (more_exts additional) l) (\<lambda>l. extlist_read_loop rnd block ckpt_size l r)"
    using write_exts_read [OF _ ok, of "exts el" rnd] write_exts_read [OF _ ok, of "more_exts additional" rnd] assms(3)
    by auto
  let ?v = "if blk_final_ckpt block then WT_BLOCK_EXTLIST_VERSION_CKPT else 0"
  have v: "0 \<le> ?v" "?v \<le> INT64_MAX" "0 \<le> WT_BLOCK_EXTLIST_MAGIC" "WT_BLOCK_EXTLIST_MAGIC \<le> INT64_MAX"
    "(0 :: int) \<le> INT64_MAX"
    by (simp_all add: WT_BLOCK_EXTLIST_MAGIC_def WT_BLOCK_EXTLIST_VERSION_CKPT_def INT64_MAX_def)
  obtain m s where ms: "wt_extlist_write_pair WT_BLOCK_EXTLIST_MAGIC 0 = Inr m" "wt_extlist_write_pair 0 ?v = Inr s"
    "\<And>r. wt_extlist_read_pair (m @ r) = Inr ((WT_BLOCK_EXTLIST_MAGIC, 0), r)"
    "\<And>r. wt_extlist_read_pair (s @ r) = Inr ((0, ?v), r)"
    using pair_roundtrip [OF v(3,4) order.refl v(5)] pair_roundtrip [OF order.refl v(5) v(1,2)] by blast
  have "(case additional of None \<Rightarrow> Inr [] | Some al \<Rightarrow> write_exts (el_offs al ! 0)) = Inr b2"
    using b(2) by (cases additional) (simp_all add: exts_def)
  then have data: "extlist_image block el additional = Inr (m @ b1 @ b2 @ s)"
    using b(1) ms(1,2) by (simp add: extlist_image_def exts_def)
  have stop: "extlist_read_loop rnd block ckpt_size l (s @ r) = Inr l" for l r
    by (subst extlist_read_loop.simps) (simp add: ms(4) Let_def)
  have "ext_list_ok (exts el)" "ext_list_ok (more_exts additional)" "cover (exts el) \<inter> cover (more_exts additional) = {}"
    using assms(1,2) list_okD by (auto simp: more_exts_def el_cover_def split: option.splits)
  from read_back_all [OF assms(6,7,9) this, of rnd block] obtain el1 el' where
    "fold_result (read_add rnd block) (exts el) el0 = Inr el1" "fold_result (read_add rnd block) (more_exts additional) el1 = Inr el'"
    "list_ok el'" "el_cover el' = cover (exts el) \<union> cover (more_exts additional)"
    by (auto simp: wt_ret_Inr_iff)
  then have "wt_block_extlist_read rnd read_off block el0 ckpt_size = Inr el' \<and> list_ok el' \<and>
      el_cover el' = el_cover el \<union> cover (more_exts additional)"
    if "read_off (el_objectid el0) (el_offset el0) (el_size el0) (el_checksum el0) = Inr ((m @ b1 @ b2 @ s) @ pad)" for read_off pad
    using that assms(8) by (simp add: wt_block_extlist_read_def b(3,4) ms(3) stop el_cover_def)
  then show ?thesis using data by blast
qed

subsection \<open>Truncation\<close>

text \<open>
  C32: truncating the file gives back to the file system exactly the free space at its end: the new
  size is where the last extent of the list started if that extent reached the end of the file, the
  list keeps every other byte, and nothing happens otherwise.
\<close>

theorem extlist_truncate_tail:
  assumes "list_ok el" and "el_cover el \<subseteq> {..<blk_size block}"
    and "ftruncate = Inr () \<or> ftruncate = Inl EBUSY \<or> ftruncate = Inl ENOTSUP"
  shows "\<exists>block' el'. wt_block_extlist_truncate ftruncate hot_backup block el = Inr (block', el') \<and> list_ok el' \<and>
    blk_size block' \<le> blk_size block \<and> {blk_size block'..<blk_size block} \<subseteq> el_cover el \<and>
    el_cover el' = el_cover el - {blk_size block'..<blk_size block} \<and> blk_size block' - 1 \<notin> el_cover el'"
proof (cases "last_opt (exts el)")
  case None
  then show ?thesis using assms(1)
    by (auto simp: wt_block_extlist_truncate_def block_off_srch_last_def el_okD(7) [OF list_okD(1)] el_cover_def)
next
  case (Some x)
  then obtain bs where bs: "exts el = bs @ [x]" by (auto simp: last_opt_Some)
  note ok = list_okD [OF assms(1)]
  have srch: "snd (block_off_srch_last el False) = Some x"
    using el_okD(7) [OF ok(1)] Some by (simp add: block_off_srch_last_def)
  have pos: "0 < e_size x" and before: "\<And>y. y \<in> set bs \<Longrightarrow> ext_end y < e_off x"
    using ok(2,3) bs by auto
  have cov: "el_cover el = cover bs \<union> {e_off x..<ext_end x}"
    by (auto simp: el_cover_def bs ext_end_def)
  have below: "i + 1 < e_off x" if "i \<in> cover bs" for i
    using that before by (force simp: in_cover)
  show ?thesis
  proof (cases "ext_end x < blk_size block")
    case True
    then have "blk_size block - 1 \<notin> el_cover el" using below [of "blk_size block - 1"] pos by (auto simp: cov ext_end_def)
    then show ?thesis using True srch assms(1) by (auto simp: wt_block_extlist_truncate_def)
  next
    case False
    have "ext_end x - 1 \<in> el_cover el" using pos by (simp add: cov ext_end_def)
    then have e: "ext_end x = blk_size block" using assms(2) False by auto
    obtain el' where el': "block_off_remove block el (e_off x) = Inr (x, el')" "el_ok el'" "exts el' = bs"
      using block_off_remove_ok [OF ok(1), of bs x "[]" block] bs by auto
    have "wt_block_truncate ftruncate hot_backup block (e_off x) = Inr (block\<lparr>blk_size := e_off x\<rparr>)"
      using assms(3) by (auto simp: wt_block_truncate_def Let_def)
    then have "wt_block_extlist_truncate ftruncate hot_backup block el = Inr (block\<lparr>blk_size := e_off x\<rparr>, el')"
      using False srch el'(1) by (simp add: wt_block_extlist_truncate_def)
    moreover have "list_ok el'" using el'(2,3) ok(2) bs by (simp add: list_ok_def)
    moreover have "el_cover el' = cover bs" by (simp add: el_cover_def el'(3))
    then have "el_cover el' = el_cover el - {e_off x..<blk_size block}" "e_off x - 1 \<notin> el_cover el'"
      using below [of "e_off x - 1"] below unfolding cov e by fastforce+
    ultimately show ?thesis using e pos by (auto simp: cov ext_end_def)
  qed
qed

subsection \<open>Properties of merging and reconciling\<close>

text \<open>A list built by appending ranges, for examples.\<close>

definition ranges_list :: "(int \<times> int) list \<Rightarrow> extlist" where
  "ranges_list rs = fold (\<lambda>(off, sz) el. block_append (\<lambda>_ _. - 1) el off sz) rs (wt_block_extlist_init False)"

lemma ranges_list_snoc:
  assumes "list_ok (ranges_list rs)" and "0 < sz" and "\<forall>i\<in>el_cover (ranges_list rs). i < off"
  shows "list_ok (ranges_list (rs @ [(off, sz)]))"
    and "el_cover (ranges_list (rs @ [(off, sz)])) = el_cover (ranges_list rs) \<union> byte_range off sz"
proof -
  have tr: "\<not> el_track_size (ranges_list rs)"
  proof (induction rs rule: rev_induct)
    case (snoc r rs)
    have "el_track_size (block_append d el off sz) = el_track_size el" for d el off sz
      by (simp add: block_append_def Let_def grow_ext_def split: option.splits prod.splits)
    then show ?case using snoc by (simp add: ranges_list_def split: prod.splits)
  qed (simp add: ranges_list_def)
  have "ext_end x \<le> off" if "x \<in> set (exts (ranges_list rs))" for x
  proof -
    have "ext_end x - 1 \<in> el_cover (ranges_list rs)"
      using that ext_list_ok_pos [OF list_okD(3) [OF assms(1)] that] by (force simp: el_cover_def in_cover)
    then show ?thesis using assms(3) by force
  qed
  then have "merged (ranges_list rs) (ranges_list (rs @ [(off, sz)])) off sz"
    using block_append_merged [OF list_okD(1) [OF assms(1)] tr assms(2)] by (simp add: ranges_list_def)
  then show "list_ok (ranges_list (rs @ [(off, sz)]))"
    "el_cover (ranges_list (rs @ [(off, sz)])) = el_cover (ranges_list rs) \<union> byte_range off sz"
    using list_okD(2) [OF assms(1)] by (auto simp: merged_def list_ok_def el_cover_def)
qed

lemma ranges_list_one:
  assumes "0 < sz"
  shows "list_ok (ranges_list [(off, sz)])" and "el_cover (ranges_list [(off, sz)]) = {off..<off + sz}"
  using ranges_list_snoc [of "[]" sz off] assms by (simp_all add: ranges_list_def byte_range_def)

lemma ranges_list_two:
  assumes "0 < sz" and "0 < sz'" and "off + sz \<le> off'"
  shows "list_ok (ranges_list [(off, sz), (off', sz')])"
    and "el_cover (ranges_list [(off, sz), (off', sz')]) = {off..<off + sz} \<union> {off'..<off' + sz'}"
  using ranges_list_snoc [of "[(off, sz)]" sz' off'] ranges_list_one [OF assms(1), of off] assms
  by (simp_all add: byte_range_def)

text \<open>
  C22: reconciling the overlap of a checkpoint's allocation and discard lists, space that was both
  allocated and freed since: the walk ends, and it moves exactly the bytes the two lists share to the
  live system's list of space the next checkpoint frees, leaving each list the rest.
\<close>

theorem extlist_overlap_reconciled:
  assumes "list_ok (live_ckpt_avail block)" and "list_ok (alloc_list ci)" and "list_ok (discard_list ci)"
    and "el_cover (live_ckpt_avail block) \<inter> (el_cover (alloc_list ci) \<inter> el_cover (discard_list ci)) = {}"
  shows "\<exists>block' ci'. wt_block_extlist_overlap rnd block ci = Some (Inr (block', ci')) \<and>
    list_ok (live_ckpt_avail block') \<and> list_ok (alloc_list ci') \<and> list_ok (discard_list ci') \<and>
    el_cover (alloc_list ci') = el_cover (alloc_list ci) - el_cover (discard_list ci) \<and>
    el_cover (discard_list ci') = el_cover (discard_list ci) - el_cover (alloc_list ci) \<and>
    el_cover (live_ckpt_avail block') =
      el_cover (live_ckpt_avail block) \<union> (el_cover (alloc_list ci) \<inter> el_cover (discard_list ci)) \<and>
    live_alloc block' = live_alloc block \<and> live_avail block' = live_avail block"
proof -
  have "reconciled_lists (live_ckpt_avail block) (alloc_list ci) (discard_list ci)
      (extlist_overlap_loop rnd block (live_ckpt_avail block) (alloc_list ci) (hd_opt (exts (alloc_list ci)))
        (discard_list ci) (hd_opt (exts (discard_list ci))))"
    by (rule extlist_overlap_loop_ok [OF assms(1-3), of "[]" _ "[]"]) (simp_all add: assms(4))
  then show ?thesis
    by (auto simp: reconciled_lists_def wt_block_extlist_overlap_def exts_def set_ckpt_avail_def)
qed

theorem extlist_overlap_reconciled_witness:
  "\<exists>block' ci'. wt_block_extlist_overlap (\<lambda>_ _. - 1) new_block
      (wt_block_ckpt_init\<lparr>alloc_list := ranges_list [(4096, 8192)], discard_list := ranges_list [(8192, 8192)]\<rparr>) =
        Some (Inr (block', ci')) \<and>
    el_cover (alloc_list ci') = {4096..<8192} \<and> el_cover (discard_list ci') = {12288..<16384} \<and>
    el_cover (live_ckpt_avail block') = {8192..<12288}"
proof -
  let ?ci = "wt_block_ckpt_init\<lparr>alloc_list := ranges_list [(4096, 8192)], discard_list := ranges_list [(8192, 8192)]\<rparr>"
  have pre: "list_ok (live_ckpt_avail new_block)" "list_ok (alloc_list ?ci)" "list_ok (discard_list ?ci)"
    "el_cover (live_ckpt_avail new_block) \<inter> (el_cover (alloc_list ?ci) \<inter> el_cover (discard_list ?ci)) = {}"
    by (simp_all add: ranges_list_one)
  obtain block' ci' where r: "wt_block_extlist_overlap (\<lambda>_ _. - 1) new_block ?ci = Some (Inr (block', ci'))"
    "el_cover (alloc_list ci') = el_cover (alloc_list ?ci) - el_cover (discard_list ?ci)"
    "el_cover (discard_list ci') = el_cover (discard_list ?ci) - el_cover (alloc_list ?ci)"
    "el_cover (live_ckpt_avail block') =
      el_cover (live_ckpt_avail new_block) \<union> (el_cover (alloc_list ?ci) \<inter> el_cover (discard_list ?ci))"
    using extlist_overlap_reconciled [OF pre, of "\<lambda>_ _. - 1"] by blast
  have "el_cover (alloc_list ci') = {4096..<8192}" "el_cover (discard_list ci') = {12288..<16384}"
    "el_cover (live_ckpt_avail block') = {8192..<12288}"
    unfolding r(2-4) by (auto simp: ranges_list_one)
  then show ?thesis using r(1) by blast
qed

text \<open>
  C31: merging the list \<open>a\<close> into \<open>b\<close>, whichever of the two the code walks, leaves in \<open>b\<close> the bytes of
  both, well-formed but for the cached last extent, which the swap of the two lists does not carry over.
\<close>

theorem extlist_merge_union:
  assumes "list_ok a" and "list_ok b" and "el_cover a \<inter> el_cover b = {}"
  shows "\<exists>a' b'. wt_block_extlist_merge rnd block a b = Inr (a', b') \<and> list_ok (fix_last b') \<and>
    el_cover b' = el_cover a \<union> el_cover b \<and> el_meta b' = el_meta b"
  by (rule extlist_merge_ok [OF assms])

theorem extlist_merge_union_witness:
  "\<exists>a' b'. wt_block_extlist_merge (\<lambda>_ _. - 1) new_block (ranges_list [(4096, 8192), (20480, 4096)])
      (ranges_list [(12288, 4096)]) = Inr (a', b') \<and> el_cover b' = {4096..<16384} \<union> {20480..<24576}"
proof -
  have "({4096..<12288} \<union> {20480..<24576}) \<inter> {12288..<16384} = ({} :: int set)"
    "({4096..<12288} \<union> {20480..<24576}) \<union> {12288..<16384} = {4096..<16384} \<union> {20480..<24576 :: int}" by auto
  then show ?thesis
    using extlist_merge_union [of "ranges_list [(4096, 8192), (20480, 4096)]" "ranges_list [(12288, 4096)]" "\<lambda>_ _. - 1" new_block]
    by (auto simp: ranges_list_one ranges_list_two)
qed

text \<open>The stale last extent: the list that received the larger list's extents still names its old one.\<close>

lemma extlist_merge_stale_last:
  "\<exists>a' b'. wt_block_extlist_merge (\<lambda>_ _. - 1) new_block (ranges_list [(16384, 4096), (40960, 4096)])
      (ranges_list [(8192, 4096)]) = Inr (a', b') \<and>
    map_option e_off (el_last b') = Some 8192 \<and> map_option e_off (last_opt (exts b')) = Some 40960"
proof -
  have "(case wt_block_extlist_merge (\<lambda>_ _. - 1) new_block (ranges_list [(16384, 4096), (40960, 4096)])
      (ranges_list [(8192, 4096)]) of Inr (a', b') \<Rightarrow>
    map_option e_off (el_last b') = Some 8192 \<and> map_option e_off (last_opt (exts b')) = Some 40960 | Inl _ \<Rightarrow> False)"
    by code_simp
  then show ?thesis by (auto split: sum.splits prod.splits)
qed

text \<open>A pair whose range is empty passes the reader's checks.\<close>

lemma read_accepts_empty:
  "\<exists>el. extlist_read_loop (\<lambda>_ _. - 1) new_block 65536 (wt_block_extlist_init True)
      [0xcf, 0xc0, 0x80, 0x80, 0x80] = Inr el \<and> map e_size (exts el) = [0]"
proof -
  have "(case extlist_read_loop (\<lambda>_ _. - 1) new_block 65536 (wt_block_extlist_init True)
      [0xcf, 0xc0, 0x80, 0x80, 0x80] of Inr el \<Rightarrow> map e_size (exts el) = [0] | Inl _ \<Rightarrow> False)"
    by code_simp
  then show ?thesis by (auto split: sum.splits)
qed

theorem extlist_roundtrip_witness:
  "\<exists>data el'. extlist_image new_block (ranges_list [(4096, 8192)]) None = Inr data \<and>
    wt_block_extlist_read (\<lambda>_ _. - 1) (\<lambda>_ _ _ _. Inr (data @ [0, 0])) new_block
      ((wt_block_extlist_init False)\<lparr>el_offset := 12288, el_size := 4096\<rparr>) 65536 = Inr el' \<and>
    el_cover el' = {4096..<12288}"
proof -
  let ?e0 = "(wt_block_extlist_init False)\<lparr>el_offset := 12288, el_size := 4096\<rparr>"
  have e0: "exts ?e0 = []" "list_ok ?e0"
    using init_list_ok(1) [of False] by (simp_all add: list_ok_def el_ok_def exts_def wt_block_extlist_init_def towers_Nil)
  have "map (\<lambda>x. (e_off x, e_size x)) (exts (ranges_list [(4096, 8192)])) = [(4096, 8192)]" by code_simp
  then have "\<forall>x\<in>set (exts (ranges_list [(4096, 8192)]) @ more_exts None). ext_readable new_block 65536 x"
    by (auto simp: ext_readable_def ext_end_def)
  from extlist_roundtrip [OF ranges_list_one(1) _ this _ _ e0(2,1), of "\<lambda>_ _. - 1"] obtain data where
    "extlist_image new_block (ranges_list [(4096, 8192)]) None = Inr data"
    "\<And>pad read_off. read_off 0 12288 4096 0 = Inr (data @ pad) \<Longrightarrow>
      \<exists>el'. wt_block_extlist_read (\<lambda>_ _. - 1) read_off new_block ?e0 65536 = Inr el' \<and> list_ok el' \<and>
        el_cover el' = el_cover (ranges_list [(4096, 8192)])"
    by (auto simp: wt_block_extlist_init_def INT64_MAX_def)
  from this(1) this(2) [of "\<lambda>_ _ _ _. Inr (data @ [0, 0])" "[0, 0]"] show ?thesis
    by (auto simp: ranges_list_one)
qed

theorem extlist_truncate_tail_witness:
  "\<exists>block' el'. wt_block_extlist_truncate (Inl EBUSY) False (new_block\<lparr>blk_size := 12288\<rparr>)
      (ranges_list [(4096, 8192)]) = Inr (block', el') \<and> blk_size block' \<le> 12288"
proof -
  have "el_cover (ranges_list [(4096, 8192)]) \<subseteq> {..<blk_size (new_block\<lparr>blk_size := 12288\<rparr>)}"
    by (auto simp: ranges_list_one)
  from extlist_truncate_tail [OF ranges_list_one(1) this, of "Inl EBUSY" False] show ?thesis by auto
qed

end
