(* ===== verification/BlockSession.thy ===== *)
theory BlockSession
  imports ExtList
begin

text \<open>
  The structures a session keeps for the extent lists, \<open>src/block/block_session.c\<close>: free lists of
  \<open>WT_EXT\<close> and \<open>WT_SIZE\<close> structures with advisory counts. A cached structure keeps its stale contents;
  the pointers a structure holds are those of the list it is on. Memory allocation does not fail.
\<close>

record block_mgr_session =
  ext_cache :: "ext list"
  ext_cache_cnt :: u32
  sz_cache :: "wt_size list"
  sz_cache_cnt :: u32

text \<open>\<open>session->block_manager\<close>: allocated by the first preallocation.\<close>

type_synonym bm_session = "block_mgr_session option"

subsection \<open>Loops shared by the two caches\<close>

text \<open>\<open>for (; cnt < max; ++cnt)\<close> push a new structure; \<open>new cnt\<close> is the structure allocated.\<close>

function cache_fill :: "(u32 \<Rightarrow> 'x) \<Rightarrow> u32 \<Rightarrow> u32 \<Rightarrow> 'x list \<Rightarrow> u32 \<times> 'x list" where
  "cache_fill new mx cnt c = (if cnt < mx then cache_fill new mx (cnt + 1) (new cnt # c) else (cnt, c))"
  by pat_completeness auto
termination
  by (relation "measure (\<lambda>(_, mx, cnt, _). unat mx - unat cnt)")
    (auto simp: unat_inc word_less_nat_alt)

declare cache_fill.simps [simp del]

text \<open>Free structures until the cache is empty or, with a maximum, the count has come down to it.\<close>

fun cache_drop :: "u32 \<Rightarrow> u32 \<Rightarrow> 'x list \<Rightarrow> u32 \<times> 'x list" where
  "cache_drop mx cnt [] = (cnt, [])"
| "cache_drop mx cnt (x # c) =
     (let cnt = cnt - 1 in if mx \<noteq> 0 \<and> cnt \<le> mx then (cnt, c) else cache_drop mx cnt c)"

subsection \<open>Extent structures\<close>

definition block_ext_alloc :: "(nat \<Rightarrow> u32) \<Rightarrow> ext" where
  "block_ext_alloc draw = \<lparr>e_off = 0, e_size = 0, e_depth = wt_skip_choose_depth draw\<rparr>"

definition wt_block_ext_alloc_cached :: "(nat \<Rightarrow> u32) \<Rightarrow> bm_session \<Rightarrow> ext \<times> bm_session" where
  "wt_block_ext_alloc_cached draw s =
     (case s of
        Some bms \<Rightarrow>
          (case ext_cache bms of
             x # c \<Rightarrow> (x, Some (bms\<lparr>ext_cache := c,
               ext_cache_cnt := (if ext_cache_cnt bms > 0 then ext_cache_cnt bms - 1 else ext_cache_cnt bms)\<rparr>))
           | [] \<Rightarrow> (block_ext_alloc draw, s))
      | None \<Rightarrow> (block_ext_alloc draw, s))"

definition block_ext_prealloc :: "(u32 \<Rightarrow> nat \<Rightarrow> u32) \<Rightarrow> u32 \<Rightarrow> block_mgr_session \<Rightarrow> block_mgr_session" where
  "block_ext_prealloc draws mx bms =
     (case cache_fill (\<lambda>i. block_ext_alloc (draws i)) mx (ext_cache_cnt bms) (ext_cache bms) of
        (cnt, c) \<Rightarrow> bms\<lparr>ext_cache := c, ext_cache_cnt := cnt\<rparr>)"

definition wt_block_ext_free :: "ext \<Rightarrow> bm_session \<Rightarrow> bm_session" where
  "wt_block_ext_free x s =
     (case s of None \<Rightarrow> None
      | Some bms \<Rightarrow> Some (bms\<lparr>ext_cache := x # ext_cache bms, ext_cache_cnt := ext_cache_cnt bms + 1\<rparr>))"

text \<open>The result with the session, which has changed even when the answer is an error.\<close>

definition block_ext_discard :: "u32 \<Rightarrow> block_mgr_session \<Rightarrow> unit result \<times> block_mgr_session" where
  "block_ext_discard mx bms =
     (if mx \<noteq> 0 \<and> ext_cache_cnt bms \<le> mx then (Inr (), bms)
      else case cache_drop mx (ext_cache_cnt bms) (ext_cache bms) of
        (cnt, c) \<Rightarrow> (if mx = 0 \<and> cnt \<noteq> 0 then Inl WT_ERROR else Inr (),
          bms\<lparr>ext_cache := c, ext_cache_cnt := cnt\<rparr>))"

subsection \<open>Size structures\<close>

definition block_size_alloc :: wt_size where
  "block_size_alloc = \<lparr>s_size = 0, s_depth = 0, s_off = replicate WT_SKIP_MAXDEPTH []\<rparr>"

definition wt_block_size_alloc :: "bm_session \<Rightarrow> wt_size \<times> bm_session" where
  "wt_block_size_alloc s =
     (case s of
        Some bms \<Rightarrow>
          (case sz_cache bms of
             x # c \<Rightarrow> (x, Some (bms\<lparr>sz_cache := c,
               sz_cache_cnt := (if sz_cache_cnt bms > 0 then sz_cache_cnt bms - 1 else sz_cache_cnt bms)\<rparr>))
           | [] \<Rightarrow> (block_size_alloc, s))
      | None \<Rightarrow> (block_size_alloc, s))"

definition block_size_prealloc :: "u32 \<Rightarrow> block_mgr_session \<Rightarrow> block_mgr_session" where
  "block_size_prealloc mx bms =
     (case cache_fill (\<lambda>_. block_size_alloc) mx (sz_cache_cnt bms) (sz_cache bms) of
        (cnt, c) \<Rightarrow> bms\<lparr>sz_cache := c, sz_cache_cnt := cnt\<rparr>)"

definition wt_block_size_free :: "wt_size \<Rightarrow> bm_session \<Rightarrow> bm_session" where
  "wt_block_size_free x s =
     (case s of None \<Rightarrow> None
      | Some bms \<Rightarrow> Some (bms\<lparr>sz_cache := x # sz_cache bms, sz_cache_cnt := sz_cache_cnt bms + 1\<rparr>))"

definition block_size_discard :: "u32 \<Rightarrow> block_mgr_session \<Rightarrow> unit result \<times> block_mgr_session" where
  "block_size_discard mx bms =
     (if mx \<noteq> 0 \<and> sz_cache_cnt bms \<le> mx then (Inr (), bms)
      else case cache_drop mx (sz_cache_cnt bms) (sz_cache bms) of
        (cnt, c) \<Rightarrow> (if mx = 0 \<and> cnt \<noteq> 0 then Inl WT_ERROR else Inr (),
          bms\<lparr>sz_cache := c, sz_cache_cnt := cnt\<rparr>))"

subsection \<open>The session's calls\<close>

definition wt_block_ext_prealloc :: "(u32 \<Rightarrow> nat \<Rightarrow> u32) \<Rightarrow> u32 \<Rightarrow> bm_session \<Rightarrow> bm_session" where
  "wt_block_ext_prealloc draws mx s =
     (let bms = (case s of None \<Rightarrow> \<lparr>ext_cache = [], ext_cache_cnt = 0, sz_cache = [], sz_cache_cnt = 0\<rparr>
                 | Some bms \<Rightarrow> bms)
      in Some (block_size_prealloc mx (block_ext_prealloc draws mx bms)))"

definition wt_block_ext_discard :: "u32 \<Rightarrow> block_mgr_session \<Rightarrow> unit result \<times> block_mgr_session" where
  "wt_block_ext_discard mx bms =
     (case block_ext_discard mx bms of
        (Inl e, bms) \<Rightarrow> (Inl e, bms)
      | (Inr _, bms) \<Rightarrow> block_size_discard mx bms)"

text \<open>\<open>WT_TRET\<close> keeps the first error and goes on.\<close>

definition block_manager_session_cleanup :: "bm_session \<Rightarrow> unit result \<times> bm_session" where
  "block_manager_session_cleanup s =
     (case s of None \<Rightarrow> (Inr (), None)
      | Some bms \<Rightarrow>
        (case block_ext_discard 0 bms of (r1, bms) \<Rightarrow>
         case block_size_discard 0 bms of (r2, bms) \<Rightarrow>
           (case r1 of Inl e \<Rightarrow> Inl e | Inr _ \<Rightarrow> r2, None)))"

subsection \<open>The counts\<close>

definition counts :: "u32 \<Rightarrow> 'x list \<Rightarrow> bool" where
  "counts cnt c \<longleftrightarrow> unat cnt = length c"

lemma counts_simps:
  "counts 0 []"
  "counts cnt (x # c) \<Longrightarrow> 0 < cnt"
  "counts cnt (x # c) \<Longrightarrow> counts (cnt - 1) c"
proof -
  show "counts 0 []" by (simp add: counts_def)
  show p: "counts cnt (x # c) \<Longrightarrow> 0 < cnt" by (auto simp: counts_def word_greater_zero_iff)
  assume "counts cnt (x # c)"
  then show "counts (cnt - 1) c"
    using p unat_dec [of cnt] by (auto simp: counts_def word_greater_zero_iff)
qed

lemma counts_Cons: "counts cnt c \<Longrightarrow> length c + 1 < 2 ^ 32 \<Longrightarrow> counts (cnt + 1) (x # c)"
  by (simp add: counts_def unat_inc_room)

lemma cache_fill_ok:
  "counts cnt c \<Longrightarrow> \<exists>cnt' c'. cache_fill new mx cnt c = (cnt', c') \<and> counts cnt' c' \<and>
    length c' = max (length c) (unat mx) \<and> set c' \<subseteq> set c \<union> range new"
proof (induction new mx cnt c rule: cache_fill.induct)
  case (1 new mx cnt c)
  have u: "unat cnt = length c" using 1(2) by (simp add: counts_def)
  show ?case
  proof (cases "cnt < mx")
    case True
    have len: "length c < unat mx" using True u by (simp add: word_less_nat_alt)
    have "counts (cnt + 1) (new cnt # c)" using True u by (simp add: counts_def unat_inc)
    from 1(1) [OF True this] len True show ?thesis by (subst cache_fill.simps) auto
  next
    case False
    then show ?thesis using 1(2) u by (subst cache_fill.simps) (auto simp: word_less_nat_alt)
  qed
qed

lemma cache_drop_ok:
  "counts cnt c \<Longrightarrow> unat mx < length c \<or> mx = 0 \<Longrightarrow>
    \<exists>cnt' c'. cache_drop mx cnt c = (cnt', c') \<and> counts cnt' c' \<and> length c' = unat mx \<and> set c' \<subseteq> set c"
proof (induction c arbitrary: cnt)
  case (Cons x c)
  note c = counts_simps(3) [OF Cons.prems(1)]
  have le: "cnt - 1 \<le> mx \<longleftrightarrow> length c \<le> unat mx" using c by (simp add: word_le_nat_alt counts_def)
  show ?case
  proof (cases "mx \<noteq> 0 \<and> cnt - 1 \<le> mx")
    case True
    then show ?thesis using c Cons.prems(2) le by auto
  next
    case False
    then have "unat mx < length c \<or> mx = 0" using le by auto
    from Cons.IH [OF c this] False show ?thesis by (auto simp: Let_def)
  qed
qed auto

definition session_ok :: "block_mgr_session \<Rightarrow> bool" where
  "session_ok bms \<longleftrightarrow> counts (ext_cache_cnt bms) (ext_cache bms) \<and> counts (sz_cache_cnt bms) (sz_cache bms) \<and>
     dep_ok e_depth (ext_cache bms)"

lemma block_ext_alloc_depth [simp]:
  "1 \<le> e_depth (block_ext_alloc draw)" "e_depth (block_ext_alloc draw) \<le> WT_SKIP_MAXDEPTH"
  using wt_skip_choose_depth_bounds [of draw] by (simp_all add: block_ext_alloc_def)

lemma block_ext_prealloc_ok:
  assumes "session_ok bms"
  shows "session_ok (block_ext_prealloc draws mx bms)"
    and "length (ext_cache (block_ext_prealloc draws mx bms)) = max (length (ext_cache bms)) (unat mx)"
    and "sz_cache (block_ext_prealloc draws mx bms) = sz_cache bms"
proof -
  obtain cnt c where f: "cache_fill (\<lambda>i. block_ext_alloc (draws i)) mx (ext_cache_cnt bms) (ext_cache bms) = (cnt, c)"
    "counts cnt c" "length c = max (length (ext_cache bms)) (unat mx)"
    "set c \<subseteq> set (ext_cache bms) \<union> range (\<lambda>i. block_ext_alloc (draws i))"
    using cache_fill_ok assms unfolding session_ok_def by blast
  have "dep_ok e_depth c"
    unfolding dep_ok_def
  proof
    fix x assume "x \<in> set c"
    then have "x \<in> set (ext_cache bms) \<or> (\<exists>i. x = block_ext_alloc (draws i))" using f(4) by auto
    then show "1 \<le> e_depth x \<and> e_depth x \<le> WT_SKIP_MAXDEPTH"
      using assms block_ext_alloc_depth by (auto simp: session_ok_def dep_ok_def simp del: One_nat_def)
  qed
  then show "session_ok (block_ext_prealloc draws mx bms)"
    "length (ext_cache (block_ext_prealloc draws mx bms)) = max (length (ext_cache bms)) (unat mx)"
    "sz_cache (block_ext_prealloc draws mx bms) = sz_cache bms"
    using f assms by (simp_all add: block_ext_prealloc_def session_ok_def)
qed

lemma block_size_prealloc_ok:
  assumes "session_ok bms"
  shows "session_ok (block_size_prealloc mx bms)"
    and "length (sz_cache (block_size_prealloc mx bms)) = max (length (sz_cache bms)) (unat mx)"
    and "ext_cache (block_size_prealloc mx bms) = ext_cache bms"
proof -
  obtain cnt c where f: "cache_fill (\<lambda>_. block_size_alloc) mx (sz_cache_cnt bms) (sz_cache bms) = (cnt, c)"
    "counts cnt c" "length c = max (length (sz_cache bms)) (unat mx)"
    using cache_fill_ok assms unfolding session_ok_def by blast
  then show "session_ok (block_size_prealloc mx bms)"
    "length (sz_cache (block_size_prealloc mx bms)) = max (length (sz_cache bms)) (unat mx)"
    "ext_cache (block_size_prealloc mx bms) = ext_cache bms"
    using assms by (simp_all add: block_size_prealloc_def session_ok_def)
qed

text \<open>What is left after a discard.\<close>

definition kept :: "u32 \<Rightarrow> 'x list \<Rightarrow> nat" where
  "kept mx c = (if mx = 0 then 0 else min (length c) (unat mx))"

lemma block_ext_discard_ok:
  assumes ok: "session_ok bms"
  shows "\<exists>bms'. block_ext_discard mx bms = (Inr (), bms') \<and> session_ok bms' \<and>
    length (ext_cache bms') = kept mx (ext_cache bms) \<and> sz_cache bms' = sz_cache bms"
proof (cases "mx \<noteq> 0 \<and> ext_cache_cnt bms \<le> mx")
  case True
  then show ?thesis using ok by (auto simp: block_ext_discard_def kept_def session_ok_def counts_def word_le_nat_alt)
next
  case False
  have c: "counts (ext_cache_cnt bms) (ext_cache bms)" using ok by (simp add: session_ok_def)
  then have "unat mx < length (ext_cache bms) \<or> mx = 0"
    using False by (auto simp: word_le_nat_alt counts_def)
  from cache_drop_ok [OF c this] obtain cnt' c' where d: "cache_drop mx (ext_cache_cnt bms) (ext_cache bms) = (cnt', c')"
    "counts cnt' c'" "length c' = unat mx" "set c' \<subseteq> set (ext_cache bms)" by blast
  have "mx = 0 \<Longrightarrow> cnt' = 0" using d(2,3) by (simp add: counts_def unsigned_eq_0_iff)
  moreover have "kept mx (ext_cache bms) = unat mx"
    using False c by (auto simp: kept_def word_le_nat_alt counts_def)
  moreover have "dep_ok e_depth c'" using ok d(4) by (auto simp: session_ok_def intro: dep_ok_mono)
  ultimately show ?thesis
    using False d ok by (auto simp: block_ext_discard_def session_ok_def)
qed

lemma block_size_discard_ok:
  assumes ok: "session_ok bms"
  shows "\<exists>bms'. block_size_discard mx bms = (Inr (), bms') \<and> session_ok bms' \<and>
    length (sz_cache bms') = kept mx (sz_cache bms) \<and> ext_cache bms' = ext_cache bms"
proof (cases "mx \<noteq> 0 \<and> sz_cache_cnt bms \<le> mx")
  case True
  then show ?thesis using ok by (auto simp: block_size_discard_def kept_def session_ok_def counts_def word_le_nat_alt)
next
  case False
  have c: "counts (sz_cache_cnt bms) (sz_cache bms)" using ok by (simp add: session_ok_def)
  then have "unat mx < length (sz_cache bms) \<or> mx = 0"
    using False by (auto simp: word_le_nat_alt counts_def)
  from cache_drop_ok [OF c this] obtain cnt' c' where d: "cache_drop mx (sz_cache_cnt bms) (sz_cache bms) = (cnt', c')"
    "counts cnt' c'" "length c' = unat mx" by blast
  have "mx = 0 \<Longrightarrow> cnt' = 0" using d(2,3) by (simp add: counts_def unsigned_eq_0_iff)
  moreover have "kept mx (sz_cache bms) = unat mx"
    using False c by (auto simp: kept_def word_le_nat_alt counts_def)
  ultimately show ?thesis
    using False d ok by (auto simp: block_size_discard_def session_ok_def)
qed

subsection \<open>Properties\<close>



end
