(* ===== verification/Txn.thy ===== *)
theory Txn
  imports Wt_Prelude
begin

text \<open>
  The transaction state, \<open>src/include/txn.h\<close>: a session's transaction, the part of it every session
  can read (an entry of the shared list), and the global state. \<open>cs\<close> is what a function called with a
  session sees: the connection and the session. A function that returns an error keeps the changes
  made before it, so its value is the return code paired with the new state.

  The read-write lock around the global state makes each section that holds it one step; the
  allocation of an ID, an atomic addition published through \<open>is_allocating\<close>, is one step as well.
  Statistics and messages are left out.
\<close>

subsection \<open>State\<close>

definition WT_TXN_NONE :: u64 where "WT_TXN_NONE = 0"
definition WT_TXN_FIRST :: u64 where "WT_TXN_FIRST = 1"
definition WT_TXN_ABORTED :: u64 where "WT_TXN_ABORTED = - 1"
definition WT_TS_NONE :: u64 where "WT_TS_NONE = 0"
definition WT_TS_MAX :: u64 where "WT_TS_MAX = - 1"

datatype wt_txn_isolation = WT_ISO_READ_COMMITTED | WT_ISO_READ_UNCOMMITTED | WT_ISO_SNAPSHOT

datatype txn_flag = WT_TXN_AUTOCOMMIT | WT_TXN_ERROR | WT_TXN_HAS_ID | WT_TXN_HAS_SNAPSHOT
  | WT_TXN_HAS_TS_COMMIT | WT_TXN_HAS_TS_DURABLE | WT_TXN_HAS_TS_PREPARE | WT_TXN_IGNORE_PREPARE
  | WT_TXN_IS_CHECKPOINT | WT_TXN_PREPARE | WT_TXN_PREPARE_IGNORE_API_CHECK | WT_TXN_READONLY
  | WT_TXN_RUNNING | WT_TXN_SHARED_TS_DURABLE | WT_TXN_SHARED_TS_READ | WT_TXN_SYNC_SET
  | WT_TXN_TS_NOT_SET | WT_TXN_TS_ROUND_PREPARED | WT_TXN_TS_ROUND_READ | WT_TXN_UPDATE

record wt_txn_shared =
  sh_id :: u64
  sh_pinned_id :: u64
  sh_metadata_pinned :: u64
  sh_pinned_durable :: u64
  sh_read_ts :: u64

text \<open>\<open>tg_shared\<close> holds the entries of the first \<open>session_cnt\<close> sessions.\<close>

record wt_txn_global =
  tg_current :: u64
  tg_last_running :: u64
  tg_oldest_id :: u64
  tg_metadata_pinned :: u64
  tg_durable_ts :: u64
  tg_last_ckpt_ts :: u64
  tg_oldest_ts :: u64
  tg_pinned_ts :: u64
  tg_recovery_ts :: u64
  tg_stable_ts :: u64
  tg_version_cursor_ts :: u64
  tg_has_durable :: bool
  tg_has_oldest :: bool
  tg_has_pinned :: bool
  tg_has_stable :: bool
  tg_oldest_is_pinned :: bool
  tg_stable_is_pinned :: bool
  tg_checkpoint_id :: nat
  tg_ckpt_shared :: wt_txn_shared
  tg_checkpoint_ts :: u64
  tg_shared :: "wt_txn_shared list"

record wt_txn =
  tx_id :: u64
  tx_isolation :: wt_txn_isolation
  tx_snap_min :: u64
  tx_snap_max :: u64
  tx_snapshot :: "u64 list"
  tx_commit_ts :: u64
  tx_durable_ts :: u64
  tx_first_commit_ts :: u64
  tx_prepare_ts :: u64
  tx_ckpt_read_ts :: u64
  tx_ckpt_oldest_ts :: u64
  tx_flags :: "txn_flag set"

text \<open>
  The connection's part: the global transaction state, the commit generation, and the flags and
  counts that visibility depends on. A session has an identifier, its slot in the shared list, its
  default isolation, its commit generation (0 when not set) and its transaction; \<open>s_metadata\<close> is
  whether it has the metadata tree open, \<open>s_logged\<close> whether its tree is logged, \<open>s_tree\<close> whether it
  has a tree at all, \<open>s_hs\<close> whether that is the history store.
\<close>

record wt_conn =
  c_global :: wt_txn_global
  c_commit_gen :: u64
  c_closing :: bool
  c_recovering :: bool
  c_recovery_snap_min :: u64
  c_version_cursors :: nat

record wt_session =
  s_id :: nat
  s_isolation :: wt_txn_isolation
  s_commit_gen :: u64
  s_tree :: bool
  s_metadata :: bool
  s_logged :: bool
  s_hs :: bool
  s_reading_checkpoint :: bool
  s_txn :: wt_txn

record cs =
  cs_conn :: wt_conn
  cs_ses :: wt_session

abbreviation glob :: "cs \<Rightarrow> wt_txn_global" where "glob s \<equiv> c_global (cs_conn s)"
abbreviation txn :: "cs \<Rightarrow> wt_txn" where "txn s \<equiv> s_txn (cs_ses s)"

definition upd_glob :: "(wt_txn_global \<Rightarrow> wt_txn_global) \<Rightarrow> cs \<Rightarrow> cs" where
  "upd_glob f s = s\<lparr>cs_conn := (cs_conn s)\<lparr>c_global := f (glob s)\<rparr>\<rparr>"

definition upd_txn :: "(wt_txn \<Rightarrow> wt_txn) \<Rightarrow> cs \<Rightarrow> cs" where
  "upd_txn f s = s\<lparr>cs_ses := (cs_ses s)\<lparr>s_txn := f (txn s)\<rparr>\<rparr>"

text \<open>\<open>WT_SESSION_TXN_SHARED\<close>\<close>

definition shared_of :: "cs \<Rightarrow> wt_txn_shared" where
  "shared_of s = tg_shared (glob s) ! s_id (cs_ses s)"

definition upd_shared :: "(wt_txn_shared \<Rightarrow> wt_txn_shared) \<Rightarrow> cs \<Rightarrow> cs" where
  "upd_shared f s = upd_glob (\<lambda>g. g\<lparr>tg_shared :=
     (tg_shared g)[s_id (cs_ses s) := f (tg_shared g ! s_id (cs_ses s))]\<rparr>) s"

definition F_ISSET :: "cs \<Rightarrow> txn_flag \<Rightarrow> bool" where
  "F_ISSET s f \<longleftrightarrow> f \<in> tx_flags (txn s)"

definition F_SET :: "txn_flag \<Rightarrow> cs \<Rightarrow> cs" where
  "F_SET f = upd_txn (\<lambda>t. t\<lparr>tx_flags := insert f (tx_flags t)\<rparr>)"

definition F_CLR :: "txn_flag \<Rightarrow> cs \<Rightarrow> cs" where
  "F_CLR f = upd_txn (\<lambda>t. t\<lparr>tx_flags := tx_flags t - {f}\<rparr>)"

lemmas txn_state_defs = upd_glob_def upd_txn_def shared_of_def upd_shared_def F_ISSET_def F_SET_def F_CLR_def

definition WT_SESSION_IS_CHECKPOINT :: "cs \<Rightarrow> bool" where
  "WT_SESSION_IS_CHECKPOINT s \<longleftrightarrow> s_id (cs_ses s) \<noteq> 0 \<and> s_id (cs_ses s) = tg_checkpoint_id (glob s)"

subsection \<open>Return codes with a state\<close>

type_synonym outcome = "unit result \<times> cs"

text \<open>\<open>WT_RET\<close> of a call that changes the state.\<close>

definition wt_seq :: "outcome \<Rightarrow> (cs \<Rightarrow> outcome) \<Rightarrow> outcome" where
  "wt_seq o1 k = (case o1 of (Inl e, s) \<Rightarrow> (Inl e, s) | (Inr _, s) \<Rightarrow> k s)"

lemma wt_seq_simps [simp]:
  "wt_seq (Inl e, s) k = (Inl e, s)"
  "wt_seq (Inr u, s) k = k s"
  by (simp_all add: wt_seq_def)

subsection \<open>Context checks\<close>

definition wt_txn_context_prepare_check :: "cs \<Rightarrow> unit result" where
  "wt_txn_context_prepare_check s =
     (if F_ISSET s WT_TXN_PREPARE_IGNORE_API_CHECK then Inr ()
      else if F_ISSET s WT_TXN_PREPARE then Inl EINVAL else Inr ())"

definition wt_txn_context_check :: "bool \<Rightarrow> cs \<Rightarrow> unit result" where
  "wt_txn_context_check requires_txn s =
     (if requires_txn \<and> \<not> F_ISSET s WT_TXN_RUNNING then Inl EINVAL
      else if \<not> requires_txn \<and> F_ISSET s WT_TXN_RUNNING then Inl EINVAL else Inr ())"

subsection \<open>A new connection\<close>

definition new_shared :: wt_txn_shared where
  "new_shared = \<lparr>sh_id = 0, sh_pinned_id = 0, sh_metadata_pinned = 0, sh_pinned_durable = 0, sh_read_ts = 0\<rparr>"

text \<open>\<open>__wt_txn_global_init\<close>, on memory that is zero.\<close>

definition wt_txn_global_init :: "nat \<Rightarrow> wt_txn_global" where
  "wt_txn_global_init session_size =
     \<lparr>tg_current = WT_TXN_FIRST, tg_last_running = WT_TXN_FIRST, tg_oldest_id = WT_TXN_FIRST,
      tg_metadata_pinned = WT_TXN_FIRST, tg_durable_ts = 0, tg_last_ckpt_ts = 0, tg_oldest_ts = 0,
      tg_pinned_ts = 0, tg_recovery_ts = 0, tg_stable_ts = 0, tg_version_cursor_ts = 0,
      tg_has_durable = False, tg_has_oldest = False, tg_has_pinned = False, tg_has_stable = False,
      tg_oldest_is_pinned = False, tg_stable_is_pinned = False, tg_checkpoint_id = 0,
      tg_ckpt_shared = new_shared, tg_checkpoint_ts = 0, tg_shared = replicate session_size new_shared\<rparr>"

definition new_txn :: wt_txn where
  "new_txn = \<lparr>tx_id = 0, tx_isolation = WT_ISO_SNAPSHOT, tx_snap_min = 0, tx_snap_max = 0,
     tx_snapshot = [], tx_commit_ts = 0, tx_durable_ts = 0, tx_first_commit_ts = 0, tx_prepare_ts = 0,
     tx_ckpt_read_ts = 0, tx_ckpt_oldest_ts = 0, tx_flags = {}\<rparr>"

definition new_conn :: "nat \<Rightarrow> wt_conn" where
  "new_conn n = \<lparr>c_global = wt_txn_global_init n, c_commit_gen = 1, c_closing = False, c_recovering = False,
     c_recovery_snap_min = 0, c_version_cursors = 0\<rparr>"

definition new_session :: "nat \<Rightarrow> wt_session" where
  "new_session i = \<lparr>s_id = i, s_isolation = WT_ISO_SNAPSHOT, s_commit_gen = 0, s_tree = True, s_metadata = False,
     s_logged = False, s_hs = False, s_reading_checkpoint = False, s_txn = new_txn\<rparr>"

subsection \<open>Reading the state after an update\<close>

lemma upd_glob_simps [simp]:
  "glob (upd_glob f s) = f (glob s)" "cs_ses (upd_glob f s) = cs_ses s"
  "c_commit_gen (cs_conn (upd_glob f s)) = c_commit_gen (cs_conn s)"
  by (simp_all add: upd_glob_def)

lemma upd_txn_simps [simp]:
  "txn (upd_txn f s) = f (txn s)" "cs_conn (upd_txn f s) = cs_conn s"
  "s_id (cs_ses (upd_txn f s)) = s_id (cs_ses s)" "s_commit_gen (cs_ses (upd_txn f s)) = s_commit_gen (cs_ses s)"
  "s_isolation (cs_ses (upd_txn f s)) = s_isolation (cs_ses s)"
  by (simp_all add: upd_txn_def)

lemma upd_shared_simps [simp]:
  "cs_ses (upd_shared f s) = cs_ses s"
  "tg_shared (glob (upd_shared f s)) = (tg_shared (glob s))[s_id (cs_ses s) := f (shared_of s)]"
  "tg_current (glob (upd_shared f s)) = tg_current (glob s)"
  "tg_oldest_id (glob (upd_shared f s)) = tg_oldest_id (glob s)"
  "tg_pinned_ts (glob (upd_shared f s)) = tg_pinned_ts (glob s)"
  "tg_has_pinned (glob (upd_shared f s)) = tg_has_pinned (glob s)"
  "tg_oldest_ts (glob (upd_shared f s)) = tg_oldest_ts (glob s)"
  "tg_has_oldest (glob (upd_shared f s)) = tg_has_oldest (glob s)"
  "tg_stable_ts (glob (upd_shared f s)) = tg_stable_ts (glob s)"
  "tg_has_stable (glob (upd_shared f s)) = tg_has_stable (glob s)"
  "tg_ckpt_shared (glob (upd_shared f s)) = tg_ckpt_shared (glob s)"
  "tg_checkpoint_id (glob (upd_shared f s)) = tg_checkpoint_id (glob s)"
  "tg_checkpoint_ts (glob (upd_shared f s)) = tg_checkpoint_ts (glob s)"
  "c_commit_gen (cs_conn (upd_shared f s)) = c_commit_gen (cs_conn s)"
  by (simp_all add: upd_shared_def shared_of_def)

lemma flag_simps [simp]:
  "tx_flags (txn (F_SET f s)) = insert f (tx_flags (txn s))" "tx_flags (txn (F_CLR f s)) = tx_flags (txn s) - {f}"
  "cs_conn (F_SET f s) = cs_conn s" "cs_conn (F_CLR f s) = cs_conn s"
  "s_id (cs_ses (F_SET f s)) = s_id (cs_ses s)" "s_id (cs_ses (F_CLR f s)) = s_id (cs_ses s)"
  "F_ISSET (F_SET f s) g \<longleftrightarrow> g = f \<or> F_ISSET s g" "F_ISSET (F_CLR f s) g \<longleftrightarrow> g \<noteq> f \<and> F_ISSET s g"
  by (auto simp: F_SET_def F_CLR_def F_ISSET_def)

end
