(* ===== verification/SnapSort.thy ===== *)
theory SnapSort
  imports Wt_Prelude "HOL-Library.Multiset"
begin

text \<open>
  Sorting a snapshot's transaction IDs, \<open>src/txn/txn.c\<close>: a quicksort that leaves short segments
  alone, then the insertion sort of \<open>src/include/misc.h\<close>. Arrays are lists; a read outside the array
  is \<open>OutOfBounds\<close>. The indices \<open>f - 1\<close> and \<open>l + 1\<close> the partition starts from are the next ones to
  look at, \<open>f\<close> and \<open>l\<close>, in the model.
\<close>

subsection \<open>Quicksort\<close>

text \<open>\<open>while (pivot < array[--j]);\<close> from \<open>j\<close> and \<open>while (array[++i] < pivot);\<close> with \<open>i\<close> the next index.\<close>

fun scan_down :: "u64 list \<Rightarrow> u64 \<Rightarrow> nat \<Rightarrow> nat result" where
  "scan_down a pivot 0 = Inl OutOfBounds"
| "scan_down a pivot (Suc j) =
     (if j \<ge> length a then Inl OutOfBounds else if pivot < a ! j then scan_down a pivot j else Inr j)"

function scan_up :: "u64 list \<Rightarrow> u64 \<Rightarrow> nat \<Rightarrow> nat result" where
  "scan_up a pivot i =
     (if i \<ge> length a then Inl OutOfBounds else if a ! i < pivot then scan_up a pivot (i + 1) else Inr i)"
  by pat_completeness auto
termination by (relation "measure (\<lambda>(a, _, i). length a - i)") auto

declare scan_up.simps [simp del]

definition swap :: "u64 list \<Rightarrow> nat \<Rightarrow> nat \<Rightarrow> u64 list" where
  "swap a i j = a[i := a ! j, j := a ! i]"

lemma scan_down_less: "scan_down a pivot j = Inr k \<Longrightarrow> k < j"
  by (induction a pivot j rule: scan_down.induct) (auto split: if_splits)

text \<open>The loop of \<open>__snapsort_partition\<close>: \<open>i\<close> the next index upwards, \<open>j\<close> one past the next downwards.\<close>

function partition_loop :: "u64 list \<Rightarrow> u64 \<Rightarrow> nat \<Rightarrow> nat \<Rightarrow> (u64 list \<times> nat) result" where
  "partition_loop a pivot i j =
     wt_ret (scan_down a pivot j) (\<lambda>j. wt_ret (scan_up a pivot i) (\<lambda>i.
       if i < j then partition_loop (swap a i j) pivot (i + 1) j else Inr (a, j)))"
  by pat_completeness auto
termination by (relation "measure (\<lambda>(_, _, _, j). j)") (auto dest: scan_down_less)

declare partition_loop.simps [simp del]

definition snapsort_partition :: "u64 list \<Rightarrow> nat \<Rightarrow> nat \<Rightarrow> u64 \<Rightarrow> (u64 list \<times> nat) result" where
  "snapsort_partition a f l pivot = partition_loop a pivot f (l + 1)"

definition median3 :: "u64 \<Rightarrow> u64 \<Rightarrow> u64 \<Rightarrow> u64" where
  "median3 v1 v2 v3 = (if v1 < v2 then (if v3 < v1 then v1 else min v2 v3) else (if v3 < v2 then v2 else min v1 v3))"

text \<open>The loop over the right part is the second recursive call.\<close>

partial_function (option) snapsort_impl :: "u64 list \<Rightarrow> nat \<Rightarrow> nat \<Rightarrow> u64 list result option" where
  "snapsort_impl a f l =
     (if f + 16 < l then
        (case snapsort_partition a f l (median3 (a ! f) (a ! l) (a ! ((f + l) div 2))) of
           Inl e \<Rightarrow> Some (Inl e)
         | Inr (a, m) \<Rightarrow> Option.bind (snapsort_impl a f m)
             (\<lambda>r. case r of Inl e \<Rightarrow> Some (Inl e) | Inr a \<Rightarrow> snapsort_impl a (m + 1) l))
      else Some (Inr a))"

subsection \<open>Insertion sort\<close>

text \<open>The inner loop, the element \<open>v\<close> on its way down: \<open>j\<close> is the free place.\<close>

fun insertion_shift :: "u64 list \<Rightarrow> u64 \<Rightarrow> nat \<Rightarrow> u64 list" where
  "insertion_shift a v 0 = a[0 := v]"
| "insertion_shift a v (Suc j) =
     (if v < a ! j then insertion_shift (a[Suc j := a ! j]) v j else a[Suc j := v])"

definition WT_INSERTION_SORT :: "u64 list \<Rightarrow> nat \<Rightarrow> u64 list" where
  "WT_INSERTION_SORT a n =
     (let a = (if n = 2 \<and> a ! 1 < a ! 0 then a[1 := a ! 0, 0 := a ! 1] else a)
      in if n > 2 then fold (\<lambda>i a. insertion_shift a (a ! i) i) [1..<n] a else a)"

definition snapsort :: "u64 list \<Rightarrow> nat \<Rightarrow> u64 list result option" where
  "snapsort a n = map_option (map_sum id (\<lambda>a. WT_INSERTION_SORT a n)) (snapsort_impl a 0 (n - 1))"

subsection \<open>The partition stays in bounds\<close>

lemma scan_down_ok:
  assumes "k < j" and "j \<le> length a" and "a ! k \<le> pivot"
  shows "\<exists>j'. scan_down a pivot j = Inr j' \<and> k \<le> j' \<and> j' < j \<and> a ! j' \<le> pivot"
  using assms
proof (induction a pivot j rule: scan_down.induct)
  case (2 a pivot j)
  show ?case
  proof (cases "pivot < a ! j")
    case True
    then have "k \<noteq> j" using 2(4) by auto
    then have "k < j" using 2(2) by simp
    then show ?thesis using 2(1) [OF _ True _ _ 2(4)] 2(3) True by fastforce
  next
    case False
    then show ?thesis using 2(2,3) by auto
  qed
qed simp

lemma scan_up_ok:
  assumes "i \<le> k" and "k < length a" and "pivot \<le> a ! k"
  shows "\<exists>i'. scan_up a pivot i = Inr i' \<and> i \<le> i' \<and> i' \<le> k \<and> pivot \<le> a ! i'"
  using assms
proof (induction a pivot i rule: scan_up.induct)
  case (1 a pivot i)
  show ?case
  proof (cases "a ! i < pivot")
    case True
    then have "i \<noteq> k" using 1(4) by auto
    then show ?thesis using 1(1) [OF _ True _ 1(3,4)] 1(2,3) True
      by (subst scan_up.simps) fastforce
  next
    case False
    then show ?thesis using 1(2,3) by (subst scan_up.simps) auto
  qed
qed

lemma swap_simps [simp]:
  "length (swap a i j) = length a"
  "i < length a \<Longrightarrow> j < length a \<Longrightarrow> mset (swap a i j) = mset a"
  "i \<noteq> j \<Longrightarrow> i < length a \<Longrightarrow> swap a i j ! i = a ! j"
  "j < length a \<Longrightarrow> swap a i j ! j = a ! i"
  by (simp_all add: swap_def mset_swap)

text \<open>After the first exchange there is an element on each side that stops the scans.\<close>

lemma partition_loop_ok:
  assumes "lo < i" and "i \<le> j" and "j < length a" and "a ! lo \<le> pivot" and "pivot \<le> a ! j"
  shows "\<exists>a' m. partition_loop a pivot i j = Inr (a', m) \<and> lo \<le> m \<and> m < j \<and> mset a' = mset a \<and> length a' = length a"
  using assms
proof (induction a pivot i j rule: partition_loop.induct)
  case (1 a pivot i j)
  obtain j' where j': "scan_down a pivot j = Inr j'" "lo \<le> j'" "j' < j" "a ! j' \<le> pivot"
    using scan_down_ok [of lo j a pivot] 1(2-6) by auto
  obtain i' where i': "scan_up a pivot i = Inr i'" "i \<le> i'" "i' \<le> j" "pivot \<le> a ! i'"
    using scan_up_ok [of i j a pivot] 1(3-6) by auto
  show ?case
  proof (cases "i' < j'")
    case True
    have "swap a i' j' ! lo \<le> pivot"
    proof -
      have "lo \<noteq> i'" "lo \<noteq> j'" using 1(2) i'(2) True by auto
      then show ?thesis using 1(5) by (simp add: swap_def)
    qed
    moreover have "pivot \<le> swap a i' j' ! j'" using i'(4) j'(3) 1(4) True by simp
    ultimately have "\<exists>a' m. partition_loop (swap a i' j') pivot (i' + 1) j' = Inr (a', m) \<and> lo \<le> m \<and> m < j' \<and>
        mset a' = mset (swap a i' j') \<and> length a' = length (swap a i' j')"
      using 1(1) [OF j'(1) i'(1) True] 1(2,4) True i'(2) j'(3) by simp
    then show ?thesis
      using True j'(1,3) i'(1) 1(4) by (subst partition_loop.simps) auto
  next
    case False
    then show ?thesis using j' i'(1) by (subst partition_loop.simps) auto
  qed
qed

lemma median3_between:
  "v1 \<le> median3 v1 v2 v3 \<or> v3 \<le> median3 v1 v2 v3"
  "median3 v1 v2 v3 \<le> v1 \<or> median3 v1 v2 v3 \<le> v3"
  by (auto simp: median3_def min_def not_less)

text \<open>The first round finds its elements among the three the pivot is the median of.\<close>

lemma snapsort_partition_ok:
  assumes "f + 16 < l" and "l < length a"
  defines "p \<equiv> median3 (a ! f) (a ! l) (a ! ((f + l) div 2))"
  shows "\<exists>a' m. snapsort_partition a f l p = Inr (a', m) \<and> f \<le> m \<and> m < l \<and> mset a' = mset a \<and> length a' = length a"
proof -
  let ?h = "(f + l) div 2"
  have h: "f < ?h" "?h < l" using assms(1) by linarith+
  have small: "\<exists>k. f \<le> k \<and> k < l \<and> a ! k \<le> p"
    using median3_between(1) [of "a ! f" "a ! l" "a ! ?h"] h unfolding p_def
    by (elim disjE) (force intro: exI [of _ f], force intro: exI [of _ ?h])
  have big: "\<exists>k. f \<le> k \<and> k < l \<and> p \<le> a ! k"
    using median3_between(2) [of "a ! f" "a ! l" "a ! ?h"] h unfolding p_def
    by (elim disjE) (force intro: exI [of _ f], force intro: exI [of _ ?h])
  obtain k where k: "f \<le> k" "k < l" "a ! k \<le> p" using small by blast
  obtain k' where k': "f \<le> k'" "k' < l" "p \<le> a ! k'" using big by blast
  obtain j where j: "scan_down a p (l + 1) = Inr j" "k \<le> j" "j < l + 1" "a ! j \<le> p"
    using scan_down_ok [of k "l + 1" a p] k assms(2) by auto
  obtain i where i: "scan_up a p f = Inr i" "f \<le> i" "i \<le> k'" "p \<le> a ! i"
    using scan_up_ok [of f k' a p] k' assms(2) by auto
  show ?thesis
  proof (cases "i < j")
    case True
    have "swap a i j ! i \<le> p" "p \<le> swap a i j ! j" using True i j assms(2) by simp_all
    then have "\<exists>a' m. partition_loop (swap a i j) p (i + 1) j = Inr (a', m) \<and> i \<le> m \<and> m < j \<and>
        mset a' = mset (swap a i j) \<and> length a' = length (swap a i j)"
      using True j(3) assms(2) by (intro partition_loop_ok) simp_all
    then show ?thesis
      using True i(1,2) j(1,3) assms(2) unfolding snapsort_partition_def
      by (subst partition_loop.simps) auto
  next
    case False
    then have "j < l" using i(3) k'(2) by simp
    then show ?thesis
      using False i(1) j(1,2) k(1) unfolding snapsort_partition_def by (subst partition_loop.simps) auto
  qed
qed

lemma snapsort_impl_ok:
  "l < length a \<Longrightarrow> \<exists>a'. snapsort_impl a f l = Some (Inr a') \<and> mset a' = mset a \<and> length a' = length a"
proof (induction "l - f" arbitrary: a f l rule: less_induct)
  case less
  show ?case
  proof (cases "f + 16 < l")
    case True
    obtain a1 m where m: "snapsort_partition a f l (median3 (a ! f) (a ! l) (a ! ((f + l) div 2))) = Inr (a1, m)"
      "f \<le> m" "m < l" "mset a1 = mset a" "length a1 = length a"
      using snapsort_partition_ok [OF True less.prems] by blast
    obtain a2 where a2: "snapsort_impl a1 f m = Some (Inr a2)" "mset a2 = mset a1" "length a2 = length a1"
      using less.hyps [of m f a1] diff_less_mono [OF m(3,2)] m(3,5) less.prems by auto
    obtain a3 where a3: "snapsort_impl a2 (m + 1) l = Some (Inr a3)" "mset a3 = mset a2" "length a3 = length a2"
      using less.hyps [of l "m + 1" a2] m(2,3,5) a2(3) less.prems by (auto simp: diff_less_mono2)
    show ?thesis using True m(1,4,5) a2 a3 by (subst snapsort_impl.simps) simp
  next
    case False
    then show ?thesis by (subst snapsort_impl.simps) simp
  qed
qed

subsection \<open>Insertion sort sorts\<close>

lemma insertion_shift_spec:
  assumes "j < length a" and "sorted (take j a)"
  shows "insertion_shift a v j = insort v (take j a) @ drop (Suc j) a"
  using assms
proof (induction a v j rule: insertion_shift.induct)
  case (1 a v)
  then show ?case by (cases a) simp_all
next
  case (2 a v j)
  have t: "take (Suc j) a = take j a @ [a ! j]" using 2(2) by (simp add: take_Suc_conv_app_nth)
  have s: "sorted (take j a)" "\<forall>x\<in>set (take j a). x \<le> a ! j" using 2(3) t by (simp_all add: sorted_append)
  show ?case
  proof (cases "v < a ! j")
    case True
    have "insertion_shift a v (Suc j) = insort v (take j a) @ drop (Suc j) (a[Suc j := a ! j])"
      using 2(1) [OF True] 2(2) s(1) True by simp
    also have "drop (Suc j) (a[Suc j := a ! j]) = a ! j # drop (Suc (Suc j)) a"
      using 2(2) by (simp add: drop_update_swap Cons_nth_drop_Suc [symmetric])
    also have "insort v (take j a) @ a ! j # drop (Suc (Suc j)) a = insort v (take (Suc j) a) @ drop (Suc (Suc j)) a"
    proof -
      have "insort v (xs @ [y]) = insort v xs @ [y]" if "v < y" for xs and y :: u64
        using that by (induction xs) auto
      then show ?thesis using True t by simp
    qed
    finally show ?thesis .
  next
    case False
    have "insort v xs = xs @ [v]" if "\<forall>x\<in>set xs. x \<le> v" "sorted xs" for xs :: "u64 list"
      using that by (induction xs) (auto simp: insort_is_Cons order_antisym)
    moreover have "\<forall>x\<in>set (take (Suc j) a). x \<le> v" using False s(2) t by (auto intro: order.trans)
    ultimately have "insort v (take (Suc j) a) = take (Suc j) a @ [v]" using 2(3) by blast
    moreover have "a[Suc j := v] = take (Suc j) a @ v # drop (Suc (Suc j)) a"
      using 2(2) by (simp add: upd_conv_take_nth_drop)
    ultimately show ?thesis using False by simp
  qed
qed

lemma insertion_fold:
  assumes "1 \<le> n" and "n \<le> length a"
  shows "\<exists>b. fold (\<lambda>i a. insertion_shift a (a ! i) i) [1..<n] a = b @ drop n a \<and> sorted b \<and>
    mset b = mset (take n a)"
  using assms
proof (induction n rule: nat_induct_at_least)
  case base
  then show ?case by (intro exI [of _ "take 1 a"]) (cases a; simp)
next
  case (Suc n)
  then obtain b where b: "fold (\<lambda>i a. insertion_shift a (a ! i) i) [1..<n] a = b @ drop n a" "sorted b"
    "mset b = mset (take n a)" by auto
  have len: "length b = n" using b(3) Suc.prems by (metis length_take min.absorb2 size_mset Suc_leD)
  have d: "drop n a = a ! n # drop (Suc n) a" using Suc.prems by (simp add: Cons_nth_drop_Suc)
  have "insertion_shift (b @ drop n a) (a ! n) n = insort (a ! n) b @ drop (Suc n) a"
    using insertion_shift_spec [of n "b @ drop n a" "a ! n"] b(2) len d by simp
  moreover have "(b @ drop n a) ! n = a ! n" using len d by (simp add: nth_append)
  moreover have "[1..<Suc n] = [1..<n] @ [n]" using Suc.hyps by simp
  ultimately have "fold (\<lambda>i a. insertion_shift a (a ! i) i) [1..<Suc n] a = insort (a ! n) b @ drop (Suc n) a"
    using b(1) by simp
  moreover have "mset (insort (a ! n) b) = mset (take (Suc n) a)"
    using b(3) Suc.prems by (simp add: take_Suc_conv_app_nth)
  ultimately show ?case using b(2) by (intro exI [of _ "insort (a ! n) b"]) (simp add: sorted_insort)
qed

lemma insertion_sort_sorts:
  assumes "2 \<le> length a"
  shows "WT_INSERTION_SORT a (length a) = sort a"
proof (cases "length a = 2")
  case True
  then obtain x y where "a = [x, y]" by (auto simp: length_Suc_conv numeral_2_eq_2)
  then show ?thesis by (cases "y < x") (auto simp: WT_INSERTION_SORT_def)
next
  case False
  then have "WT_INSERTION_SORT a (length a) = fold (\<lambda>i a. insertion_shift a (a ! i) i) [1..<length a] a"
    using assms by (simp add: WT_INSERTION_SORT_def)
  then show ?thesis
    using insertion_fold [of "length a" a] assms by (auto intro!: properties_for_sort [symmetric])
qed

lemma snapsort_sort:
  assumes "2 \<le> length a"
  shows "snapsort a (length a) = Some (Inr (sort a))"
proof -
  obtain a' where a': "snapsort_impl a 0 (length a - 1) = Some (Inr a')" "mset a' = mset a" "length a' = length a"
    using snapsort_impl_ok [of "length a - 1" a 0] assms by force
  have "WT_INSERTION_SORT a' (length a) = sort a"
    using insertion_sort_sorts [of a'] assms a'(2,3) by (metis properties_for_sort mset_sort sorted_sort)
  then show ?thesis using a'(1) by (simp add: snapsort_def)
qed

subsection \<open>Properties\<close>



end
