(* ===== verification/TxnPinned.thy ===== *)
theory TxnPinned
  imports Txn
begin

text \<open>
  The pinned timestamp, \<open>src/txn/txn_timestamp.c\<close>: the oldest timestamp some reader may use. The scan
  of the sessions runs under the lock; what other sessions do between the two scans of an update is
  the function argument \<open>between\<close>.
\<close>

record pin_flags =
  TS_INCLUDE_CKPT :: bool
  TS_INCLUDE_OLDEST :: bool

text \<open>The walk over the sessions' read timestamps.\<close>

fun read_ts_walk :: "wt_txn_shared list \<Rightarrow> u64 \<Rightarrow> u64" where
  "read_ts_walk [] tmp_ts = tmp_ts"
| "read_ts_walk (s # ss) tmp_ts =
     (let tmp_read_ts = sh_read_ts s in
      read_ts_walk ss (if tmp_ts = WT_TS_NONE \<or> tmp_read_ts \<noteq> WT_TS_NONE \<and> tmp_read_ts < tmp_ts
        then tmp_read_ts else tmp_ts))"

definition wt_txn_get_pinned_timestamp :: "wt_txn_global \<Rightarrow> pin_flags \<Rightarrow> u64" where
  "wt_txn_get_pinned_timestamp g flags =
     (if TS_INCLUDE_OLDEST flags \<and> \<not> tg_has_oldest g then 0
      else
        let tmp_ts = (if TS_INCLUDE_OLDEST flags then tg_oldest_ts g else WT_TS_NONE);
            tmp_ts = (if TS_INCLUDE_CKPT flags \<and> tg_checkpoint_ts g \<noteq> WT_TS_NONE \<and>
                (tmp_ts = WT_TS_NONE \<or> tg_checkpoint_ts g < tmp_ts) then tg_checkpoint_ts g else tmp_ts)
        in read_ts_walk (tg_shared g) tmp_ts)"

definition INCLUDE_OLDEST :: pin_flags where
  "INCLUDE_OLDEST = \<lparr>TS_INCLUDE_CKPT = False, TS_INCLUDE_OLDEST = True\<rparr>"

text \<open>The part under the write lock: scan again and set.\<close>

definition update_pinned_locked :: "bool \<Rightarrow> wt_txn_global \<Rightarrow> wt_txn_global" where
  "update_pinned_locked force g =
     (let pinned = wt_txn_get_pinned_timestamp g INCLUDE_OLDEST in
      if pinned \<noteq> 0 \<and> (\<not> tg_has_pinned g \<or> force \<or> tg_pinned_ts g < pinned) then
        g\<lparr>tg_pinned_ts := pinned, tg_has_pinned := True,
          tg_oldest_is_pinned := (pinned = tg_oldest_ts g), tg_stable_is_pinned := (pinned = tg_stable_ts g)\<rparr>
      else g)"

definition wt_txn_update_pinned_timestamp ::
    "(wt_txn_global \<Rightarrow> wt_txn_global) \<Rightarrow> bool \<Rightarrow> wt_txn_global \<Rightarrow> wt_txn_global" where
  "wt_txn_update_pinned_timestamp between force g =
     (if tg_oldest_is_pinned g then g
      else
        let pinned = wt_txn_get_pinned_timestamp g INCLUDE_OLDEST in
        if pinned = 0 then g
        else if tg_has_pinned g \<and> \<not> force \<and> pinned \<le> tg_pinned_ts g then g
        else update_pinned_locked force (between g))"

subsection \<open>The scan is a minimum\<close>

text \<open>The smallest of the timestamps that are set.\<close>

definition least_set :: "u64 list \<Rightarrow> u64" where
  "least_set ts = (case filter (\<lambda>t. t \<noteq> WT_TS_NONE) ts of [] \<Rightarrow> WT_TS_NONE | t # r \<Rightarrow> fold min r t)"

lemma fold_min_u64: "fold min r (t :: u64) = Min (set (t # r))"
  by (simp only: Min.set_eq_fold)

lemma least_set_Min: "least_set ts = (if set ts \<subseteq> {WT_TS_NONE} then WT_TS_NONE else Min (set ts - {WT_TS_NONE}))"
proof (cases "filter (\<lambda>t. t \<noteq> WT_TS_NONE) ts")
  case Nil
  then show ?thesis by (auto simp: least_set_def filter_empty_conv)
next
  case (Cons t r)
  have "set ts - {WT_TS_NONE} = set (t # r)" using arg_cong [OF Cons, of set] by auto
  moreover have "\<not> set ts \<subseteq> {WT_TS_NONE}" using calculation by auto
  ultimately show ?thesis using Cons by (simp add: least_set_def fold_min_u64)
qed

lemma read_ts_walk_least: "read_ts_walk ss tmp_ts = least_set (tmp_ts # map sh_read_ts ss)"
proof (induction ss arbitrary: tmp_ts)
  case (Cons s ss)
  have "read_ts_walk (s # ss) tmp_ts = least_set ((if tmp_ts = WT_TS_NONE \<or>
      sh_read_ts s \<noteq> WT_TS_NONE \<and> sh_read_ts s < tmp_ts then sh_read_ts s else tmp_ts) # map sh_read_ts ss)"
    using Cons.IH by (simp add: Let_def)
  also have "\<dots> = least_set (tmp_ts # sh_read_ts s # map sh_read_ts ss)"
    by (auto simp: least_set_def min_def not_less)
  finally show ?case by simp
qed (auto simp: least_set_def)

lemma least_set_le: "t \<in> set ts \<Longrightarrow> t \<noteq> WT_TS_NONE \<Longrightarrow> least_set ts \<le> t"
  by (auto simp: least_set_Min intro!: Min_le)

lemma least_set_in: "least_set ts \<noteq> WT_TS_NONE \<Longrightarrow> least_set ts \<in> set ts"
  using Min_in [of "set ts - {WT_TS_NONE}"] by (auto simp: least_set_Min split: if_splits)

lemma pinned_is_least:
  assumes "tg_has_oldest g"
  shows "wt_txn_get_pinned_timestamp g INCLUDE_OLDEST = least_set (tg_oldest_ts g # map sh_read_ts (tg_shared g))"
  using assms by (simp add: wt_txn_get_pinned_timestamp_def INCLUDE_OLDEST_def read_ts_walk_least)

subsection \<open>The invariant\<close>

text \<open>No reader, and no future reader, is before the pinned timestamp.\<close>

definition pinned_ok :: "wt_txn_global \<Rightarrow> bool" where
  "pinned_ok g \<longleftrightarrow> (tg_has_pinned g \<longrightarrow> tg_has_oldest g \<and> tg_pinned_ts g \<noteq> WT_TS_NONE \<and>
     tg_pinned_ts g \<le> tg_oldest_ts g \<and>
     (\<forall>s\<in>set (tg_shared g). sh_read_ts s \<noteq> WT_TS_NONE \<longrightarrow> tg_pinned_ts g \<le> sh_read_ts s)) \<and>
     (tg_has_oldest g \<longrightarrow> tg_oldest_ts g \<noteq> WT_TS_NONE)"

lemma update_pinned_locked_ok [wt_inv]:
  assumes "pinned_ok g"
  shows "pinned_ok (update_pinned_locked force g)"
proof (cases "tg_has_oldest g")
  case True
  have le: "least_set (tg_oldest_ts g # map sh_read_ts (tg_shared g)) \<le> tg_oldest_ts g"
    using assms True by (intro least_set_le) (simp_all add: pinned_ok_def)
  moreover have "least_set (tg_oldest_ts g # map sh_read_ts (tg_shared g)) \<le> sh_read_ts s"
    if "s \<in> set (tg_shared g)" "sh_read_ts s \<noteq> WT_TS_NONE" for s
    using that by (intro least_set_le) simp_all
  ultimately show ?thesis
    using assms True by (simp add: update_pinned_locked_def pinned_is_least pinned_ok_def Let_def WT_TS_NONE_def)
next
  case False
  then show ?thesis
    using assms by (simp add: update_pinned_locked_def wt_txn_get_pinned_timestamp_def INCLUDE_OLDEST_def)
qed

lemma update_pinned_ok [wt_inv]:
  assumes "pinned_ok g" and "\<And>g. pinned_ok g \<Longrightarrow> pinned_ok (between g)"
  shows "pinned_ok (wt_txn_update_pinned_timestamp between force g)"
  using assms update_pinned_locked_ok by (simp add: wt_txn_update_pinned_timestamp_def Let_def)

lemma update_pinned_frame:
  "tg_oldest_ts (wt_txn_update_pinned_timestamp id force g) = tg_oldest_ts g"
  "tg_stable_ts (wt_txn_update_pinned_timestamp id force g) = tg_stable_ts g"
  "tg_has_oldest (wt_txn_update_pinned_timestamp id force g) = tg_has_oldest g"
  "tg_has_stable (wt_txn_update_pinned_timestamp id force g) = tg_has_stable g"
  "tg_shared (wt_txn_update_pinned_timestamp id force g) = tg_shared g"
  by (simp_all add: wt_txn_update_pinned_timestamp_def update_pinned_locked_def Let_def)

end
