(* ===== verification/TxnSnapshot.thy ===== *)
theory TxnSnapshot
  imports TxnPinned SnapSort
begin

text \<open>
  Transaction IDs and snapshots: \<open>src/txn/txn.c\<close> and \<open>src/include/txn_inline.h\<close>. \<open>__wt_txn_id_alloc\<close>
  with the publication of the ID is one step, so \<open>is_allocating\<close> is never seen set.
\<close>

subsection \<open>Taking a snapshot\<close>

text \<open>The snapshot array is sorted in place; \<open>snapsort_sorts\<close> shows the other cases do not happen.\<close>

definition sort_ids :: "u64 list \<Rightarrow> u64 list" where
  "sort_ids a = (case snapsort a (length a) of Some (Inr a') \<Rightarrow> a' | _ \<Rightarrow> a)"

definition txn_sort_snapshot :: "u64 list \<Rightarrow> u64 \<Rightarrow> cs \<Rightarrow> cs" where
  "txn_sort_snapshot snap snap_max s =
     (let snap = (if length snap > 1 then sort_ids snap else snap);
          snap_min = (case snap of i # _ \<Rightarrow> if i \<le> snap_max then i else snap_max | [] \<Rightarrow> snap_max)
      in F_SET WT_TXN_HAS_SNAPSHOT (upd_txn (\<lambda>t. t\<lparr>tx_snapshot := snap, tx_snap_max := snap_max,
           tx_snap_min := snap_min\<rparr>) s))"

text \<open>The walk over the shared list: \<open>own\<close> is the session's own slot, \<open>k\<close> the slot the walk is at.\<close>

fun snapshot_walk :: "nat \<Rightarrow> u64 \<Rightarrow> u64 \<Rightarrow> nat \<Rightarrow> wt_txn_shared list \<Rightarrow> u64 list \<Rightarrow> u64 \<Rightarrow> u64 list \<times> u64" where
  "snapshot_walk own prev_oldest_id current_id k [] snap pinned_id = (snap, pinned_id)"
| "snapshot_walk own prev_oldest_id current_id k (s # ss) snap pinned_id =
     (let id = sh_id s in
      if k \<noteq> own \<and> id \<noteq> WT_TXN_NONE \<and> prev_oldest_id \<le> id \<and> id < current_id
      then snapshot_walk own prev_oldest_id current_id (k + 1) ss (snap @ [id])
             (if id < pinned_id then id else pinned_id)
      else snapshot_walk own prev_oldest_id current_id (k + 1) ss snap pinned_id)"

definition enter_commit_gen :: "cs \<Rightarrow> cs" where
  "enter_commit_gen s = s\<lparr>cs_ses := (cs_ses s)\<lparr>s_commit_gen := c_commit_gen (cs_conn s)\<rparr>\<rparr>"

definition txn_get_snapshot_int :: "bool \<Rightarrow> cs \<Rightarrow> cs" where
  "txn_get_snapshot_int publish s =
     (if s_commit_gen (cs_ses s) \<noteq> 0 \<and> F_ISSET s WT_TXN_HAS_SNAPSHOT \<and>
         s_commit_gen (cs_ses s) = c_commit_gen (cs_conn s)
      then s
      else
        let s = enter_commit_gen s;
            current_id = tg_current (glob s);
            prev_oldest_id = tg_oldest_id (glob s);
            id = sh_id (tg_ckpt_shared (glob s));
            snap = (if id \<noteq> WT_TXN_NONE \<and> tx_id (txn s) \<noteq> id then [id] else []);
            s = (if id \<noteq> WT_TXN_NONE \<and> publish then upd_shared (\<lambda>h. h\<lparr>sh_metadata_pinned := id\<rparr>) s else s);
            (snap, pinned_id) =
              (if prev_oldest_id = current_id then (snap, current_id)
               else snapshot_walk (s_id (cs_ses s)) prev_oldest_id current_id 0 (tg_shared (glob s)) snap current_id);
            s = (if publish then upd_shared (\<lambda>h. h\<lparr>sh_pinned_id := pinned_id\<rparr>) s else s)
        in txn_sort_snapshot snap current_id s)"

definition wt_txn_get_snapshot :: "cs \<Rightarrow> cs" where
  "wt_txn_get_snapshot = txn_get_snapshot_int True"

definition wt_txn_bump_snapshot :: "cs \<Rightarrow> cs" where
  "wt_txn_bump_snapshot = txn_get_snapshot_int False"

definition wt_txn_release_snapshot :: "cs \<Rightarrow> cs" where
  "wt_txn_release_snapshot s =
     (let s = upd_shared (\<lambda>h. h\<lparr>sh_metadata_pinned := WT_TXN_NONE, sh_pinned_id := WT_TXN_NONE\<rparr>) s;
          s = F_CLR WT_TXN_HAS_SNAPSHOT s
      in if WT_SESSION_IS_CHECKPOINT s
         then upd_glob (\<lambda>g. g\<lparr>tg_ckpt_shared := (tg_ckpt_shared g)\<lparr>sh_pinned_id := WT_TXN_NONE\<rparr>,
                tg_checkpoint_ts := WT_TS_NONE\<rparr>) s
         else s)"

definition wt_txn_active :: "cs \<Rightarrow> u64 \<Rightarrow> bool" where
  "wt_txn_active s txnid =
     (if txnid < tg_oldest_id (glob s) then False else list_ex (\<lambda>h. sh_id h = txnid) (tg_shared (glob s)))"

subsection \<open>The oldest ID\<close>

text \<open>The scan's walk carries the last running ID, the metadata and the oldest pinned IDs.\<close>

fun oldest_walk :: "u64 \<Rightarrow> wt_txn_shared list \<Rightarrow> u64 \<times> u64 \<times> u64 \<Rightarrow> u64 \<times> u64 \<times> u64" where
  "oldest_walk prev_oldest_id [] acc = acc"
| "oldest_walk prev_oldest_id (s # ss) (last_running, metadata_pinned, oldest_id) =
     (let last_running = (if sh_id s \<noteq> WT_TXN_NONE \<and> prev_oldest_id \<le> sh_id s \<and> sh_id s < last_running
                          then sh_id s else last_running);
          metadata_pinned = (if sh_metadata_pinned s \<noteq> WT_TXN_NONE \<and> sh_metadata_pinned s < metadata_pinned
                             then sh_metadata_pinned s else metadata_pinned);
          oldest_id = (if sh_pinned_id s \<noteq> WT_TXN_NONE \<and> sh_pinned_id s < oldest_id
                       then sh_pinned_id s else oldest_id)
      in oldest_walk prev_oldest_id ss (last_running, metadata_pinned, oldest_id))"

definition txn_oldest_scan :: "wt_txn_global \<Rightarrow> u64 \<times> u64 \<times> u64" where
  "txn_oldest_scan g =
     (let oldest_id = tg_current g;
          metadata_pinned = (if sh_id (tg_ckpt_shared g) = WT_TXN_NONE then oldest_id
                             else sh_id (tg_ckpt_shared g));
          (last_running, metadata_pinned, oldest_id) =
            oldest_walk (tg_oldest_id g) (tg_shared g) (tg_current g, metadata_pinned, oldest_id);
          oldest_id = (if last_running < oldest_id then last_running else oldest_id);
          metadata_pinned = (if oldest_id < metadata_pinned then oldest_id else metadata_pinned)
      in (oldest_id, last_running, metadata_pinned))"

text \<open>The part of \<open>__wt_txn_update_oldest\<close> under the write lock, given what the first scan found.\<close>

definition update_oldest_locked :: "u64 \<times> u64 \<times> u64 \<Rightarrow> wt_txn_global \<Rightarrow> wt_txn_global" where
  "update_oldest_locked found g =
     (let (oldest_id, last_running, metadata_pinned) = found in
      if oldest_id \<le> tg_oldest_id g \<and> last_running \<le> tg_last_running g \<and> metadata_pinned \<le> tg_metadata_pinned g
      then g
      else let (oldest_id, last_running, metadata_pinned) = txn_oldest_scan g in
        g\<lparr>tg_metadata_pinned := (if tg_metadata_pinned g < metadata_pinned then metadata_pinned else tg_metadata_pinned g),
          tg_oldest_id := (if tg_oldest_id g < oldest_id then oldest_id else tg_oldest_id g),
          tg_last_running := (if tg_last_running g < last_running then last_running else tg_last_running g)\<rparr>)"

text \<open>
  \<open>try_read\<close> and \<open>try_write\<close> are the results of taking the locks (a busy lock ends the call when it
  does not wait), \<open>between\<close> what others do between the two scans, \<open>pin_between\<close> the same for the pinned
  timestamp.
\<close>

definition wt_txn_update_oldest ::
    "(wt_txn_global \<Rightarrow> wt_txn_global) \<Rightarrow> (wt_txn_global \<Rightarrow> wt_txn_global) \<Rightarrow> unit result \<Rightarrow> unit result \<Rightarrow>
      bool \<Rightarrow> wt_txn_global \<Rightarrow> unit result \<times> wt_txn_global" where
  "wt_txn_update_oldest pin_between between try_read try_write strict g0 =
     (let g = (if strict then wt_txn_update_pinned_timestamp pin_between False g0 else g0);
          current_id = tg_current g0; prev_oldest_id = tg_oldest_id g0;
          prev_last_running = tg_last_running g0; prev_metadata_pinned = tg_metadata_pinned g0
      in if prev_oldest_id = current_id \<and> prev_metadata_pinned = current_id \<or>
            \<not> strict \<and> current_id < prev_oldest_id + 100 then (Inr (), g)
      else case try_read of Inl e \<Rightarrow> (if e = EBUSY then Inr () else Inl e, g)
      | Inr _ \<Rightarrow>
        (let (oldest_id, last_running, metadata_pinned) = txn_oldest_scan g in
         if (oldest_id = prev_oldest_id \<or> \<not> strict \<and> oldest_id < prev_oldest_id + 100) \<and>
            (last_running = prev_last_running \<or> \<not> strict \<and> last_running < prev_last_running + 100) \<and>
            metadata_pinned = prev_metadata_pinned then (Inr (), g)
         else case try_write of Inl e \<Rightarrow> (if e = EBUSY then Inr () else Inl e, g)
         | Inr _ \<Rightarrow> (Inr (), update_oldest_locked (oldest_id, last_running, metadata_pinned) (between g))))"

subsection \<open>Transaction IDs\<close>

definition wt_txn_id_alloc :: "bool \<Rightarrow> cs \<Rightarrow> u64 \<times> cs" where
  "wt_txn_id_alloc publish s =
     (let id = tg_current (glob s); s = upd_glob (\<lambda>g. g\<lparr>tg_current := tg_current g + 1\<rparr>) s
      in (id, if publish then upd_shared (\<lambda>h. h\<lparr>sh_id := id\<rparr>) (upd_txn (\<lambda>t. t\<lparr>tx_id := id\<rparr>) s) else s))"

text \<open>\<open>cache_check\<close> is the result of the check that the cache is not full.\<close>

definition wt_txn_id_check :: "unit result \<Rightarrow> cs \<Rightarrow> outcome" where
  "wt_txn_id_check cache_check s =
     (if F_ISSET s WT_TXN_HAS_ID then (Inr (), s)
      else if s_tree (cs_ses s) \<and> \<not> s_metadata (cs_ses s) \<and> tx_isolation (txn s) \<noteq> WT_ISO_SNAPSHOT
      then (Inl ENOTSUP, s)
      else wt_seq (if F_ISSET s WT_TXN_RUNNING \<and> \<not> F_ISSET s WT_TXN_HAS_ID \<and> sh_pinned_id (shared_of s) = WT_TXN_NONE
                   then cache_check else Inr (), s)
        (\<lambda>s. let (_, s) = wt_txn_id_alloc True s in
          if tx_id (txn s) = WT_TXN_ABORTED then (Inl WT_ERROR, s) else (Inr (), F_SET WT_TXN_HAS_ID s)))"

definition txn_remove_from_global_table :: "cs \<Rightarrow> cs" where
  "txn_remove_from_global_table = upd_shared (\<lambda>h. h\<lparr>sh_id := WT_TXN_NONE\<rparr>)"

definition wt_txn_clear_durable_timestamp :: "cs \<Rightarrow> cs" where
  "wt_txn_clear_durable_timestamp s =
     (if \<not> F_ISSET s WT_TXN_SHARED_TS_DURABLE then s
      else upd_shared (\<lambda>h. h\<lparr>sh_pinned_durable := WT_TS_NONE\<rparr>) (F_CLR WT_TXN_SHARED_TS_DURABLE s))"

definition wt_txn_clear_read_timestamp :: "cs \<Rightarrow> cs" where
  "wt_txn_clear_read_timestamp s =
     upd_shared (\<lambda>h. h\<lparr>sh_read_ts := WT_TS_NONE\<rparr>)
       (if F_ISSET s WT_TXN_SHARED_TS_READ then F_CLR WT_TXN_SHARED_TS_READ s else s)"

definition wt_txn_release :: "cs \<Rightarrow> cs" where
  "wt_txn_release s =
     (let s = (if WT_SESSION_IS_CHECKPOINT s then
                 upd_glob (\<lambda>g. g\<lparr>tg_ckpt_shared := (tg_ckpt_shared g)\<lparr>sh_id := WT_TXN_NONE\<rparr>, tg_checkpoint_id := 0\<rparr>)
                   (upd_txn (\<lambda>t. t\<lparr>tx_id := WT_TXN_NONE\<rparr>) s)
               else if F_ISSET s WT_TXN_HAS_ID then
                 upd_txn (\<lambda>t. t\<lparr>tx_id := WT_TXN_NONE\<rparr>)
                   (if \<not> F_ISSET s WT_TXN_PREPARE then txn_remove_from_global_table s else s)
               else s);
          s = wt_txn_clear_durable_timestamp s;
          s = wt_txn_release_snapshot s;
          s = wt_txn_clear_read_timestamp s
      in upd_txn (\<lambda>t. t\<lparr>tx_isolation := s_isolation (cs_ses s), tx_flags := {}, tx_prepare_ts := WT_TS_NONE\<rparr>) s)"

text \<open>\<open>__wt_gen_next\<close> of the commit generation.\<close>

definition next_commit_gen :: "cs \<Rightarrow> cs" where
  "next_commit_gen s = s\<lparr>cs_conn := (cs_conn s)\<lparr>c_commit_gen := c_commit_gen (cs_conn s) + 1\<rparr>\<rparr>"

end
