(* ===== verification/TimeWindow.thy ===== *)
theory TimeWindow
  imports Txn
begin

text \<open>
  Time windows and their aggregation: the types of \<open>src/include/timestamp.h\<close>, the macros of
  \<open>src/include/timestamp_inline.h\<close> and the validation of \<open>src/support/timestamp.c\<close>. The message of a failed
  validation is left out; its result is \<open>EINVAL\<close>.
\<close>

definition WT_TXN_MAX :: u64 where "WT_TXN_MAX = - 11"

record time_window =
  tw_durable_start_ts :: u64
  tw_start_ts :: u64
  tw_start_txn :: u64
  tw_durable_stop_ts :: u64
  tw_stop_ts :: u64
  tw_stop_txn :: u64
  tw_prepare :: u8

record time_aggregate =
  ta_newest_start_durable_ts :: u64
  ta_newest_stop_durable_ts :: u64
  ta_oldest_start_ts :: u64
  ta_newest_txn :: u64
  ta_newest_stop_ts :: u64
  ta_newest_stop_txn :: u64
  ta_prepare :: u8
  ta_init_merge :: u8

subsection \<open>Time windows\<close>

definition WT_TIME_WINDOW_INIT :: time_window where
  "WT_TIME_WINDOW_INIT = \<lparr>tw_durable_start_ts = WT_TS_NONE, tw_start_ts = WT_TS_NONE, tw_start_txn = WT_TXN_NONE,
     tw_durable_stop_ts = WT_TS_NONE, tw_stop_ts = WT_TS_MAX, tw_stop_txn = WT_TXN_MAX, tw_prepare = 0\<rparr>"

definition WT_TIME_WINDOW_IS_EMPTY :: "time_window \<Rightarrow> bool" where
  "WT_TIME_WINDOW_IS_EMPTY tw \<longleftrightarrow> tw_durable_start_ts tw = WT_TS_NONE \<and> tw_start_ts tw = WT_TS_NONE \<and>
     tw_start_txn tw = WT_TXN_NONE \<and> tw_durable_stop_ts tw = WT_TS_NONE \<and> tw_stop_ts tw = WT_TS_MAX \<and>
     tw_stop_txn tw = WT_TXN_MAX \<and> tw_prepare tw = 0"

definition WT_TIME_WINDOW_HAS_START :: "time_window \<Rightarrow> bool" where
  "WT_TIME_WINDOW_HAS_START tw \<longleftrightarrow> tw_start_txn tw \<noteq> WT_TXN_NONE \<or> tw_start_ts tw \<noteq> WT_TS_NONE"

definition WT_TIME_WINDOW_HAS_STOP :: "time_window \<Rightarrow> bool" where
  "WT_TIME_WINDOW_HAS_STOP tw \<longleftrightarrow> tw_stop_txn tw \<noteq> WT_TXN_MAX \<or> tw_stop_ts tw \<noteq> WT_TS_MAX"

definition WT_TIME_WINDOWS_EQUAL :: "time_window \<Rightarrow> time_window \<Rightarrow> bool" where
  "WT_TIME_WINDOWS_EQUAL a b \<longleftrightarrow> tw_durable_start_ts a = tw_durable_start_ts b \<and> tw_start_ts a = tw_start_ts b \<and>
     tw_start_txn a = tw_start_txn b \<and> tw_durable_stop_ts a = tw_durable_stop_ts b \<and>
     tw_stop_ts a = tw_stop_ts b \<and> tw_stop_txn a = tw_stop_txn b \<and> tw_prepare a = tw_prepare b"

definition WT_TIME_WINDOWS_STOP_EQUAL :: "time_window \<Rightarrow> time_window \<Rightarrow> bool" where
  "WT_TIME_WINDOWS_STOP_EQUAL a b \<longleftrightarrow> tw_durable_stop_ts a = tw_durable_stop_ts b \<and>
     tw_stop_ts a = tw_stop_ts b \<and> tw_stop_txn a = tw_stop_txn b \<and> tw_prepare a = tw_prepare b"

text \<open>Setting a side from an update with a transaction, a start and a durable timestamp.\<close>

definition WT_TIME_WINDOW_SET_START :: "u64 \<Rightarrow> u64 \<Rightarrow> u64 \<Rightarrow> time_window \<Rightarrow> time_window" where
  "WT_TIME_WINDOW_SET_START txnid start_ts durable_ts tw =
     tw\<lparr>tw_start_ts := start_ts, tw_durable_start_ts := (if durable_ts \<noteq> WT_TS_NONE then durable_ts else start_ts),
        tw_start_txn := txnid\<rparr>"

definition WT_TIME_WINDOW_SET_STOP :: "u64 \<Rightarrow> u64 \<Rightarrow> u64 \<Rightarrow> time_window \<Rightarrow> time_window" where
  "WT_TIME_WINDOW_SET_STOP txnid start_ts durable_ts tw =
     tw\<lparr>tw_stop_ts := start_ts, tw_durable_stop_ts := (if durable_ts \<noteq> WT_TS_NONE then durable_ts else start_ts),
        tw_stop_txn := txnid\<rparr>"

definition WT_TIME_WINDOW_COPY_START :: "time_window \<Rightarrow> time_window \<Rightarrow> time_window" where
  "WT_TIME_WINDOW_COPY_START dest source = dest\<lparr>tw_durable_start_ts := tw_durable_start_ts source,
     tw_start_ts := tw_start_ts source, tw_start_txn := tw_start_txn source, tw_prepare := tw_prepare source\<rparr>"

definition WT_TIME_WINDOW_COPY_STOP :: "time_window \<Rightarrow> time_window \<Rightarrow> time_window" where
  "WT_TIME_WINDOW_COPY_STOP dest source = dest\<lparr>tw_durable_stop_ts := tw_durable_stop_ts source,
     tw_stop_ts := tw_stop_ts source, tw_stop_txn := tw_stop_txn source, tw_prepare := tw_prepare source\<rparr>"

subsection \<open>Aggregates\<close>

definition WT_TIME_AGGREGATE_INIT :: time_aggregate where
  "WT_TIME_AGGREGATE_INIT = \<lparr>ta_newest_start_durable_ts = WT_TS_NONE, ta_newest_stop_durable_ts = WT_TS_NONE,
     ta_oldest_start_ts = WT_TS_NONE, ta_newest_txn = WT_TXN_NONE, ta_newest_stop_ts = WT_TS_MAX,
     ta_newest_stop_txn = WT_TXN_MAX, ta_prepare = 0, ta_init_merge = 0\<rparr>"

definition WT_TIME_AGGREGATE_INIT_MERGE :: time_aggregate where
  "WT_TIME_AGGREGATE_INIT_MERGE = \<lparr>ta_newest_start_durable_ts = WT_TS_NONE, ta_newest_stop_durable_ts = WT_TS_NONE,
     ta_oldest_start_ts = WT_TS_MAX, ta_newest_txn = WT_TXN_NONE, ta_newest_stop_ts = WT_TS_NONE,
     ta_newest_stop_txn = WT_TXN_NONE, ta_prepare = 0, ta_init_merge = 1\<rparr>"

definition WT_TIME_AGGREGATE_IS_EMPTY :: "time_aggregate \<Rightarrow> bool" where
  "WT_TIME_AGGREGATE_IS_EMPTY ta \<longleftrightarrow>
     (if ta_init_merge ta = 0 then
        ta_newest_start_durable_ts ta = WT_TS_NONE \<and> ta_newest_stop_durable_ts ta = WT_TS_NONE \<and>
        ta_oldest_start_ts ta = WT_TS_NONE \<and> ta_newest_txn ta = WT_TXN_NONE \<and> ta_newest_stop_ts ta = WT_TS_MAX \<and>
        ta_newest_stop_txn ta = WT_TXN_MAX \<and> ta_prepare ta = 0
      else
        ta_newest_start_durable_ts ta = WT_TS_NONE \<and> ta_newest_stop_durable_ts ta = WT_TS_NONE \<and>
        ta_oldest_start_ts ta = WT_TS_MAX \<and> ta_newest_txn ta = WT_TXN_NONE \<and> ta_newest_stop_ts ta = WT_TS_NONE \<and>
        ta_newest_stop_txn ta = WT_TXN_NONE \<and> ta_prepare ta = 0)"

definition WT_TIME_AGGREGATE_UPDATE :: "time_aggregate \<Rightarrow> time_window \<Rightarrow> time_aggregate" where
  "WT_TIME_AGGREGATE_UPDATE ta tw =
     (let newest_txn = max (tw_start_txn tw) (ta_newest_txn ta);
          newest_txn = (if tw_stop_txn tw \<noteq> WT_TXN_MAX then max (tw_stop_txn tw) newest_txn else newest_txn)
      in ta\<lparr>ta_newest_start_durable_ts := max (tw_durable_start_ts tw) (ta_newest_start_durable_ts ta),
            ta_newest_stop_durable_ts := max (tw_durable_stop_ts tw) (ta_newest_stop_durable_ts ta),
            ta_oldest_start_ts := min (tw_start_ts tw) (ta_oldest_start_ts ta),
            ta_newest_txn := newest_txn,
            ta_newest_stop_ts := max (tw_stop_ts tw) (ta_newest_stop_ts ta),
            ta_newest_stop_txn := max (tw_stop_txn tw) (ta_newest_stop_txn ta),
            ta_prepare := (if tw_prepare tw \<noteq> 0 then 1 else ta_prepare ta)\<rparr>)"

text \<open>A deleted page: its transaction, timestamp and durable timestamp.\<close>

definition WT_TIME_AGGREGATE_UPDATE_PAGE_DEL :: "time_aggregate \<Rightarrow> u64 \<Rightarrow> u64 \<Rightarrow> u64 \<Rightarrow> time_aggregate" where
  "WT_TIME_AGGREGATE_UPDATE_PAGE_DEL ta txnid timestamp durable_timestamp =
     ta\<lparr>ta_newest_stop_durable_ts := max durable_timestamp (ta_newest_stop_durable_ts ta),
        ta_newest_txn := max txnid (ta_newest_txn ta), ta_newest_stop_ts := max timestamp (ta_newest_stop_ts ta),
        ta_newest_stop_txn := max txnid (ta_newest_stop_txn ta)\<rparr>"

definition WT_TIME_AGGREGATE_MERGE :: "time_aggregate \<Rightarrow> time_aggregate \<Rightarrow> time_aggregate" where
  "WT_TIME_AGGREGATE_MERGE dest source =
     (let newest_txn = max (ta_newest_txn dest) (ta_newest_txn source);
          newest_stop_txn = max (ta_newest_stop_txn dest) (ta_newest_stop_txn source);
          newest_txn = (if newest_stop_txn \<noteq> WT_TXN_MAX then max newest_txn newest_stop_txn else newest_txn)
      in dest\<lparr>ta_newest_start_durable_ts := max (ta_newest_start_durable_ts dest) (ta_newest_start_durable_ts source),
              ta_newest_stop_durable_ts := max (ta_newest_stop_durable_ts dest) (ta_newest_stop_durable_ts source),
              ta_oldest_start_ts := min (ta_oldest_start_ts dest) (ta_oldest_start_ts source),
              ta_newest_txn := newest_txn,
              ta_newest_stop_ts := max (ta_newest_stop_ts dest) (ta_newest_stop_ts source),
              ta_newest_stop_txn := newest_stop_txn,
              ta_prepare := (if ta_prepare source \<noteq> 0 then 1 else ta_prepare dest)\<rparr>)"

subsection \<open>Validation\<close>

definition time_stable :: "wt_txn_global \<Rightarrow> u64" where
  "time_stable g = (if tg_has_stable g then tg_stable_ts g else tg_recovery_ts g)"

text \<open>A validation is a sequence of tests that must not hold.\<close>

fun reject_if :: "bool list \<Rightarrow> unit result" where
  "reject_if [] = Inr ()"
| "reject_if (b # bs) = (if b then Inl EINVAL else reject_if bs)"

definition time_aggregate_validate_parent_stable :: "wt_txn_global \<Rightarrow> time_aggregate \<Rightarrow> unit result" where
  "time_aggregate_validate_parent_stable g ta =
     (let stable = time_stable g in reject_if
       [ta_newest_start_durable_ts ta > stable,
        ta_newest_stop_durable_ts ta > stable,
        ta_oldest_start_ts ta > stable,
        ta_newest_stop_ts ta \<noteq> WT_TS_MAX \<and> ta_newest_stop_ts ta > stable])"

definition time_aggregate_validate_parent :: "time_aggregate \<Rightarrow> time_aggregate \<Rightarrow> unit result" where
  "time_aggregate_validate_parent ta parent = reject_if
     [ta_newest_start_durable_ts ta > ta_newest_start_durable_ts parent,
      ta_newest_stop_durable_ts ta > ta_newest_stop_durable_ts parent,
      ta_oldest_start_ts ta < ta_oldest_start_ts parent,
      ta_newest_txn ta > ta_newest_txn parent,
      ta_newest_stop_ts ta > ta_newest_stop_ts parent,
      ta_newest_stop_txn ta > ta_newest_stop_txn parent,
      ta_prepare ta \<noteq> 0 \<and> ta_prepare parent = 0]"

definition wt_time_aggregate_validate ::
    "wt_txn_global \<Rightarrow> bool \<Rightarrow> time_aggregate \<Rightarrow> time_aggregate option \<Rightarrow> unit result" where
  "wt_time_aggregate_validate g is_metadata ta parent =
     wt_ret (reject_if
       [ta_oldest_start_ts ta > ta_newest_stop_ts ta,
        ta_newest_txn ta > ta_newest_stop_txn ta,
        ta_oldest_start_ts ta > ta_newest_start_durable_ts ta,
        ta_newest_stop_ts ta \<noteq> WT_TS_MAX \<and> ta_newest_stop_ts ta > ta_newest_stop_durable_ts ta,
        ta_newest_start_durable_ts ta \<noteq> ta_newest_stop_durable_ts ta \<and>
          ta_newest_start_durable_ts ta > ta_newest_stop_ts ta,
        ta_newest_stop_durable_ts ta \<noteq> WT_TS_NONE \<and> ta_newest_stop_durable_ts ta < ta_oldest_start_ts ta])
     (\<lambda>_. case parent of None \<Rightarrow> Inr ()
       | Some p \<Rightarrow>
         if is_metadata then Inr ()
         else if WT_TIME_AGGREGATE_IS_EMPTY p then time_aggregate_validate_parent_stable g ta
         else time_aggregate_validate_parent ta p)"

definition time_value_validate_parent_stable :: "wt_txn_global \<Rightarrow> time_window \<Rightarrow> unit result" where
  "time_value_validate_parent_stable g tw =
     (let stable = time_stable g in reject_if
       [tw_durable_start_ts tw > stable,
        tw_start_ts tw > stable,
        tw_durable_stop_ts tw > stable,
        tw_stop_ts tw \<noteq> WT_TS_MAX \<and> tw_stop_ts tw > stable])"

definition time_value_validate_parent :: "time_window \<Rightarrow> time_aggregate \<Rightarrow> unit result" where
  "time_value_validate_parent tw parent = reject_if
     [ta_newest_start_durable_ts parent \<noteq> WT_TS_NONE \<and> tw_durable_start_ts tw > ta_newest_start_durable_ts parent,
      tw_start_ts tw < ta_oldest_start_ts parent,
      tw_start_txn tw > ta_newest_txn parent,
      ta_newest_stop_durable_ts parent \<noteq> WT_TS_NONE \<and> tw_durable_stop_ts tw > ta_newest_stop_durable_ts parent,
      tw_stop_ts tw > ta_newest_stop_ts parent,
      tw_stop_txn tw > ta_newest_stop_txn parent,
      tw_prepare tw \<noteq> 0 \<and> ta_prepare parent = 0]"

definition wt_time_value_validate ::
    "wt_txn_global \<Rightarrow> bool \<Rightarrow> time_window \<Rightarrow> time_aggregate option \<Rightarrow> unit result" where
  "wt_time_value_validate g is_metadata tw parent =
     wt_ret (reject_if
       [tw_start_ts tw > tw_stop_ts tw,
        tw_start_txn tw > tw_stop_txn tw,
        tw_start_ts tw > tw_durable_start_ts tw,
        tw_stop_ts tw \<noteq> WT_TS_MAX \<and> tw_stop_ts tw > tw_durable_stop_ts tw,
        tw_durable_start_ts tw \<noteq> tw_durable_stop_ts tw \<and> tw_durable_start_ts tw > tw_stop_ts tw,
        tw_durable_stop_ts tw \<noteq> WT_TS_NONE \<and> tw_durable_start_ts tw > tw_durable_stop_ts tw])
     (\<lambda>_. case parent of None \<Rightarrow> Inr ()
       | Some p \<Rightarrow>
         if is_metadata then Inr ()
         else if WT_TIME_AGGREGATE_IS_EMPTY p then time_value_validate_parent_stable g tw
         else time_value_validate_parent tw p)"

subsection \<open>Aggregating valid windows\<close>

lemma reject_if_Inr [simp]: "reject_if bs = Inr u \<longleftrightarrow> \<not> (\<exists>b\<in>set bs. b)"
  by (induction bs) auto

declare reject_if.simps [simp del]

abbreviation valid_window :: "time_window \<Rightarrow> bool" where
  "valid_window tw \<equiv> wt_time_value_validate (wt_txn_global_init 0) False tw None = Inr ()"

definition aggregate :: "time_window list \<Rightarrow> time_aggregate" where
  "aggregate tws = fold (\<lambda>tw ta. WT_TIME_AGGREGATE_UPDATE ta tw) tws WT_TIME_AGGREGATE_INIT_MERGE"

text \<open>The window is inside the aggregate.\<close>

definition covered :: "time_aggregate \<Rightarrow> time_window \<Rightarrow> bool" where
  "covered ta tw \<longleftrightarrow> tw_durable_start_ts tw \<le> ta_newest_start_durable_ts ta \<and>
     ta_oldest_start_ts ta \<le> tw_start_ts tw \<and> tw_start_txn tw \<le> ta_newest_txn ta \<and>
     tw_durable_stop_ts tw \<le> ta_newest_stop_durable_ts ta \<and> tw_stop_ts tw \<le> ta_newest_stop_ts ta \<and>
     tw_stop_txn tw \<le> ta_newest_stop_txn ta \<and> (tw_prepare tw \<noteq> 0 \<longrightarrow> ta_prepare ta \<noteq> 0)"

lemma covered_update: "covered (WT_TIME_AGGREGATE_UPDATE ta tw) tw"
  by (auto simp: covered_def WT_TIME_AGGREGATE_UPDATE_def Let_def max_def)

lemma covered_mono: "covered ta w \<Longrightarrow> covered (WT_TIME_AGGREGATE_UPDATE ta tw) w"
  by (auto simp: covered_def WT_TIME_AGGREGATE_UPDATE_def Let_def le_max_iff_disj min_le_iff_disj)

lemma aggregate_covers: "tw \<in> set tws \<Longrightarrow> covered (aggregate tws) tw"
  by (induction tws rule: rev_induct) (auto simp: aggregate_def intro: covered_update covered_mono)

lemma aggregate_init_merge: "ta_init_merge (aggregate tws) = 1"
  by (induction tws rule: rev_induct)
    (simp_all add: aggregate_def WT_TIME_AGGREGATE_INIT_MERGE_def WT_TIME_AGGREGATE_UPDATE_def Let_def)

lemma covered_nonempty:
  assumes "covered ta tw" and "valid_window tw" and "ta_init_merge ta = 1"
  shows "\<not> WT_TIME_AGGREGATE_IS_EMPTY ta"
proof
  assume e: "WT_TIME_AGGREGATE_IS_EMPTY ta"
  then have "ta_oldest_start_ts ta = - 1" "ta_newest_stop_ts ta = 0"
    using assms(3) by (simp_all add: WT_TIME_AGGREGATE_IS_EMPTY_def WT_TS_NONE_def WT_TS_MAX_def)
  then have "tw_start_ts tw = - 1" "tw_stop_ts tw = 0" using assms(1) by (auto simp: covered_def word_order.extremum_unique)
  moreover have "(0 :: u64) < - 1" by (simp add: word_less_nat_alt unat_minus_1_u64)
  ultimately show False using assms(2) by (auto simp: wt_time_value_validate_def wt_ret_Inr_iff)
qed

text \<open>The values of an aggregate come from windows, or are the initial ones.\<close>

lemma aggregate_from:
  assumes "tws \<noteq> []"
  shows "\<exists>tw\<in>set tws. ta_newest_start_durable_ts (aggregate tws) = tw_durable_start_ts tw"
    and "\<exists>tw\<in>set tws. ta_newest_stop_ts (aggregate tws) = tw_stop_ts tw"
    and "\<exists>tw\<in>set tws. ta_newest_stop_durable_ts (aggregate tws) = tw_durable_stop_ts tw"
    and "\<exists>tw\<in>set tws. ta_newest_txn (aggregate tws) = tw_start_txn tw \<or> ta_newest_txn (aggregate tws) = tw_stop_txn tw"
proof -
  have "(\<exists>tw\<in>set tws. ta_newest_start_durable_ts (aggregate tws) = tw_durable_start_ts tw) \<and>
    (\<exists>tw\<in>set tws. ta_newest_stop_ts (aggregate tws) = tw_stop_ts tw) \<and>
    (\<exists>tw\<in>set tws. ta_newest_stop_durable_ts (aggregate tws) = tw_durable_stop_ts tw) \<and>
    (\<exists>tw\<in>set tws. ta_newest_txn (aggregate tws) = tw_start_txn tw \<or> ta_newest_txn (aggregate tws) = tw_stop_txn tw)"
    using assms
  proof (induction tws rule: rev_nonempty_induct)
    case (single tw)
    then show ?case
      by (auto simp: aggregate_def WT_TIME_AGGREGATE_INIT_MERGE_def WT_TIME_AGGREGATE_UPDATE_def Let_def
          WT_TS_NONE_def WT_TXN_NONE_def max_def)
  next
    case (snoc tw tws)
    then show ?case
      by (auto simp: aggregate_def WT_TIME_AGGREGATE_UPDATE_def Let_def max_def)
  qed
  then show "\<exists>tw\<in>set tws. ta_newest_start_durable_ts (aggregate tws) = tw_durable_start_ts tw"
    "\<exists>tw\<in>set tws. ta_newest_stop_ts (aggregate tws) = tw_stop_ts tw"
    "\<exists>tw\<in>set tws. ta_newest_stop_durable_ts (aggregate tws) = tw_durable_stop_ts tw"
    "\<exists>tw\<in>set tws. ta_newest_txn (aggregate tws) = tw_start_txn tw \<or> ta_newest_txn (aggregate tws) = tw_stop_txn tw"
    by blast+
qed

lemma valid_windowD:
  assumes "valid_window tw"
  shows "tw_start_ts tw \<le> tw_stop_ts tw" "tw_start_txn tw \<le> tw_stop_txn tw" "tw_start_ts tw \<le> tw_durable_start_ts tw"
    "tw_stop_ts tw \<noteq> WT_TS_MAX \<Longrightarrow> tw_stop_ts tw \<le> tw_durable_stop_ts tw"
    "tw_durable_start_ts tw \<noteq> tw_durable_stop_ts tw \<Longrightarrow> tw_durable_start_ts tw \<le> tw_stop_ts tw"
    "tw_durable_stop_ts tw \<noteq> WT_TS_NONE \<Longrightarrow> tw_durable_start_ts tw \<le> tw_durable_stop_ts tw"
  using assms by (auto simp: wt_time_value_validate_def wt_ret_Inr_iff not_less)


definition sample_window :: time_window where
  "sample_window = WT_TIME_WINDOW_SET_STOP 9 30 35 (WT_TIME_WINDOW_SET_START 7 10 0 WT_TIME_WINDOW_INIT)"


text \<open>
  Two windows that each validate, whose aggregate does not: the durable start of the first comes after
  its stop (allowed since it equals its durable stop), and the second has a later durable stop.
\<close>

lemma aggregate_of_valid_rejected:
  "\<exists>a b. valid_window a \<and> valid_window b \<and>
    wt_time_aggregate_validate (wt_txn_global_init 0) False (aggregate [a, b]) None = Inl EINVAL"
proof (intro exI conjI)
  let ?a = "WT_TIME_WINDOW_SET_STOP 7 10 20 (WT_TIME_WINDOW_SET_START 7 10 20 WT_TIME_WINDOW_INIT)"
  let ?b = "WT_TIME_WINDOW_SET_STOP 9 5 30 (WT_TIME_WINDOW_SET_START 6 5 5 WT_TIME_WINDOW_INIT)"
  show "valid_window ?a" "valid_window ?b"
    "wt_time_aggregate_validate (wt_txn_global_init 0) False (aggregate [?a, ?b]) None = Inl EINVAL"
    by code_simp+
qed

definition merge_all :: "time_aggregate list \<Rightarrow> time_aggregate" where
  "merge_all tas = fold (\<lambda>ta acc. WT_TIME_AGGREGATE_MERGE acc ta) tas WT_TIME_AGGREGATE_INIT_MERGE"

definition inside :: "time_aggregate \<Rightarrow> time_aggregate \<Rightarrow> bool" where
  "inside p ta \<longleftrightarrow> ta_newest_start_durable_ts ta \<le> ta_newest_start_durable_ts p \<and>
     ta_newest_stop_durable_ts ta \<le> ta_newest_stop_durable_ts p \<and> ta_oldest_start_ts p \<le> ta_oldest_start_ts ta \<and>
     ta_newest_txn ta \<le> ta_newest_txn p \<and> ta_newest_stop_ts ta \<le> ta_newest_stop_ts p \<and>
     ta_newest_stop_txn ta \<le> ta_newest_stop_txn p \<and> (ta_prepare ta \<noteq> 0 \<longrightarrow> ta_prepare p \<noteq> 0)"

lemma inside_merge: "inside (WT_TIME_AGGREGATE_MERGE acc ta) ta"
  by (auto simp: inside_def WT_TIME_AGGREGATE_MERGE_def Let_def le_max_iff_disj min_le_iff_disj)

lemma inside_mono: "inside acc t \<Longrightarrow> inside (WT_TIME_AGGREGATE_MERGE acc ta) t"
  by (auto simp: inside_def WT_TIME_AGGREGATE_MERGE_def Let_def le_max_iff_disj min_le_iff_disj)

lemma merge_all_inside: "ta \<in> set tas \<Longrightarrow> inside (merge_all tas) ta"
  by (induction tas rule: rev_induct) (auto simp: merge_all_def intro: inside_merge inside_mono)

lemma merge_all_init_merge: "ta_init_merge (merge_all tas) = 1"
  by (induction tas rule: rev_induct)
    (simp_all add: merge_all_def WT_TIME_AGGREGATE_INIT_MERGE_def WT_TIME_AGGREGATE_MERGE_def Let_def)

text \<open>
  Merging the aggregates of a page's children gives an aggregate that every child validates
  against: the validation that compares a child's aggregate with its parent's never rejects an
  aggregate that was merged into the parent.
\<close>

theorem merge_validates:
  assumes "\<forall>ta\<in>set tas. wt_time_aggregate_validate g is_metadata ta None = Inr ()"
  shows "\<forall>ta\<in>set tas. wt_time_aggregate_validate g is_metadata ta (Some (merge_all tas)) = Inr ()"
proof
  fix ta assume ta: "ta \<in> set tas"
  have v: "wt_time_aggregate_validate g is_metadata ta None = Inr ()" using assms ta by blast
  have c: "inside (merge_all tas) ta" by (rule merge_all_inside [OF ta])
  have "\<not> WT_TIME_AGGREGATE_IS_EMPTY (merge_all tas)"
  proof
    assume "WT_TIME_AGGREGATE_IS_EMPTY (merge_all tas)"
    then have "ta_oldest_start_ts (merge_all tas) = - 1" "ta_newest_stop_ts (merge_all tas) = 0"
      by (simp_all add: WT_TIME_AGGREGATE_IS_EMPTY_def WT_TS_NONE_def WT_TS_MAX_def merge_all_init_merge)
    then have "ta_oldest_start_ts ta = - 1" "ta_newest_stop_ts ta = 0"
      using c by (auto simp: inside_def word_order.extremum_unique)
    moreover have "(0 :: u64) < - 1" by (simp add: word_less_nat_alt unat_minus_1_u64)
    ultimately show False using v by (auto simp: wt_time_aggregate_validate_def wt_ret_Inr_iff)
  qed
  then show "wt_time_aggregate_validate g is_metadata ta (Some (merge_all tas)) = Inr ()"
    using v c by (auto simp: wt_time_aggregate_validate_def wt_ret_Inr_iff time_aggregate_validate_parent_def inside_def)
qed

theorem merge_validates_witness:
  "wt_time_aggregate_validate (wt_txn_global_init 1) False (aggregate [sample_window])
     (Some (merge_all [aggregate [sample_window]])) = Inr ()"
proof -
  have "\<forall>ta\<in>set [aggregate [sample_window]]. wt_time_aggregate_validate (wt_txn_global_init 1) False ta None = Inr ()"
    by code_simp
  from merge_validates [OF this] show ?thesis by simp
qed

end
