(* ===== verification/TxnVisibility.thy ===== *)
theory TxnVisibility
  imports TxnSnapshot TimeWindow
begin

text \<open>
  Visibility, \<open>src/include/txn_inline.h\<close>: which transaction IDs and timestamps the session's
  transaction sees, which are seen by every transaction, and which version of a key a read returns.
  What \<open>session->dhandle\<close> says of the current tree is in the session record.
\<close>

subsection \<open>Transaction IDs\<close>

definition wt_txn_oldest_id :: "cs \<Rightarrow> u64" where
  "wt_txn_oldest_id s =
     (if s_tree (cs_ses s) \<and> s_metadata (cs_ses s) then tg_metadata_pinned (glob s)
      else
        let oldest_id = tg_oldest_id (glob s) in
        if \<not> c_recovering (cs_conn s) \<or> \<not> s_tree (cs_ses s) \<or> s_logged (cs_ses s) then
          let checkpoint_pinned = sh_pinned_id (tg_ckpt_shared (glob s)) in
          if checkpoint_pinned = WT_TXN_NONE \<or> oldest_id < checkpoint_pinned then oldest_id else checkpoint_pinned
        else
          let recovery_ckpt_snap_min = c_recovery_snap_min (cs_conn s) in
          if recovery_ckpt_snap_min = WT_TXN_NONE \<or> oldest_id < recovery_ckpt_snap_min then oldest_id
          else recovery_ckpt_snap_min)"

definition wt_txn_pinned_timestamp :: "cs \<Rightarrow> u64" where
  "wt_txn_pinned_timestamp s =
     (if \<not> tg_has_pinned (glob s) then WT_TS_NONE
      else if c_version_cursors (cs_conn s) > 0 then tg_version_cursor_ts (glob s)
      else
        let pinned_ts = tg_pinned_ts (glob s); checkpoint_ts = tg_checkpoint_ts (glob s) in
        if checkpoint_ts \<noteq> 0 \<and> checkpoint_ts < pinned_ts then checkpoint_ts else pinned_ts)"

text \<open>\<open>WT_BINARY_SEARCH\<close>: \<open>base\<close> and \<open>limit\<close> delimit what is left of the array.\<close>

function wt_binary_search :: "u64 \<Rightarrow> u64 list \<Rightarrow> nat \<Rightarrow> nat \<Rightarrow> bool" where
  "wt_binary_search key arrayp base limit =
     (if limit = 0 then False
      else
        let indx = base + limit div 2 in
        if arrayp ! indx < key then wt_binary_search key arrayp (indx + 1) ((limit - 1) div 2)
        else if arrayp ! indx = key then True
        else wt_binary_search key arrayp base (limit div 2))"
  by pat_completeness auto
termination by (relation "measure (\<lambda>(_, _, _, limit). limit)") auto

declare wt_binary_search.simps [simp del]

definition WT_BINARY_SEARCH :: "u64 \<Rightarrow> u64 list \<Rightarrow> bool" where
  "WT_BINARY_SEARCH key arrayp = wt_binary_search key arrayp 0 (length arrayp)"

definition wt_txn_visible_id_snapshot :: "u64 \<Rightarrow> u64 \<Rightarrow> u64 \<Rightarrow> u64 list \<Rightarrow> bool" where
  "wt_txn_visible_id_snapshot txnid snap_min snap_max snapshot =
     (if snap_max \<le> txnid then False
      else if snapshot = [] \<or> txnid < snap_min then True
      else \<not> WT_BINARY_SEARCH txnid snapshot)"

definition txn_visible_all_id :: "cs \<Rightarrow> u64 \<Rightarrow> bool" where
  "txn_visible_all_id s txnid =
     (if F_ISSET s WT_TXN_IS_CHECKPOINT
      then wt_txn_visible_id_snapshot txnid (tx_snap_min (txn s)) (tx_snap_max (txn s)) (tx_snapshot (txn s))
      else txnid < wt_txn_oldest_id s)"

definition txn_visible_id :: "cs \<Rightarrow> u64 \<Rightarrow> bool" where
  "txn_visible_id s txnid =
     (if txnid = WT_TXN_NONE then True
      else if txnid = WT_TXN_ABORTED then False
      else if txnid = tx_id (txn s) then True
      else if tx_isolation (txn s) = WT_ISO_READ_UNCOMMITTED then True
      else wt_txn_visible_id_snapshot txnid (tx_snap_min (txn s)) (tx_snap_max (txn s)) (tx_snapshot (txn s)))"

subsection \<open>IDs with timestamps\<close>

definition wt_txn_visible_all :: "cs \<Rightarrow> u64 \<Rightarrow> u64 \<Rightarrow> bool" where
  "wt_txn_visible_all s txnid timestamp =
     (if c_closing (cs_conn s) then True
      else if \<not> txn_visible_all_id s txnid then False
      else if timestamp = WT_TS_NONE then True
      else if F_ISSET s WT_TXN_IS_CHECKPOINT
      then tx_ckpt_oldest_ts (txn s) \<noteq> WT_TS_NONE \<and> timestamp \<le> tx_ckpt_oldest_ts (txn s)
      else wt_txn_pinned_timestamp s \<noteq> WT_TS_NONE \<and> timestamp \<le> wt_txn_pinned_timestamp s)"

definition wt_txn_visible :: "cs \<Rightarrow> u64 \<Rightarrow> u64 \<Rightarrow> bool" where
  "wt_txn_visible s txnid timestamp =
     (if \<not> txn_visible_id s txnid then False
      else if F_ISSET s WT_TXN_HAS_ID \<and> txnid = tx_id (txn s) then True
      else if \<not> F_ISSET s WT_TXN_SHARED_TS_READ \<or> timestamp = WT_TS_NONE then True
      else if s_reading_checkpoint (cs_ses s) then timestamp \<le> tx_ckpt_read_ts (txn s)
      else timestamp \<le> sh_read_ts (shared_of s))"

subsection \<open>Updates\<close>

datatype upd_type = WT_UPDATE_INVALID | WT_UPDATE_MODIFY | WT_UPDATE_RESERVE | WT_UPDATE_STANDARD | WT_UPDATE_TOMBSTONE

datatype prepare_state = WT_PREPARE_INIT | WT_PREPARE_INPROGRESS | WT_PREPARE_LOCKED | WT_PREPARE_RESOLVED

datatype upd_flag = WT_UPDATE_DS | WT_UPDATE_HS | WT_UPDATE_PREPARE_RESTORED_FROM_DS
  | WT_UPDATE_RESTORED_FAST_TRUNCATE | WT_UPDATE_RESTORED_FROM_DS | WT_UPDATE_RESTORED_FROM_HS
  | WT_UPDATE_TO_DELETE_FROM_HS

record wt_update =
  up_txnid :: u64
  up_durable_ts :: u64
  up_start_ts :: u64
  up_type :: upd_type
  up_prepare_state :: prepare_state
  up_flags :: "upd_flag set"
  up_data :: "u8 list"

record wt_update_value =
  uv_data :: "u8 list"
  uv_tw :: time_window
  uv_type :: upd_type
  uv_skip_buf :: bool

definition WT_UPDATE_DATA_VALUE :: "upd_type \<Rightarrow> bool" where
  "WT_UPDATE_DATA_VALUE t \<longleftrightarrow> t = WT_UPDATE_STANDARD \<or> t = WT_UPDATE_TOMBSTONE"

definition prepared_state :: "prepare_state \<Rightarrow> bool" where
  "prepared_state st \<longleftrightarrow> st = WT_PREPARE_INPROGRESS \<or> st = WT_PREPARE_LOCKED"

definition wt_upd_value_clear :: "wt_update_value \<Rightarrow> wt_update_value" where
  "wt_upd_value_clear v = v\<lparr>uv_data := [], uv_tw := WT_TIME_WINDOW_INIT, uv_type := WT_UPDATE_INVALID\<rparr>"

definition wt_upd_value_assign :: "wt_update_value \<Rightarrow> wt_update \<Rightarrow> wt_update_value" where
  "wt_upd_value_assign v upd =
     (let v = (if \<not> uv_skip_buf v then v\<lparr>uv_data := up_data upd\<rparr> else v);
          prep = (if prepared_state (up_prepare_state upd) then 1 else 0);
          tw = (if up_type upd = WT_UPDATE_TOMBSTONE
                then (uv_tw v)\<lparr>tw_durable_stop_ts := up_durable_ts upd, tw_stop_ts := up_start_ts upd,
                       tw_stop_txn := up_txnid upd, tw_prepare := prep\<rparr>
                else (uv_tw v)\<lparr>tw_durable_start_ts := up_durable_ts upd, tw_start_ts := up_start_ts upd,
                       tw_start_txn := up_txnid upd, tw_prepare := prep\<rparr>)
      in v\<lparr>uv_tw := tw, uv_type := up_type upd\<rparr>)"

definition wt_txn_upd_visible_all :: "cs \<Rightarrow> wt_update \<Rightarrow> bool" where
  "wt_txn_upd_visible_all s upd =
     (if up_prepare_state upd = WT_PREPARE_LOCKED \<or> up_prepare_state upd = WT_PREPARE_INPROGRESS then False
      else wt_txn_visible_all s (up_txnid upd) (up_durable_ts upd))"

definition wt_txn_upd_value_visible_all :: "cs \<Rightarrow> wt_update_value \<Rightarrow> bool" where
  "wt_txn_upd_value_visible_all s v =
     (if uv_type v = WT_UPDATE_TOMBSTONE
      then wt_txn_visible_all s (tw_stop_txn (uv_tw v)) (tw_durable_stop_ts (uv_tw v))
      else wt_txn_visible_all s (tw_start_txn (uv_tw v)) (tw_durable_start_ts (uv_tw v)))"

definition wt_txn_tw_stop_visible :: "cs \<Rightarrow> time_window \<Rightarrow> bool" where
  "wt_txn_tw_stop_visible s tw \<longleftrightarrow>
     WT_TIME_WINDOW_HAS_STOP tw \<and> tw_prepare tw = 0 \<and> wt_txn_visible s (tw_stop_txn tw) (tw_stop_ts tw)"

definition tw_start_settled :: "time_window \<Rightarrow> bool" where
  "tw_start_settled tw \<longleftrightarrow>
     WT_TIME_WINDOW_HAS_STOP tw \<and>
       (tw_start_txn tw \<noteq> tw_stop_txn tw \<or> tw_start_ts tw \<noteq> tw_stop_ts tw \<or>
        tw_durable_start_ts tw \<noteq> tw_durable_stop_ts tw) \<or> tw_prepare tw = 0"

definition wt_txn_tw_start_visible :: "cs \<Rightarrow> time_window \<Rightarrow> bool" where
  "wt_txn_tw_start_visible s tw \<longleftrightarrow> tw_start_settled tw \<and> wt_txn_visible s (tw_start_txn tw) (tw_start_ts tw)"

definition wt_txn_tw_start_visible_all :: "cs \<Rightarrow> time_window \<Rightarrow> bool" where
  "wt_txn_tw_start_visible_all s tw \<longleftrightarrow>
     tw_start_settled tw \<and> wt_txn_visible_all s (tw_start_txn tw) (tw_durable_start_ts tw)"

definition wt_txn_tw_stop_visible_all :: "cs \<Rightarrow> time_window \<Rightarrow> bool" where
  "wt_txn_tw_stop_visible_all s tw \<longleftrightarrow>
     WT_TIME_WINDOW_HAS_STOP tw \<and> tw_prepare tw = 0 \<and> wt_txn_visible_all s (tw_stop_txn tw) (tw_durable_stop_ts tw)"

text \<open>
  Another thread may change an update's prepare state while it is looked at: the argument lists what
  successive rounds of the loop find, the update and then its state read again. The result has the
  update as the deciding round saw it; \<open>None\<close> means the list ended with the loop still waiting.
\<close>

datatype visible_type = WT_VISIBLE_FALSE | WT_VISIBLE_PREPARE | WT_VISIBLE_TRUE

type_synonym upd_rounds = "(wt_update \<times> prepare_state) list"

fun wt_txn_upd_visible_type :: "cs \<Rightarrow> upd_rounds \<Rightarrow> (visible_type \<times> wt_update) option" where
  "wt_txn_upd_visible_type s [] = None"
| "wt_txn_upd_visible_type s ((upd, again) # rounds) =
     (if up_prepare_state upd = WT_PREPARE_LOCKED then wt_txn_upd_visible_type s rounds
      else if s_hs (cs_ses s) \<and> up_txnid upd \<noteq> WT_TXN_ABORTED \<and> up_type upd = WT_UPDATE_STANDARD
      then Some (WT_VISIBLE_TRUE, upd)
      else if up_prepare_state upd \<noteq> again then wt_txn_upd_visible_type s rounds
      else if \<not> wt_txn_visible s (up_txnid upd) (up_start_ts upd) then Some (WT_VISIBLE_FALSE, upd)
      else if again = WT_PREPARE_INPROGRESS then Some (WT_VISIBLE_PREPARE, upd)
      else Some (WT_VISIBLE_TRUE, upd))"

definition wt_txn_upd_visible :: "cs \<Rightarrow> upd_rounds \<Rightarrow> bool option" where
  "wt_txn_upd_visible s rounds = map_option (\<lambda>(v, _). v = WT_VISIBLE_TRUE) (wt_txn_upd_visible_type s rounds)"

subsection \<open>Reading an update list\<close>

text \<open>
  An element of the list is the update as the walk first reads it, with the rounds of its visibility
  check. \<open>rs_prepare\<close> and \<open>rs_restored\<close> are the updates the walk saves for its caller.
\<close>

type_synonym upd_elem = "wt_update \<times> upd_rounds"

record read_state =
  rs_value :: wt_update_value
  rs_prepare :: "wt_update option"
  rs_restored :: "wt_update option"

text \<open>The tombstone whose stop goes to the value's time window when tombstones are ignored.\<close>

definition note_tombstone :: "wt_update \<Rightarrow> wt_update_value \<Rightarrow> wt_update_value" where
  "note_tombstone upd v = v\<lparr>uv_tw := (uv_tw v)\<lparr>tw_durable_stop_ts := up_durable_ts upd, tw_stop_ts := up_start_ts upd,
     tw_stop_txn := up_txnid upd, tw_prepare := (if prepared_state (up_prepare_state upd) then 1 else 0)\<rparr>\<rparr>"

definition save_skipped :: "wt_update \<Rightarrow> read_state \<Rightarrow> read_state" where
  "save_skipped upd r =
     (let r = (if prepared_state (up_prepare_state upd) \<and> rs_prepare r = None \<and>
                  WT_UPDATE_PREPARE_RESTORED_FROM_DS \<in> up_flags upd then r\<lparr>rs_prepare := Some upd\<rparr> else r)
      in if WT_UPDATE_RESTORED_FROM_HS \<in> up_flags upd \<and> up_type upd = WT_UPDATE_STANDARD
         then r\<lparr>rs_restored := Some upd\<rparr> else r)"

text \<open>The walk ends with the rest of the list from the update it found, empty when there is none.\<close>

fun read_walk :: "bool \<Rightarrow> cs \<Rightarrow> upd_elem list \<Rightarrow> read_state \<Rightarrow>
    (read_state \<times> (wt_update \<times> upd_elem list) option) result option" where
  "read_walk ignore_tombstone s [] r = Some (Inr (r, None))"
| "read_walk ignore_tombstone s ((upd, rounds) # us) r =
     (if up_type upd = WT_UPDATE_RESERVE then read_walk ignore_tombstone s us r
      else if up_type upd = WT_UPDATE_TOMBSTONE \<and> ignore_tombstone \<and> \<not> WT_TIME_WINDOW_HAS_STOP (uv_tw (rs_value r))
      then read_walk ignore_tombstone s us (r\<lparr>rs_value := note_tombstone upd (rs_value r)\<rparr>)
      else case wt_txn_upd_visible_type s rounds of
        None \<Rightarrow> None
      | Some (WT_VISIBLE_TRUE, seen) \<Rightarrow> Some (Inr (r, Some (seen, us)))
      | Some (WT_VISIBLE_PREPARE, seen) \<Rightarrow>
          if F_ISSET s WT_TXN_IGNORE_PREPARE then read_walk ignore_tombstone s us (save_skipped upd r)
          else Some (Inl WT_PREPARE_CONFLICT)
      | Some (WT_VISIBLE_FALSE, seen) \<Rightarrow> read_walk ignore_tombstone s us (save_skipped upd r))"

text \<open>\<open>reconstruct\<close> is \<open>__wt_modify_reconstruct_from_upd_list\<close> on the modify and the updates after it.\<close>

definition wt_txn_read_upd_list_internal ::
    "(wt_update \<Rightarrow> upd_elem list \<Rightarrow> wt_update_value \<Rightarrow> wt_update_value result) \<Rightarrow> bool \<Rightarrow> cs \<Rightarrow> upd_elem list \<Rightarrow>
      wt_update_value \<Rightarrow> read_state result option" where
  "wt_txn_read_upd_list_internal reconstruct ignore_tombstone s us v =
     (case read_walk ignore_tombstone s us \<lparr>rs_value = wt_upd_value_clear v, rs_prepare = None, rs_restored = None\<rparr> of
        None \<Rightarrow> None
      | Some (Inl e) \<Rightarrow> Some (Inl e)
      | Some (Inr (r, None)) \<Rightarrow> Some (Inr r)
      | Some (Inr (r, Some (upd, rest))) \<Rightarrow>
          if up_type upd \<noteq> WT_UPDATE_MODIFY \<or> uv_skip_buf (rs_value r)
          then Some (Inr (r\<lparr>rs_value := wt_upd_value_assign (rs_value r) upd\<rparr>))
          else Some (wt_ret (reconstruct upd rest (rs_value r)) (\<lambda>v. Inr (r\<lparr>rs_value := v\<rparr>))))"

definition wt_txn_read_upd_list ::
    "(wt_update \<Rightarrow> upd_elem list \<Rightarrow> wt_update_value \<Rightarrow> wt_update_value result) \<Rightarrow> bool \<Rightarrow> cs \<Rightarrow> upd_elem list \<Rightarrow>
      wt_update_value \<Rightarrow> wt_update_value result option" where
  "wt_txn_read_upd_list reconstruct ignore_tombstone s us v =
     map_option (map_sum (\<lambda>e. e) rs_value) (wt_txn_read_upd_list_internal reconstruct ignore_tombstone s us v)"

subsection \<open>Reading a key\<close>

text \<open>
  What \<open>__wt_txn_read\<close> finds around it: the update list at each attempt (by the two flags that count
  the retries), whether the page has a disk image, the on-page value, the search of the history
  store, and whether a saved prepared update has been resolved when the attempt is over.
\<close>

record read_env =
  re_updates :: "bool \<Rightarrow> bool \<Rightarrow> upd_elem list"
  re_dsk :: bool
  re_onpage :: "(u8 list \<times> time_window) result"
  re_hs_open :: bool
  re_hs_find :: "wt_update_value \<Rightarrow> wt_update_value result"
  re_resolved :: "wt_update \<Rightarrow> bool"
  re_reconstruct :: "wt_update \<Rightarrow> upd_elem list \<Rightarrow> wt_update_value \<Rightarrow> wt_update_value result"
  re_ignore_tombstone :: bool

datatype onpage_read = OnpageReturn wt_update_value | OnpageError wt_error | OnpageNext wt_update_value

definition read_onpage_value :: "read_env \<Rightarrow> cs \<Rightarrow> wt_update_value \<Rightarrow> onpage_read" where
  "read_onpage_value env s v =
     (let have_stop_tw = WT_TIME_WINDOW_HAS_STOP (uv_tw v) in
      case re_onpage env of Inl e \<Rightarrow> OnpageError e
      | Inr (buf, tw) \<Rightarrow>
        if \<not> have_stop_tw \<and> wt_txn_tw_stop_visible s tw \<and> \<not> re_ignore_tombstone env
        then OnpageReturn (v\<lparr>uv_data := [], uv_type := WT_UPDATE_TOMBSTONE, uv_tw := WT_TIME_WINDOW_COPY_STOP (uv_tw v) tw\<rparr>)
        else
          let v = v\<lparr>uv_data := buf\<rparr>;
              v = (if \<not> have_stop_tw \<and> WT_TIME_WINDOW_HAS_STOP tw \<and> s_hs (cs_ses s)
                   then v\<lparr>uv_tw := WT_TIME_WINDOW_COPY_STOP (uv_tw v) tw\<rparr> else v)
          in if s_hs (cs_ses s) \<or> wt_txn_tw_start_visible s tw
             then OnpageReturn (v\<lparr>uv_data := (if uv_skip_buf v then [] else buf), uv_type := WT_UPDATE_STANDARD,
                    uv_tw := WT_TIME_WINDOW_COPY_START (uv_tw v) tw\<rparr>)
             else OnpageNext v)"

function wt_txn_read :: "read_env \<Rightarrow> cs \<Rightarrow> bool \<Rightarrow> bool \<Rightarrow> wt_update_value \<Rightarrow> wt_update_value result option" where
  "wt_txn_read env s read_onpage prepare_retry v =
     (case wt_txn_read_upd_list_internal (re_reconstruct env) (re_ignore_tombstone env) s
             (re_updates env read_onpage prepare_retry) v of
        None \<Rightarrow> None
      | Some (Inl e) \<Rightarrow> Some (Inl e)
      | Some (Inr r) \<Rightarrow>
          let v = rs_value r in
          if WT_UPDATE_DATA_VALUE (uv_type v) \<or> uv_type v = WT_UPDATE_MODIFY \<and> uv_skip_buf v then Some (Inr v)
          else if \<not> re_dsk env then Some (Inr (v\<lparr>uv_type := WT_UPDATE_TOMBSTONE\<rparr>))
          else
            case (case rs_restored r of Some u \<Rightarrow> OnpageNext (v\<lparr>uv_data := up_data u\<rparr>)
                  | None \<Rightarrow> if read_onpage then read_onpage_value env s v else OnpageNext v) of
              OnpageReturn v \<Rightarrow> Some (Inr v)
            | OnpageError e \<Rightarrow>
                if e = WT_RESTART \<and> read_onpage then wt_txn_read env s False prepare_retry v else Some (Inl e)
            | OnpageNext v \<Rightarrow>
                case (if re_hs_open env \<and> \<not> s_hs (cs_ses s) then re_hs_find env v else Inr v) of
                  Inl e \<Rightarrow> Some (Inl e)
                | Inr v \<Rightarrow>
                    (case rs_prepare r of
                       Some u \<Rightarrow> if prepare_retry \<and> re_resolved env u
                                 then wt_txn_read env s read_onpage False (wt_upd_value_clear v) else Some (Inr v)
                     | None \<Rightarrow> Some (Inr v)))"
  by pat_completeness auto
termination
  by (relation "measure (\<lambda>(env, s, read_onpage, prepare_retry, v). of_bool read_onpage + of_bool prepare_retry)") auto

declare wt_txn_read.simps [simp del]

subsection \<open>The binary search\<close>

lemma wt_binary_search_iff:
  assumes "sorted a" and "base + limit \<le> length a"
  shows "wt_binary_search key a base limit \<longleftrightarrow> (\<exists>i. base \<le> i \<and> i < base + limit \<and> a ! i = key)"
  using assms
proof (induction key a base limit rule: wt_binary_search.induct)
  case (1 key a base limit)
  define indx where "indx = base + limit div 2"
  have le: "a ! i \<le> a ! j" if "i \<le> j" "j < length a" for i j
    using 1(3) that by (rule sorted_nth_mono)
  show ?case
  proof (cases "limit = 0")
    case True
    then show ?thesis by (subst wt_binary_search.simps) simp
  next
    case limit: False
    then have idx: "base \<le> indx" "indx < base + limit" by (simp_all add: indx_def)
    consider (less) "a ! indx < key" | (eq) "a ! indx = key" | (gt) "key < a ! indx" by fastforce
    then show ?thesis
    proof cases
      case less
      have "wt_binary_search key a base limit \<longleftrightarrow> wt_binary_search key a (indx + 1) ((limit - 1) div 2)"
        using limit less by (subst wt_binary_search.simps) (simp add: indx_def)
      also have "\<dots> \<longleftrightarrow> (\<exists>i. indx + 1 \<le> i \<and> i < base + limit \<and> a ! i = key)"
      proof -
        have "indx + 1 + (limit - 1) div 2 = base + limit" using limit unfolding indx_def by presburger
        then show ?thesis using 1(1) [OF limit indx_def less] 1(3,4) by simp
      qed
      also have "\<dots> \<longleftrightarrow> (\<exists>i. base \<le> i \<and> i < base + limit \<and> a ! i = key)"
      proof -
        have "indx + 1 \<le> i" if "a ! i = key" "i < base + limit" for i
        proof (rule ccontr)
          assume "\<not> indx + 1 \<le> i"
          then have "a ! i \<le> a ! indx" using idx 1(4) by (intro le) simp_all
          then show False using less that by simp
        qed
        then show ?thesis using idx(1) by (intro iff_exI) (blast intro: order.trans [OF _ Suc_leD [unfolded Suc_eq_plus1]])
      qed
      finally show ?thesis .
    next
      case eq
      then show ?thesis using limit idx by (subst wt_binary_search.simps) (auto simp: indx_def intro!: exI [of _ "base + limit div 2"])
    next
      case gt
      have "wt_binary_search key a base limit \<longleftrightarrow> wt_binary_search key a base (limit div 2)"
        using limit gt by (subst wt_binary_search.simps) (simp add: indx_def Let_def order.asym less_imp_neq [THEN not_sym])
      also have "\<dots> \<longleftrightarrow> (\<exists>i. base \<le> i \<and> i < indx \<and> a ! i = key)"
        using 1(2) [OF limit indx_def] gt 1(3,4) by (simp add: indx_def order.asym less_imp_neq [THEN not_sym])
      also have "\<dots> \<longleftrightarrow> (\<exists>i. base \<le> i \<and> i < base + limit \<and> a ! i = key)"
      proof -
        have "i < indx" if "a ! i = key" "i < base + limit" for i
        proof (rule ccontr)
          assume "\<not> i < indx"
          then have "a ! indx \<le> a ! i" using that 1(4) by (intro le) simp_all
          then show False using gt that by simp
        qed
        then show ?thesis using idx(2) by (intro iff_exI) (blast intro: order.strict_trans)
      qed
      finally show ?thesis .
    qed
  qed
qed

lemma binary_search_set: "sorted a \<Longrightarrow> WT_BINARY_SEARCH key a \<longleftrightarrow> key \<in> set a"
  by (auto simp: WT_BINARY_SEARCH_def wt_binary_search_iff in_set_conv_nth)

subsection \<open>Snapshots\<close>

lemma sort_ids_sort: "1 < length a \<Longrightarrow> sort_ids a = sort a"
  by (simp add: sort_ids_def snapsort_sort)

lemma sort_snapshot_list: "(if length snap > 1 then sort_ids snap else snap) = sort snap"
  by (cases snap; cases "tl snap") (simp_all add: sort_ids_sort)

text \<open>What \<open>__txn_sort_snapshot\<close> makes of a snapshot.\<close>

definition snapshot_ok :: "wt_txn \<Rightarrow> bool" where
  "snapshot_ok t \<longleftrightarrow> sorted (tx_snapshot t) \<and> (\<forall>i\<in>set (tx_snapshot t). tx_snap_min t \<le> i)"

lemma sort_snapshot_simps [simp]:
  "tx_snapshot (txn (txn_sort_snapshot snap snap_max s)) = sort snap"
  "tx_snap_max (txn (txn_sort_snapshot snap snap_max s)) = snap_max"
  "tx_id (txn (txn_sort_snapshot snap snap_max s)) = tx_id (txn s)"
  "tx_isolation (txn (txn_sort_snapshot snap snap_max s)) = tx_isolation (txn s)"
  "cs_conn (txn_sort_snapshot snap snap_max s) = cs_conn s"
  "s_id (cs_ses (txn_sort_snapshot snap snap_max s)) = s_id (cs_ses s)"
  "s_commit_gen (cs_ses (txn_sort_snapshot snap snap_max s)) = s_commit_gen (cs_ses s)"
  "tx_flags (txn (txn_sort_snapshot snap snap_max s)) = insert WT_TXN_HAS_SNAPSHOT (tx_flags (txn s))"
  by (simp_all only: txn_sort_snapshot_def Let_def sort_snapshot_list)
    (simp_all add: txn_state_defs)

lemma sort_snapshot_min:
  "tx_snap_min (txn (txn_sort_snapshot snap snap_max s)) =
     (case sort snap of i # _ \<Rightarrow> if i \<le> snap_max then i else snap_max | [] \<Rightarrow> snap_max)"
  by (simp only: txn_sort_snapshot_def Let_def sort_snapshot_list) (simp add: txn_state_defs)

lemma sort_snapshot_ok: "snapshot_ok (txn (txn_sort_snapshot snap snap_max s))"
proof (cases "sort snap")
  case Nil
  then show ?thesis by (simp add: snapshot_ok_def)
next
  case (Cons i r)
  have "sorted (i # r)" using Cons sorted_sort [of snap] by metis
  then show ?thesis by (auto simp: snapshot_ok_def sort_snapshot_min Cons)
qed

lemma visible_id_snapshot_iff:
  assumes "snapshot_ok t"
  shows "wt_txn_visible_id_snapshot i (tx_snap_min t) (tx_snap_max t) (tx_snapshot t) \<longleftrightarrow>
    i < tx_snap_max t \<and> i \<notin> set (tx_snapshot t)"
  using assms binary_search_set [of "tx_snapshot t" i]
  by (auto simp: wt_txn_visible_id_snapshot_def snapshot_ok_def)

lemma visible_id_iff:
  assumes "snapshot_ok (txn s)"
  shows "txn_visible_id s i \<longleftrightarrow> i = WT_TXN_NONE \<or> i \<noteq> WT_TXN_ABORTED \<and>
    (i = tx_id (txn s) \<or> tx_isolation (txn s) = WT_ISO_READ_UNCOMMITTED \<or>
     i < tx_snap_max (txn s) \<and> i \<notin> set (tx_snapshot (txn s)))"
  by (simp add: txn_visible_id_def visible_id_snapshot_iff [OF assms])

subsection \<open>What a read finds\<close>

text \<open>An update nobody changes while the list is read.\<close>

definition still :: "wt_update \<Rightarrow> upd_elem" where
  "still u = (u, [(u, up_prepare_state u)])"

definition hs_value :: "cs \<Rightarrow> wt_update \<Rightarrow> bool" where
  "hs_value s u \<longleftrightarrow> s_hs (cs_ses s) \<and> up_txnid u \<noteq> WT_TXN_ABORTED \<and> up_type u = WT_UPDATE_STANDARD"

definition seen :: "cs \<Rightarrow> wt_update \<Rightarrow> bool" where
  "seen s u \<longleftrightarrow> up_type u \<noteq> WT_UPDATE_RESERVE \<and> (hs_value s u \<or> wt_txn_visible s (up_txnid u) (up_start_ts u))"

definition conflicting :: "cs \<Rightarrow> wt_update \<Rightarrow> bool" where
  "conflicting s u \<longleftrightarrow> \<not> hs_value s u \<and> up_prepare_state u = WT_PREPARE_INPROGRESS"

text \<open>The update that decides the read: the first one that is seen, prepared ones passed over when the
  transaction ignores them.\<close>

definition decides :: "cs \<Rightarrow> wt_update \<Rightarrow> bool" where
  "decides s u \<longleftrightarrow> seen s u \<and> \<not> (conflicting s u \<and> F_ISSET s WT_TXN_IGNORE_PREPARE)"

lemma visible_type_still:
  assumes "up_prepare_state u \<noteq> WT_PREPARE_LOCKED" and "up_type u \<noteq> WT_UPDATE_RESERVE"
  shows "wt_txn_upd_visible_type s (snd (still u)) =
    Some (if \<not> seen s u then WT_VISIBLE_FALSE else if conflicting s u then WT_VISIBLE_PREPARE else WT_VISIBLE_TRUE, u)"
  using assms by (auto simp: still_def seen_def conflicting_def hs_value_def)

lemma rs_value_save [simp]: "rs_value (save_skipped u r) = rs_value r"
  by (simp add: save_skipped_def Let_def)

lemma read_walk_first:
  assumes "\<forall>u\<in>set us. up_prepare_state u \<noteq> WT_PREPARE_LOCKED"
  shows "\<exists>r'. rs_value r' = rs_value r \<and> read_walk False s (map still us) r = Some
    (case dropWhile (\<lambda>u. \<not> decides s u) us of [] \<Rightarrow> Inr (r', None)
     | u # rest \<Rightarrow> if conflicting s u then Inl WT_PREPARE_CONFLICT else Inr (r', Some (u, map still rest)))"
  using assms
proof (induction us arbitrary: r)
  case (Cons u us)
  have skip: ?case if "\<not> decides s u" "rs_value r1 = rs_value r"
    "read_walk False s (map still (u # us)) r = read_walk False s (map still us) r1" for r1
  proof -
    have "dropWhile (\<lambda>u. \<not> decides s u) (u # us) = dropWhile (\<lambda>u. \<not> decides s u) us" using that(1) by simp
    then show ?thesis using Cons.IH [of r1] Cons.prems that(2,3) by (simp only: set_simps) simp
  qed
  show ?case
  proof (cases "up_type u = WT_UPDATE_RESERVE")
    case True
    then show ?thesis by (intro skip [of r]) (simp_all add: still_def decides_def seen_def)
  next
    case False
    have vt: "wt_txn_upd_visible_type s (snd (still u)) =
        Some (if \<not> seen s u then WT_VISIBLE_FALSE else if conflicting s u then WT_VISIBLE_PREPARE else WT_VISIBLE_TRUE, u)"
      using visible_type_still False Cons.prems by simp
    have st: "still u = (u, snd (still u))" by (simp add: still_def)
    show ?thesis
    proof (cases "decides s u")
      case True
      then show ?thesis using False vt unfolding list.map(2) by (subst st) (auto simp: decides_def)
    next
      case nd: False
      then have "read_walk False s (map still (u # us)) r = read_walk False s (map still us) (save_skipped u r)"
        using False vt unfolding list.map(2) by (subst st) (auto simp: decides_def)
      then show ?thesis using nd by (intro skip [of "save_skipped u r"]) simp_all
    qed
  qed
qed simp

text \<open>
  C6: reading an update list whose updates keep still gives the newest version the transaction may
  see: the first update that is not a place-holder and is visible; a prepared one is a prepare
  conflict unless the transaction ignores prepared updates, and then the next visible one is read.
  When there is none the value stays empty.
\<close>

theorem read_upd_list_first_visible:
  assumes "\<forall>u\<in>set us. up_prepare_state u \<noteq> WT_PREPARE_LOCKED"
  shows "wt_txn_read_upd_list reconstruct False s (map still us) v = Some
    (case dropWhile (\<lambda>u. \<not> decides s u) us of
       [] \<Rightarrow> Inr (wt_upd_value_clear v)
     | u # rest \<Rightarrow>
         if conflicting s u then Inl WT_PREPARE_CONFLICT
         else if up_type u \<noteq> WT_UPDATE_MODIFY \<or> uv_skip_buf v then Inr (wt_upd_value_assign (wt_upd_value_clear v) u)
         else reconstruct u (map still rest) (wt_upd_value_clear v))"
proof -
  define r where "r = \<lparr>rs_value = wt_upd_value_clear v, rs_prepare = None, rs_restored = None\<rparr>"
  have sk: "uv_skip_buf (wt_upd_value_clear v) = uv_skip_buf v" by (simp add: wt_upd_value_clear_def)
  have rv: "rs_value r = wt_upd_value_clear v" by (simp add: r_def)
  obtain r' where w: "rs_value r' = rs_value r" "read_walk False s (map still us) r = Some
    (case dropWhile (\<lambda>u. \<not> decides s u) us of [] \<Rightarrow> Inr (r', None)
     | u # rest \<Rightarrow> if conflicting s u then Inl WT_PREPARE_CONFLICT else Inr (r', Some (u, map still rest)))"
    using read_walk_first [OF assms] by blast
  have "map_sum (\<lambda>e. e) rs_value (wt_ret x (\<lambda>v. Inr (r'\<lparr>rs_value := v\<rparr>))) = x" for x
    by (cases x) simp_all
  moreover define dw where "dw = dropWhile (\<lambda>u. \<not> decides s u) us"
  ultimately show ?thesis
    using w unfolding dw_def [symmetric]
    by (cases dw) (simp_all add: wt_txn_read_upd_list_def wt_txn_read_upd_list_internal_def r_def [symmetric] rv sk)
qed

definition sample_update :: "u64 \<Rightarrow> prepare_state \<Rightarrow> u8 \<Rightarrow> wt_update" where
  "sample_update t st b = \<lparr>up_txnid = t, up_durable_ts = 0, up_start_ts = 0, up_type = WT_UPDATE_STANDARD,
     up_prepare_state = st, up_flags = {}, up_data = [b]\<rparr>"

definition sample_reader :: cs where
  "sample_reader = \<lparr>cs_conn = new_conn 1, cs_ses = (new_session 0)\<lparr>s_txn :=
     new_txn\<lparr>tx_snapshot := [5, 7], tx_snap_min := 5, tx_snap_max := 9, tx_flags := {WT_TXN_HAS_SNAPSHOT}\<rparr>\<rparr>\<rparr>"

definition sample_value :: wt_update_value where
  "sample_value = \<lparr>uv_data = [], uv_tw = WT_TIME_WINDOW_INIT, uv_type = WT_UPDATE_INVALID, uv_skip_buf = False\<rparr>"

theorem read_upd_list_first_visible_witness:
  "map_option (map_sum (\<lambda>e. e) uv_data) (wt_txn_read_upd_list (\<lambda>u r v. Inr v) False sample_reader
     (map still [sample_update 12 WT_PREPARE_INIT 1, sample_update 7 WT_PREPARE_INPROGRESS 2,
       sample_update 6 WT_PREPARE_RESOLVED 3, sample_update 4 WT_PREPARE_INIT 4]) sample_value) = Some (Inr [3])"
proof -
  let ?us = "[sample_update 12 WT_PREPARE_INIT 1, sample_update 7 WT_PREPARE_INPROGRESS 2,
       sample_update 6 WT_PREPARE_RESOLVED 3, sample_update 4 WT_PREPARE_INIT 4]"
  have d: "dropWhile (\<lambda>u. \<not> decides sample_reader u) ?us = drop 2 ?us"
    by code_simp
  show ?thesis
    by (subst read_upd_list_first_visible) (simp add: sample_update_def, simp only: d, code_simp)
qed

end
