(* ===== verification/TxnMvcc.thy ===== *)
theory TxnMvcc
  imports TxnVisibility
begin

text \<open>
  Sessions running transactions against the global state: a step relation whose steps are the
  functions of the code, and the invariant that makes snapshots isolate. No checkpoint is running and
  no transaction is prepared. \<open>mv_published\<close> is a ghost: the IDs of transactions that had ended when the
  commit generation was last switched.
\<close>

record mv =
  mv_conn :: wt_conn
  mv_ses :: "wt_session list"
  mv_published :: "u64 set"

abbreviation mglob :: "mv \<Rightarrow> wt_txn_global" where "mglob m \<equiv> c_global (mv_conn m)"

text \<open>What session \<open>i\<close> sees, and the state after it ran.\<close>

definition at :: "mv \<Rightarrow> nat \<Rightarrow> cs" where
  "at m i = \<lparr>cs_conn = mv_conn m, cs_ses = mv_ses m ! i\<rparr>"

definition put :: "mv \<Rightarrow> nat \<Rightarrow> cs \<Rightarrow> mv" where
  "put m i s = m\<lparr>mv_conn := cs_conn s, mv_ses := (mv_ses m)[i := cs_ses s]\<rparr>"

definition active_ids :: "wt_txn_global \<Rightarrow> u64 set" where
  "active_ids g = sh_id ` set (tg_shared g) - {WT_TXN_NONE}"

definition mv_init :: "nat \<Rightarrow> mv" where
  "mv_init n = \<lparr>mv_conn = new_conn n, mv_ses = map new_session [0..<n], mv_published = {}\<rparr>"

inductive mvcc_step :: "mv \<Rightarrow> mv \<Rightarrow> bool" where
  get_snapshot: "i < length (mv_ses m) \<Longrightarrow> mvcc_step m (put m i (wt_txn_get_snapshot (at m i)))"
| release_snapshot: "i < length (mv_ses m) \<Longrightarrow> mvcc_step m (put m i (wt_txn_release_snapshot (at m i)))"
| allocate: "i < length (mv_ses m) \<Longrightarrow> wt_txn_id_check (Inr ()) (at m i) = (Inr (), s) \<Longrightarrow>
    tg_current (mglob m) < WT_TXN_MAX \<Longrightarrow> mvcc_step m (put m i s)"
| finish: "i < length (mv_ses m) \<Longrightarrow> mvcc_step m (put m i (wt_txn_release (at m i)))"
| publish: "i < length (mv_ses m) \<Longrightarrow> c_commit_gen (mv_conn m) \<noteq> - 1 \<Longrightarrow>
    mvcc_step m ((put m i (next_commit_gen (at m i)))
      \<lparr>mv_published := {x. x < tg_current (mglob m) \<and> x \<notin> active_ids (mglob m)}\<rparr>)"
| update_oldest: "mvcc_step m (m\<lparr>mv_conn := (mv_conn m)\<lparr>c_global := update_oldest_locked found (mglob m)\<rparr>\<rparr>)"

inductive mvcc_run :: "nat \<Rightarrow> mv \<Rightarrow> bool" for n where
  start: "mvcc_run n (mv_init n)"
| step: "mvcc_run n m \<Longrightarrow> mvcc_step m m' \<Longrightarrow> mvcc_run n m'"

subsection \<open>The invariant\<close>

definition glob_ok :: "wt_txn_global \<Rightarrow> bool" where
  "glob_ok g \<longleftrightarrow> tg_checkpoint_id g = 0 \<and> tg_ckpt_shared g = new_shared \<and> 1 \<le> tg_oldest_id g \<and>
     tg_oldest_id g \<le> tg_current g \<and> tg_current g \<le> WT_TXN_MAX \<and>
     (\<forall>h\<in>set (tg_shared g).
        (sh_id h \<noteq> 0 \<longrightarrow> tg_oldest_id g \<le> sh_id h \<and> sh_id h < tg_current g) \<and>
        (sh_pinned_id h \<noteq> 0 \<longrightarrow> tg_oldest_id g \<le> sh_pinned_id h \<and> sh_pinned_id h \<le> tg_current g)) \<and>
     (\<forall>i j. i < length (tg_shared g) \<and> j < length (tg_shared g) \<and> sh_id (tg_shared g ! i) = sh_id (tg_shared g ! j) \<and>
        sh_id (tg_shared g ! i) \<noteq> 0 \<longrightarrow> i = j)"

text \<open>A snapshot taken at a time when the other active IDs were those in it or new.\<close>

definition snap_ok :: "wt_txn_global \<Rightarrow> nat \<Rightarrow> wt_txn \<Rightarrow> bool" where
  "snap_ok g i t \<longleftrightarrow> snapshot_ok t \<and> sh_pinned_id (tg_shared g ! i) \<noteq> 0 \<and>
     sh_pinned_id (tg_shared g ! i) \<le> tx_snap_max t \<and> tx_snap_max t \<le> tg_current g \<and>
     (\<forall>x\<in>set (tx_snapshot t). sh_pinned_id (tg_shared g ! i) \<le> x) \<and>
     (\<forall>j. j < length (tg_shared g) \<and> j \<noteq> i \<and> sh_id (tg_shared g ! j) \<noteq> 0 \<and> sh_id (tg_shared g ! j) < tx_snap_max t \<longrightarrow>
        sh_id (tg_shared g ! j) \<in> set (tx_snapshot t))"

definition ses_ok :: "wt_conn \<Rightarrow> u64 set \<Rightarrow> nat \<Rightarrow> wt_session \<Rightarrow> bool" where
  "ses_ok c pub i S \<longleftrightarrow>
     s_id S = i \<and> tx_id (s_txn S) = sh_id (tg_shared (c_global c) ! i) \<and>
     (WT_TXN_HAS_ID \<in> tx_flags (s_txn S) \<longleftrightarrow> tx_id (s_txn S) \<noteq> 0) \<and> WT_TXN_PREPARE \<notin> tx_flags (s_txn S) \<and>
     s_commit_gen S \<le> c_commit_gen c \<and>
     (WT_TXN_HAS_SNAPSHOT \<in> tx_flags (s_txn S) \<longrightarrow> snap_ok (c_global c) i (s_txn S) \<and>
        (s_commit_gen S = c_commit_gen c \<longrightarrow>
           (\<forall>x\<in>pub. x < tx_snap_max (s_txn S) \<and> x \<notin> set (tx_snapshot (s_txn S)))))"

definition mv_inv :: "mv \<Rightarrow> bool" where
  "mv_inv m \<longleftrightarrow> glob_ok (mglob m) \<and> length (tg_shared (mglob m)) = length (mv_ses m) \<and>
     (\<forall>x\<in>mv_published m. x < tg_current (mglob m) \<and> x \<notin> active_ids (mglob m)) \<and>
     (\<forall>i<length (mv_ses m). ses_ok (mv_conn m) (mv_published m) i (mv_ses m ! i))"

lemma mv_inv_init: "mv_inv (mv_init n)"
proof -
  have "1 \<le> WT_TXN_MAX" by (simp add: WT_TXN_MAX_def word_le_nat_alt unat_word_ariths)
  then show ?thesis
    by (auto simp: mv_inv_def mv_init_def glob_ok_def ses_ok_def new_conn_def wt_txn_global_init_def WT_TXN_FIRST_def
        new_shared_def new_session_def new_txn_def)
qed

subsection \<open>Steps of one session\<close>

lemma active_ids_nth: "active_ids g = {sh_id (tg_shared g ! j) |j. j < length (tg_shared g)} - {0}"
  unfolding active_ids_def WT_TXN_NONE_def set_conv_nth by auto

text \<open>The other sessions only depend on which IDs are active.\<close>

lemma mv_inv_put:
  assumes inv: "mv_inv m" and i: "i < length (mv_ses m)" and g: "glob_ok (glob s)"
    and len: "length (tg_shared (glob s)) = length (tg_shared (mglob m))"
    and others: "\<And>j. j \<noteq> i \<Longrightarrow> tg_shared (glob s) ! j = tg_shared (mglob m) ! j"
    and cur: "tg_current (mglob m) \<le> tg_current (glob s)"
    and gen: "c_commit_gen (cs_conn s) = c_commit_gen (mv_conn m)"
    and own: "sh_id (tg_shared (glob s) ! i) \<in> {0, sh_id (tg_shared (mglob m) ! i)} \<or>
      tg_current (mglob m) \<le> sh_id (tg_shared (glob s) ! i)"
    and ses: "ses_ok (cs_conn s) (mv_published m) i (cs_ses s)"
  shows "mv_inv (put m i s)"
proof -
  have n: "length (tg_shared (mglob m)) = length (mv_ses m)" using inv by (simp add: mv_inv_def)
  have other: "ses_ok (cs_conn s) (mv_published m) j (mv_ses m ! j)" if j: "j < length (mv_ses m)" "j \<noteq> i" for j
  proof -
    have old: "ses_ok (mv_conn m) (mv_published m) j (mv_ses m ! j)" using inv j(1) by (simp add: mv_inv_def)
    have "snap_ok (glob s) j (s_txn (mv_ses m ! j))" if so: "snap_ok (mglob m) j (s_txn (mv_ses m ! j))"
    proof -
      have "sh_id (tg_shared (glob s) ! k) \<in> set (tx_snapshot (s_txn (mv_ses m ! j)))"
        if k: "k < length (mv_ses m)" "k \<noteq> j" "sh_id (tg_shared (glob s) ! k) \<noteq> 0"
          "sh_id (tg_shared (glob s) ! k) < tx_snap_max (s_txn (mv_ses m ! j))" for k
      proof -
        have "sh_id (tg_shared (glob s) ! k) = sh_id (tg_shared (mglob m) ! k)"
        proof (cases "k = i")
          case True
          have "\<not> tg_current (mglob m) \<le> sh_id (tg_shared (glob s) ! k)"
            using k(4) so by (auto simp: snap_ok_def not_le)
          then show ?thesis using own k(3) True by auto
        next
          case False
          then show ?thesis using others by simp
        qed
        then show ?thesis using so k n by (auto simp: snap_ok_def)
      qed
      then show ?thesis
        using so n len others [OF j(2)] cur by (auto simp: snap_ok_def intro: order.trans)
    qed
    then show ?thesis using old gen others [OF j(2)] by (auto simp: ses_ok_def)
  qed
  have pub: "x < tg_current (glob s) \<and> x \<notin> active_ids (glob s)" if x: "x \<in> mv_published m" for x
  proof -
    have lt: "x < tg_current (mglob m)" and na: "x \<notin> active_ids (mglob m)" using inv x by (auto simp: mv_inv_def)
    have "x \<notin> active_ids (glob s)"
    proof
      assume "x \<in> active_ids (glob s)"
      then obtain k where k: "k < length (mv_ses m)" "x = sh_id (tg_shared (glob s) ! k)" "x \<noteq> 0"
        using len n by (auto simp: active_ids_nth)
      have "x = sh_id (tg_shared (mglob m) ! k)"
        using own others [of k] k lt by (cases "k = i") auto
      then show False using na k n by (auto simp: active_ids_nth)
    qed
    then show ?thesis using lt cur by (auto intro: order.strict_trans2)
  qed
  have "ses_ok (cs_conn s) (mv_published m) j ((mv_ses m)[i := cs_ses s] ! j)" if "j < length (mv_ses m)" for j
    using other ses that i by (cases "j = i") simp_all
  then show ?thesis using g len n pub by (simp add: mv_inv_def put_def)
qed

lemma glob_ok_update:
  assumes g: "glob_ok g" and i: "i < length (tg_shared g)"
    and id: "sh_id h = 0 \<or> sh_id h = sh_id (tg_shared g ! i) \<or> sh_id h = tg_current g \<and> cur = tg_current g + 1"
    and pin: "sh_pinned_id h \<noteq> 0 \<longrightarrow> tg_oldest_id g \<le> sh_pinned_id h \<and> sh_pinned_id h \<le> cur"
    and cur: "tg_current g \<le> cur" "cur \<le> WT_TXN_MAX"
  shows "glob_ok (g\<lparr>tg_shared := (tg_shared g)[i := h], tg_current := cur\<rparr>)"
proof -
  let ?a = "\<lambda>k. sh_id (tg_shared g ! k)" and ?a' = "\<lambda>k. sh_id ((tg_shared g)[i := h] ! k)"
  have old: "k < length (tg_shared g) \<Longrightarrow> ?a k \<noteq> 0 \<Longrightarrow> tg_oldest_id g \<le> ?a k \<and> ?a k < tg_current g"
    "k < length (tg_shared g) \<Longrightarrow> sh_pinned_id (tg_shared g ! k) \<noteq> 0 \<Longrightarrow>
      tg_oldest_id g \<le> sh_pinned_id (tg_shared g ! k) \<and> sh_pinned_id (tg_shared g ! k) \<le> tg_current g" for k
    using g by (auto simp: glob_ok_def)
  have inj: "j = k" if "j < length (tg_shared g)" "k < length (tg_shared g)" "?a j = ?a k" "?a j \<noteq> 0" for j k
    using g that by (auto simp: glob_ok_def)
  have lt: "tg_current g < cur" if "cur = tg_current g + 1"
    using that cur(1) by (metis add.right_neutral add_left_imp_eq order.not_eq_order_implies_strict zero_neq_one)
  have ol: "tg_oldest_id g \<le> tg_current g" using g by (simp add: glob_ok_def)
  have new: "k = i" if k: "k < length (tg_shared g)" "sh_id h = ?a k" "sh_id h \<noteq> 0" for k
  proof -
    have "sh_id h \<noteq> tg_current g" using old(1) [of k] k by auto
    then show ?thesis using id k inj [of k i] i by auto
  qed
  have inj': "j = k" if "j < length (tg_shared g)" "k < length (tg_shared g)" "?a' j = ?a' k" "?a' j \<noteq> 0" for j k
  proof (rule ccontr)
    assume jk: "j \<noteq> k"
    have v: "?a' l = (if l = i then sh_id h else ?a l)" for l using i by simp
    consider "j = i" "k \<noteq> i" | "j \<noteq> i" "k = i" | "j \<noteq> i" "k \<noteq> i" using jk by blast
    then show False
    proof cases
      case 1
      then show False using new [OF that(2)] that(3,4) unfolding v by simp
    next
      case 2
      then show False using new [OF that(1)] that(3,4) unfolding v by simp
    next
      case 3
      then show False using inj [OF that(1,2)] that(3,4) jk unfolding v by simp
    qed
  qed
  then have injs: "\<forall>j k. j < length (tg_shared g) \<and> k < length (tg_shared g) \<and> ?a' j = ?a' k \<and> ?a' j \<noteq> 0 \<longrightarrow> j = k"
    by blast
  have h: "sh_id h \<noteq> 0 \<longrightarrow> tg_oldest_id g \<le> sh_id h \<and> sh_id h < cur"
    using id
  proof (elim disjE)
    assume "sh_id h = ?a i"
    then show ?thesis using old(1) [OF i] cur(1) by (auto intro: order.strict_trans2)
  qed (use lt ol in auto)
  have ids: "?a' k \<noteq> 0 \<longrightarrow> tg_oldest_id g \<le> ?a' k \<and> ?a' k < cur" if "k < length (tg_shared g)" for k
    using h i old(1) [OF that] cur(1) by (cases "k = i") (simp_all, blast intro: order.strict_trans2)
  have pins: "sh_pinned_id ((tg_shared g)[i := h] ! k) \<noteq> 0 \<longrightarrow>
      tg_oldest_id g \<le> sh_pinned_id ((tg_shared g)[i := h] ! k) \<and> sh_pinned_id ((tg_shared g)[i := h] ! k) \<le> cur"
    if "k < length (tg_shared g)" for k
    using pin i old(2) [OF that] cur(1) by (cases "k = i") (simp_all, blast intro: order.trans)
  show ?thesis
    using g cur ids pins injs order.trans [OF ol cur(1)] unfolding glob_ok_def
    by (simp only: all_set_conv_all_nth) simp
qed

lemma glob_ok_shared:
  assumes "glob_ok g" and "i < length (tg_shared g)" and "sh_id h = 0 \<or> sh_id h = sh_id (tg_shared g ! i)"
    and "sh_pinned_id h \<noteq> 0 \<longrightarrow> tg_oldest_id g \<le> sh_pinned_id h \<and> sh_pinned_id h \<le> tg_current g"
  shows "glob_ok (g\<lparr>tg_shared := (tg_shared g)[i := h]\<rparr>)"
proof -
  have "g\<lparr>tg_shared := (tg_shared g)[i := h], tg_current := tg_current g\<rparr> = g\<lparr>tg_shared := (tg_shared g)[i := h]\<rparr>"
    by simp
  moreover have "tg_current g \<le> WT_TXN_MAX" using assms(1) by (simp add: glob_ok_def)
  ultimately show ?thesis using glob_ok_update [OF assms(1,2), of h "tg_current g"] assms(3,4) by simp
qed

text \<open>A function that changes nothing of the global state but the session's slot.\<close>

definition slot_upd :: "(wt_txn_shared \<Rightarrow> wt_txn_shared) \<Rightarrow> cs \<Rightarrow> cs \<Rightarrow> bool" where
  "slot_upd f s s' \<longleftrightarrow>
     glob s' = (glob s)\<lparr>tg_shared := (tg_shared (glob s))[s_id (cs_ses s) := f (shared_of s)]\<rparr> \<and>
     s_id (cs_ses s') = s_id (cs_ses s) \<and> s_commit_gen (cs_ses s') = s_commit_gen (cs_ses s) \<and>
     c_commit_gen (cs_conn s') = c_commit_gen (cs_conn s)"

lemma slot_upd_shared: "slot_upd f s (upd_shared f s)"
  by (simp add: slot_upd_def upd_shared_def shared_of_def)

lemma slot_upd_none:
  "cs_conn s' = cs_conn s \<Longrightarrow> s_id (cs_ses s') = s_id (cs_ses s) \<Longrightarrow> s_commit_gen (cs_ses s') = s_commit_gen (cs_ses s) \<Longrightarrow>
    slot_upd (\<lambda>h. h) s s'"
  by (simp add: slot_upd_def shared_of_def)

lemma slot_upd_trans:
  assumes "slot_upd f s s'" and "slot_upd f' s' s''" and "s_id (cs_ses s) < length (tg_shared (glob s))"
  shows "slot_upd (\<lambda>h. f' (f h)) s s''"
  using assms by (simp add: slot_upd_def shared_of_def)

lemma no_checkpoint: "tg_checkpoint_id (glob s) = 0 \<Longrightarrow> WT_SESSION_IS_CHECKPOINT s = False"
  by (auto simp: WT_SESSION_IS_CHECKPOINT_def)

lemma release_snapshot_slot:
  assumes "tg_checkpoint_id (glob s) = 0" and "s_id (cs_ses s) < length (tg_shared (glob s))"
  shows "slot_upd (\<lambda>h. h\<lparr>sh_metadata_pinned := 0, sh_pinned_id := 0\<rparr>) s (wt_txn_release_snapshot s)"
    and "tx_flags (txn (wt_txn_release_snapshot s)) = tx_flags (txn s) - {WT_TXN_HAS_SNAPSHOT}"
    and "tx_id (txn (wt_txn_release_snapshot s)) = tx_id (txn s)"
proof -
  have e: "wt_txn_release_snapshot s = F_CLR WT_TXN_HAS_SNAPSHOT
      (upd_shared (\<lambda>h. h\<lparr>sh_metadata_pinned := 0, sh_pinned_id := 0\<rparr>) s)"
    using assms(1) by (simp add: wt_txn_release_snapshot_def Let_def no_checkpoint WT_TXN_NONE_def)
  show "slot_upd (\<lambda>h. h\<lparr>sh_metadata_pinned := 0, sh_pinned_id := 0\<rparr>) s (wt_txn_release_snapshot s)"
    unfolding e using slot_upd_trans [OF slot_upd_shared slot_upd_none assms(2)]
    by (simp add: F_CLR_def)
  show "tx_flags (txn (wt_txn_release_snapshot s)) = tx_flags (txn s) - {WT_TXN_HAS_SNAPSHOT}"
    "tx_id (txn (wt_txn_release_snapshot s)) = tx_id (txn s)" by (simp_all add: e F_CLR_def)
qed

lemma slot_upd_frame:
  assumes "slot_upd f s s'"
  shows "tg_checkpoint_id (glob s') = tg_checkpoint_id (glob s)" "s_id (cs_ses s') = s_id (cs_ses s)"
    "length (tg_shared (glob s')) = length (tg_shared (glob s))"
    "s_id (cs_ses s) < length (tg_shared (glob s)) \<Longrightarrow> shared_of s' = f (shared_of s)"
  using assms by (simp_all add: slot_upd_def shared_of_def)

lemma clear_durable_slot:
  "\<exists>d. slot_upd (\<lambda>h. h\<lparr>sh_pinned_durable := d h\<rparr>) s (wt_txn_clear_durable_timestamp s)"
proof (cases "F_ISSET s WT_TXN_SHARED_TS_DURABLE")
  case True
  have "slot_upd (\<lambda>h. h\<lparr>sh_pinned_durable := WT_TS_NONE\<rparr>) s (wt_txn_clear_durable_timestamp s)"
    using True slot_upd_shared [of "\<lambda>h. h\<lparr>sh_pinned_durable := WT_TS_NONE\<rparr>" "F_CLR WT_TXN_SHARED_TS_DURABLE s"]
    by (simp add: wt_txn_clear_durable_timestamp_def slot_upd_def shared_of_def F_CLR_def)
  then show ?thesis by (intro exI [of _ "\<lambda>h. WT_TS_NONE"])
next
  case False
  have "slot_upd (\<lambda>h. h\<lparr>sh_pinned_durable := sh_pinned_durable h\<rparr>) s s" by (simp add: slot_upd_def shared_of_def)
  then show ?thesis using False by (intro exI [of _ sh_pinned_durable]) (simp add: wt_txn_clear_durable_timestamp_def)
qed

lemma clear_read_slot: "slot_upd (\<lambda>h. h\<lparr>sh_read_ts := WT_TS_NONE\<rparr>) s (wt_txn_clear_read_timestamp s)"
  using slot_upd_shared [of "\<lambda>h. h\<lparr>sh_read_ts := WT_TS_NONE\<rparr>"
      "if F_ISSET s WT_TXN_SHARED_TS_READ then F_CLR WT_TXN_SHARED_TS_READ s else s"]
  by (simp add: wt_txn_clear_read_timestamp_def slot_upd_def shared_of_def F_CLR_def split: if_splits)

lemma clear_txn [simp]:
  "tx_id (txn (wt_txn_clear_durable_timestamp s)) = tx_id (txn s)"
  "tx_id (txn (wt_txn_clear_read_timestamp s)) = tx_id (txn s)"
  by (simp_all add: wt_txn_clear_durable_timestamp_def wt_txn_clear_read_timestamp_def F_CLR_def)

lemma release_slot:
  assumes ck: "tg_checkpoint_id (glob s) = 0" and i: "s_id (cs_ses s) < length (tg_shared (glob s))"
    and np: "WT_TXN_PREPARE \<notin> tx_flags (txn s)" and hid: "WT_TXN_HAS_ID \<in> tx_flags (txn s) \<longleftrightarrow> tx_id (txn s) \<noteq> 0"
    and id: "tx_id (txn s) = sh_id (shared_of s)"
  shows "\<exists>f. slot_upd f s (wt_txn_release s) \<and> sh_id (f (shared_of s)) = 0 \<and> sh_pinned_id (f (shared_of s)) = 0"
    and "tx_id (txn (wt_txn_release s)) = 0" and "tx_flags (txn (wt_txn_release s)) = {}"
proof -
  define s1 where "s1 = (if F_ISSET s WT_TXN_HAS_ID then
      upd_txn (\<lambda>t. t\<lparr>tx_id := WT_TXN_NONE\<rparr>) (txn_remove_from_global_table s) else s)"
  define s4 where "s4 = wt_txn_clear_read_timestamp (wt_txn_release_snapshot (wt_txn_clear_durable_timestamp s1))"
  have r: "wt_txn_release s = upd_txn (\<lambda>t. t\<lparr>tx_isolation := s_isolation (cs_ses s4), tx_flags := {},
      tx_prepare_ts := WT_TS_NONE\<rparr>) s4"
    using np by (simp add: wt_txn_release_def Let_def no_checkpoint [OF ck] s1_def s4_def F_ISSET_def)
  have s1: "slot_upd (\<lambda>h. h\<lparr>sh_id := 0\<rparr>) s s1"
  proof (cases "F_ISSET s WT_TXN_HAS_ID")
    case True
    have "slot_upd (\<lambda>h. h\<lparr>sh_id := 0\<rparr>) s (txn_remove_from_global_table s)"
      by (simp add: txn_remove_from_global_table_def WT_TXN_NONE_def slot_upd_shared)
    then show ?thesis
      using slot_upd_trans [OF _ slot_upd_none i, of "\<lambda>h. h\<lparr>sh_id := 0\<rparr>" "txn_remove_from_global_table s" s1] True
      by (simp add: s1_def)
  next
    case False
    then have "(shared_of s)\<lparr>sh_id := 0\<rparr> = shared_of s"
      using hid id by (cases "shared_of s") (simp add: F_ISSET_def)
    then show ?thesis using False by (simp add: s1_def slot_upd_def) (simp add: shared_of_def)
  qed
  have id1: "tx_id (txn s1) = 0"
    using hid by (simp add: s1_def F_ISSET_def WT_TXN_NONE_def)
  obtain d where d: "slot_upd (\<lambda>h. h\<lparr>sh_pinned_durable := d h\<rparr>) s1 (wt_txn_clear_durable_timestamp s1)"
    using clear_durable_slot by blast
  note s2 = slot_upd_trans [OF s1 d i]
  have "slot_upd (\<lambda>h. h\<lparr>sh_metadata_pinned := 0, sh_pinned_id := 0\<rparr>) (wt_txn_clear_durable_timestamp s1)
      (wt_txn_release_snapshot (wt_txn_clear_durable_timestamp s1))"
    using slot_upd_frame [OF s2] ck i by (intro release_snapshot_slot) simp_all
  note s3 = slot_upd_trans [OF s2 this i]
  note s4' = slot_upd_trans [OF s3 clear_read_slot i]
  have "slot_upd (\<lambda>h. h) s4 (wt_txn_release s)" by (simp add: r slot_upd_none)
  note fin = slot_upd_trans [OF s4' [folded s4_def] this i]
  then show "\<exists>f. slot_upd f s (wt_txn_release s) \<and> sh_id (f (shared_of s)) = 0 \<and> sh_pinned_id (f (shared_of s)) = 0"
    by (intro exI [of _ "\<lambda>h. h\<lparr>sh_id := 0, sh_pinned_durable := d (h\<lparr>sh_id := 0\<rparr>), sh_metadata_pinned := 0,
        sh_pinned_id := 0, sh_read_ts := WT_TS_NONE\<rparr>"]) simp
  have "tx_id (txn (wt_txn_release_snapshot (wt_txn_clear_durable_timestamp s1))) = 0"
    using slot_upd_frame [OF s2] ck i id1 by (simp add: release_snapshot_slot)
  then show "tx_id (txn (wt_txn_release s)) = 0" and "tx_flags (txn (wt_txn_release s)) = {}"
    by (simp_all add: r s4_def)
qed

text \<open>The walk collects the other active IDs of its range and their minimum.\<close>

definition concurrent :: "wt_txn_global \<Rightarrow> nat \<Rightarrow> u64 set" where
  "concurrent g own = {sh_id (tg_shared g ! j) |j. j < length (tg_shared g) \<and> j \<noteq> own \<and>
     sh_id (tg_shared g ! j) \<noteq> 0 \<and> tg_oldest_id g \<le> sh_id (tg_shared g ! j) \<and> sh_id (tg_shared g ! j) < tg_current g}"

lemma snapshot_walk_spec:
  assumes "snapshot_walk own lo hi k ss snap pinned = (snap', pinned')"
  shows "set snap' = set snap \<union> {sh_id (ss ! j) |j. j < length ss \<and> k + j \<noteq> own \<and> sh_id (ss ! j) \<noteq> 0 \<and>
      lo \<le> sh_id (ss ! j) \<and> sh_id (ss ! j) < hi} \<and>
    pinned' \<le> pinned \<and> (\<forall>x\<in>set snap'. x \<in> set snap \<or> pinned' \<le> x) \<and> (lo \<le> pinned \<longrightarrow> lo \<le> pinned')"
  using assms
proof (induction own lo hi k ss snap pinned arbitrary: snap' pinned' rule: snapshot_walk.induct)
  case (2 own lo hi k s ss snap pinned)
  have shift: "{sh_id ((s # ss) ! j) |j. j < length (s # ss) \<and> k + j \<noteq> own \<and> sh_id ((s # ss) ! j) \<noteq> 0 \<and>
      lo \<le> sh_id ((s # ss) ! j) \<and> sh_id ((s # ss) ! j) < hi} =
    (if k \<noteq> own \<and> sh_id s \<noteq> 0 \<and> lo \<le> sh_id s \<and> sh_id s < hi then {sh_id s} else {}) \<union>
    {sh_id (ss ! j) |j. j < length ss \<and> k + 1 + j \<noteq> own \<and> sh_id (ss ! j) \<noteq> 0 \<and> lo \<le> sh_id (ss ! j) \<and> sh_id (ss ! j) < hi}"
    (is "?L = ?R")
  proof (intro equalityI subsetI)
    fix x assume "x \<in> ?L"
    then obtain j where "j < Suc (length ss)" "x = sh_id ((s # ss) ! j)" "k + j \<noteq> own" "x \<noteq> 0" "lo \<le> x" "x < hi" by auto
    then show "x \<in> ?R" by (cases j) auto
  next
    fix x assume "x \<in> ?R"
    then consider "k \<noteq> own" "x = sh_id s" "x \<noteq> 0" "lo \<le> x" "x < hi"
      | j where "j < length ss" "x = sh_id (ss ! j)" "k + 1 + j \<noteq> own" "x \<noteq> 0" "lo \<le> x" "x < hi"
      by (auto split: if_splits)
    then show "x \<in> ?L"
    proof cases
      case 1
      then show ?thesis by (intro CollectI exI [of _ 0]) simp
    next
      case (2 j)
      then show ?thesis by (intro CollectI exI [of _ "Suc j"]) simp
    qed
  qed
  show ?case
  proof (cases "k \<noteq> own \<and> sh_id s \<noteq> 0 \<and> lo \<le> sh_id s \<and> sh_id s < hi")
    case True
    then have "snapshot_walk own lo hi (k + 1) ss (snap @ [sh_id s]) (if sh_id s < pinned then sh_id s else pinned) = (snap', pinned')"
      using 2(3) by (simp add: WT_TXN_NONE_def Let_def)
    then have ih: "set snap' = set (snap @ [sh_id s]) \<union> {sh_id (ss ! j) |j. j < length ss \<and> k + 1 + j \<noteq> own \<and>
        sh_id (ss ! j) \<noteq> 0 \<and> lo \<le> sh_id (ss ! j) \<and> sh_id (ss ! j) < hi}"
      "pinned' \<le> (if sh_id s < pinned then sh_id s else pinned)"
      "\<forall>x\<in>set snap'. x \<in> set (snap @ [sh_id s]) \<or> pinned' \<le> x"
      "lo \<le> (if sh_id s < pinned then sh_id s else pinned) \<longrightarrow> lo \<le> pinned'"
      using 2(1) [OF refl, of snap' pinned'] True by (auto simp: WT_TXN_NONE_def)
    have lep: "pinned' \<le> pinned" "pinned' \<le> sh_id s" using ih(2) by (auto simp: not_less intro: order.trans split: if_splits)
    have "\<forall>x\<in>set snap'. x \<in> set snap \<or> pinned' \<le> x" using ih(3) lep(2) by auto
    moreover have "lo \<le> pinned \<longrightarrow> lo \<le> pinned'" using ih(4) True by (auto split: if_splits)
    moreover have "set snap' = set snap \<union> ({sh_id s} \<union> {sh_id (ss ! j) |j. j < length ss \<and> k + 1 + j \<noteq> own \<and>
        sh_id (ss ! j) \<noteq> 0 \<and> lo \<le> sh_id (ss ! j) \<and> sh_id (ss ! j) < hi})" using ih(1) by (simp add: Un_commute)
    ultimately show ?thesis unfolding shift using True lep(1) by simp
  next
    case False
    then have "snapshot_walk own lo hi (k + 1) ss snap pinned = (snap', pinned')"
      using 2(3) by (simp add: WT_TXN_NONE_def Let_def split: if_splits)
    moreover have "(if k \<noteq> own \<and> sh_id s \<noteq> 0 \<and> lo \<le> sh_id s \<and> sh_id s < hi then {sh_id s} else {}) = {}"
      using False by (simp only: if_False)
    ultimately show ?thesis
      unfolding shift using 2(2) [OF refl False [folded WT_TXN_NONE_def], of snap' pinned'] by simp
  qed
qed auto

definition has_current_snapshot :: "cs \<Rightarrow> bool" where
  "has_current_snapshot s \<longleftrightarrow> s_commit_gen (cs_ses s) \<noteq> 0 \<and> F_ISSET s WT_TXN_HAS_SNAPSHOT \<and>
     s_commit_gen (cs_ses s) = c_commit_gen (cs_conn s)"

lemma get_snapshot_fast: "has_current_snapshot s \<Longrightarrow> wt_txn_get_snapshot s = s"
  unfolding wt_txn_get_snapshot_def txn_get_snapshot_int_def has_current_snapshot_def by (rule if_P)

lemma enter_gen_simps [simp]:
  "cs_conn (enter_commit_gen s) = cs_conn s" "s_id (cs_ses (enter_commit_gen s)) = s_id (cs_ses s)"
  "s_commit_gen (cs_ses (enter_commit_gen s)) = c_commit_gen (cs_conn s)" "txn (enter_commit_gen s) = txn s"
  by (simp_all add: enter_commit_gen_def)

lemma get_snapshot_new:
  assumes "\<not> has_current_snapshot s" and g: "glob_ok (glob s)"
  defines "s' \<equiv> wt_txn_get_snapshot s"
  obtains p where
    "glob s' = (glob s)\<lparr>tg_shared := (tg_shared (glob s))[s_id (cs_ses s) := (shared_of s)\<lparr>sh_pinned_id := p\<rparr>]\<rparr>"
    "p \<noteq> 0" "tg_oldest_id (glob s) \<le> p" "p \<le> tg_current (glob s)"
    "set (tx_snapshot (txn s')) = concurrent (glob s) (s_id (cs_ses s))" "\<forall>x\<in>set (tx_snapshot (txn s')). p \<le> x"
    "tx_snap_max (txn s') = tg_current (glob s)" "snapshot_ok (txn s')" "tx_id (txn s') = tx_id (txn s)"
    "tx_flags (txn s') = insert WT_TXN_HAS_SNAPSHOT (tx_flags (txn s))"
    "s_id (cs_ses s') = s_id (cs_ses s)" "s_commit_gen (cs_ses s') = c_commit_gen (cs_conn s)"
    "c_commit_gen (cs_conn s') = c_commit_gen (cs_conn s)"
proof -
  let ?g = "glob s" and ?i = "s_id (cs_ses s)"
  have ck: "sh_id (tg_ckpt_shared ?g) = 0" and o: "1 \<le> tg_oldest_id ?g" "tg_oldest_id ?g \<le> tg_current ?g"
    using g by (simp_all add: glob_ok_def new_shared_def)
  obtain snap p where sp: "(if tg_oldest_id ?g = tg_current ?g then ([], tg_current ?g)
      else snapshot_walk ?i (tg_oldest_id ?g) (tg_current ?g) 0 (tg_shared ?g) [] (tg_current ?g)) = (snap, p)"
    by fastforce
  have spec: "set snap = concurrent ?g ?i" "p \<le> tg_current ?g" "\<forall>x\<in>set snap. p \<le> x" "tg_oldest_id ?g \<le> p"
  proof -
    have "set snap = concurrent ?g ?i \<and> p \<le> tg_current ?g \<and> (\<forall>x\<in>set snap. p \<le> x) \<and> tg_oldest_id ?g \<le> p"
    proof (cases "tg_oldest_id ?g = tg_current ?g")
      case True
      then have "concurrent ?g ?i = {}" by (auto simp: concurrent_def)
      then show ?thesis using sp True by auto
    next
      case False
      then show ?thesis using sp snapshot_walk_spec [of ?i "tg_oldest_id ?g" "tg_current ?g" 0 "tg_shared ?g" "[]" "tg_current ?g" snap p] o(2)
        by (simp add: concurrent_def)
    qed
    then show "set snap = concurrent ?g ?i" "p \<le> tg_current ?g" "\<forall>x\<in>set snap. p \<le> x" "tg_oldest_id ?g \<le> p" by simp_all
  qed
  have s': "s' = txn_sort_snapshot snap (tg_current ?g) (upd_shared (\<lambda>h. h\<lparr>sh_pinned_id := p\<rparr>) (enter_commit_gen s))"
  proof -
    have slow: "(s_commit_gen (cs_ses s) \<noteq> 0 \<and> F_ISSET s WT_TXN_HAS_SNAPSHOT \<and>
        s_commit_gen (cs_ses s) = c_commit_gen (cs_conn s)) = False"
      using assms(1) by (simp add: has_current_snapshot_def)
    show ?thesis
      using sp ck by (simp only: s'_def wt_txn_get_snapshot_def txn_get_snapshot_int_def slow if_False Let_def)
        (simp add: WT_TXN_NONE_def split: if_splits)
  qed
  have "glob s' = ?g\<lparr>tg_shared := (tg_shared ?g)[?i := (shared_of s)\<lparr>sh_pinned_id := p\<rparr>]\<rparr>"
    by (simp add: s' upd_shared_def shared_of_def)
  moreover have "p \<noteq> 0" using spec(4) o(1) by auto
  ultimately show thesis
    using spec o by (intro that [of p]) (simp_all add: s' sort_snapshot_ok)
qed

lemma id_check_effect:
  assumes "wt_txn_id_check (Inr ()) s = (Inr (), s')"
  shows "s' = s \<or> \<not> F_ISSET s WT_TXN_HAS_ID \<and>
    s' = F_SET WT_TXN_HAS_ID (upd_shared (\<lambda>h. h\<lparr>sh_id := tg_current (glob s)\<rparr>)
      (upd_txn (\<lambda>t. t\<lparr>tx_id := tg_current (glob s)\<rparr>) (upd_glob (\<lambda>g. g\<lparr>tg_current := tg_current g + 1\<rparr>) s)))"
  using assms by (auto simp: wt_txn_id_check_def wt_txn_id_alloc_def wt_seq_def Let_def split: if_splits)

subsection \<open>Every step keeps the invariant\<close>

lemma at_simps [simp]: "cs_conn (at m i) = mv_conn m" "cs_ses (at m i) = mv_ses m ! i"
  by (simp_all add: at_def)

lemma invD:
  assumes "mv_inv m" and "i < length (mv_ses m)"
  shows "glob_ok (mglob m)" "i < length (tg_shared (mglob m))" "ses_ok (mv_conn m) (mv_published m) i (mv_ses m ! i)"
    "s_id (mv_ses m ! i) = i" "tg_checkpoint_id (mglob m) = 0"
    "tx_id (s_txn (mv_ses m ! i)) = sh_id (tg_shared (mglob m) ! i)"
    "WT_TXN_PREPARE \<notin> tx_flags (s_txn (mv_ses m ! i))"
    "WT_TXN_HAS_ID \<in> tx_flags (s_txn (mv_ses m ! i)) \<longleftrightarrow> tx_id (s_txn (mv_ses m ! i)) \<noteq> 0"
    "tg_current (mglob m) \<le> WT_TXN_MAX" "s_commit_gen (mv_ses m ! i) \<le> c_commit_gen (mv_conn m)"
  using assms by (auto simp: mv_inv_def ses_ok_def glob_ok_def)

lemma shared_of_at [simp]: "mv_inv m \<Longrightarrow> i < length (mv_ses m) \<Longrightarrow> shared_of (at m i) = tg_shared (mglob m) ! i"
  by (simp add: shared_of_def invD(4))

text \<open>A step that only changes the session's slot, and leaves the session without a snapshot.\<close>

lemma mv_inv_slot:
  assumes inv: "mv_inv m" and i: "i < length (mv_ses m)" and slot: "slot_upd f (at m i) s"
    and f: "sh_id (f (tg_shared (mglob m) ! i)) \<in> {0, sh_id (tg_shared (mglob m) ! i)}"
      "sh_pinned_id (f (tg_shared (mglob m) ! i)) = 0"
    and t: "tx_id (txn s) = sh_id (f (tg_shared (mglob m) ! i))" "WT_TXN_HAS_SNAPSHOT \<notin> tx_flags (txn s)"
      "WT_TXN_PREPARE \<notin> tx_flags (txn s)" "WT_TXN_HAS_ID \<in> tx_flags (txn s) \<longleftrightarrow> tx_id (txn s) \<noteq> 0"
  shows "mv_inv (put m i s)"
proof (rule mv_inv_put [OF inv i])
  note d = invD [OF inv i]
  have g: "glob s = (mglob m)\<lparr>tg_shared := (tg_shared (mglob m))[i := f (tg_shared (mglob m) ! i)]\<rparr>"
    using slot d(4) inv i by (simp add: slot_upd_def)
  show "glob_ok (glob s)" unfolding g using f d(1,2) by (intro glob_ok_shared) auto
  show "length (tg_shared (glob s)) = length (tg_shared (mglob m))" "tg_current (mglob m) \<le> tg_current (glob s)"
    "j \<noteq> i \<Longrightarrow> tg_shared (glob s) ! j = tg_shared (mglob m) ! j" for j by (simp_all add: g)
  show "c_commit_gen (cs_conn s) = c_commit_gen (mv_conn m)" using slot by (simp add: slot_upd_def)
  show "sh_id (tg_shared (glob s) ! i) \<in> {0, sh_id (tg_shared (mglob m) ! i)} \<or>
      tg_current (mglob m) \<le> sh_id (tg_shared (glob s) ! i)" using f d(2) by (simp add: g)
  show "ses_ok (cs_conn s) (mv_published m) i (cs_ses s)"
    using slot t d(2,4,10) inv i by (simp add: ses_ok_def slot_upd_def g)
qed

lemma mv_inv_release_snapshot:
  assumes inv: "mv_inv m" and i: "i < length (mv_ses m)"
  shows "mv_inv (put m i (wt_txn_release_snapshot (at m i)))"
proof (rule mv_inv_slot [OF inv i])
  note d = invD [OF inv i]
  have rs: "tg_checkpoint_id (glob (at m i)) = 0" "s_id (cs_ses (at m i)) < length (tg_shared (glob (at m i)))"
    using d by simp_all
  show "slot_upd (\<lambda>h. h\<lparr>sh_metadata_pinned := 0, sh_pinned_id := 0\<rparr>) (at m i) (wt_txn_release_snapshot (at m i))"
    by (rule release_snapshot_slot(1) [OF rs])
qed (use invD [OF inv i] in \<open>simp_all add: release_snapshot_slot\<close>)

lemma mv_inv_release:
  assumes inv: "mv_inv m" and i: "i < length (mv_ses m)"
  shows "mv_inv (put m i (wt_txn_release (at m i)))"
proof -
  note d = invD [OF inv i]
  have r: "tg_checkpoint_id (glob (at m i)) = 0" "s_id (cs_ses (at m i)) < length (tg_shared (glob (at m i)))"
    "WT_TXN_PREPARE \<notin> tx_flags (txn (at m i))" "WT_TXN_HAS_ID \<in> tx_flags (txn (at m i)) \<longleftrightarrow> tx_id (txn (at m i)) \<noteq> 0"
    "tx_id (txn (at m i)) = sh_id (shared_of (at m i))"
    using d inv i by simp_all
  obtain f where f: "slot_upd f (at m i) (wt_txn_release (at m i))" "sh_id (f (shared_of (at m i))) = 0"
    "sh_pinned_id (f (shared_of (at m i))) = 0" using release_slot(1) [OF r] by blast
  show ?thesis
    using f inv i release_slot(2,3) [OF r] by (intro mv_inv_slot [OF inv i f(1)]) simp_all
qed

lemma mv_inv_get_snapshot:
  assumes inv: "mv_inv m" and i: "i < length (mv_ses m)"
  shows "mv_inv (put m i (wt_txn_get_snapshot (at m i)))"
proof (cases "has_current_snapshot (at m i)")
  case True
  then have "put m i (wt_txn_get_snapshot (at m i)) = m" by (simp add: get_snapshot_fast put_def)
  then show ?thesis using inv by simp
next
  case False
  note d = invD [OF inv i]
  define s' where "s' = wt_txn_get_snapshot (at m i)"
  have gok: "glob_ok (glob (at m i))" using d(1) by simp
  have sid: "s_id (mv_ses m ! i) = i" and sh: "shared_of (at m i) = tg_shared (mglob m) ! i" using d(4) inv i by simp_all
  obtain p where p:
    "glob s' = (mglob m)\<lparr>tg_shared := (tg_shared (mglob m))[i := (tg_shared (mglob m) ! i)\<lparr>sh_pinned_id := p\<rparr>]\<rparr>"
    "p \<noteq> 0" "tg_oldest_id (mglob m) \<le> p" "p \<le> tg_current (mglob m)"
    "set (tx_snapshot (txn s')) = concurrent (mglob m) i" "\<forall>x\<in>set (tx_snapshot (txn s')). p \<le> x"
    "tx_snap_max (txn s') = tg_current (mglob m)" "snapshot_ok (txn s')" "tx_id (txn s') = tx_id (s_txn (mv_ses m ! i))"
    "tx_flags (txn s') = insert WT_TXN_HAS_SNAPSHOT (tx_flags (s_txn (mv_ses m ! i)))"
    "s_id (cs_ses s') = i" "s_commit_gen (cs_ses s') = c_commit_gen (mv_conn m)"
    "c_commit_gen (cs_conn s') = c_commit_gen (mv_conn m)"
    by (rule get_snapshot_new [OF False gok, unfolded at_simps sid sh, folded s'_def])
  have active: "sh_id (tg_shared (mglob m) ! j) \<in> concurrent (mglob m) i"
    if "j < length (tg_shared (mglob m))" "j \<noteq> i" "sh_id (tg_shared (mglob m) ! j) \<noteq> 0" for j
    using that d(1) by (auto simp: concurrent_def glob_ok_def)
  have pub: "x < tg_current (mglob m)" "x \<notin> concurrent (mglob m) i" if "x \<in> mv_published m" for x
  proof -
    have "concurrent (mglob m) i \<subseteq> active_ids (mglob m)" by (auto simp: concurrent_def active_ids_nth)
    then show "x < tg_current (mglob m)" "x \<notin> concurrent (mglob m) i" using inv that by (auto simp: mv_inv_def)
  qed
  have conc: "\<forall>j. j < length (tg_shared (mglob m)) \<and> j \<noteq> i \<and>
      sh_id ((tg_shared (mglob m))[i := (tg_shared (mglob m) ! i)\<lparr>sh_pinned_id := p\<rparr>] ! j) \<noteq> 0 \<and>
      sh_id ((tg_shared (mglob m))[i := (tg_shared (mglob m) ! i)\<lparr>sh_pinned_id := p\<rparr>] ! j) < tg_current (mglob m) \<longrightarrow>
      sh_id (tg_shared (mglob m) ! j) \<in> concurrent (mglob m) i"
    by (intro allI impI active) (elim conjE; simp)+
  show ?thesis unfolding s'_def [symmetric]
  proof (rule mv_inv_put [OF inv i])
    show "glob_ok (glob s')" unfolding p(1) using d(1,2) p(3,4) by (intro glob_ok_shared) auto
    show "ses_ok (cs_conn s') (mv_published m) i (cs_ses s')"
      using p conc pub d(2,6-8) by (simp add: ses_ok_def snap_ok_def)
  qed (use p d(2) in simp_all)
qed

lemma snap_ok_frame:
  assumes "snap_ok g i t" and "tg_current g \<le> tg_current g'" and "length (tg_shared g') = length (tg_shared g)"
    and "\<And>j. j \<noteq> i \<Longrightarrow> tg_shared g' ! j = tg_shared g ! j"
    and "sh_pinned_id (tg_shared g' ! i) = sh_pinned_id (tg_shared g ! i)"
  shows "snap_ok g' i t"
proof -
  have "tx_snap_max t \<le> tg_current g'" using assms(1,2) by (auto simp: snap_ok_def intro: order.trans)
  then show ?thesis using assms by (simp add: snap_ok_def cong: conj_cong)
qed

lemma snap_ok_txn [simp]:
  "snap_ok g i (t\<lparr>tx_id := x\<rparr>) = snap_ok g i t" "snap_ok g i (t\<lparr>tx_flags := fl\<rparr>) = snap_ok g i t"
  by (simp_all add: snap_ok_def snapshot_ok_def)

lemma mv_inv_allocate:
  assumes inv: "mv_inv m" and i: "i < length (mv_ses m)" and id: "wt_txn_id_check (Inr ()) (at m i) = (Inr (), s)"
    and room: "tg_current (mglob m) < WT_TXN_MAX"
  shows "mv_inv (put m i s)"
proof (cases "s = at m i")
  case True
  then have "put m i s = m" by (simp add: put_def)
  then show ?thesis using inv by simp
next
  case False
  note d = invD [OF inv i]
  let ?c = "tg_current (mglob m)" and ?h = "tg_shared (mglob m) ! i"
  have noid: "WT_TXN_HAS_ID \<notin> tx_flags (s_txn (mv_ses m ! i))"
    and s: "s = F_SET WT_TXN_HAS_ID (upd_shared (\<lambda>h. h\<lparr>sh_id := ?c\<rparr>)
      (upd_txn (\<lambda>t. t\<lparr>tx_id := ?c\<rparr>) (upd_glob (\<lambda>g. g\<lparr>tg_current := tg_current g + 1\<rparr>) (at m i))))"
    using id_check_effect [OF id] False by (auto simp: F_ISSET_def)
  have id0: "sh_id ?h = 0" using noid d(6,8) by simp
  have g: "glob s = (mglob m)\<lparr>tg_shared := (tg_shared (mglob m))[i := ?h\<lparr>sh_id := ?c\<rparr>], tg_current := ?c + 1\<rparr>"
    using d(4) by (simp add: s upd_shared_def upd_glob_def)
  have lt: "?c < ?c + 1" and le: "?c + 1 \<le> WT_TXN_MAX" and nz: "?c \<noteq> 0"
  proof -
    have "unat (?c + 1) = unat ?c + 1" using room by (rule unat_inc)
    then show "?c < ?c + 1" "?c + 1 \<le> WT_TXN_MAX" using room by (simp_all add: word_less_nat_alt word_le_nat_alt)
    show "?c \<noteq> 0" using d(1) by (auto simp: glob_ok_def)
  qed
  have pin: "sh_pinned_id ?h \<noteq> 0 \<longrightarrow> tg_oldest_id (mglob m) \<le> sh_pinned_id ?h \<and> sh_pinned_id ?h \<le> ?c + 1"
    using d(1,2) lt by (auto simp: glob_ok_def intro: order.trans [OF _ less_imp_le])
  show ?thesis
  proof (rule mv_inv_put [OF inv i])
    show "glob_ok (glob s)"
      unfolding g using d(1,2) pin le lt by (intro glob_ok_update) simp_all
    show "ses_ok (cs_conn s) (mv_published m) i (cs_ses s)"
    proof -
      have "snap_ok (glob s) i (s_txn (mv_ses m ! i))" if "snap_ok (mglob m) i (s_txn (mv_ses m ! i))"
        using that by (rule snap_ok_frame) (use lt d(2) in \<open>simp_all add: g less_imp_le\<close>)
      moreover have "cs_ses s = (mv_ses m ! i)\<lparr>s_txn := (s_txn (mv_ses m ! i))\<lparr>tx_id := ?c,
          tx_flags := insert WT_TXN_HAS_ID (tx_flags (s_txn (mv_ses m ! i)))\<rparr>\<rparr>"
        by (simp add: s txn_state_defs)
      moreover have "c_commit_gen (cs_conn s) = c_commit_gen (mv_conn m)" by (simp add: s)
      ultimately show ?thesis using d(2,3) nz by (simp add: ses_ok_def g)
    qed
  qed (use lt d(2) in \<open>simp_all add: g, simp_all add: s\<close>)
qed

lemma mv_inv_publish:
  assumes inv: "mv_inv m" and i: "i < length (mv_ses m)" and room: "c_commit_gen (mv_conn m) \<noteq> - 1"
  shows "mv_inv ((put m i (next_commit_gen (at m i)))
      \<lparr>mv_published := {x. x < tg_current (mglob m) \<and> x \<notin> active_ids (mglob m)}\<rparr>)"
proof -
  have lt: "c_commit_gen (mv_conn m) < c_commit_gen (mv_conn m) + 1"
  proof -
    have "c_commit_gen (mv_conn m) < - 1" using room by (simp add: less_le)
    from unat_inc [OF this] show ?thesis by (simp add: word_less_nat_alt)
  qed
  have "ses_ok ((mv_conn m)\<lparr>c_commit_gen := c_commit_gen (mv_conn m) + 1\<rparr>) P j (mv_ses m ! j)"
    if j: "j < length (mv_ses m)" for P j
  proof -
    have old: "ses_ok (mv_conn m) (mv_published m) j (mv_ses m ! j)" using invD(3) [OF inv j] .
    then have "s_commit_gen (mv_ses m ! j) < c_commit_gen (mv_conn m) + 1"
      using lt by (auto simp: ses_ok_def intro: order.strict_trans1)
    then show ?thesis using old by (auto simp: ses_ok_def)
  qed
  then show ?thesis using inv by (simp add: mv_inv_def put_def next_commit_gen_def)
qed

lemma oldest_walk_le:
  assumes "oldest_walk lo ss (l, m, o1) = (l', m', o')"
  shows "l' \<le> l \<and> o' \<le> o1 \<and> (\<forall>h\<in>set ss. (sh_id h \<noteq> 0 \<and> lo \<le> sh_id h \<longrightarrow> l' \<le> sh_id h) \<and>
    (sh_pinned_id h \<noteq> 0 \<longrightarrow> o' \<le> sh_pinned_id h))"
  using assms
proof (induction ss arbitrary: l m o1)
  case (Cons h ss)
  define l1 where "l1 = (if sh_id h \<noteq> WT_TXN_NONE \<and> lo \<le> sh_id h \<and> sh_id h < l then sh_id h else l)"
  define o2 where "o2 = (if sh_pinned_id h \<noteq> WT_TXN_NONE \<and> sh_pinned_id h < o1 then sh_pinned_id h else o1)"
  have b: "l1 \<le> l" "o2 \<le> o1" "sh_id h \<noteq> 0 \<Longrightarrow> lo \<le> sh_id h \<Longrightarrow> l1 \<le> sh_id h" "sh_pinned_id h \<noteq> 0 \<Longrightarrow> o2 \<le> sh_pinned_id h"
    by (auto simp: l1_def o2_def WT_TXN_NONE_def not_less)
  obtain m1 where "oldest_walk lo ss (l1, m1, o2) = (l', m', o')"
    using Cons.prems by (simp add: Let_def l1_def o2_def)
  note ih = Cons.IH [OF this]
  have "l' \<le> l" "o' \<le> o1" using ih b(1,2) by (auto intro: order.trans)
  moreover have "sh_id h \<noteq> 0 \<and> lo \<le> sh_id h \<longrightarrow> l' \<le> sh_id h" "sh_pinned_id h \<noteq> 0 \<longrightarrow> o' \<le> sh_pinned_id h"
    using ih b(3,4) by (auto intro: order.trans)
  ultimately show ?case using ih by simp
qed simp

lemma oldest_scan_le:
  assumes "txn_oldest_scan g = (o', l', m')"
  shows "o' \<le> tg_current g" and "h \<in> set (tg_shared g) \<Longrightarrow> sh_pinned_id h \<noteq> 0 \<Longrightarrow> o' \<le> sh_pinned_id h"
    and "h \<in> set (tg_shared g) \<Longrightarrow> sh_id h \<noteq> 0 \<Longrightarrow> tg_oldest_id g \<le> sh_id h \<Longrightarrow> o' \<le> sh_id h"
proof -
  define mp where "mp = (if sh_id (tg_ckpt_shared g) = WT_TXN_NONE then tg_current g else sh_id (tg_ckpt_shared g))"
  obtain l1 m1 o1 where w: "oldest_walk (tg_oldest_id g) (tg_shared g) (tg_current g, mp, tg_current g) = (l1, m1, o1)"
    by (metis prod_cases3)
  have o': "o' = (if l1 < o1 then l1 else o1)"
    using assms by (auto simp: txn_oldest_scan_def Let_def w [unfolded mp_def])
  then have "o' \<le> l1" "o' \<le> o1" by auto
  then show "o' \<le> tg_current g" "h \<in> set (tg_shared g) \<Longrightarrow> sh_pinned_id h \<noteq> 0 \<Longrightarrow> o' \<le> sh_pinned_id h"
    "h \<in> set (tg_shared g) \<Longrightarrow> sh_id h \<noteq> 0 \<Longrightarrow> tg_oldest_id g \<le> sh_id h \<Longrightarrow> o' \<le> sh_id h"
    using oldest_walk_le [OF w] by (auto intro: order.trans)
qed

lemma update_oldest_effect:
  obtains o' l' m' where "update_oldest_locked found g =
      g\<lparr>tg_metadata_pinned := m', tg_oldest_id := o', tg_last_running := l'\<rparr>"
    "o' = tg_oldest_id g \<or> tg_oldest_id g \<le> o' \<and> (\<exists>l m. txn_oldest_scan g = (o', l, m))"
proof (cases "update_oldest_locked found g = g")
  case True
  then show thesis using that [of "tg_last_running g" "tg_oldest_id g" "tg_metadata_pinned g"] by simp
next
  case False
  obtain o1 l1 m1 where sc: "txn_oldest_scan g = (o1, l1, m1)" by (metis prod_cases3)
  obtain a b c where f: "found = (a, b, c)" by (metis prod_cases3)
  have "update_oldest_locked found g = g\<lparr>
      tg_metadata_pinned := (if tg_metadata_pinned g < m1 then m1 else tg_metadata_pinned g),
      tg_oldest_id := (if tg_oldest_id g < o1 then o1 else tg_oldest_id g),
      tg_last_running := (if tg_last_running g < l1 then l1 else tg_last_running g)\<rparr>"
    using False unfolding update_oldest_locked_def sc f Let_def by (auto split: if_splits)
  then show thesis by (rule that) (use sc in auto)
qed

lemma mv_inv_update_oldest:
  assumes inv: "mv_inv m"
  shows "mv_inv (m\<lparr>mv_conn := (mv_conn m)\<lparr>c_global := update_oldest_locked found (mglob m)\<rparr>\<rparr>)"
proof -
  obtain o' l' m' where e: "update_oldest_locked found (mglob m) =
      (mglob m)\<lparr>tg_metadata_pinned := m', tg_oldest_id := o', tg_last_running := l'\<rparr>"
    and o': "o' = tg_oldest_id (mglob m) \<or> tg_oldest_id (mglob m) \<le> o' \<and> (\<exists>l m'. txn_oldest_scan (mglob m) = (o', l, m'))"
    by (rule update_oldest_effect)
  have g: "glob_ok (mglob m)" using inv by (simp add: mv_inv_def)
  have "tg_oldest_id (mglob m) \<le> o'" "o' \<le> tg_current (mglob m)"
    "h \<in> set (tg_shared (mglob m)) \<Longrightarrow> sh_pinned_id h \<noteq> 0 \<Longrightarrow> o' \<le> sh_pinned_id h"
    "h \<in> set (tg_shared (mglob m)) \<Longrightarrow> sh_id h \<noteq> 0 \<Longrightarrow> o' \<le> sh_id h" for h
    using o' g oldest_scan_le [of "mglob m" o'] by (auto simp: glob_ok_def)
  then have "glob_ok (update_oldest_locked found (mglob m))"
    using g by (auto simp: e glob_ok_def intro: order.trans)
  moreover have "active_ids (update_oldest_locked found (mglob m)) = active_ids (mglob m)"
    by (simp add: e active_ids_def)
  ultimately show ?thesis using inv by (simp add: e mv_inv_def ses_ok_def snap_ok_def)
qed

lemma mv_inv_step: "mvcc_step m m' \<Longrightarrow> mv_inv m \<Longrightarrow> mv_inv m'"
  by (induction rule: mvcc_step.induct)
    (blast intro: mv_inv_get_snapshot mv_inv_release_snapshot mv_inv_allocate mv_inv_release mv_inv_publish
      mv_inv_update_oldest)+

lemma mvcc_run_inv: "mvcc_run n m \<Longrightarrow> mv_inv m"
  by (induction rule: mvcc_run.induct) (simp_all add: mv_inv_init mv_inv_step)

subsection \<open>Properties\<close>

lemma visible_below:
  assumes "mv_inv m" and "i < length (mv_ses m)" and "WT_TXN_HAS_SNAPSHOT \<in> tx_flags (s_txn (mv_ses m ! i))"
    and "x < tg_oldest_id (mglob m)"
  shows "txn_visible_id (at m i) x"
proof -
  note d = invD [OF assms(1,2)]
  have so: "snap_ok (mglob m) i (s_txn (mv_ses m ! i))" using d(3) assms(3) by (simp add: ses_ok_def)
  have "tg_oldest_id (mglob m) \<le> sh_pinned_id (tg_shared (mglob m) ! i)"
    using so d(1,2) by (auto simp: snap_ok_def glob_ok_def)
  then have "x < sh_pinned_id (tg_shared (mglob m) ! i)" using assms(4) by (rule order.strict_trans2 [rotated])
  then have "x < tx_snap_max (s_txn (mv_ses m ! i))" "x \<notin> set (tx_snapshot (s_txn (mv_ses m ! i)))"
    using so by (auto simp: snap_ok_def intro: order.strict_trans2)
  moreover have "x \<noteq> WT_TXN_ABORTED"
  proof -
    have "x < - 1" using assms(4) by (metis word_order.extremum_strict less_le word_order.extremum)
    then show ?thesis by (simp add: WT_TXN_ABORTED_def)
  qed
  ultimately show ?thesis using so by (subst visible_id_iff) (simp_all add: snap_ok_def)
qed

text \<open>
  C5: whatever the sessions did, an ID that one session finds visible to everybody (so that older
  versions may be discarded) is visible in the snapshot of every session that has one.
\<close>

theorem global_visibility_sound:
  assumes "mvcc_run n m" and "i < length (mv_ses m)" and "j < length (mv_ses m)"
    and "WT_TXN_HAS_SNAPSHOT \<in> tx_flags (s_txn (mv_ses m ! i))"
    and "WT_TXN_IS_CHECKPOINT \<notin> tx_flags (s_txn (mv_ses m ! j))" and "\<not> s_metadata (mv_ses m ! j)"
    and "\<not> c_recovering (mv_conn m)"
    and "txn_visible_all_id (at m j) x"
  shows "txn_visible_id (at m i) x"
proof (rule visible_below)
  show inv: "mv_inv m" using assms(1) by (rule mvcc_run_inv)
  show "x < tg_oldest_id (mglob m)"
    using assms(5-8) invD(1) [OF inv assms(3)]
    by (simp add: txn_visible_all_id_def F_ISSET_def wt_txn_oldest_id_def glob_ok_def new_shared_def WT_TXN_NONE_def)
qed (rule assms)+

text \<open>
  A run of two sessions: the first takes a snapshot, an ID and ends; the generation is switched; it
  takes another ID, and the second session takes a snapshot.
\<close>

definition snap_step :: "nat \<Rightarrow> mv \<Rightarrow> mv" where "snap_step i m = put m i (wt_txn_get_snapshot (at m i))"
definition id_step :: "nat \<Rightarrow> mv \<Rightarrow> mv" where "id_step i m = put m i (snd (wt_txn_id_check (Inr ()) (at m i)))"
definition end_step :: "nat \<Rightarrow> mv \<Rightarrow> mv" where "end_step i m = put m i (wt_txn_release (at m i))"
definition gen_step :: "nat \<Rightarrow> u64 set \<Rightarrow> mv \<Rightarrow> mv" where
  "gen_step i p m = (put m i (next_commit_gen (at m i)))\<lparr>mv_published := p\<rparr>"

definition oldest_step :: "u64 \<times> u64 \<times> u64 \<Rightarrow> mv \<Rightarrow> mv" where
  "oldest_step found m = m\<lparr>mv_conn := (mv_conn m)\<lparr>c_global := update_oldest_locked found (mglob m)\<rparr>\<rparr>"

lemmas demo_steps = snap_step_def id_step_def end_step_def gen_step_def oldest_step_def

lemma demo_length [simp]:
  "length (mv_ses (snap_step i m)) = length (mv_ses m)" "length (mv_ses (id_step i m)) = length (mv_ses m)"
  "length (mv_ses (end_step i m)) = length (mv_ses m)" "length (mv_ses (gen_step i p m)) = length (mv_ses m)"
  "length (mv_ses (oldest_step f m)) = length (mv_ses m)" "length (mv_ses (mv_init n)) = n"
  by (simp_all add: demo_steps put_def mv_init_def)

lemma run_snap: "mvcc_run n m \<Longrightarrow> i < length (mv_ses m) \<Longrightarrow> mvcc_run n (snap_step i m)"
  and run_end: "mvcc_run n m \<Longrightarrow> i < length (mv_ses m) \<Longrightarrow> mvcc_run n (end_step i m)"
  and run_oldest: "mvcc_run n m \<Longrightarrow> mvcc_run n (oldest_step f m)"
  by (auto simp: demo_steps intro: mvcc_run.step mvcc_step.intros)

lemma run_id:
  assumes "mvcc_run n m" and "i < length (mv_ses m)" and "fst (wt_txn_id_check (Inr ()) (at m i)) = Inr ()"
    and "tg_current (mglob m) < WT_TXN_MAX"
  shows "mvcc_run n (id_step i m)"
proof -
  have "wt_txn_id_check (Inr ()) (at m i) = (Inr (), snd (wt_txn_id_check (Inr ()) (at m i)))"
    using assms(3) by (simp add: prod_eq_iff)
  from mvcc_step.allocate [OF assms(2) this assms(4)] show ?thesis
    unfolding id_step_def by (rule mvcc_run.step [OF assms(1)])
qed

lemma run_gen:
  "mvcc_run n m \<Longrightarrow> i < length (mv_ses m) \<Longrightarrow> c_commit_gen (mv_conn m) \<noteq> - 1 \<Longrightarrow>
    p = {x. x < tg_current (mglob m) \<and> x \<notin> active_ids (mglob m)} \<Longrightarrow> mvcc_run n (gen_step i p m)"
  by (auto simp: demo_steps intro: mvcc_run.step mvcc_step.publish)

definition demo1 :: mv where "demo1 = end_step 0 (id_step 0 (snap_step 0 (mv_init 2)))"

definition demo_ended :: "u64 set" where
  "demo_ended = {x. x < tg_current (mglob demo1) \<and> x \<notin> active_ids (mglob demo1)}"

definition demo2 :: "u64 set \<Rightarrow> mv" where "demo2 p = snap_step 0 (oldest_step (2, 2, 2) (gen_step 0 p demo1))"
definition demo3 :: "u64 set \<Rightarrow> mv" where "demo3 p = snap_step 1 (id_step 0 (demo2 p))"

lemma demo_run: "mvcc_run 2 (demo3 demo_ended)"
proof -
  have "mvcc_run 2 demo1"
    unfolding demo1_def by (intro run_end run_id run_snap mvcc_run.start) (simp_all, code_simp+)
  moreover have "c_commit_gen (mv_conn demo1) \<noteq> - 1" by code_simp
  moreover have "length (mv_ses demo1) = 2" by (simp add: demo1_def)
  ultimately have "mvcc_run 2 (demo2 demo_ended)"
    unfolding demo2_def by (intro run_oldest run_gen run_snap) (simp_all add: demo_ended_def)
  moreover have "fst (wt_txn_id_check (Inr ()) (at (demo2 p) 0)) = Inr ()" "tg_current (mglob (demo2 p)) < WT_TXN_MAX" for p
    by code_simp+
  moreover have "length (mv_ses (demo2 p)) = 2" for p by (simp add: demo2_def demo1_def)
  ultimately show ?thesis unfolding demo3_def by (intro run_snap run_id) simp_all
qed

lemma demo_published: "mv_published (demo3 p) = p" "1 \<in> demo_ended"
proof -
  show "mv_published (demo3 p) = p" by (simp add: demo3_def demo2_def demo_steps put_def)
  have "tg_current (mglob demo1) = 2" "sh_id ` set (tg_shared (mglob demo1)) = {0}" by code_simp+
  then show "1 \<in> demo_ended" by (simp add: demo_ended_def active_ids_def)
qed

theorem global_visibility_sound_witness: "txn_visible_all_id (at (demo3 demo_ended) 0) 1 \<and> txn_visible_id (at (demo3 demo_ended) 1) 1"
proof -
  have "length (mv_ses (demo3 p)) = 2" "WT_TXN_HAS_SNAPSHOT \<in> tx_flags (s_txn (mv_ses (demo3 p) ! 1))"
    "WT_TXN_IS_CHECKPOINT \<notin> tx_flags (s_txn (mv_ses (demo3 p) ! 0))" "\<not> s_metadata (mv_ses (demo3 p) ! 0)"
    "\<not> c_recovering (mv_conn (demo3 p))" and v: "txn_visible_all_id (at (demo3 p) 0) 1" for p
    by code_simp+
  then show ?thesis using global_visibility_sound [OF demo_run, of 1 0 1] by simp
qed



end
