(* ===== verification/Hex.thy ===== *)
theory Hex
  imports Wt_Prelude
begin

text \<open>
  Hexadecimal strings, \<open>src/support/hex.c\<close>. A C string is its bytes up to and including the nul; a
  read past the end of a list is \<open>OutOfBounds\<close>. \<open>isprint\<close> is that of the C locale. Growing the
  destination does not fail.
\<close>

definition hex_digits :: "u8 list" where
  "hex_digits = [48, 49, 50, 51, 52, 53, 54, 55, 56, 57, 97, 98, 99, 100, 101, 102]"

definition wt_hex :: "nat \<Rightarrow> u8" where
  "wt_hex c = hex_digits ! c"

definition high_digit :: "u8 \<Rightarrow> u8" where "high_digit b = wt_hex (unat (drop_bit 4 (b AND 240)))"
definition low_digit :: "u8 \<Rightarrow> u8" where "low_digit b = wt_hex (unat (b AND 15))"

fun fill_hex :: "u8 list \<Rightarrow> nat \<Rightarrow> u8 list" where
  "fill_hex [] dest_max = [0]"
| "fill_hex (b # src) dest_max =
     (if dest_max > 1 then high_digit b # low_digit b # fill_hex src (dest_max - 2) else [0])"

definition wt_fill_hex :: "u8 list \<Rightarrow> nat \<Rightarrow> u8 list" where
  "wt_fill_hex src dest_max = fill_hex src (if dest_max > 0 then dest_max - 1 else dest_max)"

definition wt_raw_to_hex :: "u8 list \<Rightarrow> u8 list" where
  "wt_raw_to_hex src = wt_fill_hex src (length src * 2 + 1)"

definition wt_isprint :: "u8 \<Rightarrow> bool" where
  "wt_isprint c \<longleftrightarrow> 32 \<le> c \<and> c \<le> 126"

text \<open>92 is the backslash.\<close>

fun wt_raw_to_esc_hex :: "u8 list \<Rightarrow> u8 list" where
  "wt_raw_to_esc_hex [] = [0]"
| "wt_raw_to_esc_hex (b # src) =
     (if wt_isprint b then (if b = 92 then [92] else []) @ [b] else [92, high_digit b, low_digit b]) @
     wt_raw_to_esc_hex src"

definition hex_value :: "u8 \<Rightarrow> u8 option" where
  "hex_value = map_of
     [(48, 0), (49, 1), (50, 2), (51, 3), (52, 4), (53, 5), (54, 6), (55, 7), (56, 8), (57, 9),
      (65, 10), (66, 11), (67, 12), (68, 13), (69, 14), (70, 15),
      (97, 10), (98, 11), (99, 12), (100, 13), (101, 14), (102, 15)]"

definition wt_hex2byte :: "u8 \<Rightarrow> u8 \<Rightarrow> u8 option" where
  "wt_hex2byte c0 c1 = (case hex_value c0 of None \<Rightarrow> None
     | Some h \<Rightarrow> (case hex_value c1 of None \<Rightarrow> None | Some l \<Rightarrow> Some (push_bit 4 h OR l)))"

fun nhex_loop :: "u8 list \<Rightarrow> nat \<Rightarrow> u8 list result" where
  "nhex_loop p 0 = Inr []"
| "nhex_loop (c0 # c1 # p) (Suc (Suc sz)) =
     (case wt_hex2byte c0 c1 of None \<Rightarrow> Inl EINVAL | Some b \<Rightarrow> map_sum id ((#) b) (nhex_loop p sz))"
| "nhex_loop _ _ = Inl OutOfBounds"

definition wt_nhex_to_raw :: "u8 list \<Rightarrow> nat \<Rightarrow> u8 list result" where
  "wt_nhex_to_raw src sz = (if sz mod 2 \<noteq> 0 then Inl EINVAL else nhex_loop src sz)"

definition wt_hex_to_raw :: "u8 list \<Rightarrow> u8 list result" where
  "wt_hex_to_raw src = wt_nhex_to_raw src (length (takeWhile (\<lambda>c. c \<noteq> 0) src))"

fun wt_esc_hex_to_raw :: "u8 list \<Rightarrow> u8 list result" where
  "wt_esc_hex_to_raw [] = Inl OutOfBounds"
| "wt_esc_hex_to_raw (c # p) =
     (if c = 0 then Inr []
      else if c \<noteq> 92 then map_sum id ((#) c) (wt_esc_hex_to_raw p)
      else case p of [] \<Rightarrow> Inl OutOfBounds
        | c0 # p' \<Rightarrow>
          if c0 = 92 then map_sum id ((#) c) (wt_esc_hex_to_raw p')
          else if c0 = 0 then Inl EINVAL
          else case p' of [] \<Rightarrow> Inl OutOfBounds
            | c1 # p'' \<Rightarrow>
              if c1 = 0 then Inl EINVAL
              else case wt_hex2byte c0 c1 of None \<Rightarrow> Inl EINVAL
                | Some b \<Rightarrow> map_sum id ((#) b) (wt_esc_hex_to_raw p''))"

subsection \<open>Digits\<close>

lemma hex_digit_cases: "n < 16 \<Longrightarrow> hex_value (wt_hex n) = Some (of_nat n) \<and> wt_hex n \<noteq> 0 \<and> wt_hex n \<noteq> 92"
proof -
  have "\<forall>n\<in>set [0..<16]. hex_value (wt_hex n) = Some (of_nat n) \<and> wt_hex n \<noteq> 0 \<and> wt_hex n \<noteq> 92"
    by code_simp
  then show "n < 16 \<Longrightarrow> hex_value (wt_hex n) = Some (of_nat n) \<and> wt_hex n \<noteq> 0 \<and> wt_hex n \<noteq> 92" by simp
qed

lemma nibbles:
  "unat (b AND 15 :: u8) < 16" "unat (drop_bit 4 (b AND 240 :: u8)) < 16"
  "push_bit 4 (drop_bit 4 (b AND 240)) OR (b AND 15) = b"
proof -
  show "unat (b AND 15) < 16" by (simp add: unat_low_nibble)
  have "unat (drop_bit 4 (b AND 240)) = unat b div 16" by (simp only: unat_drop_bit unat_high_nibble) simp
  then show "unat (drop_bit 4 (b AND 240)) < 16" using u8_less [of b] by simp
  have m: "(240 :: u8) = push_bit 4 (mask 4)" "(15 :: u8) = mask 4" by (simp_all add: mask_eq_exp_minus_1 push_bit_eq_mult)
  show "push_bit 4 (drop_bit 4 (b AND 240)) OR (b AND 15) = b"
    unfolding m by (rule bit_word_eqI) (auto simp: bit_simps)
qed

lemma digits_value [simp]:
  "wt_hex2byte (high_digit b) (low_digit b) = Some b"
  "high_digit b \<noteq> 0" "low_digit b \<noteq> 0" "high_digit b \<noteq> 92" "low_digit b \<noteq> 92"
proof -
  have "wt_hex2byte (high_digit b) (low_digit b) = Some (push_bit 4 (drop_bit 4 (b AND 240)) OR (b AND 15))"
    unfolding wt_hex2byte_def high_digit_def low_digit_def
    by (simp only: hex_digit_cases [OF nibbles(1)] hex_digit_cases [OF nibbles(2)] option.case of_nat_unat ucast_id)
  then show "wt_hex2byte (high_digit b) (low_digit b) = Some b" by (simp only: nibbles(3))
  show "high_digit b \<noteq> 0" "low_digit b \<noteq> 0" "high_digit b \<noteq> 92" "low_digit b \<noteq> 92"
    unfolding high_digit_def low_digit_def
    by (simp_all only: hex_digit_cases [OF nibbles(1)] hex_digit_cases [OF nibbles(2)] not_False_eq_True)
qed

lemma fill_hex_length: "length src * 2 \<le> n \<Longrightarrow> length (takeWhile (\<lambda>c. c \<noteq> 0) (fill_hex src n)) = length src * 2"
  by (induction src n rule: fill_hex.induct) auto

lemma nhex_fill: "length src * 2 \<le> n \<Longrightarrow> nhex_loop (fill_hex src n) (length src * 2) = Inr src"
  by (induction src n rule: fill_hex.induct) auto

lemma esc_hex_raw: "wt_esc_hex_to_raw (wt_raw_to_esc_hex src) = Inr src"
proof (induction src)
  case (Cons b src)
  then show ?case by (cases "wt_isprint b") (auto simp: wt_isprint_def)
qed simp

text \<open>
  Any bytes turned into a hexadecimal string, plain or escaped, read back as the same bytes.
\<close>

theorem hex_roundtrip:
  "wt_hex_to_raw (wt_raw_to_hex src) = Inr src \<and> wt_esc_hex_to_raw (wt_raw_to_esc_hex src) = Inr src"
  by (simp add: wt_hex_to_raw_def wt_raw_to_hex_def wt_fill_hex_def wt_nhex_to_raw_def fill_hex_length nhex_fill
      esc_hex_raw)

end
