(* ===== verification/TxnTimestamp.thy ===== *)
theory TxnTimestamp
  imports TxnSnapshot Hex
begin

text \<open>
  Timestamps, \<open>src/txn/txn_timestamp.c\<close> with the configuration of a transaction of \<open>src/txn/txn.c\<close> and
  \<open>__wt_timestamp_to_hex_string\<close> of \<open>src/support/timestamp.c\<close>. A configuration is what the parser gives
  back: the pairs of a configuration string, or the values looked up in one, empty (or 0) when absent.
  Where a lock is released between a check and the change it is for, what other threads do meanwhile is
  a function argument.
\<close>

subsection \<open>Hexadecimal timestamps\<close>

definition hextable :: "int list" where
  "hextable = replicate 48 (- 1) @ [0, 1, 2, 3, 4, 5, 6, 7, 8, 9] @ replicate 7 (- 1) @ [10, 11, 12, 13, 14, 15] @
     replicate 26 (- 1) @ [10, 11, 12, 13, 14, 15] @ [- 1]"

fun parse_hex :: "u64 \<Rightarrow> u8 list \<Rightarrow> u64 result" where
  "parse_hex ts [] = Inr ts"
| "parse_hex ts (c # cs) =
     (let hex_val = (if unat c < length hextable then hextable ! unat c else - 1) in
      if hex_val < 0 then Inl EINVAL else parse_hex (push_bit 4 ts OR word_of_int hex_val) cs)"

definition wt_txn_parse_timestamp_raw :: "u8 list \<Rightarrow> u64 result" where
  "wt_txn_parse_timestamp_raw cval =
     (if cval = [] then Inr 0 else if length cval > 2 * 8 then Inl EINVAL else parse_hex 0 cval)"

definition wt_txn_parse_timestamp :: "u8 list \<Rightarrow> u64 result" where
  "wt_txn_parse_timestamp cval = wt_ret (wt_txn_parse_timestamp_raw cval)
     (\<lambda>ts. if cval \<noteq> [] \<and> ts = WT_TS_NONE then Inl EINVAL else Inr ts)"

text \<open>The digits, lowest first, and the loop that reverses them in place.\<close>

function ts_digits :: "u64 \<Rightarrow> u8 list" where
  "ts_digits ts = (if ts = 0 then [] else wt_hex (unat (ts AND 15)) # ts_digits (drop_bit 4 ts))"
  by pat_completeness auto
termination
proof (relation "measure unat")
  fix ts :: u64 assume "ts \<noteq> 0"
  then have "0 < unat ts" by (simp add: unat_gt_0)
  then have "unat (drop_bit 4 ts) < unat ts" by (simp only: unat_drop_bit) simp
  then show "(drop_bit 4 ts, ts) \<in> measure unat" by simp
qed simp

declare ts_digits.simps [simp del]

function reverse_loop :: "u8 list \<Rightarrow> nat \<Rightarrow> nat \<Rightarrow> u8 list" where
  "reverse_loop s hex p = (if p > hex then reverse_loop (s[p := s ! hex, hex := s ! p]) (hex + 1) (p - 1) else s)"
  by pat_completeness auto
termination by (relation "measure (\<lambda>(s, hex, p). p - hex)") auto

declare reverse_loop.simps [simp del]

definition wt_timestamp_to_hex_string :: "u64 \<Rightarrow> u8 list" where
  "wt_timestamp_to_hex_string ts =
     (if ts = 0 then [48, 0]
      else if ts = WT_TS_MAX then replicate 16 102 @ [0]
      else let s = ts_digits ts in reverse_loop s 0 (length s - 1) @ [0])"

subsection \<open>Queries\<close>

fun durable_walk :: "wt_txn_shared list \<Rightarrow> u64 \<Rightarrow> u64" where
  "durable_walk [] ts = ts"
| "durable_walk (s # ss) ts =
     (let tmpts = sh_pinned_durable s in
      if tmpts = 0 then durable_walk ss ts
      else if ts = 0 then durable_walk ss tmpts
      else durable_walk ss (if tmpts - 1 < ts then tmpts - 1 else ts))"

definition txn_global_query_timestamp :: "string \<Rightarrow> wt_txn_global \<Rightarrow> u64 result" where
  "txn_global_query_timestamp get g =
     (if get = ''all_durable'' then
        Inr (durable_walk (tg_shared g) (if tg_has_durable g then tg_durable_ts g else 0))
      else if get = ''last_checkpoint'' then Inr (tg_last_ckpt_ts g)
      else if get = ''oldest_timestamp'' \<or> get = ''oldest'' then Inr (if tg_has_oldest g then tg_oldest_ts g else 0)
      else if get = ''oldest_reader'' then
        Inr (wt_txn_get_pinned_timestamp g \<lparr>TS_INCLUDE_CKPT = True, TS_INCLUDE_OLDEST = False\<rparr>)
      else if get = ''pinned'' then
        Inr (wt_txn_get_pinned_timestamp g \<lparr>TS_INCLUDE_CKPT = True, TS_INCLUDE_OLDEST = True\<rparr>)
      else if get = ''recovery'' then Inr (tg_recovery_ts g)
      else if get = ''stable_timestamp'' \<or> get = ''stable'' then Inr (if tg_has_stable g then tg_stable_ts g else 0)
      else Inl EINVAL)"

definition txn_query_timestamp :: "string \<Rightarrow> cs \<Rightarrow> u64 result" where
  "txn_query_timestamp get s =
     (if get = ''commit'' then Inr (tx_commit_ts (txn s))
      else if get = ''first_commit'' then Inr (tx_first_commit_ts (txn s))
      else if get = ''prepare'' then Inr (tx_prepare_ts (txn s))
      else if get = ''read'' then Inr (sh_read_ts (shared_of s))
      else Inl EINVAL)"

definition wt_txn_query_timestamp :: "bool \<Rightarrow> string \<Rightarrow> cs \<Rightarrow> u8 list result" where
  "wt_txn_query_timestamp global_txn get s =
     wt_ret (if global_txn then txn_global_query_timestamp get (glob s) else txn_query_timestamp get s)
       (\<lambda>ts. Inr (wt_timestamp_to_hex_string ts))"

subsection \<open>Setting the global timestamps\<close>

record ts_request =
  rq_durable :: "u8 list"
  rq_oldest :: "u8 list"
  rq_stable :: "u8 list"
  rq_force :: bool

text \<open>What a call carries from its checks to the change: the timestamps and which of them to set.\<close>

record ts_change =
  ch_durable :: "u64 option"
  ch_oldest :: "u64 option"
  ch_stable :: "u64 option"

definition parse_request :: "ts_request \<Rightarrow> ts_change result" where
  "parse_request rq =
     wt_ret (wt_txn_parse_timestamp (rq_durable rq)) (\<lambda>durable_ts.
     wt_ret (wt_txn_parse_timestamp (rq_oldest rq)) (\<lambda>oldest_ts.
     wt_ret (wt_txn_parse_timestamp (rq_stable rq)) (\<lambda>stable_ts.
       Inr \<lparr>ch_durable = (if rq_durable rq \<noteq> [] then Some durable_ts else None),
            ch_oldest = (if rq_oldest rq \<noteq> [] then Some oldest_ts else None),
            ch_stable = (if rq_stable rq \<noteq> [] then Some stable_ts else None)\<rparr>)))"

text \<open>The checks under the read lock.\<close>

definition set_ts_check :: "ts_change \<Rightarrow> wt_txn_global \<Rightarrow> ts_change result" where
  "set_ts_check ch g =
     (let last_oldest_ts = tg_oldest_ts g; last_stable_ts = tg_stable_ts g;
          has_oldest = (case ch_oldest ch of None \<Rightarrow> False | Some t \<Rightarrow> \<not> (tg_has_oldest g \<and> t \<le> last_oldest_ts));
          has_stable = (case ch_stable ch of None \<Rightarrow> False | Some t \<Rightarrow> \<not> (tg_has_stable g \<and> t \<le> last_stable_ts));
          oldest_ts = (case ch_oldest ch of None \<Rightarrow> 0 | Some t \<Rightarrow> t);
          stable_ts = (case ch_stable ch of None \<Rightarrow> 0 | Some t \<Rightarrow> t);
          oldest_ts = (if \<not> has_oldest \<and> tg_has_oldest g then last_oldest_ts else oldest_ts);
          stable_ts = (if \<not> has_stable \<and> tg_has_stable g then last_stable_ts else stable_ts)
      in if (has_oldest \<or> has_stable) \<and> (has_oldest \<or> tg_has_oldest g) \<and> (has_stable \<or> tg_has_stable g) \<and>
            oldest_ts > stable_ts then Inl EINVAL
         else Inr (ch\<lparr>ch_oldest := (if has_oldest then Some oldest_ts else None),
                      ch_stable := (if has_stable then Some stable_ts else None)\<rparr>))"

text \<open>The change under the write lock.\<close>

definition set_ts_apply :: "bool \<Rightarrow> ts_change \<Rightarrow> wt_txn_global \<Rightarrow> wt_txn_global" where
  "set_ts_apply force ch g =
     (let g = (case ch_durable ch of None \<Rightarrow> g | Some durable_ts \<Rightarrow>
            g\<lparr>tg_durable_ts := durable_ts, tg_has_durable := True\<rparr>);
          g = (case ch_oldest ch of None \<Rightarrow> g | Some oldest_ts \<Rightarrow>
            if \<not> tg_has_oldest g \<or> force \<or> oldest_ts > tg_oldest_ts g
            then g\<lparr>tg_oldest_ts := oldest_ts, tg_has_oldest := True, tg_oldest_is_pinned := False\<rparr> else g);
          g = (case ch_stable ch of None \<Rightarrow> g | Some stable_ts \<Rightarrow>
            if \<not> tg_has_stable g \<or> force \<or> stable_ts > tg_stable_ts g
            then g\<lparr>tg_stable_ts := stable_ts, tg_has_stable := True, tg_stable_is_pinned := False\<rparr> else g)
      in g)"

definition set_ts_finish :: "(wt_txn_global \<Rightarrow> wt_txn_global) \<Rightarrow> (wt_txn_global \<Rightarrow> wt_txn_global) \<Rightarrow> bool \<Rightarrow>
    ts_change \<Rightarrow> wt_txn_global \<Rightarrow> wt_txn_global" where
  "set_ts_finish after pin_between force ch g =
     (let g = set_ts_apply force ch g in
      if ch_oldest ch \<noteq> None \<or> ch_stable ch \<noteq> None
      then wt_txn_update_pinned_timestamp pin_between force (after g) else g)"

text \<open>\<open>before\<close>, \<open>after\<close> and \<open>pin_between\<close> are what other threads do when the lock is not held.\<close>

definition wt_txn_global_set_timestamp ::
    "(wt_txn_global \<Rightarrow> wt_txn_global) \<Rightarrow> (wt_txn_global \<Rightarrow> wt_txn_global) \<Rightarrow> (wt_txn_global \<Rightarrow> wt_txn_global) \<Rightarrow>
      ts_request \<Rightarrow> wt_txn_global \<Rightarrow> unit result \<times> wt_txn_global" where
  "wt_txn_global_set_timestamp before after pin_between rq g =
     (if rq_durable rq = [] \<and> rq_oldest rq = [] \<and> rq_stable rq = [] then (Inr (), g)
      else case parse_request rq of Inl e \<Rightarrow> (Inl e, g)
      | Inr ch \<Rightarrow>
        if rq_force rq then (Inr (), set_ts_finish after pin_between True ch (before g))
        else case set_ts_check ch g of Inl e \<Rightarrow> (Inl e, g)
        | Inr ch \<Rightarrow>
          if ch_durable ch = None \<and> ch_oldest ch = None \<and> ch_stable ch = None then (Inr (), g)
          else (Inr (), set_ts_finish after pin_between False ch (before g)))"

subsection \<open>A transaction's timestamps\<close>

text \<open>The result is the commit timestamp to use.\<close>

definition wt_txn_validate_commit_timestamp :: "u64 \<Rightarrow> cs \<Rightarrow> u64 result" where
  "wt_txn_validate_commit_timestamp commit_tsp s =
     (let t = txn s; g = glob s in
      if \<not> F_ISSET s WT_TXN_HAS_TS_PREPARE then
        if F_ISSET s WT_TXN_HAS_TS_COMMIT \<and> commit_tsp < tx_first_commit_ts t then Inl EINVAL
        else
          let commit_ts = (if F_ISSET s WT_TXN_HAS_TS_COMMIT then tx_first_commit_ts t else commit_tsp) in
          if tg_has_oldest g \<and> commit_ts < tg_oldest_ts g then Inl EINVAL
          else if tg_has_stable g \<and> commit_ts \<le> tg_stable_ts g then Inl EINVAL
          else Inr commit_tsp
      else if tx_prepare_ts t > commit_tsp then
        if \<not> F_ISSET s WT_TXN_TS_ROUND_PREPARED then Inl EINVAL
        else if \<not> F_ISSET s WT_TXN_PREPARE then Inl EINVAL
        else Inr (tx_prepare_ts t)
      else if \<not> F_ISSET s WT_TXN_PREPARE then Inl EINVAL
      else Inr commit_tsp)"

definition wt_txn_set_commit_timestamp :: "u64 \<Rightarrow> cs \<Rightarrow> outcome" where
  "wt_txn_set_commit_timestamp commit_ts s =
     (if tx_isolation (txn s) \<noteq> WT_ISO_SNAPSHOT then (Inl EINVAL, s)
      else case wt_txn_validate_commit_timestamp commit_ts s of Inl e \<Rightarrow> (Inl e, s)
      | Inr commit_ts \<Rightarrow>
        let s = upd_txn (\<lambda>t. t\<lparr>tx_commit_ts := commit_ts\<rparr>) s;
            s = (if \<not> F_ISSET s WT_TXN_HAS_TS_COMMIT then upd_txn (\<lambda>t. t\<lparr>tx_first_commit_ts := commit_ts\<rparr>) s else s);
            s = (if \<not> F_ISSET s WT_TXN_HAS_TS_DURABLE then upd_txn (\<lambda>t. t\<lparr>tx_durable_ts := commit_ts\<rparr>) s else s)
        in (Inr (), F_SET WT_TXN_HAS_TS_COMMIT s))"

definition wt_txn_validate_durable_timestamp :: "u64 \<Rightarrow> cs \<Rightarrow> unit result" where
  "wt_txn_validate_durable_timestamp durable_ts s =
     (let g = glob s in
      if tg_has_oldest g \<and> durable_ts < tg_oldest_ts g then Inl EINVAL
      else if tg_has_stable g \<and> durable_ts \<le> tg_stable_ts g then Inl EINVAL
      else if durable_ts < tx_commit_ts (txn s) then Inl EINVAL
      else Inr ())"

definition wt_txn_set_durable_timestamp :: "u64 \<Rightarrow> cs \<Rightarrow> outcome" where
  "wt_txn_set_durable_timestamp durable_ts s =
     (if \<not> F_ISSET s WT_TXN_PREPARE then (Inl EINVAL, s)
      else if \<not> F_ISSET s WT_TXN_HAS_TS_COMMIT then (Inl EINVAL, s)
      else case wt_txn_validate_durable_timestamp durable_ts s of Inl e \<Rightarrow> (Inl e, s)
      | Inr _ \<Rightarrow> (Inr (), F_SET WT_TXN_HAS_TS_DURABLE (upd_txn (\<lambda>t. t\<lparr>tx_durable_ts := durable_ts\<rparr>) s)))"

definition wt_txn_set_prepare_timestamp :: "u64 \<Rightarrow> cs \<Rightarrow> outcome" where
  "wt_txn_set_prepare_timestamp prepare_ts s =
     (case wt_txn_context_prepare_check s of Inl e \<Rightarrow> (Inl e, s)
      | Inr _ \<Rightarrow>
        if F_ISSET s WT_TXN_HAS_TS_PREPARE then (Inl EINVAL, s)
        else if F_ISSET s WT_TXN_HAS_TS_COMMIT then (Inl EINVAL, s)
        else
          let stable_ts = tg_stable_ts (glob s); oldest_ts = tg_oldest_ts (glob s) in
          if prepare_ts \<le> stable_ts \<and> \<not> F_ISSET s WT_TXN_TS_ROUND_PREPARED then (Inl EINVAL, s)
          else
            let prepare_ts = (if prepare_ts \<le> stable_ts \<and> prepare_ts < oldest_ts then oldest_ts else prepare_ts)
            in (Inr (), F_SET WT_TXN_HAS_TS_PREPARE (upd_txn (\<lambda>t. t\<lparr>tx_prepare_ts := prepare_ts\<rparr>) s)))"

definition wt_txn_set_read_timestamp :: "u64 \<Rightarrow> cs \<Rightarrow> outcome" where
  "wt_txn_set_read_timestamp read_ts s =
     (if F_ISSET s WT_TXN_PREPARE then (Inr (), s)
      else if F_ISSET s WT_TXN_RUNNING \<and> tx_isolation (txn s) \<noteq> WT_ISO_SNAPSHOT then (Inl EINVAL, s)
      else
        let s = (if \<not> F_ISSET s WT_TXN_RUNNING then upd_txn (\<lambda>t. t\<lparr>tx_isolation := WT_ISO_SNAPSHOT\<rparr>) s else s) in
        if F_ISSET s WT_TXN_SHARED_TS_READ then (Inl EINVAL, s)
        else
          let ts_oldest = tg_oldest_ts (glob s) in
          if read_ts < ts_oldest \<and> \<not> F_ISSET s WT_TXN_TS_ROUND_READ then (Inl EINVAL, s)
          else
            let s = upd_shared (\<lambda>h. h\<lparr>sh_read_ts := (if read_ts < ts_oldest then ts_oldest else read_ts)\<rparr>) s;
                s = F_SET WT_TXN_SHARED_TS_READ s
            in (Inr (), if F_ISSET s WT_TXN_RUNNING then wt_txn_get_snapshot s else s))"

definition wt_txn_publish_durable_timestamp :: "cs \<Rightarrow> cs" where
  "wt_txn_publish_durable_timestamp s =
     (if F_ISSET s WT_TXN_SHARED_TS_DURABLE then s
      else
        let publish = (\<lambda>ts. F_SET WT_TXN_SHARED_TS_DURABLE (upd_shared (\<lambda>h. h\<lparr>sh_pinned_durable := ts\<rparr>) s)) in
        if F_ISSET s WT_TXN_HAS_TS_DURABLE then publish (tx_durable_ts (txn s))
        else if F_ISSET s WT_TXN_HAS_TS_COMMIT then
          if F_ISSET s WT_TXN_PREPARE then s else publish (tx_first_commit_ts (txn s))
        else s)"

record ts_vars =
  v_commit :: u64
  v_durable :: u64
  v_prepare :: u64
  v_read :: u64
  v_set :: bool

fun parse_ts_items :: "(string \<times> u8 list) list \<Rightarrow> ts_vars \<Rightarrow> ts_vars result" where
  "parse_ts_items [] v = Inr v"
| "parse_ts_items ((key, cval) # items) v =
     (if key = ''commit_timestamp'' then
        wt_ret (wt_txn_parse_timestamp cval) (\<lambda>ts. parse_ts_items items (v\<lparr>v_commit := ts, v_set := True\<rparr>))
      else if key = ''durable_timestamp'' then
        wt_ret (wt_txn_parse_timestamp cval) (\<lambda>ts. parse_ts_items items (v\<lparr>v_durable := ts, v_set := True\<rparr>))
      else if key = ''prepare_timestamp'' then
        wt_ret (wt_txn_parse_timestamp cval) (\<lambda>ts. parse_ts_items items (v\<lparr>v_prepare := ts, v_set := True\<rparr>))
      else if key = ''read_timestamp'' then
        wt_ret (wt_txn_parse_timestamp cval) (\<lambda>ts. parse_ts_items items (v\<lparr>v_read := ts, v_set := True\<rparr>))
      else parse_ts_items items v)"

text \<open>\<open>ts_log\<close> writes the debugging log record: \<open>None\<close> when that log is off.\<close>

definition wt_txn_set_timestamp ::
    "(cs \<Rightarrow> unit result) option \<Rightarrow> (string \<times> u8 list) list \<Rightarrow> bool \<Rightarrow> cs \<Rightarrow> outcome" where
  "wt_txn_set_timestamp ts_log cfg commit s =
     (case wt_txn_context_check True s of Inl e \<Rightarrow> (Inl e, s)
      | Inr _ \<Rightarrow>
        case parse_ts_items cfg \<lparr>
            v_commit = (if commit \<and> F_ISSET s WT_TXN_HAS_TS_COMMIT then tx_commit_ts (txn s) else WT_TS_NONE),
            v_durable = (if commit \<and> F_ISSET s WT_TXN_HAS_TS_DURABLE then tx_durable_ts (txn s) else WT_TS_NONE),
            v_prepare = WT_TS_NONE, v_read = WT_TS_NONE, v_set = False\<rparr> of
          Inl e \<Rightarrow> (Inl e, s)
        | Inr v \<Rightarrow>
          wt_seq (if v_commit v \<noteq> WT_TS_NONE then wt_txn_set_commit_timestamp (v_commit v) s else (Inr (), s)) (\<lambda>s.
          wt_seq (if v_durable v \<noteq> WT_TS_NONE then wt_txn_set_durable_timestamp (v_durable v) s else (Inr (), s)) (\<lambda>s.
          let s = wt_txn_publish_durable_timestamp s in
          wt_seq (if v_read v \<noteq> WT_TS_NONE then wt_txn_set_read_timestamp (v_read v) s else (Inr (), s)) (\<lambda>s.
          wt_seq (if v_prepare v \<noteq> WT_TS_NONE then wt_txn_set_prepare_timestamp (v_prepare v) s else (Inr (), s)) (\<lambda>s.
          (case ts_log of Some l \<Rightarrow> if v_set v then l s else Inr () | None \<Rightarrow> Inr (), s))))))"

datatype ts_txn_type = WT_TS_TXN_TYPE_COMMIT | WT_TS_TXN_TYPE_DURABLE | WT_TS_TXN_TYPE_PREPARE | WT_TS_TXN_TYPE_READ

definition wt_txn_set_timestamp_uint :: "(cs \<Rightarrow> unit result) option \<Rightarrow> ts_txn_type \<Rightarrow> u64 \<Rightarrow> cs \<Rightarrow> outcome" where
  "wt_txn_set_timestamp_uint ts_log which ts s =
     (case wt_txn_context_check True s of Inl e \<Rightarrow> (Inl e, s)
      | Inr _ \<Rightarrow>
        if ts = 0 then (Inl EINVAL, s)
        else wt_seq
          (case which of WT_TS_TXN_TYPE_COMMIT \<Rightarrow> wt_txn_set_commit_timestamp ts s
           | WT_TS_TXN_TYPE_DURABLE \<Rightarrow> wt_txn_set_durable_timestamp ts s
           | WT_TS_TXN_TYPE_PREPARE \<Rightarrow> wt_txn_set_prepare_timestamp ts s
           | WT_TS_TXN_TYPE_READ \<Rightarrow> wt_txn_set_read_timestamp ts s)
          (\<lambda>s. let s = wt_txn_publish_durable_timestamp s
             in (case ts_log of Some l \<Rightarrow> l s | None \<Rightarrow> Inr (), s)))"

subsection \<open>Starting a transaction\<close>

text \<open>The values of a transaction's configuration; the timeout and the log sync mode are left out.\<close>

record txn_config =
  cf_isolation :: string
  cf_sync :: int
  cf_ignore_prepare_force :: bool
  cf_ignore_prepare :: bool
  cf_no_timestamp :: bool
  cf_roundup_prepared :: bool
  cf_roundup_read :: bool
  cf_read_timestamp :: "u8 list"

definition wt_txn_config :: "txn_config option \<Rightarrow> cs \<Rightarrow> outcome" where
  "wt_txn_config cfg s0 =
     (case cfg of None \<Rightarrow> (Inr (), s0)
      | Some c \<Rightarrow>
        let s = (if cf_isolation c \<noteq> [] then upd_txn (\<lambda>t. t\<lparr>tx_isolation :=
                   (if cf_isolation c = ''snapshot'' then WT_ISO_SNAPSHOT
                    else if cf_isolation c = ''read-committed'' then WT_ISO_READ_COMMITTED
                    else WT_ISO_READ_UNCOMMITTED)\<rparr>) s0 else s0);
            s = F_CLR WT_TXN_SYNC_SET s;
            s = (if cf_sync c = 0 \<or> cf_sync c = 1 then F_SET WT_TXN_SYNC_SET s else s);
            s = (if cf_ignore_prepare_force c then F_SET WT_TXN_IGNORE_PREPARE s
                 else if cf_ignore_prepare c then F_SET WT_TXN_READONLY (F_SET WT_TXN_IGNORE_PREPARE s) else s);
            s = (if cf_no_timestamp c then F_SET WT_TXN_TS_NOT_SET s else s);
            s = (if cf_roundup_prepared c then F_SET WT_TXN_TS_ROUND_PREPARED s else s);
            s = (if cf_roundup_read c then F_SET WT_TXN_TS_ROUND_READ s else s);
            (r, s) = (if cf_read_timestamp c \<noteq> [] then
                (case wt_txn_parse_timestamp (cf_read_timestamp c) of Inl e \<Rightarrow> (Inl e, s)
                 | Inr read_ts \<Rightarrow> wt_txn_set_read_timestamp read_ts s) else (Inr (), s))
        in (r, case r of Inl _ \<Rightarrow> upd_txn (\<lambda>t. t\<lparr>tx_flags := {}\<rparr>) s | Inr _ \<Rightarrow> s))"

text \<open>\<open>isolation\<close> is what the configuration says, \<open>WT_NOTFOUND\<close> when it does not.\<close>

definition wt_txn_reconfigure :: "string result \<Rightarrow> cs \<Rightarrow> outcome" where
  "wt_txn_reconfigure isolation s =
     (case isolation of Inl e \<Rightarrow> (if e = WT_NOTFOUND then Inr () else Inl e, s)
      | Inr v \<Rightarrow>
        if v = [] then (Inr (), s)
        else
          let iso = (if v = ''snapshot'' then WT_ISO_SNAPSHOT
                     else if v = ''read-uncommitted'' then WT_ISO_READ_UNCOMMITTED else WT_ISO_READ_COMMITTED)
          in (Inr (), s\<lparr>cs_ses := (cs_ses s)\<lparr>s_isolation := iso, s_txn := (txn s)\<lparr>tx_isolation := iso\<rparr>\<rparr>\<rparr>))"

text \<open>\<open>copy_values\<close> and \<open>cache_check\<close> are the results of the calls of those names.\<close>

definition wt_txn_begin :: "unit result \<Rightarrow> unit result \<Rightarrow> bool \<Rightarrow> txn_config option \<Rightarrow> cs \<Rightarrow> outcome" where
  "wt_txn_begin copy_values cache_check conn_readonly cfg s =
     wt_seq (wt_txn_config cfg (upd_txn (\<lambda>t. t\<lparr>tx_isolation := s_isolation (cs_ses s), tx_commit_ts := WT_TS_NONE,
               tx_first_commit_ts := WT_TS_NONE\<rparr>) s)) (\<lambda>s.
     wt_seq (if tx_isolation (txn s) = WT_ISO_SNAPSHOT \<and> \<not> (F_ISSET s WT_TXN_AUTOCOMMIT \<and> F_ISSET s WT_TXN_HAS_SNAPSHOT)
             then wt_seq (copy_values, s) (\<lambda>s. wt_seq (if cache_check = Inl WT_ROLLBACK then Inr () else cache_check, s)
               (\<lambda>s. (Inr (), wt_txn_get_snapshot s)))
             else (Inr (), s)) (\<lambda>s.
     let s = F_SET WT_TXN_RUNNING s
     in (Inr (), if conn_readonly then F_SET WT_TXN_READONLY s else s)))"

definition wt_txn_autocommit_check :: "unit result \<Rightarrow> unit result \<Rightarrow> bool \<Rightarrow> cs \<Rightarrow> outcome" where
  "wt_txn_autocommit_check copy_values cache_check conn_readonly s =
     (if F_ISSET s WT_TXN_AUTOCOMMIT then
        let (r, s) = wt_txn_begin copy_values cache_check conn_readonly None s in (r, F_CLR WT_TXN_AUTOCOMMIT s)
      else (Inr (), s))"

definition wt_txn_idle_cache_check :: "unit result \<Rightarrow> cs \<Rightarrow> unit result" where
  "wt_txn_idle_cache_check cache_check s =
     (if F_ISSET s WT_TXN_RUNNING \<and> \<not> F_ISSET s WT_TXN_HAS_ID \<and> sh_pinned_id (shared_of s) = WT_TXN_NONE
      then cache_check else Inr ())"

subsection \<open>Printing and parsing\<close>

lemma reverse_loop_nth:
  "p < length s \<Longrightarrow> length (reverse_loop s hex p) = length s \<and>
    (\<forall>k<length s. reverse_loop s hex p ! k = (if hex \<le> k \<and> k \<le> p then s ! (hex + p - k) else s ! k))"
proof (induction s hex p rule: reverse_loop.induct)
  case (1 s hex p)
  show ?case
  proof (cases "hex < p")
    case True
    define s' where "s' = s[p := s ! hex, hex := s ! p]"
    have n: "s' ! k = (if k = hex then s ! p else if k = p then s ! hex else s ! k)" if "k < length s" for k
      using that 1(2) True by (simp add: s'_def nth_list_update)
    have r: "reverse_loop s hex p = reverse_loop s' (hex + 1) (p - 1)"
      using True by (subst reverse_loop.simps) (simp add: s'_def)
    have ih: "length (reverse_loop s' (hex + 1) (p - 1)) = length s"
      "\<forall>k<length s. reverse_loop s' (hex + 1) (p - 1) ! k = (if hex + 1 \<le> k \<and> k \<le> p - 1 then s' ! (hex + 1 + (p - 1) - k) else s' ! k)"
      using 1(1) [OF True] 1(2) by (simp_all add: s'_def)
    have "reverse_loop s hex p ! k = (if hex \<le> k \<and> k \<le> p then s ! (hex + p - k) else s ! k)" if k: "k < length s" for k
    proof (cases "hex + 1 \<le> k \<and> k \<le> p - 1")
      case mid: True
      then have "reverse_loop s hex p ! k = s' ! (hex + p - k)" using ih(2) k True by (simp add: r)
      also have "\<dots> = s ! (hex + p - k)" using n [of "hex + p - k"] mid 1(2) by auto
      finally show ?thesis using mid by auto
    next
      case False
      then have "reverse_loop s hex p ! k = s' ! k" using ih(2) k unfolding r by (simp only: if_False)
      then show ?thesis using n [OF k] False True by auto
    qed
    then show ?thesis using ih(1) by (simp add: r)
  next
    case False
    then have "hex + p - k = k" if "hex \<le> k" "k \<le> p" for k using that by linarith
    then show ?thesis using False by (subst (1 2) reverse_loop.simps) simp
  qed
qed

lemma reverse_loop_rev: "s \<noteq> [] \<Longrightarrow> reverse_loop s 0 (length s - 1) = rev s"
  using reverse_loop_nth [of "length s - 1" s 0] by (intro nth_equalityI) (auto simp: rev_nth)

lemma hextable_digit: "n < 16 \<Longrightarrow> unat (wt_hex n) < length hextable \<and> hextable ! unat (wt_hex n) = int n"
proof -
  have "\<forall>n\<in>set [0..<16]. unat (wt_hex n) < length hextable \<and> hextable ! unat (wt_hex n) = int n" by code_simp
  then show "n < 16 \<Longrightarrow> unat (wt_hex n) < length hextable \<and> hextable ! unat (wt_hex n) = int n" by simp
qed

lemma parse_hex_append: "parse_hex a (xs @ ys) = wt_ret (parse_hex a xs) (\<lambda>b. parse_hex b ys)"
  by (induction a xs rule: parse_hex.induct) (simp_all add: Let_def)

lemma nibble64: "unat (ts AND 15 :: u64) < 16" "push_bit 4 (drop_bit 4 ts) OR (ts AND 15) = (ts :: u64)"
proof -
  have m: "(15 :: u64) = mask 4" by (simp add: mask_eq_exp_minus_1)
  have "unat (ts AND 15) = unat ts mod 16"
    unfolding m by (simp only: take_bit_eq_mask [symmetric] unsigned_take_bit_eq) (simp add: take_bit_eq_mod)
  then show "unat (ts AND 15) < 16" by simp
  show "push_bit 4 (drop_bit 4 ts) OR (ts AND 15) = ts"
    unfolding m by (rule bit_word_eqI) (auto simp: bit_simps)
qed

lemma parse_digits: "parse_hex 0 (rev (ts_digits ts)) = Inr ts"
proof (induction ts rule: ts_digits.induct)
  case (1 ts)
  show ?case
  proof (cases "ts = 0")
    case False
    have "parse_hex (drop_bit 4 ts) [wt_hex (unat (ts AND 15))] = Inr ts"
      using hextable_digit [OF nibble64(1)] by (simp add: Let_def nibble64(2))
    moreover have "rev (ts_digits ts) = rev (ts_digits (drop_bit 4 ts)) @ [wt_hex (unat (ts AND 15))]"
      using False by (subst ts_digits.simps) simp
    ultimately show ?thesis using 1 [OF False] by (simp only: parse_hex_append wt_ret_simps)
  qed (simp add: ts_digits.simps)
qed

lemma digits_length: "unat ts < 16 ^ n \<Longrightarrow> length (ts_digits ts) \<le> n"
proof (induction n arbitrary: ts)
  case 0
  then have "ts = 0" by (simp add: unsigned_eq_0_iff)
  then show ?case by (simp add: ts_digits.simps)
next
  case (Suc n)
  have "unat (drop_bit 4 ts) < 16 ^ n" using Suc.prems by (simp only: unat_drop_bit) (simp add: less_mult_imp_div_less mult.commute)
  then show ?case using Suc.IH [of "drop_bit 4 ts"] by (subst ts_digits.simps) simp
qed

lemma digits_nonzero: "0 \<notin> set (ts_digits ts)"
proof (induction ts rule: ts_digits.induct)
  case (1 ts)
  then show ?case using hex_digit_cases [OF nibble64(1), of ts] by (subst ts_digits.simps) auto
qed

text \<open>
  A timestamp printed by the query interface parses back to itself.
\<close>

theorem timestamp_hex_roundtrip:
  "wt_txn_parse_timestamp_raw (takeWhile (\<lambda>c. c \<noteq> 0) (wt_timestamp_to_hex_string ts)) = Inr ts"
proof -
  consider "ts = 0" | "ts = WT_TS_MAX" | "ts \<noteq> 0" "ts \<noteq> WT_TS_MAX" by blast
  then show ?thesis
  proof cases
    case 1
    have "wt_txn_parse_timestamp_raw [48] = Inr 0" by code_simp
    then show ?thesis by (simp add: 1 wt_timestamp_to_hex_string_def)
  next
    case 2
    have "wt_txn_parse_timestamp_raw (replicate 16 102) = Inr WT_TS_MAX" by code_simp
    moreover have "takeWhile (\<lambda>c. c \<noteq> 0) (replicate 16 102 @ [0 :: u8]) = replicate 16 102" by code_simp
    moreover have "WT_TS_MAX \<noteq> 0" by code_simp
    ultimately show ?thesis by (simp add: 2 wt_timestamp_to_hex_string_def)
  next
    case 3
    then have ne: "ts_digits ts \<noteq> []" by (simp add: ts_digits.simps [of ts])
    have nz: "takeWhile (\<lambda>c. c \<noteq> 0) (rev (ts_digits ts) @ [0]) = rev (ts_digits ts)"
      using digits_nonzero [of ts] by (subst takeWhile_append2) auto
    have "length (ts_digits ts) \<le> 16" using u64_less [of ts] by (intro digits_length) simp
    then show ?thesis
      using 3 ne by (simp add: wt_timestamp_to_hex_string_def Let_def nz wt_txn_parse_timestamp_raw_def parse_digits
          reverse_loop_rev [unfolded One_nat_def])
  qed
qed

subsection \<open>The global timestamps stay in order\<close>

text \<open>What every thread that moves timestamps promises the others: timestamps that are set stay set and
  only move forward, oldest stays at or before stable, and the pinned timestamp stays behind the readers.\<close>

definition in_order :: "wt_txn_global \<Rightarrow> bool" where
  "in_order g \<longleftrightarrow> (tg_has_oldest g \<and> tg_has_stable g \<longrightarrow> tg_oldest_ts g \<le> tg_stable_ts g)"

definition forward :: "wt_txn_global \<Rightarrow> wt_txn_global \<Rightarrow> bool" where
  "forward g g' \<longleftrightarrow>
     (tg_has_oldest g \<longrightarrow> tg_has_oldest g' \<and> tg_oldest_ts g \<le> tg_oldest_ts g') \<and>
     (tg_has_stable g \<longrightarrow> tg_has_stable g' \<and> tg_stable_ts g \<le> tg_stable_ts g') \<and>
     (in_order g \<longrightarrow> in_order g') \<and> (pinned_ok g \<longrightarrow> pinned_ok g')"

definition moves_forward :: "(wt_txn_global \<Rightarrow> wt_txn_global) \<Rightarrow> bool" where
  "moves_forward f \<longleftrightarrow> (\<forall>g. tg_has_stable g \<longrightarrow> forward g (f g))"

lemma forward_refl: "forward g g"
  by (simp add: forward_def)

lemma forward_trans: "forward g g' \<Longrightarrow> forward g' g'' \<Longrightarrow> forward g g''"
  by (auto simp: forward_def)

lemma forward_stable: "forward g g' \<Longrightarrow> tg_has_stable g \<Longrightarrow> tg_has_stable g'"
  by (simp add: forward_def)

lemma moves_forwardD: "moves_forward f \<Longrightarrow> tg_has_stable g \<Longrightarrow> forward g (f g)"
  by (simp add: moves_forward_def)

lemma pinned_locked_forward: "forward g (update_pinned_locked False g)"
proof -
  have "tg_oldest_ts (update_pinned_locked False g) = tg_oldest_ts g"
    "tg_stable_ts (update_pinned_locked False g) = tg_stable_ts g"
    "tg_has_oldest (update_pinned_locked False g) = tg_has_oldest g"
    "tg_has_stable (update_pinned_locked False g) = tg_has_stable g"
    by (simp_all add: update_pinned_locked_def Let_def)
  then show ?thesis using update_pinned_locked_ok by (auto simp: forward_def in_order_def)
qed

lemma update_pinned_forward:
  assumes "moves_forward between" and "tg_has_stable g"
  shows "forward g (wt_txn_update_pinned_timestamp between False g)"
  using forward_trans [OF moves_forwardD [OF assms] pinned_locked_forward] forward_refl
  by (simp add: wt_txn_update_pinned_timestamp_def Let_def)

text \<open>A change that was checked against an earlier state.\<close>

definition moved :: "u64 option \<Rightarrow> bool \<Rightarrow> u64 \<Rightarrow> u64" where
  "moved new has old = (case new of None \<Rightarrow> old | Some t \<Rightarrow> if \<not> has \<or> old < t then t else old)"

lemma apply_simps:
  "tg_oldest_ts (set_ts_apply False ch g) = moved (ch_oldest ch) (tg_has_oldest g) (tg_oldest_ts g)"
  "tg_stable_ts (set_ts_apply False ch g) = moved (ch_stable ch) (tg_has_stable g) (tg_stable_ts g)"
  "tg_has_oldest (set_ts_apply False ch g) \<longleftrightarrow> tg_has_oldest g \<or> ch_oldest ch \<noteq> None"
  "tg_has_stable (set_ts_apply False ch g) \<longleftrightarrow> tg_has_stable g \<or> ch_stable ch \<noteq> None"
  "tg_has_pinned (set_ts_apply False ch g) = tg_has_pinned g"
  "tg_pinned_ts (set_ts_apply False ch g) = tg_pinned_ts g"
  "tg_shared (set_ts_apply False ch g) = tg_shared g"
  by (auto simp: set_ts_apply_def moved_def Let_def split: option.split)

lemma moved_ge: "old \<le> moved new True old" "new = Some t \<Longrightarrow> t \<le> moved new has old"
  by (auto simp: moved_def not_less split: option.split)

lemma moved_cases:
  obtains "moved new has old = old" "new = None \<or> has" | t where "new = Some t" "moved new has old = t"
proof (cases new)
  case (Some t)
  then show thesis using that by (cases "\<not> has \<or> old < t") (auto simp: moved_def)
qed (use that in \<open>auto simp: moved_def\<close>)

lemma check_order:
  assumes "set_ts_check ch0 g0 = Inr ch" and "tg_has_stable g0" and "ch_oldest ch = Some t"
  shows "t \<le> (case ch_stable ch of None \<Rightarrow> tg_stable_ts g0 | Some s \<Rightarrow> s)" "ch_oldest ch0 = Some t"
  using assms by (auto simp: set_ts_check_def Let_def not_less split: option.splits if_splits)

lemma apply_forward:
  assumes chk: "set_ts_check ch0 g0 = Inr ch" and fw: "forward g0 g" and st: "tg_has_stable g0"
    and nz: "ch_oldest ch0 \<noteq> Some 0"
  shows "forward g (set_ts_apply False ch g)"
proof -
  let ?g = "set_ts_apply False ch g"
  have stg: "tg_has_stable g" and s0: "tg_stable_ts g0 \<le> tg_stable_ts g" using fw st by (simp_all add: forward_def)
  have ges: "tg_stable_ts g \<le> tg_stable_ts ?g" using stg moved_ge(1) by (simp add: apply_simps)
  have geo: "tg_oldest_ts g \<le> tg_oldest_ts ?g" if "tg_has_oldest g" using that moved_ge(1) by (simp add: apply_simps)
  have new: "t \<le> tg_stable_ts ?g" if t: "ch_oldest ch = Some t" for t
  proof (cases "ch_stable ch")
    case None
    then show ?thesis using check_order(1) [OF chk st t] s0 ges by (auto intro: order.trans)
  next
    case (Some s)
    then show ?thesis using check_order(1) [OF chk st t] moved_ge(2) [OF Some] by (auto simp: apply_simps intro: order.trans)
  qed
  have "in_order ?g" if io: "in_order g"
  proof -
    have "tg_oldest_ts ?g \<le> tg_stable_ts ?g" if has: "tg_has_oldest ?g"
    proof (cases rule: moved_cases [of "ch_oldest ch" "tg_has_oldest g" "tg_oldest_ts g"])
      case 1
      then have "tg_has_oldest g" using has by (auto simp: apply_simps)
      then have "tg_oldest_ts g \<le> tg_stable_ts g" using io stg by (simp add: in_order_def)
      then show ?thesis using 1(1) ges by (auto simp only: apply_simps(1) intro: order.trans)
    next
      case (2 t)
      then show ?thesis using new [OF 2(1)] by (simp only: apply_simps(1))
    qed
    then show ?thesis by (simp add: in_order_def)
  qed
  moreover have "pinned_ok ?g" if pk: "pinned_ok g"
  proof -
    have "tg_oldest_ts ?g \<noteq> WT_TS_NONE" if has: "tg_has_oldest ?g"
    proof (cases rule: moved_cases [of "ch_oldest ch" "tg_has_oldest g" "tg_oldest_ts g"])
      case 1
      then have "tg_has_oldest g" using has by (auto simp: apply_simps)
      then show ?thesis using pk 1(1) by (simp add: apply_simps(1) pinned_ok_def)
    next
      case (2 t)
      then show ?thesis using check_order(2) [OF chk st 2(1)] nz by (simp add: apply_simps(1) WT_TS_NONE_def)
    qed
    moreover have "tg_pinned_ts g \<le> tg_oldest_ts ?g" if "tg_has_pinned g"
      using pk geo that by (auto simp: pinned_ok_def intro: order.trans)
    ultimately show ?thesis using pk by (simp add: pinned_ok_def apply_simps)
  qed
  ultimately show ?thesis using geo ges stg by (simp add: forward_def apply_simps)
qed

lemma finish_forward:
  assumes "set_ts_check ch0 g0 = Inr ch" and "forward g0 g" and "tg_has_stable g0" and "ch_oldest ch0 \<noteq> Some 0"
    and "moves_forward after" and "moves_forward pin_between"
  shows "forward g (set_ts_finish after pin_between False ch g)"
proof -
  note a = apply_forward [OF assms(1-4)]
  have "tg_has_stable g" using assms(2,3) by (rule forward_stable)
  then have st: "tg_has_stable (set_ts_apply False ch g)" using a by (rule forward_stable [rotated])
  note b = moves_forwardD [OF assms(5) st]
  note c = update_pinned_forward [OF assms(6) forward_stable [OF b st]]
  show ?thesis using a forward_trans [OF forward_trans [OF a b] c] by (simp add: set_ts_finish_def Let_def)
qed

lemma parse_nonzero: "parse_request rq = Inr ch \<Longrightarrow> ch_oldest ch \<noteq> Some 0"
  by (auto simp: parse_request_def wt_txn_parse_timestamp_def wt_ret_Inr_iff WT_TS_NONE_def split: if_splits)


definition sample_global :: wt_txn_global where
  "sample_global = (wt_txn_global_init 1)\<lparr>tg_has_stable := True, tg_stable_ts := 50, tg_has_oldest := True, tg_oldest_ts := 20\<rparr>"


text \<open>
  Before stable has been set there is a race: two calls that each set one timestamp, and that both
  pass their check before either makes its change, leave oldest after stable.
\<close>

lemma set_timestamp_race:
  "\<exists>g. in_order g \<and> \<not> in_order (snd (wt_txn_global_set_timestamp
     (\<lambda>g. snd (wt_txn_global_set_timestamp id id id
        \<lparr>rq_durable = [], rq_oldest = [], rq_stable = [51], rq_force = False\<rparr> g)) id id
     \<lparr>rq_durable = [], rq_oldest = [53], rq_stable = [], rq_force = False\<rparr> g))"
  by (rule exI [of _ "wt_txn_global_init 1"]) code_simp

subsection \<open>The timestamps a transaction commits with\<close>

lemma parse_timestamp_nonzero: "wt_txn_parse_timestamp cval = Inr ts \<Longrightarrow> cval \<noteq> [] \<Longrightarrow> ts \<noteq> WT_TS_NONE"
  by (auto simp: wt_txn_parse_timestamp_def wt_ret_Inr_iff split: if_splits)

lemma parse_items_keep:
  assumes "parse_ts_items cfg v = Inr v'" and "\<forall>(k, c)\<in>set cfg. c \<noteq> []"
  shows "(v_commit v \<noteq> WT_TS_NONE \<longrightarrow> v_commit v' \<noteq> WT_TS_NONE) \<and> (v_durable v \<noteq> WT_TS_NONE \<longrightarrow> v_durable v' \<noteq> WT_TS_NONE)"
  using assms
proof (induction cfg v rule: parse_ts_items.induct)
  case (2 key cval items v)
  have nz: "ts \<noteq> WT_TS_NONE" if "wt_txn_parse_timestamp cval = Inr ts" for ts
    using parse_timestamp_nonzero [OF that] 2(7) by simp
  show ?case
    using 2 nz by (auto simp: wt_ret_Inr_iff split: if_splits)
qed simp

text \<open>What a validated transaction looks like.\<close>

definition commit_ts_ok :: "cs \<Rightarrow> bool" where
  "commit_ts_ok s \<longleftrightarrow> F_ISSET s WT_TXN_HAS_TS_COMMIT \<and>
     (\<not> F_ISSET s WT_TXN_HAS_TS_PREPARE \<longrightarrow> tx_first_commit_ts (txn s) \<le> tx_commit_ts (txn s) \<and>
        (tg_has_oldest (glob s) \<longrightarrow> tg_oldest_ts (glob s) \<le> tx_first_commit_ts (txn s)) \<and>
        (tg_has_stable (glob s) \<longrightarrow> tg_stable_ts (glob s) < tx_first_commit_ts (txn s))) \<and>
     (F_ISSET s WT_TXN_HAS_TS_PREPARE \<longrightarrow> F_ISSET s WT_TXN_PREPARE \<and> tx_prepare_ts (txn s) \<le> tx_commit_ts (txn s)) \<and>
     (\<not> F_ISSET s WT_TXN_HAS_TS_DURABLE \<longrightarrow> tx_durable_ts (txn s) = tx_commit_ts (txn s))"

definition durable_ts_ok :: "cs \<Rightarrow> bool" where
  "durable_ts_ok s \<longleftrightarrow> (F_ISSET s WT_TXN_HAS_TS_DURABLE \<longrightarrow> F_ISSET s WT_TXN_PREPARE \<and>
     tx_commit_ts (txn s) \<le> tx_durable_ts (txn s) \<and>
     (tg_has_oldest (glob s) \<longrightarrow> tg_oldest_ts (glob s) \<le> tx_durable_ts (txn s)) \<and>
     (tg_has_stable (glob s) \<longrightarrow> tg_stable_ts (glob s) < tx_durable_ts (txn s)))"

lemma set_commit_ok:
  assumes "wt_txn_set_commit_timestamp c s = (Inr (), s')"
  shows "commit_ts_ok s'" and "F_ISSET s' WT_TXN_HAS_TS_DURABLE = F_ISSET s WT_TXN_HAS_TS_DURABLE"
  using assms
  by (auto simp: wt_txn_set_commit_timestamp_def wt_txn_validate_commit_timestamp_def commit_ts_ok_def F_ISSET_def F_SET_def
      upd_txn_def Let_def not_less not_le split: sum.splits if_splits)

lemma set_durable_ok:
  assumes "wt_txn_set_durable_timestamp d s = (Inr (), s')"
  shows "durable_ts_ok s'" and "commit_ts_ok s \<Longrightarrow> commit_ts_ok s'" and "F_ISSET s WT_TXN_HAS_TS_COMMIT"
    and "F_ISSET s' WT_TXN_HAS_TS_COMMIT"
  using assms
  by (auto simp: wt_txn_set_durable_timestamp_def wt_txn_validate_durable_timestamp_def durable_ts_ok_def commit_ts_ok_def
      F_ISSET_def F_SET_def upd_txn_def Let_def not_less not_le split: sum.splits if_splits)

text \<open>Two states that agree on what the checks look at.\<close>

definition same_ts :: "cs \<Rightarrow> cs \<Rightarrow> bool" where
  "same_ts s s' \<longleftrightarrow>
     (\<forall>f\<in>{WT_TXN_HAS_TS_COMMIT, WT_TXN_HAS_TS_PREPARE, WT_TXN_HAS_TS_DURABLE, WT_TXN_PREPARE}. F_ISSET s' f = F_ISSET s f) \<and>
     tx_commit_ts (txn s') = tx_commit_ts (txn s) \<and> tx_first_commit_ts (txn s') = tx_first_commit_ts (txn s) \<and>
     tx_durable_ts (txn s') = tx_durable_ts (txn s) \<and> tx_prepare_ts (txn s') = tx_prepare_ts (txn s) \<and>
     tg_has_oldest (glob s') = tg_has_oldest (glob s) \<and> tg_oldest_ts (glob s') = tg_oldest_ts (glob s) \<and>
     tg_has_stable (glob s') = tg_has_stable (glob s) \<and> tg_stable_ts (glob s') = tg_stable_ts (glob s)"

lemma same_ts_ok:
  assumes "same_ts s s'"
  shows "commit_ts_ok s' = commit_ts_ok s" "durable_ts_ok s' = durable_ts_ok s"
    "F_ISSET s' WT_TXN_HAS_TS_COMMIT = F_ISSET s WT_TXN_HAS_TS_COMMIT"
  using assms by (simp_all add: same_ts_def commit_ts_ok_def durable_ts_ok_def)

lemma same_ts_trans: "same_ts s s' \<Longrightarrow> same_ts s' s'' \<Longrightarrow> same_ts s s''"
  by (simp add: same_ts_def)

lemma same_ts_refl [simp]: "same_ts s s"
  by (simp add: same_ts_def)

lemma same_ts_steps [simp]:
  "same_ts s0 (upd_shared f s) = same_ts s0 s"
  "same_ts s0 (txn_sort_snapshot snap m s) = same_ts s0 s"
  "same_ts s0 (enter_commit_gen s) = same_ts s0 s"
  "same_ts s0 (F_SET WT_TXN_SHARED_TS_DURABLE s) = same_ts s0 s"
  "same_ts s0 (F_SET WT_TXN_SHARED_TS_READ s) = same_ts s0 s"
  "same_ts s0 (upd_txn (\<lambda>t. t\<lparr>tx_isolation := lvl\<rparr>) s) = same_ts s0 s"
  by (simp_all add: same_ts_def txn_sort_snapshot_def enter_commit_gen_def txn_state_defs Let_def)

lemma same_ts_publish: "same_ts s (wt_txn_publish_durable_timestamp s)"
  by (simp add: wt_txn_publish_durable_timestamp_def Let_def)

lemma same_ts_snapshot: "same_ts s (txn_get_snapshot_int publish s)"
  by (simp add: txn_get_snapshot_int_def Let_def split: prod.split)

lemma same_ts_read: "same_ts s (snd (wt_txn_set_read_timestamp ts s))"
proof -
  have t: "same_ts s (wt_txn_get_snapshot s1)" if "same_ts s s1" for s1
    using same_ts_trans [OF that same_ts_snapshot] by (simp add: wt_txn_get_snapshot_def)
  show ?thesis unfolding wt_txn_set_read_timestamp_def Let_def by (auto intro!: t)
qed

lemma prepare_after_commit: "F_ISSET s WT_TXN_HAS_TS_COMMIT \<Longrightarrow> wt_txn_set_prepare_timestamp p s \<noteq> (Inr u, s')"
  by (auto simp: wt_txn_set_prepare_timestamp_def split: sum.split)

lemma wt_seq_Inr: "wt_seq r k = (Inr u, s') \<longleftrightarrow> (\<exists>v s. r = (Inr v, s) \<and> k s = (Inr u, s'))"
  by (cases r; cases "fst r") (auto simp: wt_seq_def split: sum.splits)

lemma set_timestamp_ok:
  assumes run: "wt_txn_set_timestamp l cfg True s = (Inr (), s')" and cfg: "\<forall>(k, c)\<in>set cfg. c \<noteq> []"
    and c0: "F_ISSET s WT_TXN_HAS_TS_COMMIT \<longrightarrow> tx_commit_ts (txn s) \<noteq> WT_TS_NONE"
    and d0: "F_ISSET s WT_TXN_HAS_TS_DURABLE \<longrightarrow> tx_durable_ts (txn s) \<noteq> WT_TS_NONE"
    and has: "F_ISSET s' WT_TXN_HAS_TS_COMMIT"
  shows "commit_ts_ok s' \<and> durable_ts_ok s'"
proof -
  define v0 where "v0 = \<lparr>v_commit = (if F_ISSET s WT_TXN_HAS_TS_COMMIT then tx_commit_ts (txn s) else WT_TS_NONE),
    v_durable = (if F_ISSET s WT_TXN_HAS_TS_DURABLE then tx_durable_ts (txn s) else WT_TS_NONE),
    v_prepare = WT_TS_NONE, v_read = WT_TS_NONE, v_set = False\<rparr>"
  obtain v s1 s2 s3 s4 where v: "parse_ts_items cfg v0 = Inr v"
    and s1: "(if v_commit v \<noteq> WT_TS_NONE then wt_txn_set_commit_timestamp (v_commit v) s else (Inr (), s)) = (Inr (), s1)"
    and s2: "(if v_durable v \<noteq> WT_TS_NONE then wt_txn_set_durable_timestamp (v_durable v) s1 else (Inr (), s1)) = (Inr (), s2)"
    and s3: "(if v_read v \<noteq> WT_TS_NONE then wt_txn_set_read_timestamp (v_read v) (wt_txn_publish_durable_timestamp s2)
      else (Inr (), wt_txn_publish_durable_timestamp s2)) = (Inr (), s3)"
    and s4: "(if v_prepare v \<noteq> WT_TS_NONE then wt_txn_set_prepare_timestamp (v_prepare v) s3 else (Inr (), s3)) = (Inr (), s4)"
    and s': "s' = s4"
    using run unfolding wt_txn_set_timestamp_def v0_def Let_def
    by (auto simp: wt_seq_Inr split: sum.splits)
  have "same_ts (wt_txn_publish_durable_timestamp s2) s3"
    using s3 same_ts_read [of "wt_txn_publish_durable_timestamp s2" "v_read v"] by (auto split: if_splits)
  then have same: "same_ts s2 s3" using same_ts_trans [OF same_ts_publish] by blast
  note keep = parse_items_keep [OF v cfg]
  have fin: "s4 = s3" if "F_ISSET s3 WT_TXN_HAS_TS_COMMIT"
    using s4 prepare_after_commit [OF that] by (auto split: if_splits)
  have c2: "commit_ts_ok s2 \<and> durable_ts_ok s2" if has2: "F_ISSET s2 WT_TXN_HAS_TS_COMMIT"
  proof -
    have vc: "v_commit v \<noteq> WT_TS_NONE"
    proof (rule ccontr)
      assume n: "\<not> v_commit v \<noteq> WT_TS_NONE"
      then have "\<not> F_ISSET s WT_TXN_HAS_TS_COMMIT" using keep c0 by (auto simp: v0_def)
      moreover have "s1 = s" using s1 n by simp
      moreover have "F_ISSET s1 WT_TXN_HAS_TS_COMMIT"
        using s2 has2 set_durable_ok(3) [of "v_durable v" s1 s2] by (auto split: if_splits)
      ultimately show False by simp
    qed
    then have ok1: "commit_ts_ok s1" "F_ISSET s1 WT_TXN_HAS_TS_DURABLE = F_ISSET s WT_TXN_HAS_TS_DURABLE"
      using s1 set_commit_ok by simp_all
    show ?thesis
    proof (cases "v_durable v = WT_TS_NONE")
      case True
      then have "\<not> F_ISSET s WT_TXN_HAS_TS_DURABLE" using keep d0 by (auto simp: v0_def)
      then show ?thesis using True s2 ok1 by (simp add: durable_ts_ok_def)
    next
      case False
      then show ?thesis using s2 set_durable_ok(1,2) [of "v_durable v" s1 s2] ok1(1) by simp
    qed
  qed
  have "F_ISSET s3 WT_TXN_HAS_TS_COMMIT"
  proof (cases "v_prepare v = WT_TS_NONE")
    case True
    then show ?thesis using s4 s' has by simp
  next
    case False
    then have "F_ISSET s4 WT_TXN_HAS_TS_COMMIT = F_ISSET s3 WT_TXN_HAS_TS_COMMIT"
      using s4 by (auto simp: wt_txn_set_prepare_timestamp_def Let_def upd_txn_def F_ISSET_def F_SET_def split: sum.splits if_splits)
    then show ?thesis using has s' by simp
  qed
  then show ?thesis using fin c2 same_ts_ok [OF same] s' by simp
qed


definition sample_committer :: cs where
  "sample_committer = \<lparr>cs_conn = (new_conn 1)\<lparr>c_global := (wt_txn_global_init 1)\<lparr>tg_has_stable := True, tg_stable_ts := 5\<rparr>\<rparr>,
     cs_ses = (new_session 0)\<lparr>s_txn := new_txn\<lparr>tx_flags := {WT_TXN_RUNNING, WT_TXN_PREPARE, WT_TXN_HAS_TS_PREPARE},
       tx_prepare_ts := 12\<rparr>\<rparr>\<rparr>"


text \<open>
  An empty commit timestamp in the configuration of the commit replaces the earlier one for the
  checks, which are then not made: stable has moved past the transaction's commit timestamp, and the call succeeds.
\<close>

lemma empty_timestamp_not_validated:
  "\<exists>s. let (r, s') = wt_txn_set_timestamp None [(''commit_timestamp'', [])] True s in
     r = Inr () \<and> tx_commit_ts (txn s') = 4 \<and> \<not> commit_ts_ok s' \<and> F_ISSET s' WT_TXN_HAS_TS_COMMIT"
  by (rule exI [of _ "sample_committer\<lparr>cs_ses := (new_session 0)\<lparr>s_txn := new_txn\<lparr>tx_commit_ts := 4,
      tx_first_commit_ts := 4, tx_durable_ts := 4, tx_flags := {WT_TXN_RUNNING, WT_TXN_HAS_TS_COMMIT}\<rparr>\<rparr>\<rparr>"]) code_simp

text \<open>
  The query for the timestamp up to which everything is durable: with no durable timestamp yet, it is
  the timestamp of the running transaction itself; and a transaction at 1 makes it forget about both.
\<close>

lemma all_durable_not_before:
  "txn_global_query_timestamp ''all_durable'' ((wt_txn_global_init 1)\<lparr>tg_shared := [new_shared\<lparr>sh_pinned_durable := 10\<rparr>]\<rparr>) = Inr 10"
  "txn_global_query_timestamp ''all_durable'' ((wt_txn_global_init 1)\<lparr>tg_has_durable := True, tg_durable_ts := 50,
     tg_shared := [new_shared\<lparr>sh_pinned_durable := 1\<rparr>, new_shared\<lparr>sh_pinned_durable := 10\<rparr>]\<rparr>) = Inr 10"
  by code_simp+

end
