(* ===== verification/TxnReaders.thy ===== *)
theory TxnReaders 
  imports TxnMvcc TxnTimestamp
begin

text \<open>
  Readers with a read timestamp against the pinned timestamp: what is visible to everybody is visible
  to each of them.
\<close>

lemma set_read_pinned [wt_inv]:
  assumes "pinned_ok (glob s)" and "read_ts \<noteq> WT_TS_NONE" and "s_id (cs_ses s) < length (tg_shared (glob s))"
    and "wt_txn_set_read_timestamp read_ts s = (Inr (), s')" and "\<not> F_ISSET s WT_TXN_RUNNING"
  shows "pinned_ok (glob s')"
proof (cases "F_ISSET s WT_TXN_PREPARE")
  case True
  then show ?thesis using assms(1,4) by (auto simp: wt_txn_set_read_timestamp_def)
next
  case False
  define ts where "ts = (if read_ts < tg_oldest_ts (glob s) then tg_oldest_ts (glob s) else read_ts)"
  have sh: "tg_shared (glob s') = (tg_shared (glob s))[s_id (cs_ses s) := (shared_of s)\<lparr>sh_read_ts := ts\<rparr>]"
    and same: "tg_has_pinned (glob s') = tg_has_pinned (glob s)" "tg_pinned_ts (glob s') = tg_pinned_ts (glob s)"
    "tg_has_oldest (glob s') = tg_has_oldest (glob s)" "tg_oldest_ts (glob s') = tg_oldest_ts (glob s)"
    using assms(4,5) False
    by (auto simp: wt_txn_set_read_timestamp_def ts_def Let_def txn_state_defs split: if_splits)
  have ge: "tg_oldest_ts (glob s) \<le> ts" by (auto simp: ts_def)
  have "tg_pinned_ts (glob s) \<le> sh_read_ts h"
    if hp: "tg_has_pinned (glob s)" and hin: "h \<in> set (tg_shared (glob s'))" and hnz: "sh_read_ts h \<noteq> WT_TS_NONE" for h
  proof -
    have p: "tg_pinned_ts (glob s) \<le> tg_oldest_ts (glob s)" using assms(1) hp by (simp add: pinned_ok_def)
    consider "h = (shared_of s)\<lparr>sh_read_ts := ts\<rparr>" | "h \<in> set (tg_shared (glob s))"
      using hin subsetD [OF set_update_subset_insert, of h "tg_shared (glob s)"] unfolding sh by blast
    then show ?thesis
    proof cases
      case 1
      then show ?thesis using order.trans [OF p ge] by simp
    next
      case 2
      then show ?thesis using assms(1) hp hnz by (simp add: pinned_ok_def)
    qed
  qed
  then show ?thesis using assms(1) same by (simp add: pinned_ok_def)
qed


definition pinned_conn :: wt_conn where
  "pinned_conn = (new_conn 2)\<lparr>c_global := (wt_txn_global_init 2)\<lparr>tg_oldest_id := 8, tg_current := 9, tg_has_oldest := True,
     tg_oldest_ts := 30, tg_has_pinned := True, tg_pinned_ts := 20,
     tg_shared := [new_shared, new_shared\<lparr>sh_read_ts := 25\<rparr>]\<rparr>\<rparr>"

definition pinned_reader :: cs where
  "pinned_reader = \<lparr>cs_conn = pinned_conn, cs_ses = (new_session 1)\<lparr>s_txn := new_txn\<lparr>tx_snap_min := 8, tx_snap_max := 9,
     tx_flags := {WT_TXN_HAS_SNAPSHOT, WT_TXN_SHARED_TS_READ}\<rparr>\<rparr>\<rparr>"


end
