(* ===== verification/Modify.thy ===== *)
theory Modify
  imports Wt_Prelude
begin

text \<open>
  Partial updates, \<open>src/support/modify.c\<close>. A buffer is its memory and the size of the value at its start.
  Sizes are natural numbers below \<open>2 ^ 64\<close>, and the wrap-around of \<open>size_t\<close> is written out; a copy
  outside the memory is \<open>OutOfBounds\<close>. Growing a buffer does not fail and leaves the new memory unset
  (zero here). The packed form of a modify is the count with the three sizes of each entry, and the
  replacement data of all of them.
\<close>

definition sz_add :: "nat \<Rightarrow> nat \<Rightarrow> nat" where "sz_add a b = (a + b) mod 2 ^ 64"
definition sz_sub :: "nat \<Rightarrow> nat \<Rightarrow> nat" where "sz_sub a b = (a + 2 ^ 64 - b) mod 2 ^ 64"

record wt_item =
  it_mem :: "u8 list"
  it_size :: nat

record wt_modify =
  md_data :: "u8 list"
  md_offset :: nat
  md_size :: nat

record packed_modify =
  pk_sizes :: "nat list"
  pk_data :: "u8 list"

definition wt_buf_grow :: "nat \<Rightarrow> wt_item \<Rightarrow> wt_item" where
  "wt_buf_grow n it = (if length (it_mem it) < n
     then it\<lparr>it_mem := it_mem it @ replicate (n - length (it_mem it)) 0\<rparr> else it)"

definition mem_copy :: "u8 list \<Rightarrow> nat \<Rightarrow> u8 list \<Rightarrow> u8 list result" where
  "mem_copy mem off data =
     (if off + length data \<le> length mem then Inr (take off mem @ data @ drop (off + length data) mem) else Inl OutOfBounds)"

definition mem_move :: "u8 list \<Rightarrow> nat \<Rightarrow> nat \<Rightarrow> nat \<Rightarrow> u8 list result" where
  "mem_move mem to src n =
     (if src + n \<le> length mem then mem_copy mem to (take n (drop src mem)) else Inl OutOfBounds)"

subsection \<open>The packed form\<close>

fun pack_sizes :: "wt_modify list \<Rightarrow> nat list" where
  "pack_sizes [] = []"
| "pack_sizes (e # es) = length (md_data e) # md_offset e # md_size e # pack_sizes es"

definition wt_modify_pack :: "wt_modify list \<Rightarrow> packed_modify" where
  "wt_modify_pack entries = \<lparr>pk_sizes = length entries # pack_sizes entries, pk_data = concat (map md_data entries)\<rparr>"

text \<open>\<open>WT_MODIFY_FOREACH_BEGIN\<close>: the entries in order; the caller skips those already applied.\<close>

fun modify_foreach :: "nat \<Rightarrow> nat list \<Rightarrow> u8 list \<Rightarrow> wt_modify list" where
  "modify_foreach 0 p data = []"
| "modify_foreach (Suc n) p data =
     \<lparr>md_data = take (p ! 0) data, md_offset = p ! 1, md_size = p ! 2\<rparr> # modify_foreach n (drop 3 p) (drop (p ! 0) data)"

text \<open>\<open>WT_MODIFY_FOREACH_REVERSE\<close>: \<open>p\<close> is the index after the sizes still to read, \<open>dp\<close> that after their data.\<close>

fun modify_foreach_reverse :: "nat \<Rightarrow> nat list \<Rightarrow> u8 list \<Rightarrow> nat \<Rightarrow> nat \<Rightarrow> wt_modify list" where
  "modify_foreach_reverse 0 sizes data p dp = []"
| "modify_foreach_reverse (Suc n) sizes data p dp =
     (let data_size = sizes ! (p - 3); dp = dp - data_size in
      \<lparr>md_data = take data_size (drop dp data), md_offset = sizes ! (p - 2), md_size = sizes ! (p - 1)\<rparr> #
      modify_foreach_reverse n sizes data (p - 3) dp)"

definition entries_of :: "packed_modify \<Rightarrow> wt_modify list" where
  "entries_of m = modify_foreach (hd (pk_sizes m)) (tl (pk_sizes m)) (pk_data m)"

definition wt_modify_idempotent :: "packed_modify \<Rightarrow> bool" where
  "wt_modify_idempotent m = list_all (\<lambda>e. md_size e = length (md_data e)) (entries_of m)"

subsection \<open>Applying one entry\<close>

definition modify_apply_one :: "bool \<Rightarrow> u8 \<Rightarrow> wt_modify \<Rightarrow> wt_item \<Rightarrow> wt_item result" where
  "modify_apply_one sformat pad_byte m it0 =
     (let data = md_data m; data_size = length data; offset = md_offset m; size = md_size m;
          it = wt_buf_grow (sz_add (sz_add (max (it_size it0) offset) data_size) (if sformat then 1 else 0)) it0
      in if it_size it > sz_add offset data_size \<and> data_size = size then
           wt_ret (mem_copy (it_mem it) offset data) (\<lambda>mem. Inr (it\<lparr>it_mem := mem\<rparr>))
         else if it_size it \<le> offset then
           wt_ret (if it_size it < offset
                   then mem_copy (it_mem it) (it_size it) (replicate (offset - it_size it) (if sformat then 32 else pad_byte))
                   else Inr (it_mem it)) (\<lambda>mem.
           wt_ret (mem_copy mem offset data) (\<lambda>mem. Inr (it\<lparr>it_mem := mem, it_size := sz_add offset data_size\<rparr>)))
         else
           let size = (if it_size it < sz_add offset size then sz_sub (it_size it) offset else size) in
           if data_size = size then
             wt_ret (mem_copy (it_mem it) offset data) (\<lambda>mem. Inr (it\<lparr>it_mem := mem, it_size := sz_add offset data_size\<rparr>))
           else
             wt_ret (mem_move (it_mem it) (sz_add offset data_size) (sz_add offset size)
                       (sz_sub (it_size it) (sz_add offset size))) (\<lambda>mem.
             wt_ret (mem_copy mem offset data) (\<lambda>mem.
               Inr (it\<lparr>it_mem := mem, it_size := sz_add (it_size it) (sz_sub data_size size)\<rparr>))))"

subsection \<open>Applying all of them\<close>

record fast_path =
  fp_mem :: "u8 list"
  fp_applied :: nat
  fp_datasz :: nat
  fp_destoff :: nat
  fp_fastpath :: bool
  fp_first :: bool
  fp_prev :: wt_modify
  fp_current :: wt_modify

text \<open>The result says whether the entries overlap.\<close>

fun fast_path_loop :: "nat \<Rightarrow> wt_modify list \<Rightarrow> fast_path \<Rightarrow> (bool \<times> fast_path) result" where
  "fast_path_loop value_size [] st = Inr (False, st)"
| "fast_path_loop value_size (c # cs) st0 =
     (let st = st0\<lparr>fp_datasz := sz_add (fp_datasz st0) (length (md_data c)), fp_current := c\<rparr>;
          prev = fp_prev st in
      if fp_fastpath st \<and> length (md_data c) = md_size c \<and> sz_add (md_offset c) (md_size c) \<le> value_size then
        wt_ret (mem_copy (fp_mem st) (md_offset c) (md_data c))
          (\<lambda>mem. fast_path_loop value_size cs (st\<lparr>fp_mem := mem, fp_applied := fp_applied st + 1\<rparr>))
      else if \<not> fp_first st \<and> (md_offset c < sz_add (md_offset prev) (md_size prev) \<or>
          md_offset c < sz_add (md_offset prev) (length (md_data prev))) then Inr (True, st)
      else
        let destoff = (if fp_first st then md_offset c
                       else sz_add (fp_destoff st) (sz_sub (md_offset c) (sz_add (md_offset prev) (md_size prev)))) in
        if sz_add (md_offset c) (md_size c) > value_size then Inr (True, st)
        else if md_size c \<noteq> length (md_data c) \<and> sz_add (md_offset c) (md_size c) > destoff then Inr (True, st)
        else fast_path_loop value_size cs (st\<lparr>fp_fastpath := False, fp_destoff := sz_add destoff (length (md_data c)),
               fp_prev := c, fp_first := False\<rparr>))"

definition no_modify :: wt_modify where
  "no_modify = \<lparr>md_data = [], md_offset = 0, md_size = 0\<rparr>"

text \<open>The memory, the number applied, the size of the data and the final size when nothing overlaps.\<close>

definition modify_fast_path :: "wt_item \<Rightarrow> wt_modify list \<Rightarrow> (u8 list \<times> nat \<times> (nat \<times> nat) option) result" where
  "modify_fast_path it entries =
     wt_ret (fast_path_loop (it_size it) entries \<lparr>fp_mem = it_mem it, fp_applied = 0, fp_datasz = 0, fp_destoff = 0,
         fp_fastpath = True, fp_first = True, fp_prev = no_modify, fp_current = no_modify\<rparr>) (\<lambda>(overlap, st).
       let current = fp_current st in
       Inr (fp_mem st, fp_applied st,
            if overlap then None
            else Some (fp_datasz st, sz_add (fp_destoff st)
              (sz_sub (it_size it) (sz_add (md_offset current) (md_size current))))))"

text \<open>Backwards, moving the unmodified blocks into place; positions are relative to the start of the value.\<close>

fun no_overlap_loop :: "wt_modify list \<Rightarrow> u8 list \<Rightarrow> nat \<Rightarrow> nat \<Rightarrow> (u8 list \<times> nat \<times> nat) result" where
  "no_overlap_loop [] mem src to = Inr (mem, src, to)"
| "no_overlap_loop (c # cs) mem src to =
     (let sz = sz_sub to (sz_add (md_offset c) (length (md_data c)));
          src = sz_sub src sz; to = sz_sub to sz in
      wt_ret (if to \<noteq> src then mem_move mem to src sz else Inr mem) (\<lambda>mem.
      let src = sz_sub src (md_size c); to = sz_sub to (length (md_data c)) in
      wt_ret (mem_copy mem to (md_data c)) (\<lambda>mem. no_overlap_loop cs mem src to)))"

definition modify_apply_no_overlap :: "packed_modify \<Rightarrow> nat \<Rightarrow> nat \<Rightarrow> nat \<Rightarrow> wt_item \<Rightarrow> wt_item result" where
  "modify_apply_no_overlap m napplied datasz destsz it =
     (let n = hd (pk_sizes m) in
      wt_ret (no_overlap_loop (modify_foreach_reverse (n - napplied) (tl (pk_sizes m)) (pk_data m) (3 * n) datasz)
               (it_mem it) (it_size it) destsz)
        (\<lambda>(mem, _, _). Inr (it\<lparr>it_mem := mem, it_size := destsz\<rparr>)))"

definition wt_modify_apply_item :: "bool \<Rightarrow> u8 \<Rightarrow> packed_modify \<Rightarrow> wt_item \<Rightarrow> wt_item result" where
  "wt_modify_apply_item sformat pad_byte m it0 =
     (let nentries = hd (pk_sizes m);
          it = wt_buf_grow (it_size it0) it0;
          it = (if sformat then it\<lparr>it_size := sz_sub (it_size it) 1\<rparr> else it)
      in wt_ret (modify_fast_path it (entries_of m)) (\<lambda>(mem, napplied, no_overlap).
         let it = it\<lparr>it_mem := mem\<rparr> in
         wt_ret (if napplied = nentries then Inr it
                 else case no_overlap of
                   Some (datasz, destsz) \<Rightarrow>
                     modify_apply_no_overlap m napplied datasz destsz
                       (wt_buf_grow (sz_add (max destsz (it_size it)) (if sformat then 1 else 0)) it)
                 | None \<Rightarrow> fold_result (\<lambda>it e. modify_apply_one sformat pad_byte e it) (drop napplied (entries_of m)) it)
           (\<lambda>it. if sformat
                 then wt_ret (mem_copy (it_mem it) (it_size it) [0]) (\<lambda>mem. Inr (it\<lparr>it_mem := mem, it_size := it_size it + 1\<rparr>))
                 else Inr it)))"

definition wt_modify_apply_api :: "bool \<Rightarrow> u8 \<Rightarrow> wt_modify list \<Rightarrow> wt_item \<Rightarrow> wt_item result" where
  "wt_modify_apply_api sformat pad_byte entries = wt_modify_apply_item sformat pad_byte (wt_modify_pack entries)"

subsection \<open>What one entry does\<close>

lemma sz_add_small [simp]: "a + b < 2 ^ 64 \<Longrightarrow> sz_add a b = a + b"
  by (simp add: sz_add_def)

lemma sz_sub_small [simp]: "b \<le> a \<Longrightarrow> a < 2 ^ 64 \<Longrightarrow> sz_sub a b = a - b"
  by (simp add: sz_sub_def le_mod_geq)

lemma sz_add_sub:
  assumes "s \<le> a + d" and "a + d < 2 ^ 64" and "s < 2 ^ 64"
  shows "sz_add a (sz_sub d s) = a + d - s"
proof -
  have "a + (d + 2 ^ 64 - s) = (a + d - s) + 2 ^ 64" using assms by simp
  then have "(a + (d + 2 ^ 64 - s)) mod 2 ^ 64 = (a + d - s) mod 2 ^ 64" by (simp only: mod_add_self2)
  moreover have "(a + d - s) mod 2 ^ 64 = a + d - s" using assms by simp
  ultimately show ?thesis by (simp only: sz_add_def sz_sub_def mod_add_right_eq)
qed

lemma mem_copy_ok:
  "off + length data \<le> length mem \<Longrightarrow> mem_copy mem off data = Inr (take off mem @ data @ drop (off + length data) mem)"
  by (simp add: mem_copy_def)

text \<open>The value a buffer holds, and the entry applied to it.\<close>

definition item_value :: "wt_item \<Rightarrow> u8 list" where
  "item_value it = take (it_size it) (it_mem it)"

definition apply_entry :: "u8 \<Rightarrow> u8 list \<Rightarrow> wt_modify \<Rightarrow> u8 list" where
  "apply_entry pad v e = (let off = md_offset e in
     if length v \<le> off then v @ replicate (off - length v) pad @ md_data e
     else take off v @ md_data e @ drop (off + md_size e) v)"

definition pad_of :: "bool \<Rightarrow> u8 \<Rightarrow> u8" where
  "pad_of sformat pad_byte = (if sformat then 32 else pad_byte)"

definition item_ok :: "bool \<Rightarrow> wt_item \<Rightarrow> bool" where
  "item_ok sformat it \<longleftrightarrow> it_size it + of_bool sformat \<le> length (it_mem it)"

lemma item_ok_length: "item_ok sf it \<Longrightarrow> length (item_value it) = it_size it"
  by (simp add: item_ok_def item_value_def)

lemma wt_buf_grow_simps [simp]:
  "it_size (wt_buf_grow n it) = it_size it"
  "length (it_mem (wt_buf_grow n it)) = max n (length (it_mem it))"
  by (simp_all add: wt_buf_grow_def max_def)

lemma wt_buf_grow_value [simp]: "item_ok sf it \<Longrightarrow> item_value (wt_buf_grow n it) = item_value it"
  by (simp add: wt_buf_grow_def item_value_def item_ok_def)

lemma wt_buf_grow_ok: "item_ok sf it \<Longrightarrow> item_ok sf (wt_buf_grow n it)"
  by (simp add: item_ok_def)

definition entry_bound :: "wt_modify \<Rightarrow> nat" where
  "entry_bound e = md_offset e + md_size e + length (md_data e)"

lemma take_mem: "n \<le> length mem \<Longrightarrow> k \<le> n \<Longrightarrow> take k mem = take k (take n mem)"
  by simp

lemma modify_apply_one_spec:
  assumes "item_ok sf it0" and "it_size it0 + entry_bound e + 1 < 2 ^ 64"
  shows "\<exists>it. modify_apply_one sf pad_byte e it0 = Inr it \<and> item_ok sf it \<and>
    item_value it = apply_entry (pad_of sf pad_byte) (item_value it0) e"
proof -
  let ?d = "md_data e" and ?o = "md_offset e" and ?s = "md_size e" and ?n = "it_size it0"
  define it where "it = wt_buf_grow (sz_add (sz_add (max ?n ?o) (length ?d)) (if sf then 1 else 0)) it0"
  define mem where "mem = it_mem it"
  have bnd: "?n + (?o + (?s + length ?d)) + 1 < 2 ^ 64" using assms(2) by (simp add: entry_bound_def)
  then have "max ?n ?o + length ?d + of_bool sf < 2 ^ 64" by auto
  moreover have "max ?n ?o + length ?d < 2 ^ 64" using bnd by auto
  ultimately have mlen: "max ?n ?o + length ?d + of_bool sf \<le> length mem"
    by (auto simp: it_def mem_def)
  have sz: "it_size it = ?n" by (simp add: it_def)
  have val: "item_value it0 = take ?n mem"
    using assms(1) by (simp add: it_def mem_def item_value_def wt_buf_grow_def item_ok_def)
  have len: "length (item_value it0) = ?n" using assms(1) by (rule item_ok_length)
  have add: "sz_add ?o (length ?d) = ?o + length ?d" "sz_add ?o ?s = ?o + ?s" using bnd by simp_all
  have one: "modify_apply_one sf pad_byte e it0 =
    (if ?n > ?o + length ?d \<and> length ?d = ?s then
           wt_ret (mem_copy mem ?o ?d) (\<lambda>mem. Inr (it\<lparr>it_mem := mem\<rparr>))
         else if ?n \<le> ?o then
           wt_ret (if ?n < ?o then mem_copy mem ?n (replicate (?o - ?n) (pad_of sf pad_byte)) else Inr mem) (\<lambda>mem.
           wt_ret (mem_copy mem ?o ?d) (\<lambda>mem. Inr (it\<lparr>it_mem := mem, it_size := ?o + length ?d\<rparr>)))
         else
           let size = (if ?n < ?o + ?s then ?n - ?o else ?s) in
           if length ?d = size then
             wt_ret (mem_copy mem ?o ?d) (\<lambda>mem. Inr (it\<lparr>it_mem := mem, it_size := ?o + length ?d\<rparr>))
           else
             wt_ret (mem_move mem (?o + length ?d) (sz_add ?o size) (sz_sub ?n (sz_add ?o size))) (\<lambda>mem.
             wt_ret (mem_copy mem ?o ?d) (\<lambda>mem. Inr (it\<lparr>it_mem := mem, it_size := sz_add ?n (sz_sub (length ?d) size)\<rparr>))))"
    using bnd unfolding modify_apply_one_def Let_def add it_def [symmetric] sz mem_def [symmetric]
    by (simp add: pad_of_def cong: if_cong)
  consider (over) "?n > ?o + length ?d" "length ?d = ?s"
    | (past) "?n \<le> ?o" | (inside) "?o < ?n" "\<not> (?n > ?o + length ?d \<and> length ?d = ?s)" by linarith
  then show ?thesis
  proof cases
    case over
    then have "apply_entry p (item_value it0) e = take ?o mem @ ?d @ take (?n - (?o + ?s)) (drop (?o + ?s) mem)" for p
      using mlen by (auto simp: apply_entry_def Let_def len val drop_take)
    then show ?thesis using mlen over by (simp add: one mem_copy_ok item_ok_def item_value_def sz)
  next
    case past
    then have "apply_entry p (item_value it0) e = take ?n mem @ replicate (?o - ?n) p @ ?d" for p
      using mlen by (auto simp: apply_entry_def Let_def len val)
    then show ?thesis using mlen past
      by (cases "?n < ?o") (simp_all add: one mem_copy_ok item_ok_def item_value_def sz)
  next
    case inside
    define size where "size = (if ?n < ?o + ?s then ?n - ?o else ?s)"
    have size: "?o + size \<le> ?n" using inside by (auto simp: size_def)
    have spec: "apply_entry p (item_value it0) e = take ?o mem @ ?d @ take (?n - (?o + size)) (drop (?o + size) mem)" for p
      using inside mlen by (auto simp: apply_entry_def Let_def len val size_def drop_take)
    show ?thesis
    proof (cases "length ?d = size")
      case True
      moreover have "?o + size = ?n" using inside True by (auto simp: size_def split: if_splits)
      ultimately show ?thesis using inside mlen unfolding spec
        by (simp add: one size_def [symmetric] mem_copy_ok item_ok_def item_value_def)
    next
      case False
      let ?n' = "sz_add ?n (sz_sub (length ?d) size)"
      have n': "?n' = ?n + length ?d - size" using size bnd by (intro sz_add_sub) auto
      have z: "sz_add ?o size = ?o + size" using size bnd by simp
      have z': "sz_sub ?n (?o + size) = ?n - (?o + size)" using size bnd by simp
      have neg: "(?n > ?o + length ?d \<and> length ?d = ?s) = False" using inside by blast
      show ?thesis using inside(1) mlen size False unfolding spec one neg
        by (simp add: size_def [symmetric] z z' mem_move_def mem_copy_ok item_ok_def item_value_def n' Let_def
            add.commute [of size])
    qed
  qed
qed

subsection \<open>Packing\<close>

lemma modify_foreach_pack:
  "modify_foreach (length es) (pack_sizes es @ p) (concat (map md_data es) @ data) = es"
proof (induction es arbitrary: p data)
  case (Cons e es)
  then show ?case by (cases e) simp
qed simp

lemma entries_of_pack [simp]: "entries_of (wt_modify_pack es) = es"
  using modify_foreach_pack [of es "[]" "[]"] by (simp add: entries_of_def wt_modify_pack_def)

lemma pack_sizes_append [simp]: "pack_sizes (es @ fs) = pack_sizes es @ pack_sizes fs"
  by (induction es) auto

lemma length_pack_sizes [simp]: "length (pack_sizes es) = 3 * length es"
  by (induction es) auto

lemma modify_foreach_reverse_pack:
  "k \<le> length es \<Longrightarrow> modify_foreach_reverse k (pack_sizes es @ p) (concat (map md_data es) @ data)
     (3 * length es) (length (concat (map md_data es))) = take k (rev es)"
proof (induction es arbitrary: k p data rule: rev_induct)
  case (snoc e es)
  show ?case
  proof (cases k)
    case (Suc k')
    then have "k' \<le> length es" using snoc.prems by simp
    from snoc.IH [OF this, of "length (md_data e) # md_offset e # md_size e # p" "md_data e @ data"]
    show ?thesis by (cases e) (simp add: Suc Let_def nth_append)
  qed simp
qed simp

subsection \<open>Applying the entries in order\<close>

definition apply_entries :: "u8 \<Rightarrow> wt_modify list \<Rightarrow> u8 list \<Rightarrow> u8 list" where
  "apply_entries pad es v = fold (\<lambda>e v. apply_entry pad v e) es v"

lemma apply_entries_simps [simp]:
  "apply_entries pad [] v = v"
  "apply_entries pad (e # es) v = apply_entries pad es (apply_entry pad v e)"
  "apply_entries pad (es @ fs) v = apply_entries pad fs (apply_entries pad es v)"
  by (simp_all add: apply_entries_def)

lemma apply_entry_inside:
  "md_offset e \<le> length v \<Longrightarrow> apply_entry pad v e = take (md_offset e) v @ md_data e @ drop (md_offset e + md_size e) v"
  by (simp add: apply_entry_def Let_def)

lemma apply_entry_length: "length (apply_entry pad v e) \<le> length v + entry_bound e"
  by (simp add: apply_entry_def Let_def entry_bound_def) arith

lemma apply_each_spec:
  assumes "item_ok sf it" and "it_size it + sum_list (map entry_bound es) + 1 < 2 ^ 64"
  shows "\<exists>it'. fold_result (\<lambda>it e. modify_apply_one sf pad_byte e it) es it = Inr it' \<and> item_ok sf it' \<and>
    item_value it' = apply_entries (pad_of sf pad_byte) es (item_value it)"
  using assms
proof (induction es arbitrary: it)
  case (Cons e es)
  obtain it1 where one: "modify_apply_one sf pad_byte e it = Inr it1" "item_ok sf it1"
    "item_value it1 = apply_entry (pad_of sf pad_byte) (item_value it) e"
    using modify_apply_one_spec [OF Cons.prems(1), of e pad_byte] Cons.prems(2) by auto
  have "it_size it1 \<le> it_size it + entry_bound e"
    using apply_entry_length [of "pad_of sf pad_byte" "item_value it" e] one item_ok_length Cons.prems(1) by metis
  then show ?case using Cons.IH [OF one(2)] Cons.prems(2) one by simp
qed simp

subsection \<open>The fast path\<close>

fun no_overlap :: "nat \<Rightarrow> nat \<Rightarrow> nat \<Rightarrow> wt_modify list \<Rightarrow> bool" where
  "no_overlap n D P [] = True"
| "no_overlap n D P (e # es) \<longleftrightarrow> P \<le> md_offset e \<and> md_offset e + md_size e \<le> n \<and>
     (md_size e \<noteq> length (md_data e) \<longrightarrow> md_size e \<le> D) \<and>
     no_overlap n (D + length (md_data e) - md_size e) (md_offset e + length (md_data e)) es"

fun growth :: "nat \<Rightarrow> wt_modify list \<Rightarrow> nat" where
  "growth D [] = D"
| "growth D (e # es) = growth (D + length (md_data e) - md_size e) es"

abbreviation data_bytes :: "wt_modify list \<Rightarrow> nat" where
  "data_bytes es \<equiv> length (concat (map md_data es))"

definition dest_size :: "nat \<Rightarrow> fast_path \<Rightarrow> nat" where
  "dest_size n st = sz_add (fp_destoff st) (sz_sub n (sz_add (md_offset (fp_current st)) (md_size (fp_current st))))"

lemma fast_path_slow:
  assumes "\<not> fp_fastpath st" and "\<not> fp_first st" and "fp_current st = fp_prev st"
    and "fp_destoff st = md_offset (fp_prev st) + md_size (fp_prev st) + D"
    and "md_offset (fp_prev st) + md_size (fp_prev st) \<le> n"
    and "P = md_offset (fp_prev st) + length (md_data (fp_prev st))"
    and "2 * (n + sum_list (map entry_bound es)) + D + P < 2 ^ 64"
    and "fp_datasz st + data_bytes es < 2 ^ 64"
  shows "\<exists>ov st'. fast_path_loop n es st = Inr (ov, st') \<and> fp_mem st' = fp_mem st \<and> fp_applied st' = fp_applied st \<and>
    (\<not> ov \<longrightarrow> no_overlap n D P es \<and> fp_datasz st' = fp_datasz st + data_bytes es \<and> dest_size n st' = n + growth D es)"
  using assms
proof (induction es arbitrary: st D P)
  case Nil
  then show ?case by (intro exI [of _ False]) (simp add: dest_size_def)
next
  case (Cons c cs)
  let ?o = "md_offset c" and ?s = "md_size c" and ?d = "length (md_data c)"
  let ?o' = "md_offset (fp_prev st)" and ?s' = "md_size (fp_prev st)" and ?d' = "length (md_data (fp_prev st))"
  have bnd: "2 * (n + (?o + ?s + ?d + sum_list (map entry_bound cs))) + D + P < 2 ^ 64"
    using Cons.prems(7) by (simp add: entry_bound_def [of c])
  have data: "sz_add (fp_datasz st) ?d = fp_datasz st + ?d" using Cons.prems(8) by simp
  have add: "sz_add ?o ?s = ?o + ?s" "sz_add ?o' ?s' = ?o' + ?s'" "sz_add ?o' ?d' = P"
    using bnd Cons.prems(5,6) by simp_all
  define st1 where "st1 = st\<lparr>fp_datasz := fp_datasz st + ?d, fp_current := c, fp_fastpath := False,
    fp_destoff := ?o + D + ?d, fp_prev := c, fp_first := False\<rparr>"
  show ?case
  proof (cases "?o < ?o' + ?s' \<or> ?o < P \<or> n < ?o + ?s \<or> (?s \<noteq> ?d \<and> D < ?s)")
    case True
    have off: "sz_add (fp_destoff st) (sz_sub ?o (?o' + ?s')) = ?o + D" if "\<not> ?o < ?o' + ?s'"
      using that bnd Cons.prems(4) by simp
    show ?thesis
      using True Cons.prems(1,2) by (auto simp: Let_def data add off)
  next
    case False
    have off: "sz_add (fp_destoff st) (sz_sub ?o (?o' + ?s')) = ?o + D" "sz_add (?o + D) ?d = ?o + D + ?d"
      using False bnd Cons.prems(4) by simp_all
    have step: "fast_path_loop n (c # cs) st = fast_path_loop n cs st1"
      using False Cons.prems(1,2) by (auto simp: Let_def data add off st1_def)
    let ?D = "D + ?d - ?s"
    have "?D \<le> D + ?d" by simp
    then have bnd': "2 * (n + sum_list (map entry_bound cs)) + ?D + (?o + ?d) < 2 ^ 64" using bnd by simp
    have dest: "fp_destoff st1 = ?o + ?s + ?D" using False by (auto simp: st1_def)
    have "\<exists>ov st'. fast_path_loop n cs st1 = Inr (ov, st') \<and> fp_mem st' = fp_mem st1 \<and> fp_applied st' = fp_applied st1 \<and>
      (\<not> ov \<longrightarrow> no_overlap n ?D (?o + ?d) cs \<and> fp_datasz st' = fp_datasz st1 + data_bytes cs \<and> dest_size n st' = n + growth ?D cs)"
      by (rule Cons.IH) (use False dest bnd' Cons.prems(8) in \<open>simp_all add: st1_def\<close>)
    then show ?thesis unfolding step using False by (auto simp: st1_def)
  qed
qed

lemma fast_path_spec:
  assumes "fp_fastpath st" and "fp_first st" and "n \<le> length (fp_mem st)"
    and "2 * (n + sum_list (map entry_bound es)) < 2 ^ 64" and "fp_datasz st + data_bytes es < 2 ^ 64"
  shows "\<exists>ov st' es1 es2. fast_path_loop n es st = Inr (ov, st') \<and> es = es1 @ es2 \<and>
    fp_applied st' = fp_applied st + length es1 \<and> length (fp_mem st') = length (fp_mem st) \<and>
    take n (fp_mem st') = apply_entries pad es1 (take n (fp_mem st)) \<and>
    (\<not> ov \<and> es2 \<noteq> [] \<longrightarrow> no_overlap n 0 0 es2 \<and> fp_datasz st' = fp_datasz st + data_bytes es \<and>
      dest_size n st' = n + growth 0 es2)"
  using assms
proof (induction es arbitrary: st)
  case Nil
  show ?case by (intro exI [of _ False]) simp
next
  case (Cons c cs)
  let ?o = "md_offset c" and ?s = "md_size c" and ?d = "length (md_data c)"
  have bnd: "2 * (n + (?o + ?s + ?d + sum_list (map entry_bound cs))) < 2 ^ 64"
    using Cons.prems(4) by (simp add: entry_bound_def [of c])
  have data: "sz_add (fp_datasz st) ?d = fp_datasz st + ?d" using Cons.prems(5) by simp
  have add: "sz_add ?o ?s = ?o + ?s" "sz_add ?o ?d = ?o + ?d" using bnd by simp_all
  consider (fast) "?d = ?s" "?o + ?s \<le> n" | (over) "n < ?o + ?s \<or> (?s \<noteq> ?d \<and> 0 < ?s)"
    | (slow) "?o + ?s \<le> n" "?s \<noteq> ?d" "?s = 0" by linarith
  then show ?case
  proof cases
    case fast
    define mem where "mem = take ?o (fp_mem st) @ md_data c @ drop (?o + ?d) (fp_mem st)"
    define st1 where "st1 = st\<lparr>fp_datasz := fp_datasz st + ?d, fp_current := c, fp_mem := mem, fp_applied := fp_applied st + 1\<rparr>"
    have step: "fast_path_loop n (c # cs) st = fast_path_loop n cs st1"
      using fast Cons.prems(1,3) data by (simp add: Let_def add mem_copy_ok mem_def st1_def)
    have len: "length mem = length (fp_mem st)" using fast Cons.prems(3) by (simp add: mem_def)
    have val: "take n mem = apply_entry pad (take n (fp_mem st)) c"
      using fast Cons.prems(3) by (subst apply_entry_inside) (simp_all add: mem_def drop_take)
    obtain ov st' es1 es2 where "fast_path_loop n cs st1 = Inr (ov, st')" "cs = es1 @ es2"
      "fp_applied st' = fp_applied st1 + length es1" "length (fp_mem st') = length (fp_mem st1)"
      "take n (fp_mem st') = apply_entries pad es1 (take n (fp_mem st1))"
      "\<not> ov \<and> es2 \<noteq> [] \<longrightarrow> no_overlap n 0 0 es2 \<and> fp_datasz st' = fp_datasz st1 + data_bytes cs \<and>
        dest_size n st' = n + growth 0 es2"
      using Cons.IH [of st1] Cons.prems len bnd by (auto simp: st1_def)
    then show ?thesis unfolding step
      by (intro exI [of _ ov] exI [of _ st'] exI [of _ "c # es1"] exI [of _ es2]) (simp add: st1_def len val)
  next
    case over
    then show ?thesis using Cons.prems(1,2)
      by (intro exI [of _ True] exI [of _ "st\<lparr>fp_datasz := fp_datasz st + ?d, fp_current := c\<rparr>"] exI [of _ "[]"] exI [of _ "c # cs"])
        (auto simp: Let_def data add)
  next
    case slow
    define st1 where "st1 = st\<lparr>fp_datasz := fp_datasz st + ?d, fp_current := c, fp_fastpath := False,
      fp_destoff := ?o + ?d, fp_prev := c, fp_first := False\<rparr>"
    have step: "fast_path_loop n (c # cs) st = fast_path_loop n cs st1"
      using slow Cons.prems(1,2) add by (simp add: Let_def data st1_def)
    have "\<exists>ov st'. fast_path_loop n cs st1 = Inr (ov, st') \<and> fp_mem st' = fp_mem st1 \<and> fp_applied st' = fp_applied st1 \<and>
      (\<not> ov \<longrightarrow> no_overlap n ?d (?o + ?d) cs \<and> fp_datasz st' = fp_datasz st1 + data_bytes cs \<and> dest_size n st' = n + growth ?d cs)"
      by (rule fast_path_slow) (use slow bnd Cons.prems(5) in \<open>simp_all add: st1_def\<close>)
    then obtain ov st' where "fast_path_loop n cs st1 = Inr (ov, st')" "fp_mem st' = fp_mem st1" "fp_applied st' = fp_applied st1"
      "\<not> ov \<longrightarrow> no_overlap n ?d (?o + ?d) cs \<and> fp_datasz st' = fp_datasz st1 + data_bytes cs \<and> dest_size n st' = n + growth ?d cs"
      by blast
    then show ?thesis unfolding step using slow
      by (intro exI [of _ ov] exI [of _ st'] exI [of _ "[]"] exI [of _ "c # cs"]) (simp add: st1_def)
  qed
qed

subsection \<open>Applying the entries backwards\<close>

text \<open>The bytes of the result from \<open>P\<close> on, when the first \<open>P\<close> bytes have grown by \<open>D\<close>.\<close>

fun result_from :: "u8 list \<Rightarrow> nat \<Rightarrow> nat \<Rightarrow> wt_modify list \<Rightarrow> u8 list" where
  "result_from v D P [] = drop (P - D) v"
| "result_from v D P (e # es) = take (md_offset e - P) (drop (P - D) v) @ md_data e @
     result_from v (D + length (md_data e) - md_size e) (md_offset e + length (md_data e)) es"

lemma no_overlap_next:
  assumes "no_overlap n D P (e # es)" and "D \<le> P" and "P \<le> n + D"
  defines "D' \<equiv> D + length (md_data e) - md_size e" and "P' \<equiv> md_offset e + length (md_data e)"
  shows "D' \<le> P'" and "P' \<le> n + D'" and "no_overlap n D' P' es" and "P' - D' = md_offset e + md_size e - D"
    and "D' + md_size e = D + length (md_data e)" and "D \<le> md_offset e"
  using assms by (auto simp: D'_def P'_def)

lemma result_from_apply:
  assumes "no_overlap (length v) D P es" and "D \<le> P" and "P \<le> length v + D" and "length x = P"
  shows "apply_entries pad es (x @ drop (P - D) v) = x @ result_from v D P es"
  using assms
proof (induction es arbitrary: D P x)
  case (Cons e es)
  let ?o = "md_offset e" and ?s = "md_size e" and ?d = "length (md_data e)"
  let ?D = "D + ?d - ?s" and ?P = "?o + ?d"
  note nxt = no_overlap_next [OF Cons.prems(1-3)]
  have o: "P \<le> ?o" "?o + ?s \<le> length v" using Cons.prems(1) by auto
  have "apply_entry pad (x @ drop (P - D) v) e = take ?o (x @ drop (P - D) v) @ md_data e @ drop (?o + ?s) (x @ drop (P - D) v)"
    using Cons.prems(2-4) o by (intro apply_entry_inside) simp
  also have "take ?o (x @ drop (P - D) v) = x @ take (?o - P) (drop (P - D) v)" using Cons.prems(4) o by simp
  also have "drop (?o + ?s) (x @ drop (P - D) v) = drop (?P - ?D) v"
    using Cons.prems(2,4) o by (simp add: nxt(4))
  finally have "apply_entry pad (x @ drop (P - D) v) e = (x @ take (?o - P) (drop (P - D) v) @ md_data e) @ drop (?P - ?D) v" by simp
  then show ?case
    using Cons.IH [OF nxt(3,1,2), of "x @ take (?o - P) (drop (P - D) v) @ md_data e"] Cons.prems(2-4) o by simp
qed simp

lemma growth_bound: "no_overlap n D P es \<Longrightarrow> D \<le> P \<Longrightarrow> P \<le> n + D \<Longrightarrow> P \<le> n + growth D es"
proof (induction es arbitrary: D P)
  case (Cons e es)
  note nxt = no_overlap_next [OF Cons.prems]
  show ?case using Cons.IH [OF nxt(3,1,2)] Cons.prems(1) by simp
qed simp

lemma result_from_length:
  "no_overlap (length v) D P es \<Longrightarrow> D \<le> P \<Longrightarrow> P \<le> length v + D \<Longrightarrow>
    P + length (result_from v D P es) = length v + growth D es"
proof (induction es arbitrary: D P)
  case (Cons e es)
  note nxt = no_overlap_next [OF Cons.prems]
  have "min (length v + D - P) (md_offset e - P) = md_offset e - P" using Cons.prems(1) by (intro min_absorb2 diff_le_mono) simp
  then show ?case using Cons.IH [OF nxt(3,1,2)] Cons.prems by simp
qed simp

definition dest_start :: "nat \<Rightarrow> nat \<Rightarrow> wt_modify list \<Rightarrow> nat" where
  "dest_start n D es = (case es of [] \<Rightarrow> n + D | e # _ \<Rightarrow> md_offset e)"

lemma result_from_split:
  assumes "no_overlap (length v) D P es" and "D \<le> P" and "P \<le> length v + D"
  shows "result_from v D P es = take (dest_start (length v) D es - P) (drop (P - D) v) @
      drop (dest_start (length v) D es - P) (result_from v D P es)"
    and "P \<le> dest_start (length v) D es" and "dest_start (length v) D es \<le> length v + D"
    and "dest_start (length v) D es \<le> length v + growth D es"
proof -
  show "P \<le> dest_start (length v) D es" "dest_start (length v) D es \<le> length v + D"
    using assms by (auto simp: dest_start_def split: list.splits)
  show "dest_start (length v) D es \<le> length v + growth D es"
  proof (cases es)
    case (Cons e es')
    then have "md_offset e + length (md_data e) \<le> length v + growth D es"
      using growth_bound no_overlap_next [of "length v" D P e es'] assms by simp
    then show ?thesis by (simp add: dest_start_def Cons)
  qed (simp add: dest_start_def)
  show "result_from v D P es = take (dest_start (length v) D es - P) (drop (P - D) v) @
      drop (dest_start (length v) D es - P) (result_from v D P es)"
  proof (cases es)
    case (Cons e es')
    have "min (length v + D - P) (md_offset e - P) = md_offset e - P" using assms(1) Cons by (intro min_absorb2 diff_le_mono) simp
    then show ?thesis using assms(2) Cons by (simp add: dest_start_def)
  qed (simp add: dest_start_def)
qed

lemma no_overlap_loop_append:
  "no_overlap_loop (xs @ ys) mem src to =
     wt_ret (no_overlap_loop xs mem src to) (\<lambda>(mem, src, to). no_overlap_loop ys mem src to)"
proof (induction xs arbitrary: mem src to)
  case (Cons c cs)
  show ?case by (simp only: append_Cons no_overlap_loop.simps Let_def wt_ret_assoc Cons.IH)
qed simp

lemma no_overlap_step:
  assumes "no_overlap n D P (e # es)" and "D \<le> P" and "P \<le> n + D" and "n \<le> length mem"
  defines "D' \<equiv> D + length (md_data e) - md_size e" and "P' \<equiv> md_offset e + length (md_data e)"
  assumes "P' \<le> t" and "t \<le> n + D'" and "t \<le> length mem" and "length mem < 2 ^ 64" and "n + D' < 2 ^ 64"
  shows "\<exists>mem'. no_overlap_loop [e] mem (t - D') t = Inr (mem', md_offset e - D, md_offset e) \<and>
    length mem' = length mem \<and> take (md_offset e) mem' = take (md_offset e) mem \<and>
    drop (md_offset e) mem' = md_data e @ take (t - P') (drop (P' - D') mem) @ drop t mem"
proof -
  note nxt = no_overlap_next [OF assms(1-3), folded D'_def P'_def]
  have lt: "t < 2 ^ 64" "P' < 2 ^ 64" "P' - D' < 2 ^ 64" using assms nxt by auto
  have p: "sz_add (md_offset e) (length (md_data e)) = P'" using lt by (simp add: P'_def)
  have sz: "sz_sub t P' = t - P'" using assms lt by simp
  have src: "sz_sub (t - D') (t - P') = P' - D'" using nxt(1) assms(7) lt(1) by simp
  have to: "sz_sub t (t - P') = P'" using assms lt by simp
  have src': "sz_sub (P' - D') (md_size e) = md_offset e - D" using nxt lt by simp
  have to': "sz_sub P' (length (md_data e)) = md_offset e" using lt by (simp add: P'_def)
  define mem1 where "mem1 = take P' mem @ take (t - P') (drop (P' - D') mem) @ drop t mem"
  have len1: "length mem1 = length mem" using assms nxt by (simp add: mem1_def)
  have move: "(if P' \<noteq> P' - D' then mem_move mem P' (P' - D') (t - P') else Inr mem) = Inr mem1"
  proof (cases "P' \<noteq> P' - D'")
    case True
    then show ?thesis using assms nxt by (simp add: mem_move_def mem_copy_ok mem1_def)
  next
    case False
    moreover have "mem = take P' mem @ take (t - P') (drop P' mem) @ drop t mem"
      using assms(7) by (metis append_take_drop_id drop_drop le_add_diff_inverse2)
    ultimately show ?thesis by (simp add: mem1_def)
  qed
  define mem2 where "mem2 = take (md_offset e) mem1 @ md_data e @ drop P' mem1"
  have copy: "mem_copy mem1 (md_offset e) (md_data e) = Inr mem2"
    using assms(7,9) len1 by (simp add: mem_copy_ok mem2_def P'_def)
  have "no_overlap_loop [e] mem (t - D') t = Inr (mem2, md_offset e - D, md_offset e)"
    by (simp only: no_overlap_loop.simps Let_def p sz src to src' to' move copy wt_ret_simps)
  moreover have "length mem2 = length mem" using len1 assms(7,9) by (simp add: mem2_def P'_def)
  moreover have "take (md_offset e) mem2 = take (md_offset e) mem" using assms(7,9) by (simp add: mem2_def mem1_def P'_def)
  moreover have "drop (md_offset e) mem2 = md_data e @ take (t - P') (drop (P' - D') mem) @ drop t mem"
    using assms(7,9) by (simp add: mem2_def mem1_def P'_def)
  ultimately show ?thesis by blast
qed

lemma no_overlap_reverse:
  assumes "no_overlap n D P es" and "D \<le> P" and "P \<le> n + D" and "v = take n mem"
    and "n \<le> length mem" and "n + growth D es \<le> length mem" and "length mem < 2 ^ 64"
    and "n + D + data_bytes es < 2 ^ 64"
  shows "\<exists>mem'. no_overlap_loop (rev es) mem n (n + growth D es) = Inr (mem', dest_start n D es - D, dest_start n D es) \<and>
    length mem' = length mem \<and> take (dest_start n D es) mem' = take (dest_start n D es) mem \<and>
    take (n + growth D es - dest_start n D es) (drop (dest_start n D es) mem') = drop (dest_start n D es - P) (result_from v D P es)"
  using assms
proof (induction es arbitrary: D P)
  case Nil
  then show ?case by (simp add: dest_start_def)
next
  case (Cons e es)
  let ?d = "length (md_data e)" and ?o = "md_offset e" and ?g = "n + growth D (e # es)"
  define D' P' where "D' = D + ?d - md_size e" and "P' = ?o + ?d"
  define t where "t = dest_start n D' es"
  note nxt = no_overlap_next [OF Cons.prems(1-3), folded D'_def P'_def]
  have v: "length v = n" using Cons.prems(4,5) by simp
  have "n + D' + data_bytes es < 2 ^ 64" using Cons.prems(8) by (simp add: D'_def)
  then obtain mem1 where one: "no_overlap_loop (rev es) mem n ?g = Inr (mem1, t - D', t)" "length mem1 = length mem"
    "take t mem1 = take t mem" "take (?g - t) (drop t mem1) = drop (t - P') (result_from v D' P' es)"
    using Cons.IH [OF nxt(3,1,2) Cons.prems(4,5) _ Cons.prems(7)] Cons.prems(6) by (auto simp: D'_def t_def)
  note split = result_from_split [of v D' P' es, unfolded v, OF nxt(3,1,2), folded t_def]
  have t: "P' \<le> t" "t \<le> n + D'" "t \<le> ?g" using split by (simp_all add: D'_def)
  have "n \<le> length mem1" "t \<le> length mem1" "length mem1 < 2 ^ 64" "n + D' < 2 ^ 64"
    using Cons.prems(5-8) t one(2) by (simp_all add: D'_def)
  then obtain mem2 where two: "no_overlap_loop [e] mem1 (t - D') t = Inr (mem2, ?o - D, ?o)" "length mem2 = length mem1"
    "take ?o mem2 = take ?o mem1" "drop ?o mem2 = md_data e @ take (t - P') (drop (P' - D') mem1) @ drop t mem1"
    using no_overlap_step [OF Cons.prems(1-3), of mem1 t] t unfolding D'_def P'_def by blast
  have low: "take k (drop j mem1) = take k (drop j v)" if "j + k \<le> t" "j + k \<le> n" for j k
  proof -
    have "take k (drop j mem1) = drop j (take (j + k) (take t mem1))" using that by (simp add: take_drop min_absorb1 add.commute)
    also have "\<dots> = drop j (take (j + k) mem)" using that one(3) by (simp add: min_absorb1)
    also have "\<dots> = take k (drop j v)" using that Cons.prems(4) by (simp add: take_drop min_absorb1 add.commute)
    finally show ?thesis .
  qed
  have "take ?o mem1 = take ?o (take t mem1)" using t by (simp add: P'_def min_absorb1)
  then have below: "take ?o mem1 = take ?o mem" using t one(3) by (simp add: P'_def min_absorb1)
  have seg: "take (t - P') (drop (P' - D') mem1) = take (t - P') (drop (P' - D') v)"
    using t nxt by (intro low) auto
  have "take (?g - ?o) (drop ?o mem2) = md_data e @ take (t - P') (drop (P' - D') v) @ take (?g - t) (drop t mem1)"
  proof -
    have "length (take (t - P') (drop (P' - D') v)) = t - P'" using t nxt v by simp
    then show ?thesis using t unfolding two(4) seg by (simp add: P'_def)
  qed
  also have "\<dots> = md_data e @ result_from v D' P' es" unfolding one(4) using split(1) by simp
  also have "\<dots> = drop (?o - P) (result_from v D P (e # es))"
  proof -
    have "min (n + D - P) (?o - P) = ?o - P" using Cons.prems(1) by (intro min_absorb2 diff_le_mono) simp
    then show ?thesis using Cons.prems(2) v by (simp add: D'_def P'_def)
  qed
  finally have "take (?g - ?o) (drop ?o mem2) = drop (?o - P) (result_from v D P (e # es))" .
  then show ?case
    using one(1,2) two(1-3) below by (simp add: no_overlap_loop_append dest_start_def)
qed

lemma growth_le: "growth D es \<le> D + data_bytes es"
proof (induction es arbitrary: D)
  case (Cons e es)
  show ?case using Cons.IH [of "D + length (md_data e) - md_size e"] by simp
qed simp

lemma data_bytes_bound: "data_bytes es \<le> sum_list (map entry_bound es)"
  by (induction es) (simp_all add: entry_bound_def)

lemma apply_no_overlap_spec:
  assumes "no_overlap (it_size it) 0 0 es2" and "es2 \<noteq> []" and "item_ok sf it"
    and "it_size it + growth 0 es2 + of_bool sf \<le> length (it_mem it)" and "length (it_mem it) < 2 ^ 64"
    and "it_size it + data_bytes (es1 @ es2) < 2 ^ 64"
  shows "\<exists>it'. modify_apply_no_overlap (wt_modify_pack (es1 @ es2)) (length es1) (data_bytes (es1 @ es2))
      (it_size it + growth 0 es2) it = Inr it' \<and> item_ok sf it' \<and>
    item_value it' = apply_entries pad es2 (item_value it)"
proof -
  let ?es = "es1 @ es2" and ?v = "item_value it" and ?n = "it_size it" and ?g = "it_size it + growth 0 es2"
  have v: "length ?v = ?n" using assms(3) by (rule item_ok_length)
  have "modify_foreach_reverse (length es2) (pack_sizes ?es) (concat (map md_data ?es)) (3 * length ?es) (data_bytes ?es)
      = take (length es2) (rev ?es)"
    using modify_foreach_reverse_pack [of "length es2" ?es "[]" "[]"] by simp
  then have rev: "modify_foreach_reverse (length ?es - length es1) (pack_sizes ?es) (concat (map md_data ?es))
      (3 * length ?es) (data_bytes ?es) = rev es2" by simp
  have db: "?n + data_bytes es2 < 2 ^ 64" using assms(6) by simp
  obtain mem' where mem': "no_overlap_loop (rev es2) (it_mem it) ?n ?g = Inr (mem', dest_start ?n 0 es2 - 0, dest_start ?n 0 es2)"
    "length mem' = length (it_mem it)" "take (dest_start ?n 0 es2) mem' = take (dest_start ?n 0 es2) (it_mem it)"
    "take (?g - dest_start ?n 0 es2) (drop (dest_start ?n 0 es2) mem') = drop (dest_start ?n 0 es2 - 0) (result_from ?v 0 0 es2)"
    using no_overlap_reverse [OF assms(1) _ _ item_value_def, unfolded Nat.add_0_right] assms(3-6) db by (auto simp: item_ok_def)
  note split = result_from_split [of ?v 0 0 es2, unfolded v, OF assms(1), simplified]
  have "take ?g mem' = take (dest_start ?n 0 es2) mem' @ take (?g - dest_start ?n 0 es2) (drop (dest_start ?n 0 es2) mem')"
    using take_add [of "dest_start ?n 0 es2" "?g - dest_start ?n 0 es2" mem'] split(4) by simp
  also have "\<dots> = take (dest_start ?n 0 es2) ?v @ drop (dest_start ?n 0 es2) (result_from ?v 0 0 es2)"
    using mem'(3,4) split(3) by (simp add: item_value_def min_absorb1)
  also have "\<dots> = result_from ?v 0 0 es2" using split(1) by simp
  also have "\<dots> = apply_entries pad es2 ?v" using result_from_apply [of ?v 0 0 es2 "[]" pad] assms(1) v by simp
  finally have "take ?g mem' = apply_entries pad es2 ?v" .
  moreover have "modify_apply_no_overlap (wt_modify_pack ?es) (length es1) (data_bytes ?es) ?g it =
      Inr (it\<lparr>it_mem := mem', it_size := ?g\<rparr>)"
    by (simp only: modify_apply_no_overlap_def Let_def wt_modify_pack_def packed_modify.simps list.sel rev mem'(1)
        wt_ret_simps prod.case)
  ultimately show ?thesis using mem'(2) assms(4) by (simp add: item_ok_def item_value_def)
qed

definition modified_value :: "bool \<Rightarrow> u8 \<Rightarrow> wt_modify list \<Rightarrow> u8 list \<Rightarrow> u8 list" where
  "modified_value sformat pad_byte es v =
     (if sformat then apply_entries 32 es (butlast v) @ [0] else apply_entries pad_byte es v)"

lemma modify_apply_item_spec:
  assumes "it_size it0 \<le> length (it_mem it0)" and "length (it_mem it0) < 2 ^ 64" and "sf \<Longrightarrow> 0 < it_size it0"
    and "2 * (it_size it0 + sum_list (map entry_bound es)) + 2 < 2 ^ 64"
  shows "\<exists>it'. wt_modify_apply_item sf pad_byte (wt_modify_pack es) it0 = Inr it' \<and> item_ok False it' \<and>
    item_value it' = modified_value sf pad_byte es (item_value it0)"
proof -
  let ?pad = "pad_of sf pad_byte"
  define it where "it = (if sf then it0\<lparr>it_size := it_size it0 - 1\<rparr> else it0)"
  have grow: "wt_buf_grow (it_size it0) it0 = it0" using assms(1) by (simp add: wt_buf_grow_def)
  have it: "(if sf then it0\<lparr>it_size := sz_sub (it_size it0) 1\<rparr> else it0) = it"
    using assms(3,4) by (cases sf) (simp_all add: it_def Suc_le_eq)
  have mem: "it_mem it = it_mem it0" and ok: "item_ok sf it" and n: "it_size it \<le> it_size it0"
    using assms(1,3) by (auto simp: it_def item_ok_def)
  have val: "item_value it = (if sf then butlast (item_value it0) else item_value it0)"
    using assms(1) by (simp add: it_def item_value_def butlast_take)
  define st where "st = \<lparr>fp_mem = it_mem it, fp_applied = 0, fp_datasz = 0, fp_destoff = 0,
         fp_fastpath = True, fp_first = True, fp_prev = no_modify, fp_current = no_modify\<rparr>"
  have st: "fp_fastpath st" "fp_first st" "fp_mem st = it_mem it" "fp_applied st = 0" "fp_datasz st = 0" by (simp_all add: st_def)
  have db: "data_bytes es \<le> sum_list (map entry_bound es)" by (rule data_bytes_bound)
  have size1: "2 * (it_size it + sum_list (map entry_bound es)) < 2 ^ 64" and size2: "data_bytes es < 2 ^ 64"
    using assms(4) db n by simp_all
  have room: "it_size it \<le> length (it_mem it)" using ok by (simp add: item_ok_def)
  obtain ov st' es1 es2 where fp: "fast_path_loop (it_size it) es st = Inr (ov, st')" and es: "es = es1 @ es2"
    and ap: "fp_applied st' = length es1" and ln: "length (fp_mem st') = length (it_mem it)"
    and tk: "take (it_size it) (fp_mem st') = apply_entries ?pad es1 (take (it_size it) (it_mem it))"
    and no: "\<not> ov \<and> es2 \<noteq> [] \<longrightarrow> no_overlap (it_size it) 0 0 es2 \<and> fp_datasz st' = data_bytes es \<and>
        dest_size (it_size it) st' = it_size it + growth 0 es2"
    using fast_path_spec [of st "it_size it" es ?pad, unfolded st(3-5) add_0, OF st(1,2) room size1 size2] by blast
  define itf where "itf = it\<lparr>it_mem := fp_mem st'\<rparr>"
  have itf: "item_ok sf itf" "item_value itf = apply_entries ?pad es1 (item_value it)" "it_size itf = it_size it"
    using ok ln tk by (simp_all add: itf_def item_ok_def item_value_def)
  define rest where "rest = (if length es1 = length es then Inr itf
     else case (if ov then None else Some (fp_datasz st', dest_size (it_size it) st')) of
       Some (datasz, destsz) \<Rightarrow> modify_apply_no_overlap (wt_modify_pack es) (length es1) datasz destsz
         (wt_buf_grow (sz_add (max destsz (it_size itf)) (if sf then 1 else 0)) itf)
     | None \<Rightarrow> fold_result (\<lambda>it e. modify_apply_one sf pad_byte e it) (drop (length es1) es) itf)"
  have one: "wt_modify_apply_item sf pad_byte (wt_modify_pack es) it0 = wt_ret rest (\<lambda>it.
      if sf then wt_ret (mem_copy (it_mem it) (it_size it) [0]) (\<lambda>mem. Inr (it\<lparr>it_mem := mem, it_size := it_size it + 1\<rparr>))
      else Inr it)"
    unfolding wt_modify_apply_item_def Let_def grow it modify_fast_path_def entries_of_pack st_def [symmetric] fp
    by (simp add: itf_def [symmetric] ap rest_def dest_size_def [symmetric] wt_modify_pack_def)
  have "\<exists>itr. rest = Inr itr \<and> item_ok sf itr \<and> item_value itr = apply_entries ?pad es (item_value it)"
  proof (cases "es2 = []")
    case True
    then show ?thesis using itf by (simp add: rest_def es)
  next
    case False
    show ?thesis
    proof (cases ov)
      case True
      have "\<exists>itr. fold_result (\<lambda>it e. modify_apply_one sf pad_byte e it) es2 itf = Inr itr \<and> item_ok sf itr \<and>
        item_value itr = apply_entries ?pad es2 (item_value itf)"
        using assms(4) n by (intro apply_each_spec [OF itf(1)]) (simp add: es itf(3))
      then show ?thesis using True False itf(2) by (simp add: rest_def es)
    next
      case ov: False
      let ?g = "it_size it + growth 0 es2"
      let ?buf = "wt_buf_grow (sz_add (max ?g (it_size itf)) (if sf then 1 else 0)) itf"
      have g: "?g \<le> it_size it + data_bytes es" using growth_le [of 0 es2] by (simp add: es)
      have b: "max ?g (it_size itf) + (if sf then 1 else 0) < 2 ^ 64" using g db n assms(4) itf(3) by auto
      have bok: "item_ok sf ?buf" "it_size ?buf = it_size it" "item_value ?buf = item_value itf"
        using itf by (simp_all add: wt_buf_grow_ok)
      have "length (it_mem ?buf) = max (max ?g (it_size it) + of_bool sf) (length (it_mem it))"
        using b itf(3) ln by (simp add: itf_def)
      then have "?g + of_bool sf \<le> length (it_mem ?buf)" "length (it_mem ?buf) < 2 ^ 64"
        using b assms(2) mem itf(3) by (auto split: if_splits)
      then obtain itr where "modify_apply_no_overlap (wt_modify_pack (es1 @ es2)) (length es1) (data_bytes (es1 @ es2)) ?g ?buf = Inr itr"
        "item_ok sf itr" "item_value itr = apply_entries ?pad es2 (item_value ?buf)"
        using apply_no_overlap_spec [of ?buf es2 sf es1 ?pad, unfolded bok(2)] no ov False bok db n assms(4) es by auto
      then show ?thesis using ov False no itf(2) bok(3) by (simp add: rest_def es)
    qed
  qed
  then obtain itr where r: "rest = Inr itr" "item_ok sf itr" "item_value itr = apply_entries ?pad es (item_value it)" by blast
  show ?thesis
  proof (cases sf)
    case True
    have "length (apply_entries ?pad es (item_value it)) = it_size itr" using item_ok_length [OF r(2)] r(3) by simp
    with True show ?thesis using r val unfolding one modified_value_def pad_of_def item_value_def
      by (simp add: mem_copy_ok item_ok_def)
  next
    case False
    then show ?thesis using r val unfolding one modified_value_def pad_of_def by simp
  qed
qed

subsection \<open>Properties\<close>

text \<open>
  A size past the end that makes \<open>offset + size\<close> wrap is not cut down to the value, and the
  trailing bytes are moved past the memory.
\<close>

lemma modify_nonsense_size:
  "modify_apply_one False 0 \<lparr>md_data = [7], md_offset = 1, md_size = 2 ^ 64 - 1\<rparr> \<lparr>it_mem = [1, 2, 3, 4], it_size = 4\<rparr>
     = Inl OutOfBounds"
  by (simp add: modify_apply_one_def Let_def wt_buf_grow_def sz_add_def sz_sub_def mem_move_def mem_copy_def)

text \<open>
  C18: Applying a list of modifications to a value (the entries packed, some of them written in place, the
  rest in one backward pass when they are sorted and apart, and one at a time otherwise) returns without an
  error the value with the entries applied one after the other, the gaps padded; a string keeps its
  terminating nul.
\<close>

theorem modify_apply_exact:
  assumes "it_size it \<le> length (it_mem it)" and "length (it_mem it) < 2 ^ 64"
    and "sformat \<Longrightarrow> 0 < it_size it"
    and "2 * (it_size it + sum_list (map entry_bound entries)) + 2 < 2 ^ 64"
  shows "\<exists>it'. wt_modify_apply_api sformat pad_byte entries it = Inr it' \<and> it_size it' \<le> length (it_mem it') \<and>
    item_value it' = modified_value sformat pad_byte entries (item_value it)"
  using modify_apply_item_spec [OF assms] by (simp add: wt_modify_apply_api_def item_ok_def)

definition demo_item :: wt_item where
  "demo_item = \<lparr>it_mem = [10, 11, 12, 13, 14, 0], it_size = 6\<rparr>"

definition demo_entries :: "wt_modify list" where
  "demo_entries = [\<lparr>md_data = [1], md_offset = 0, md_size = 1\<rparr>, \<lparr>md_data = [2, 3], md_offset = 1, md_size = 0\<rparr>,
     \<lparr>md_data = [4], md_offset = 4, md_size = 1\<rparr>]"

lemma modify_apply_exact_witness:
  "\<exists>it'. wt_modify_apply_api True 0 demo_entries demo_item = Inr it' \<and> it_size it' \<le> length (it_mem it') \<and>
    item_value it' = [1, 2, 3, 11, 4, 13, 14, 0]"
proof -
  have v: "modified_value True 0 demo_entries (item_value demo_item) = [1, 2, 3, 11, 4, 13, 14, 0]" by code_simp
  show ?thesis unfolding v [symmetric]
    by (rule modify_apply_exact) (simp_all add: demo_item_def demo_entries_def entry_bound_def)
qed

end
