(* ===== verification/RWLock.thy ===== *)
theory RWLock
  imports Wt_Prelude
begin

text \<open>
  The read/write ticket lock of \<open>src/support/mtx_rw.c\<close>. The lock is one 64-bit value read and replaced
  atomically: an operation reads it (\<open>old\<close>), computes the value that replaces it and stores that with a
  compare-and-swap. The operations are functions of the value they read and the value the swap finds; a
  step relation interleaves them between any number of threads, each with its place in the code.
  Waiting on a condition variable only delays a thread (the waits time out and the condition is tested
  again), so waits are steps that are not yet possible; statistics are not modelled.
\<close>

record rwlock =
  rw_current :: u8
  rw_next :: u8
  rw_reader :: u8
  rw_readers_queued :: u8
  rw_readers_active :: u32

definition wt_rwlock_init :: rwlock where
  "wt_rwlock_init = \<lparr>rw_current = 0, rw_next = 0, rw_reader = 0, rw_readers_queued = 0, rw_readers_active = 0\<rparr>"

definition wt_atomic_casv64 :: "rwlock \<Rightarrow> rwlock \<Rightarrow> rwlock \<Rightarrow> bool \<times> rwlock" where
  "wt_atomic_casv64 l old new = (if l = old then (True, new) else (False, l))"

definition add_reader :: "rwlock \<Rightarrow> rwlock" where
  "add_reader l = l\<lparr>rw_readers_active := rw_readers_active l + 1\<rparr>"

definition wt_try_readlock :: "rwlock \<Rightarrow> rwlock \<Rightarrow> unit result \<times> rwlock" where
  "wt_try_readlock old l =
     (if rw_current old \<noteq> rw_next old then (Inl EBUSY, l)
      else let new = add_reader old in
        if rw_readers_active new = 0 then (Inl EBUSY, l)
        else let (ok, l) = wt_atomic_casv64 l old new in ((if ok then Inr () else Inl EBUSY), l))"

definition read_blocked :: "u8 \<Rightarrow> rwlock \<Rightarrow> bool" where
  "read_blocked ticket l \<longleftrightarrow> ticket \<noteq> rw_current l"

text \<open>
  One round of \<open>__wt_readlock\<close>: the lock is held, a ticket was taken, or the loop goes round again (after a
  wait, or because the swap failed). The difference of the two 8-bit tickets is signed.
\<close>

datatype readlock_round = ReadHeld | ReadTicket u8 | ReadAgain

definition queue_reader :: "rwlock \<Rightarrow> rwlock" where
  "queue_reader old =
     old\<lparr>rw_readers_queued := rw_readers_queued old + 1,
         rw_reader := (if rw_readers_queued old = 0 then rw_next old else rw_reader old)\<rparr>"

definition wt_readlock_round :: "rwlock \<Rightarrow> rwlock \<Rightarrow> readlock_round \<times> rwlock" where
  "wt_readlock_round old l =
     (if rw_current old = rw_next old then
        let new = add_reader old in
        if rw_readers_active new = 0 then (ReadAgain, l)
        else let (ok, l) = wt_atomic_casv64 l old new in ((if ok then ReadHeld else ReadAgain), l)
      else
        let writers_active = uint (rw_next old) - uint (rw_current old) in
        if rw_readers_queued old = 255 \<or> uint (rw_readers_queued old) > writers_active then (ReadAgain, l)
        else
          let new = queue_reader old; ticket = rw_reader new; (ok, l) = wt_atomic_casv64 l old new in
          ((if ok then ReadTicket ticket else ReadAgain), l))"

definition wt_readunlock_round :: "rwlock \<Rightarrow> rwlock \<Rightarrow> bool \<times> rwlock" where
  "wt_readunlock_round old l = wt_atomic_casv64 l old (old\<lparr>rw_readers_active := rw_readers_active old - 1\<rparr>)"

definition wt_try_writelock :: "rwlock \<Rightarrow> rwlock \<Rightarrow> unit result \<times> rwlock" where
  "wt_try_writelock old l =
     (if rw_current old \<noteq> rw_next old \<or> rw_readers_active old \<noteq> 0 then (Inl EBUSY, l)
      else let (ok, l) = wt_atomic_casv64 l old (old\<lparr>rw_next := rw_next old + 1\<rparr>) in
        ((if ok then Inr () else Inl EBUSY), l))"

definition write_blocked :: "u8 \<Rightarrow> rwlock \<Rightarrow> bool" where
  "write_blocked ticket l \<longleftrightarrow> ticket \<noteq> rw_current l \<or> rw_readers_active l \<noteq> 0"

text \<open>One round of the loop that takes a ticket, and the ticket.\<close>

definition wt_writelock_round :: "rwlock \<Rightarrow> rwlock \<Rightarrow> u8 option \<times> rwlock" where
  "wt_writelock_round old l =
     (let ticket = rw_next old; new = old\<lparr>rw_next := rw_next old + 1\<rparr> in
      if rw_current new = rw_next new then (None, l)
      else let (ok, l) = wt_atomic_casv64 l old new in ((if ok then Some ticket else None), l))"

definition next_batch :: "rwlock \<Rightarrow> rwlock" where
  "next_batch old =
     (let new = old\<lparr>rw_current := rw_current old + 1\<rparr> in
      if rw_current new = rw_reader new
      then new\<lparr>rw_readers_active := ucast (rw_readers_queued new), rw_readers_queued := 0\<rparr>
      else new)"

definition wt_writeunlock_round :: "rwlock \<Rightarrow> rwlock \<Rightarrow> bool \<times> rwlock" where
  "wt_writeunlock_round old l = wt_atomic_casv64 l old (next_batch old)"

definition wt_rwlock_islocked :: "rwlock \<Rightarrow> bool" where
  "wt_rwlock_islocked l \<longleftrightarrow> rw_current l \<noteq> rw_next l \<or> rw_readers_active l \<noteq> 0"

subsection \<open>Threads\<close>

text \<open>Where a thread is: the value it has read is with the place where it will swap.\<close>

datatype place = Idle | TryRead rwlock | ReadStart | ReadSwap rwlock | ReadWait u8 | Reading | ReadUnlock rwlock
  | TryWrite rwlock | WriteStart | WriteSwap rwlock | WriteWait u8 | Writing u8 | WriteUnlock u8 rwlock

record rw_sys =
  sy_lock :: rwlock
  sy_at :: "place list"

definition go :: "nat \<Rightarrow> place \<Rightarrow> rwlock \<Rightarrow> rw_sys \<Rightarrow> rw_sys" where
  "go i p l y = \<lparr>sy_lock = l, sy_at = (sy_at y)[i := p]\<rparr>"

text \<open>The next step of a thread; an idle thread starts what it wants.\<close>

inductive rw_step :: "rw_sys \<Rightarrow> rw_sys \<Rightarrow> bool" where
  start: "i < length (sy_at y) \<Longrightarrow> sy_at y ! i = Idle \<Longrightarrow> p \<in> {TryRead l, ReadStart, TryWrite l, WriteStart} \<Longrightarrow>
    l = sy_lock y \<Longrightarrow> rw_step y (go i p l y)"
| try_read: "i < length (sy_at y) \<Longrightarrow> sy_at y ! i = TryRead old \<Longrightarrow> wt_try_readlock old (sy_lock y) = (r, l) \<Longrightarrow>
    rw_step y (go i (if isl r then Idle else Reading) l y)"
| read_look: "i < length (sy_at y) \<Longrightarrow> sy_at y ! i = ReadStart \<Longrightarrow> rw_step y (go i (ReadSwap (sy_lock y)) (sy_lock y) y)"
| read_swap: "i < length (sy_at y) \<Longrightarrow> sy_at y ! i = ReadSwap old \<Longrightarrow> wt_readlock_round old (sy_lock y) = (r, l) \<Longrightarrow>
    rw_step y (go i (case r of ReadHeld \<Rightarrow> Reading | ReadTicket t \<Rightarrow> ReadWait t | ReadAgain \<Rightarrow> ReadStart) l y)"
| read_enter: "i < length (sy_at y) \<Longrightarrow> sy_at y ! i = ReadWait t \<Longrightarrow> \<not> read_blocked t (sy_lock y) \<Longrightarrow>
    rw_step y (go i Reading (sy_lock y) y)"
| read_leave: "i < length (sy_at y) \<Longrightarrow> sy_at y ! i = Reading \<Longrightarrow> rw_step y (go i (ReadUnlock (sy_lock y)) (sy_lock y) y)"
| read_unlock: "i < length (sy_at y) \<Longrightarrow> sy_at y ! i = ReadUnlock old \<Longrightarrow> wt_readunlock_round old (sy_lock y) = (ok, l) \<Longrightarrow>
    rw_step y (go i (if ok then Idle else Reading) l y)"
| try_write: "i < length (sy_at y) \<Longrightarrow> sy_at y ! i = TryWrite old \<Longrightarrow> wt_try_writelock old (sy_lock y) = (r, l) \<Longrightarrow>
    rw_step y (go i (if isl r then Idle else Writing (rw_next old)) l y)"
| write_look: "i < length (sy_at y) \<Longrightarrow> sy_at y ! i = WriteStart \<Longrightarrow> rw_step y (go i (WriteSwap (sy_lock y)) (sy_lock y) y)"
| write_swap: "i < length (sy_at y) \<Longrightarrow> sy_at y ! i = WriteSwap old \<Longrightarrow> wt_writelock_round old (sy_lock y) = (r, l) \<Longrightarrow>
    rw_step y (go i (case r of Some t \<Rightarrow> WriteWait t | None \<Rightarrow> WriteStart) l y)"
| write_enter: "i < length (sy_at y) \<Longrightarrow> sy_at y ! i = WriteWait t \<Longrightarrow> \<not> write_blocked t (sy_lock y) \<Longrightarrow>
    rw_step y (go i (Writing t) (sy_lock y) y)"
| write_leave: "i < length (sy_at y) \<Longrightarrow> sy_at y ! i = Writing t \<Longrightarrow> rw_step y (go i (WriteUnlock t (sy_lock y)) (sy_lock y) y)"
| write_unlock: "i < length (sy_at y) \<Longrightarrow> sy_at y ! i = WriteUnlock t old \<Longrightarrow> wt_writeunlock_round old (sy_lock y) = (ok, l) \<Longrightarrow>
    rw_step y (go i (if ok then Idle else Writing t) l y)"

definition rw_start :: "nat \<Rightarrow> rw_sys" where
  "rw_start n = \<lparr>sy_lock = wt_rwlock_init, sy_at = replicate n Idle\<rparr>"

inductive rw_reach :: "nat \<Rightarrow> rw_sys \<Rightarrow> bool" for n where
  start: "rw_reach n (rw_start n)"
| step: "rw_reach n y \<Longrightarrow> rw_step y y' \<Longrightarrow> rw_reach n y'"

subsection \<open>The swaps that succeed\<close>

lemma casv64_cases:
  "wt_atomic_casv64 l old new = (ok, l') \<longleftrightarrow> \<not> ok \<and> l \<noteq> old \<and> l' = l \<or> ok \<and> l = old \<and> l' = new"
  by (auto simp: wt_atomic_casv64_def)

lemma casv64_if:
  "wt_atomic_casv64 l old new = (l = old, if l = old then new else l)"
  by (simp add: wt_atomic_casv64_def)

lemma try_readlock_cases:
  assumes "wt_try_readlock old l = (r, l')"
  shows "isl r \<and> l' = l \<or> \<not> isl r \<and> l' = add_reader l \<and> rw_current l = rw_next l \<and> rw_readers_active l + 1 \<noteq> 0"
proof (cases "l = old \<and> rw_current l = rw_next l \<and> rw_readers_active l + 1 \<noteq> 0")
  case True
  then show ?thesis using assms by (auto simp: wt_try_readlock_def Let_def casv64_if add_reader_def)
next
  case False
  then have "isl r \<and> l' = l" using assms by (auto simp: wt_try_readlock_def Let_def casv64_if add_reader_def split: if_splits)
  then show ?thesis by blast
qed

lemma readlock_round_cases:
  assumes "wt_readlock_round old l = (r, l')"
  shows "r = ReadAgain \<and> l' = l
    \<or> r = ReadHeld \<and> l' = add_reader l \<and> rw_current l = rw_next l \<and> rw_readers_active l + 1 \<noteq> 0
    \<or> r = ReadTicket (rw_reader l') \<and> l' = queue_reader l \<and> rw_current l \<noteq> rw_next l \<and> rw_readers_queued l \<noteq> 255"
proof -
  have act: "rw_readers_active (add_reader old) = rw_readers_active old + 1" by (simp add: add_reader_def)
  consider "l \<noteq> old" | "l = old" "rw_current old = rw_next old" | "l = old" "rw_current old \<noteq> rw_next old" by blast
  then show ?thesis
  proof cases
    case 1
    then have "r = ReadAgain \<and> l' = l" using assms by (auto simp: wt_readlock_round_def Let_def casv64_if split: if_splits)
    then show ?thesis by blast
  next
    case 2
    then show ?thesis using assms by (cases "rw_readers_active old + 1 = 0") (simp_all add: wt_readlock_round_def Let_def casv64_if act)
  next
    case 3
    then show ?thesis using assms
      by (cases "rw_readers_queued old = 255 \<or> uint (rw_readers_queued old) > uint (rw_next old) - uint (rw_current old)")
        (auto simp: wt_readlock_round_def Let_def casv64_if)
  qed
qed

lemma readunlock_round_cases:
  assumes "wt_readunlock_round old l = (ok, l')"
  shows "\<not> ok \<and> l' = l \<or> ok \<and> l' = l\<lparr>rw_readers_active := rw_readers_active l - 1\<rparr>"
  using assms unfolding wt_readunlock_round_def casv64_cases by blast

lemma try_writelock_cases:
  assumes "wt_try_writelock old l = (r, l')"
  shows "isl r \<and> l' = l \<or> \<not> isl r \<and> old = l \<and> l' = l\<lparr>rw_next := rw_next l + 1\<rparr> \<and> rw_current l = rw_next l \<and> rw_readers_active l = 0"
proof (cases "rw_current old \<noteq> rw_next old \<or> rw_readers_active old \<noteq> 0 \<or> l \<noteq> old")
  case True
  then have "isl r \<and> l' = l" using assms by (auto simp: wt_try_writelock_def Let_def casv64_if split: if_splits)
  then show ?thesis by blast
next
  case False
  then show ?thesis using assms by (auto simp: wt_try_writelock_def Let_def casv64_if)
qed

lemma writelock_round_cases:
  assumes "wt_writelock_round old l = (r, l')"
  shows "r = None \<and> l' = l \<or> r = Some (rw_next l) \<and> l' = l\<lparr>rw_next := rw_next l + 1\<rparr> \<and> rw_current l \<noteq> rw_next l + 1"
proof (cases "rw_current old = rw_next old + 1 \<or> l \<noteq> old")
  case True
  then have "r = None \<and> l' = l" using assms by (auto simp: wt_writelock_round_def Let_def casv64_if split: if_splits)
  then show ?thesis by blast
next
  case False
  then show ?thesis using assms by (simp add: wt_writelock_round_def Let_def casv64_if)
qed

lemma writeunlock_round_cases:
  assumes "wt_writeunlock_round old l = (ok, l')"
  shows "\<not> ok \<and> l' = l \<or> ok \<and> l' = next_batch l"
  using assms unfolding wt_writeunlock_round_def casv64_cases by blast

subsection \<open>Distances between tickets\<close>

definition dist :: "rwlock \<Rightarrow> u8 \<Rightarrow> nat" where
  "dist l t = unat (t - rw_current l)"

definition pending :: "rwlock \<Rightarrow> nat" where
  "pending l = dist l (rw_next l)"

lemma unat_plus_one:
  assumes "(x :: 'a :: len word) + 1 \<noteq> 0"
  shows "unat (x + 1) = unat x + 1"
proof -
  have "1 + x \<noteq> 0" using assms by (simp add: add.commute)
  then have "unat (1 + x) = Suc (unat x)" by (rule unatSuc)
  then show ?thesis by (simp add: add.commute)
qed

lemma next_batch_simps [simp]:
  "rw_current (next_batch l) = rw_current l + 1" "rw_next (next_batch l) = rw_next l" "rw_reader (next_batch l) = rw_reader l"
  by (simp_all add: next_batch_def Let_def)

lemma pending_next:
  assumes "rw_current l \<noteq> rw_next l + 1"
  shows "pending (l\<lparr>rw_next := rw_next l + 1\<rparr>) = pending l + 1"
    and "dist l t < pending l + 1 \<longleftrightarrow> dist l t < pending l \<or> t = rw_next l"
proof -
  have eq: "rw_next l + 1 - rw_current l = rw_next l - rw_current l + 1" by (simp only: diff_add_eq)
  have "rw_next l + 1 - rw_current l \<noteq> 0" using assms by simp
  then have "rw_next l - rw_current l + 1 \<noteq> 0" unfolding eq .
  from unat_plus_one [OF this] show "pending (l\<lparr>rw_next := rw_next l + 1\<rparr>) = pending l + 1"
    unfolding pending_def dist_def by (simp add: eq)
  have "dist l t = pending l \<longleftrightarrow> t - rw_current l = rw_next l - rw_current l" unfolding dist_def pending_def by (rule word_unat_eq_iff [symmetric])
  then have "dist l t = pending l \<longleftrightarrow> t = rw_next l" by simp
  then show "dist l t < pending l + 1 \<longleftrightarrow> dist l t < pending l \<or> t = rw_next l" by (auto simp: less_Suc_eq)
qed

lemma dist_next_batch:
  assumes "t \<noteq> rw_current l"
  shows "dist (next_batch l) t = dist l t - 1" and "0 < dist l t"
proof -
  have ne: "t - rw_current l \<noteq> 0" using assms by simp
  have "t - (rw_current l + 1) = t - rw_current l - 1" by (simp only: diff_diff_add)
  then show "dist (next_batch l) t = dist l t - 1"
    unfolding dist_def next_batch_simps using unat_minus_one [OF ne] by (simp only:)
  show "0 < dist l t" using ne unsigned_eq_0_iff [of "t - rw_current l"] unfolding dist_def by (metis gr0I)
qed

lemma dist_simps [simp]:
  "dist (l\<lparr>rw_next := n\<rparr>) t = dist l t" "dist (add_reader l) t = dist l t" "dist (queue_reader l) t = dist l t"
  "dist (l\<lparr>rw_readers_active := a\<rparr>) t = dist l t"
  "pending (add_reader l) = pending l" "pending (queue_reader l) = pending l" "pending (l\<lparr>rw_readers_active := a\<rparr>) = pending l"
  by (simp_all add: dist_def pending_def add_reader_def queue_reader_def)

subsection \<open>The invariant\<close>

text \<open>The ticket of a thread that waits for or has the write lock; the threads that count as active or as queued readers.\<close>

fun write_ticket :: "place \<Rightarrow> u8 option" where
  "write_ticket (WriteWait t) = Some t"
| "write_ticket (Writing t) = Some t"
| "write_ticket (WriteUnlock t old) = Some t"
| "write_ticket _ = None"

fun reads :: "u8 \<Rightarrow> place \<Rightarrow> bool" where
  "reads c (ReadWait t) \<longleftrightarrow> t = c"
| "reads c Reading \<longleftrightarrow> True"
| "reads c (ReadUnlock old) \<longleftrightarrow> True"
| "reads c _ \<longleftrightarrow> False"

fun queued :: "u8 \<Rightarrow> place \<Rightarrow> bool" where
  "queued c (ReadWait t) \<longleftrightarrow> t \<noteq> c"
| "queued c _ \<longleftrightarrow> False"

fun place_ok :: "rwlock \<Rightarrow> place \<Rightarrow> bool" where
  "place_ok l (ReadWait t) \<longleftrightarrow> t = rw_current l \<or> t = rw_reader l"
| "place_ok l (Writing t) \<longleftrightarrow> t = rw_current l \<and> rw_readers_active l = 0"
| "place_ok l (WriteUnlock t old) \<longleftrightarrow> t = rw_current l \<and> rw_readers_active l = 0"
| "place_ok l _ \<longleftrightarrow> True"

definition count_of :: "('a \<Rightarrow> bool) \<Rightarrow> 'a list \<Rightarrow> nat" where
  "count_of P xs = length (filter P xs)"

lemma count_update:
  "i < length xs \<Longrightarrow> count_of P (xs[i := x]) + of_bool (P (xs ! i)) = count_of P xs + of_bool (P x)"
proof (induction xs arbitrary: i)
  case (Cons y ys)
  then show ?case by (cases i) (auto simp: count_of_def)
qed simp

lemma count_pos: "p \<in> set xs \<Longrightarrow> P p \<Longrightarrow> 0 < count_of P xs"
  by (auto simp: count_of_def filter_empty_conv)

lemma count_posD: "0 < count_of P xs \<Longrightarrow> \<exists>p\<in>set xs. P p"
  by (auto simp: count_of_def filter_empty_conv)

lemma count_cong: "(\<And>p. p \<in> set xs \<Longrightarrow> P p = Q p) \<Longrightarrow> count_of P xs = count_of Q xs"
  by (simp add: count_of_def cong: filter_cong)

definition rw_inv :: "rwlock \<Rightarrow> place list \<Rightarrow> bool" where
  "rw_inv l ps \<longleftrightarrow>
     (\<forall>t. count_of (\<lambda>p. write_ticket p = Some t) ps = of_bool (dist l t < pending l)) \<and>
     count_of (reads (rw_current l)) ps = unat (rw_readers_active l) \<and>
     count_of (queued (rw_current l)) ps = unat (rw_readers_queued l) \<and>
     (\<forall>p \<in> set ps. place_ok l p) \<and>
     (rw_readers_queued l \<noteq> 0 \<longrightarrow> rw_reader l \<noteq> rw_current l \<and> dist l (rw_reader l) \<le> pending l)"

lemma rw_invI:
  assumes "\<And>t. count_of (\<lambda>p. write_ticket p = Some t) ps = of_bool (dist l t < pending l)"
    and "count_of (reads (rw_current l)) ps = unat (rw_readers_active l)"
    and "count_of (queued (rw_current l)) ps = unat (rw_readers_queued l)"
    and "\<And>p. p \<in> set ps \<Longrightarrow> place_ok l p"
    and "rw_readers_queued l \<noteq> 0 \<Longrightarrow> rw_reader l \<noteq> rw_current l \<and> dist l (rw_reader l) \<le> pending l"
  shows "rw_inv l ps"
  using assms by (simp add: rw_inv_def)

lemma rw_invD:
  assumes "rw_inv l ps"
  shows "count_of (\<lambda>p. write_ticket p = Some t) ps = of_bool (dist l t < pending l)"
    and "count_of (reads (rw_current l)) ps = unat (rw_readers_active l)"
    and "count_of (queued (rw_current l)) ps = unat (rw_readers_queued l)"
    and "p \<in> set ps \<Longrightarrow> place_ok l p"
    and "rw_readers_queued l \<noteq> 0 \<Longrightarrow> rw_reader l \<noteq> rw_current l" and "rw_readers_queued l \<noteq> 0 \<Longrightarrow> dist l (rw_reader l) \<le> pending l"
  using assms by (simp_all add: rw_inv_def)

lemma rw_inv_start: "rw_inv wt_rwlock_init (replicate n Idle)"
  by (rule rw_invI) (simp_all add: count_of_def wt_rwlock_init_def pending_def dist_def)

lemma set_updateD: "p \<in> set (xs[i := x]) \<Longrightarrow> p = x \<or> p \<in> set xs"
  using set_update_subset_insert by fastforce

text \<open>A thread that moves on without changing the lock.\<close>

lemma rw_inv_move:
  assumes "rw_inv l ps" and "i < length ps" and "write_ticket q = write_ticket (ps ! i)"
    and "reads (rw_current l) q = reads (rw_current l) (ps ! i)" and "queued (rw_current l) q = queued (rw_current l) (ps ! i)"
    and "place_ok l q"
  shows "rw_inv l (ps[i := q])"
proof (rule rw_invI)
  note upd = count_update [OF assms(2), of _ q]
  show "count_of (\<lambda>p. write_ticket p = Some t) (ps[i := q]) = of_bool (dist l t < pending l)" for t
    using upd [of "\<lambda>p. write_ticket p = Some t"] rw_invD(1) [OF assms(1), of t] assms(3) by simp
  show "count_of (reads (rw_current l)) (ps[i := q]) = unat (rw_readers_active l)"
    using upd [of "reads (rw_current l)"] rw_invD(2) [OF assms(1)] assms(4) by simp
  show "count_of (queued (rw_current l)) (ps[i := q]) = unat (rw_readers_queued l)"
    using upd [of "queued (rw_current l)"] rw_invD(3) [OF assms(1)] assms(5) by simp
qed (use assms(1,6) in \<open>auto dest: set_updateD rw_invD\<close>)

lemma no_writer:
  assumes "rw_inv l ps" and "rw_current l = rw_next l"
  shows "p \<in> set ps \<Longrightarrow> write_ticket p = None" and "rw_readers_queued l = 0"
proof -
  have "pending l = 0" using assms(2) by (simp add: pending_def dist_def)
  then have "count_of (\<lambda>p. write_ticket p = Some t) ps = 0" for t using rw_invD(1) [OF assms(1)] by simp
  then show "write_ticket p = None" if "p \<in> set ps" for p
    using that by (cases "write_ticket p") (auto simp: count_of_def filter_empty_conv)
  show "rw_readers_queued l = 0"
    using rw_invD(5,6) [OF assms(1)] \<open>pending l = 0\<close> by (auto simp: dist_def unsigned_eq_0_iff)
qed

lemma place_ok_no_ticket: "write_ticket p = None \<Longrightarrow> rw_current l' = rw_current l \<Longrightarrow> rw_reader l' = rw_reader l \<Longrightarrow>
    place_ok l p \<Longrightarrow> place_ok l' p"
  by (cases p) auto

text \<open>A reader that joins the current group.\<close>

lemma rw_inv_add_reader:
  assumes "rw_inv l ps" and "i < length ps" and "\<not> reads (rw_current l) (ps ! i)" and "\<not> queued (rw_current l) (ps ! i)"
    and "write_ticket (ps ! i) = None" and "rw_current l = rw_next l" and "rw_readers_active l + 1 \<noteq> 0"
  shows "rw_inv (add_reader l) (ps[i := Reading])"
proof -
  note upd = count_update [OF assms(2), of _ Reading]
  have simps: "rw_current (add_reader l) = rw_current l" "rw_readers_queued (add_reader l) = rw_readers_queued l"
    "rw_reader (add_reader l) = rw_reader l" "rw_readers_active (add_reader l) = rw_readers_active l + 1"
    by (simp_all add: add_reader_def)
  have act: "unat (rw_readers_active l + 1) = unat (rw_readers_active l) + 1"
    using assms(7) by (rule unat_plus_one)
  show ?thesis
  proof (rule rw_invI)
    show "count_of (\<lambda>p. write_ticket p = Some t) (ps[i := Reading]) = of_bool (dist (add_reader l) t < pending (add_reader l))" for t
      using upd [of "\<lambda>p. write_ticket p = Some t"] rw_invD(1) [OF assms(1), of t] assms(5) by simp
    show "count_of (reads (rw_current (add_reader l))) (ps[i := Reading]) = unat (rw_readers_active (add_reader l))"
      using upd [of "reads (rw_current l)"] rw_invD(2) [OF assms(1)] assms(3) by (simp add: simps act)
    show "count_of (queued (rw_current (add_reader l))) (ps[i := Reading]) = unat (rw_readers_queued (add_reader l))"
      using upd [of "queued (rw_current l)"] rw_invD(3) [OF assms(1)] assms(4) by (simp add: simps)
    show "place_ok (add_reader l) p" if "p \<in> set (ps[i := Reading])" for p
      using set_updateD [OF that] no_writer(1) [OF assms(1,6)] rw_invD(4) [OF assms(1)]
      by (auto intro: place_ok_no_ticket [of p _ l] simp: simps)
  qed (use no_writer(2) [OF assms(1,6)] in \<open>simp add: simps\<close>)
qed

text \<open>A place that holds no ticket and counts as no reader.\<close>

definition outside :: "place \<Rightarrow> bool" where
  "outside p \<longleftrightarrow> write_ticket p = None \<and> (\<forall>c. \<not> reads c p \<and> \<not> queued c p)"

lemma outside_simps [simp]:
  "outside Idle" "outside (TryRead l)" "outside ReadStart" "outside (ReadSwap l)" "outside (TryWrite l)"
  "outside WriteStart" "outside (WriteSwap l)"
  by (simp_all add: outside_def)

lemma place_ok_mono:
  assumes "place_ok l p" and "rw_current l' = rw_current l" and "rw_reader l' = rw_reader l"
    and "rw_readers_active l = 0 \<Longrightarrow> rw_readers_active l' = 0"
  shows "place_ok l' p"
  using assms by (cases p) simp_all

lemma count_none: "count_of P xs = 0 \<longleftrightarrow> (\<forall>p\<in>set xs. \<not> P p)"
  by (auto simp: count_of_def filter_empty_conv)

lemma rw_inv_queue_reader:
  assumes "rw_inv l ps" and "i < length ps" and "outside (ps ! i)"
    and "rw_current l \<noteq> rw_next l" and "rw_readers_queued l \<noteq> 255"
  shows "rw_inv (queue_reader l) (ps[i := ReadWait (rw_reader (queue_reader l))])"
proof -
  define t where "t = rw_reader (queue_reader l)"
  have out: "write_ticket (ps ! i) = None" "\<not> reads c (ps ! i)" "\<not> queued c (ps ! i)" for c
    using assms(3) by (simp_all add: outside_def)
  have simps: "rw_current (queue_reader l) = rw_current l" "rw_readers_queued (queue_reader l) = rw_readers_queued l + 1"
    "rw_readers_active (queue_reader l) = rw_readers_active l" by (simp_all add: queue_reader_def)
  have t: "t \<noteq> rw_current l \<and> dist l t \<le> pending l"
    using assms(4) rw_invD(5,6) [OF assms(1)] by (auto simp: t_def queue_reader_def pending_def)
  have waits: "s = t" if "ReadWait s \<in> set ps" "s \<noteq> rw_current l" for s
  proof -
    have "rw_readers_queued l \<noteq> 0"
      using count_pos [OF that(1), of "queued (rw_current l)"] that(2) rw_invD(3) [OF assms(1)] by auto
    then show ?thesis using rw_invD(4) [OF assms(1) that(1)] that(2) by (simp add: t_def queue_reader_def)
  qed
  have "rw_readers_queued l + 1 \<noteq> 0"
  proof
    assume "rw_readers_queued l + 1 = 0"
    then have "rw_readers_queued l = - 1" by (rule eq_neg_iff_add_eq_0 [THEN iffD2])
    then show False using assms(5) by simp
  qed
  from unat_plus_one [OF this] have q: "unat (rw_readers_queued l + 1) = unat (rw_readers_queued l) + 1" .
  note upd = count_update [OF assms(2), of _ "ReadWait t"]
  show ?thesis unfolding t_def [symmetric]
  proof (rule rw_invI)
    show "count_of (\<lambda>p. write_ticket p = Some s) (ps[i := ReadWait t]) = of_bool (dist (queue_reader l) s < pending (queue_reader l))" for s
      using upd [of "\<lambda>p. write_ticket p = Some s"] rw_invD(1) [OF assms(1), of s] out by simp
    show "count_of (reads (rw_current (queue_reader l))) (ps[i := ReadWait t]) = unat (rw_readers_active (queue_reader l))"
      using upd [of "reads (rw_current l)"] rw_invD(2) [OF assms(1)] out t by (simp add: simps)
    show "count_of (queued (rw_current (queue_reader l))) (ps[i := ReadWait t]) = unat (rw_readers_queued (queue_reader l))"
      using upd [of "queued (rw_current l)"] rw_invD(3) [OF assms(1)] out t by (simp add: simps q)
    show "place_ok (queue_reader l) p" if "p \<in> set (ps[i := ReadWait t])" for p
    proof (cases "p \<in> set ps")
      case True
      then have "place_ok l p" using rw_invD(4) [OF assms(1)] by blast
      then show ?thesis using waits True by (cases p) (auto simp: simps t_def)
    next
      case False
      then have "p = ReadWait t" using set_updateD [OF that] by blast
      then show ?thesis by (simp add: t_def)
    qed
    show "rw_reader (queue_reader l) \<noteq> rw_current (queue_reader l) \<and> dist (queue_reader l) (rw_reader (queue_reader l)) \<le> pending (queue_reader l)"
      using t by (simp add: simps t_def)
  qed
qed

lemma rw_inv_readunlock:
  assumes "rw_inv l ps" and "i < length ps" and "ps ! i = ReadUnlock old"
  shows "rw_inv (l\<lparr>rw_readers_active := rw_readers_active l - 1\<rparr>) (ps[i := Idle])"
proof -
  have mem: "ReadUnlock old \<in> set ps" using assms(2,3) nth_mem by metis
  have "unat (rw_readers_active l) \<noteq> 0"
    using count_pos [OF mem, of "reads (rw_current l)"] rw_invD(2) [OF assms(1)] by simp
  then have act: "rw_readers_active l \<noteq> 0" by (metis unat_0)
  then have dec: "unat (rw_readers_active l - 1) = unat (rw_readers_active l) - 1" by (rule unat_minus_one)
  note upd = count_update [OF assms(2), of _ Idle]
  show ?thesis
  proof (rule rw_invI, goal_cases)
    case (1 t)
    show ?case using upd [of "\<lambda>p. write_ticket p = Some t"] rw_invD(1) [OF assms(1), of t] assms(3) by simp
  next
    case 2
    show ?case using upd [of "reads (rw_current l)"] rw_invD(2) [OF assms(1)] assms(3) dec by simp
  next
    case 3
    show ?case using upd [of "queued (rw_current l)"] rw_invD(3) [OF assms(1)] assms(3) by simp
  next
    case (4 p)
    then consider "p = Idle" | "place_ok l p" using set_updateD [OF 4] rw_invD(4) [OF assms(1), of p] by blast
    then show ?case
    proof cases
      case 2
      show ?thesis by (rule place_ok_mono [OF 2]) (use act in simp_all)
    qed simp
  next
    case 5
    then show ?case using rw_invD(5,6) [OF assms(1)] by simp
  qed
qed

lemma rw_inv_take_ticket:
  assumes "rw_inv l ps" and "i < length ps" and "outside (ps ! i)" and "rw_current l \<noteq> rw_next l + 1"
    and "q = WriteWait (rw_next l) \<or> q = Writing (rw_next l) \<and> rw_current l = rw_next l \<and> rw_readers_active l = 0"
  shows "rw_inv (l\<lparr>rw_next := rw_next l + 1\<rparr>) (ps[i := q])"
proof -
  let ?l = "l\<lparr>rw_next := rw_next l + 1\<rparr>"
  have out: "write_ticket (ps ! i) = None" "\<not> reads c (ps ! i)" "\<not> queued c (ps ! i)" for c
    using assms(3) by (simp_all add: outside_def)
  have q: "write_ticket q = Some (rw_next l)" "\<not> reads c q" "\<not> queued c q" "place_ok ?l q" for c using assms(5) by auto
  note pend = pending_next [OF assms(4)]
  note upd = count_update [OF assms(2), of _ q]
  show ?thesis
  proof (rule rw_invI, goal_cases)
    case (1 t)
    have "\<not> dist l (rw_next l) < pending l" by (simp add: pending_def)
    then show ?case
      using upd [of "\<lambda>p. write_ticket p = Some t"] rw_invD(1) [OF assms(1), of t] out(1) q(1) pend
      by (cases "t = rw_next l") auto
  next
    case 2
    show ?case using upd [of "reads (rw_current l)"] rw_invD(2) [OF assms(1)] out q by simp
  next
    case 3
    show ?case using upd [of "queued (rw_current l)"] rw_invD(3) [OF assms(1)] out q by simp
  next
    case (4 p)
    then consider "p = q" | "place_ok l p" using set_updateD [OF 4] rw_invD(4) [OF assms(1), of p] by blast
    then show ?case
    proof cases
      case 2
      show ?thesis by (rule place_ok_mono [OF 2]) simp_all
    qed (simp add: q(4))
  next
    case 5
    then show ?case using rw_invD(5,6) [OF assms(1)] pend by simp
  qed
qed

lemma rw_inv_next_batch:
  assumes "rw_inv l ps" and "i < length ps" and "ps ! i = WriteUnlock t old"
  shows "rw_inv (next_batch l) (ps[i := Idle])"
proof -
  let ?c = "rw_current l" and ?l = "next_batch l"
  have mem: "WriteUnlock t old \<in> set ps" using assms(2,3) nth_mem by metis
  have t: "t = ?c" and act: "rw_readers_active l = 0" using rw_invD(4) [OF assms(1) mem] by simp_all
  have "0 < count_of (\<lambda>p. write_ticket p = Some ?c) ps" using mem t by (intro count_pos) auto
  then have pos: "0 < pending l" using rw_invD(1) [OF assms(1), of ?c] by (cases "dist l ?c < pending l") auto
  then have "rw_next l \<noteq> ?c" by (auto simp: pending_def dist_def)
  then have pend: "pending ?l = pending l - 1" using dist_next_batch(1) by (simp add: pending_def)
  have "dist ?l ?c = 255"
  proof -
    have "?c - (?c + 1) = -1" by simp
    then show ?thesis unfolding dist_def next_batch_simps by (simp add: unsigned_minus_1_eq_mask mask_eq_exp_minus_1)
  qed
  moreover have "pending l < 256" using unsigned_less [of "rw_next l - ?c"] by (simp add: pending_def dist_def)
  ultimately have top: "\<not> dist ?l ?c < pending ?l" using pend by simp
  note upd = count_update [OF assms(2), of _ Idle]
  have tickets: "count_of (\<lambda>p. write_ticket p = Some s) (ps[i := Idle]) = of_bool (dist ?l s < pending ?l)" for s
  proof (cases "s = ?c")
    case True
    then show ?thesis using upd [of "\<lambda>p. write_ticket p = Some ?c"] rw_invD(1) [OF assms(1), of ?c] assms(3) t top pos
      by (simp add: dist_def)
  next
    case False
    then show ?thesis
      using upd [of "\<lambda>p. write_ticket p = Some s"] rw_invD(1) [OF assms(1), of s] assms(3) t pend pos dist_next_batch [of s l]
      by auto
  qed
  have none: "\<not> reads ?c p" if "p \<in> set ps" for p
    using rw_invD(2) [OF assms(1)] act that by (simp add: count_none)
  have waits: "s = rw_reader l" if "ReadWait s \<in> set ps" for s
    using none [OF that] rw_invD(4) [OF assms(1) that] by simp
  have reads: "count_of (reads (?c + 1)) ps = (if ?c + 1 = rw_reader l then unat (rw_readers_queued l) else 0)"
  proof -
    have "count_of (reads (?c + 1)) ps = count_of (if ?c + 1 = rw_reader l then queued ?c else (\<lambda>p. False)) ps"
    proof (rule count_cong)
      fix p assume p: "p \<in> set ps"
      show "reads (?c + 1) p = (if ?c + 1 = rw_reader l then queued ?c else (\<lambda>p. False)) p"
        using none [OF p] waits p by (cases p) auto
    qed
    then show ?thesis using rw_invD(3) [OF assms(1)] by (simp add: count_none)
  qed
  have queued: "count_of (queued (?c + 1)) ps = (if ?c + 1 = rw_reader l then 0 else unat (rw_readers_queued l))"
  proof -
    have "count_of (queued (?c + 1)) ps = count_of (if ?c + 1 = rw_reader l then (\<lambda>p. False) else queued ?c) ps"
    proof (rule count_cong)
      fix p assume p: "p \<in> set ps"
      show "queued (?c + 1) p = (if ?c + 1 = rw_reader l then (\<lambda>p. False) else queued ?c) p"
        using none [OF p] waits p by (cases p) auto
    qed
    then show ?thesis using rw_invD(3) [OF assms(1)] by (simp add: count_none)
  qed
  have lock: "rw_readers_active ?l = (if ?c + 1 = rw_reader l then ucast (rw_readers_queued l) else 0)"
    "rw_readers_queued ?l = (if ?c + 1 = rw_reader l then 0 else rw_readers_queued l)"
    using act by (simp_all add: next_batch_def Let_def)
  show ?thesis
  proof (rule rw_invI, goal_cases)
    case (1 s)
    show ?case by (rule tickets)
  next
    case 2
    have "unat (ucast (rw_readers_queued l) :: u32) = unat (rw_readers_queued l)" using u8_less [of "rw_readers_queued l"] by (simp add: unsigned_ucast_eq take_bit_nat_eq_self)
    then show ?case using upd [of "reads (?c + 1)"] assms(3) by (simp add: reads lock)
  next
    case 3
    show ?case using upd [of "queued (?c + 1)"] assms(3) by (simp add: queued lock)
  next
    case (4 p)
    have "write_ticket p \<noteq> Some ?c"
      using tickets [of ?c] top 4 by (simp add: count_none)
    moreover have "p = Idle \<or> p \<in> set ps \<and> place_ok l p" using set_updateD [OF 4] rw_invD(4) [OF assms(1), of p] by blast
    ultimately show ?case using waits by (cases p) auto
  next
    case 5
    then have "?c + 1 \<noteq> rw_reader l" "rw_readers_queued l \<noteq> 0" by (auto simp: lock split: if_splits)
    then show ?case using rw_invD(5,6) [OF assms(1)] dist_next_batch [of "rw_reader l" l] pend by auto
  qed
qed

lemma go_simps [simp]: "sy_lock (go i p l y) = l" "sy_at (go i p l y) = (sy_at y)[i := p]"
  by (simp_all add: go_def)

lemma rw_inv_outside:
  assumes "rw_inv l ps" and "i < length ps" and "outside (ps ! i)" and "outside q" and "place_ok l q"
  shows "rw_inv l (ps[i := q])"
  using assms(3,4) by (intro rw_inv_move [OF assms(1,2)]) (simp_all add: outside_def assms(5))

lemma rw_inv_step:
  assumes "rw_step y y'" and "rw_inv (sy_lock y) (sy_at y)"
  shows "rw_inv (sy_lock y') (sy_at y')"
  using assms
proof (induction rule: rw_step.induct)
  case (start i y p l)
  then show ?case by (auto intro!: rw_inv_outside)
next
  case (try_read i y old r l)
  from try_readlock_cases [OF try_read.hyps(3)] show ?case
  proof (elim disjE conjE)
    assume "isl r" "l = sy_lock y"
    then show ?thesis using try_read by (auto intro!: rw_inv_outside)
  next
    assume "\<not> isl r" "l = add_reader (sy_lock y)" "rw_current (sy_lock y) = rw_next (sy_lock y)" "rw_readers_active (sy_lock y) + 1 \<noteq> 0"
    then show ?thesis using rw_inv_add_reader [of "sy_lock y" "sy_at y" i] try_read by simp
  qed
next
  case (read_look i y)
  then show ?case by (auto intro!: rw_inv_outside)
next
  case (read_swap i y old r l)
  from readlock_round_cases [OF read_swap.hyps(3)] show ?case
  proof (elim disjE conjE)
    assume "r = ReadAgain" "l = sy_lock y"
    then show ?thesis using read_swap by (auto intro!: rw_inv_outside)
  next
    assume "r = ReadHeld" "l = add_reader (sy_lock y)" "rw_current (sy_lock y) = rw_next (sy_lock y)" "rw_readers_active (sy_lock y) + 1 \<noteq> 0"
    then show ?thesis using rw_inv_add_reader [of "sy_lock y" "sy_at y" i] read_swap by simp
  next
    assume "r = ReadTicket (rw_reader l)" "l = queue_reader (sy_lock y)" "rw_current (sy_lock y) \<noteq> rw_next (sy_lock y)"
      "rw_readers_queued (sy_lock y) \<noteq> 255"
    then show ?thesis using rw_inv_queue_reader [of "sy_lock y" "sy_at y" i] read_swap by simp
  qed
next
  case (read_enter i y t)
  then show ?case by (auto simp: read_blocked_def intro!: rw_inv_move)
next
  case (read_leave i y)
  then show ?case by (auto intro!: rw_inv_move)
next
  case (read_unlock i y old ok l)
  from readunlock_round_cases [OF read_unlock.hyps(3)] show ?case
  proof (elim disjE conjE)
    assume "\<not> ok" "l = sy_lock y"
    then show ?thesis using read_unlock by (auto intro!: rw_inv_move)
  next
    assume "ok" "l = (sy_lock y)\<lparr>rw_readers_active := rw_readers_active (sy_lock y) - 1\<rparr>"
    then show ?thesis using rw_inv_readunlock [OF read_unlock.prems read_unlock.hyps(1,2)] by simp
  qed
next
  case (try_write i y old r l)
  from try_writelock_cases [OF try_write.hyps(3)] show ?case
  proof (elim disjE conjE)
    assume "isl r" "l = sy_lock y"
    then show ?thesis using try_write by (auto intro!: rw_inv_outside)
  next
    assume w: "\<not> isl r" "old = sy_lock y" "l = (sy_lock y)\<lparr>rw_next := rw_next (sy_lock y) + 1\<rparr>"
      "rw_current (sy_lock y) = rw_next (sy_lock y)" "rw_readers_active (sy_lock y) = 0"
    have "rw_current (sy_lock y) \<noteq> rw_next (sy_lock y) + 1" using w(4) by simp
    then show ?thesis
      using rw_inv_take_ticket [OF try_write.prems try_write.hyps(1), of "Writing (rw_next (sy_lock y))"] try_write.hyps(2) w by simp
  qed
next
  case (write_look i y)
  then show ?case by (auto intro!: rw_inv_outside)
next
  case (write_swap i y old r l)
  from writelock_round_cases [OF write_swap.hyps(3)] show ?case
  proof (elim disjE conjE)
    assume "r = None" "l = sy_lock y"
    then show ?thesis using write_swap by (auto intro!: rw_inv_outside)
  next
    assume w: "r = Some (rw_next (sy_lock y))" "l = (sy_lock y)\<lparr>rw_next := rw_next (sy_lock y) + 1\<rparr>"
      "rw_current (sy_lock y) \<noteq> rw_next (sy_lock y) + 1"
    then show ?thesis
      using rw_inv_take_ticket [OF write_swap.prems write_swap.hyps(1), of "WriteWait (rw_next (sy_lock y))"] write_swap.hyps(2) by simp
  qed
next
  case (write_enter i y t)
  then show ?case by (auto simp: write_blocked_def intro!: rw_inv_move)
next
  case (write_leave i y t)
  moreover have "place_ok (sy_lock y) (Writing t)"
    using rw_invD(4) [OF write_leave.prems] write_leave.hyps nth_mem by metis
  ultimately show ?case by (auto intro!: rw_inv_move)
next
  case (write_unlock i y t old ok l)
  have ok: "place_ok (sy_lock y) (WriteUnlock t old)"
    using rw_invD(4) [OF write_unlock.prems] write_unlock.hyps(1,2) nth_mem by metis
  from writeunlock_round_cases [OF write_unlock.hyps(3)] show ?case
  proof (elim disjE conjE)
    assume "\<not> ok" "l = sy_lock y"
    then show ?thesis using write_unlock(1,2,4) ok by (auto intro!: rw_inv_move)
  next
    assume "ok" "l = next_batch (sy_lock y)"
    then show ?thesis using rw_inv_next_batch [OF write_unlock.prems write_unlock.hyps(1,2)] by simp
  qed
qed

lemma rw_reach_inv:
  assumes "rw_reach n y"
  shows "rw_inv (sy_lock y) (sy_at y) \<and> length (sy_at y) = n"
  using assms
proof (induction rule: rw_reach.induct)
  case start
  show ?case using rw_inv_start by (simp add: rw_start_def)
next
  case (step y y')
  then have "length (sy_at y') = length (sy_at y)" by (auto elim!: rw_step.cases)
  then show ?case using rw_inv_step step by simp
qed

subsection \<open>Properties\<close>

fun has_read :: "place \<Rightarrow> bool" where
  "has_read Reading \<longleftrightarrow> True"
| "has_read (ReadUnlock old) \<longleftrightarrow> True"
| "has_read _ \<longleftrightarrow> False"

fun has_write :: "place \<Rightarrow> bool" where
  "has_write (Writing t) \<longleftrightarrow> True"
| "has_write (WriteUnlock t old) \<longleftrightarrow> True"
| "has_write _ \<longleftrightarrow> False"

fun waits :: "place \<Rightarrow> bool" where
  "waits (ReadWait t) \<longleftrightarrow> True"
| "waits (WriteWait t) \<longleftrightarrow> True"
| "waits _ \<longleftrightarrow> False"

text \<open>The test at the head of the wait loop lets the thread in.\<close>

fun wait_over :: "rwlock \<Rightarrow> place \<Rightarrow> bool" where
  "wait_over l (ReadWait t) \<longleftrightarrow> \<not> read_blocked t l"
| "wait_over l (WriteWait t) \<longleftrightarrow> \<not> write_blocked t l"
| "wait_over l _ \<longleftrightarrow> False"

lemma count_two:
  assumes "i < length xs" and "j < length xs" and "i \<noteq> j" and "P (xs ! i)" and "P (xs ! j)"
  shows "2 \<le> count_of P xs"
proof -
  let ?ys = "xs[i := xs ! j]"
  have "filter P xs = filter P (take i xs @ xs ! i # drop (Suc i) xs)" using assms(1) by (simp add: id_take_nth_drop [symmetric])
  moreover have "xs ! j \<in> set (take i xs) \<union> set (drop (Suc i) xs)"
    using assms(1-3) by (cases "j < i") (auto simp: in_set_conv_nth intro: exI [of _ "j - Suc i"])
  ultimately show ?thesis using assms(4,5) by (auto simp: count_of_def filter_empty_conv Suc_le_eq)
qed

lemma inv_exclusive:
  assumes "rw_inv l ps" and "i < length ps" and "j < length ps" and "i \<noteq> j" and "has_write (ps ! i)"
  shows "\<not> has_write (ps ! j) \<and> \<not> has_read (ps ! j)"
proof -
  have writer: "write_ticket p = Some (rw_current l) \<and> rw_readers_active l = 0" if "p \<in> set ps" "has_write p" for p
    using rw_invD(4) [OF assms(1) that(1)] that(2) by (cases p) auto
  have "\<not> has_write (ps ! j)"
  proof
    assume "has_write (ps ! j)"
    then have "2 \<le> count_of (\<lambda>p. write_ticket p = Some (rw_current l)) ps"
      using writer assms by (intro count_two [of i _ j]) auto
    then show False using rw_invD(1) [OF assms(1), of "rw_current l"] by (simp add: of_bool_def split: if_splits)
  qed
  moreover have "\<not> reads (rw_current l) (ps ! j)"
    using writer [of "ps ! i"] assms rw_invD(2) [OF assms(1)] by (simp add: count_none)
  then have "\<not> has_read (ps ! j)" by (cases "ps ! j") auto
  ultimately show ?thesis by blast
qed

lemma inv_progress:
  assumes "rw_inv l ps" and "p \<in> set ps" and "waits p"
  shows "\<exists>q \<in> set ps. has_read q \<or> has_write q \<or> wait_over l q"
proof (cases "rw_readers_active l = 0")
  case False
  then have "0 < count_of (reads (rw_current l)) ps" using rw_invD(2) [OF assms(1)] by (simp add: unat_gt_0)
  then obtain q where q: "q \<in> set ps" "reads (rw_current l) q" using count_posD by blast
  from q(2) have "has_read q \<or> wait_over l q" by (cases q) (auto simp: read_blocked_def)
  then show ?thesis using q by blast
next
  case act: True
  show ?thesis
  proof (cases "rw_current l = rw_next l")
    case True
    have "count_of (reads (rw_current l)) ps = 0" "count_of (queued (rw_current l)) ps = 0"
      using rw_invD(2,3) [OF assms(1)] act no_writer(2) [OF assms(1) True] by simp_all
    then have "\<not> reads (rw_current l) p" "\<not> queued (rw_current l) p" "write_ticket p = None"
      using assms(2) no_writer(1) [OF assms(1) True] by (simp_all add: count_none)
    then show ?thesis using assms(3) by (cases p) auto
  next
    case False
    then have "rw_next l - rw_current l \<noteq> 0" by simp
    then have "0 < pending l" unfolding pending_def dist_def
      using unsigned_eq_0_iff [of "rw_next l - rw_current l"] by (metis gr0I)
    then have "0 < count_of (\<lambda>p. write_ticket p = Some (rw_current l)) ps"
      using rw_invD(1) [OF assms(1), of "rw_current l"] by (simp add: dist_def)
    then obtain q where q: "q \<in> set ps" "write_ticket q = Some (rw_current l)" using count_posD by blast
    from q(2) have "has_write q \<or> wait_over l q" using act by (cases q) (auto simp: write_blocked_def)
    then show ?thesis using q by blast
  qed
qed

text \<open>
  C7: However any number of threads interleave their reads and swaps of the lock, a thread that has the write
  lock has it alone: no other thread has the write lock or a read lock, although tickets are 8 bits wide and wrap.
\<close>

theorem rwlock_exclusive:
  assumes "rw_reach n y" and "i < n" and "j < n" and "i \<noteq> j" and "has_write (sy_at y ! i)"
  shows "\<not> has_write (sy_at y ! j) \<and> \<not> has_read (sy_at y ! j)"
  using rw_reach_inv [OF assms(1)] assms by (intro inv_exclusive) auto

text \<open>
  C8: The lock does not get stuck: whenever a thread waits with a ticket, some thread has the lock or the
  wait of some thread is over.
\<close>

theorem rwlock_progress:
  assumes "rw_reach n y" and "i < n" and "waits (sy_at y ! i)"
  shows "\<exists>j < n. has_read (sy_at y ! j) \<or> has_write (sy_at y ! j) \<or> wait_over (sy_lock y) (sy_at y ! j)"
proof -
  have inv: "rw_inv (sy_lock y) (sy_at y)" and len: "length (sy_at y) = n" using rw_reach_inv [OF assms(1)] by simp_all
  have "sy_at y ! i \<in> set (sy_at y)" using assms(2) len by simp
  from inv_progress [OF inv this assms(3)] obtain q
    where "q \<in> set (sy_at y)" "has_read q \<or> has_write q \<or> wait_over (sy_lock y) q" by blast
  then show ?thesis using len by (metis in_set_conv_nth)
qed

text \<open>A writer and a reader that waits for it.\<close>

definition demo_lock :: rwlock where
  "demo_lock = \<lparr>rw_current = 0, rw_next = 1, rw_reader = 1, rw_readers_queued = 1, rw_readers_active = 0\<rparr>"

definition demo_sys :: rw_sys where
  "demo_sys = \<lparr>sy_lock = demo_lock, sy_at = [Writing 0, ReadWait 1]\<rparr>"

lemma demo_reach: "rw_reach 2 demo_sys"
proof -
  let ?l1 = "wt_rwlock_init\<lparr>rw_next := 1\<rparr>"
  let ?y1 = "go 0 (TryWrite wt_rwlock_init) wt_rwlock_init (rw_start 2)"
  let ?y2 = "go 0 (Writing 0) ?l1 ?y1"
  let ?y3 = "go 1 ReadStart ?l1 ?y2"
  let ?y4 = "go 1 (ReadSwap ?l1) ?l1 ?y3"
  have len: "length (sy_at ?y1) = 2" "length (sy_at ?y2) = 2" "length (sy_at ?y3) = 2" "length (sy_at ?y4) = 2"
    "sy_at (rw_start 2) = [Idle, Idle]" "sy_lock (rw_start 2) = wt_rwlock_init"
    by (simp_all add: rw_start_def numeral_2_eq_2)
  have 0: "rw_reach 2 (rw_start 2)" by (rule rw_reach.start)
  have 1: "rw_reach 2 ?y1" by (rule rw_reach.step [OF 0 rw_step.start]) (simp_all add: len)
  have t: "wt_try_writelock wt_rwlock_init wt_rwlock_init = (Inr (), ?l1)"
    by (simp add: wt_try_writelock_def wt_atomic_casv64_def wt_rwlock_init_def)
  have 2: "rw_reach 2 ?y2"
    using rw_reach.step [OF 1 rw_step.try_write [of 0 ?y1 wt_rwlock_init "Inr ()" ?l1]] t
    by (simp add: len wt_rwlock_init_def)
  have 3: "rw_reach 2 ?y3" by (rule rw_reach.step [OF 2 rw_step.start]) (simp_all add: len)
  have 4: "rw_reach 2 ?y4" using rw_reach.step [OF 3 rw_step.read_look [of 1]] by (simp add: len)
  have r: "wt_readlock_round ?l1 ?l1 = (ReadTicket 1, demo_lock)"
    by (simp add: wt_readlock_round_def wt_atomic_casv64_def wt_rwlock_init_def Let_def demo_lock_def queue_reader_def)
  have 5: "rw_reach 2 (go 1 (ReadWait 1) demo_lock ?y4)"
    using rw_reach.step [OF 4 rw_step.read_swap [of 1 ?y4 ?l1 "ReadTicket 1" demo_lock]] r by (simp add: len)
  have "go 1 (ReadWait 1) demo_lock ?y4 = demo_sys" by (simp add: go_def len demo_sys_def)
  then show ?thesis using 5 by simp
qed

lemma rwlock_exclusive_witness: "\<not> has_write (sy_at demo_sys ! 1) \<and> \<not> has_read (sy_at demo_sys ! 1)"
  by (rule rwlock_exclusive [OF demo_reach, of 0 1]) (simp_all add: demo_sys_def)

lemma rwlock_progress_witness:
  "\<exists>j < (2 :: nat). has_read (sy_at demo_sys ! j) \<or> has_write (sy_at demo_sys ! j) \<or> wait_over (sy_lock demo_sys) (sy_at demo_sys ! j)"
  by (rule rwlock_progress [OF demo_reach, of 1]) (simp_all add: demo_sys_def)

text \<open>
  Once the next ticket has wrapped and the current one has not, their difference is negative and no reader may
  queue, though no reader is queued and three writers are pending.
\<close>

lemma readers_shut_out:
  defines "l \<equiv> \<lparr>rw_current = 254, rw_next = 1, rw_reader = 0, rw_readers_queued = 0, rw_readers_active = 0\<rparr>"
  shows "unat (rw_next l - rw_current l) = 3" and "wt_readlock_round l l = (ReadAgain, l)"
  unfolding l_def by code_simp+

end
