(* ===== verification/StructPack.thy ===== *)
theory StructPack
  imports IntPack
begin

text \<open>
  Packing structures, \<open>src/include/packing_inline.h\<close>: the iterator over a format string, the size, the
  writing and the reading of one field, and the three loops over a format. A buffer is the list of its
  bytes; writing gives the bytes written, reading the bytes left. A format is the memory of a C string, the
  variable arguments are a list, and a union is the member last set. Where the code goes past a buffer or a
  string, or takes an argument of another type than was passed, the result is \<open>OutOfBounds\<close>. The JSON text
  functions of the internal types \<open>j\<close>, \<open>J\<close> and \<open>K\<close> are arguments.
\<close>

record pack_value =
  pv_size :: nat
  pv_havesize :: bool
  pv_type :: char

datatype pack_u = U_none | U_str "u8 list" | U_item "u8 list" | U_num u64

definition WT_PACK_VALUE_INIT :: pack_value where
  "WT_PACK_VALUE_INIT = \<lparr>pv_size = 1, pv_havesize = False, pv_type = CHR 0x00\<rparr>"

text \<open>The format from the cursor on, how far its end is, and the repetition of the last field.\<close>

record wt_pack =
  pk_cur :: "char list"
  pk_left :: int
  pk_repeats :: nat
  pk_lastv :: pack_value

definition pack_initn :: "char list \<Rightarrow> nat \<Rightarrow> wt_pack result" where
  "pack_initn fmt len =
     (case fmt of [] \<Rightarrow> Inl OutOfBounds
      | c # cs \<Rightarrow>
        if c \<in> set ''@<>'' then Inl EINVAL
        else Inr \<lparr>pk_cur = (if c = CHR ''.'' then cs else fmt), pk_left = int len, pk_repeats = 0,
                  pk_lastv = WT_PACK_VALUE_INIT\<rparr>)"

text \<open>A C string is the characters before the nul that ends it.\<close>

definition pack_init :: "char list \<Rightarrow> wt_pack result" where
  "pack_init fmt = pack_initn (fmt @ [CHR 0x00]) (length fmt)"

definition wt_isdigit :: "char \<Rightarrow> bool" where
  "wt_isdigit c \<longleftrightarrow> c \<in> set ''0123456789''"

definition strtoul :: "char list \<Rightarrow> nat" where
  "strtoul ds = min (foldl (\<lambda>n c. 10 * n + (of_char c - 48)) 0 ds) (2 ^ 64 - 1)"

lemma length_dropWhile_Cons: "dropWhile P xs = y # ys \<Longrightarrow> length ys < length xs"
  using length_dropWhile_le [of P xs] by simp

text \<open>The size prefix and the type, before the switch.\<close>

definition pack_prefix :: "wt_pack \<Rightarrow> (pack_value \<times> wt_pack) result" where
  "pack_prefix pack =
     (case pk_cur pack of [] \<Rightarrow> Inl OutOfBounds
      | c # cs \<Rightarrow>
        let digits = takeWhile wt_isdigit (pk_cur pack); havesize = wt_isdigit c;
            size = (if havesize then strtoul digits mod 2 ^ 32 else 1) in
        case dropWhile wt_isdigit (pk_cur pack) of [] \<Rightarrow> Inl OutOfBounds
        | t # cur \<Rightarrow>
          Inr (\<lparr>pv_size = size, pv_havesize = havesize, pv_type = t\<rparr>,
               pack\<lparr>pk_cur := cur, pk_left := pk_left pack - int (length digits) - 1, pk_repeats := 0\<rparr>))"

lemma pack_prefix_shorter: "pack_prefix pack = Inr (pv, pack') \<Longrightarrow> length (pk_cur pack') < length (pk_cur pack)"
  by (auto simp: pack_prefix_def Let_def simp del: dropWhile.simps takeWhile.simps dest: length_dropWhile_Cons split: list.splits)

function pack_next_field :: "wt_pack \<Rightarrow> (pack_value \<times> wt_pack) result" where
  "pack_next_field pack =
     (if pk_left pack = 0 then Inl WT_NOTFOUND
      else case pack_prefix pack of Inl e \<Rightarrow> Inl e
      | Inr (pv, pack) \<Rightarrow>
          let t = pv_type pv in
          if t \<in> set ''SxU'' then Inr (pv, pack)
          else if t = CHR ''s'' then (if pv_size pv < 1 then Inl EINVAL else Inr (pv, pack))
          else if t = CHR ''t'' then (if pv_size pv < 1 \<or> pv_size pv > 8 then Inl EINVAL else Inr (pv, pack))
          else if t = CHR ''u'' then
            (if pv_havesize pv then Inr (pv, pack)
             else case pk_cur pack of [] \<Rightarrow> Inl OutOfBounds
               | d # _ \<Rightarrow> Inr (pv\<lparr>pv_type := (if d \<noteq> CHR 0x00 then CHR ''U'' else CHR ''u'')\<rparr>, pack))
          else if t \<in> set ''bhiBHIlLqQrR'' then
            (if pv_size pv = 0 then pack_next_field pack
             else let pv = pv\<lparr>pv_havesize := False\<rparr> in
               Inr (pv, pack\<lparr>pk_repeats := pv_size pv - 1, pk_lastv := pv\<rparr>))
          else Inl EINVAL)"
  by pat_completeness auto
termination
proof (relation "measure (\<lambda>pack. length (pk_cur pack))", goal_cases)
  case (2 pack b x y t)
  then have "pack_prefix pack = Inr (x, y)" by simp
  then show ?case unfolding in_measure by (rule pack_prefix_shorter)
qed simp

declare pack_next_field.simps [simp del]

definition pack_next :: "wt_pack \<Rightarrow> (pack_value \<times> wt_pack) result" where
  "pack_next pack =
     (if pk_repeats pack > 0 then Inr (pk_lastv pack, pack\<lparr>pk_repeats := pk_repeats pack - 1\<rparr>)
      else pack_next_field pack)"

subsection \<open>Arguments\<close>

datatype pack_arg = A_str "u8 list" | A_item "u8 list" | A_int "32 word" | A_uint "32 word" | A_int64 u64 | A_uint64 u64

fun arg_str :: "pack_arg \<Rightarrow> pack_u result" where
  "arg_str (A_str s) = Inr (U_str s)" | "arg_str _ = Inl OutOfBounds"
fun arg_item :: "pack_arg \<Rightarrow> pack_u result" where
  "arg_item (A_item bs) = Inr (U_item bs)" | "arg_item _ = Inl OutOfBounds"
fun arg_int :: "pack_arg \<Rightarrow> pack_u result" where
  "arg_int (A_int w) = Inr (U_num (scast w))" | "arg_int _ = Inl OutOfBounds"
fun arg_uint :: "pack_arg \<Rightarrow> pack_u result" where
  "arg_uint (A_uint w) = Inr (U_num (ucast w))" | "arg_uint _ = Inl OutOfBounds"
fun arg_int64 :: "pack_arg \<Rightarrow> pack_u result" where
  "arg_int64 (A_int64 w) = Inr (U_num w)" | "arg_int64 _ = Inl OutOfBounds"
fun arg_uint64 :: "pack_arg \<Rightarrow> pack_u result" where
  "arg_uint64 (A_uint64 w) = Inr (U_num w)" | "arg_uint64 _ = Inl OutOfBounds"

definition va_arg :: "(pack_arg \<Rightarrow> pack_u result) \<Rightarrow> pack_arg list \<Rightarrow> (pack_u \<times> pack_arg list) result" where
  "va_arg get ap = (case ap of [] \<Rightarrow> Inl OutOfBounds | a # ap \<Rightarrow> wt_ret (get a) (\<lambda>u. Inr (u, ap)))"

definition WT_PACK_GET :: "pack_value \<Rightarrow> pack_arg list \<Rightarrow> (pack_u \<times> pack_arg list) result" where
  "WT_PACK_GET pv ap =
     (let t = pv_type pv in
      if t = CHR ''x'' then Inr (U_none, ap)
      else if t \<in> set ''sS'' then va_arg arg_str ap
      else if t \<in> set ''Uu'' then va_arg arg_item ap
      else if t \<in> set ''bhil'' then va_arg arg_int ap
      else if t \<in> set ''BHILt'' then va_arg arg_uint ap
      else if t = CHR ''q'' then va_arg arg_int64 ap
      else if t \<in> set ''QrR'' then va_arg arg_uint64 ap
      else Inl WT_PANIC)"

subsection \<open>One field\<close>

fun u_num :: "pack_u \<Rightarrow> u64" where
  "u_num (U_num w) = w" | "u_num _ = 0"
fun u_str :: "pack_u \<Rightarrow> u8 list" where
  "u_str (U_str s) = s" | "u_str _ = []"
fun u_item :: "pack_u \<Rightarrow> u8 list" where
  "u_item (U_item bs) = bs" | "u_item _ = []"

definition strlen :: "u8 list \<Rightarrow> nat result" where
  "strlen s = (if 0 \<in> set s then Inr (length (takeWhile (\<lambda>b. b \<noteq> 0) s)) else Inl OutOfBounds)"

definition wt_strnlen :: "u8 list \<Rightarrow> nat \<Rightarrow> nat result" where
  "wt_strnlen s maxlen =
     (if 0 \<in> set (take maxlen s) \<or> maxlen \<le> length s then Inr (length (takeWhile (\<lambda>b. b \<noteq> 0) (take maxlen s)))
      else Inl OutOfBounds)"

definition read_mem :: "u8 list \<Rightarrow> nat \<Rightarrow> u8 list result" where
  "read_mem s n = (if n \<le> length s then Inr (take n s) else Inl OutOfBounds)"

text \<open>The machine stores the least significant byte first.\<close>

definition store_u64 :: "u64 \<Rightarrow> u8 list" where
  "store_u64 x = rev (pack_bytes 8 x)"

definition load_u64 :: "u8 list \<Rightarrow> u64" where
  "load_u64 bs = of_nat (be_val (rev bs))"

record json_ops =
  js_strlen :: "u8 list \<Rightarrow> nat"
  js_strncpy :: "nat \<Rightarrow> u8 list \<Rightarrow> u8 list result"

definition item_sizes :: "pack_value \<Rightarrow> u8 list \<Rightarrow> nat \<times> nat" where
  "item_sizes pv item =
     (let s = length item in
      if pv_havesize pv \<and> pv_size pv < s then (pv_size pv, 0)
      else if pv_havesize pv then (s, pv_size pv - s) else (s, 0))"

definition pack_size :: "json_ops \<Rightarrow> pack_value \<Rightarrow> pack_u \<Rightarrow> nat result" where
  "pack_size js pv u =
     (let t = pv_type pv in
      if t = CHR ''x'' then Inr (pv_size pv)
      else if t \<in> set ''jJK'' then
        Inr (if t = CHR ''j'' \<or> pv_havesize pv then pv_size pv
             else js_strlen js (u_item u) + (if t = CHR ''K'' then 0 else 1))
      else if t \<in> set ''sS'' then
        (if t = CHR ''s'' \<or> pv_havesize pv then Inr (pv_size pv) else wt_ret (strlen (u_str u)) (\<lambda>n. Inr (n + 1)))
      else if t \<in> set ''Uu'' then
        (let (s, pad) = item_sizes pv (u_item u);
             s = (if t = CHR ''U'' then s + wt_vsize_uint (of_nat (s + pad)) else s)
         in Inr (s + pad))
      else if t \<in> set ''bBt'' then Inr 1
      else if t \<in> set ''hilq'' then Inr (wt_vsize_int (u_num u))
      else if t \<in> set ''HILQr'' then Inr (wt_vsize_uint (u_num u))
      else if t = CHR ''R'' then Inr 8
      else Inl EINVAL)"

text \<open>\<open>WT_SIZE_CHECK_PACK\<close> and \<open>WT_SIZE_CHECK_UNPACK\<close> before the rest of a case.\<close>

definition check_pack :: "nat \<Rightarrow> nat \<Rightarrow> 'a result \<Rightarrow> 'a result" where
  "check_pack l maxlen k = (if WT_SIZE_CHECK_PACK l maxlen then Inl ENOMEM else k)"

definition check_unpack :: "nat \<Rightarrow> nat \<Rightarrow> 'a result \<Rightarrow> 'a result" where
  "check_unpack l maxlen k = (if WT_SIZE_CHECK_UNPACK l maxlen then Inl EINVAL else k)"

definition pack_write :: "json_ops \<Rightarrow> pack_value \<Rightarrow> pack_u \<Rightarrow> nat \<Rightarrow> u8 list result" where
  "pack_write js pv u maxlen =
     (let t = pv_type pv in
      if t = CHR ''x'' then check_pack (pv_size pv) maxlen (Inr (replicate (pv_size pv) 0))
      else if t = CHR ''s'' then check_pack (pv_size pv) maxlen (read_mem (u_str u) (pv_size pv))
      else if t = CHR ''S'' then
        wt_ret (if pv_havesize pv
                then wt_ret (wt_strnlen (u_str u) (pv_size pv))
                       (\<lambda>s. Inr (s, if s < pv_size pv then pv_size pv - s else 0))
                else wt_ret (strlen (u_str u)) (\<lambda>s. Inr (s, 1)))
          (\<lambda>(s, pad). check_pack (s + pad) maxlen (Inr (take s (u_str u) @ replicate pad 0)))
      else if t \<in> set ''jJK'' then
        (let s = length (u_item u);
             (s, pad) = (if (t = CHR ''j'' \<or> pv_havesize pv) \<and> pv_size pv < s then (pv_size pv, 0)
                         else if pv_havesize pv then (s, pv_size pv - s)
                         else if t = CHR ''K'' then (s, 0) else (s, 1))
         in wt_ret (if s > 0 then js_strncpy js maxlen (take s (u_item u)) else Inr []) (\<lambda>bs.
              if pad > 0 then check_pack pad (maxlen - length bs) (Inr (bs @ replicate pad 0)) else Inr bs))
      else if t \<in> set ''Uu'' then
        (let (s, pad) = item_sizes pv (u_item u) in
         wt_ret (if t = CHR ''U''
                 then check_pack 1 maxlen (wt_ret (wt_vpack_uint maxlen (of_nat (s + pad))) (\<lambda>bs. Inr (bs, maxlen - length bs)))
                 else Inr ([], maxlen))
           (\<lambda>(bs, maxlen). check_pack (s + pad) maxlen (Inr (bs @ take s (u_item u) @ replicate pad 0))))
      else if t = CHR ''b'' then check_pack 1 maxlen (Inr [ucast (u_num u + 0x80)])
      else if t \<in> set ''Bt'' then check_pack 1 maxlen (Inr [ucast (u_num u)])
      else if t \<in> set ''hilq'' then check_pack 1 maxlen (wt_vpack_int maxlen (u_num u))
      else if t \<in> set ''HILQr'' then check_pack 1 maxlen (wt_vpack_uint maxlen (u_num u))
      else if t = CHR ''R'' then check_pack 8 maxlen (Inr (store_u64 (u_num u)))
      else Inl EINVAL)"

definition take_bytes :: "nat \<Rightarrow> u8 list \<Rightarrow> (u8 list \<times> u8 list) result" where
  "take_bytes n p = (if n \<le> length p then Inr (take n p, drop n p) else Inl OutOfBounds)"

text \<open>A string that was read is a pointer into the buffer; here the bytes of its field.\<close>

definition unpack_read :: "pack_value \<Rightarrow> nat \<Rightarrow> u8 list \<Rightarrow> (pack_u \<times> u8 list) result" where
  "unpack_read pv maxlen p =
     (let t = pv_type pv in
      if t = CHR ''x'' then
        check_unpack (pv_size pv) maxlen (wt_ret (take_bytes (pv_size pv) p) (\<lambda>(_, p). Inr (U_none, p)))
      else if t \<in> set ''sS'' then
        wt_ret (if t = CHR ''s'' \<or> pv_havesize pv then Inr (pv_size pv) else wt_ret (strlen p) (\<lambda>n. Inr (n + 1)))
          (\<lambda>s. check_unpack s maxlen (wt_ret (take_bytes s p) (\<lambda>(bs, p). Inr (U_str bs, p))))
      else if t \<in> set ''Uu'' then
        wt_ret (if t = CHR ''U'' then check_unpack 1 maxlen (wt_vunpack_uint maxlen p) else Inr (0, p)) (\<lambda>(x, p).
          let s = (if pv_havesize pv then pv_size pv else if t = CHR ''U'' then unat x else maxlen) in
          check_unpack s maxlen (wt_ret (take_bytes s p) (\<lambda>(bs, p). Inr (U_item bs, p))))
      else if t = CHR ''b'' then
        check_unpack 1 maxlen (wt_ret (take_bytes 1 p) (\<lambda>(bs, p). Inr (U_num (scast (hd bs - 0x80)), p)))
      else if t \<in> set ''Bt'' then
        check_unpack 1 maxlen (wt_ret (take_bytes 1 p) (\<lambda>(bs, p). Inr (U_num (ucast (hd bs)), p)))
      else if t \<in> set ''hilq'' then
        check_unpack 1 maxlen (wt_ret (wt_vunpack_int maxlen p) (\<lambda>(x, p). Inr (U_num x, p)))
      else if t \<in> set ''HILQr'' then
        check_unpack 1 maxlen (wt_ret (wt_vunpack_uint maxlen p) (\<lambda>(x, p). Inr (U_num x, p)))
      else if t = CHR ''R'' then
        check_unpack 8 maxlen (wt_ret (take_bytes 8 p) (\<lambda>(bs, p). Inr (U_num (load_u64 bs), p)))
      else Inl EINVAL)"

datatype pack_out = O_str "u8 list" | O_item "u8 list" | O_8 "8 word" | O_16 "16 word" | O_32 "32 word" | O_64 u64

definition WT_UNPACK_PUT :: "pack_value \<Rightarrow> pack_u \<Rightarrow> pack_out list" where
  "WT_UNPACK_PUT pv u =
     (let t = pv_type pv in
      if t = CHR ''x'' then []
      else if t \<in> set ''sS'' then [O_str (u_str u)]
      else if t \<in> set ''Uu'' then [O_item (u_item u)]
      else if t \<in> set ''bBt'' then [O_8 (ucast (u_num u))]
      else if t \<in> set ''hH'' then [O_16 (ucast (u_num u))]
      else if t \<in> set ''ilIL'' then [O_32 (ucast (u_num u))]
      else if t \<in> set ''qQrR'' then [O_64 (u_num u)]
      else [])"

subsection \<open>The loops over a format\<close>

lemma pack_next_field_shorter: "pack_next_field pack = Inr (pv, pack') \<Longrightarrow> length (pk_cur pack') < length (pk_cur pack)"
proof (induction pack rule: pack_next_field.induct)
  case (1 pack)
  show ?case
  proof (cases "pack_prefix pack")
    case (Inl e)
    then show ?thesis using 1(2) by (simp add: pack_next_field.simps [of pack] split: if_splits)
  next
    case (Inr r)
    obtain pv1 pack1 where r: "pack_prefix pack = Inr (pv1, pack1)" using Inr by (cases r) auto
    note less = pack_prefix_shorter [OF r]
    show ?thesis
      using 1(2) 1(1) [OF _ r refl refl] less
      by (subst (asm) pack_next_field.simps) (auto simp: r Let_def simp del: list.set split: if_splits list.splits)
  qed
qed

lemma pack_next_less:
  assumes "pack_next pack = Inr (pv, pack')"
  shows "(pack', pack) \<in> measures [\<lambda>p. length (pk_cur p), pk_repeats]"
  using assms pack_next_field_shorter [of pack pv pack'] by (auto simp: pack_next_def split: if_splits)

function pack_loop :: "(pack_value \<Rightarrow> 's \<Rightarrow> 's result) \<Rightarrow> wt_pack \<Rightarrow> 's \<Rightarrow> 's result" where
  "pack_loop f pack s =
     (case pack_next pack of
        Inl e \<Rightarrow> if e = WT_NOTFOUND then Inr s else Inl e
      | Inr (pv, pack) \<Rightarrow> wt_ret (f pv s) (pack_loop f pack))"
  by pat_completeness auto
termination
proof (relation "inv_image (measures [\<lambda>p. length (pk_cur p), pk_repeats]) (\<lambda>(f, pack, s). pack)", goal_cases)
  case (2 f pack s r pv pack' s')
  then have "pack_next pack = Inr (pv, pack')" by simp
  then show ?case unfolding in_inv_image prod.case by (rule pack_next_less)
qed simp

declare pack_loop.simps [simp del]

text \<open>A write past the end of the buffer.\<close>

definition write_room :: "nat \<Rightarrow> u8 list result \<Rightarrow> u8 list result" where
  "write_room room r = wt_ret r (\<lambda>w. if length w \<le> room then Inr w else Inl OutOfBounds)"

definition pack_step :: "json_ops \<Rightarrow> pack_value \<Rightarrow> pack_arg list \<times> nat \<times> u8 list \<Rightarrow> (pack_arg list \<times> nat \<times> u8 list) result" where
  "pack_step js pv = (\<lambda>(ap, room, bs).
     wt_ret (WT_PACK_GET pv ap) (\<lambda>(u, ap).
     wt_ret (write_room room (pack_write js pv u room)) (\<lambda>w. Inr (ap, room - length w, bs @ w))))"

definition wt_struct_packv :: "json_ops \<Rightarrow> nat \<Rightarrow> char list \<Rightarrow> pack_arg list \<Rightarrow> u8 list result" where
  "wt_struct_packv js sz fmt ap =
     (case fmt of
        [c] \<Rightarrow> let pv = WT_PACK_VALUE_INIT\<lparr>pv_type := c\<rparr> in
               wt_ret (WT_PACK_GET pv ap) (\<lambda>(u, ap). write_room sz (pack_write js pv u sz))
      | _ \<Rightarrow> wt_ret (pack_init fmt) (\<lambda>pack.
               wt_ret (pack_loop (pack_step js) pack (ap, sz, [])) (\<lambda>(_, _, bs). Inr bs)))"

definition size_step :: "json_ops \<Rightarrow> pack_value \<Rightarrow> pack_arg list \<times> nat \<Rightarrow> (pack_arg list \<times> nat) result" where
  "size_step js pv = (\<lambda>(ap, n).
     wt_ret (WT_PACK_GET pv ap) (\<lambda>(u, ap). wt_ret (pack_size js pv u) (\<lambda>v. Inr (ap, n + v))))"

definition wt_struct_sizev :: "json_ops \<Rightarrow> char list \<Rightarrow> pack_arg list \<Rightarrow> nat result" where
  "wt_struct_sizev js fmt ap =
     (case fmt of
        [c] \<Rightarrow> let pv = WT_PACK_VALUE_INIT\<lparr>pv_type := c\<rparr> in
               wt_ret (WT_PACK_GET pv ap) (\<lambda>(u, ap). pack_size js pv u)
      | _ \<Rightarrow> wt_ret (pack_init fmt) (\<lambda>pack.
               wt_ret (pack_loop (size_step js) pack (ap, 0)) (\<lambda>(_, n). Inr n)))"

definition unpack_step :: "pack_value \<Rightarrow> u8 list \<times> pack_out list \<Rightarrow> (u8 list \<times> pack_out list) result" where
  "unpack_step pv = (\<lambda>(p, outs). wt_ret (unpack_read pv (length p) p) (\<lambda>(u, p). Inr (p, outs @ WT_UNPACK_PUT pv u)))"

definition wt_struct_unpackv :: "u8 list \<Rightarrow> char list \<Rightarrow> pack_out list result" where
  "wt_struct_unpackv buffer fmt =
     (case fmt of
        [c] \<Rightarrow> let pv = WT_PACK_VALUE_INIT\<lparr>pv_type := c\<rparr> in
               wt_ret (unpack_read pv (length buffer) buffer) (\<lambda>(u, p). Inr (WT_UNPACK_PUT pv u))
      | _ \<Rightarrow> wt_ret (pack_init fmt) (\<lambda>pack.
               wt_ret (pack_loop unpack_step pack (buffer, [])) (\<lambda>(_, outs). Inr outs)))"

text \<open>\<open>__wt_struct_size_adjust\<close>: \<open>None\<close> would be a loop that does not end.\<close>

partial_function (option) size_adjust_loop :: "u64 \<Rightarrow> nat \<Rightarrow> u64 option" where
  "size_adjust_loop curr_size prev_field_size =
     (let field_size = wt_vsize_uint curr_size in
      if field_size = prev_field_size then Some curr_size
      else size_adjust_loop (curr_size + (of_nat field_size - of_nat prev_field_size)) field_size)"

definition wt_struct_size_adjust :: "u64 \<Rightarrow> u64 option" where
  "wt_struct_size_adjust sz = size_adjust_loop sz 1"

subsection \<open>The fields of a format\<close>

function pack_values :: "wt_pack \<Rightarrow> pack_value list \<times> wt_error" where
  "pack_values pack =
     (case pack_next pack of
        Inl e \<Rightarrow> ([], e)
      | Inr (pv, pack) \<Rightarrow> let (pvs, e) = pack_values pack in (pv # pvs, e))"
  by pat_completeness auto
termination
proof (relation "measures [\<lambda>p. length (pk_cur p), pk_repeats]", goal_cases)
  case (2 pack r pv pack')
  then have "pack_next pack = Inr (pv, pack')" by simp
  then show ?case by (rule pack_next_less)
qed simp

declare pack_values.simps [simp del]

lemma pack_loop_values:
  "pack_loop f pack s = (case pack_values pack of (pvs, e) \<Rightarrow>
     wt_ret (fold_result (\<lambda>s pv. f pv s) pvs s) (\<lambda>s. if e = WT_NOTFOUND then Inr s else Inl e))"
proof (induction f pack s rule: pack_loop.induct)
  case (1 f pack s)
  show ?case
  proof (cases "pack_next pack")
    case (Inl e)
    then show ?thesis by (simp add: pack_loop.simps [of f pack] pack_values.simps [of pack])
  next
    case (Inr r)
    then obtain pv pack' where r: "pack_next pack = Inr (pv, pack')" by (cases r) auto
    have step: "pack_loop f pack' s' = (case pack_values pack' of (pvs, e) \<Rightarrow>
        wt_ret (fold_result (\<lambda>s pv. f pv s) pvs s') (\<lambda>s. if e = WT_NOTFOUND then Inr s else Inl e))" if "f pv s = Inr s'" for s'
      using 1 [OF r refl that] .
    obtain pvs e where v: "pack_values pack' = (pvs, e)" by fastforce
    with step have "pack_loop f pack' s' = wt_ret (fold_result (\<lambda>s pv. f pv s) pvs s') (\<lambda>s. if e = WT_NOTFOUND then Inr s else Inl e)"
      if "f pv s = Inr s'" for s' using that by simp
    then show ?thesis
      by (cases "f pv s") (simp_all add: pack_loop.simps [of f pack] pack_values.simps [of pack] r v)
  qed
qed

definition fields_of :: "char list \<Rightarrow> pack_value list result" where
  "fields_of fmt = wt_ret (pack_init fmt) (\<lambda>pack.
     case pack_values pack of (pvs, e) \<Rightarrow> if e = WT_NOTFOUND then Inr pvs else Inl e)"

lemma pack_loop_fields:
  "fields_of fmt = Inr pvs \<Longrightarrow>
    wt_ret (pack_init fmt) (\<lambda>pack. wt_ret (pack_loop f pack s) k) = wt_ret (fold_result (\<lambda>s pv. f pv s) pvs s) k"
proof -
  assume "fields_of fmt = Inr pvs"
  then obtain pack where pack: "pack_init fmt = Inr pack"
    and "(case pack_values pack of (pvs, e) \<Rightarrow> if e = WT_NOTFOUND then Inr pvs else Inl e) = Inr pvs"
    unfolding fields_of_def wt_ret_Inr_iff by blast
  then have "pack_values pack = (pvs, WT_NOTFOUND)" by (cases "pack_values pack") (simp split: if_splits)
  then show ?thesis unfolding pack wt_ret_simps pack_loop_values
    by (cases "fold_result (\<lambda>s pv. f pv s) pvs s") simp_all
qed

subsection \<open>Writing and reading one field\<close>

lemma check_pack_room [simp]: "l \<le> n \<Longrightarrow> check_pack l n k = k"
  by (simp add: check_pack_def WT_SIZE_CHECK_PACK_def)

lemma check_unpack_room [simp]: "l \<le> n \<Longrightarrow> check_unpack l n k = k"
  by (simp add: check_unpack_def WT_SIZE_CHECK_UNPACK_def)

lemma take_bytes_append [simp]: "n = length w \<Longrightarrow> take_bytes n (w @ rest) = Inr (w, rest)"
  by (simp add: take_bytes_def)

text \<open>The last field of a format may be an item without a size: it is what is left of the buffer.\<close>

definition plain_item :: "pack_value \<Rightarrow> bool" where
  "plain_item pv \<longleftrightarrow> pv_type pv = CHR ''u'' \<and> \<not> pv_havesize pv"

text \<open>The memory of a string reaches as far as the field reads it, and an item is no longer than memory.\<close>

definition field_fits :: "pack_value \<Rightarrow> pack_u \<Rightarrow> bool" where
  "field_fits pv u \<longleftrightarrow>
     (pv_type pv = CHR ''s'' \<longrightarrow> pv_size pv \<le> length (u_str u)) \<and>
     (pv_type pv = CHR ''S'' \<longrightarrow> (if pv_havesize pv then 0 \<in> set (take (pv_size pv) (u_str u)) \<or> pv_size pv \<le> length (u_str u)
                               else 0 \<in> set (u_str u))) \<and>
     (pv_type pv \<in> set ''Uu'' \<longrightarrow> length (u_item u) < 2 ^ 64 \<and> pv_size pv < 2 ^ 64)"

definition padded :: "nat \<Rightarrow> u8 list \<Rightarrow> u8 list" where
  "padded n bs = take n bs @ replicate (n - length bs) 0"

lemma length_padded [simp]: "length (padded n bs) = n"
  by (simp add: padded_def)

abbreviation cstr :: "u8 list \<Rightarrow> u8 list" where
  "cstr s \<equiv> takeWhile (\<lambda>b. b \<noteq> 0) s"

text \<open>What unpacking hands back: strings and items at the size of the field, numbers at their width.\<close>

definition field_out :: "pack_value \<Rightarrow> pack_u \<Rightarrow> pack_out list" where
  "field_out pv u =
     (let t = pv_type pv in
      if t = CHR ''s'' then [O_str (take (pv_size pv) (u_str u))]
      else if t = CHR ''S'' then
        [O_str (if pv_havesize pv then padded (pv_size pv) (cstr (take (pv_size pv) (u_str u))) else cstr (u_str u) @ [0])]
      else if t \<in> set ''Uu'' then [O_item (if pv_havesize pv then padded (pv_size pv) (u_item u) else u_item u)]
      else WT_UNPACK_PUT pv u)"

definition field_codec :: "json_ops \<Rightarrow> pack_value \<Rightarrow> pack_u \<Rightarrow> u8 list \<Rightarrow> bool" where
  "field_codec js pv u w \<longleftrightarrow>
     pack_size js pv u = Inr (length w) \<and>
     (\<forall>room. length w \<le> room \<longrightarrow> pack_write js pv u room = Inr w) \<and>
     (\<forall>rest. (plain_item pv \<longrightarrow> rest = []) \<longrightarrow>
        (\<exists>u'. unpack_read pv (length (w @ rest)) (w @ rest) = Inr (u', rest) \<and> WT_UNPACK_PUT pv u' = field_out pv u))"

lemma field_codecI:
  assumes "pack_size js pv u = Inr (length w)" and "\<And>room. length w \<le> room \<Longrightarrow> pack_write js pv u room = Inr w"
    and "\<And>rest. (plain_item pv \<Longrightarrow> rest = []) \<Longrightarrow> unpack_read pv (length (w @ rest)) (w @ rest) = Inr (u', rest)"
    and "WT_UNPACK_PUT pv u' = field_out pv u"
  shows "field_codec js pv u w"
  using assms unfolding field_codec_def by blast

lemma wt_vsize_uint_pos: "0 < wt_vsize_uint x"
  using wt_vpack_uint_total [of 0 x] wt_vpack_uint_form [of 0 x] by (metis disjI1 length_greater_0_conv list.distinct(1))

lemma wt_vsize_int_pos: "0 < wt_vsize_int x"
  using wt_vpack_int_total [of 0 x] wt_vpack_int_form [of 0 x] by (metis disjI1 length_greater_0_conv list.distinct(1))

lemma field_int:
  assumes "pv_type pv \<in> set ''hilq''"
  shows "\<exists>w. field_codec js pv u w"
proof -
  have size: "pack_size js pv u = Inr (wt_vsize_int (u_num u))" using assms by (auto simp: pack_size_def)
  have wr: "pack_write js pv u room = check_pack 1 room (wt_vpack_int room (u_num u))" for room
    using assms by (auto simp: pack_write_def)
  have read: "unpack_read pv n p = check_unpack 1 n (wt_ret (wt_vunpack_int n p) (\<lambda>(x, p). Inr (U_num x, p)))" for n p
    using assms by (auto simp: unpack_read_def)
  have out: "WT_UNPACK_PUT pv (U_num (u_num u)) = field_out pv u" using assms by (auto simp: field_out_def WT_UNPACK_PUT_def)
  obtain w where w: "wt_vpack_int 0 (u_num u) = Inr w" "length w = wt_vsize_int (u_num u)"
    using wt_vpack_int_total [of 0 "u_num u"] by auto
  have pos: "0 < length w" using w(2) wt_vsize_int_pos by simp
  show ?thesis
  proof (intro exI field_codecI)
    show "pack_size js pv u = Inr (length w)" using size w(2) by simp
    show "pack_write js pv u room = Inr w" if "length w \<le> room" for room
    proof -
      obtain w' where w': "wt_vpack_int room (u_num u) = Inr w'"
        using wt_vpack_int_total [of room "u_num u"] w(2) \<open>length w \<le> room\<close> by auto
      then have "w' = w" using wt_vpack_int_unchecked w(1) by fastforce
      moreover have "1 \<le> room" using pos that by linarith
      ultimately show ?thesis using w' by (simp add: wr)
    qed
    show "unpack_read pv (length (w @ rest)) (w @ rest) = Inr (U_num (u_num u), rest)" for rest
      using wt_vunpack_int_vpack [OF w(1), of "length (w @ rest)" rest] pos by (cases w) (simp_all add: read)
  qed (rule out)
qed

lemma field_uint:
  assumes "pv_type pv \<in> set ''HILQr''"
  shows "\<exists>w. field_codec js pv u w"
proof -
  have size: "pack_size js pv u = Inr (wt_vsize_uint (u_num u))" using assms by (auto simp: pack_size_def)
  have wr: "pack_write js pv u room = check_pack 1 room (wt_vpack_uint room (u_num u))" for room
    using assms by (auto simp: pack_write_def)
  have read: "unpack_read pv n p = check_unpack 1 n (wt_ret (wt_vunpack_uint n p) (\<lambda>(x, p). Inr (U_num x, p)))" for n p
    using assms by (auto simp: unpack_read_def)
  have out: "WT_UNPACK_PUT pv (U_num (u_num u)) = field_out pv u" using assms by (auto simp: field_out_def WT_UNPACK_PUT_def)
  obtain w where w: "wt_vpack_uint 0 (u_num u) = Inr w" "length w = wt_vsize_uint (u_num u)"
    using wt_vpack_uint_total [of 0 "u_num u"] by auto
  have pos: "0 < length w" using w(2) wt_vsize_uint_pos by simp
  show ?thesis
  proof (intro exI field_codecI)
    show "pack_size js pv u = Inr (length w)" using size w(2) by simp
    show "pack_write js pv u room = Inr w" if "length w \<le> room" for room
    proof -
      obtain w' where w': "wt_vpack_uint room (u_num u) = Inr w'"
        using wt_vpack_uint_total [of room "u_num u"] w(2) \<open>length w \<le> room\<close> by auto
      then have "w' = w" using wt_vpack_uint_unchecked w(1) by fastforce
      moreover have "1 \<le> room" using pos that by linarith
      ultimately show ?thesis using w' by (simp add: wr)
    qed
    show "unpack_read pv (length (w @ rest)) (w @ rest) = Inr (U_num (u_num u), rest)" for rest
      using wt_vunpack_uint_vpack [OF w(1), of "length (w @ rest)" rest] pos by (cases w) (simp_all add: read)
  qed (rule out)
qed

lemma ucast_scast_byte: "ucast (scast (ucast (x + 0x80) - 0x80 :: u8) :: u64) = (ucast (x :: u64) :: u8)"
proof -
  have "ucast (scast (b :: u8) :: u64) = b" for b :: u8 by (rule bit_word_eqI) (simp add: bit_simps)
  moreover have "ucast (x + 0x80) = (ucast x + 0x80 :: u8)"
    by (rule word_unat_eq_iff [THEN iffD2]) (simp add: wt_unat unat_word_ariths mod_simps unsigned_ucast_eq take_bit_eq_mod mod_mod_cancel)
  ultimately show ?thesis by simp
qed

lemma field_byte:
  assumes "pv_type pv = CHR ''b''"
  shows "field_codec js pv u [ucast (u_num u + 0x80)]"
  by (rule field_codecI [where u' = "U_num (scast (ucast (u_num u + 0x80) - 0x80 :: u8))"])
    (simp_all add: assms pack_size_def pack_write_def unpack_read_def field_out_def WT_UNPACK_PUT_def ucast_scast_byte take_bytes_def)

lemma ucast_ucast_byte: "ucast (ucast (b :: u8) :: u64) = b"
  by (rule bit_word_eqI) (simp add: bit_simps)

lemma field_ubyte:
  assumes "pv_type pv \<in> set ''Bt''"
  shows "field_codec js pv u [ucast (u_num u)]"
  by (rule field_codecI [where u' = "U_num (ucast (ucast (u_num u) :: u8))"])
    (use assms in \<open>auto simp: pack_size_def pack_write_def unpack_read_def field_out_def WT_UNPACK_PUT_def take_bytes_def ucast_ucast_byte\<close>)

lemma load_store [simp]: "load_u64 (store_u64 x) = x"
  by (simp add: load_u64_def store_u64_def unsigned_less [of x, simplified])

lemma field_recno:
  assumes "pv_type pv = CHR ''R''"
  shows "field_codec js pv u (store_u64 (u_num u))"
proof (rule field_codecI [where u' = "U_num (u_num u)"])
  have len: "length (store_u64 (u_num u)) = 8" by (simp add: store_u64_def)
  show "pack_size js pv u = Inr (length (store_u64 (u_num u)))" unfolding len by (simp add: assms pack_size_def)
  show "pack_write js pv u room = Inr (store_u64 (u_num u))" if "length (store_u64 (u_num u)) \<le> room" for room
    using that unfolding len by (simp add: assms pack_write_def)
  show "unpack_read pv (length (store_u64 (u_num u) @ rest)) (store_u64 (u_num u) @ rest) = Inr (U_num (u_num u), rest)" for rest
    by (simp add: assms unpack_read_def len)
qed (simp add: assms field_out_def WT_UNPACK_PUT_def)

lemma field_pad:
  assumes "pv_type pv = CHR ''x''"
  shows "field_codec js pv u (replicate (pv_size pv) 0)"
  by (rule field_codecI [where u' = U_none])
    (simp_all add: assms pack_size_def pack_write_def unpack_read_def field_out_def WT_UNPACK_PUT_def)

lemma field_fixed_string:
  assumes "pv_type pv = CHR ''s''" and "field_fits pv u"
  shows "field_codec js pv u (take (pv_size pv) (u_str u))"
proof -
  have len: "length (take (pv_size pv) (u_str u)) = pv_size pv" "pv_size pv \<le> length (u_str u)"
    using assms by (simp_all add: field_fits_def)
  show ?thesis
    by (rule field_codecI [where u' = "U_str (take (pv_size pv) (u_str u))"])
      (use len in \<open>simp_all add: assms(1) pack_size_def pack_write_def unpack_read_def field_out_def WT_UNPACK_PUT_def read_mem_def\<close>)
qed

lemma cstr_take_le: "length (cstr (take n s)) \<le> n"
  by (metis length_takeWhile_le length_take min.cobounded2 order_trans)

lemma take_cstr: "take (length (cstr (take n s))) s = cstr (take n s)"
  by (metis cstr_take_le takeWhile_eq_take take_take min_absorb1)

lemma cstr_append_nul: "0 \<in> set s \<Longrightarrow> take (length (cstr s)) s = cstr s"
  by (simp add: takeWhile_eq_take [symmetric])

lemma strlen_cstr: "strlen (cstr s @ 0 # rest) = Inr (length (cstr s))"
proof -
  have "cstr (cstr s) = cstr s" by (auto simp: takeWhile_eq_all_conv dest: set_takeWhileD)
  then show ?thesis by (simp add: strlen_def takeWhile_tail)
qed

lemma field_sized_string:
  assumes "pv_type pv = CHR ''S''" and "field_fits pv u" and "pv_havesize pv"
  shows "field_codec js pv u (padded (pv_size pv) (cstr (take (pv_size pv) (u_str u))))"
proof -
  let ?c = "cstr (take (pv_size pv) (u_str u))"
  have nlen: "wt_strnlen (u_str u) (pv_size pv) = Inr (length ?c)"
    using assms by (auto simp: field_fits_def wt_strnlen_def)
  have le: "length ?c \<le> pv_size pv" by (rule cstr_take_le)
  have eq: "?c @ replicate (if length ?c < pv_size pv then pv_size pv - length ?c else 0) 0 = padded (pv_size pv) ?c"
    using le by (simp add: padded_def)
  have sum: "length ?c + (if length ?c < pv_size pv then pv_size pv - length ?c else 0) = pv_size pv" using le by simp
  show ?thesis
  proof (rule field_codecI [where u' = "U_str (padded (pv_size pv) ?c)"])
    show "pack_write js pv u room = Inr (padded (pv_size pv) ?c)" if "length (padded (pv_size pv) ?c) \<le> room" for room
    proof -
      have "pack_write js pv u room = check_pack (length ?c + (if length ?c < pv_size pv then pv_size pv - length ?c else 0)) room
          (Inr (take (length ?c) (u_str u) @ replicate (if length ?c < pv_size pv then pv_size pv - length ?c else 0) 0))"
        by (simp add: assms(1,3) pack_write_def nlen)
      then show ?thesis unfolding sum take_cstr eq using that by simp
    qed
  qed (simp_all add: assms(1,3) pack_size_def unpack_read_def field_out_def WT_UNPACK_PUT_def)
qed

lemma field_string:
  assumes "pv_type pv = CHR ''S''" and "field_fits pv u" and "\<not> pv_havesize pv"
  shows "field_codec js pv u (cstr (u_str u) @ [0])"
proof -
  have nul: "0 \<in> set (u_str u)" using assms by (simp add: field_fits_def)
  then have len: "strlen (u_str u) = Inr (length (cstr (u_str u)))" by (simp add: strlen_def)
  show ?thesis
    by (rule field_codecI [where u' = "U_str (cstr (u_str u) @ [0])"])
      (use nul in \<open>simp_all add: assms(1,3) pack_size_def pack_write_def unpack_read_def field_out_def WT_UNPACK_PUT_def len
        cstr_append_nul strlen_cstr take_bytes_def\<close>)
qed

lemma item_sizes_sum:
  assumes "item_sizes pv item = (s, pad)"
  shows "s + pad = (if pv_havesize pv then pv_size pv else length item)"
    and "take s item @ replicate pad 0 = (if pv_havesize pv then padded (pv_size pv) item else item)"
    and "s \<le> length item"
  using assms by (auto simp: item_sizes_def padded_def Let_def split: if_splits)

lemma field_plain_item:
  assumes "pv_type pv = CHR ''u''" and "field_fits pv u"
  shows "field_codec js pv u (if pv_havesize pv then padded (pv_size pv) (u_item u) else u_item u)"
proof -
  obtain s pad where sp: "item_sizes pv (u_item u) = (s, pad)" by fastforce
  note sum = item_sizes_sum [OF sp]
  define w where "w = (if pv_havesize pv then padded (pv_size pv) (u_item u) else u_item u)"
  have len: "length w = s + pad" unfolding sum(1) by (simp add: w_def)
  show ?thesis unfolding w_def [symmetric]
  proof (rule field_codecI [where u' = "U_item w"])
    show "pack_size js pv u = Inr (length w)" by (simp add: assms(1) pack_size_def sp len)
    show "pack_write js pv u room = Inr w" if "length w \<le> room" for room
      using that len sum(2) by (simp add: assms(1) pack_write_def sp w_def)
    show "unpack_read pv (length (w @ rest)) (w @ rest) = Inr (U_item w, rest)" if "plain_item pv \<Longrightarrow> rest = []" for rest
      using that by (cases "pv_havesize pv") (simp_all add: assms(1) plain_item_def unpack_read_def w_def take_bytes_def)
  qed (simp add: assms(1) field_out_def WT_UNPACK_PUT_def w_def)
qed

lemma field_item:
  assumes "pv_type pv = CHR ''U''" and "field_fits pv u"
  shows "\<exists>w. field_codec js pv u w"
proof -
  obtain s pad where sp: "item_sizes pv (u_item u) = (s, pad)" by fastforce
  note sum = item_sizes_sum [OF sp]
  define w where "w = (if pv_havesize pv then padded (pv_size pv) (u_item u) else u_item u)"
  have len: "length w = s + pad" unfolding sum(1) by (simp add: w_def)
  have bound: "s + pad < 2 ^ 64" unfolding sum(1) using assms by (simp add: field_fits_def)
  let ?x = "of_nat (s + pad) :: u64"
  have x: "unat ?x = s + pad" using bound by (simp add: unat_of_nat take_bit_nat_eq_self del: of_nat_add)
  obtain v where v: "wt_vpack_uint 0 ?x = Inr v" "length v = wt_vsize_uint ?x"
    using wt_vpack_uint_total [of 0 ?x] by auto
  have pos: "0 < length v" using v(2) wt_vsize_uint_pos by simp
  show ?thesis
  proof (rule exI [of _ "v @ w"], rule field_codecI [where u' = "U_item w"])
    show "pack_size js pv u = Inr (length (v @ w))" by (simp add: assms(1) pack_size_def sp len v(2))
    show "pack_write js pv u room = Inr (v @ w)" if room: "length (v @ w) \<le> room" for room
    proof -
      obtain v' where v': "wt_vpack_uint room ?x = Inr v'"
        using wt_vpack_uint_total [of room ?x] v(2) room by auto
      then have "v' = v" using wt_vpack_uint_unchecked v(1) by fastforce
      moreover have "length v + (s + pad) \<le> room" using room len by simp
      then have "1 \<le> room" "s + pad \<le> room - length v" using pos by linarith+
      moreover have "take s (u_item u) @ replicate pad 0 = w" using sum(2) by (simp add: w_def)
      ultimately show ?thesis using v' by (simp add: assms(1) pack_write_def sp)
    qed
    show "unpack_read pv (length ((v @ w) @ rest)) ((v @ w) @ rest) = Inr (U_item w, rest)" for rest
    proof -
      have "wt_vunpack_uint (length ((v @ w) @ rest)) (v @ (w @ rest)) = Inr (?x, w @ rest)"
        using v(1) by (rule wt_vunpack_uint_vpack) simp
      moreover have "pv_havesize pv \<Longrightarrow> pv_size pv = length w" "\<not> pv_havesize pv \<Longrightarrow> unat ?x = length w"
        unfolding x len using sum(1) by auto
      ultimately show ?thesis using pos
        by (cases "pv_havesize pv"; cases v) (simp_all add: assms(1) unpack_read_def Let_def del: of_nat_add)
    qed
  qed (simp add: assms(1) field_out_def WT_UNPACK_PUT_def w_def)
qed

lemma field_codec_ex:
  assumes "WT_PACK_GET pv ap = Inr (u, ap')" and "field_fits pv u"
  shows "\<exists>w. field_codec js pv u w"
proof -
  have "pv_type pv \<in> set ''xsSUubhilqBHILQrRt''"
    using assms(1) by (auto simp: WT_PACK_GET_def Let_def split: if_splits)
  then consider "pv_type pv \<in> set ''hilq''" | "pv_type pv \<in> set ''HILQr''" | "pv_type pv = CHR ''b''" | "pv_type pv \<in> set ''Bt''"
    | "pv_type pv = CHR ''R''" | "pv_type pv = CHR ''x''" | "pv_type pv = CHR ''s''" | "pv_type pv = CHR ''S''" "pv_havesize pv"
    | "pv_type pv = CHR ''S''" "\<not> pv_havesize pv" | "pv_type pv = CHR ''u''" | "pv_type pv = CHR ''U''" by auto
  then show ?thesis
    by cases (use assms(2) in \<open>blast intro: field_int field_uint field_byte field_ubyte field_recno field_pad field_fixed_string
      field_sized_string field_string field_plain_item field_item\<close>)+
qed

subsection \<open>A whole structure\<close>

fun bind_args :: "pack_value list \<Rightarrow> pack_arg list \<Rightarrow> (pack_value \<times> pack_u) list result" where
  "bind_args [] ap = Inr []"
| "bind_args (pv # pvs) ap = wt_ret (WT_PACK_GET pv ap) (\<lambda>(u, ap).
     wt_ret (bind_args pvs ap) (\<lambda>vs. Inr ((pv, u) # vs)))"

fun plain_last :: "pack_value list \<Rightarrow> bool" where
  "plain_last [] \<longleftrightarrow> True"
| "plain_last (pv # pvs) \<longleftrightarrow> (plain_item pv \<longrightarrow> pvs = []) \<and> plain_last pvs"

definition fields_out :: "(pack_value \<times> pack_u) list \<Rightarrow> pack_out list" where
  "fields_out vs = concat (map (\<lambda>(pv, u). field_out pv u) vs)"

lemma fields_codec:
  assumes "bind_args pvs ap = Inr vs" and "\<forall>(pv, u) \<in> set vs. field_fits pv u" and "plain_last pvs"
  shows "\<exists>w. (\<forall>n. \<exists>ap'. fold_result (\<lambda>s pv. size_step js pv s) pvs (ap, n) = Inr (ap', n + length w)) \<and>
    (\<forall>room bs. length w \<le> room \<longrightarrow>
      (\<exists>ap'. fold_result (\<lambda>s pv. pack_step js pv s) pvs (ap, room, bs) = Inr (ap', room - length w, bs @ w))) \<and>
    (\<forall>outs. fold_result (\<lambda>s pv. unpack_step pv s) pvs (w, outs) = Inr ([], outs @ fields_out vs)) \<and> (pvs = [] \<longrightarrow> w = [])"
  using assms
proof (induction pvs arbitrary: ap vs)
  case Nil
  then show ?case by (intro exI [of _ "[]"]) (simp add: fields_out_def)
next
  case (Cons pv pvs)
  obtain u ap1 vs1 where get: "WT_PACK_GET pv ap = Inr (u, ap1)" and bind: "bind_args pvs ap1 = Inr vs1" and vs: "vs = (pv, u) # vs1"
    using Cons.prems(1) by (auto simp: wt_ret_Inr_iff)
  have fits: "field_fits pv u" "\<forall>(pv, u) \<in> set vs1. field_fits pv u" and last: "plain_last pvs"
    using Cons.prems(2,3) vs by auto
  obtain w2 where size2: "\<forall>n. \<exists>ap'. fold_result (\<lambda>s pv. size_step js pv s) pvs (ap1, n) = Inr (ap', n + length w2)"
    and pack2: "\<forall>room bs. length w2 \<le> room \<longrightarrow>
      (\<exists>ap'. fold_result (\<lambda>s pv. pack_step js pv s) pvs (ap1, room, bs) = Inr (ap', room - length w2, bs @ w2))"
    and unpack2: "\<forall>outs. fold_result (\<lambda>s pv. unpack_step pv s) pvs (w2, outs) = Inr ([], outs @ fields_out vs1)"
    and nil: "pvs = [] \<longrightarrow> w2 = []"
    using Cons.IH [OF bind fits(2) last] by blast
  obtain w1 where w1: "field_codec js pv u w1" using field_codec_ex [OF get fits(1)] by blast
  have size1: "size_step js pv (ap, n) = Inr (ap1, n + length w1)" for n
    using w1 by (simp add: size_step_def get field_codec_def)
  have pack1: "pack_step js pv (ap, room, bs) = Inr (ap1, room - length w1, bs @ w1)" if "length w1 \<le> room" for room bs
    using w1 that by (simp add: pack_step_def get field_codec_def write_room_def)
  have "plain_item pv \<longrightarrow> w2 = []" using Cons.prems(3) nil by auto
  then obtain u' where u': "unpack_read pv (length (w1 @ w2)) (w1 @ w2) = Inr (u', w2)" "WT_UNPACK_PUT pv u' = field_out pv u"
    using w1 unfolding field_codec_def by blast
  have unpack1: "unpack_step pv (w1 @ w2, outs) = Inr (w2, outs @ field_out pv u)" for outs
    using u' by (simp add: unpack_step_def)
  show ?case
  proof (intro exI [of _ "w1 @ w2"] conjI allI impI)
    show "\<exists>ap'. fold_result (\<lambda>s pv. size_step js pv s) (pv # pvs) (ap, n) = Inr (ap', n + length (w1 @ w2))" for n
      using spec [OF size2, of "n + length w1"] by (simp add: size1 add.assoc)
    show "\<exists>ap'. fold_result (\<lambda>s pv. pack_step js pv s) (pv # pvs) (ap, room, bs) = Inr (ap', room - length (w1 @ w2), bs @ w1 @ w2)"
      if "length (w1 @ w2) \<le> room" for room bs
      using pack2 [rule_format, of "room - length w1" "bs @ w1"] that by (simp add: pack1)
    show "fold_result (\<lambda>s pv. unpack_step pv s) (pv # pvs) (w1 @ w2, outs) = Inr ([], outs @ fields_out vs)" for outs
      by (simp add: unpack1 unpack2 vs fields_out_def)
  qed simp
qed

subsection \<open>The format\<close>

definition fmt_at :: "wt_pack \<Rightarrow> char list \<Rightarrow> bool" where
  "fmt_at pack rest \<longleftrightarrow> pk_cur pack = rest @ [CHR 0x00] \<and> CHR 0x00 \<notin> set rest \<and> pk_left pack = int (length rest)"

definition fmt_ok :: "wt_pack \<Rightarrow> bool" where
  "fmt_ok pack \<longleftrightarrow> (\<exists>rest. fmt_at pack rest) \<and> (0 < pk_repeats pack \<longrightarrow> \<not> plain_item (pk_lastv pack))"

lemma not_digit_nul [simp]: "\<not> wt_isdigit CHR 0x00"
  by (simp add: wt_isdigit_def)

lemma pack_prefix_ok:
  assumes "fmt_at pack rest" and "pack_prefix pack = Inr (pv, pack')" and "pv_type pv \<noteq> CHR 0x00"
  shows "\<exists>rest'. fmt_at pack' rest' \<and> pk_repeats pack' = 0 \<and> length rest' < length rest"
proof -
  have cur: "pk_cur pack = rest @ [CHR 0x00]" "CHR 0x00 \<notin> set rest" "pk_left pack = int (length rest)"
    using assms(1) by (simp_all add: fmt_at_def)
  obtain c cs where c: "pk_cur pack = c # cs" using cur(1) by (cases rest) auto
  have tw: "takeWhile wt_isdigit (pk_cur pack) = takeWhile wt_isdigit rest"
    unfolding cur(1) by (rule takeWhile_tail) simp
  show ?thesis
  proof (cases "dropWhile wt_isdigit rest")
    case Nil
    then have "dropWhile wt_isdigit (pk_cur pack) = [CHR 0x00]" by (simp add: cur(1) dropWhile_append)
    then have "pv_type pv = CHR 0x00" using assms(2) by (auto simp: pack_prefix_def Let_def c simp del: takeWhile.simps dropWhile.simps)
    then show ?thesis using assms(3) by simp
  next
    case (Cons t rest')
    have "\<exists>x \<in> set rest. \<not> wt_isdigit x" using Cons by (metis dropWhile_eq_Nil_conv list.distinct(1))
    then have dw: "dropWhile wt_isdigit (pk_cur pack) = t # rest' @ [CHR 0x00]" using Cons cur(1) by (auto simp: dropWhile_append)
    have len: "length rest = length (takeWhile wt_isdigit rest) + Suc (length rest')"
      using arg_cong [OF takeWhile_dropWhile_id [of wt_isdigit rest], of length] Cons by simp
    have "set (dropWhile wt_isdigit rest) \<subseteq> set rest" by (auto dest: set_dropWhileD)
    then have "CHR 0x00 \<notin> set rest'" using cur(2) Cons by auto
    moreover have "pack' = pack\<lparr>pk_cur := rest' @ [CHR 0x00], pk_left := pk_left pack - int (length (takeWhile wt_isdigit rest)) - 1, pk_repeats := 0\<rparr>"
      using assms(2) dw tw by (simp add: pack_prefix_def Let_def c del: takeWhile.simps dropWhile.simps)
    ultimately have "fmt_at pack' rest'" "pk_repeats pack' = 0" using cur(3) len by (simp_all add: fmt_at_def)
    then show ?thesis using len by (intro exI [of _ rest']) simp
  qed
qed

text \<open>What the iterator reaches, and that an item without a size ends the format.\<close>

lemma pack_next_field_ok:
  assumes "fmt_at pack rest" and "pack_next_field pack = Inr (pv, pack')"
  shows "fmt_ok pack' \<and> (plain_item pv \<longrightarrow> pk_left pack' = 0 \<and> pk_repeats pack' = 0)"
  using assms
proof (induction pack arbitrary: rest rule: pack_next_field.induct)
  case (1 pack)
  have left: "pk_left pack \<noteq> 0" using 1(3) by (auto simp: pack_next_field.simps [of pack])
  obtain pv1 pack1 where pre: "pack_prefix pack = Inr (pv1, pack1)"
    using 1(3) left by (cases "pack_prefix pack") (auto simp: pack_next_field.simps [of pack])
  note eq = 1(3) [unfolded pack_next_field.simps [of pack] if_not_P [OF left] pre sum.case prod.case Let_def]
  have nul: "pv_type pv1 \<noteq> CHR 0x00" using eq by (auto split: if_splits)
  obtain rest1 where at: "fmt_at pack1 rest1" and rep: "pk_repeats pack1 = 0" using pack_prefix_ok [OF 1(2) pre nul] by blast
  have ok: "fmt_ok pack1" using at rep by (auto simp: fmt_ok_def)
  consider (same) "(pv, pack') = (pv1, pack1)" "pv_type pv1 \<in> set ''SxUst''" | (item) "pv_type pv1 = CHR ''u''"
    | (repeat) "pv_type pv1 \<in> set ''bhiBHIlLqQrR''" using eq by (auto split: if_splits)
  then show ?case
  proof cases
    case same
    then show ?thesis using ok by (auto simp: plain_item_def)
  next
    case item
    show ?thesis
    proof (cases "pv_havesize pv1")
      case True
      then show ?thesis using eq item ok by (simp add: plain_item_def)
    next
      case False
      obtain d ds where d: "pk_cur pack1 = d # ds" using at by (cases "pk_cur pack1") (auto simp: fmt_at_def)
      then have r: "pv = pv1\<lparr>pv_type := (if d \<noteq> CHR 0x00 then CHR ''U'' else CHR ''u'')\<rparr>" "pack' = pack1"
        using eq item False by simp_all
      have "pk_left pack1 = 0" if "d = CHR 0x00" using at d that by (cases rest1) (auto simp: fmt_at_def)
      then show ?thesis using r ok rep by (simp add: plain_item_def)
    qed
  next
    case repeat
    show ?thesis
    proof (cases "pv_size pv1 = 0")
      case True
      have ints: "pv_type pv1 \<notin> set ''SxU''" "pv_type pv1 \<noteq> CHR ''s''" "pv_type pv1 \<noteq> CHR ''t''" "pv_type pv1 \<noteq> CHR ''u''"
        using repeat by auto
      then have "pack_next_field pack1 = Inr (pv, pack')" using eq repeat True by (simp del: list.set)
      then show ?thesis using 1(1) [OF left pre refl refl ints repeat True at] by blast
    next
      case False
      then have "pv = pv1\<lparr>pv_havesize := False\<rparr>" "pack' = pack1\<lparr>pk_repeats := pv_size pv1 - 1, pk_lastv := pv1\<lparr>pv_havesize := False\<rparr>\<rparr>"
        using eq repeat by auto
      then show ?thesis using at repeat by (auto simp: plain_item_def fmt_ok_def fmt_at_def)
    qed
  qed
qed

lemma pack_next_ok:
  assumes "fmt_ok pack" and "pack_next pack = Inr (pv, pack')"
  shows "fmt_ok pack' \<and> (plain_item pv \<longrightarrow> pk_left pack' = 0 \<and> pk_repeats pack' = 0)"
proof (cases "0 < pk_repeats pack")
  case True
  then show ?thesis using assms by (auto simp: pack_next_def fmt_ok_def fmt_at_def)
next
  case False
  then show ?thesis using assms pack_next_field_ok by (auto simp: pack_next_def fmt_ok_def)
qed

lemma pack_values_plain_last: "fmt_ok pack \<Longrightarrow> plain_last (fst (pack_values pack))"
proof (induction pack rule: pack_values.induct)
  case (1 pack)
  show ?case
  proof (cases "pack_next pack")
    case (Inl e)
    then show ?thesis by (simp add: pack_values.simps [of pack])
  next
    case (Inr r)
    then obtain pv pack' where r: "pack_next pack = Inr (pv, pack')" by (cases r) auto
    note ok = pack_next_ok [OF 1(2) r]
    have "pack_values pack' = ([], WT_NOTFOUND)" if "plain_item pv"
      using ok that by (simp add: pack_values.simps [of pack'] pack_next_def pack_next_field.simps [of pack'])
    then show ?thesis using 1(1) [OF r refl] ok by (simp add: pack_values.simps [of pack] r split_def Let_def)
  qed
qed

lemma pack_init_ok:
  assumes "CHR 0x00 \<notin> set fmt" and "fmt = [] \<or> hd fmt \<noteq> CHR ''.''" and "pack_init fmt = Inr pack"
  shows "fmt_ok pack"
proof -
  have "pack = \<lparr>pk_cur = fmt @ [CHR 0x00], pk_left = int (length fmt), pk_repeats = 0, pk_lastv = WT_PACK_VALUE_INIT\<rparr>"
    using assms by (cases fmt) (simp_all add: pack_init_def pack_initn_def split: if_splits)
  then show ?thesis using assms(1) by (auto simp: fmt_ok_def fmt_at_def)
qed

lemma fields_of_plain_last:
  assumes "CHR 0x00 \<notin> set fmt" and "fmt = [] \<or> hd fmt \<noteq> CHR ''.''" and "fields_of fmt = Inr pvs"
  shows "plain_last pvs"
proof -
  obtain pack where pack: "pack_init fmt = Inr pack"
    and "(case pack_values pack of (pvs, e) \<Rightarrow> if e = WT_NOTFOUND then Inr pvs else Inl e) = Inr pvs"
    using assms(3) unfolding fields_of_def wt_ret_Inr_iff by blast
  then have "fst (pack_values pack) = pvs" by (cases "pack_values pack") (simp split: if_splits)
  then show ?thesis using pack_values_plain_last pack_init_ok [OF assms(1,2) pack] by blast
qed

lemma fields_of_single:
  assumes "fields_of [c] = Inr pvs" and "c \<noteq> CHR 0x00" and "c \<noteq> CHR ''.''"
  shows "pvs = [WT_PACK_VALUE_INIT\<lparr>pv_type := c\<rparr>]"
proof -
  let ?pack = "\<lparr>pk_cur = [c, CHR 0x00], pk_left = 1, pk_repeats = 0, pk_lastv = WT_PACK_VALUE_INIT\<rparr>"
  let ?pv = "WT_PACK_VALUE_INIT\<lparr>pv_type := c\<rparr>"
  have "c \<notin> set ''@<>''" using assms(1) by (auto simp: fields_of_def pack_init_def pack_initn_def)
  then have "pack_init [c] = Inr ?pack" using assms(3) by (simp add: pack_init_def pack_initn_def)
  then have vals: "(case pack_values ?pack of (pvs, e) \<Rightarrow> if e = WT_NOTFOUND then Inr pvs else Inl e) = Inr pvs"
    using assms(1) by (simp add: fields_of_def)
  have field: "\<exists>pack'. pack_next_field ?pack = Inr (?pv, pack') \<and> pk_left pack' = 0 \<and> pk_repeats pack' = 0"
  proof (cases "wt_isdigit c")
    case True
    then have "pack_next_field ?pack = Inl EINVAL" by (simp add: pack_next_field.simps [of ?pack] pack_prefix_def Let_def)
    then show ?thesis using vals by (simp add: pack_values.simps [of ?pack] pack_next_def)
  next
    case False
    then have "pack_prefix ?pack = Inr (?pv, ?pack\<lparr>pk_cur := [CHR 0x00], pk_left := 0\<rparr>)"
      by (simp add: pack_prefix_def WT_PACK_VALUE_INIT_def)
    moreover have "pack_next_field ?pack \<noteq> Inl EINVAL"
      using vals by (auto simp: pack_values.simps [of ?pack] pack_next_def)
    moreover have "pv_type ?pv = c" "pv_size ?pv = 1" "\<not> pv_havesize ?pv" "?pv\<lparr>pv_type := c\<rparr> = ?pv" "?pv\<lparr>pv_havesize := False\<rparr> = ?pv"
      by (simp_all add: WT_PACK_VALUE_INIT_def)
    ultimately show ?thesis
      by (auto simp: pack_next_field.simps [of ?pack] Let_def split: if_splits)
  qed
  then obtain pack' where f: "pack_next_field ?pack = Inr (?pv, pack')" "pk_left pack' = 0" "pk_repeats pack' = 0" by blast
  have "pack_values pack' = ([], WT_NOTFOUND)"
    using f by (simp add: pack_values.simps [of pack'] pack_next_def pack_next_field.simps [of pack'])
  then have "pack_values ?pack = ([?pv], WT_NOTFOUND)" by (simp add: pack_values.simps [of ?pack] pack_next_def f(1))
  then show ?thesis using vals by simp
qed

subsection \<open>Properties\<close>

lemma struct_roundtrip_fields:
  assumes "CHR 0x00 \<notin> set fmt" and "fmt = [] \<or> hd fmt \<noteq> CHR ''.''" and "fields_of fmt = Inr pvs"
    and "bind_args pvs ap = Inr vs" and "\<forall>(pv, u) \<in> set vs. field_fits pv u"
  shows "\<exists>bs. wt_struct_sizev js fmt ap = Inr (length bs) \<and> (\<forall>sz. length bs \<le> sz \<longrightarrow> wt_struct_packv js sz fmt ap = Inr bs) \<and>
    wt_struct_unpackv bs fmt = Inr (fields_out vs)"
proof (cases "length fmt = 1")
  case True
  then obtain c where c: "fmt = [c]" by (auto simp: length_Suc_conv)
  let ?pv = "WT_PACK_VALUE_INIT\<lparr>pv_type := c\<rparr>"
  have pvs: "pvs = [?pv]" using fields_of_single [of c pvs] assms(1-3) c by simp
  obtain u ap' where get: "WT_PACK_GET ?pv ap = Inr (u, ap')" and vs: "vs = [(?pv, u)]"
    using assms(4) pvs by (auto simp: wt_ret_Inr_iff)
  obtain w where w: "field_codec js ?pv u w" using field_codec_ex [OF get] assms(5) vs by fastforce
  have "\<exists>u'. unpack_read ?pv (length (w @ [])) (w @ []) = Inr (u', []) \<and> WT_UNPACK_PUT ?pv u' = field_out ?pv u"
    using w unfolding field_codec_def by blast
  then obtain u' where u': "unpack_read ?pv (length w) w = Inr (u', [])" "WT_UNPACK_PUT ?pv u' = field_out ?pv u"
    unfolding append_Nil2 by blast
  have size: "pack_size js ?pv u = Inr (length w)" and write_ok: "\<And>room. length w \<le> room \<Longrightarrow> pack_write js ?pv u room = Inr w"
    using w by (simp_all add: field_codec_def)
  have "wt_struct_sizev js fmt ap = Inr (length w)" unfolding c wt_struct_sizev_def by (simp add: get size)
  moreover have "wt_struct_unpackv w fmt = Inr (fields_out vs)"
    unfolding c wt_struct_unpackv_def vs fields_out_def by (simp add: u')
  moreover have "wt_struct_packv js sz fmt ap = Inr w" if "length w \<le> sz" for sz
    unfolding c wt_struct_packv_def using that by (simp add: get write_ok write_room_def)
  ultimately show ?thesis by blast
next
  case False
  then have cases: "(case fmt of [] \<Rightarrow> x | [c] \<Rightarrow> y c | c # d # cs \<Rightarrow> x) = x" for x :: "'x" and y
    by (cases fmt rule: remdups_adj.cases) simp_all
  obtain w where size: "\<exists>ap'. fold_result (\<lambda>s pv. size_step js pv s) pvs (ap, 0) = Inr (ap', 0 + length w)"
    and pack: "\<And>room. length w \<le> room \<Longrightarrow>
      \<exists>ap'. fold_result (\<lambda>s pv. pack_step js pv s) pvs (ap, room, []) = Inr (ap', room - length w, [] @ w)"
    and unpack: "fold_result (\<lambda>s pv. unpack_step pv s) pvs (w, []) = Inr ([], [] @ fields_out vs)"
    using fields_codec [OF assms(4,5) fields_of_plain_last [OF assms(1-3)], of js] by blast
  note loop = pack_loop_fields [OF assms(3)]
  have "wt_struct_sizev js fmt ap = Inr (length w)"
    using size unfolding wt_struct_sizev_def cases loop by auto
  moreover have "wt_struct_packv js sz fmt ap = Inr w" if "length w \<le> sz" for sz
    using pack [OF that] unfolding wt_struct_packv_def cases loop by auto
  moreover have "wt_struct_unpackv w fmt = Inr (fields_out vs)"
    using unpack unfolding wt_struct_unpackv_def cases loop by auto
  ultimately show ?thesis by blast
qed

text \<open>
  C19: Packing a structure and unpacking it with the same format gives the arguments back: when the format
  parses to the fields \<open>pvs\<close>, does not start with a dot, and the arguments have the types of the fields and reach as far as they
  are read, the computed size is exactly the bytes packed, packing into a buffer of at least that size does
  not fail or leave it, and unpacking those bytes hands back every field (numbers at their width, sized
  strings and items padded).
\<close>

theorem struct_roundtrip:
  assumes "CHR 0x00 \<notin> set fmt" and "fmt = [] \<or> hd fmt \<noteq> CHR ''.''" and "fields_of fmt = Inr pvs"
    and "bind_args pvs ap = Inr vs" and "\<forall>(pv, u) \<in> set vs. field_fits pv u"
  shows "\<exists>bs. wt_struct_sizev js fmt ap = Inr (length bs) \<and> (\<forall>sz. length bs \<le> sz \<longrightarrow> wt_struct_packv js sz fmt ap = Inr bs) \<and>
    wt_struct_unpackv bs fmt = Inr (fields_out vs)"
  using struct_roundtrip_fields [OF assms] .

definition demo_json :: json_ops where
  "demo_json = \<lparr>js_strlen = length, js_strncpy = (\<lambda>n bs. Inr bs)\<rparr>"

definition demo_fmt :: "char list" where
  "demo_fmt = ''r3Suhu''"

definition demo_args :: "pack_arg list" where
  "demo_args = [A_uint64 300, A_str [104, 105, 0], A_item [7, 8], A_int 5, A_item [9]]"

definition demo_pvs :: "pack_value list" where
  "demo_pvs = [\<lparr>pv_size = 1, pv_havesize = False, pv_type = CHR ''r''\<rparr>, \<lparr>pv_size = 3, pv_havesize = True, pv_type = CHR ''S''\<rparr>,
     \<lparr>pv_size = 1, pv_havesize = False, pv_type = CHR ''U''\<rparr>, \<lparr>pv_size = 1, pv_havesize = False, pv_type = CHR ''h''\<rparr>,
     \<lparr>pv_size = 1, pv_havesize = False, pv_type = CHR ''u''\<rparr>]"

definition demo_vs :: "(pack_value \<times> pack_u) list" where
  "demo_vs = zip demo_pvs [U_num 300, U_str [104, 105, 0], U_item [7, 8], U_num 5, U_item [9]]"

lemma demo_fields: "fields_of demo_fmt = Inr demo_pvs"
  by (simp add: fields_of_def demo_fmt_def demo_pvs_def pack_init_def pack_initn_def pack_values.simps pack_next_def
      pack_next_field.simps pack_prefix_def wt_isdigit_def strtoul_def Let_def of_char_def)

lemma demo_bind: "bind_args demo_pvs demo_args = Inr demo_vs"
  by (simp add: demo_pvs_def demo_args_def demo_vs_def WT_PACK_GET_def va_arg_def)

lemma demo_out: "fields_out demo_vs = [O_64 300, O_str [104, 105, 0], O_item [7, 8], O_16 5, O_item [9]]"
  by (simp add: demo_vs_def demo_pvs_def fields_out_def field_out_def padded_def WT_UNPACK_PUT_def)

lemma struct_roundtrip_witness:
  "\<exists>bs. wt_struct_sizev demo_json demo_fmt demo_args = Inr (length bs) \<and>
    wt_struct_packv demo_json (length bs) demo_fmt demo_args = Inr bs \<and>
    wt_struct_unpackv bs demo_fmt = Inr [O_64 300, O_str [104, 105, 0], O_item [7, 8], O_16 5, O_item [9]]"
proof -
  have "CHR 0x00 \<notin> set demo_fmt" "demo_fmt = [] \<or> hd demo_fmt \<noteq> CHR ''.''" by (simp_all add: demo_fmt_def)
  moreover have "\<forall>(pv, u) \<in> set demo_vs. field_fits pv u"
    by (simp add: demo_vs_def demo_pvs_def field_fits_def)
  ultimately have "\<exists>bs. wt_struct_sizev demo_json demo_fmt demo_args = Inr (length bs) \<and>
      (\<forall>sz. length bs \<le> sz \<longrightarrow> wt_struct_packv demo_json sz demo_fmt demo_args = Inr bs) \<and>
      wt_struct_unpackv bs demo_fmt = Inr (fields_out demo_vs)"
    by (rule struct_roundtrip [OF _ _ demo_fields demo_bind])
  then show ?thesis unfolding demo_out by blast
qed

text \<open>
  The documentation names a leading dot as the supported byte order; the end of the format is not moved with its
  start, so the nul after the format is taken for a type.
\<close>

lemma leading_dot_rejected: "wt_struct_sizev demo_json ''.ii'' [A_int 1, A_int 2] = Inl EINVAL"
  by code_simp

text \<open>When the first field has filled the buffer the second is written past it: a size of zero is not checked.\<close>

lemma full_buffer_unchecked: "wt_struct_packv demo_json 1 ''BB'' [A_uint 1, A_uint 2] = Inl OutOfBounds"
  by code_simp

text \<open>The size read for an item is checked against the bytes before that size was read, not after.\<close>

lemma item_size_unchecked: "wt_struct_unpackv [0x82, 7] ''uB'' = Inl OutOfBounds"
  by code_simp

subsection \<open>Adjusting a size that counts itself\<close>

lemma leading_zeros_mono: "unat x \<le> unat y \<Longrightarrow> WT_LEADING_ZEROS y \<le> WT_LEADING_ZEROS x"
proof (rule ccontr)
  assume le: "unat x \<le> unat y" and "\<not> WT_LEADING_ZEROS y \<le> WT_LEADING_ZEROS x"
  then have less: "WT_LEADING_ZEROS x < WT_LEADING_ZEROS y" by simp
  then have "WT_LEADING_ZEROS x < 8" using WT_LEADING_ZEROS_spec(1) [of y] by simp
  from WT_LEADING_ZEROS_spec(3) [OF this] have "256 ^ (7 - WT_LEADING_ZEROS x) \<le> unat x" .
  moreover have "unat y < 256 ^ (8 - WT_LEADING_ZEROS y)" by (rule WT_LEADING_ZEROS_spec(2))
  moreover have "(256 :: nat) ^ (8 - WT_LEADING_ZEROS y) \<le> 256 ^ (7 - WT_LEADING_ZEROS x)"
    using less by (intro power_increasing) auto
  ultimately show False using le by linarith
qed

lemma wt_vsize_uint_nat:
  "wt_vsize_uint x = (if unat x \<le> 63 then 1 else if unat x \<le> 8256 then 2 else 9 - WT_LEADING_ZEROS (x - (POS_2BYTE_MAX + 1)))"
proof -
  have "unat (POS_2BYTE_MAX + 1) = 8256" "unat POS_1BYTE_MAX = 63" by (simp_all add: POS_2BYTE_MAX_def POS_1BYTE_MAX_def)
  then show ?thesis by (simp add: wt_vsize_uint_def nat_le_word wt_vsize_posint_def WT_INTPACK64_MAXSIZE_def)
qed

lemma unat_minus_two_byte: "8256 < unat x \<Longrightarrow> unat (x - (POS_2BYTE_MAX + 1)) = unat x - 8256"
proof -
  assume less: "8256 < unat x"
  have u: "unat (POS_2BYTE_MAX + 1) = 8256" by (simp add: POS_2BYTE_MAX_def POS_1BYTE_MAX_def)
  have "POS_2BYTE_MAX + 1 \<le> x" unfolding nat_le_word u using less by simp
  from unat_sub [OF this] show ?thesis unfolding u .
qed

lemma wt_vsize_uint_mono: "unat x \<le> unat y \<Longrightarrow> wt_vsize_uint x \<le> wt_vsize_uint y"
proof -
  assume le: "unat x \<le> unat y"
  have big: "2 \<le> 9 - WT_LEADING_ZEROS (z - (POS_2BYTE_MAX + 1))" if "8256 < unat z" for z
  proof -
    let ?d = "z - (POS_2BYTE_MAX + 1)"
    have "WT_LEADING_ZEROS ?d \<noteq> 8" using WT_LEADING_ZEROS_spec(2) [of ?d] unat_minus_two_byte [OF that] that by auto
    then show ?thesis using WT_LEADING_ZEROS_spec(1) [of ?d] by simp
  qed
  have both: "9 - WT_LEADING_ZEROS (x - (POS_2BYTE_MAX + 1)) \<le> 9 - WT_LEADING_ZEROS (y - (POS_2BYTE_MAX + 1))" if "8256 < unat x"
  proof -
    have "8256 < unat y" using that le by simp
    then have "unat (x - (POS_2BYTE_MAX + 1)) \<le> unat (y - (POS_2BYTE_MAX + 1))"
      using that le by (simp add: unat_minus_two_byte)
    then show ?thesis by (intro diff_le_mono2 leading_zeros_mono)
  qed
  consider "unat x \<le> 63" | "63 < unat x" "unat x \<le> 8256" "unat y \<le> 8256" | "unat x \<le> 8256" "8256 < unat y" | "8256 < unat x"
    by linarith
  then show ?thesis
  proof cases
    case 1
    show ?thesis using 1 big [of y] by (auto simp: wt_vsize_uint_nat)
  next
    case 2
    then show ?thesis using le by (simp add: wt_vsize_uint_nat)
  next
    case 3
    then show ?thesis using big [of y] by (auto simp: wt_vsize_uint_nat)
  next
    case 4
    then show ?thesis using le both by (simp add: wt_vsize_uint_nat)
  qed
qed

lemma size_adjust_loop_ends:
  assumes "prev \<le> wt_vsize_uint sz" and "unat sz + (9 - prev) < 2 ^ 64"
  shows "\<exists>c. size_adjust_loop sz prev = Some c \<and> unat c + prev = unat sz + wt_vsize_uint c"
  using assms
proof (induction "9 - prev" arbitrary: sz prev rule: less_induct)
  case less
  let ?f = "wt_vsize_uint sz"
  have f: "?f \<le> 9" using wt_vsize_uint_le [of sz] by (simp add: WT_INTPACK64_MAXSIZE_def)
  show ?case
  proof (cases "?f = prev")
    case True
    then show ?thesis by (subst size_adjust_loop.simps) (simp add: Let_def)
  next
    case False
    then have pf: "prev < ?f" using less.prems(1) by simp
    let ?c = "sz + (of_nat ?f - of_nat prev)"
    have "of_nat ?f - of_nat prev = (of_nat (?f - prev) :: u64)" using pf by simp
    moreover have "unat (of_nat (?f - prev) :: u64) = ?f - prev"
      using f by (simp add: unat_of_nat take_bit_nat_eq_self del: of_nat_diff)
    moreover have "unat sz + (?f - prev) < 2 ^ 64" using less.prems(2) f pf by linarith
    ultimately have c: "unat ?c = unat sz + (?f - prev)"
      using unat_add_lem [of sz "of_nat (?f - prev)"] by (simp del: of_nat_diff)
    have "?f \<le> wt_vsize_uint ?c" using wt_vsize_uint_mono [of sz ?c] c by simp
    moreover have "unat ?c + (9 - ?f) < 2 ^ 64" using c less.prems(2) pf f by simp
    moreover have "9 - ?f < 9 - prev" using pf f by linarith
    ultimately obtain r where r: "size_adjust_loop ?c ?f = Some r" "unat r + ?f = unat ?c + wt_vsize_uint r"
      using less.hyps [of ?f ?c] by blast
    have "size_adjust_loop sz prev = Some r"
      using False r(1) by (subst size_adjust_loop.simps) (simp add: Let_def)
    then show ?thesis using r(2) c pf by simp
  qed
qed

text \<open>The loop ends, and the size it gives counts the bytes of its own packed form in place of the one assumed.\<close>

lemma struct_size_adjust:
  assumes "unat sz + 8 < 2 ^ 64"
  shows "\<exists>c. wt_struct_size_adjust sz = Some c \<and> unat c + 1 = unat sz + wt_vsize_uint c"
  using size_adjust_loop_ends [of 1 sz] assms wt_vsize_uint_mono [of 0 sz]
  by (simp add: wt_struct_size_adjust_def wt_vsize_uint_nat [of 0])

end
