(* ===== verification/LogSlot.thy ===== *)
theory LogSlot
  imports Wt_Prelude
begin

text \<open>
  The log's slots (\<open>src/log/log_slot.c\<close>, \<open>src/include/log.h\<close> and the callers in \<open>src/log/log.c\<close>). A slot gathers
  the records of several threads: its state is one 64-bit word with the bytes joined in the high half, the
  bytes released in the low half, and flags in the top two bits. Records larger than half the slot's buffer
  are written directly and count as \<open>2 ^ 19\<close> joined bytes. This theory holds the macros, the slot and the log, and the operations,
  each loop as the function of one turn, with the values it read as arguments. A file handle is a number;
  assertions, statistics and messages are not modelled, a wait is a turn that does nothing.
\<close>

definition log_slot_buf_size :: nat where "log_slot_buf_size = 256 * 1024"

definition log_slot_unbuffered :: u64 where "log_slot_unbuffered = 2 ^ 19"

definition log_slot_free :: u64 where "log_slot_free = - 1"

definition log_slot_written :: u64 where "log_slot_written = - 2"

definition log_slot_close_bit :: u64 where "log_slot_close_bit = 0x4000000000000000"

definition log_slot_reserved :: u64 where "log_slot_reserved = 0x8000000000000000"

definition log_slot_mask_off :: u64 where "log_slot_mask_off = 0x3fffffffffffffff"

definition log_slot_join_mask :: u64 where "log_slot_join_mask = drop_bit 32 log_slot_mask_off"

definition fld_isset :: "u64 \<Rightarrow> u64 \<Rightarrow> bool" where
  "fld_isset field m \<longleftrightarrow> field AND m \<noteq> 0"

definition unbuffered_isset :: "u64 \<Rightarrow> bool" where
  "unbuffered_isset state \<longleftrightarrow> state AND push_bit 32 log_slot_unbuffered \<noteq> 0"

definition slot_flags_of :: "u64 \<Rightarrow> u64" where
  "slot_flags_of state = state AND NOT log_slot_mask_off"

definition slot_joined :: "u64 \<Rightarrow> u64" where
  "slot_joined state = drop_bit 32 (state AND log_slot_mask_off)"

definition slot_joined_buffered :: "u64 \<Rightarrow> u64" where
  "slot_joined_buffered state = slot_joined state AND (log_slot_unbuffered - 1)"

definition slot_join_rel :: "u64 \<Rightarrow> u64 \<Rightarrow> u64 \<Rightarrow> u64" where
  "slot_join_rel j r s = push_bit 32 j + r + s"

definition slot_released :: "u64 \<Rightarrow> u64" where
  "slot_released state = scast (ucast state :: u32)"

definition slot_released_buffered :: "u64 \<Rightarrow> u64" where
  "slot_released_buffered state = scast ((ucast (slot_released state) :: u32) AND ucast (log_slot_unbuffered - 1))"

definition slot_active :: "u64 \<Rightarrow> bool" where
  "slot_active state \<longleftrightarrow> slot_joined state \<noteq> log_slot_join_mask"

definition slot_closed :: "u64 \<Rightarrow> bool" where
  "slot_closed state \<longleftrightarrow> slot_active state \<and> fld_isset state log_slot_close_bit \<and> \<not> fld_isset state log_slot_reserved"

definition slot_inprogress :: "u64 \<Rightarrow> bool" where
  "slot_inprogress state \<longleftrightarrow> slot_released state \<noteq> slot_joined state"

definition slot_done :: "u64 \<Rightarrow> bool" where
  "slot_done state \<longleftrightarrow> slot_closed state \<and> \<not> slot_inprogress state"

text \<open>\<open>WT_LOG_SLOT_BUF_MAX\<close> is half the slot's buffer.\<close>

definition log_slot_buf_max :: "u32 \<Rightarrow> u32" where
  "log_slot_buf_max buf_size = buf_size div 2"

definition slot_open :: "u32 \<Rightarrow> u64 \<Rightarrow> bool" where
  "slot_open buf_size state \<longleftrightarrow> slot_active state \<and> \<not> unbuffered_isset state \<and> \<not> fld_isset state log_slot_close_bit \<and>
     slot_joined state < ucast (log_slot_buf_max buf_size)"

subsection \<open>The parts of a state in use\<close>

definition slot_word :: "nat \<Rightarrow> nat \<Rightarrow> bool \<Rightarrow> u64" where
  "slot_word j r c = of_nat (j * 2 ^ 32 + r + of_bool c * 2 ^ 62)"

lemma unat_slot_word:
  assumes "j < 2 ^ 20" "r < 2 ^ 20"
  shows "unat (slot_word j r c) = j * 2 ^ 32 + r + of_bool c * 2 ^ 62"
proof -
  have "j * 2 ^ 32 + r + of_bool c * 2 ^ 62 < (2 ^ 64 :: nat)" using assms by (cases c) simp_all
  then show ?thesis unfolding slot_word_def by (simp add: unsigned_of_nat take_bit_nat_eq_self del: of_nat_add of_nat_mult)
qed

lemma unat_joined: "unat (slot_joined s) = unat s mod 2 ^ 62 div 2 ^ 32"
proof -
  have "s AND log_slot_mask_off = take_bit 62 s" unfolding log_slot_mask_off_def by (simp add: take_bit_eq_mask mask_eq_exp_minus_1)
  then show ?thesis unfolding slot_joined_def unat_drop_bit by (simp only: unsigned_take_bit_eq) (simp only: take_bit_eq_mod)
qed

lemma joined_word: "j < 2 ^ 20 \<Longrightarrow> r < 2 ^ 20 \<Longrightarrow> unat (slot_joined (slot_word j r c)) = j"
  by (cases c) (simp_all add: unat_joined unat_slot_word)

lemma unat_joined_buffered: "unat (slot_joined_buffered s) = unat (slot_joined s) mod 2 ^ 19"
proof -
  have "slot_joined s AND (log_slot_unbuffered - 1) = take_bit 19 (slot_joined s)"
    unfolding log_slot_unbuffered_def by (simp add: take_bit_eq_mask mask_eq_exp_minus_1)
  then show ?thesis unfolding slot_joined_buffered_def by (simp only: unsigned_take_bit_eq) (simp only: take_bit_eq_mod)
qed

lemma released_word:
  assumes "j < 2 ^ 20" "r < 2 ^ 20"
  shows "slot_released (slot_word j r c) = of_nat r"
proof -
  have "unat (ucast (slot_word j r c) :: u32) = unat (slot_word j r c) mod 2 ^ 32"
    by (simp add: unsigned_ucast_eq take_bit_eq_mod)
  also have "unat (slot_word j r c) = r + (j + of_bool c * 2 ^ 30) * 2 ^ 32" using assms by (cases c) (simp_all add: unat_slot_word)
  also have "\<dots> mod 2 ^ 32 = r" using assms(2) by (simp only: mod_mult_self1) simp
  finally have "ucast (slot_word j r c) = (of_nat r :: u32)"
    using assms(2) by (simp add: word_unat_eq_iff unsigned_of_nat take_bit_nat_eq_self)
  then show ?thesis unfolding slot_released_def using assms(2) by (simp add: signed_of_nat signed_take_bit_int_eq_self)
qed

lemma isset_bit: "field AND (2 ^ n) \<noteq> (0 :: u64) \<longleftrightarrow> bit field n"
  by (simp add: and_exp_eq_0_iff_not_bit)

lemma bit_unat: "bit (s :: u64) n \<longleftrightarrow> odd (unat s div 2 ^ n)"
proof -
  have "bit s n \<longleftrightarrow> bit (unat s) n" by (simp add: bit_unsigned_iff)
  also have "\<dots> \<longleftrightarrow> odd (unat s div 2 ^ n)" by (rule bit_iff_odd)
  finally show ?thesis .
qed

lemma bits_word:
  assumes "j < 2 ^ 20" "r < 2 ^ 20"
  shows "bit (slot_word j r c) 62 = c" and "\<not> bit (slot_word j r c) 63" and "bit (slot_word j r c) 51 \<longleftrightarrow> 2 ^ 19 \<le> j"
proof -
  obtain a where a: "a = j * 2 ^ 32 + r" "a < 2 ^ 52" using assms by simp
  have "a div 2 ^ 62 = 0" "(a + 2 ^ 62) div 2 ^ 62 = 1" "a div 2 ^ 63 = 0" "(a + 2 ^ 62) div 2 ^ 63 = 0" using a(2) by simp_all
  moreover have "unat (slot_word j r c) = (if c then a + 2 ^ 62 else a)" unfolding unat_slot_word [OF assms] a(1) by simp
  ultimately show "bit (slot_word j r c) 62 = c" "\<not> bit (slot_word j r c) 63"
    unfolding bit_unat by (simp_all only: if_distrib [of "\<lambda>x. x div (_ :: nat)"] split: if_split) simp_all
  have "unat (slot_word j r c) div 2 ^ 51 = (j * 2 ^ 32 + r) div 2 ^ 51 + of_bool c * 2 ^ 11"
    unfolding unat_slot_word [OF assms] by (cases c) simp_all
  moreover have "(j * 2 ^ 32 + r) div 2 ^ 51 = j div 2 ^ 19"
  proof -
    have "(j * 2 ^ 32 + r) div 2 ^ 51 = (j * 2 ^ 32 + r) div 2 ^ 32 div 2 ^ 19" by (simp add: div_mult2_eq [symmetric])
    also have "(j * 2 ^ 32 + r) div 2 ^ 32 = j" using assms(2) by simp
    finally show ?thesis .
  qed
  moreover have "odd (j div 2 ^ 19) \<longleftrightarrow> 2 ^ 19 \<le> j"
  proof (cases "2 ^ 19 \<le> j")
    case True
    then have "j div 2 ^ 19 = 1" using assms(1) by (simp add: div_nat_eqI)
    then show ?thesis using True by simp
  qed simp
  ultimately show "bit (slot_word j r c) 51 \<longleftrightarrow> 2 ^ 19 \<le> j" by (cases c) (simp_all add: bit_unat)
qed

lemma join_mask: "unat log_slot_join_mask = 2 ^ 30 - 1"
  unfolding log_slot_join_mask_def log_slot_mask_off_def unat_drop_bit by simp

lemma active_word: "j < 2 ^ 20 \<Longrightarrow> r < 2 ^ 20 \<Longrightarrow> slot_active (slot_word j r c)"
  unfolding slot_active_def word_unat_eq_iff join_mask by (simp add: joined_word)

lemma isset_word:
  assumes "j < 2 ^ 20" "r < 2 ^ 20"
  shows "fld_isset (slot_word j r c) log_slot_close_bit = c" and "\<not> fld_isset (slot_word j r c) log_slot_reserved"
    and "unbuffered_isset (slot_word j r c) \<longleftrightarrow> 2 ^ 19 \<le> j"
proof -
  have eqs: "log_slot_close_bit = 2 ^ 62" "log_slot_reserved = 2 ^ 63" "push_bit 32 log_slot_unbuffered = 2 ^ 51"
    by (simp_all add: log_slot_close_bit_def log_slot_reserved_def log_slot_unbuffered_def push_bit_eq_mult)
  show "fld_isset (slot_word j r c) log_slot_close_bit = c" "\<not> fld_isset (slot_word j r c) log_slot_reserved"
    "unbuffered_isset (slot_word j r c) \<longleftrightarrow> 2 ^ 19 \<le> j"
    unfolding fld_isset_def unbuffered_isset_def eqs isset_bit using bits_word [OF assms] by blast+
qed

lemma slot_word_eq_iff:
  assumes "j < 2 ^ 20" "r < 2 ^ 20" "j' < 2 ^ 20" "r' < 2 ^ 20"
  shows "slot_word j r c = slot_word j' r' c' \<longleftrightarrow> j = j' \<and> r = r' \<and> c = c'"
proof
  assume eq: "slot_word j r c = slot_word j' r' c'"
  from eq have "j = j'" using joined_word [OF assms(1,2), of c] joined_word [OF assms(3,4), of c'] by simp
  moreover from eq have "c = c'" using bits_word(1) [OF assms(1,2), of c] bits_word(1) [OF assms(3,4), of c'] by simp
  moreover from eq have "unat (slot_word j r c) = unat (slot_word j' r' c')" by simp
  ultimately show "j = j' \<and> r = r' \<and> c = c'" using assms by (simp add: unat_slot_word)
qed simp

lemma inprogress_word: "j < 2 ^ 20 \<Longrightarrow> r < 2 ^ 20 \<Longrightarrow> slot_inprogress (slot_word j r c) \<longleftrightarrow> r \<noteq> j"
  unfolding slot_inprogress_def word_unat_eq_iff by (simp add: joined_word released_word unsigned_of_nat take_bit_nat_eq_self)

lemma done_word: "j < 2 ^ 20 \<Longrightarrow> r < 2 ^ 20 \<Longrightarrow> slot_done (slot_word j r c) \<longleftrightarrow> c \<and> r = j"
  unfolding slot_done_def slot_closed_def by (simp add: active_word isset_word inprogress_word)

lemma closed_word: "j < 2 ^ 20 \<Longrightarrow> r < 2 ^ 20 \<Longrightarrow> slot_closed (slot_word j r c) = c"
  unfolding slot_closed_def by (simp add: active_word isset_word)

lemma open_word:
  assumes "j < 2 ^ 20" "r < 2 ^ 20" "unat buf \<le> 2 ^ 18"
  shows "slot_open buf (slot_word j r c) \<longleftrightarrow> \<not> c \<and> j < unat buf div 2"
proof -
  have "unat (ucast (log_slot_buf_max buf) :: u64) = unat buf div 2"
    using assms(3) by (simp add: log_slot_buf_max_def unat_div unsigned_ucast_eq take_bit_nat_eq_self)
  then have "slot_joined (slot_word j r c) < ucast (log_slot_buf_max buf) \<longleftrightarrow> j < unat buf div 2"
    unfolding word_less_nat_alt joined_word [OF assms(1,2)] by simp
  moreover have "j < unat buf div 2 \<Longrightarrow> \<not> 2 ^ 19 \<le> j" using assms(3) by simp
  ultimately show ?thesis unfolding slot_open_def using active_word [OF assms(1,2)] isset_word [OF assms(1,2)] by blast
qed

lemma flags_word:
  assumes "j < 2 ^ 20" "r < 2 ^ 20"
  shows "slot_flags_of (slot_word j r c) = of_bool c * 2 ^ 62"
proof (rule bit_word_eqI)
  fix n assume n: "n < LENGTH(64)"
  have mo: "log_slot_mask_off = mask 62" unfolding log_slot_mask_off_def by (simp add: mask_eq_exp_minus_1)
  have "bit (slot_flags_of (slot_word j r c)) n \<longleftrightarrow> 62 \<le> n \<and> bit (slot_word j r c) n"
    using n unfolding slot_flags_of_def mo by (auto simp: bit_simps)
  also have "\<dots> \<longleftrightarrow> c \<and> n = 62"
  proof -
    have "62 \<le> n \<longleftrightarrow> n = 62 \<or> n = 63" using n by auto
    then show ?thesis using bits_word [OF assms] by auto
  qed
  also have "\<dots> \<longleftrightarrow> bit (of_bool c * 2 ^ 62 :: u64) n" by (cases c) (auto simp: bit_exp_iff bit_1_iff simp del: power_numeral)
  finally show "bit (slot_flags_of (slot_word j r c)) n = bit (of_bool c * 2 ^ 62 :: u64) n" .
qed

lemma close_word:
  assumes "j < 2 ^ 20" "r < 2 ^ 20"
  shows "slot_word j r c OR log_slot_close_bit = slot_word j r True"
proof (cases c)
  case True
  have eq: "log_slot_close_bit = 2 ^ 62" by (simp add: log_slot_close_bit_def)
  have "slot_word j r True OR log_slot_close_bit = slot_word j r True"
    unfolding eq using bits_word(1) [OF assms, of True] by (intro bit_word_eqI) (auto simp: bit_or_iff bit_exp_iff simp del: power_numeral)
  then show ?thesis using True by simp
next
  case False
  have "log_slot_close_bit = 2 ^ 62" by (simp add: log_slot_close_bit_def)
  then have "slot_word j r False AND log_slot_close_bit = 0" using bits_word(1) [OF assms, of False] isset_bit by metis
  then have "slot_word j r False OR log_slot_close_bit = slot_word j r False + log_slot_close_bit"
    by (simp add: disjunctive_add_eq_or)
  also have "\<dots> = slot_word j r True" unfolding slot_word_def log_slot_close_bit_def by simp
  finally show ?thesis using False by simp
qed

record wt_lsn =
  lsn_file :: u32
  lsn_offset :: u32

definition wt_log_cmp :: "wt_lsn \<Rightarrow> wt_lsn \<Rightarrow> int" where
  "wt_log_cmp lsn1 lsn2 =
     (let value = \<lambda>l. push_bit 32 (ucast (lsn_file l)) + ucast (lsn_offset l) :: u64; l1 = value lsn1; l2 = value lsn2 in
      if l1 < l2 then - 1 else if l1 > l2 then 1 else 0)"

record logslot =
  sl_state :: u64
  sl_unbuffered :: int
  sl_error :: "wt_error option"
  sl_start_offset :: int
  sl_last_offset :: int
  sl_release_lsn :: wt_lsn
  sl_start_lsn :: wt_lsn
  sl_end_lsn :: wt_lsn
  sl_fh :: nat
  sl_flags :: u32

definition slot_closefh :: u32 where "slot_closefh = 1"
definition slot_flush :: u32 where "slot_flush = 2"
definition slot_sync :: u32 where "slot_sync = 4"
definition slot_sync_dir :: u32 where "slot_sync_dir = 8"
definition slot_sync_dirty :: u32 where "slot_sync_dirty = 16"
definition slot_sync_flags :: u32 where "slot_sync_flags = slot_sync OR slot_sync_dir OR slot_sync_dirty"

definition log_dsync :: u32 where "log_dsync = 1"
definition log_flush :: u32 where "log_flush = 2"
definition log_fsync :: u32 where "log_fsync = 4"

definition flag_isset :: "u32 \<Rightarrow> u32 \<Rightarrow> bool" where
  "flag_isset flags m \<longleftrightarrow> flags AND m \<noteq> 0"

record wt_log =
  lg_pool :: "logslot list"
  lg_active :: nat
  lg_pool_index :: nat
  lg_buf_size :: u32
  lg_alloc_lsn :: wt_lsn
  lg_write_lsn :: wt_lsn
  lg_write_start_lsn :: wt_lsn
  lg_sync_lsn :: wt_lsn
  lg_dirty_lsn :: wt_lsn
  lg_dirty_max :: int
  lg_file_max :: int
  lg_first_record :: u32
  lg_force_newfile :: bool
  lg_fh :: nat

definition log_slot_buf_size_of :: "int \<Rightarrow> u32" where
  "log_slot_buf_size_of log_file_max = of_int (min (log_file_max div 10) (int log_slot_buf_size))"

definition wt_log_slot_activate :: "wt_log \<Rightarrow> logslot \<Rightarrow> logslot" where
  "wt_log_slot_activate log slot =
     slot\<lparr>sl_unbuffered := 0, sl_start_lsn := lg_alloc_lsn log, sl_end_lsn := lg_alloc_lsn log,
          sl_start_offset := uint (lsn_offset (lg_alloc_lsn log)), sl_last_offset := uint (lsn_offset (lg_alloc_lsn log)),
          sl_fh := lg_fh log, sl_error := None, sl_state := 0\<rparr>"

definition wt_log_slot_free :: "logslot \<Rightarrow> logslot" where
  "wt_log_slot_free slot = slot\<lparr>sl_flags := 0, sl_error := None, sl_state := log_slot_free\<rparr>"

subsection \<open>Joining\<close>

text \<open>\<open>WT_MYSLOT_UNBUFFERED\<close>: the record is written directly.\<close>

definition unbuffered_size :: "u32 \<Rightarrow> u64 \<Rightarrow> bool" where
  "unbuffered_size buf_size mysize \<longleftrightarrow> mysize > ucast (log_slot_buf_max buf_size)"

definition join_state :: "u32 \<Rightarrow> u64 \<Rightarrow> u64 \<Rightarrow> u64" where
  "join_state buf_size mysize old_state =
     (let flag_state = slot_flags_of old_state; released = slot_released old_state; join_offset = slot_joined old_state;
          new_join = (if unbuffered_size buf_size mysize then join_offset + log_slot_unbuffered else join_offset + mysize) in
      slot_join_rel new_join released flag_state)"

text \<open>One turn of the loop with the state read: the offset joined at, and the state.\<close>

definition wt_log_slot_join_round :: "u32 \<Rightarrow> u64 \<Rightarrow> u64 \<Rightarrow> u64 \<Rightarrow> u64 option \<times> u64" where
  "wt_log_slot_join_round buf_size mysize old_state state =
     (if slot_open buf_size old_state then
        if state = old_state then (Some (slot_joined old_state), join_state buf_size mysize old_state) else (None, state)
      else (None, state))"

definition wt_log_slot_join_finish :: "u32 \<Rightarrow> u64 \<Rightarrow> u32 \<Rightarrow> logslot \<Rightarrow> logslot" where
  "wt_log_slot_join_finish buf_size mysize flags slot =
     (let f = sl_flags slot;
          f = (if flag_isset flags (log_dsync OR log_fsync) then f OR slot_sync_dir else f);
          f = (if flag_isset flags log_flush then f OR slot_flush else f);
          f = (if flag_isset flags log_fsync then f OR slot_sync else f);
          slot = slot\<lparr>sl_flags := f\<rparr> in
      if unbuffered_size buf_size mysize then slot\<lparr>sl_unbuffered := int (unat mysize)\<rparr> else slot)"

subsection \<open>Releasing\<close>

text \<open>One turn of the loop that keeps the last starting offset, with the offset read.\<close>

definition last_offset_round :: "int \<Rightarrow> int \<Rightarrow> logslot \<Rightarrow> bool \<times> logslot" where
  "last_offset_round my_start cur_offset slot =
     (if cur_offset < my_start then
        if sl_last_offset slot = cur_offset then (True, slot\<lparr>sl_last_offset := my_start\<rparr>) else (False, slot)
      else (True, slot))"

definition wt_log_slot_release :: "u32 \<Rightarrow> u64 \<Rightarrow> logslot \<Rightarrow> u64 \<times> logslot" where
  "wt_log_slot_release buf_size mysize slot =
     (let rel_size = (if unbuffered_size buf_size mysize then log_slot_unbuffered else mysize);
          my_size = slot_join_rel 0 rel_size 0; state = sl_state slot + my_size in
      (state, slot\<lparr>sl_state := state\<rparr>))"

subsection \<open>Closing\<close>

text \<open>What \<open>__log_slot_close\<close> does with the state read, and the second look at the state.\<close>

definition log_slot_close_check :: "bool \<Rightarrow> u64 \<Rightarrow> u64 \<Rightarrow> unit result" where
  "log_slot_close_check forced old_state state =
     (if forced \<and> slot_inprogress old_state then Inl EBUSY
      else if slot_closed old_state then Inl WT_NOTFOUND
      else if fld_isset state log_slot_reserved then Inl WT_NOTFOUND
      else Inr ())"

text \<open>The swap: whether the slot must be released by the thread that closes it.\<close>

definition log_slot_close_swap :: "u64 \<Rightarrow> logslot \<Rightarrow> bool option \<times> logslot" where
  "log_slot_close_swap old_state slot =
     (let new_state = old_state OR log_slot_close_bit in
      if sl_state slot = old_state then (Some (slot_done new_state), slot\<lparr>sl_state := new_state\<rparr>) else (None, slot))"

text \<open>After the swap, when no size of an unbuffered record is missing: \<open>None\<close> is another turn of the wait.\<close>

definition log_slot_close_finish :: "u64 \<Rightarrow> logslot \<Rightarrow> logslot option" where
  "log_slot_close_finish old_state slot =
     (if unbuffered_isset old_state \<and> sl_unbuffered slot = 0 then None
      else
        let end_offset = uint (slot_joined_buffered old_state) + sl_unbuffered slot in
        Some (slot\<lparr>sl_end_lsn := (sl_start_lsn slot)\<lparr>lsn_offset := lsn_offset (sl_start_lsn slot) + of_int end_offset\<rparr>\<rparr>))"

definition slot_set :: "nat \<Rightarrow> logslot \<Rightarrow> wt_log \<Rightarrow> wt_log" where
  "slot_set k slot log = log\<lparr>lg_pool := (lg_pool log)[k := slot]\<rparr>"

definition log_slot_close_end :: "u64 \<Rightarrow> nat \<Rightarrow> wt_log \<Rightarrow> wt_log option" where
  "log_slot_close_end old_state k log =
     (case log_slot_close_finish old_state (lg_pool log ! k) of None \<Rightarrow> None
      | Some slot \<Rightarrow> Some ((slot_set k slot log)\<lparr>lg_alloc_lsn := sl_end_lsn slot\<rparr>))"

subsection \<open>A new slot\<close>

definition log_size_fit :: "wt_log \<Rightarrow> wt_lsn \<Rightarrow> u64 \<Rightarrow> bool" where
  "log_size_fit log lsn recsize \<longleftrightarrow>
     lsn_offset lsn = lg_first_record log \<or> uint (lsn_offset lsn) + uint recsize < lg_file_max log"

text \<open>
  A switch to another log file is given by the position its records start at, its handle, and whether the
  handle of the previous file is still to be closed.
\<close>

definition log_newfile :: "wt_lsn \<Rightarrow> nat \<Rightarrow> wt_log \<Rightarrow> wt_log" where
  "log_newfile start fh log = log\<lparr>lg_alloc_lsn := start, lg_fh := fh, lg_dirty_lsn := start\<rparr>"

definition wt_log_acquire :: "wt_lsn \<Rightarrow> nat \<Rightarrow> bool \<Rightarrow> u64 \<Rightarrow> nat \<Rightarrow> wt_log \<Rightarrow> wt_log" where
  "wt_log_acquire start fh close recsize k log =
     (let slot = (lg_pool log ! k)\<lparr>sl_release_lsn := lg_alloc_lsn log\<rparr>;
          newfile = lg_force_newfile log \<or> \<not> log_size_fit log (lg_alloc_lsn log) recsize;
          log = (if newfile then (log_newfile start fh log)\<lparr>lg_force_newfile := False\<rparr> else log);
          slot = (if newfile \<and> close then slot\<lparr>sl_flags := sl_flags slot OR slot_closefh\<rparr> else slot) in
      slot_set k (wt_log_slot_activate log slot) log)"

definition log_slot_dirty_max_check :: "nat \<Rightarrow> wt_log \<Rightarrow> wt_log" where
  "log_slot_dirty_max_check k log =
     (if lg_dirty_max log = 0 then log
      else
        let slot = lg_pool log ! k; current = sl_release_lsn slot;
            last_sync = (if wt_log_cmp (lg_dirty_lsn log) (lg_sync_lsn log) < 0 then lg_sync_lsn log else lg_dirty_lsn log) in
        if lsn_file current = lsn_file last_sync \<and> lsn_offset current > lsn_offset last_sync
           \<and> uint (lsn_offset current - lsn_offset last_sync) > lg_dirty_max log
        then (slot_set k (slot\<lparr>sl_flags := sl_flags slot OR slot_sync_dirty\<rparr>) log)\<lparr>lg_dirty_lsn := current\<rparr>
        else log)"

definition log_slot_take :: "wt_lsn \<Rightarrow> nat \<Rightarrow> bool \<Rightarrow> nat \<Rightarrow> wt_log \<Rightarrow> wt_log" where
  "log_slot_take start fh close k log =
     log_slot_dirty_max_check k ((wt_log_acquire start fh close (ucast (lg_buf_size log)) k log)\<lparr>lg_active := k, lg_pool_index := k\<rparr>)"

text \<open>The scan for a free slot, from the last one used, and one turn of the loop of \<open>__log_slot_new\<close>.\<close>

definition pool_order :: "wt_log \<Rightarrow> nat list" where
  "pool_order log = map (\<lambda>i. (lg_pool_index log + i) mod length (lg_pool log)) [0..<length (lg_pool log)]"

definition log_slot_new_round :: "wt_lsn \<Rightarrow> nat \<Rightarrow> bool \<Rightarrow> wt_log \<Rightarrow> wt_log option" where
  "log_slot_new_round start fh close log =
     (if slot_open (lg_buf_size log) (sl_state (lg_pool log ! lg_active log)) then Some log
      else case List.find (\<lambda>k. sl_state (lg_pool log ! k) = log_slot_free) (pool_order log) of
        None \<Rightarrow> None
      | Some k \<Rightarrow> Some (log_slot_take start fh close k log))"

subsection \<open>Set up and shut down\<close>

definition wt_log_slot_init :: "bool \<Rightarrow> wt_log \<Rightarrow> wt_log" where
  "wt_log_slot_init alloc log =
     (let log = log\<lparr>lg_pool := map (\<lambda>slot. slot\<lparr>sl_state := log_slot_free\<rparr>) (lg_pool log),
                   lg_buf_size := (if alloc then log_slot_buf_size_of (lg_file_max log) else lg_buf_size log)\<rparr>;
          slot = (lg_pool log ! 0)\<lparr>sl_release_lsn := lg_alloc_lsn log\<rparr> in
      (slot_set 0 (wt_log_slot_activate log slot) log)\<lparr>lg_active := 0, lg_pool_index := 0\<rparr>)"

text \<open>The writes of \<open>__wt_log_slot_destroy\<close>: handle, offset and number of bytes of the slot's buffer.\<close>

definition destroy_writes :: "logslot \<Rightarrow> (nat \<times> int \<times> int) list" where
  "destroy_writes slot =
     (let rel = sint (slot_released_buffered (sl_state slot)) in
      if fld_isset (sl_state slot) log_slot_reserved \<or> rel = 0 then [] else [(sl_fh slot, sl_start_offset slot, rel)])"

definition wt_log_slot_destroy :: "wt_log \<Rightarrow> (nat \<times> int \<times> int) list" where
  "wt_log_slot_destroy log = concat (map destroy_writes (lg_pool log))"

end
