(* ===== verification/LogThreads.thy ===== *)
theory LogThreads
  imports LogSlot
begin

text \<open>
  Any number of threads that join the log's slots, copy their records, close and switch slots, release and
  free them (\<open>__log_write_internal\<close>, \<open>__wt_log_force_write\<close>, \<open>__wt_log_slot_switch\<close>): each read of shared data and each
  swap is a step. The invariant ties the joined and released bytes of a slot's state to what the threads
  hold, and the slots' places in the log file to the position the next slot will start at.

  A record is at most \<open>2 ^ 30\<close> bytes (the log does not check this: see \<open>slot_end_wraps\<close>), a log file at most
  \<open>2 ^ 31\<close>, and the records of a file that follows start below that. The steps allow more than the code: a
  thread may switch whenever it has joined, any free slot may be the one found, and a thread that writes a
  finished slot while it has the slot lock does so without it here.
\<close>

subsection \<open>Threads\<close>

type_synonym share = "(u64 \<times> u64) option"

datatype log_place =
    Away
  | JoinStart u64
  | JoinRead u64 nat
  | JoinSwap u64 nat u64
  | JoinFill u64 u64 nat
  | Joined u64 u64 nat
  | LastLook u64 u64 nat
  | LastSwap u64 u64 nat int
  | Release u64 u64 nat
  | SwitchWant share nat
  | Switch share nat
  | CloseLook share nat
  | CloseCheck share nat u64
  | CloseSwap share nat u64
  | CloseEnd share nat u64 bool
  | NewSlot share nat bool
  | NewWait share nat bool
  | Last share nat

fun after_switch :: "share \<Rightarrow> nat \<Rightarrow> log_place" where
  "after_switch None k = Away"
| "after_switch (Some (m, off)) k = Joined m off k"

fun locked :: "log_place \<Rightarrow> bool" where
  "locked (Switch h k) = True"
| "locked (CloseLook h k) = True"
| "locked (CloseCheck h k old) = True"
| "locked (CloseSwap h k old) = True"
| "locked (CloseEnd h k old rel) = True"
| "locked (NewSlot h k rel) = True"
| "locked _ = False"

record log_sys =
  sy_log :: wt_log
  sy_at :: "log_place list"

abbreviation slot_state :: "wt_log \<Rightarrow> nat \<Rightarrow> u64" where
  "slot_state l k \<equiv> sl_state (lg_pool l ! k)"

definition set_state :: "nat \<Rightarrow> u64 \<Rightarrow> wt_log \<Rightarrow> wt_log" where
  "set_state k s l = slot_set k ((lg_pool l ! k)\<lparr>sl_state := s\<rparr>) l"

text \<open>Steps of a thread: the place it is at, the log, where it goes and the log then.\<close>

inductive log_move :: "log_place \<Rightarrow> wt_log \<Rightarrow> log_place \<Rightarrow> wt_log \<Rightarrow> bool" where
  join: "m \<noteq> 0 \<Longrightarrow> unat m \<le> 2 ^ 30 \<Longrightarrow> log_move Away l (JoinStart m) l"
| join_read: "log_move (JoinStart m) l (JoinRead m (lg_active l)) l"
| join_look: "log_move (JoinRead m k) l (JoinSwap m k (slot_state l k)) l"
| join_swap: "wt_log_slot_join_round (lg_buf_size l) m old (slot_state l k) = (r, s) \<Longrightarrow>
    log_move (JoinSwap m k old) l (case r of Some off \<Rightarrow> JoinFill m off k | None \<Rightarrow> JoinStart m) (set_state k s l)"
| join_fill: "log_move (JoinFill m off k) l (Joined m off k)
    (slot_set k (wt_log_slot_join_finish (lg_buf_size l) m flags (lg_pool l ! k)) l)"
| release: "log_move (Joined m off k) l (LastLook m off k) l"
| last_look: "log_move (LastLook m off k) l (LastSwap m off k (sl_last_offset (lg_pool l ! k))) l"
| last_swap: "last_offset_round (sl_start_offset (lg_pool l ! k) + uint off) cur (lg_pool l ! k) = (ok, slot) \<Longrightarrow>
    log_move (LastSwap m off k cur) l (if ok then Release m off k else LastLook m off k) (slot_set k slot l)"
| release_add: "wt_log_slot_release (lg_buf_size l) m (lg_pool l ! k) = (s, slot) \<Longrightarrow>
    log_move (Release m off k) l (if slot_done s then Last None k else Away) (slot_set k slot l)"
| switch: "log_move (Joined m off k) l (SwitchWant (Some (m, off)) k) l"
| force_switch: "log_move Away l (SwitchWant None (lg_active l)) l"
| lock: "log_move (SwitchWant h k) l (Switch h k) l"
| switch_lost: "k \<noteq> lg_active l \<Longrightarrow> log_move (Switch h k) l (after_switch h k) l"
| switch_unused: "k = lg_active l \<Longrightarrow> slot_joined (slot_state l k) = 0 \<Longrightarrow> \<not> lg_force_newfile l \<Longrightarrow>
    log_move (Switch None k) l Away l"
| switch_close: "k = lg_active l \<Longrightarrow> h \<noteq> None \<or> slot_joined (slot_state l k) \<noteq> 0 \<or> lg_force_newfile l \<Longrightarrow>
    log_move (Switch h k) l (CloseLook h k) l"
| close_look: "log_move (CloseLook h k) l (CloseCheck h k (slot_state l k)) l"
| close_check: "r = log_slot_close_check (h = None) old (slot_state l k) \<Longrightarrow>
    log_move (CloseCheck h k old) l
      (if r = Inr () then CloseSwap h k old else if r = Inl EBUSY then SwitchWant h k else after_switch h k) l"
| close_busy: "slot_inprogress old \<Longrightarrow> log_move (CloseCheck None k old) l Away l"
| close_swap: "log_slot_close_swap old (lg_pool l ! k) = (r, slot) \<Longrightarrow>
    log_move (CloseSwap h k old) l (case r of Some rel \<Rightarrow> CloseEnd h k old rel | None \<Rightarrow> CloseLook h k) (slot_set k slot l)"
| close_end: "log_slot_close_end old k l = Some l' \<Longrightarrow> log_move (CloseEnd h k old rel) l (NewSlot h k rel) l'"
| new_open: "slot_open (lg_buf_size l) (slot_state l (lg_active l)) \<Longrightarrow>
    log_move (NewSlot h k rel) l (if rel then Last h k else after_switch h k) l"
| new_free: "m < length (lg_pool l) \<Longrightarrow> slot_state l m = log_slot_free \<Longrightarrow>
    lsn_file (lg_alloc_lsn l) < lsn_file start \<Longrightarrow> unat (lsn_offset start) < 2 ^ 31 \<Longrightarrow>
    log_move (NewSlot h k rel) l (if rel then Last h k else after_switch h k) (log_slot_take start fh close m l)"
| new_none: "log_move (NewSlot h k rel) l (NewWait h k rel) l"
| new_again: "log_move (NewWait h k rel) l (NewSlot h k rel) l"
| last_written: "log_move (Last h k) l (after_switch h k) (set_state k log_slot_written l)"
| last_free: "log_move (Last h k) l (after_switch h k) (slot_set k (wt_log_slot_free (lg_pool l ! k)) l)"

text \<open>
  Steps of a thread take the slot lock only when no other thread has it. The other steps are the worker's
  on a slot handed to it, and those that write parts of the log that the slots do not use.
\<close>

inductive log_step :: "log_sys \<Rightarrow> log_sys \<Rightarrow> bool" where
  move: "i < length (sy_at y) \<Longrightarrow> log_move (sy_at y ! i) (sy_log y) p l \<Longrightarrow>
    \<not> locked (sy_at y ! i) \<Longrightarrow> locked p \<Longrightarrow> \<forall>q \<in> set (sy_at y). \<not> locked q \<Longrightarrow>
    log_step y \<lparr>sy_log = l, sy_at = (sy_at y)[i := p]\<rparr>"
| move_free: "i < length (sy_at y) \<Longrightarrow> log_move (sy_at y ! i) (sy_log y) p l \<Longrightarrow> locked (sy_at y ! i) \<or> \<not> locked p \<Longrightarrow>
    log_step y \<lparr>sy_log = l, sy_at = (sy_at y)[i := p]\<rparr>"
| worker: "k < length (lg_pool (sy_log y)) \<Longrightarrow> slot_state (sy_log y) k = log_slot_written \<Longrightarrow>
    sl_state slot \<in> {log_slot_written, log_slot_free} \<Longrightarrow> log_step y (y\<lparr>sy_log := slot_set k slot (sy_log y)\<rparr>)"
| other: "log_step y (y\<lparr>sy_log := (sy_log y)\<lparr>lg_write_lsn := w, lg_write_start_lsn := ws, lg_sync_lsn := sync,
    lg_dirty_lsn := dirty, lg_dirty_max := dm, lg_force_newfile := force\<rparr>\<rparr>)"

text \<open>A log with a slot pool, whose first position, record and file size are in the range of a log file.\<close>

definition log_sane :: "wt_log \<Rightarrow> bool" where
  "log_sane l \<longleftrightarrow> lg_pool l \<noteq> [] \<and> lg_file_max l \<le> 2 ^ 31 \<and> 0 \<le> lg_file_max l \<and> unat (lg_first_record l) < 2 ^ 31 \<and>
     unat (lsn_offset (lg_alloc_lsn l)) < 2 ^ 31"

definition log_start :: "nat \<Rightarrow> wt_log \<Rightarrow> log_sys" where
  "log_start n l = \<lparr>sy_log = wt_log_slot_init True l, sy_at = replicate n Away\<rparr>"

inductive log_reach :: "nat \<Rightarrow> wt_log \<Rightarrow> log_sys \<Rightarrow> bool" for n l where
  start: "log_reach n l (log_start n l)"
| step: "log_reach n l y \<Longrightarrow> log_step y y' \<Longrightarrow> log_reach n l y'"

subsection \<open>What threads hold\<close>

fun hold_of :: "share \<Rightarrow> nat \<Rightarrow> (nat \<times> nat \<times> nat) option" where
  "hold_of None k = None"
| "hold_of (Some (m, off)) k = Some (k, unat off, unat m)"

text \<open>The slot, offset and size of the record that a thread has joined with and not released.\<close>

fun holding :: "log_place \<Rightarrow> (nat \<times> nat \<times> nat) option" where
  "holding (JoinFill m off k) = Some (k, unat off, unat m)"
| "holding (Joined m off k) = Some (k, unat off, unat m)"
| "holding (LastLook m off k) = Some (k, unat off, unat m)"
| "holding (LastSwap m off k cur) = Some (k, unat off, unat m)"
| "holding (Release m off k) = Some (k, unat off, unat m)"
| "holding (SwitchWant h k) = hold_of h k"
| "holding (Switch h k) = hold_of h k"
| "holding (CloseLook h k) = hold_of h k"
| "holding (CloseCheck h k old) = hold_of h k"
| "holding (CloseSwap h k old) = hold_of h k"
| "holding (CloseEnd h k old rel) = hold_of h k"
| "holding (NewSlot h k rel) = hold_of h k"
| "holding (NewWait h k rel) = hold_of h k"
| "holding (Last h k) = hold_of h k"
| "holding _ = None"

fun filling :: "log_place \<Rightarrow> bool" where
  "filling (JoinFill m off k) = True"
| "filling _ = False"

text \<open>The slot that is a thread's alone, to write and to free.\<close>

fun owning :: "log_place \<Rightarrow> nat option" where
  "owning (CloseEnd h k old rel) = (if rel then Some k else None)"
| "owning (NewSlot h k rel) = (if rel then Some k else None)"
| "owning (NewWait h k rel) = (if rel then Some k else None)"
| "owning (Last h k) = Some k"
| "owning _ = None"

fun renewing :: "log_place \<Rightarrow> bool" where
  "renewing (CloseEnd h k old rel) = True"
| "renewing (NewSlot h k rel) = True"
| "renewing (NewWait h k rel) = True"
| "renewing _ = False"

fun closing :: "nat \<Rightarrow> log_place \<Rightarrow> bool" where
  "closing k (CloseEnd h k' old rel) \<longleftrightarrow> k' = k"
| "closing k _ \<longleftrightarrow> False"

subsection \<open>The invariant\<close>

definition in_use :: "u64 \<Rightarrow> bool" where
  "in_use s \<longleftrightarrow> s \<noteq> log_slot_free \<and> s \<noteq> log_slot_written"

definition joined_of :: "u64 \<Rightarrow> nat" where "joined_of s = unat (slot_joined s)"
definition released_of :: "u64 \<Rightarrow> nat" where "released_of s = unat (slot_released s)"
definition closed_of :: "u64 \<Rightarrow> bool" where "closed_of s \<longleftrightarrow> fld_isset s log_slot_close_bit"

definition word_ok :: "u64 \<Rightarrow> bool" where
  "word_ok s \<longleftrightarrow> s = slot_word (joined_of s) (released_of s) (closed_of s) \<and> released_of s \<le> joined_of s \<and> joined_of s < 2 ^ 20 \<and> joined_of s mod 2 ^ 19 \<le> 2 ^ 18"

definition room :: "u32 \<Rightarrow> nat \<Rightarrow> nat" where
  "room b m = (if unat b div 2 < m then 2 ^ 19 else m)"

definition room_at :: "u32 \<Rightarrow> nat \<Rightarrow> log_place \<Rightarrow> nat" where
  "room_at b k p = (case holding p of Some (k', off, m) \<Rightarrow> if k' = k then room b m else 0 | None \<Rightarrow> 0)"

definition lsn_le :: "wt_lsn \<Rightarrow> wt_lsn \<Rightarrow> bool" where
  "lsn_le a b \<longleftrightarrow> lsn_file a < lsn_file b \<or> lsn_file a = lsn_file b \<and> lsn_offset a \<le> lsn_offset b"

text \<open>The end of a slot whose last byte is known.\<close>

definition end_ok :: "logslot \<Rightarrow> bool" where
  "end_ok slot \<longleftrightarrow> lsn_file (sl_end_lsn slot) = lsn_file (sl_start_lsn slot) \<and>
     uint (lsn_offset (sl_end_lsn slot)) = uint (lsn_offset (sl_start_lsn slot)) + int (joined_of (sl_state slot) mod 2 ^ 19) + sl_unbuffered slot \<and>
     (2 ^ 19 \<le> joined_of (sl_state slot) \<longrightarrow> 0 < sl_unbuffered slot)"

definition hold_ok :: "wt_log \<Rightarrow> bool \<Rightarrow> nat \<Rightarrow> nat \<Rightarrow> nat \<Rightarrow> bool" where
  "hold_ok l f k off m \<longleftrightarrow> k < length (lg_pool l) \<and> in_use (slot_state l k) \<and> 0 < m \<and> m \<le> 2 ^ 30 \<and>
     off + room (lg_buf_size l) m \<le> joined_of (slot_state l k) \<and>
     (if unat (lg_buf_size l) div 2 < m
      then off + 2 ^ 19 = joined_of (slot_state l k) \<and> sl_unbuffered (lg_pool l ! k) = (if f then 0 else int m)
      else off < unat (lg_buf_size l) div 2 \<and> off + m \<le> joined_of (slot_state l k) mod 2 ^ 19)"

definition own_ok :: "wt_log \<Rightarrow> nat \<Rightarrow> bool" where
  "own_ok l k \<longleftrightarrow> k < length (lg_pool l) \<and> in_use (slot_state l k) \<and> closed_of (slot_state l k) \<and> released_of (slot_state l k) = joined_of (slot_state l k)"

definition size_ok :: "u64 \<Rightarrow> bool" where
  "size_ok m \<longleftrightarrow> m \<noteq> 0 \<and> unat m \<le> 2 ^ 30"

fun at_ok :: "wt_log \<Rightarrow> log_place \<Rightarrow> bool" where
  "at_ok l (JoinStart m) \<longleftrightarrow> size_ok m"
| "at_ok l (JoinRead m k) \<longleftrightarrow> size_ok m \<and> k < length (lg_pool l)"
| "at_ok l (JoinSwap m k old) \<longleftrightarrow> size_ok m \<and> k < length (lg_pool l)"
| "at_ok l (SwitchWant h k) \<longleftrightarrow> k < length (lg_pool l)"
| "at_ok l (Switch h k) \<longleftrightarrow> k < length (lg_pool l)"
| "at_ok l (CloseLook h k) \<longleftrightarrow> k < length (lg_pool l)"
| "at_ok l (CloseCheck h k old) \<longleftrightarrow> k < length (lg_pool l)"
| "at_ok l (CloseSwap h k old) \<longleftrightarrow> k < length (lg_pool l) \<and> \<not> slot_closed old \<and> (h = None \<longrightarrow> \<not> slot_inprogress old)"
| "at_ok l (CloseEnd h k old rel) \<longleftrightarrow> k = lg_active l \<and> in_use (slot_state l k) \<and> closed_of (slot_state l k) \<and>
     (\<exists>r < 2 ^ 20. old = slot_word (joined_of (slot_state l k)) r False) \<and> rel = (h = None)"
| "at_ok l (NewSlot h k rel) \<longleftrightarrow> k = lg_active l \<and> (in_use (slot_state l k) \<longrightarrow> closed_of (slot_state l k)) \<and> rel = (h = None)"
| "at_ok l (NewWait h k rel) \<longleftrightarrow> k = lg_active l \<and> (in_use (slot_state l k) \<longrightarrow> closed_of (slot_state l k)) \<and> rel = (h = None)"
| "at_ok l _ \<longleftrightarrow> True"

definition log_place_ok :: "wt_log \<Rightarrow> log_place \<Rightarrow> bool" where
  "log_place_ok l p \<longleftrightarrow> at_ok l p \<and> (case holding p of Some (k, off, m) \<Rightarrow> hold_ok l (filling p) k off m | None \<Rightarrow> True) \<and>
     (case owning p of Some k \<Rightarrow> own_ok l k | None \<Rightarrow> True)"

definition rooms_apart :: "u32 \<Rightarrow> (nat \<times> nat \<times> nat) option \<Rightarrow> (nat \<times> nat \<times> nat) option \<Rightarrow> bool" where
  "rooms_apart b h h' = (case (h, h') of (Some (k, off, m), Some (k', off', m')) \<Rightarrow>
     k = k' \<longrightarrow> off + room b m \<le> off' \<or> off' + room b m' \<le> off | _ \<Rightarrow> True)"

definition pair_ok :: "u32 \<Rightarrow> log_place \<Rightarrow> log_place \<Rightarrow> bool" where
  "pair_ok b p q \<longleftrightarrow> rooms_apart b (holding p) (holding q) \<and> (owning p \<noteq> None \<longrightarrow> owning p \<noteq> owning q) \<and>
     \<not> (locked p \<and> locked q) \<and> \<not> (renewing p \<and> renewing q)"

definition log_slot_ok :: "wt_log \<Rightarrow> nat \<Rightarrow> nat \<Rightarrow> nat \<Rightarrow> bool" where
  "log_slot_ok l rm cl k \<longleftrightarrow> (let slot = lg_pool l ! k; s = sl_state slot in in_use s \<longrightarrow>
     word_ok s \<and> released_of s + rm = joined_of s \<and> (joined_of s < 2 ^ 19 \<longrightarrow> sl_unbuffered slot = 0) \<and> 0 \<le> sl_unbuffered slot \<and> sl_unbuffered slot \<le> 2 ^ 30 \<and>
     unat (lsn_offset (sl_start_lsn slot)) < 2 ^ 31 \<and> sl_start_offset slot = uint (lsn_offset (sl_start_lsn slot)) \<and>
     (\<not> closed_of s \<longrightarrow> k = lg_active l) \<and> (\<not> closed_of s \<or> 0 < cl \<longrightarrow> sl_start_lsn slot = lg_alloc_lsn l) \<and>
     (closed_of s \<and> cl = 0 \<longrightarrow> end_ok slot \<and> lsn_le (sl_end_lsn slot) (lg_alloc_lsn l)))"

definition ended :: "wt_log \<Rightarrow> (nat \<Rightarrow> nat) \<Rightarrow> nat \<Rightarrow> bool" where
  "ended l cl k \<longleftrightarrow> k < length (lg_pool l) \<and> in_use (slot_state l k) \<and> closed_of (slot_state l k) \<and> cl k = 0"

definition after :: "wt_log \<Rightarrow> nat \<Rightarrow> nat \<Rightarrow> bool" where
  "after l k m \<longleftrightarrow> lsn_le (sl_end_lsn (lg_pool l ! k)) (sl_start_lsn (lg_pool l ! m))"

definition conf_ok :: "wt_log \<Rightarrow> bool" where
  "conf_ok l \<longleftrightarrow> unat (lg_buf_size l) \<le> 2 ^ 18 \<and> lg_active l < length (lg_pool l) \<and> lg_file_max l \<le> 2 ^ 31 \<and> unat (lg_first_record l) < 2 ^ 31"

definition rooms :: "u32 \<Rightarrow> log_place list \<Rightarrow> nat \<Rightarrow> nat" where
  "rooms b ps k = sum_list (map (room_at b k) ps)"

definition closings :: "log_place list \<Rightarrow> nat \<Rightarrow> nat" where
  "closings ps k = sum_list (map (\<lambda>p. of_bool (closing k p)) ps)"

definition log_inv :: "wt_log \<Rightarrow> log_place list \<Rightarrow> bool" where
  "log_inv l ps \<longleftrightarrow> conf_ok l \<and> (\<forall>p \<in> set ps. log_place_ok l p) \<and>
     (\<forall>i < length ps. \<forall>j < length ps. i \<noteq> j \<longrightarrow> pair_ok (lg_buf_size l) (ps ! i) (ps ! j)) \<and>
     (\<forall>k < length (lg_pool l). log_slot_ok l (rooms (lg_buf_size l) ps k) (closings ps k) k) \<and>
     (\<forall>k m. k \<noteq> m \<longrightarrow> ended l (closings ps) k \<longrightarrow> ended l (closings ps) m \<longrightarrow> after l k m \<or> after l m k)"

subsection \<open>States in use\<close>

lemma joined_of_word: "j < 2 ^ 20 \<Longrightarrow> r < 2 ^ 20 \<Longrightarrow> joined_of (slot_word j r c) = j"
  unfolding joined_of_def by (rule joined_word)

lemma released_of_word: "j < 2 ^ 20 \<Longrightarrow> r < 2 ^ 20 \<Longrightarrow> released_of (slot_word j r c) = r"
  unfolding released_of_def by (simp add: released_word unsigned_of_nat take_bit_nat_eq_self)

lemma closed_of_word: "j < 2 ^ 20 \<Longrightarrow> r < 2 ^ 20 \<Longrightarrow> closed_of (slot_word j r c) = c"
  unfolding closed_of_def by (rule isset_word)

lemma joined_special: "joined_of log_slot_free = 2 ^ 30 - 1" "joined_of log_slot_written = 2 ^ 30 - 1"
proof -
  have w: "unat (- 2 :: u64) = 2 ^ 64 - 2"
  proof -
    have "(- 2 :: u64) = - 1 - 1" by simp
    then have "unat (- 2 :: u64) = unat (- 1 :: u64) - 1" using unat_minus_one [of "- 1 :: u64"] by simp
    then show ?thesis by (simp add: unat_minus_1_u64)
  qed
  show "joined_of log_slot_free = 2 ^ 30 - 1" unfolding joined_of_def unat_joined log_slot_free_def unat_minus_1_u64 by simp
  show "joined_of log_slot_written = 2 ^ 30 - 1" unfolding joined_of_def unat_joined log_slot_written_def w by simp
qed

lemma not_active_special: "\<not> slot_active log_slot_free" "\<not> slot_active log_slot_written"
  unfolding slot_active_def word_unat_eq_iff join_mask using joined_special unfolding joined_of_def by simp_all

lemma not_open_special: "\<not> slot_open b log_slot_free" "\<not> slot_open b log_slot_written"
  unfolding slot_open_def using not_active_special by blast+

lemma inprogress_special: "slot_inprogress log_slot_free" "slot_inprogress log_slot_written"
proof -
  have "slot_released (- 1) = (- 1 :: u64)" "slot_released (- 2) = (- 2 :: u64)" unfolding slot_released_def by code_simp+
  moreover have "(- 1 :: u64) \<noteq> 2 ^ 30 - 1" "(- 2 :: u64) \<noteq> 2 ^ 30 - 1" by simp_all
  moreover have "slot_joined (- 1) = 2 ^ 30 - 1" "slot_joined (- 2) = 2 ^ 30 - 1"
    using joined_special unfolding joined_of_def log_slot_free_def log_slot_written_def word_unat_eq_iff by simp_all
  ultimately show "slot_inprogress log_slot_free" "slot_inprogress log_slot_written"
    unfolding slot_inprogress_def log_slot_free_def log_slot_written_def by metis+
qed

lemma in_use_word:
  assumes "j < 2 ^ 20" "r < 2 ^ 20"
  shows "in_use (slot_word j r c)"
  unfolding in_use_def using not_active_special active_word [OF assms, of c] by metis

lemma not_in_use [simp]: "\<not> in_use log_slot_free" "\<not> in_use log_slot_written"
  by (simp_all add: in_use_def)

lemma word_ok_word:
  assumes "r \<le> j" "j < 2 ^ 20" "j mod 2 ^ 19 \<le> 2 ^ 18"
  shows "word_ok (slot_word j r c)"
  using assms unfolding word_ok_def by (simp add: joined_of_word [of j r] released_of_word [of j r] closed_of_word [of j r])

lemma word_okE:
  assumes "word_ok s"
  obtains j r c where "s = slot_word j r c" "r \<le> j" "j < 2 ^ 20" "r < 2 ^ 20" "j mod 2 ^ 19 \<le> 2 ^ 18"
proof (rule that)
  show "s = slot_word (joined_of s) (released_of s) (closed_of s)" "released_of s \<le> joined_of s" "joined_of s < 2 ^ 20" "joined_of s mod 2 ^ 19 \<le> 2 ^ 18"
    using assms unfolding word_ok_def by blast+
  then show "released_of s < 2 ^ 20" by linarith
qed

subsection \<open>Lists of places\<close>

lemma sum_list_map_update:
  "i < length ps \<Longrightarrow> sum_list (map f (ps[i := p])) + f (ps ! i) = sum_list (map f ps) + (f p :: nat)"
proof (induction ps arbitrary: i)
  case (Cons q qs)
  then show ?case by (cases i) auto
qed simp

lemma rooms_update:
  "i < length ps \<Longrightarrow> rooms b (ps[i := p]) k + room_at b k (ps ! i) = rooms b ps k + room_at b k p"
  unfolding rooms_def by (rule sum_list_map_update)

lemma closings_update:
  "i < length ps \<Longrightarrow> closings (ps[i := p]) k + of_bool (closing k (ps ! i)) = closings ps k + of_bool (closing k p)"
  unfolding closings_def by (rule sum_list_map_update)

lemma rooms_at_least: "p \<in> set ps \<Longrightarrow> room_at b k p \<le> rooms b ps k"
  unfolding rooms_def by (auto intro: member_le_sum_list)

lemma closings_pos: "0 < closings ps k \<longleftrightarrow> (\<exists>p \<in> set ps. closing k p)"
  unfolding closings_def by (auto simp: sum_list_eq_0_iff simp flip: neq0_conv)

lemma rooms_apart_sym: "rooms_apart b h h' \<longleftrightarrow> rooms_apart b h' h"
  by (auto simp: rooms_apart_def split: option.splits)

lemma pair_ok_sym: "pair_ok b p q \<longleftrightarrow> pair_ok b q p"
  using rooms_apart_sym [of b "holding p" "holding q"] unfolding pair_ok_def by auto

lemma log_inv_step:
  assumes inv: "log_inv l ps" and i: "i < length ps"
    and len: "length (lg_pool l') = length (lg_pool l)" and buf: "lg_buf_size l' = lg_buf_size l" and conf: "conf_ok l'"
    and place: "log_place_ok l' p"
    and others: "\<And>j. j < length ps \<Longrightarrow> j \<noteq> i \<Longrightarrow> log_place_ok l (ps ! j) \<Longrightarrow> pair_ok (lg_buf_size l) (ps ! i) (ps ! j) \<Longrightarrow>
      log_place_ok l' (ps ! j) \<and> pair_ok (lg_buf_size l) p (ps ! j)"
    and slots: "\<And>k. k < length (lg_pool l) \<Longrightarrow> log_slot_ok l (rooms (lg_buf_size l) ps k) (closings ps k) k \<Longrightarrow>
      log_slot_ok l' (rooms (lg_buf_size l) (ps[i := p]) k) (closings (ps[i := p]) k) k"
    and spans: "\<And>k m. k \<noteq> m \<Longrightarrow> ended l' (closings (ps[i := p])) k \<Longrightarrow> ended l' (closings (ps[i := p])) m \<Longrightarrow> after l' k m \<or> after l' m k"
  shows "log_inv l' (ps[i := p])"
proof -
  let ?b = "lg_buf_size l"
  have pl: "log_place_ok l (ps ! j)" if "j < length ps" for j using inv that unfolding log_inv_def by simp
  have pr: "pair_ok ?b (ps ! j) (ps ! k)" if "j < length ps" "k < length ps" "j \<noteq> k" for j k
    using inv that unfolding log_inv_def by blast
  have at: "log_place_ok l' (ps[i := p] ! j)" if j: "j < length ps" for j
    using others [OF j] pl [OF j] pr [OF i j] place i by (cases "j = i") auto
  have two: "pair_ok ?b (ps[i := p] ! j) (ps[i := p] ! k)" if j: "j < length ps" and k: "k < length ps" and ne: "j \<noteq> k" for j k
  proof -
    consider "j = i" "k \<noteq> i" | "j \<noteq> i" "k = i" | "j \<noteq> i" "k \<noteq> i" using ne by blast
    then show ?thesis
    proof cases
      case 1
      then show ?thesis using others [OF k 1(2) pl [OF k] pr [OF i k]] i by simp
    next
      case 2
      then have "pair_ok ?b p (ps ! j)" using others [OF j 2(1) pl [OF j] pr [OF i j]] by simp
      then show ?thesis using 2 i pair_ok_sym by simp
    next
      case 3
      then show ?thesis using pr [OF j k ne] by simp
    qed
  qed
  have places: "\<forall>q \<in> set (ps[i := p]). log_place_ok l' q"
  proof
    fix q assume "q \<in> set (ps[i := p])"
    then obtain j where "j < length ps" "q = ps[i := p] ! j" by (auto simp: in_set_conv_nth)
    then show "log_place_ok l' q" using at by simp
  qed
  have "\<forall>k < length (lg_pool l). log_slot_ok l (rooms ?b ps k) (closings ps k) k" using inv unfolding log_inv_def by blast
  then show ?thesis unfolding log_inv_def len buf using conf places two slots spans by simp
qed

subsection \<open>Steps that leave the slots as they are\<close>

definition core :: "logslot \<Rightarrow> u64 \<times> int \<times> int \<times> wt_lsn \<times> wt_lsn" where
  "core slot = (sl_state slot, sl_unbuffered slot, sl_start_offset slot, sl_start_lsn slot, sl_end_lsn slot)"

definition agree :: "wt_log \<Rightarrow> wt_log \<Rightarrow> bool" where
  "agree l l' \<longleftrightarrow> length (lg_pool l') = length (lg_pool l) \<and> lg_buf_size l' = lg_buf_size l \<and> lg_active l' = lg_active l \<and>
     lg_file_max l' = lg_file_max l \<and> lg_first_record l' = lg_first_record l \<and> lg_alloc_lsn l' = lg_alloc_lsn l \<and>
     (\<forall>k < length (lg_pool l). core (lg_pool l' ! k) = core (lg_pool l ! k))"

lemma core_eqD:
  assumes "core s = core s'"
  shows "sl_state s = sl_state s'" "sl_unbuffered s = sl_unbuffered s'" "sl_start_offset s = sl_start_offset s'"
    "sl_start_lsn s = sl_start_lsn s'" "sl_end_lsn s = sl_end_lsn s'"
  using assms by (simp_all add: core_def)

lemma agree_refl [simp]: "agree l l"
  by (simp add: agree_def)

lemma agree_nth:
  assumes "agree l l'" "k < length (lg_pool l)"
  shows "slot_state l' k = slot_state l k" "sl_unbuffered (lg_pool l' ! k) = sl_unbuffered (lg_pool l ! k)"
    "sl_start_offset (lg_pool l' ! k) = sl_start_offset (lg_pool l ! k)" "sl_start_lsn (lg_pool l' ! k) = sl_start_lsn (lg_pool l ! k)"
    "sl_end_lsn (lg_pool l' ! k) = sl_end_lsn (lg_pool l ! k)"
proof -
  have "core (lg_pool l' ! k) = core (lg_pool l ! k)" using assms by (simp add: agree_def)
  note core_eqD [OF this]
  then show "slot_state l' k = slot_state l k" "sl_unbuffered (lg_pool l' ! k) = sl_unbuffered (lg_pool l ! k)"
    "sl_start_offset (lg_pool l' ! k) = sl_start_offset (lg_pool l ! k)" "sl_start_lsn (lg_pool l' ! k) = sl_start_lsn (lg_pool l ! k)"
    "sl_end_lsn (lg_pool l' ! k) = sl_end_lsn (lg_pool l ! k)" by simp_all
qed

lemma agree_eqs:
  assumes "agree l l'"
  shows "length (lg_pool l') = length (lg_pool l)" "lg_buf_size l' = lg_buf_size l" "lg_active l' = lg_active l"
    "lg_file_max l' = lg_file_max l" "lg_first_record l' = lg_first_record l" "lg_alloc_lsn l' = lg_alloc_lsn l"
  using assms by (simp_all add: agree_def)

lemma agree_conf: "agree l l' \<Longrightarrow> conf_ok l' = conf_ok l"
  by (simp add: conf_ok_def agree_def)

lemma agree_hold: "agree l l' \<Longrightarrow> hold_ok l' f k off m = hold_ok l f k off m"
  by (cases "k < length (lg_pool l)") (simp_all add: hold_ok_def agree_eqs agree_nth)

lemma agree_own: "agree l l' \<Longrightarrow> own_ok l' k = own_ok l k"
  by (cases "k < length (lg_pool l)") (simp_all add: own_ok_def agree_eqs agree_nth)

lemma agree_at:
  assumes "agree l l'" "conf_ok l"
  shows "at_ok l' p = at_ok l p"
proof -
  have "lg_active l < length (lg_pool l)" using assms(2) by (simp add: conf_ok_def)
  then show ?thesis using assms(1) by (cases p) (auto simp: agree_eqs agree_nth)
qed

lemma agree_place: "agree l l' \<Longrightarrow> conf_ok l \<Longrightarrow> log_place_ok l' p = log_place_ok l p"
  by (simp add: log_place_ok_def agree_at agree_hold agree_own split: option.split)

lemma agree_slot:
  assumes "agree l l'" "k < length (lg_pool l)"
  shows "log_slot_ok l' rm cl k = log_slot_ok l rm cl k"
  unfolding log_slot_ok_def Let_def end_ok_def by (simp only: agree_nth [OF assms] agree_eqs [OF assms(1)])

lemma agree_ended: "agree l l' \<Longrightarrow> ended l' cl k = ended l cl k"
  by (cases "k < length (lg_pool l)") (simp_all add: ended_def agree_eqs agree_nth)

lemma agree_after: "agree l l' \<Longrightarrow> k < length (lg_pool l) \<Longrightarrow> m < length (lg_pool l) \<Longrightarrow> after l' k m = after l k m"
  by (simp add: after_def agree_nth)

lemma room_at_cong: "holding p = holding q \<Longrightarrow> room_at b k p = room_at b k q"
  by (simp add: room_at_def)

lemma log_invD:
  assumes "log_inv l ps"
  shows "conf_ok l" and "p \<in> set ps \<Longrightarrow> log_place_ok l p"
    and "i < length ps \<Longrightarrow> j < length ps \<Longrightarrow> i \<noteq> j \<Longrightarrow> pair_ok (lg_buf_size l) (ps ! i) (ps ! j)"
    and "k < length (lg_pool l) \<Longrightarrow> log_slot_ok l (rooms (lg_buf_size l) ps k) (closings ps k) k"
    and "k \<noteq> m \<Longrightarrow> ended l (closings ps) k \<Longrightarrow> ended l (closings ps) m \<Longrightarrow> after l k m \<or> after l m k"
  using assms unfolding log_inv_def by blast+

lemma ended_less: "ended l cl k \<Longrightarrow> k < length (lg_pool l)"
  by (simp add: ended_def)

lemma log_inv_quiet:
  assumes inv: "log_inv l ps" and i: "i < length ps" and agree: "agree l l'"
    and hold: "holding p = holding (ps ! i)" "filling p = filling (ps ! i)" and own: "owning p = None \<or> owning p = owning (ps ! i)"
    and closing: "\<And>k. closing k p = closing k (ps ! i)" and renewing: "renewing p \<longrightarrow> renewing (ps ! i)"
    and lock: "locked p \<longrightarrow> locked (ps ! i) \<or> (\<forall>q \<in> set ps. \<not> locked q)" and at: "at_ok l p"
  shows "log_inv l' (ps[i := p])"
proof (rule log_inv_step [OF inv i])
  have conf: "conf_ok l" by (rule log_invD(1) [OF inv])
  then show "conf_ok l'" using agree_conf [OF agree] by simp
  show "length (lg_pool l') = length (lg_pool l)" "lg_buf_size l' = lg_buf_size l" by (rule agree_eqs [OF agree])+
  have pi: "log_place_ok l (ps ! i)" using log_invD(2) [OF inv] i by simp
  have "log_place_ok l p"
    using pi own at unfolding log_place_ok_def hold by (elim disjE) simp_all
  then show "log_place_ok l' p" by (simp add: agree_place [OF agree conf])
  have rm: "rooms (lg_buf_size l) (ps[i := p]) k = rooms (lg_buf_size l) ps k" for k
    using rooms_update [OF i, of "lg_buf_size l" p k] room_at_cong [OF hold(1)] by simp
  have cl: "closings (ps[i := p]) = closings ps"
    using closings_update [OF i, of p] closing by (intro ext) simp
  show "log_slot_ok l' (rooms (lg_buf_size l) (ps[i := p]) k) (closings (ps[i := p]) k) k"
    if "k < length (lg_pool l)" "log_slot_ok l (rooms (lg_buf_size l) ps k) (closings ps k) k" for k
    using that by (simp add: rm cl agree_slot [OF agree])
  show "after l' k m \<or> after l' m k"
    if "k \<noteq> m" "ended l' (closings (ps[i := p])) k" "ended l' (closings (ps[i := p])) m" for k m
  proof -
    have e: "ended l (closings ps) k" "ended l (closings ps) m" using that(2,3) by (simp_all add: cl agree_ended [OF agree])
    show ?thesis using log_invD(5) [OF inv that(1) e] agree_after [OF agree] ended_less [OF e(1)] ended_less [OF e(2)] by simp
  qed
  show "log_place_ok l' (ps ! j) \<and> pair_ok (lg_buf_size l) p (ps ! j)"
    if "j < length ps" "log_place_ok l (ps ! j)" "pair_ok (lg_buf_size l) (ps ! i) (ps ! j)" for j
  proof -
    have "ps ! j \<in> set ps" using that(1) by simp
    then have "\<not> (locked p \<and> locked (ps ! j))" using lock that(3) unfolding pair_ok_def by blast
    then have "pair_ok (lg_buf_size l) p (ps ! j)" using that(3) own renewing unfolding pair_ok_def hold(1) by auto
    then show ?thesis using that(2) agree_place [OF agree conf] by simp
  qed
qed

lemma slot_set_agree: "core slot = core (lg_pool l ! k) \<Longrightarrow> agree l (slot_set k slot l)"
  by (cases "k < length (lg_pool l)") (auto simp: agree_def slot_set_def nth_list_update)

lemma set_state_same [simp]: "agree l (set_state k (slot_state l k) l)"
  unfolding set_state_def by (rule slot_set_agree) simp

lemma slot_set_simps [simp]:
  "length (lg_pool (slot_set k slot l)) = length (lg_pool l)" "lg_buf_size (slot_set k slot l) = lg_buf_size l"
  "lg_active (slot_set k slot l) = lg_active l" "lg_alloc_lsn (slot_set k slot l) = lg_alloc_lsn l"
  "lg_file_max (slot_set k slot l) = lg_file_max l" "lg_first_record (slot_set k slot l) = lg_first_record l"
  "k < length (lg_pool l) \<Longrightarrow> lg_pool (slot_set k slot l) ! k = slot"
  "m \<noteq> k \<Longrightarrow> lg_pool (slot_set k slot l) ! m = lg_pool l ! m"
  by (simp_all add: slot_set_def)

lemma conf_slot_set [simp]: "conf_ok (slot_set k slot l) = conf_ok l"
  by (simp add: conf_ok_def)

subsection \<open>Steps that change one slot\<close>

text \<open>What a change of slot \<open>k\<close> leaves of the other threads' places.\<close>

lemma after_switch_simps [simp]:
  "holding (after_switch h k) = hold_of h k" "\<not> filling (after_switch h k)" "owning (after_switch h k) = None"
  "\<not> closing m (after_switch h k)" "\<not> renewing (after_switch h k)" "\<not> locked (after_switch h k)" "at_ok l (after_switch h k)"
  by (cases h; force)+

lemma hold_slot_set: "k' \<noteq> k \<Longrightarrow> hold_ok (slot_set k slot l) f k' off m = hold_ok l f k' off m"
  by (simp add: hold_ok_def)

lemma own_slot_set: "k' \<noteq> k \<Longrightarrow> own_ok (slot_set k slot l) k' = own_ok l k'"
  by (simp add: own_ok_def)

lemma slot_slot_set: "k' \<noteq> k \<Longrightarrow> log_slot_ok (slot_set k slot l) rm cl k' = log_slot_ok l rm cl k'"
  by (simp add: log_slot_ok_def)

lemma place_slot_set:
  assumes ok: "log_place_ok l q" and k: "k < length (lg_pool l)"
    and hold: "\<And>off m. holding q = Some (k, off, m) \<Longrightarrow> hold_ok l (filling q) k off m \<Longrightarrow> hold_ok (slot_set k slot l) (filling q) k off m"
    and own: "owning q = Some k \<Longrightarrow> own_ok l k \<Longrightarrow> own_ok (slot_set k slot l) k"
    and at: "renewing q \<Longrightarrow> lg_active l = k \<Longrightarrow> at_ok l q \<Longrightarrow> at_ok (slot_set k slot l) q"
  shows "log_place_ok (slot_set k slot l) q"
proof -
  have a: "at_ok (slot_set k slot l) q"
  proof (cases "renewing q \<and> lg_active l = k")
    case True
    then show ?thesis using ok at by (simp add: log_place_ok_def)
  next
    case False
    then show ?thesis using ok by (cases q) (auto simp: log_place_ok_def)
  qed
  have h: "case holding q of Some (k', off, m) \<Rightarrow> hold_ok (slot_set k slot l) (filling q) k' off m | None \<Rightarrow> True"
  proof (cases "holding q")
    case (Some x)
    then obtain k' off m where x: "holding q = Some (k', off, m)" by (cases x) auto
    then have "hold_ok l (filling q) k' off m" using ok by (simp add: log_place_ok_def)
    then have "hold_ok (slot_set k slot l) (filling q) k' off m"
      using hold x by (cases "k' = k") (auto simp: hold_slot_set)
    then show ?thesis using x by simp
  qed simp
  have o: "case owning q of Some k' \<Rightarrow> own_ok (slot_set k slot l) k' | None \<Rightarrow> True"
  proof (cases "owning q")
    case (Some k')
    then have "own_ok l k'" using ok by (simp add: log_place_ok_def)
    then have "own_ok (slot_set k slot l) k'" using own Some by (cases "k' = k") (auto simp: own_slot_set)
    then show ?thesis using Some by simp
  qed simp
  show ?thesis using a h o unfolding log_place_ok_def by blast
qed

lemma log_inv_slot:
  assumes inv: "log_inv l ps" and i: "i < length ps" and k: "k < length (lg_pool l)"
    and place: "log_place_ok (slot_set k slot l) p"
    and pair: "\<And>q. q \<in> set ps \<Longrightarrow> log_place_ok l q \<Longrightarrow> pair_ok (lg_buf_size l) (ps ! i) q \<Longrightarrow> pair_ok (lg_buf_size l) p q"
    and hold: "\<And>q off m. q \<in> set ps \<Longrightarrow> log_place_ok l q \<Longrightarrow> pair_ok (lg_buf_size l) (ps ! i) q \<Longrightarrow> holding q = Some (k, off, m) \<Longrightarrow> hold_ok l (filling q) k off m \<Longrightarrow>
      hold_ok (slot_set k slot l) (filling q) k off m"
    and own: "\<And>q. q \<in> set ps \<Longrightarrow> log_place_ok l q \<Longrightarrow> pair_ok (lg_buf_size l) (ps ! i) q \<Longrightarrow> owning q = Some k \<Longrightarrow> own_ok l k \<Longrightarrow> own_ok (slot_set k slot l) k"
    and at: "\<And>q. q \<in> set ps \<Longrightarrow> log_place_ok l q \<Longrightarrow> pair_ok (lg_buf_size l) (ps ! i) q \<Longrightarrow> renewing q \<Longrightarrow> lg_active l = k \<Longrightarrow> at_ok l q \<Longrightarrow> at_ok (slot_set k slot l) q"
    and slot: "log_slot_ok l (rooms (lg_buf_size l) ps k) (closings ps k) k \<Longrightarrow>
      log_slot_ok (slot_set k slot l) (rooms (lg_buf_size l) (ps[i := p]) k) (closings (ps[i := p]) k) k"
    and elsewhere: "\<And>k'. k' \<noteq> k \<Longrightarrow> room_at (lg_buf_size l) k' p = room_at (lg_buf_size l) k' (ps ! i) \<and> closing k' p = closing k' (ps ! i)"
    and ended: "ended (slot_set k slot l) (closings (ps[i := p])) k \<Longrightarrow>
      ended l (closings ps) k \<and> sl_start_lsn slot = sl_start_lsn (lg_pool l ! k) \<and> sl_end_lsn slot = sl_end_lsn (lg_pool l ! k)"
  shows "log_inv (slot_set k slot l) (ps[i := p])"
proof (rule log_inv_step [OF inv i])
  let ?b = "lg_buf_size l" and ?l = "slot_set k slot l" and ?ps = "ps[i := p]"
  show "conf_ok ?l" using log_invD(1) [OF inv] by simp
  show "length (lg_pool ?l) = length (lg_pool l)" "lg_buf_size ?l = ?b" by simp_all
  show "log_place_ok ?l p" by (rule place)
  have rm: "rooms ?b ?ps k' = rooms ?b ps k'" if "k' \<noteq> k" for k'
    using rooms_update [OF i, of ?b p k'] elsewhere [OF that] by simp
  have cl: "closings ?ps k' = closings ps k'" if "k' \<noteq> k" for k'
    using closings_update [OF i, of p k'] elsewhere [OF that] by simp
  show "log_slot_ok ?l (rooms ?b ?ps k') (closings ?ps k') k'"
    if "k' < length (lg_pool l)" "log_slot_ok l (rooms ?b ps k') (closings ps k') k'" for k'
  proof (cases "k' = k")
    case True
    then show ?thesis using that(2) slot by blast
  next
    case False
    then show ?thesis using that(2) by (simp only: rm [OF False] cl [OF False] slot_slot_set [OF False])
  qed
  show "log_place_ok ?l (ps ! j) \<and> pair_ok ?b p (ps ! j)"
    if j: "j < length ps" "log_place_ok l (ps ! j)" "pair_ok ?b (ps ! i) (ps ! j)" for j
  proof
    show "log_place_ok ?l (ps ! j)"
      by (rule place_slot_set [OF j(2) k hold [OF nth_mem [OF j(1)] j(2,3)] own [OF nth_mem [OF j(1)] j(2,3)] at [OF nth_mem [OF j(1)] j(2,3)]])
    show "pair_ok ?b p (ps ! j)" by (rule pair [OF nth_mem [OF j(1)] j(2,3)])
  qed
  have e: "ended l (closings ps) k' \<and> sl_start_lsn (lg_pool ?l ! k') = sl_start_lsn (lg_pool l ! k') \<and>
      sl_end_lsn (lg_pool ?l ! k') = sl_end_lsn (lg_pool l ! k')" if "ended ?l (closings ?ps) k'" for k'
  proof (cases "k' = k")
    case True
    then show ?thesis using ended that k by simp
  next
    case False
    then show ?thesis using that cl [OF False] by (simp add: ended_def)
  qed
  show "after ?l k' m \<or> after ?l m k'" if "k' \<noteq> m" "ended ?l (closings ?ps) k'" "ended ?l (closings ?ps) m" for k' m
    using log_invD(5) [OF inv that(1)] e [OF that(2)] e [OF that(3)] by (simp add: after_def)
qed

lemma log_slot_okD:
  assumes "log_slot_ok l rm cl k" "in_use (slot_state l k)"
  shows "word_ok (slot_state l k)" "released_of (slot_state l k) + rm = joined_of (slot_state l k)"
    "joined_of (slot_state l k) < 2 ^ 19 \<Longrightarrow> sl_unbuffered (lg_pool l ! k) = 0" "0 \<le> sl_unbuffered (lg_pool l ! k)" "sl_unbuffered (lg_pool l ! k) \<le> 2 ^ 30"
    "unat (lsn_offset (sl_start_lsn (lg_pool l ! k))) < 2 ^ 31"
    "sl_start_offset (lg_pool l ! k) = uint (lsn_offset (sl_start_lsn (lg_pool l ! k)))"
    "\<not> closed_of (slot_state l k) \<Longrightarrow> k = lg_active l" "\<not> closed_of (slot_state l k) \<or> 0 < cl \<Longrightarrow> sl_start_lsn (lg_pool l ! k) = lg_alloc_lsn l"
    "closed_of (slot_state l k) \<Longrightarrow> cl = 0 \<Longrightarrow> end_ok (lg_pool l ! k) \<and> lsn_le (sl_end_lsn (lg_pool l ! k)) (lg_alloc_lsn l)"
  using assms unfolding log_slot_ok_def Let_def by blast+

lemma log_slot_okI:
  assumes "in_use (sl_state slot) \<Longrightarrow> word_ok (sl_state slot) \<and> released_of (sl_state slot) + rm = joined_of (sl_state slot)"
    and "in_use (sl_state slot) \<Longrightarrow> (joined_of (sl_state slot) < 2 ^ 19 \<longrightarrow> sl_unbuffered slot = 0) \<and> 0 \<le> sl_unbuffered slot \<and> sl_unbuffered slot \<le> 2 ^ 30"
    and "in_use (sl_state slot) \<Longrightarrow> unat (lsn_offset (sl_start_lsn slot)) < 2 ^ 31 \<and> sl_start_offset slot = uint (lsn_offset (sl_start_lsn slot))"
    and "in_use (sl_state slot) \<Longrightarrow> \<not> closed_of (sl_state slot) \<Longrightarrow> k = lg_active l"
    and "in_use (sl_state slot) \<Longrightarrow> \<not> closed_of (sl_state slot) \<or> 0 < cl \<Longrightarrow> sl_start_lsn slot = lg_alloc_lsn l"
    and "in_use (sl_state slot) \<Longrightarrow> closed_of (sl_state slot) \<Longrightarrow> cl = 0 \<Longrightarrow> end_ok slot \<and> lsn_le (sl_end_lsn slot) (lg_alloc_lsn l)"
    and "k < length (lg_pool l)"
  shows "log_slot_ok (slot_set k slot l) rm cl k"
  using assms(1-6) unfolding log_slot_ok_def Let_def slot_set_simps(7) [OF assms(7)] slot_set_simps by blast

lemma log_inv_slot_at:
  "log_inv l ps \<Longrightarrow> k < length (lg_pool l) \<Longrightarrow> log_slot_ok l (rooms (lg_buf_size l) ps k) (closings ps k) k"
  unfolding log_inv_def by blast

lemma log_inv_place_at: "log_inv l ps \<Longrightarrow> i < length ps \<Longrightarrow> log_place_ok l (ps ! i)"
  unfolding log_inv_def by simp

lemma log_place_ok_hold: "log_place_ok l p \<Longrightarrow> holding p = Some (k, off, m) \<Longrightarrow> hold_ok l (filling p) k off m"
  by (simp add: log_place_ok_def)

lemma log_place_ok_own: "log_place_ok l p \<Longrightarrow> owning p = Some k \<Longrightarrow> own_ok l k"
  by (simp add: log_place_ok_def)

lemma log_place_ok_at: "log_place_ok l p \<Longrightarrow> at_ok l p"
  by (simp add: log_place_ok_def)

lemma room_pos: "0 < m \<Longrightarrow> 0 < room b m"
  by (simp add: room_def)

text \<open>A renewing thread's slot is not open.\<close>

lemma renewing_not_open: "renewing q \<Longrightarrow> at_ok l q \<Longrightarrow> in_use (slot_state l (lg_active l)) \<Longrightarrow> closed_of (slot_state l (lg_active l))"
  by (cases q) auto

subsubsection \<open>Joining\<close>

lemma join_state_word:
  assumes j: "j < 2 ^ 19" "r \<le> j" "unat b \<le> 2 ^ 18" and m: "unat m \<le> 2 ^ 30"
  shows "join_state b m (slot_word j r False) = slot_word (j + room b (unat m)) r False"
proof -
  have jr: "j < 2 ^ 20" "r < 2 ^ 20" using j by simp_all
  have un: "unbuffered_size b m \<longleftrightarrow> unat b div 2 < unat m"
    using j(3) by (simp add: unbuffered_size_def word_less_nat_alt log_slot_buf_max_def unat_div unsigned_ucast_eq take_bit_nat_eq_self)
  have sj: "slot_joined (slot_word j r False) = of_nat j"
    using joined_word [OF jr, of False] by (metis of_nat_unat ucast_id)
  have new: "(if unbuffered_size b m then slot_joined (slot_word j r False) + log_slot_unbuffered else slot_joined (slot_word j r False) + m)
      = of_nat (j + room b (unat m))"
    unfolding un sj room_def log_slot_unbuffered_def by simp
  have "join_state b m (slot_word j r False) = slot_join_rel (of_nat (j + room b (unat m))) (of_nat r) (of_bool False * 2 ^ 62)"
    unfolding join_state_def Let_def new released_word [OF jr] flags_word [OF jr] by (rule refl)
  then show ?thesis by (simp add: slot_join_rel_def slot_word_def push_bit_eq_mult)
qed

lemma join_swap_inv:
  assumes inv: "log_inv l ps" and i: "i < length ps" and at: "ps ! i = JoinSwap m k old"
    and swap: "wt_log_slot_join_round (lg_buf_size l) m old (slot_state l k) = (Some off, s)"
  shows "log_inv (set_state k s l) (ps[i := JoinFill m off k])"
proof -
  let ?b = "lg_buf_size l" and ?p = "JoinFill m off k"
  have m: "0 < unat m" "unat m \<le> 2 ^ 30" and k: "k < length (lg_pool l)"
    using log_place_ok_at [OF log_inv_place_at [OF inv i]] unfolding at by (simp_all add: size_ok_def unat_gt_0)
  have b: "unat ?b \<le> 2 ^ 18" using log_invD(1) [OF inv] by (simp add: conf_ok_def)
  note slot = log_inv_slot_at [OF inv k]
  have st: "slot_open ?b (slot_state l k)" "off = slot_joined (slot_state l k)" "s = join_state ?b m (slot_state l k)"
    using swap by (auto simp: wt_log_slot_join_round_def split: if_splits)
  have use: "in_use (slot_state l k)" using st(1) not_open_special unfolding in_use_def by metis
  obtain j r c where w: "slot_state l k = slot_word j r c" "r \<le> j" "j < 2 ^ 20" "r < 2 ^ 20" "j mod 2 ^ 19 \<le> 2 ^ 18"
    by (rule word_okE [OF log_slot_okD(1) [OF slot use]])
  have jlt: "\<not> c" "j < unat ?b div 2" using st(1) unfolding w(1) using open_word [OF w(3,4) b] by simp_all
  have off: "unat off = j" unfolding st(2) w(1) using joined_word [OF w(3,4)] by simp
  define j' where "j' = j + room ?b (unat m)"
  have s: "s = slot_word j' r False"
    unfolding st(3) w(1) j'_def using join_state_word [of j r ?b m] jlt b w(2) m by simp
  have jb: "j < 2 ^ 17" using jlt(2) b by simp
  have j': "j' < 2 ^ 20" "j' mod 2 ^ 19 \<le> 2 ^ 18" "r \<le> j'" "j \<le> j'" and js19: "j' < 2 ^ 19 \<longleftrightarrow> \<not> unat ?b div 2 < unat m"
    using jb jlt(2) b w(2) unfolding j'_def room_def by auto
  have jm: "j \<le> j' mod 2 ^ 19" using jb js19 j'(4) unfolding j'_def room_def by auto
  have r: "r < 2 ^ 20" by (rule w(4))
  let ?slot = "(lg_pool l ! k)\<lparr>sl_state := s\<rparr>"
  have sst: "sl_state ?slot = slot_word j' r False" by (simp add: s)
  have cs0: "\<not> closed_of (slot_state l k)" unfolding w(1) closed_of_word [OF w(3,4)] using jlt(1) by simp
  have act: "k = lg_active l" by (rule log_slot_okD(8) [OF slot use cs0])
  have js0: "joined_of (slot_state l k) = j" "released_of (slot_state l k) = r" unfolding w(1) by (rule joined_of_word [OF w(3,4)], rule released_of_word [OF w(3,4)])
  have un0: "sl_unbuffered (lg_pool l ! k) = 0" using log_slot_okD(3) [OF slot use] unfolding js0 using jb by simp
  have cl0: "closings (ps[i := ?p]) = closings ps"
    using closings_update [OF i, of ?p] unfolding at by (intro ext) simp
  show ?thesis unfolding set_state_def
  proof (rule log_inv_slot [OF inv i k])
    have "j + unat m \<le> (j + unat m) mod 2 ^ 19" if "\<not> unat ?b div 2 < unat m"
      using js19 that unfolding j'_def room_def by simp
    then show "log_place_ok (slot_set k ?slot l) ?p"
      using k m jlt(2) in_use_word [OF j'(1) r] un0
      unfolding log_place_ok_def hold_ok_def by (simp add: sst off joined_of_word [OF j'(1) r] j'_def [symmetric]) (simp add: j'_def room_def)
    show "pair_ok ?b ?p q" if q: "log_place_ok l q" "pair_ok ?b (ps ! i) q" for q
    proof -
      have "off' + room ?b m' \<le> j" if "holding q = Some (k, off', m')" for off' m'
        using log_place_ok_hold [OF q(1) that] by (simp add: hold_ok_def js0)
      then show ?thesis using q(2) unfolding at pair_ok_def rooms_apart_def by (auto simp: off split: option.splits)
    qed
    show "hold_ok (slot_set k ?slot l) (filling q) k off' m'" if "hold_ok l (filling q) k off' m'" for q off' m'
      using that k in_use_word [OF j'(1) r] jb j'(4) jm
      unfolding hold_ok_def by (auto simp: sst js0 joined_of_word [OF j'(1) r] split: if_splits)
    show "own_ok (slot_set k ?slot l) k" if "own_ok l k" using that cs0 by (simp add: own_ok_def)
    show "at_ok (slot_set k ?slot l) q" if "renewing q" "lg_active l = k" "at_ok l q" for q
      using renewing_not_open [OF that(1,3)] use cs0 that(2) by simp
    show "log_slot_ok (slot_set k ?slot l) (rooms ?b (ps[i := ?p]) k) (closings (ps[i := ?p]) k) k"
    proof (rule log_slot_okI [OF _ _ _ _ _ _ k])
      have "rooms ?b (ps[i := ?p]) k = rooms ?b ps k + room ?b (unat m)"
        using rooms_update [OF i, of ?b ?p k] unfolding at by (simp add: room_at_def)
      then show "word_ok (sl_state ?slot) \<and> released_of (sl_state ?slot) + rooms ?b (ps[i := ?p]) k = joined_of (sl_state ?slot)"
        using log_slot_okD(2) [OF slot use] word_ok_word [OF j'(3,1,2)]
        unfolding sst js0 joined_of_word [OF j'(1) r] released_of_word [OF j'(1) r] by (simp add: j'_def)
      show "(joined_of (sl_state ?slot) < 2 ^ 19 \<longrightarrow> sl_unbuffered ?slot = 0) \<and> 0 \<le> sl_unbuffered ?slot \<and> sl_unbuffered ?slot \<le> 2 ^ 30"
        using un0 by simp
      show "unat (lsn_offset (sl_start_lsn ?slot)) < 2 ^ 31 \<and> sl_start_offset ?slot = uint (lsn_offset (sl_start_lsn ?slot))"
        using log_slot_okD(6,7) [OF slot use] by simp
      show "k = lg_active l" by (rule act)
      show "sl_start_lsn ?slot = lg_alloc_lsn l" using log_slot_okD(9) [OF slot use] cs0 by simp
      show "end_ok ?slot \<and> lsn_le (sl_end_lsn ?slot) (lg_alloc_lsn l)" if "closed_of (sl_state ?slot)"
        using that unfolding sst closed_of_word [OF j'(1) r] by simp
    qed
    show "room_at ?b k' ?p = room_at ?b k' (ps ! i) \<and> closing k' ?p = closing k' (ps ! i)" if "k' \<noteq> k" for k'
      using that unfolding at by (simp add: room_at_def)
    show "ended l (closings ps) k \<and> sl_start_lsn ?slot = sl_start_lsn (lg_pool l ! k) \<and> sl_end_lsn ?slot = sl_end_lsn (lg_pool l ! k)"
      if "ended (slot_set k ?slot l) (closings (ps[i := ?p])) k"
      using that k closed_of_word [OF j'(1) r, of False] unfolding ended_def by (simp add: s)
  qed
qed

subsubsection \<open>Filling in\<close>

lemma hold_same:
  assumes "hold_ok l f k off m" "joined_of (sl_state slot) = joined_of (slot_state l k)" "in_use (sl_state slot)"
    "sl_unbuffered slot = sl_unbuffered (lg_pool l ! k)"
  shows "hold_ok (slot_set k slot l) f k off m"
proof -
  have k: "k < length (lg_pool l)" using assms(1) by (simp add: hold_ok_def)
  show ?thesis using assms unfolding hold_ok_def slot_set_simps(1,2) slot_set_simps(7) [OF k] assms(2,4) by blast
qed

lemma unbuffered_size_iff: "unat b \<le> 2 ^ 18 \<Longrightarrow> unbuffered_size b m \<longleftrightarrow> unat b div 2 < unat m"
  by (simp add: unbuffered_size_def word_less_nat_alt log_slot_buf_max_def unat_div unsigned_ucast_eq take_bit_nat_eq_self)

lemma join_finish_simps [simp]:
  "sl_state (wt_log_slot_join_finish b m f s) = sl_state s" "sl_start_lsn (wt_log_slot_join_finish b m f s) = sl_start_lsn s"
  "sl_end_lsn (wt_log_slot_join_finish b m f s) = sl_end_lsn s" "sl_start_offset (wt_log_slot_join_finish b m f s) = sl_start_offset s"
  "sl_unbuffered (wt_log_slot_join_finish b m f s) = (if unbuffered_size b m then int (unat m) else sl_unbuffered s)"
  by (simp_all add: wt_log_slot_join_finish_def Let_def)

lemma join_fill_inv:
  assumes inv: "log_inv l ps" and i: "i < length ps" and at: "ps ! i = JoinFill m off k"
  shows "log_inv (slot_set k (wt_log_slot_join_finish (lg_buf_size l) m flags (lg_pool l ! k)) l) (ps[i := Joined m off k])"
proof -
  let ?b = "lg_buf_size l" and ?p = "Joined m off k" and ?slot = "wt_log_slot_join_finish (lg_buf_size l) m flags (lg_pool l ! k)"
  have "hold_ok l True k (unat off) (unat m)"
    using log_place_ok_hold [OF log_inv_place_at [OF inv i]] unfolding at by simp
  then have k: "k < length (lg_pool l)" and use: "in_use (slot_state l k)" and m: "0 < unat m" "unat m \<le> 2 ^ 30"
    and rm: "unat off + room ?b (unat m) \<le> joined_of (slot_state l k)"
    and big: "unat ?b div 2 < unat m \<Longrightarrow> unat off + 2 ^ 19 = joined_of (slot_state l k) \<and> sl_unbuffered (lg_pool l ! k) = 0"
    and small: "\<not> unat ?b div 2 < unat m \<Longrightarrow> unat off < unat ?b div 2 \<and> unat off + unat m \<le> joined_of (slot_state l k) mod 2 ^ 19"
    unfolding hold_ok_def by (auto split: if_splits)
  have "unat ?b \<le> 2 ^ 18" using log_invD(1) [OF inv] by (simp add: conf_ok_def)
  note un = unbuffered_size_iff [OF this, of m]
  note slot = log_inv_slot_at [OF inv k]
  have cl: "closings (ps[i := ?p]) = closings ps"
    using closings_update [OF i, of ?p] unfolding at by (intro ext) simp
  have rms: "rooms ?b (ps[i := ?p]) k = rooms ?b ps k"
    using rooms_update [OF i, of ?b ?p k] unfolding at by (simp add: room_at_def)
  show ?thesis
  proof (rule log_inv_slot [OF inv i k])
    show "log_place_ok (slot_set k ?slot l) ?p"
      unfolding log_place_ok_def hold_ok_def using k use m rm big small by (simp add: un)
    show "pair_ok ?b ?p q" if "pair_ok ?b (ps ! i) q" for q
      using that unfolding at pair_ok_def by simp
    show "hold_ok (slot_set k ?slot l) (filling q) k off' m'"
      if q: "pair_ok ?b (ps ! i) q" "holding q = Some (k, off', m')" "hold_ok l (filling q) k off' m'" for q off' m'
    proof (cases "unat ?b div 2 < unat m")
      case True
      have "\<not> unat ?b div 2 < m'"
        using q big [OF True] True unfolding at pair_ok_def rooms_apart_def hold_ok_def by (auto simp: room_def)
      then show ?thesis using q(3) k unfolding hold_ok_def by simp
    next
      case False
      show ?thesis by (rule hold_same [OF q(3)]) (use False use in \<open>simp_all add: un\<close>)
    qed
    show "own_ok (slot_set k ?slot l) k" if "own_ok l k" using that k by (simp add: own_ok_def)
    show "at_ok (slot_set k ?slot l) q" if "lg_active l = k" "at_ok l q" for q
      using that k by (cases q) auto
    show "log_slot_ok (slot_set k ?slot l) (rooms ?b (ps[i := ?p]) k) (closings (ps[i := ?p]) k) k" unfolding rms cl
    proof (rule log_slot_okI [OF _ _ _ _ _ _ k])
      show "word_ok (sl_state ?slot) \<and> released_of (sl_state ?slot) + rooms ?b ps k = joined_of (sl_state ?slot)"
        using log_slot_okD(1,2) [OF slot use] by simp
      show "(joined_of (sl_state ?slot) < 2 ^ 19 \<longrightarrow> sl_unbuffered ?slot = 0) \<and> 0 \<le> sl_unbuffered ?slot \<and> sl_unbuffered ?slot \<le> 2 ^ 30"
      proof (cases "unat ?b div 2 < unat m")
        case True
        have "int (unat m) \<le> int (2 ^ 30)" using m(2) by (simp only: of_nat_le_iff)
        then show ?thesis using big [OF True] True by (simp add: un)
      next
        case False
        then show ?thesis using log_slot_okD(3-5) [OF slot use] by (simp add: un)
      qed
      show "unat (lsn_offset (sl_start_lsn ?slot)) < 2 ^ 31 \<and> sl_start_offset ?slot = uint (lsn_offset (sl_start_lsn ?slot))"
        using log_slot_okD(6,7) [OF slot use] by simp
      show "k = lg_active l" if "\<not> closed_of (sl_state ?slot)" using log_slot_okD(8) [OF slot use] that by simp
      show "sl_start_lsn ?slot = lg_alloc_lsn l" if "\<not> closed_of (sl_state ?slot) \<or> 0 < closings ps k"
        using log_slot_okD(9) [OF slot use] that by simp
      show "end_ok ?slot \<and> lsn_le (sl_end_lsn ?slot) (lg_alloc_lsn l)" if "closed_of (sl_state ?slot)" "closings ps k = 0"
      proof -
        have e: "end_ok (lg_pool l ! k)" "lsn_le (sl_end_lsn (lg_pool l ! k)) (lg_alloc_lsn l)"
          using log_slot_okD(10) [OF slot use] that by simp_all
        have "\<not> unat ?b div 2 < unat m"
        proof
          assume a: "unat ?b div 2 < unat m"
          then have "2 ^ 19 \<le> joined_of (slot_state l k)" using big by linarith
          then show False using e(1) big [OF a] by (simp add: end_ok_def)
        qed
        then show ?thesis using e by (simp add: end_ok_def un)
      qed
    qed
    show "room_at ?b k' ?p = room_at ?b k' (ps ! i) \<and> closing k' ?p = closing k' (ps ! i)" for k'
      unfolding at by (simp add: room_at_def)
    show "ended l (closings ps) k \<and> sl_start_lsn ?slot = sl_start_lsn (lg_pool l ! k) \<and> sl_end_lsn ?slot = sl_end_lsn (lg_pool l ! k)"
      if "ended (slot_set k ?slot l) (closings (ps[i := ?p])) k"
      using that k unfolding cl ended_def by simp
  qed
qed

subsubsection \<open>Releasing\<close>

lemma rooms_hold: "p \<in> set ps \<Longrightarrow> holding p = Some (k, off, m) \<Longrightarrow> room b m \<le> rooms b ps k"
  using rooms_at_least [of p ps b k] by (simp add: room_at_def)

lemma own_rooms:
  assumes inv: "log_inv l ps" and own: "own_ok l k"
  shows "rooms (lg_buf_size l) ps k = 0"
proof -
  have k: "k < length (lg_pool l)" "in_use (slot_state l k)" "released_of (slot_state l k) = joined_of (slot_state l k)"
    using own by (simp_all add: own_ok_def)
  show ?thesis using log_slot_okD(2) [OF log_inv_slot_at [OF inv k(1)] k(2)] k(3) by linarith
qed

lemma own_no_hold:
  assumes inv: "log_inv l ps" and own: "own_ok l k" and p: "p \<in> set ps"
  shows "holding p \<noteq> Some (k, off, m)"
proof
  assume h: "holding p = Some (k, off, m)"
  have "0 < m" using log_place_ok_hold [OF log_invD(2) [OF inv p] h] by (simp add: hold_ok_def)
  then have "0 < room (lg_buf_size l) m" by (rule room_pos)
  then show False using rooms_hold [OF p h, of "lg_buf_size l"] own_rooms [OF inv own] by linarith
qed

lemma release_inv:
  assumes inv: "log_inv l ps" and i: "i < length ps" and at: "ps ! i = Release m off k"
    and rel: "wt_log_slot_release (lg_buf_size l) m (lg_pool l ! k) = (s, slot)"
  shows "log_inv (slot_set k slot l) (ps[i := if slot_done s then Last None k else Away])"
proof -
  let ?b = "lg_buf_size l" and ?p = "if slot_done s then Last None k else Away"
  have hold: "holding (ps ! i) = Some (k, unat off, unat m)" unfolding at by simp
  have h: "hold_ok l False k (unat off) (unat m)"
    using log_place_ok_hold [OF log_inv_place_at [OF inv i] hold] unfolding at by simp
  then have k: "k < length (lg_pool l)" and use: "in_use (slot_state l k)" and m: "0 < unat m" by (simp_all add: hold_ok_def)
  have b: "unat ?b \<le> 2 ^ 18" using log_invD(1) [OF inv] by (simp add: conf_ok_def)
  note log_slot_ok = log_inv_slot_at [OF inv k]
  obtain j r c where w: "slot_state l k = slot_word j r c" "r \<le> j" "j < 2 ^ 20" "r < 2 ^ 20" "j mod 2 ^ 19 \<le> 2 ^ 18"
    by (rule word_okE [OF log_slot_okD(1) [OF log_slot_ok use]])
  have st0: "joined_of (slot_state l k) = j" "released_of (slot_state l k) = r" "closed_of (slot_state l k) = c"
    unfolding w(1) by (rule joined_of_word [OF w(3,4)], rule released_of_word [OF w(3,4)], rule closed_of_word [OF w(3,4)])
  have rms0: "r + rooms ?b ps k = j" using log_slot_okD(2) [OF log_slot_ok use] unfolding st0 .
  have rm: "room ?b (unat m) \<le> rooms ?b ps k" using rooms_hold [OF nth_mem [OF i] hold] .
  have pos: "0 < room ?b (unat m)" using m by (rule room_pos)
  define r' where "r' = r + room ?b (unat m)"
  have r': "r' \<le> j" "r' < 2 ^ 20" using rms0 rm w(3) unfolding r'_def by linarith+
  have "(if unbuffered_size ?b m then log_slot_unbuffered else m) = of_nat (room ?b (unat m))"
    unfolding unbuffered_size_iff [OF b] room_def log_slot_unbuffered_def by simp
  then have s: "s = slot_word j r' c" and slot: "slot = (lg_pool l ! k)\<lparr>sl_state := s\<rparr>"
    using rel unfolding wt_log_slot_release_def Let_def slot_join_rel_def w(1) r'_def slot_word_def by auto
  have st: "joined_of s = j" "released_of s = r'" "closed_of s = c" "in_use s"
    unfolding s by (rule joined_of_word [OF w(3) r'(2)], rule released_of_word [OF w(3) r'(2)], rule closed_of_word [OF w(3) r'(2)], rule in_use_word [OF w(3) r'(2)])
  have dn: "slot_done s \<longleftrightarrow> c \<and> r' = j" unfolding s by (rule done_word [OF w(3) r'(2)])
  have noown: "\<not> own_ok l k" using rms0 rm pos unfolding own_ok_def st0 by simp
  have pp: "holding ?p = None" "owning ?p = (if slot_done s then Some k else None)" "\<not> renewing ?p" "\<not> locked ?p" "\<not> closing k' ?p" "at_ok l' ?p"
    for k' l' by simp_all
  have cl: "closings (ps[i := ?p]) = closings ps"
    using closings_update [OF i, of ?p] pp(5) unfolding at by (intro ext) simp
  have rms: "rooms ?b (ps[i := ?p]) k + room ?b (unat m) = rooms ?b ps k"
    using rooms_update [OF i, of ?b ?p k] pp(1) unfolding at by (simp add: room_at_def)
  show ?thesis
  proof (rule log_inv_slot [OF inv i k])
    show "log_place_ok (slot_set k slot l) ?p"
      unfolding log_place_ok_def pp(1,2) own_ok_def using pp(6) k dn st by (simp add: slot)
    show "pair_ok ?b ?p q" if q: "log_place_ok l q" for q
      unfolding pair_ok_def pp(1,2) rooms_apart_def using pp(3,4) log_place_ok_own [OF q] noown by auto
    show "hold_ok (slot_set k slot l) (filling q) k off' m'" if "hold_ok l (filling q) k off' m'" for q off' m'
      by (rule hold_same [OF that]) (simp_all add: slot st st0)
    show "own_ok (slot_set k slot l) k" if "own_ok l k" using that noown by blast
    show "at_ok (slot_set k slot l) q" if "lg_active l = k" "at_ok l q" for q
      using that k st use by (cases q) (auto simp: slot st0)
    show "log_slot_ok (slot_set k slot l) (rooms ?b (ps[i := ?p]) k) (closings (ps[i := ?p]) k) k" unfolding cl
    proof (rule log_slot_okI [OF _ _ _ _ _ _ k])
      show "word_ok (sl_state slot) \<and> released_of (sl_state slot) + rooms ?b (ps[i := ?p]) k = joined_of (sl_state slot)"
      proof
        have sst: "sl_state slot = s" by (simp add: slot)
        show "word_ok (sl_state slot)" unfolding sst s by (rule word_ok_word [OF r'(1) w(3,5)])
        show "released_of (sl_state slot) + rooms ?b (ps[i := ?p]) k = joined_of (sl_state slot)"
          unfolding sst st(1,2) r'_def using rms rms0 by linarith
      qed
      show "(joined_of (sl_state slot) < 2 ^ 19 \<longrightarrow> sl_unbuffered slot = 0) \<and> 0 \<le> sl_unbuffered slot \<and> sl_unbuffered slot \<le> 2 ^ 30"
        using log_slot_okD(3-5) [OF log_slot_ok use] by (simp add: slot st st0)
      show "unat (lsn_offset (sl_start_lsn slot)) < 2 ^ 31 \<and> sl_start_offset slot = uint (lsn_offset (sl_start_lsn slot))"
        using log_slot_okD(6,7) [OF log_slot_ok use] by (simp add: slot)
      show "k = lg_active l" if "\<not> closed_of (sl_state slot)" using log_slot_okD(8) [OF log_slot_ok use] that by (simp add: slot st st0)
      show "sl_start_lsn slot = lg_alloc_lsn l" if "\<not> closed_of (sl_state slot) \<or> 0 < closings ps k"
        using log_slot_okD(9) [OF log_slot_ok use] that by (simp add: slot st st0)
      show "end_ok slot \<and> lsn_le (sl_end_lsn slot) (lg_alloc_lsn l)" if "closed_of (sl_state slot)" "closings ps k = 0"
        using log_slot_okD(10) [OF log_slot_ok use] that by (simp add: slot st st0 end_ok_def)
    qed
    show "room_at ?b k' ?p = room_at ?b k' (ps ! i) \<and> closing k' ?p = closing k' (ps ! i)" if "k' \<noteq> k" for k'
      using that pp(1) pp(5) unfolding at by (simp add: room_at_def)
    show "ended l (closings ps) k \<and> sl_start_lsn slot = sl_start_lsn (lg_pool l ! k) \<and> sl_end_lsn slot = sl_end_lsn (lg_pool l ! k)"
      if "ended (slot_set k slot l) (closings (ps[i := ?p])) k"
      using that k use unfolding cl ended_def by (simp add: slot st st0)
  qed
qed

subsubsection \<open>Closing\<close>

lemma hold_of_Some: "h \<noteq> None \<Longrightarrow> \<exists>off m. hold_of h k = Some (k, off, m)"
  by (cases h) auto

lemma hold_in_use:
  assumes inv: "log_inv l ps" and p: "p \<in> set ps" and h: "holding p = Some (k, off, m)"
  shows "k < length (lg_pool l)" "in_use (slot_state l k)" "released_of (slot_state l k) < joined_of (slot_state l k)"
proof -
  have ok: "hold_ok l (filling p) k off m" by (rule log_place_ok_hold [OF log_invD(2) [OF inv p] h])
  then show k: "k < length (lg_pool l)" and u: "in_use (slot_state l k)" by (simp_all add: hold_ok_def)
  have "0 < room (lg_buf_size l) m" using ok by (intro room_pos) (simp add: hold_ok_def)
  then show "released_of (slot_state l k) < joined_of (slot_state l k)"
    using rooms_hold [OF p h, of "lg_buf_size l"] log_slot_okD(2) [OF log_inv_slot_at [OF inv k] u] by linarith
qed

lemma close_swap_inv:
  assumes inv: "log_inv l ps" and i: "i < length ps" and at: "ps ! i = CloseSwap h k old"
    and swap: "log_slot_close_swap old (lg_pool l ! k) = (Some rel, slot)"
  shows "log_inv (slot_set k slot l) (ps[i := CloseEnd h k old rel])"
proof -
  let ?b = "lg_buf_size l" and ?p = "CloseEnd h k old rel"
  have pi: "ps ! i \<in> set ps" using i by simp
  have pl: "log_place_ok l (ps ! i)" by (rule log_inv_place_at [OF inv i])
  have k: "k < length (lg_pool l)" and nc: "\<not> slot_closed old" and np: "h = None \<Longrightarrow> \<not> slot_inprogress old"
    using log_place_ok_at [OF pl] unfolding at by simp_all
  have old: "old = slot_state l k" and rel: "rel = slot_done (old OR log_slot_close_bit)"
    and slot: "slot = (lg_pool l ! k)\<lparr>sl_state := old OR log_slot_close_bit\<rparr>"
    using swap by (auto simp: log_slot_close_swap_def Let_def split: if_splits)
  have hold: "h \<noteq> None \<Longrightarrow> \<exists>off m. holding (ps ! i) = Some (k, off, m)" unfolding at using hold_of_Some [of h k] by simp
  have use: "in_use (slot_state l k)"
  proof (cases "h = None")
    case True
    then have "\<not> slot_inprogress (slot_state l k)" using np old by blast
    then show ?thesis unfolding in_use_def using inprogress_special by metis
  next
    case False
    then show ?thesis using hold hold_in_use(2) [OF inv pi] by blast
  qed
  note log_slot_ok = log_inv_slot_at [OF inv k]
  obtain j r c where w: "slot_state l k = slot_word j r c" "r \<le> j" "j < 2 ^ 20" "r < 2 ^ 20" "j mod 2 ^ 19 \<le> 2 ^ 18"
    by (rule word_okE [OF log_slot_okD(1) [OF log_slot_ok use]])
  have st0: "joined_of (slot_state l k) = j" "released_of (slot_state l k) = r" "closed_of (slot_state l k) = c"
    unfolding w(1) by (rule joined_of_word [OF w(3,4)], rule released_of_word [OF w(3,4)], rule closed_of_word [OF w(3,4)])
  have c: "\<not> c" using nc unfolding old w(1) closed_word [OF w(3,4)] .
  have cs0: "\<not> closed_of (slot_state l k)" using st0(3) c by simp
  have sst: "sl_state slot = slot_word j r True" unfolding slot old w(1) using close_word [OF w(3,4)] by simp
  have st: "joined_of (sl_state slot) = j" "released_of (sl_state slot) = r" "closed_of (sl_state slot)" "in_use (sl_state slot)"
    unfolding sst using joined_of_word [OF w(3,4)] released_of_word [OF w(3,4)] closed_of_word [OF w(3,4)] in_use_word [OF w(3,4)] by simp_all
  have un: "sl_unbuffered slot = sl_unbuffered (lg_pool l ! k)" "sl_start_lsn slot = sl_start_lsn (lg_pool l ! k)"
    "sl_start_offset slot = sl_start_offset (lg_pool l ! k)" by (simp_all add: slot)
  have "rel \<longleftrightarrow> r = j" unfolding rel old w(1) close_word [OF w(3,4)] done_word [OF w(3,4)] by simp
  moreover have "r = j" if "h = None" using np [OF that] unfolding old w(1) inprogress_word [OF w(3,4)] by simp
  moreover have "r \<noteq> j" if "h \<noteq> None"
    using hold [OF that] hold_in_use(3) [OF inv pi] unfolding st0 [symmetric] by force
  ultimately have rel_h: "rel \<longleftrightarrow> h = None" "rel \<Longrightarrow> r = j" by blast+
  have act: "k = lg_active l" by (rule log_slot_okD(8) [OF log_slot_ok use cs0])
  have noown: "\<not> own_ok l k" using cs0 by (simp add: own_ok_def)
  have noren: "\<not> renewing q" if "log_place_ok l q" for q
    using renewing_not_open [OF _ log_place_ok_at [OF that]] use cs0 act by blast
  have hp: "holding ?p = holding (ps ! i)" "filling ?p = filling (ps ! i)" unfolding at by simp_all
  have rms: "rooms ?b (ps[i := ?p]) k = rooms ?b ps k"
    using rooms_update [OF i, of ?b ?p k] room_at_cong [OF hp(1)] by simp
  have cls: "0 < closings (ps[i := ?p]) k" unfolding closings_pos by (rule bexI [OF _ set_update_memI [OF i]]) simp
  show ?thesis
  proof (rule log_inv_slot [OF inv i k])
    have a: "at_ok (slot_set k slot l) ?p" using k act st w(4) rel_h old w(1) c by auto
    have o: "case owning ?p of None \<Rightarrow> True | Some k' \<Rightarrow> own_ok (slot_set k slot l) k'"
      using k st rel_h(2) by (simp add: own_ok_def)
    have h: "case holding ?p of None \<Rightarrow> True | Some (k', off, m) \<Rightarrow> hold_ok (slot_set k slot l) (filling ?p) k' off m"
    proof (cases h)
      case (Some x)
      then obtain off m where x: "holding (ps ! i) = Some (k, off, m)" using hold by blast
      have "hold_ok (slot_set k slot l) (filling ?p) k off m"
        unfolding hp by (rule hold_same [OF log_place_ok_hold [OF pl x]]) (simp_all add: st st0 un)
      then show ?thesis unfolding hp x by simp
    qed simp
    show "log_place_ok (slot_set k slot l) ?p" using a h o unfolding log_place_ok_def by blast
    show "pair_ok ?b ?p q" if q: "log_place_ok l q" "pair_ok ?b (ps ! i) q" for q
    proof -
      have "owning q \<noteq> Some k" using log_place_ok_own [OF q(1)] noown by blast
      moreover have "\<not> locked q" using q(2) unfolding at pair_ok_def by simp
      ultimately show ?thesis using q(2) noren [OF q(1)] hp(1) unfolding pair_ok_def by auto
    qed
    show "hold_ok (slot_set k slot l) (filling q) k off' m'" if "hold_ok l (filling q) k off' m'" for q off' m'
      by (rule hold_same [OF that]) (simp_all add: st st0 un)
    show "own_ok (slot_set k slot l) k" if "own_ok l k" using that noown by blast
    show "at_ok (slot_set k slot l) q" if "log_place_ok l q" "renewing q" for q using noren that by blast
    show "log_slot_ok (slot_set k slot l) (rooms ?b (ps[i := ?p]) k) (closings (ps[i := ?p]) k) k" unfolding rms
    proof (rule log_slot_okI [OF _ _ _ _ _ _ k])
      show "word_ok (sl_state slot) \<and> released_of (sl_state slot) + rooms ?b ps k = joined_of (sl_state slot)"
        using log_slot_okD(2) [OF log_slot_ok use] word_ok_word [OF w(2,3,5), of True] unfolding st st0 by (simp add: sst)
      show "(joined_of (sl_state slot) < 2 ^ 19 \<longrightarrow> sl_unbuffered slot = 0) \<and> 0 \<le> sl_unbuffered slot \<and> sl_unbuffered slot \<le> 2 ^ 30"
        using log_slot_okD(3-5) [OF log_slot_ok use] unfolding st st0 un by blast
      show "unat (lsn_offset (sl_start_lsn slot)) < 2 ^ 31 \<and> sl_start_offset slot = uint (lsn_offset (sl_start_lsn slot))"
        using log_slot_okD(6,7) [OF log_slot_ok use] unfolding un by blast
      show "k = lg_active l" by (rule act)
      show "sl_start_lsn slot = lg_alloc_lsn l" unfolding un by (rule log_slot_okD(9) [OF log_slot_ok use]) (use cs0 in blast)
      show "end_ok slot \<and> lsn_le (sl_end_lsn slot) (lg_alloc_lsn l)" if "closings (ps[i := ?p]) k = 0"
        using that cls by simp
    qed
    show "room_at ?b k' ?p = room_at ?b k' (ps ! i) \<and> closing k' ?p = closing k' (ps ! i)" if "k' \<noteq> k" for k'
      using that room_at_cong [OF hp(1)] unfolding at by simp
    show "ended l (closings ps) k \<and> sl_start_lsn slot = sl_start_lsn (lg_pool l ! k) \<and> sl_end_lsn slot = sl_end_lsn (lg_pool l ! k)"
      if "ended (slot_set k slot l) (closings (ps[i := ?p])) k"
      using that cls by (simp add: ended_def)
  qed
qed

subsubsection \<open>Handing over and freeing\<close>

lemma last_inv:
  assumes inv: "log_inv l ps" and i: "i < length ps" and at: "ps ! i = Last h k" and gone: "\<not> in_use (sl_state slot)"
  shows "log_inv (slot_set k slot l) (ps[i := after_switch h k])"
proof -
  let ?b = "lg_buf_size l" and ?p = "after_switch h k"
  have pi: "ps ! i \<in> set ps" using i by simp
  have own: "own_ok l k" using log_place_ok_own [OF log_inv_place_at [OF inv i]] unfolding at by simp
  then have k: "k < length (lg_pool l)" by (simp add: own_ok_def)
  note nohold = own_no_hold [OF inv own]
  have h: "h = None"
  proof (rule ccontr)
    assume "h \<noteq> None"
    then show False using hold_of_Some [of h k] nohold [OF pi] unfolding at by force
  qed
  have cl: "closings (ps[i := ?p]) = closings ps"
    using closings_update [OF i, of ?p] unfolding at by (intro ext) simp
  show ?thesis
  proof (rule log_inv_slot [OF inv i k])
    show "log_place_ok (slot_set k slot l) ?p" by (simp add: log_place_ok_def h)
    show "pair_ok ?b ?p q" if "pair_ok ?b (ps ! i) q" for q using that unfolding at pair_ok_def by simp
    show "hold_ok (slot_set k slot l) (filling q) k off m" if "q \<in> set ps" "holding q = Some (k, off, m)" for q off m
      using that nohold by blast
    show "own_ok (slot_set k slot l) k" if "pair_ok ?b (ps ! i) q" "owning q = Some k" for q
      using that unfolding at pair_ok_def by simp
    show "at_ok (slot_set k slot l) q"
      if q: "q \<in> set ps" "pair_ok ?b (ps ! i) q" "renewing q" "lg_active l = k" "at_ok l q" for q
    proof (cases q)
      case (CloseEnd h' k' old rel)
      then have "k' = k" "rel = (h' = None)" using q(4,5) by simp_all
      then have False
        using q(2) nohold [OF q(1)] hold_of_Some [of h' k] unfolding CloseEnd at pair_ok_def by (cases "h' = None") auto
      then show ?thesis ..
    next
      case (NewSlot h' k' rel)
      then show ?thesis using q(4,5) k gone by simp
    next
      case (NewWait h' k' rel)
      then show ?thesis using q(4,5) k gone by simp
    qed (use q(3) in simp_all)
    show "log_slot_ok (slot_set k slot l) (rooms ?b (ps[i := ?p]) k) (closings (ps[i := ?p]) k) k"
      by (rule log_slot_okI [OF _ _ _ _ _ _ k]) (use gone in blast)+
    show "room_at ?b k' ?p = room_at ?b k' (ps ! i) \<and> closing k' ?p = closing k' (ps ! i)" for k'
      unfolding at by (simp add: room_at_def h)
    show "ended l (closings ps) k \<and> sl_start_lsn slot = sl_start_lsn (lg_pool l ! k) \<and> sl_end_lsn slot = sl_end_lsn (lg_pool l ! k)"
      if "ended (slot_set k slot l) (closings (ps[i := ?p])) k"
      using that gone k by (simp add: ended_def)
  qed
qed

lemma closing_renewing: "closing k q \<Longrightarrow> renewing q"
  by (cases q) auto

text \<open>The worker changes slots that are not in use.\<close>

lemma worker_inv:
  assumes inv: "log_inv l ps" and k: "k < length (lg_pool l)" and was: "\<not> in_use (slot_state l k)" and gone: "\<not> in_use (sl_state slot)"
  shows "log_inv (slot_set k slot l) ps"
proof -
  let ?l = "slot_set k slot l"
  have "log_place_ok ?l p" if p: "p \<in> set ps" for p
  proof (rule place_slot_set [OF log_invD(2) [OF inv p] k])
    show "hold_ok ?l (filling p) k off m" if "hold_ok l (filling p) k off m" for off m
      using that was by (simp add: hold_ok_def)
    show "own_ok ?l k" if "own_ok l k" using that was by (simp add: own_ok_def)
    show "at_ok ?l p" if "renewing p" "lg_active l = k" "at_ok l p" using that was gone k by (cases p) auto
  qed
  moreover have "log_slot_ok ?l (rooms (lg_buf_size l) ps k') (closings ps k') k'" if k': "k' < length (lg_pool l)" for k'
  proof (cases "k' = k")
    case True
    then show ?thesis using gone k by (simp add: log_slot_ok_def)
  next
    case False
    then show ?thesis using log_inv_slot_at [OF inv k'] slot_slot_set [OF False] by simp
  qed
  moreover have "after ?l k' m \<or> after ?l m k'" if "k' \<noteq> m" "ended ?l (closings ps) k'" "ended ?l (closings ps) m" for k' m
  proof -
    have ne: "k' \<noteq> k" "m \<noteq> k" using that(2,3) gone k unfolding ended_def by auto
    then show ?thesis using that log_invD(5) [OF inv that(1)] by (simp add: ended_def after_def)
  qed
  ultimately show ?thesis using log_invD(1,3) [OF inv] unfolding log_inv_def by simp
qed

lemma agree_inv:
  assumes inv: "log_inv l ps" and agree: "agree l l'"
  shows "log_inv l' ps"
proof -
  have conf: "conf_ok l" by (rule log_invD(1) [OF inv])
  have "after l' k m \<or> after l' m k" if "k \<noteq> m" "ended l (closings ps) k" "ended l (closings ps) m" for k m
    using log_invD(5) [OF inv that] agree_after [OF agree] ended_less [OF that(2)] ended_less [OF that(3)] by blast
  then show ?thesis
    using inv agree_conf [OF agree] agree_place [OF agree conf] agree_slot [OF agree] agree_ended [OF agree]
    unfolding log_inv_def agree_eqs [OF agree] by simp
qed

subsubsection \<open>The end of a closed slot\<close>

lemma lsn_le_refl [simp]: "lsn_le a a"
  by (simp add: lsn_le_def)

lemma lsn_le_trans: "lsn_le a b \<Longrightarrow> lsn_le b c \<Longrightarrow> lsn_le a c"
  by (auto simp: lsn_le_def)

lemma end_ok_start: "end_ok slot \<Longrightarrow> 0 \<le> sl_unbuffered slot \<Longrightarrow> lsn_le (sl_start_lsn slot) (sl_end_lsn slot)"
  by (simp add: end_ok_def lsn_le_def word_le_def)

lemma close_finish_end:
  assumes fin: "log_slot_close_finish (slot_word j r False) slot = Some slot'"
    and jr: "j < 2 ^ 20" "r < 2 ^ 20" "j mod 2 ^ 19 \<le> 2 ^ 18" and joined_of: "joined_of (sl_state slot) = j"
    and un: "0 \<le> sl_unbuffered slot" "sl_unbuffered slot \<le> 2 ^ 30" and start: "unat (lsn_offset (sl_start_lsn slot)) < 2 ^ 31"
  shows "core slot' = (sl_state slot, sl_unbuffered slot, sl_start_offset slot, sl_start_lsn slot, sl_end_lsn slot')" and "end_ok slot'"
proof -
  have jb: "uint (slot_joined_buffered (slot_word j r False)) = int (j mod 2 ^ 19)"
  proof -
    have "unat (slot_joined_buffered (slot_word j r False)) = j mod 2 ^ 19" by (simp only: unat_joined_buffered joined_word [OF jr(1,2)])
    moreover have "uint (slot_joined_buffered (slot_word j r False)) = int (unat (slot_joined_buffered (slot_word j r False)))" by simp
    ultimately show ?thesis by (simp only:)
  qed
  define e where "e = int (j mod 2 ^ 19) + sl_unbuffered slot"
  define new where "new = slot\<lparr>sl_end_lsn := (sl_start_lsn slot)\<lparr>lsn_offset := lsn_offset (sl_start_lsn slot) + of_int e\<rparr>\<rparr>"
  have f: "(if 2 ^ 19 \<le> j \<and> sl_unbuffered slot = 0 then None else Some new) = Some slot'"
    using fin unfolding log_slot_close_finish_def Let_def jb isset_word(3) [OF jr(1,2)] e_def [symmetric] new_def [symmetric] .
  then have set: "\<not> (2 ^ 19 \<le> j \<and> sl_unbuffered slot = 0)" by (metis option.distinct(1))
  then have slot': "slot' = slot\<lparr>sl_end_lsn := (sl_start_lsn slot)\<lparr>lsn_offset := lsn_offset (sl_start_lsn slot) + of_int e\<rparr>\<rparr>"
    using f by (simp only: if_False option.inject new_def)
  show "core slot' = (sl_state slot, sl_unbuffered slot, sl_start_offset slot, sl_start_lsn slot, sl_end_lsn slot')"
    by (simp add: slot' core_def)
  have e: "0 \<le> e" "e \<le> 2 ^ 18 + 2 ^ 30" using jr(3) un unfolding e_def by simp_all
  have s: "uint (lsn_offset (sl_start_lsn slot)) < 2 ^ 31"
  proof -
    have "int (unat (lsn_offset (sl_start_lsn slot))) < int (2 ^ 31)" using start by (simp only: of_nat_less_iff)
    then show ?thesis by simp
  qed
  have "uint (lsn_offset (sl_start_lsn slot) + of_int e) = (uint (lsn_offset (sl_start_lsn slot)) + e) mod 2 ^ 32"
    by (simp add: uint_word_ariths unsigned_of_int take_bit_eq_mod mod_add_right_eq)
  also have "\<dots> = uint (lsn_offset (sl_start_lsn slot)) + e" using e s uint_ge_0 [of "lsn_offset (sl_start_lsn slot)"] by simp
  finally show "end_ok slot'" using set un by (auto simp: end_ok_def slot' joined_of e_def)
qed

lemma close_end_inv:
  assumes inv: "log_inv l ps" and i: "i < length ps" and at: "ps ! i = CloseEnd h k old rel"
    and fin: "log_slot_close_end old k l = Some l'"
  shows "log_inv l' (ps[i := NewSlot h k rel])"
proof -
  let ?b = "lg_buf_size l" and ?p = "NewSlot h k rel"
  have pi: "ps ! i \<in> set ps" using i by simp
  have pl: "log_place_ok l (ps ! i)" by (rule log_inv_place_at [OF inv i])
  have conf: "conf_ok l" by (rule log_invD(1) [OF inv])
  obtain r where act: "k = lg_active l" and use: "in_use (slot_state l k)" and c: "closed_of (slot_state l k)" and r: "r < 2 ^ 20"
    and old: "old = slot_word (joined_of (slot_state l k)) r False" and rel: "rel = (h = None)"
    using log_place_ok_at [OF pl] unfolding at by auto
  have k: "k < length (lg_pool l)" using conf act by (simp add: conf_ok_def)
  note log_slot_ok = log_inv_slot_at [OF inv k]
  have cl: "closings ps k \<noteq> 0" using closings_pos [of ps k] pi at by force
  have start: "sl_start_lsn (lg_pool l ! k) = lg_alloc_lsn l" using log_slot_okD(9) [OF log_slot_ok use] cl by simp
  obtain slot where fin': "log_slot_close_finish old (lg_pool l ! k) = Some slot"
    and l': "l' = (slot_set k slot l)\<lparr>lg_alloc_lsn := sl_end_lsn slot\<rparr>"
    using fin by (auto simp: log_slot_close_end_def split: option.splits)
  have w: "joined_of (slot_state l k) < 2 ^ 20" "joined_of (slot_state l k) mod 2 ^ 19 \<le> 2 ^ 18"
    using log_slot_okD(1) [OF log_slot_ok use] by (simp_all add: word_ok_def)
  note fe = close_finish_end [OF fin' [unfolded old] w(1) r w(2) refl log_slot_okD(4-6) [OF log_slot_ok use]]
  have eqs: "sl_state slot = slot_state l k" "sl_unbuffered slot = sl_unbuffered (lg_pool l ! k)"
    "sl_start_offset slot = sl_start_offset (lg_pool l ! k)" "sl_start_lsn slot = sl_start_lsn (lg_pool l ! k)"
    using fe(1) by (simp_all add: core_def)
  have later: "lsn_le (lg_alloc_lsn l) (sl_end_lsn slot)"
    using end_ok_start [OF fe(2)] log_slot_okD(4) [OF log_slot_ok use] unfolding eqs start by blast
  have nth: "slot_state l' m = slot_state l m" "sl_unbuffered (lg_pool l' ! m) = sl_unbuffered (lg_pool l ! m)"
    "sl_start_offset (lg_pool l' ! m) = sl_start_offset (lg_pool l ! m)" "sl_start_lsn (lg_pool l' ! m) = sl_start_lsn (lg_pool l ! m)" for m
    using eqs k unfolding l' by (cases "m = k"; simp)+
  have same: "length (lg_pool l') = length (lg_pool l)" "lg_buf_size l' = ?b" "lg_active l' = lg_active l" "lg_file_max l' = lg_file_max l"
    "lg_first_record l' = lg_first_record l" "lg_alloc_lsn l' = sl_end_lsn slot" by (simp_all add: l')
  have kth: "lg_pool l' ! k = slot" using k by (simp add: l')
  have mth: "m \<noteq> k \<Longrightarrow> lg_pool l' ! m = lg_pool l ! m" for m by (simp add: l')
  have hold: "hold_ok l' = hold_ok l" by (intro ext) (simp only: hold_ok_def same nth)
  have own: "own_ok l' = own_ok l" by (intro ext) (simp only: own_ok_def same nth)
  have ats: "at_ok l' q = at_ok l q" for q by (cases q) (simp_all only: at_ok.simps same nth)
  have place: "log_place_ok l' q = log_place_ok l q" for q by (simp only: log_place_ok_def hold own ats)
  have noclose: "\<not> closing k' q" if "q \<in> set ps" "log_place_ok l q" "pair_ok ?b (ps ! i) q" for q k'
    using that(3) closing_renewing [of k' q] unfolding at pair_ok_def by auto
  have one: "closings ps k' = of_bool (k' = k)" for k'
  proof -
    have "closings (ps[i := Away]) k' = 0"
    proof (rule ccontr)
      assume "closings (ps[i := Away]) k' \<noteq> 0"
      then obtain q where q: "q \<in> set (ps[i := Away])" "closing k' q" using closings_pos [of "ps[i := Away]" k'] by auto
      then obtain j where j: "j < length ps" "q = ps[i := Away] ! j" by (auto simp: in_set_conv_nth)
      then have "j \<noteq> i" "q = ps ! j" using q(2) i by (cases "j = i"; simp)+
      then show False using log_invD(3) [OF inv i j(1)] closing_renewing [OF q(2)] unfolding at pair_ok_def by auto
    qed
    then show ?thesis using closings_update [OF i, of Away k'] unfolding at by (cases "k' = k") auto
  qed
  have cl': "closings (ps[i := ?p]) k' = 0" for k'
    using closings_update [OF i, of ?p k'] one [of k'] unfolding at by (cases "k' = k") auto
  have rms: "rooms ?b (ps[i := ?p]) k' = rooms ?b ps k'" for k'
    using rooms_update [OF i, of ?b ?p k'] unfolding at by (simp add: room_at_def)
  have before: "ended l (closings ps) m \<and> lsn_le (sl_end_lsn (lg_pool l ! m)) (lg_alloc_lsn l)"
    if m: "m < length (lg_pool l)" "in_use (slot_state l m)" "m \<noteq> k" for m
  proof -
    note ok = log_inv_slot_at [OF inv m(1)]
    have "closed_of (slot_state l m)" using log_slot_okD(8) [OF ok m(2)] act m(3) by blast
    moreover have "closings ps m = 0" using one [of m] m(3) by simp
    ultimately show ?thesis using log_slot_okD(10) [OF ok m(2)] m unfolding ended_def by blast
  qed
  show ?thesis
  proof (rule log_inv_step [OF inv i])
    show "length (lg_pool l') = length (lg_pool l)" "lg_buf_size l' = ?b" by (rule same)+
    show "conf_ok l'" using conf unfolding conf_ok_def same .
    have "log_place_ok l ?p" using pl act c rel unfolding at by (cases h; cases "the h") (simp_all add: log_place_ok_def)
    then show "log_place_ok l' ?p" unfolding place .
    show "log_place_ok l' (ps ! j) \<and> pair_ok ?b ?p (ps ! j)" if "log_place_ok l (ps ! j)" "pair_ok ?b (ps ! i) (ps ! j)" for j
      using that unfolding place at pair_ok_def by simp
    show "log_slot_ok l' (rooms ?b (ps[i := ?p]) m) (closings (ps[i := ?p]) m) m"
      if m: "m < length (lg_pool l)" "log_slot_ok l (rooms ?b ps m) (closings ps m) m" for m
    proof (cases "m = k")
      case True
      show ?thesis unfolding rms cl' log_slot_ok_def Let_def True kth same
        using log_slot_okD(1-8) [OF log_slot_ok use] fe(2) c unfolding eqs by simp
    next
      case False
      show ?thesis unfolding rms cl' log_slot_ok_def Let_def same mth [OF False]
      proof
        assume u: "in_use (slot_state l m)"
        have "lsn_le (sl_end_lsn (lg_pool l ! m)) (sl_end_lsn slot)"
          using before [OF m(1) u False] lsn_le_trans later by blast
        moreover have "closed_of (slot_state l m)" using before [OF m(1) u False] by (simp add: ended_def)
        moreover have "closings ps m = 0" using one [of m] False by simp
        ultimately show "word_ok (slot_state l m) \<and> released_of (slot_state l m) + rooms ?b ps m = joined_of (slot_state l m) \<and>
          (joined_of (slot_state l m) < 2 ^ 19 \<longrightarrow> sl_unbuffered (lg_pool l ! m) = 0) \<and> 0 \<le> sl_unbuffered (lg_pool l ! m) \<and>
          sl_unbuffered (lg_pool l ! m) \<le> 2 ^ 30 \<and> unat (lsn_offset (sl_start_lsn (lg_pool l ! m))) < 2 ^ 31 \<and>
          sl_start_offset (lg_pool l ! m) = uint (lsn_offset (sl_start_lsn (lg_pool l ! m))) \<and>
          (\<not> closed_of (slot_state l m) \<longrightarrow> m = lg_active l) \<and>
          (\<not> closed_of (slot_state l m) \<or> 0 < (0 :: nat) \<longrightarrow> sl_start_lsn (lg_pool l ! m) = sl_end_lsn slot) \<and>
          (closed_of (slot_state l m) \<and> (0 :: nat) = 0 \<longrightarrow> end_ok (lg_pool l ! m) \<and> lsn_le (sl_end_lsn (lg_pool l ! m)) (sl_end_lsn slot))"
          using log_slot_okD(1-7) [OF m(2) u] log_slot_okD(10) [OF m(2) u] by blast
      qed
    qed
    show "after l' a m \<or> after l' m a" if ne: "a \<noteq> m" and ea: "ended l' (closings (ps[i := ?p])) a" and em: "ended l' (closings (ps[i := ?p])) m" for a m
    proof -
      have ua: "a < length (lg_pool l)" "in_use (slot_state l a)" and um: "m < length (lg_pool l)" "in_use (slot_state l m)"
        using ea em unfolding ended_def nth same by blast+
      consider "a = k" | "m = k" | "a \<noteq> k" "m \<noteq> k" by blast
      then show ?thesis
      proof cases
        case 1
        then have "after l' m a" using before [OF um] ne mth [of m] start unfolding after_def nth by simp
        then show ?thesis ..
      next
        case 2
        then have "after l' a m" using before [OF ua] ne mth [of a] start unfolding after_def nth by simp
        then show ?thesis ..
      next
        case 3
        then show ?thesis using log_invD(5) [OF inv ne] before [OF ua 3(1)] before [OF um 3(2)] by (simp add: after_def mth)
      qed
    qed
  qed
qed

subsubsection \<open>A new slot\<close>

text \<open>What taking a slot does to the parts that the invariant reads.\<close>

definition taken :: "nat \<Rightarrow> wt_lsn \<Rightarrow> wt_log \<Rightarrow> wt_log" where
  "taken m a l = (slot_set m ((lg_pool l ! m)\<lparr>sl_state := 0, sl_unbuffered := 0, sl_start_lsn := a, sl_end_lsn := a,
     sl_start_offset := uint (lsn_offset a)\<rparr>) l)\<lparr>lg_active := m, lg_alloc_lsn := a\<rparr>"

lemma dirty_max_agree: "k < length (lg_pool l) \<Longrightarrow> agree l (log_slot_dirty_max_check k l)"
proof -
  assume k: "k < length (lg_pool l)"
  have "agree l ((slot_set k ((lg_pool l ! k)\<lparr>sl_flags := f\<rparr>) l)\<lparr>lg_dirty_lsn := d\<rparr>)" for f d
    using k by (simp add: agree_def slot_set_def nth_list_update core_def)
  then show ?thesis by (simp add: log_slot_dirty_max_check_def Let_def)
qed

lemma agree_trans: "agree l l' \<Longrightarrow> agree l' l'' \<Longrightarrow> agree l l''"
  by (simp add: agree_def)

definition take_lsn :: "wt_lsn \<Rightarrow> wt_log \<Rightarrow> wt_lsn" where
  "take_lsn start l = (if lg_force_newfile l \<or> \<not> log_size_fit l (lg_alloc_lsn l) (ucast (lg_buf_size l)) then start else lg_alloc_lsn l)"

lemma take_agree:
  assumes m: "m < length (lg_pool l)"
  shows "agree (taken m (take_lsn start l) l) (log_slot_take start fh close m l)"
proof -
  let ?l = "(wt_log_acquire start fh close (ucast (lg_buf_size l)) m l)\<lparr>lg_active := m, lg_pool_index := m\<rparr>"
  have "agree (taken m (take_lsn start l) l) ?l"
    using m by (auto simp: agree_def taken_def take_lsn_def wt_log_acquire_def log_newfile_def wt_log_slot_activate_def Let_def
      slot_set_def nth_list_update core_def)
  moreover have "agree ?l (log_slot_dirty_max_check m ?l)"
    by (rule dirty_max_agree) (use m in \<open>simp add: wt_log_acquire_def log_newfile_def Let_def\<close>)
  ultimately show ?thesis unfolding log_slot_take_def by (rule agree_trans)
qed

lemma take_lsn_later:
  assumes conf: "conf_ok l" and start: "lsn_file (lg_alloc_lsn l) < lsn_file start" "unat (lsn_offset start) < 2 ^ 31"
  shows "lsn_le (lg_alloc_lsn l) (take_lsn start l)" and "unat (lsn_offset (take_lsn start l)) < 2 ^ 31"
proof -
  show "lsn_le (lg_alloc_lsn l) (take_lsn start l)" using start(1) by (simp add: take_lsn_def lsn_le_def)
  have "unat (lsn_offset (lg_alloc_lsn l)) < 2 ^ 31" if "log_size_fit l (lg_alloc_lsn l) (ucast (lg_buf_size l))"
  proof (cases "lsn_offset (lg_alloc_lsn l) = lg_first_record l")
    case True
    then show ?thesis using conf by (simp add: conf_ok_def)
  next
    case False
    then have "uint (lsn_offset (lg_alloc_lsn l)) + uint (ucast (lg_buf_size l) :: u64) < 2 ^ 31"
      using that conf by (simp add: log_size_fit_def conf_ok_def)
    then have "uint (lsn_offset (lg_alloc_lsn l)) < 2 ^ 31" using uint_ge_0 [of "ucast (lg_buf_size l) :: u64"] by linarith
    then have "int (unat (lsn_offset (lg_alloc_lsn l))) < int (2 ^ 31)" by simp
    then show ?thesis by (simp only: of_nat_less_iff)
  qed
  then show "unat (lsn_offset (take_lsn start l)) < 2 ^ 31" using start(2) by (simp add: take_lsn_def)
qed

lemma zero_word: "(0 :: u64) = slot_word 0 0 False"
  by (simp add: slot_word_def)

lemma zero_state: "in_use 0" "joined_of 0 = 0" "released_of 0 = 0" "\<not> closed_of 0" "word_ok 0"
  unfolding zero_word using in_use_word [of 0 0] joined_of_word [of 0 0] released_of_word [of 0 0] closed_of_word [of 0 0] word_ok_word [of 0 0] by simp_all

lemma taken_simps [simp]:
  "length (lg_pool (taken m a l)) = length (lg_pool l)" "lg_buf_size (taken m a l) = lg_buf_size l" "lg_active (taken m a l) = m"
  "lg_file_max (taken m a l) = lg_file_max l" "lg_first_record (taken m a l) = lg_first_record l" "lg_alloc_lsn (taken m a l) = a"
  "k \<noteq> m \<Longrightarrow> lg_pool (taken m a l) ! k = lg_pool l ! k"
  by (simp_all add: taken_def)

lemma taken_slot:
  assumes "m < length (lg_pool l)"
  shows "slot_state (taken m a l) m = 0" "sl_unbuffered (lg_pool (taken m a l) ! m) = 0" "sl_start_lsn (lg_pool (taken m a l) ! m) = a"
    "sl_start_offset (lg_pool (taken m a l) ! m) = uint (lsn_offset a)"
  using assms by (simp_all add: taken_def)

lemma after_new_simps:
  assumes "rel = (h = None)"
  shows "holding (if rel then Last h k else after_switch h k) = hold_of h k" "\<not> filling (if rel then Last h k else after_switch h k)"
    "owning (if rel then Last h k else after_switch h k) = (if rel then Some k else None)"
    "\<not> closing m (if rel then Last h k else after_switch h k)" "\<not> renewing (if rel then Last h k else after_switch h k)"
    "\<not> locked (if rel then Last h k else after_switch h k)" "at_ok l (if rel then Last h k else after_switch h k)"
  by simp_all

lemma take_inv:
  assumes inv: "log_inv l ps" and i: "i < length ps" and at: "ps ! i = NewSlot h k rel"
    and m: "m < length (lg_pool l)" and free: "\<not> in_use (slot_state l m)"
    and a: "lsn_le (lg_alloc_lsn l) a" "unat (lsn_offset a) < 2 ^ 31"
  shows "log_inv (taken m a l) (ps[i := if rel then Last h k else after_switch h k])"
proof -
  let ?b = "lg_buf_size l" and ?p = "if rel then Last h k else after_switch h k" and ?l = "taken m a l"
  have pl: "log_place_ok l (ps ! i)" by (rule log_inv_place_at [OF inv i])
  have conf: "conf_ok l" by (rule log_invD(1) [OF inv])
  have act: "k = lg_active l" and c: "in_use (slot_state l k) \<Longrightarrow> closed_of (slot_state l k)" and rel: "rel = (h = None)"
    using log_place_ok_at [OF pl] unfolding at by auto
  note pp = after_new_simps [OF rel]
  have hold: "hold_ok ?l f k' off x" if h: "hold_ok l f k' off x" for f k' off x
  proof -
    have ne: "k' \<noteq> m" using h free by (auto simp: hold_ok_def)
    show ?thesis using h unfolding hold_ok_def taken_simps(1,2) taken_simps(7) [OF ne] .
  qed
  have own: "own_ok l k' \<Longrightarrow> own_ok ?l k'" for k'
    using free by (cases "k' = m") (simp_all add: own_ok_def)
  have place: "log_place_ok ?l q" if q: "at_ok ?l q" "\<And>k off x. holding q = Some (k, off, x) \<Longrightarrow> hold_ok l (filling q) k off x"
    "\<And>k. owning q = Some k \<Longrightarrow> own_ok l k" for q
    unfolding log_place_ok_def using q hold own by (auto split: option.splits)
  have cl: "closings (ps[i := ?p]) k' = closings ps k'" for k'
    using closings_update [OF i, of ?p k'] pp(4) unfolding at by simp
  have cl0: "closings ps k' = 0" for k'
  proof (rule ccontr)
    assume "closings ps k' \<noteq> 0"
    then obtain q where q: "q \<in> set ps" "closing k' q" using closings_pos [of ps k'] by auto
    then obtain j where j: "j < length ps" "q = ps ! j" by (auto simp: in_set_conv_nth)
    moreover have "j \<noteq> i" using q(2) at j(2) by auto
    ultimately show False using log_invD(3) [OF inv i j(1)] closing_renewing [OF q(2)] unfolding at pair_ok_def by auto
  qed
  have rms: "rooms ?b (ps[i := ?p]) k' = rooms ?b ps k'" for k'
    using rooms_update [OF i, of ?b ?p k'] pp(1) unfolding at by (simp add: room_at_def)
  have rms0: "rooms ?b ps m = 0"
  proof -
    have "room_at ?b m q = 0" if q: "q \<in> set ps" for q
      using hold_in_use(2) [OF inv q] free unfolding room_at_def by (auto split: option.splits)
    then show ?thesis unfolding rooms_def by (simp add: sum_list_eq_0_iff)
  qed
  have closed: "closed_of (slot_state l k')" if "k' < length (lg_pool l)" "in_use (slot_state l k')" for k'
    using log_slot_okD(8) [OF log_inv_slot_at [OF inv that(1)] that(2)] c act that(2) by blast
  show ?thesis
  proof (rule log_inv_step [OF inv i])
    show "length (lg_pool ?l) = length (lg_pool l)" "lg_buf_size ?l = ?b" by simp_all
    show "conf_ok ?l" using conf m by (simp add: conf_ok_def)
    show "log_place_ok ?l ?p"
    proof (rule place)
      show "at_ok ?l ?p" by (rule pp)
      show "hold_ok l (filling ?p) k' off x" if "holding ?p = Some (k', off, x)" for k' off x
      proof -
        have "filling ?p = filling (ps ! i)" "holding ?p = holding (ps ! i)" using pp(1,2) unfolding at by simp_all
        then show ?thesis using log_place_ok_hold [OF pl] that by simp
      qed
      show "own_ok l k'" if "owning ?p = Some k'" for k'
        using log_place_ok_own [OF pl, of k'] that pp(3) unfolding at by simp
    qed
    show "log_place_ok ?l (ps ! j) \<and> pair_ok ?b ?p (ps ! j)"
      if j: "j < length ps" "log_place_ok l (ps ! j)" "pair_ok ?b (ps ! i) (ps ! j)" for j
    proof
      have nr: "\<not> renewing (ps ! j)" using j(3) unfolding at pair_ok_def by simp
      have "at_ok ?l (ps ! j)" using log_place_ok_at [OF j(2)] nr by (cases "ps ! j") auto
      then show "log_place_ok ?l (ps ! j)" using log_place_ok_hold [OF j(2)] log_place_ok_own [OF j(2)] by (rule place)
      show "pair_ok ?b ?p (ps ! j)" using j(3) nr pp(6) unfolding at pair_ok_def pp(1,3) by simp
    qed
    show "log_slot_ok ?l (rooms ?b (ps[i := ?p]) k') (closings (ps[i := ?p]) k') k'"
      if k': "k' < length (lg_pool l)" "log_slot_ok l (rooms ?b ps k') (closings ps k') k'" for k'
    proof (cases "k' = m")
      case True
      then show ?thesis using a(2) taken_slot [OF m] zero_state unfolding rms cl log_slot_ok_def Let_def by (simp add: rms0)
    next
      case False
      show ?thesis unfolding rms cl cl0 log_slot_ok_def Let_def taken_simps taken_simps(7) [OF False]
      proof
        assume u: "in_use (slot_state l k')"
        note ok = log_slot_okD [OF k'(2) u]
        have "end_ok (lg_pool l ! k') \<and> lsn_le (sl_end_lsn (lg_pool l ! k')) a"
          using ok(10) [OF closed [OF k'(1) u] cl0] lsn_le_trans [OF _ a(1)] by blast
        then show "word_ok (slot_state l k') \<and> released_of (slot_state l k') + rooms ?b ps k' = joined_of (slot_state l k') \<and>
          (joined_of (slot_state l k') < 2 ^ 19 \<longrightarrow> sl_unbuffered (lg_pool l ! k') = 0) \<and> 0 \<le> sl_unbuffered (lg_pool l ! k') \<and>
          sl_unbuffered (lg_pool l ! k') \<le> 2 ^ 30 \<and> unat (lsn_offset (sl_start_lsn (lg_pool l ! k'))) < 2 ^ 31 \<and>
          sl_start_offset (lg_pool l ! k') = uint (lsn_offset (sl_start_lsn (lg_pool l ! k'))) \<and> (\<not> closed_of (slot_state l k') \<longrightarrow> k' = m) \<and>
          (\<not> closed_of (slot_state l k') \<or> 0 < (0 :: nat) \<longrightarrow> sl_start_lsn (lg_pool l ! k') = a) \<and>
          (closed_of (slot_state l k') \<and> (0 :: nat) = 0 \<longrightarrow> end_ok (lg_pool l ! k') \<and> lsn_le (sl_end_lsn (lg_pool l ! k')) a)"
          using ok(1-7) closed [OF k'(1) u] by blast
      qed
    qed
    show "after ?l x y \<or> after ?l y x"
      if ne: "x \<noteq> y" and ex: "ended ?l (closings (ps[i := ?p])) x" and ey: "ended ?l (closings (ps[i := ?p])) y" for x y
    proof -
      have "x \<noteq> m" "y \<noteq> m" using ex ey taken_slot(1) [OF m] zero_state(4) unfolding ended_def by auto
      then show ?thesis using log_invD(5) [OF inv ne] ex ey unfolding cl ended_def after_def by simp
    qed
  qed
qed

subsubsection \<open>Every step\<close>

lemma join_round_cases:
  assumes "wt_log_slot_join_round b m old s = (r, s')"
  shows "r = None \<and> s' = s \<or> (\<exists>off. r = Some off)"
  using assms by (auto simp: wt_log_slot_join_round_def split: if_splits)

lemma last_offset_core:
  "last_offset_round a c slot = (ok, slot') \<Longrightarrow> core slot' = core slot"
  by (auto simp: last_offset_round_def core_def split: if_splits)

lemma close_swap_None: "log_slot_close_swap old slot = (None, slot') \<Longrightarrow> slot' = slot"
  by (auto simp: log_slot_close_swap_def Let_def split: if_splits)

lemma close_check_Inr:
  assumes "log_slot_close_check forced old s = Inr ()"
  shows "\<not> slot_closed old" "forced \<Longrightarrow> \<not> slot_inprogress old"
  using assms by (auto simp: log_slot_close_check_def split: if_splits)

lemma move_inv:
  assumes inv: "log_inv l ps" and i: "i < length ps" and move: "log_move (ps ! i) l p l'"
    and lock: "locked p \<longrightarrow> locked (ps ! i) \<or> (\<forall>q \<in> set ps. \<not> locked q)"
  shows "log_inv l' (ps[i := p])"
proof -
  have pl: "log_place_ok l (ps ! i)" by (rule log_inv_place_at [OF inv i])
  note at = log_place_ok_at [OF pl]
  have act: "lg_active l < length (lg_pool l)" using log_invD(1) [OF inv] by (simp add: conf_ok_def)
  have hk: "k < length (lg_pool l)" if "holding (ps ! i) = Some (k, off, m)" for k off m
    using log_place_ok_hold [OF pl that] by (simp add: hold_ok_def)
  note quiet = log_inv_quiet [OF inv i _ _ _ _ _ _ lock]
  show ?thesis using move
  proof cases
    case (join m)
    then show ?thesis by (intro quiet) (simp_all add: size_ok_def)
  next
    case (join_read m)
    then show ?thesis using at act by (intro quiet) simp_all
  next
    case (join_look m k)
    then show ?thesis using at by (intro quiet) simp_all
  next
    case (join_swap m old k r s)
    show ?thesis
    proof (cases r)
      case None
      then have "s = slot_state l k" using join_round_cases [OF join_swap(4)] by simp
      then show ?thesis using join_swap None at by (intro quiet) simp_all
    next
      case (Some off)
      then show ?thesis using join_swap_inv [OF inv i join_swap(1)] join_swap by simp
    qed
  next
    case (join_fill m off k flags)
    then show ?thesis using join_fill_inv [OF inv i join_fill(1)] by simp
  next
    case (release m off k)
    then show ?thesis by (intro quiet) simp_all
  next
    case (last_look m off k)
    then show ?thesis by (intro quiet) simp_all
  next
    case (last_swap k off cur ok slot m)
    then show ?thesis using slot_set_agree [OF last_offset_core [OF last_swap(4)]] by (intro quiet) simp_all
  next
    case (release_add m k s slot off)
    then show ?thesis using release_inv [OF inv i release_add(1)] by simp
  next
    case (switch m off k)
    then show ?thesis using hk by (intro quiet) simp_all
  next
    case force_switch
    then show ?thesis using act by (intro quiet) simp_all
  next
    case (lock h k)
    then show ?thesis using at by (intro quiet) simp_all
  next
    case (switch_lost k h)
    then show ?thesis by (intro quiet) simp_all
  next
    case (switch_unused k)
    then show ?thesis by (intro quiet) simp_all
  next
    case (switch_close k h)
    then show ?thesis using at by (intro quiet) simp_all
  next
    case (close_look h k)
    then show ?thesis using at by (intro quiet) simp_all
  next
    case (close_check r h old k)
    then show ?thesis using at close_check_Inr [of "h = None" old "slot_state l k"] by (intro quiet) auto
  next
    case (close_busy old k)
    then show ?thesis by (intro quiet) simp_all
  next
    case (close_swap old k r slot h)
    show ?thesis
    proof (cases r)
      case None
      then have "slot = lg_pool l ! k" using close_swap_None close_swap(4) by blast
      then have "agree l l'" using close_swap(3) slot_set_agree by simp
      then show ?thesis using close_swap None at by (intro quiet) simp_all
    next
      case (Some rel)
      then show ?thesis using close_swap_inv [OF inv i close_swap(1)] close_swap by simp
    qed
  next
    case (close_end old k h rel)
    then show ?thesis using close_end_inv [OF inv i close_end(1)] by simp
  next
    case (new_open h k rel)
    have "rel = (h = None)" using at unfolding new_open(1) by simp
    note pp = after_new_simps [OF this]
    show ?thesis unfolding new_open(2,3)
      by (rule log_inv_quiet [OF inv i agree_refl]) (use pp in \<open>simp_all add: new_open(1)\<close>)
  next
    case (new_free m start h k rel fh close)
    have "log_inv (taken m (take_lsn start l) l) (ps[i := p])"
      using take_inv [OF inv i new_free(1,4) _ take_lsn_later [OF log_invD(1) [OF inv] new_free(6,7)]] new_free(2,5) by simp
    then show ?thesis unfolding new_free(3) by (rule agree_inv) (rule take_agree [OF new_free(4)])
  next
    case (new_none h k rel)
    then show ?thesis using at by (intro quiet) auto
  next
    case (new_again h k rel)
    then show ?thesis using at by (intro quiet) auto
  next
    case (last_written h k)
    then show ?thesis using last_inv [OF inv i last_written(1)] by (simp add: set_state_def)
  next
    case (last_free h k)
    then show ?thesis using last_inv [OF inv i last_free(1)] by (simp add: wt_log_slot_free_def)
  qed
qed

lemma log_start_inv:
  assumes sane: "log_sane l"
  shows "log_inv (sy_log (log_start n l)) (sy_at (log_start n l))"
proof -
  let ?l = "wt_log_slot_init True l" and ?a = "lg_alloc_lsn l" and ?ps = "replicate n Away"
  have ne: "0 < length (lg_pool l)" using sane by (simp add: log_sane_def)
  have pool: "length (lg_pool ?l) = length (lg_pool l)" "lg_active ?l = 0" "lg_alloc_lsn ?l = ?a" "lg_file_max ?l = lg_file_max l"
    "lg_first_record ?l = lg_first_record l" "lg_buf_size ?l = log_slot_buf_size_of (lg_file_max l)"
    by (simp_all add: wt_log_slot_init_def Let_def)
  have zero: "slot_state ?l 0 = 0" "sl_unbuffered (lg_pool ?l ! 0) = 0" "sl_start_lsn (lg_pool ?l ! 0) = ?a"
    "sl_start_offset (lg_pool ?l ! 0) = uint (lsn_offset ?a)"
    using ne by (simp_all add: wt_log_slot_init_def Let_def wt_log_slot_activate_def)
  have rest: "\<not> in_use (slot_state ?l k)" if "k < length (lg_pool l)" "k \<noteq> 0" for k
    using that by (simp add: wt_log_slot_init_def Let_def)
  have fm: "0 \<le> lg_file_max l" "lg_file_max l \<le> 2 ^ 31" using sane by (simp_all add: log_sane_def)
  define z where "z = min (lg_file_max l div 10) (int log_slot_buf_size)"
  have z: "0 \<le> z" "z \<le> 2 ^ 18" using fm by (simp_all add: z_def log_slot_buf_size_def)
  then have "z < 2 ^ 32" by simp
  then have "unat (of_int z :: u32) = nat z" using z(1) by (simp add: unat_eq_nat_uint unsigned_of_int take_bit_int_eq_self)
  then have "unat (log_slot_buf_size_of (lg_file_max l)) \<le> 2 ^ 18"
    unfolding log_slot_buf_size_of_def z_def [symmetric] using z(2) by simp
  then have "conf_ok ?l" using sane ne unfolding conf_ok_def pool by (simp add: log_sane_def)
  moreover have "rooms b ?ps k = 0" "closings ?ps k = 0" for b k
    by (simp_all add: rooms_def closings_def room_at_def sum_list_replicate)
  moreover have "log_slot_ok ?l 0 0 k" if "k < length (lg_pool l)" for k
  proof (cases "k = 0")
    case True
    then show ?thesis using sane unfolding log_slot_ok_def Let_def True pool zero by (simp add: zero_state log_sane_def)
  next
    case False
    then show ?thesis using rest [OF that False] by (simp add: log_slot_ok_def)
  qed
  moreover have "\<not> ended ?l cl k" for cl k
  proof
    assume "ended ?l cl k"
    then have "k < length (lg_pool l)" "in_use (slot_state ?l k)" "closed_of (slot_state ?l k)" unfolding ended_def pool by blast+
    then show False using rest [of k] zero(1) zero_state(4) by (cases "k = 0") simp_all
  qed
  moreover have "log_place_ok ?l Away" "pair_ok b Away Away" for b by (simp_all add: log_place_ok_def pair_ok_def rooms_apart_def)
  ultimately show ?thesis unfolding log_inv_def log_start_def by (simp add: pool)
qed

theorem log_reach_inv:
  assumes "log_sane l" "log_reach n l y"
  shows "log_inv (sy_log y) (sy_at y)"
  using assms(2)
proof induction
  case start
  show ?case by (rule log_start_inv [OF assms(1)])
next
  case (step y y')
  note inv = step.IH
  from step.hyps(2) show ?case
  proof cases
    case (move i p l)
    then show ?thesis using move_inv [OF inv move(2,3)] by simp
  next
    case (move_free i p l)
    then show ?thesis using move_inv [OF inv move_free(2,3)] by auto
  next
    case (worker k slot)
    have "\<not> in_use (slot_state (sy_log y) k)" "\<not> in_use (sl_state slot)" using worker(3,4) by auto
    then show ?thesis using worker_inv [OF inv worker(2)] worker(1) by simp
  next
    case (other force dm dirty sync ws w)
    have "agree (sy_log y) ((sy_log y)\<lparr>lg_write_lsn := w, lg_write_start_lsn := ws, lg_sync_lsn := sync, lg_dirty_lsn := dirty,
      lg_dirty_max := dm, lg_force_newfile := force\<rparr>)" by (simp add: agree_def)
    from agree_inv [OF inv this] show ?thesis using other by simp
  qed
qed

subsection \<open>Where records are\<close>

text \<open>The file and the first and end offsets there of the record a thread has joined with.\<close>

definition record_bytes :: "wt_log \<Rightarrow> log_place \<Rightarrow> (u32 \<times> int \<times> int) option" where
  "record_bytes l p = (case holding p of None \<Rightarrow> None
     | Some (k, off, m) \<Rightarrow> (let start = sl_start_lsn (lg_pool l ! k); first = uint (lsn_offset start) + int off in
         Some (lsn_file start, first, first + int m)))"

definition bytes_apart :: "(u32 \<times> int \<times> int) option \<Rightarrow> (u32 \<times> int \<times> int) option \<Rightarrow> bool" where
  "bytes_apart x y = (case (x, y) of (Some (f, a, e), Some (f', a', e')) \<Rightarrow> f = f' \<longrightarrow> e \<le> a' \<or> e' \<le> a | _ \<Rightarrow> True)"

text \<open>A record copied to the slot's memory is inside it.\<close>

definition in_buffer :: "wt_log \<Rightarrow> log_place \<Rightarrow> bool" where
  "in_buffer l p = (case holding p of None \<Rightarrow> True
     | Some (k, off, m) \<Rightarrow> unat (log_slot_buf_max (lg_buf_size l)) < m \<or> off + m \<le> unat (lg_buf_size l))"

text \<open>The slot's end is after the buffered bytes and the unbuffered record.\<close>

definition slot_end_set :: "logslot \<Rightarrow> bool" where
  "slot_end_set slot \<longleftrightarrow> slot_done (sl_state slot) \<and> lsn_file (sl_end_lsn slot) = lsn_file (sl_start_lsn slot) \<and>
     uint (lsn_offset (sl_end_lsn slot)) = uint (lsn_offset (sl_start_lsn slot)) + uint (slot_joined_buffered (sl_state slot)) + sl_unbuffered slot"

lemma closing_active: "closing k q \<Longrightarrow> at_ok l q \<Longrightarrow> k = lg_active l"
  by (cases q) auto

lemma closed_or_current:
  assumes inv: "log_inv l ps" and k: "k < length (lg_pool l)" "in_use (slot_state l k)"
  shows "ended l (closings ps) k \<and> end_ok (lg_pool l ! k) \<and> lsn_le (sl_end_lsn (lg_pool l ! k)) (lg_alloc_lsn l)
    \<or> k = lg_active l \<and> sl_start_lsn (lg_pool l ! k) = lg_alloc_lsn l"
proof -
  note ok = log_slot_okD [OF log_inv_slot_at [OF inv k(1)] k(2)]
  consider "\<not> closed_of (slot_state l k)" | "0 < closings ps k" | "closed_of (slot_state l k)" "closings ps k = 0" by auto
  then show ?thesis
  proof cases
    case 1
    then show ?thesis using ok(8,9) by blast
  next
    case 2
    then obtain q where q: "q \<in> set ps" "closing k q" unfolding closings_pos by blast
    have "k = lg_active l" by (rule closing_active [OF q(2) log_place_ok_at [OF log_invD(2) [OF inv q(1)]]])
    then show ?thesis using ok(9) 2 by blast
  next
    case 3
    then show ?thesis using ok(10) k unfolding ended_def by blast
  qed
qed

lemma lsn_le_bytes:
  assumes "lsn_le a b" "lsn_file a = lsn_file b"
  shows "uint (lsn_offset a) \<le> uint (lsn_offset b)"
  using assms by (auto simp: lsn_le_def word_le_def)

lemma hold_before_end:
  assumes inv: "log_inv l ps" and hold: "hold_ok l f k off m" and e: "end_ok (lg_pool l ! k)"
  shows "uint (lsn_offset (sl_start_lsn (lg_pool l ! k))) + int off + int m \<le> uint (lsn_offset (sl_end_lsn (lg_pool l ! k)))"
proof -
  let ?s = "lg_pool l ! k"
  have k: "k < length (lg_pool l)" "in_use (slot_state l k)" using hold by (simp_all add: hold_ok_def)
  note ok = log_slot_okD [OF log_inv_slot_at [OF inv k(1)] k(2)]
  have "int off + int m \<le> int (joined_of (slot_state l k) mod 2 ^ 19) + sl_unbuffered ?s"
  proof (cases "unat (lg_buf_size l) div 2 < m")
    case True
    then have eq: "off + 2 ^ 19 = joined_of (slot_state l k)" and un: "sl_unbuffered ?s = (if f then 0 else int m)" using hold unfolding hold_ok_def by (simp_all only: if_True)
    have "joined_of (slot_state l k) < 2 ^ 20" using ok(1) by (simp add: word_ok_def)
    then have "off < 2 ^ 19" using eq by simp
    then have "joined_of (slot_state l k) mod 2 ^ 19 = off" unfolding eq [symmetric] by simp
    moreover have "\<not> f" using e eq un by (auto simp: end_ok_def)
    ultimately show ?thesis using un by simp
  next
    case False
    then have "off + m \<le> joined_of (slot_state l k) mod 2 ^ 19" using hold unfolding hold_ok_def by (simp only: if_False)
    then have "int (off + m) \<le> int (joined_of (slot_state l k) mod 2 ^ 19)" by (simp only: of_nat_le_iff)
    then show ?thesis using ok(4) by linarith
  qed
  then show ?thesis using e unfolding end_ok_def by linarith
qed

lemma hold_apart:
  assumes inv: "log_inv l ps" and h: "hold_ok l f k off m" "hold_ok l f' k off' m'"
    and room: "off + room (lg_buf_size l) m \<le> off' \<or> off' + room (lg_buf_size l) m' \<le> off"
  shows "off + m \<le> off' \<or> off' + m' \<le> off"
proof -
  have k: "k < length (lg_pool l)" "in_use (slot_state l k)" using h(1) by (simp_all add: hold_ok_def)
  have j: "joined_of (slot_state l k) < 2 ^ 20"
    using log_slot_okD(1) [OF log_inv_slot_at [OF inv k(1)] k(2)] by (simp add: word_ok_def)
  have last: "x + y \<le> o'" if a: "hold_ok l g k x y" "\<not> unat (lg_buf_size l) div 2 < y" "o' + 2 ^ 19 = joined_of (slot_state l k)" for g x y o'
  proof -
    have "x + y \<le> joined_of (slot_state l k) mod 2 ^ 19" using a(1,2) unfolding hold_ok_def by (simp only: if_False)
    also have "\<dots> = o'" using j unfolding a(3) [symmetric] by simp
    finally show ?thesis .
  qed
  have big: "x + 2 ^ 19 = joined_of (slot_state l k)" if "hold_ok l g k x y" "unat (lg_buf_size l) div 2 < y" for g x y
    using that unfolding hold_ok_def by (simp only: if_True)
  show ?thesis
  proof (cases "unat (lg_buf_size l) div 2 < m")
    case True
    show ?thesis
    proof (cases "unat (lg_buf_size l) div 2 < m'")
      case m': True
      then show ?thesis using big [OF h(1) True] big [OF h(2) m'] room True by (simp add: room_def)
    next
      case False
      then show ?thesis using last [OF h(2) False big [OF h(1) True]] by blast
    qed
  next
    case False
    show ?thesis
    proof (cases "unat (lg_buf_size l) div 2 < m'")
      case True
      then show ?thesis using last [OF h(1) False big [OF h(2) True]] by blast
    next
      case m': False
      then show ?thesis using room False by (simp add: room_def)
    qed
  qed
qed

lemma records_apart:
  assumes inv: "log_inv l ps" and ij: "i < length ps" "j < length ps" "i \<noteq> j"
  shows "bytes_apart (record_bytes l (ps ! i)) (record_bytes l (ps ! j))"
proof (cases "holding (ps ! i)"; cases "holding (ps ! j)")
  fix x y assume xy: "holding (ps ! i) = Some x" "holding (ps ! j) = Some y"
  obtain k off m where x: "x = (k, off, m)" by (cases x) auto
  obtain k' off' m' where y: "y = (k', off', m')" by (cases y) auto
  let ?s = "lg_pool l ! k" and ?t = "lg_pool l ! k'"
  have h: "hold_ok l (filling (ps ! i)) k off m" "hold_ok l (filling (ps ! j)) k' off' m'"
    using log_place_ok_hold [OF log_inv_place_at [OF inv ij(1)]] log_place_ok_hold [OF log_inv_place_at [OF inv ij(2)]] xy x y by simp_all
  have k: "k < length (lg_pool l)" "in_use (slot_state l k)" "k' < length (lg_pool l)" "in_use (slot_state l k')"
    using h by (simp_all add: hold_ok_def)
  have goal: "bytes_apart (record_bytes l (ps ! i)) (record_bytes l (ps ! j)) \<longleftrightarrow>
    (lsn_file (sl_start_lsn ?s) = lsn_file (sl_start_lsn ?t) \<longrightarrow>
      uint (lsn_offset (sl_start_lsn ?s)) + int off + int m \<le> uint (lsn_offset (sl_start_lsn ?t)) + int off' \<or>
      uint (lsn_offset (sl_start_lsn ?t)) + int off' + int m' \<le> uint (lsn_offset (sl_start_lsn ?s)) + int off)"
    unfolding bytes_apart_def record_bytes_def xy x y by (simp add: Let_def)
  show "bytes_apart (record_bytes l (ps ! i)) (record_bytes l (ps ! j))"
  proof (cases "k = k'")
    case True
    have "off + room (lg_buf_size l) m \<le> off' \<or> off' + room (lg_buf_size l) m' \<le> off"
      using log_invD(3) [OF inv ij] True unfolding pair_ok_def rooms_apart_def xy x y by simp
    then have "off + m \<le> off' \<or> off' + m' \<le> off" using hold_apart [OF inv h(1) h(2) [folded True]] by blast
    then show ?thesis unfolding goal True by linarith
  next
    case False
    note c = closed_or_current [OF inv k(1,2)] and c' = closed_or_current [OF inv k(3,4)]
    have one: "uint (lsn_offset (sl_start_lsn (lg_pool l ! a))) + int b + int z \<le> uint (lsn_offset (sl_start_lsn (lg_pool l ! d)))"
      if "hold_ok l f a b z" "end_ok (lg_pool l ! a)" "lsn_le (sl_end_lsn (lg_pool l ! a)) (sl_start_lsn (lg_pool l ! d))"
        "lsn_file (sl_start_lsn (lg_pool l ! a)) = lsn_file (sl_start_lsn (lg_pool l ! d))" for f a b z d
      using hold_before_end [OF inv that(1,2)] lsn_le_bytes [OF that(3)] that(2,4) by (simp add: end_ok_def)
    have "lsn_le (sl_end_lsn ?s) (sl_start_lsn ?t) \<and> end_ok ?s \<or> lsn_le (sl_end_lsn ?t) (sl_start_lsn ?s) \<and> end_ok ?t"
      using c c' False log_invD(5) [OF inv False] unfolding after_def by metis
    then show ?thesis using one [OF h(1)] one [OF h(2)] unfolding goal by fastforce
  qed
qed (auto simp: bytes_apart_def record_bytes_def split: option.split prod.split)

lemma last_end_set:
  assumes inv: "log_inv l ps" and i: "i < length ps" and at: "ps ! i = Last h k"
  shows "slot_end_set (lg_pool l ! k)"
proof -
  have own: "own_ok l k" using log_place_ok_own [OF log_inv_place_at [OF inv i]] unfolding at by simp
  then have k: "k < length (lg_pool l)" "in_use (slot_state l k)" "closed_of (slot_state l k)" "released_of (slot_state l k) = joined_of (slot_state l k)"
    by (simp_all add: own_ok_def)
  note ok = log_slot_okD [OF log_inv_slot_at [OF inv k(1)] k(2)]
  have "closings ps k = 0"
  proof (rule ccontr)
    assume "closings ps k \<noteq> 0"
    then obtain j where j: "j < length ps" "closing k (ps ! j)" using closings_pos [of ps k] by (auto simp: in_set_conv_nth)
    then obtain h' old rel where cl: "ps ! j = CloseEnd h' k old rel" by (cases "ps ! j") auto
    have ij: "i \<noteq> j" using cl at by auto
    have "rel = (h' = None)" using log_place_ok_at [OF log_inv_place_at [OF inv j(1)]] unfolding cl by simp
    then show False
      using log_invD(3) [OF inv i j(1) ij] own_no_hold [OF inv own nth_mem [OF j(1)]] hold_of_Some [of h' k]
      unfolding cl at pair_ok_def by (cases "h' = None") auto
  qed
  then have e: "end_ok (lg_pool l ! k)" using ok(10) k(3) by blast
  have w: "slot_state l k = slot_word (joined_of (slot_state l k)) (released_of (slot_state l k)) (closed_of (slot_state l k))" "joined_of (slot_state l k) < 2 ^ 20"
    using ok(1) by (simp_all add: word_ok_def)
  then have "slot_done (slot_state l k)"
    using done_word [of "joined_of (slot_state l k)" "released_of (slot_state l k)" "closed_of (slot_state l k)"] k(3,4) by simp
  moreover have "uint (slot_joined_buffered (slot_state l k)) = int (joined_of (slot_state l k) mod 2 ^ 19)"
  proof -
    have "unat (slot_joined_buffered (slot_state l k)) = joined_of (slot_state l k) mod 2 ^ 19" by (simp only: unat_joined_buffered joined_of_def)
    moreover have "uint (slot_joined_buffered (slot_state l k)) = int (unat (slot_joined_buffered (slot_state l k)))" by simp
    ultimately show ?thesis by (simp only:)
  qed
  ultimately show ?thesis using e unfolding slot_end_set_def end_ok_def by (simp only: simp_thms)
qed

lemma hold_in_buffer:
  assumes inv: "log_inv l ps" and i: "i < length ps"
  shows "in_buffer l (ps ! i)"
proof (cases "holding (ps ! i)")
  case (Some x)
  then obtain k off m where x: "holding (ps ! i) = Some (k, off, m)" by (cases x) auto
  have b: "unat (log_slot_buf_max (lg_buf_size l)) = unat (lg_buf_size l) div 2" by (simp add: log_slot_buf_max_def unat_div)
  have "off < unat (lg_buf_size l) div 2" if "\<not> unat (lg_buf_size l) div 2 < m"
    using log_place_ok_hold [OF log_inv_place_at [OF inv i] x] that by (simp add: hold_ok_def)
  then show ?thesis unfolding in_buffer_def x b by fastforce
qed (simp add: in_buffer_def)

lemma reach_move:
  assumes "log_reach n l y" "i < length (sy_at y)" "log_move (sy_at y ! i) (sy_log y) p l'" "locked (sy_at y ! i) \<or> \<not> locked p"
  shows "log_reach n l \<lparr>sy_log = l', sy_at = (sy_at y)[i := p]\<rparr>"
  by (rule log_reach.step [OF assms(1) log_step.move_free [OF assms(2-4)]])

text \<open>A thread that is not disturbed joins an open slot.\<close>

lemma reach_join:
  assumes y: "log_reach n l y" and i: "i < length (sy_at y)" "sy_at y ! i = Away" and m: "m \<noteq> 0" "unat m \<le> 2 ^ 30"
    and k: "k = lg_active (sy_log y)" "s = slot_state (sy_log y) k" and sopen: "slot_open (lg_buf_size (sy_log y)) s"
  shows "log_reach n l \<lparr>sy_log = set_state k (join_state (lg_buf_size (sy_log y)) m s) (sy_log y),
    sy_at = (sy_at y)[i := JoinFill m (slot_joined s) k]\<rparr>"
proof -
  let ?l = "sy_log y"
  have a: "log_reach n l \<lparr>sy_log = ?l, sy_at = (sy_at y)[i := JoinStart m]\<rparr>"
    using reach_move [OF y i(1), of "JoinStart m" ?l] log_move.join [OF m, of ?l] i by simp
  have b: "log_reach n l \<lparr>sy_log = ?l, sy_at = (sy_at y)[i := JoinRead m k]\<rparr>"
    using reach_move [OF a, of i "JoinRead m k" ?l] i by (simp add: k log_move.join_read)
  have c: "log_reach n l \<lparr>sy_log = ?l, sy_at = (sy_at y)[i := JoinSwap m k s]\<rparr>"
    using reach_move [OF b, of i "JoinSwap m k s" ?l] i by (simp add: k log_move.join_look)
  have "log_move (JoinSwap m k s) ?l (JoinFill m (slot_joined s) k) (set_state k (join_state (lg_buf_size ?l) m s) ?l)"
    using log_move.join_swap [of ?l m s k "Some (slot_joined s)" "join_state (lg_buf_size ?l) m s"] sopen k(2)
    by (simp add: wt_log_slot_join_round_def)
  then show ?thesis
    using reach_move [OF c, of i "JoinFill m (slot_joined s) k"] i by simp
qed

text \<open>
  C9: Whatever the interleaving of the threads that join, copy to, close, switch, release and free log
  slots, the bytes of the log files given to the records of two threads never overlap, in one slot or in
  two; a record that is not written directly lies inside its slot's buffer; and a thread that finds it has
  the last record of a slot is alone with it: no other thread is still writing to the slot or owns it, and
  the slot's end, to which the log's write position will move, is the end of all its records.
\<close>

theorem log_slots_safe:
  assumes "log_sane l" "log_reach n l y" "i < length (sy_at y)" "j < length (sy_at y)" "i \<noteq> j"
  shows "bytes_apart (record_bytes (sy_log y) (sy_at y ! i)) (record_bytes (sy_log y) (sy_at y ! j)) \<and>
    in_buffer (sy_log y) (sy_at y ! i) \<and>
    (\<forall>h k. sy_at y ! i = Last h k \<longrightarrow> slot_end_set (lg_pool (sy_log y) ! k) \<and> owning (sy_at y ! j) \<noteq> Some k \<and>
      (\<forall>off m. holding (sy_at y ! j) \<noteq> Some (k, off, m)))"
proof (intro conjI allI impI)
  note inv = log_reach_inv [OF assms(1,2)]
  show "bytes_apart (record_bytes (sy_log y) (sy_at y ! i)) (record_bytes (sy_log y) (sy_at y ! j))"
    by (rule records_apart [OF inv assms(3-5)])
  show "in_buffer (sy_log y) (sy_at y ! i)" by (rule hold_in_buffer [OF inv assms(3)])
  fix h k assume at: "sy_at y ! i = Last h k"
  show "slot_end_set (lg_pool (sy_log y) ! k)" by (rule last_end_set [OF inv assms(3) at])
  show "owning (sy_at y ! j) \<noteq> Some k" using log_invD(3) [OF inv assms(3-5)] unfolding at pair_ok_def by auto
  have "own_ok (sy_log y) k" using log_place_ok_own [OF log_inv_place_at [OF inv assms(3)]] unfolding at by simp
  then show "holding (sy_at y ! j) \<noteq> Some (k, off, m)" for off m by (rule own_no_hold [OF inv _ nth_mem [OF assms(4)]])
qed

definition sample_slot :: logslot where
  "sample_slot = \<lparr>sl_state = 0, sl_unbuffered = 0, sl_error = None, sl_start_offset = 0, sl_last_offset = 0,
     sl_release_lsn = \<lparr>lsn_file = 1, lsn_offset = 0\<rparr>, sl_start_lsn = \<lparr>lsn_file = 1, lsn_offset = 0\<rparr>,
     sl_end_lsn = \<lparr>lsn_file = 1, lsn_offset = 0\<rparr>, sl_fh = 0, sl_flags = 0\<rparr>"

definition sample_log :: wt_log where
  "sample_log = \<lparr>lg_pool = [sample_slot, sample_slot], lg_active = 0, lg_pool_index = 0, lg_buf_size = 0,
     lg_alloc_lsn = \<lparr>lsn_file = 1, lsn_offset = 128\<rparr>, lg_write_lsn = \<lparr>lsn_file = 1, lsn_offset = 128\<rparr>,
     lg_write_start_lsn = \<lparr>lsn_file = 1, lsn_offset = 128\<rparr>, lg_sync_lsn = \<lparr>lsn_file = 1, lsn_offset = 128\<rparr>,
     lg_dirty_lsn = \<lparr>lsn_file = 1, lsn_offset = 128\<rparr>, lg_dirty_max = 0, lg_file_max = 100000, lg_first_record = 128,
     lg_force_newfile = False, lg_fh = 0\<rparr>"

lemma sample_init:
  "lg_buf_size (wt_log_slot_init True sample_log) = 10000" "lg_active (wt_log_slot_init True sample_log) = 0"
  "slot_state (wt_log_slot_init True sample_log) 0 = 0" "length (lg_pool (wt_log_slot_init True sample_log)) = 2"
  "sl_start_lsn (lg_pool (wt_log_slot_init True sample_log) ! 0) = \<lparr>lsn_file = 1, lsn_offset = 128\<rparr>"
  by (simp_all add: wt_log_slot_init_def sample_log_def sample_slot_def Let_def log_slot_buf_size_of_def log_slot_buf_size_def
    wt_log_slot_activate_def slot_set_def)

lemma set_state_simps [simp]:
  "lg_buf_size (set_state k s l) = lg_buf_size l" "lg_active (set_state k s l) = lg_active l"
  "length (lg_pool (set_state k s l)) = length (lg_pool l)" "k < length (lg_pool l) \<Longrightarrow> slot_state (set_state k s l) k = s"
  "k < length (lg_pool l) \<Longrightarrow> sl_start_lsn (lg_pool (set_state k s l) ! k) = sl_start_lsn (lg_pool l ! k)"
  by (simp_all add: set_state_def)

theorem log_slots_safe_witness:
  "\<exists>y. log_reach 2 sample_log y \<and> record_bytes (sy_log y) (sy_at y ! 0) = Some (1, 128, 228) \<and>
     record_bytes (sy_log y) (sy_at y ! 1) = Some (1, 228, 428) \<and>
     bytes_apart (record_bytes (sy_log y) (sy_at y ! 0)) (record_bytes (sy_log y) (sy_at y ! 1))"
proof -
  let ?l = "wt_log_slot_init True sample_log"
  have sane: "log_sane sample_log" by (simp add: log_sane_def sample_log_def)
  have w: "join_state 10000 100 0 = slot_word 100 0 False" "join_state 10000 200 (slot_word 100 0 False) = slot_word 300 0 False"
    using join_state_word [of 0 0 10000 100] join_state_word [of 100 0 10000 200] unfolding zero_word by (simp_all add: room_def)
  have o: "slot_open 10000 0" "slot_open 10000 (slot_word 100 0 False)"
    unfolding zero_word using open_word [of 0 0 10000] open_word [of 100 0 10000] by simp_all
  have j: "slot_joined 0 = 0" "unat (slot_joined (slot_word 100 0 False)) = 100" using joined_word [of 100 0] by (simp_all add: slot_joined_def)
  have rep: "replicate 2 Away = [Away, Away]" by (simp add: numeral_2_eq_2)
  let ?y1 = "\<lparr>sy_log = set_state 0 (slot_word 100 0 False) ?l, sy_at = [JoinFill 100 0 0, Away]\<rparr>"
  let ?y2 = "\<lparr>sy_log = set_state 0 (slot_word 300 0 False) (sy_log ?y1), sy_at = [JoinFill 100 0 0, JoinFill 200 (slot_joined (slot_word 100 0 False)) 0]\<rparr>"
  have y1: "log_reach 2 sample_log ?y1"
    using reach_join [OF log_reach.start, where n = 2 and l = sample_log and i = 0 and m = 100 and k = 0 and s = 0]
    by (simp add: log_start_def sample_init o w j rep)
  have y2: "log_reach 2 sample_log ?y2"
    using reach_join [OF y1, where i = 1 and m = 200 and k = 0 and s = "slot_word 100 0 False"]
    by (simp add: sample_init o w)
  have r: "record_bytes (sy_log ?y2) (sy_at ?y2 ! 0) = Some (1, 128, 228)" "record_bytes (sy_log ?y2) (sy_at ?y2 ! 1) = Some (1, 228, 428)"
    by (simp_all add: record_bytes_def sample_init Let_def j)
  have "bytes_apart (record_bytes (sy_log ?y2) (sy_at ?y2 ! 0)) (record_bytes (sy_log ?y2) (sy_at ?y2 ! 1))"
    using log_slots_safe [OF sane y2, of 0 1] by simp
  then show ?thesis using y2 r by blast
qed

text \<open>
  The end of a slot is computed in 32 bits, and a record written directly may have any size that fits 32
  bits: with a record of 3 GiB in a slot that starts 1 GiB into its file the end wraps to the start of the
  file, before the slot's start.
\<close>

lemma slot_end_wraps:
  assumes "sl_start_lsn slot = \<lparr>lsn_file = 1, lsn_offset = 2 ^ 30\<rparr>" "sl_unbuffered slot = 3 * 2 ^ 30"
  shows "map_option sl_end_lsn (log_slot_close_finish (slot_word (2 ^ 19) (2 ^ 19) False) slot) = Some \<lparr>lsn_file = 1, lsn_offset = 0\<rparr>"
proof -
  have "unat (slot_joined_buffered (slot_word (2 ^ 19) (2 ^ 19) False)) = 0"
    using joined_word [of "2 ^ 19" "2 ^ 19" False] by (simp add: unat_joined_buffered)
  then have "slot_joined_buffered (slot_word (2 ^ 19) (2 ^ 19) False) = 0" by (simp add: unat_eq_0)
  then show ?thesis unfolding log_slot_close_finish_def Let_def by (simp add: assms)
qed

end
