(* ===== verification/Hazard.thy ===== *)
theory Hazard
  imports Wt_Prelude "HOL-Library.Multiset"
begin

text \<open>
  Hazard pointers (\<open>src/support/hazard.c\<close>), the generations and stashes that say when an array of them can be
  freed (\<open>src/support/generation.c\<close>), and the parts of \<open>src/session/session_api.c\<close> and
  \<open>src/evict/evict_page.c\<close> that open and close a session and lock a page to evict it. Any number of sessions
  run, each with one thread; every read or write of what another thread can see is a step of its own, and
  memory is sequentially consistent (the code's barriers). Closing a session clears its fields in one step,
  and the session count steps back in one. The session lock is a condition on the steps that open and close.
  The heap of arrays only grows, with freed arrays marked, so that a use after free can be told. Allocation
  does not fail; statistics and messages are not modelled.
\<close>

datatype ref_state = RefDisk | RefDeleted | RefLocked | RefMem | RefSplit

text \<open>
  A hazard pointer array is at an address; a page is a number, an empty slot \<open>None\<close>. The heap maps the
  addresses allocated so far to their arrays, \<open>None\<close> once freed.
\<close>

type_synonym hz_array = "nat option list"

record hz_shared =
  hz_cnt :: nat
  hz_gen :: nat
  hz_heap :: "hz_array option list"
  hz_ref :: "nat \<Rightarrow> ref_state"

definition hz_initial_slots :: nat where "hz_initial_slots = 250"

text \<open>
  Where the thread of a session is in \<open>__wt_hazard_set_func\<close>, \<open>hazard_grow\<close>, \<open>__wt_stash_add\<close>,
  \<open>__wt_hazard_clear\<close>, \<open>__wt_hazard_check\<close> and the callers that lock a page to evict it. The discard of
  stashed arrays goes on with setting a hazard pointer, or is a call of its own.
\<close>

datatype hz_place =
    Out | Opening | Closing | Idle
  | SetLook nat | SetSlot nat | GrowPub nat nat | GrowSize nat nat | GrowGen nat nat | GrowStash nat nat nat
  | DiscCnt "nat option" | DiscGen "nat option" nat | DiscScan "nat option" nat nat nat | DiscRead "nat option" nat nat nat | DiscFree "nat option" nat
  | SetTake nat | SetWrite nat nat | SetCheck nat nat | SetUndo nat nat
  | Clear nat bool | ClearCount nat bool
  | EvEnter nat | EvPublish nat nat | EvAgain nat | EvCnt nat
  | EvScan nat nat nat | EvInuse nat nat nat | EvArray nat nat nat nat | EvWalk nat nat nat nat nat nat
  | EvLeave nat bool | EvBusy nat | Evicting nat | Other nat

text \<open>
  A session: its fields, where its thread is, and the pages that the thread has a hazard pointer for.
\<close>

record hz_session =
  ss_active :: bool
  ss_hazard :: "nat option"
  ss_size :: nat
  ss_inuse :: nat
  ss_n :: nat
  ss_gen :: nat
  ss_stash :: "(nat \<times> nat) list"
  ss_at :: hz_place
  ss_uses :: "nat list"

definition array_at :: "hz_shared \<Rightarrow> nat \<Rightarrow> hz_array" where
  "array_at g a = the (hz_heap g ! a)"

text \<open>The session's own array.\<close>

definition own_array :: "hz_shared \<Rightarrow> hz_session \<Rightarrow> hz_array" where
  "own_array g s = array_at g (the (ss_hazard s))"

definition put_slot :: "nat \<Rightarrow> nat \<Rightarrow> nat option \<Rightarrow> hz_shared \<Rightarrow> hz_shared" where
  "put_slot a k v g = g\<lparr>hz_heap := (hz_heap g)[a := Some ((array_at g a)[k := v])]\<rparr>"

definition alloc_array :: "hz_array \<Rightarrow> hz_shared \<Rightarrow> hz_shared" where
  "alloc_array A g = g\<lparr>hz_heap := hz_heap g @ [Some A]\<rparr>"

definition free_array :: "nat \<Rightarrow> hz_shared \<Rightarrow> hz_shared" where
  "free_array a g = g\<lparr>hz_heap := (hz_heap g)[a := None]\<rparr>"

definition set_ref :: "nat \<Rightarrow> ref_state \<Rightarrow> hz_shared \<Rightarrow> hz_shared" where
  "set_ref r v g = g\<lparr>hz_ref := (hz_ref g)(r := v)\<rparr>"

text \<open>\<open>hazard_grow\<close>: the array of twice the size with the slots copied.\<close>

definition grown :: "nat \<Rightarrow> hz_array \<Rightarrow> hz_array" where
  "grown sz A = take sz A @ replicate sz None"

text \<open>The search for an empty slot, and the reverse search for a page's slot.\<close>

definition hazard_slot :: "nat \<Rightarrow> nat \<Rightarrow> hz_array \<Rightarrow> nat option" where
  "hazard_slot n inuse A = List.find (\<lambda>k. A ! k = None) ([n..<inuse] @ [0..<inuse])"

definition hazard_find :: "nat \<Rightarrow> nat \<Rightarrow> hz_array \<Rightarrow> nat option" where
  "hazard_find r inuse A = List.find (\<lambda>k. A ! k = Some r) (rev [0..<inuse])"

definition wt_hazard_count :: "nat \<Rightarrow> nat \<Rightarrow> hz_array \<Rightarrow> nat" where
  "wt_hazard_count r inuse A = length (filter (\<lambda>k. A ! k = Some r) [0..<inuse])"

text \<open>\<open>__wt_hazard_close\<close>: the array and the count after it, and whether it complained.\<close>

definition wt_hazard_close :: "nat \<Rightarrow> nat \<Rightarrow> hz_array \<Rightarrow> hz_array \<times> nat \<times> bool" where
  "wt_hazard_close n inuse A =
     (let found = list_ex (\<lambda>k. A ! k \<noteq> None) [0..<inuse] in
      if n = 0 \<and> \<not> found then (A, n, False)
      else fold (\<lambda>k (A, n, e). if A ! k \<noteq> None then (A[k := None], n - 1, e) else (A, n, e)) [0..<inuse] (A, n, True))"

definition open_count :: "nat \<Rightarrow> hz_shared \<Rightarrow> hz_shared" where
  "open_count i g = (if i \<ge> hz_cnt g then g\<lparr>hz_cnt := i + 1\<rparr> else g)"

text \<open>The session count when a session was closed: up to the last session that is active.\<close>

fun close_count :: "hz_session list \<Rightarrow> nat \<Rightarrow> nat" where
  "close_count ss 0 = 0"
| "close_count ss (Suc k) = (if ss_active (ss ! k) then Suc k else close_count ss k)"

fun after_discard :: "nat option \<Rightarrow> hz_place" where
  "after_discard None = Idle"
| "after_discard (Some r) = SetTake r"

fun api_locked :: "hz_place \<Rightarrow> bool" where
  "api_locked Opening = True"
| "api_locked Closing = True"
| "api_locked _ = False"

text \<open>
  Steps of the thread of session \<open>i\<close> among the sessions \<open>ss\<close>: its session and the shared data, before and after.
\<close>

text \<open>Opening a session (\<open>__open_session\<close>) and closing it (\<open>__wt_session_close_internal\<close>, \<open>__session_clear\<close>).\<close>

inductive hz_session_move :: "hz_session list \<Rightarrow> nat \<Rightarrow> hz_session \<Rightarrow> hz_shared \<Rightarrow> hz_session \<Rightarrow> hz_shared \<Rightarrow> bool" for ss i where
  open_cnt: "ss_at s = Out \<Longrightarrow> (\<forall>t \<in> set ss. \<not> api_locked (ss_at t)) \<Longrightarrow>
    hz_session_move ss i s g (s\<lparr>ss_at := Opening\<rparr>) (open_count i g)"
| open_first: "ss_at s = Opening \<Longrightarrow> ss_hazard s = None \<Longrightarrow>
    hz_session_move ss i s g
      (s\<lparr>ss_hazard := Some (length (hz_heap g)), ss_size := hz_initial_slots, ss_inuse := 0, ss_n := 0, ss_active := True, ss_at := Idle\<rparr>)
      (alloc_array (replicate hz_initial_slots None) g)"
| open_again: "ss_at s = Opening \<Longrightarrow> ss_hazard s \<noteq> None \<Longrightarrow> hz_session_move ss i s g (s\<lparr>ss_active := True, ss_at := Idle\<rparr>) g"
| close: "ss_at s = Idle \<Longrightarrow> ss_uses s = [] \<Longrightarrow> (\<forall>t \<in> set ss. \<not> api_locked (ss_at t)) \<Longrightarrow>
    hz_session_move ss i s g (s\<lparr>ss_active := False, ss_inuse := 0, ss_n := 0, ss_at := Closing\<rparr>) g"
| close_cnt: "ss_at s = Closing \<Longrightarrow> hz_session_move ss i s g (s\<lparr>ss_at := Out\<rparr>) (g\<lparr>hz_cnt := close_count ss (hz_cnt g)\<rparr>)"

text \<open>\<open>__wt_hazard_set_func\<close>.\<close>

inductive hz_set_move :: "hz_session \<Rightarrow> hz_shared \<Rightarrow> hz_session \<Rightarrow> hz_shared \<Rightarrow> bool" where
  set: "ss_at s = Idle \<Longrightarrow> hz_set_move s g (s\<lparr>ss_at := SetLook r\<rparr>) g"
| set_look: "ss_at s = SetLook r \<Longrightarrow> hz_set_move s g (s\<lparr>ss_at := (if hz_ref g r = RefMem then SetSlot r else Idle)\<rparr>) g"
| set_fits: "ss_at s = SetSlot r \<Longrightarrow> ss_n s < ss_size s \<Longrightarrow> hz_set_move s g (s\<lparr>ss_at := SetTake r\<rparr>) g"
| set_next: "ss_at s = SetTake r \<Longrightarrow> ss_n s \<ge> ss_inuse s \<Longrightarrow>
    hz_set_move s g (s\<lparr>ss_inuse := ss_inuse s + 1, ss_at := SetWrite r (ss_inuse s)\<rparr>) g"
| set_search: "ss_at s = SetTake r \<Longrightarrow> ss_n s < ss_inuse s \<Longrightarrow> hazard_slot (ss_n s) (ss_inuse s) (own_array g s) = Some k \<Longrightarrow>
    hz_set_move s g (s\<lparr>ss_at := SetWrite r k\<rparr>) g"
| set_write: "ss_at s = SetWrite r k \<Longrightarrow> hz_set_move s g (s\<lparr>ss_at := SetCheck r k\<rparr>) (put_slot (the (ss_hazard s)) k (Some r) g)"
| set_ok: "ss_at s = SetCheck r k \<Longrightarrow> hz_ref g r = RefMem \<Longrightarrow>
    hz_set_move s g (s\<lparr>ss_n := ss_n s + 1, ss_uses := r # ss_uses s, ss_at := Idle\<rparr>) g"
| set_busy: "ss_at s = SetCheck r k \<Longrightarrow> hz_ref g r \<noteq> RefMem \<Longrightarrow> hz_set_move s g (s\<lparr>ss_at := SetUndo r k\<rparr>) g"
| set_undo: "ss_at s = SetUndo r k \<Longrightarrow> hz_set_move s g (s\<lparr>ss_at := Idle\<rparr>) (put_slot (the (ss_hazard s)) k None g)"

text \<open>\<open>hazard_grow\<close>, with \<open>__wt_gen_next\<close> and \<open>__wt_stash_add\<close>.\<close>

inductive hz_grow_move :: "hz_session \<Rightarrow> hz_shared \<Rightarrow> hz_session \<Rightarrow> hz_shared \<Rightarrow> bool" where
  set_grow: "ss_at s = SetSlot r \<Longrightarrow> ss_n s \<ge> ss_size s \<Longrightarrow>
    hz_grow_move s g (s\<lparr>ss_at := GrowPub r (length (hz_heap g))\<rparr>) (alloc_array (grown (ss_size s) (own_array g s)) g)"
| grow_pub: "ss_at s = GrowPub r new \<Longrightarrow> hz_grow_move s g (s\<lparr>ss_hazard := Some new, ss_at := GrowSize r (the (ss_hazard s))\<rparr>) g"
| grow_size: "ss_at s = GrowSize r old \<Longrightarrow> hz_grow_move s g (s\<lparr>ss_size := ss_size s * 2, ss_at := GrowGen r old\<rparr>) g"
| grow_gen: "ss_at s = GrowGen r old \<Longrightarrow> hz_grow_move s g (s\<lparr>ss_at := GrowStash r (hz_gen g + 1) old\<rparr>) (g\<lparr>hz_gen := hz_gen g + 1\<rparr>)"
| grow_stash: "ss_at s = GrowStash r gen old \<Longrightarrow>
    hz_grow_move s g (s\<lparr>ss_stash := ss_stash s @ [(gen, old)], ss_at := (if ss_stash s \<noteq> [] then DiscCnt (Some r) else SetTake r)\<rparr>) g"

text \<open>\<open>__gen_oldest\<close>.\<close>

inductive hz_oldest_move :: "hz_session list \<Rightarrow> nat \<Rightarrow> hz_session \<Rightarrow> hz_shared \<Rightarrow> hz_session \<Rightarrow> hz_shared \<Rightarrow> bool" for ss i where
  disc_cnt: "ss_at s = DiscCnt k \<Longrightarrow> hz_oldest_move ss i s g (s\<lparr>ss_at := DiscGen k (hz_cnt g)\<rparr>) g"
| disc_gen: "ss_at s = DiscGen k c \<Longrightarrow> hz_oldest_move ss i s g (s\<lparr>ss_at := DiscScan k c (hz_gen g) 0\<rparr>) g"
| disc_skip: "ss_at s = DiscScan k c oldest j \<Longrightarrow> j < c \<Longrightarrow> \<not> ss_active (ss ! j) \<Longrightarrow>
    hz_oldest_move ss i s g (s\<lparr>ss_at := DiscScan k c oldest (j + 1)\<rparr>) g"
| disc_active: "ss_at s = DiscScan k c oldest j \<Longrightarrow> j < c \<Longrightarrow> ss_active (ss ! j) \<Longrightarrow>
    hz_oldest_move ss i s g (s\<lparr>ss_at := DiscRead k c oldest j\<rparr>) g"
| disc_read: "ss_at s = DiscRead k c oldest j \<Longrightarrow> v = ss_gen (ss ! j) \<Longrightarrow>
    hz_oldest_move ss i s g (s\<lparr>ss_at := DiscScan k c (if v \<noteq> 0 \<and> v < oldest then v else oldest) (j + 1)\<rparr>) g"
| disc_end: "ss_at s = DiscScan k c oldest j \<Longrightarrow> \<not> j < c \<Longrightarrow> hz_oldest_move ss i s g (s\<lparr>ss_at := DiscFree k oldest\<rparr>) g"

text \<open>\<open>__wt_stash_discard\<close> and \<open>__stash_discard\<close>.\<close>

inductive hz_discard_move :: "hz_session \<Rightarrow> hz_shared \<Rightarrow> hz_session \<Rightarrow> hz_shared \<Rightarrow> bool" where
  discard: "ss_at s = Idle \<Longrightarrow> ss_stash s \<noteq> [] \<Longrightarrow> hz_discard_move s g (s\<lparr>ss_at := DiscCnt None\<rparr>) g"
| disc_free: "ss_at s = DiscFree k oldest \<Longrightarrow> ss_stash s = (gen, a) # rest \<Longrightarrow> gen < oldest \<Longrightarrow>
    hz_discard_move s g (s\<lparr>ss_stash := rest\<rparr>) (free_array a g)"
| disc_stop: "ss_at s = DiscFree k oldest \<Longrightarrow> (case ss_stash s of [] \<Rightarrow> True | (gen, a) # rest \<Rightarrow> gen \<ge> oldest) \<Longrightarrow>
    hz_discard_move s g (s\<lparr>ss_at := after_discard k\<rparr>) g"

text \<open>\<open>__wt_hazard_clear\<close>.\<close>

inductive hz_clear_move :: "hz_session \<Rightarrow> hz_shared \<Rightarrow> hz_session \<Rightarrow> hz_shared \<Rightarrow> bool" where
  clear: "ss_at s = Idle \<Longrightarrow> r \<in> set (ss_uses s) \<Longrightarrow> hz_clear_move s g (s\<lparr>ss_at := Clear r False\<rparr>) g"
| clear_slot: "ss_at s = Clear r ev \<Longrightarrow> hazard_find r (ss_inuse s) (own_array g s) = Some k \<Longrightarrow>
    hz_clear_move s g (s\<lparr>ss_uses := remove1 r (ss_uses s), ss_at := ClearCount r ev\<rparr>) (put_slot (the (ss_hazard s)) k None g)"
| clear_count: "ss_at s = ClearCount r ev \<Longrightarrow>
    hz_clear_move s g (s\<lparr>ss_n := ss_n s - 1, ss_inuse := (if ss_n s - 1 = 0 then 0 else ss_inuse s),
      ss_at := (if ev then EvEnter r else Idle)\<rparr>) g"

text \<open>\<open>__wt_session_gen_enter\<close> and \<open>__wt_session_gen_leave\<close>.\<close>

inductive hz_gen_move :: "hz_session \<Rightarrow> hz_shared \<Rightarrow> hz_session \<Rightarrow> hz_shared \<Rightarrow> bool" where
  gen_read: "ss_at s = EvEnter r \<Longrightarrow> hz_gen_move s g (s\<lparr>ss_at := EvPublish r (hz_gen g)\<rparr>) g"
| gen_publish: "ss_at s = EvPublish r v \<Longrightarrow> hz_gen_move s g (s\<lparr>ss_gen := v, ss_at := EvAgain r\<rparr>) g"
| gen_again: "ss_at s = EvAgain r \<Longrightarrow> hz_gen_move s g (s\<lparr>ss_at := (if ss_gen s = hz_gen g then EvCnt r else EvEnter r)\<rparr>) g"
| gen_leave: "ss_at s = EvLeave r found \<Longrightarrow>
    hz_gen_move s g (s\<lparr>ss_gen := 0, ss_at := (if found then EvBusy r else Evicting r)\<rparr>) g"

text \<open>\<open>__wt_hazard_check\<close> with \<open>hazard_get_reference\<close>.\<close>

inductive hz_check_move :: "hz_session list \<Rightarrow> nat \<Rightarrow> hz_session \<Rightarrow> hz_shared \<Rightarrow> hz_session \<Rightarrow> hz_shared \<Rightarrow> bool" for ss i where
  check_cnt: "ss_at s = EvCnt r \<Longrightarrow> hz_check_move ss i s g (s\<lparr>ss_at := EvScan r (hz_cnt g) 0\<rparr>) g"
| check_skip: "ss_at s = EvScan r c j \<Longrightarrow> j < c \<Longrightarrow> \<not> ss_active (ss ! j) \<Longrightarrow> hz_check_move ss i s g (s\<lparr>ss_at := EvScan r c (j + 1)\<rparr>) g"
| check_active: "ss_at s = EvScan r c j \<Longrightarrow> j < c \<Longrightarrow> ss_active (ss ! j) \<Longrightarrow> hz_check_move ss i s g (s\<lparr>ss_at := EvInuse r c j\<rparr>) g"
| check_inuse: "ss_at s = EvInuse r c j \<Longrightarrow> hz_check_move ss i s g (s\<lparr>ss_at := EvArray r c j (ss_inuse (ss ! j))\<rparr>) g"
| check_array: "ss_at s = EvArray r c j u \<Longrightarrow> hz_check_move ss i s g (s\<lparr>ss_at := EvWalk r c j u (the (ss_hazard (ss ! j))) 0\<rparr>) g"
| check_slot: "ss_at s = EvWalk r c j u a k \<Longrightarrow> k < u \<Longrightarrow>
    hz_check_move ss i s g (s\<lparr>ss_at := (if array_at g a ! k = Some r then EvLeave r True else EvWalk r c j u a (k + 1))\<rparr>) g"
| check_next: "ss_at s = EvWalk r c j u a k \<Longrightarrow> \<not> k < u \<Longrightarrow> hz_check_move ss i s g (s\<lparr>ss_at := EvScan r c (j + 1)\<rparr>) g"
| check_end: "ss_at s = EvScan r c j \<Longrightarrow> \<not> j < c \<Longrightarrow> hz_check_move ss i s g (s\<lparr>ss_at := EvLeave r False\<rparr>) g"

text \<open>Locking a page to evict it (\<open>__wt_page_release_evict\<close>), what \<open>__evict_exclusive\<close> returns, and other uses of a page lock.\<close>

inductive hz_evict_move :: "hz_session \<Rightarrow> hz_shared \<Rightarrow> hz_session \<Rightarrow> hz_shared \<Rightarrow> bool" where
  lock_release: "ss_at s = Idle \<Longrightarrow> r \<in> set (ss_uses s) \<Longrightarrow> hz_ref g r = RefMem \<Longrightarrow>
    hz_evict_move s g (s\<lparr>ss_at := Clear r True\<rparr>) (set_ref r RefLocked g)"
| lock_evict: "ss_at s = Idle \<Longrightarrow> hz_ref g r = RefMem \<Longrightarrow> hz_evict_move s g (s\<lparr>ss_at := EvEnter r\<rparr>) (set_ref r RefLocked g)"
| evict_busy: "ss_at s = EvBusy r \<Longrightarrow> hz_evict_move s g (s\<lparr>ss_at := Idle\<rparr>) (set_ref r RefMem g)"
| evict_done: "ss_at s = Evicting r \<Longrightarrow> v \<noteq> RefLocked \<Longrightarrow> hz_evict_move s g (s\<lparr>ss_at := Idle\<rparr>) (set_ref r v g)"
| lock_other: "ss_at s = Idle \<Longrightarrow> hz_ref g r \<noteq> RefLocked \<Longrightarrow> hz_evict_move s g (s\<lparr>ss_at := Other r\<rparr>) (set_ref r RefLocked g)"
| unlock_other: "ss_at s = Other r \<Longrightarrow> v \<noteq> RefLocked \<Longrightarrow> hz_evict_move s g (s\<lparr>ss_at := Idle\<rparr>) (set_ref r v g)"

inductive hz_move :: "hz_session list \<Rightarrow> nat \<Rightarrow> hz_session \<Rightarrow> hz_shared \<Rightarrow> hz_session \<Rightarrow> hz_shared \<Rightarrow> bool" for ss i where
  in_session: "hz_session_move ss i s g s' g' \<Longrightarrow> hz_move ss i s g s' g'"
| in_set: "hz_set_move s g s' g' \<Longrightarrow> hz_move ss i s g s' g'"
| in_grow: "hz_grow_move s g s' g' \<Longrightarrow> hz_move ss i s g s' g'"
| in_oldest: "hz_oldest_move ss i s g s' g' \<Longrightarrow> hz_move ss i s g s' g'"
| in_discard: "hz_discard_move s g s' g' \<Longrightarrow> hz_move ss i s g s' g'"
| in_clear: "hz_clear_move s g s' g' \<Longrightarrow> hz_move ss i s g s' g'"
| in_gen: "hz_gen_move s g s' g' \<Longrightarrow> hz_move ss i s g s' g'"
| in_check: "hz_check_move ss i s g s' g' \<Longrightarrow> hz_move ss i s g s' g'"
| in_evict: "hz_evict_move s g s' g' \<Longrightarrow> hz_move ss i s g s' g'"

record hz_sys =
  sy_sessions :: "hz_session list"
  sy_shared :: hz_shared

inductive hz_step :: "hz_sys \<Rightarrow> hz_sys \<Rightarrow> bool" where
  "i < length (sy_sessions y) \<Longrightarrow> hz_move (sy_sessions y) i (sy_sessions y ! i) (sy_shared y) s g \<Longrightarrow>
    hz_step y \<lparr>sy_sessions = (sy_sessions y)[i := s], sy_shared = g\<rparr>"

definition hz_start :: "nat \<Rightarrow> (nat \<Rightarrow> ref_state) \<Rightarrow> hz_sys" where
  "hz_start n refs =
     \<lparr>sy_sessions = replicate n \<lparr>ss_active = False, ss_hazard = None, ss_size = 0, ss_inuse = 0, ss_n = 0, ss_gen = 0,
        ss_stash = [], ss_at = Out, ss_uses = []\<rparr>,
      sy_shared = \<lparr>hz_cnt = 0, hz_gen = 1, hz_heap = [], hz_ref = refs\<rparr>\<rparr>"

inductive hz_reach :: "nat \<Rightarrow> hz_sys \<Rightarrow> bool" for n where
  start: "\<forall>r. refs r \<noteq> RefLocked \<Longrightarrow> hz_reach n (hz_start n refs)"
| step: "hz_reach n y \<Longrightarrow> hz_step y y' \<Longrightarrow> hz_reach n y'"

end
