(* ===== verification/HazardInv.thy ===== *)
theory HazardInv
  imports Hazard
begin

text \<open>
  Why hazard pointers work. The invariant of a state has a part for each session (its array, its count and
  the pages it uses agree, what it holds is allocated) and a part for each two (their arrays are different;
  a thread that locked a page to evict it has yet to reach every checked slot with that page; a thread that
  discards stashed arrays counts the generation of every thread that looks at one). Each step keeps it:
  \<open>moved_step\<close>, \<open>own_step\<close> and their special cases say what is left to show for a kind of step.
\<close>

subsection \<open>What the invariant says of one session\<close>

fun at_active :: "hz_place \<Rightarrow> bool" where
  "at_active Out = False"
| "at_active Opening = False"
| "at_active Closing = False"
| "at_active _ = True"

text \<open>The slot that is set and not yet checked.\<close>

fun pend :: "hz_place \<Rightarrow> nat option" where
  "pend (SetCheck r k) = Some k"
| "pend (SetUndo r k) = Some k"
| "pend _ = None"

text \<open>An array that is neither the session's nor stashed: the new one, or the one replaced, with the generation once it is known.\<close>

fun limbo :: "hz_place \<Rightarrow> nat option" where
  "limbo (GrowPub r new) = Some new"
| "limbo (GrowSize r old) = Some old"
| "limbo (GrowGen r old) = Some old"
| "limbo (GrowStash r v old) = Some old"
| "limbo _ = None"

fun replaced :: "nat \<Rightarrow> nat \<Rightarrow> hz_place \<Rightarrow> bool" where
  "replaced v a (GrowSize r old) \<longleftrightarrow> a = old"
| "replaced v a (GrowGen r old) \<longleftrightarrow> a = old"
| "replaced v a (GrowStash r w old) \<longleftrightarrow> a = old \<and> v < w"
| "replaced v a _ \<longleftrightarrow> False"

fun lock_of :: "hz_place \<Rightarrow> nat option" where
  "lock_of (Clear r ev) = (if ev then Some r else None)"
| "lock_of (ClearCount r ev) = (if ev then Some r else None)"
| "lock_of (EvEnter r) = Some r"
| "lock_of (EvPublish r v) = Some r"
| "lock_of (EvAgain r) = Some r"
| "lock_of (EvCnt r) = Some r"
| "lock_of (EvScan r c i) = Some r"
| "lock_of (EvInuse r c i) = Some r"
| "lock_of (EvArray r c i u) = Some r"
| "lock_of (EvWalk r c i u a k) = Some r"
| "lock_of (EvLeave r f) = Some r"
| "lock_of (EvBusy r) = Some r"
| "lock_of (Evicting r) = Some r"
| "lock_of (Other r) = Some r"
| "lock_of _ = None"

fun entered :: "hz_place \<Rightarrow> bool" where
  "entered (EvCnt r) = True"
| "entered (EvScan r c i) = True"
| "entered (EvInuse r c i) = True"
| "entered (EvArray r c i u) = True"
| "entered (EvWalk r c i u a k) = True"
| "entered (EvLeave r f) = True"
| "entered _ = False"

definition opt_list :: "'a option \<Rightarrow> 'a list" where
  "opt_list x = (case x of None \<Rightarrow> [] | Some a \<Rightarrow> [a])"

text \<open>The arrays a session answers for.\<close>

definition owned :: "hz_session \<Rightarrow> nat list" where
  "owned s = opt_list (ss_hazard s) @ opt_list (limbo (ss_at s)) @ map snd (ss_stash s)"

definition entries :: "hz_array \<Rightarrow> nat multiset" where
  "entries A = image_mset the (filter_mset (\<lambda>x. x \<noteq> None) (mset A))"

definition without_pend :: "hz_place \<Rightarrow> hz_array \<Rightarrow> hz_array" where
  "without_pend p A = (case pend p of None \<Rightarrow> A | Some k \<Rightarrow> A[k := None])"

definition flags_ok :: "hz_shared \<Rightarrow> nat \<Rightarrow> hz_session \<Rightarrow> bool" where
  "flags_ok g j s \<longleftrightarrow> ss_active s = at_active (ss_at s) \<and> (\<not> ss_active s \<longrightarrow> ss_uses s = []) \<and>
     (ss_active s \<or> ss_at s = Opening \<longrightarrow> j < hz_cnt g) \<and> (ss_active s \<longrightarrow> ss_hazard s \<noteq> None)"

definition heap_ok :: "hz_shared \<Rightarrow> hz_session \<Rightarrow> bool" where
  "heap_ok g s \<longleftrightarrow> distinct (owned s) \<and> (\<forall>a \<in> set (owned s). a < length (hz_heap g) \<and> hz_heap g ! a \<noteq> None)"

fun is_count :: "hz_place \<Rightarrow> bool" where
  "is_count (ClearCount r ev) = True"
| "is_count _ = False"

fun is_grow_size :: "hz_place \<Rightarrow> bool" where
  "is_grow_size (GrowSize r old) = True"
| "is_grow_size _ = False"

definition array_ok :: "hz_shared \<Rightarrow> hz_session \<Rightarrow> bool" where
  "array_ok g s \<longleftrightarrow> (ss_hazard s \<noteq> None \<longrightarrow> (let A = own_array g s in
     length A = (if is_grow_size (ss_at s) then 2 * ss_size s else ss_size s) \<and> 0 < ss_size s \<and> ss_inuse s \<le> ss_size s \<and>
     (\<forall>k < length A. A ! k \<noteq> None \<longrightarrow> k < ss_inuse s) \<and> entries (without_pend (ss_at s) A) = mset (ss_uses s) \<and>
     ss_n s = length (ss_uses s) + of_bool (is_count (ss_at s))))"

definition gens_ok :: "hz_shared \<Rightarrow> hz_session \<Rightarrow> bool" where
  "gens_ok g s \<longleftrightarrow> 0 < hz_gen g \<and> ss_gen s \<le> hz_gen g \<and> (entered (ss_at s) \<longrightarrow> 0 < ss_gen s) \<and>
     (\<forall>r. lock_of (ss_at s) = Some r \<longrightarrow> hz_ref g r = RefLocked)"

fun hz_at_ok :: "hz_shared \<Rightarrow> hz_session \<Rightarrow> hz_place \<Rightarrow> bool" where
  "hz_at_ok g s (GrowPub r new) \<longleftrightarrow> array_at g new = grown (ss_size s) (own_array g s) \<and> ss_n s < 2 * ss_size s"
| "hz_at_ok g s (GrowSize r old) \<longleftrightarrow> ss_n s < 2 * ss_size s"
| "hz_at_ok g s (GrowGen r old) \<longleftrightarrow> ss_n s < ss_size s"
| "hz_at_ok g s (GrowStash r v old) \<longleftrightarrow> ss_n s < ss_size s"
| "hz_at_ok g s (DiscCnt k) \<longleftrightarrow> k \<noteq> None \<longrightarrow> ss_n s < ss_size s"
| "hz_at_ok g s (DiscGen k c) \<longleftrightarrow> k \<noteq> None \<longrightarrow> ss_n s < ss_size s"
| "hz_at_ok g s (DiscScan k c o' i) \<longleftrightarrow> k \<noteq> None \<longrightarrow> ss_n s < ss_size s"
| "hz_at_ok g s (DiscRead k c o' i) \<longleftrightarrow> k \<noteq> None \<longrightarrow> ss_n s < ss_size s"
| "hz_at_ok g s (DiscFree k o') \<longleftrightarrow> k \<noteq> None \<longrightarrow> ss_n s < ss_size s"
| "hz_at_ok g s (SetTake r) \<longleftrightarrow> ss_n s < ss_size s"
| "hz_at_ok g s (SetWrite r k) \<longleftrightarrow> k < ss_inuse s \<and> own_array g s ! k = None"
| "hz_at_ok g s (SetCheck r k) \<longleftrightarrow> k < ss_inuse s \<and> own_array g s ! k = Some r"
| "hz_at_ok g s (SetUndo r k) \<longleftrightarrow> k < ss_inuse s \<and> own_array g s ! k = Some r"
| "hz_at_ok g s (Clear r ev) \<longleftrightarrow> r \<in> set (ss_uses s)"
| "hz_at_ok g s (EvPublish r v) \<longleftrightarrow> v \<le> hz_gen g \<and> 0 < v"
| "hz_at_ok g s (EvAgain r) \<longleftrightarrow> 0 < ss_gen s"
| "hz_at_ok g s _ \<longleftrightarrow> True"

definition sess_ok :: "hz_shared \<Rightarrow> nat \<Rightarrow> hz_session \<Rightarrow> bool" where
  "sess_ok g j s \<longleftrightarrow> flags_ok g j s \<and> heap_ok g s \<and> array_ok g s \<and> gens_ok g s \<and> hz_at_ok g s (ss_at s)"

subsection \<open>What it says of two\<close>

definition apart_ok :: "hz_session \<Rightarrow> hz_session \<Rightarrow> bool" where
  "apart_ok s t \<longleftrightarrow> set (owned s) \<inter> set (owned t) = {} \<and> (lock_of (ss_at s) \<noteq> None \<longrightarrow> lock_of (ss_at s) \<noteq> lock_of (ss_at t)) \<and>
     \<not> (api_locked (ss_at s) \<and> api_locked (ss_at t))"

text \<open>An array of session \<open>t\<close> that a thread in generation \<open>v\<close> may look at.\<close>

definition held :: "nat \<Rightarrow> nat \<Rightarrow> hz_session \<Rightarrow> bool" where
  "held v a t \<longleftrightarrow> ss_hazard t = Some a \<or> replaced v a (ss_at t) \<or> (\<exists>w. (w, a) \<in> set (ss_stash t) \<and> v < w)"

fun walk_ok :: "hz_shared \<Rightarrow> nat \<Rightarrow> hz_place \<Rightarrow> nat \<Rightarrow> hz_session \<Rightarrow> bool" where
  "walk_ok g v (EvInuse r c i) b t \<longleftrightarrow> i = b \<longrightarrow> ss_hazard t \<noteq> None"
| "walk_ok g v (EvArray r c i u) b t \<longleftrightarrow> i = b \<longrightarrow> ss_hazard t \<noteq> None \<and> u \<le> length (own_array g t)"
| "walk_ok g v (EvWalk r c i u a k) b t \<longleftrightarrow> i = b \<longrightarrow> held v a t \<and> u \<le> length (array_at g a)"
| "walk_ok g v _ b t \<longleftrightarrow> True"

text \<open>A checked slot of session \<open>t\<close> with page \<open>r\<close>; where the scan for \<open>r\<close> must still be before it.\<close>

definition checked :: "hz_shared \<Rightarrow> hz_session \<Rightarrow> nat \<Rightarrow> nat \<Rightarrow> bool" where
  "checked g t r k \<longleftrightarrow> ss_hazard t \<noteq> None \<and> k < length (own_array g t) \<and> own_array g t ! k = Some r \<and> pend (ss_at t) \<noteq> Some k"

fun before :: "hz_shared \<Rightarrow> hz_place \<Rightarrow> nat \<Rightarrow> nat \<Rightarrow> bool" where
  "before g (EvScan r c i) b k \<longleftrightarrow> b < c \<and> i \<le> b"
| "before g (EvInuse r c i) b k \<longleftrightarrow> b < c \<and> i \<le> b"
| "before g (EvArray r c i u) b k \<longleftrightarrow> b < c \<and> (i < b \<or> i = b \<and> k < u)"
| "before g (EvWalk r c i u a j) b k \<longleftrightarrow> b < c \<and> (i < b \<or> i = b \<and> k < u \<and> j \<le> k \<and> array_at g a ! k = Some r)"
| "before g (EvLeave r f) b k \<longleftrightarrow> f"
| "before g (Evicting r) b k \<longleftrightarrow> False"
| "before g _ b k \<longleftrightarrow> True"

definition scan_ok :: "hz_shared \<Rightarrow> hz_place \<Rightarrow> nat \<Rightarrow> hz_session \<Rightarrow> bool" where
  "scan_ok g p b t \<longleftrightarrow> (\<forall>r k. lock_of p = Some r \<longrightarrow> checked g t r k \<longrightarrow> before g p b k)"

fun walks :: "nat \<Rightarrow> hz_place \<Rightarrow> bool" where
  "walks a' (EvWalk r c i u a k) \<longleftrightarrow> a = a'"
| "walks a' _ \<longleftrightarrow> False"

text \<open>The discard has counted the generation of a thread that looks at a stashed array, or will.\<close>

fun counted :: "hz_place \<Rightarrow> nat \<Rightarrow> nat \<Rightarrow> bool" where
  "counted (DiscGen k c) b v \<longleftrightarrow> b < c"
| "counted (DiscScan k c oldest i) b v \<longleftrightarrow> b < c \<and> (i \<le> b \<or> oldest \<le> v)"
| "counted (DiscRead k c oldest i) b v \<longleftrightarrow> b < c \<and> (i \<le> b \<or> oldest \<le> v)"
| "counted (DiscFree k oldest) b v \<longleftrightarrow> oldest \<le> v"
| "counted _ b v \<longleftrightarrow> True"

definition disc_ok :: "hz_place \<Rightarrow> (nat \<times> nat) list \<Rightarrow> nat \<Rightarrow> hz_session \<Rightarrow> bool" where
  "disc_ok p stash b t \<longleftrightarrow> (\<forall>a \<in> snd ` set stash. walks a (ss_at t) \<longrightarrow> counted p b (ss_gen t))"

definition look_ok :: "hz_shared \<Rightarrow> hz_session \<Rightarrow> nat \<Rightarrow> hz_session \<Rightarrow> bool" where
  "look_ok g s b t \<longleftrightarrow> walk_ok g (ss_gen s) (ss_at s) b t \<and> scan_ok g (ss_at s) b t \<and> disc_ok (ss_at s) (ss_stash s) b t"

definition hz_inv :: "hz_session list \<Rightarrow> hz_shared \<Rightarrow> bool" where
  "hz_inv ss g \<longleftrightarrow> (\<forall>i < length ss. sess_ok g i (ss ! i)) \<and>
     (\<forall>i < length ss. \<forall>j < length ss. i \<noteq> j \<longrightarrow> apart_ok (ss ! i) (ss ! j)) \<and>
     (\<forall>i < length ss. \<forall>j < length ss. look_ok g (ss ! i) j (ss ! j))"

lemma apart_sym: "apart_ok s t \<longleftrightarrow> apart_ok t s"
  unfolding apart_ok_def by auto

subsection \<open>One step\<close>

text \<open>What a step leaves as it was for the other sessions.\<close>

definition hz_kept :: "hz_shared \<Rightarrow> hz_shared \<Rightarrow> nat \<Rightarrow> hz_session \<Rightarrow> bool" where
  "hz_kept g g' j t \<longleftrightarrow> (\<forall>a \<in> set (owned t). a < length (hz_heap g) \<longrightarrow> a < length (hz_heap g') \<and> hz_heap g' ! a = hz_heap g ! a) \<and>
     hz_gen g \<le> hz_gen g' \<and> (\<forall>r. lock_of (ss_at t) = Some r \<longrightarrow> hz_ref g r = RefLocked \<longrightarrow> hz_ref g' r = RefLocked) \<and>
     (ss_active t \<or> ss_at t = Opening \<longrightarrow> j < hz_cnt g \<longrightarrow> j < hz_cnt g')"

lemma owned_hazard: "ss_hazard t = Some a \<Longrightarrow> a \<in> set (owned t)"
  by (simp add: owned_def opt_list_def)

lemma owned_limbo: "limbo (ss_at t) = Some a \<Longrightarrow> a \<in> set (owned t)"
  by (simp add: owned_def opt_list_def)

lemma replaced_limbo: "replaced v a p \<Longrightarrow> limbo p = Some a"
  by (cases p) auto

lemma held_owned:
  assumes "held v a t"
  shows "a \<in> set (owned t)"
proof -
  consider "ss_hazard t = Some a" | "replaced v a (ss_at t)" | w where "(w, a) \<in> set (ss_stash t)"
    using assms unfolding held_def by blast
  then show ?thesis
  proof cases
    case 3
    then have "a \<in> snd ` set (ss_stash t)" by force
    then show ?thesis by (simp add: owned_def)
  qed (simp_all add: owned_hazard owned_limbo replaced_limbo)
qed

lemma kept_array:
  assumes "hz_kept g g' j t" "heap_ok g t" "a \<in> set (owned t)"
  shows "array_at g' a = array_at g a"
  using assms unfolding hz_kept_def heap_ok_def array_at_def by simp

lemma kept_own:
  assumes "hz_kept g g' j t" "heap_ok g t" "ss_hazard t \<noteq> None"
  shows "own_array g' t = own_array g t"
  using kept_array [OF assms(1,2) owned_hazard [of t "the (ss_hazard t)"]] assms(3) by (simp add: own_array_def)

lemma kept_sess:
  assumes k: "hz_kept g g' j t" and ok: "sess_ok g j t"
  shows "sess_ok g' j t"
proof -
  have f: "flags_ok g j t" and h: "heap_ok g t" and a: "array_ok g t" and n: "gens_ok g t" and p: "hz_at_ok g t (ss_at t)"
    using ok by (simp_all add: sess_ok_def)
  note own = kept_own [OF k h]
  have "flags_ok g' j t" using f k unfolding flags_ok_def hz_kept_def by blast
  moreover have "heap_ok g' t" using h k unfolding heap_ok_def hz_kept_def by simp
  moreover have "array_ok g' t" using a own unfolding array_ok_def by (cases "ss_hazard t") simp_all
  moreover have "gens_ok g' t" using n k unfolding gens_ok_def hz_kept_def by auto
  moreover have "hz_at_ok g' t (ss_at t)"
  proof (cases "at_active (ss_at t)")
    case True
    then have o: "own_array g' t = own_array g t" using own f unfolding flags_ok_def by blast
    have "hz_gen g \<le> hz_gen g'" using k by (simp add: hz_kept_def)
    moreover have "array_at g' new = array_at g new" if "limbo (ss_at t) = Some new" for new
      using kept_array [OF k h owned_limbo [OF that]] .
    ultimately show ?thesis using p o by (cases "ss_at t") auto
  qed (cases "ss_at t"; simp)
  ultimately show ?thesis by (simp add: sess_ok_def)
qed

lemma kept_look:
  assumes k: "hz_kept g g' b t" and h: "heap_ok g t" and ok: "look_ok g s b t"
  shows "look_ok g' s b t"
proof -
  note own = kept_own [OF k h]
  have w: "walk_ok g (ss_gen s) (ss_at s) b t" and sc: "scan_ok g (ss_at s) b t" and d: "disc_ok (ss_at s) (ss_stash s) b t"
    using ok by (simp_all add: look_ok_def)
  have w': "walk_ok g' (ss_gen s) (ss_at s) b t"
    using w own kept_array [OF k h held_owned] by (cases "ss_at s") auto
  have "scan_ok g' (ss_at s) b t" unfolding scan_ok_def
  proof (intro allI impI)
    fix r j assume l: "lock_of (ss_at s) = Some r" and c: "checked g' t r j"
    then have "checked g t r j" using own by (simp add: checked_def)
    then have b: "before g (ss_at s) b j" using sc l by (simp add: scan_ok_def)
    show "before g' (ss_at s) b j"
    proof (cases "\<exists>r c i u a m. ss_at s = EvWalk r c i u a m")
      case True
      then obtain r c i u a m where e: "ss_at s = EvWalk r c i u a m" by blast
      show ?thesis using b w kept_array [OF k h held_owned, of "ss_gen s" a] unfolding e by auto
    next
      case False
      then show ?thesis using b by (cases "ss_at s") auto
    qed
  qed
  then show ?thesis using w' d by (simp add: look_ok_def)
qed

lemma hz_inv_step:
  assumes inv: "hz_inv ss g" and i: "i < length ss"
    and others: "\<And>j. j < length ss \<Longrightarrow> j \<noteq> i \<Longrightarrow> hz_kept g g' j (ss ! j)"
    and self: "sess_ok g' i s'"
    and apart: "\<And>j. j < length ss \<Longrightarrow> j \<noteq> i \<Longrightarrow> apart_ok (ss ! i) (ss ! j) \<Longrightarrow> apart_ok s' (ss ! j)"
    and looks: "\<And>b. b < length ss \<Longrightarrow> look_ok g (ss ! i) b (ss ! b) \<Longrightarrow> look_ok g s' b (ss ! b)"
    and seen: "\<And>a t. look_ok g t i (ss ! i) \<Longrightarrow> a < length ss \<Longrightarrow> a = i \<and> t = s' \<or> a \<noteq> i \<and> t = ss ! a \<Longrightarrow> look_ok g' t i s'"
  shows "hz_inv (ss[i := s']) g'"
proof -
  have ok: "sess_ok g j (ss ! j)" if "j < length ss" for j using inv that by (simp add: hz_inv_def)
  have h: "heap_ok g (ss ! j)" if "j < length ss" for j using ok [OF that] by (simp add: sess_ok_def)
  have lk: "look_ok g (ss ! a) b (ss ! b)" if "a < length ss" "b < length ss" for a b using inv that by (simp add: hz_inv_def)
  have ap: "apart_ok (ss ! a) (ss ! b)" if "a < length ss" "b < length ss" "a \<noteq> b" for a b using inv that by (simp add: hz_inv_def)
  have "sess_ok g' j (ss[i := s'] ! j)" if j: "j < length ss" for j
    using self kept_sess [OF others [OF j] ok [OF j]] i by (cases "j = i") simp_all
  moreover have "apart_ok (ss[i := s'] ! a) (ss[i := s'] ! b)" if a: "a < length ss" and b: "b < length ss" and ne: "a \<noteq> b" for a b
  proof -
    consider "a = i" "b \<noteq> i" | "a \<noteq> i" "b = i" | "a \<noteq> i" "b \<noteq> i" using ne by blast
    then show ?thesis
    proof cases
      case 1
      then show ?thesis using apart [OF b 1(2) ap [OF i b]] i by simp
    next
      case 2
      then show ?thesis using apart [OF a 2(1) ap [OF i a]] i apart_sym by simp
    next
      case 3
      then show ?thesis using ap [OF a b ne] by simp
    qed
  qed
  moreover have "look_ok g' (ss[i := s'] ! a) b (ss[i := s'] ! b)" if a: "a < length ss" and b: "b < length ss" for a b
  proof -
    have l: "look_ok g s' c (ss ! c)" if "c < length ss" for c by (rule looks [OF that lk [OF i that]])
    consider "a = i" "b = i" | "a \<noteq> i" "b = i" | "a = i" "b \<noteq> i" | "a \<noteq> i" "b \<noteq> i" by blast
    then show ?thesis
    proof cases
      case 1
      then show ?thesis using seen [OF l [OF i], of i] i by simp
    next
      case 2
      then show ?thesis using seen [OF lk [OF a i], of a] a i by simp
    next
      case 3
      then show ?thesis using kept_look [OF others [OF b 3(2)] h [OF b] l [OF b]] i by simp
    next
      case 4
      then show ?thesis using kept_look [OF others [OF b 4(2)] h [OF b] lk [OF a b]] by simp
    qed
  qed
  ultimately show ?thesis by (simp add: hz_inv_def)
qed

text \<open>The fields that a step only reads.\<close>

definition same_fields :: "hz_session \<Rightarrow> hz_session \<Rightarrow> bool" where
  "same_fields s s' \<longleftrightarrow> ss_active s' = ss_active s \<and> ss_hazard s' = ss_hazard s \<and> ss_size s' = ss_size s \<and>
     ss_inuse s' = ss_inuse s \<and> ss_n s' = ss_n s \<and> ss_stash s' = ss_stash s \<and> ss_uses s' = ss_uses s"

lemma same_fields_own: "same_fields s s' \<Longrightarrow> hz_heap g' = hz_heap g \<Longrightarrow> own_array g' s' = own_array g s"
  by (simp add: same_fields_def own_array_def array_at_def)

lemma hz_invD:
  assumes "hz_inv ss g"
  shows "i < length ss \<Longrightarrow> sess_ok g i (ss ! i)" and "i < length ss \<Longrightarrow> j < length ss \<Longrightarrow> i \<noteq> j \<Longrightarrow> apart_ok (ss ! i) (ss ! j)"
    and "i < length ss \<Longrightarrow> j < length ss \<Longrightarrow> look_ok g (ss ! i) j (ss ! j)"
  using assms unfolding hz_inv_def by blast+

text \<open>A step that changes no array and no count, and only moves the thread.\<close>

lemma quiet_step:
  assumes inv: "hz_inv ss g" and i: "i < length ss" and same: "same_fields (ss ! i) s'"
    and heap: "hz_heap g' = hz_heap g" and gen: "hz_gen g \<le> hz_gen g'" and cnt: "hz_cnt g \<le> hz_cnt g'"
    and locks: "\<And>j r. j < length ss \<Longrightarrow> j \<noteq> i \<Longrightarrow> lock_of (ss_at (ss ! j)) = Some r \<Longrightarrow> hz_ref g r = RefLocked \<Longrightarrow> hz_ref g' r = RefLocked"
    and lock: "\<And>r. lock_of (ss_at s') = Some r \<Longrightarrow> hz_ref g' r = RefLocked \<and>
      (lock_of (ss_at (ss ! i)) = Some r \<or> (\<forall>j < length ss. j \<noteq> i \<longrightarrow> lock_of (ss_at (ss ! j)) \<noteq> Some r))"
    and view: "at_active (ss_at s') = at_active (ss_at (ss ! i))" "limbo (ss_at s') = limbo (ss_at (ss ! i))"
      "\<And>v a. replaced v a (ss_at (ss ! i)) \<Longrightarrow> v \<le> hz_gen g \<Longrightarrow> replaced v a (ss_at s')"
      "pend (ss_at s') = pend (ss_at (ss ! i))" "is_count (ss_at s') = is_count (ss_at (ss ! i))"
      "is_grow_size (ss_at s') = is_grow_size (ss_at (ss ! i))" "api_locked (ss_at s') \<longrightarrow> api_locked (ss_at (ss ! i))"
      "ss_at s' = Opening \<longrightarrow> ss_at (ss ! i) = Opening"
    and gens: "ss_gen s' \<le> hz_gen g'" "entered (ss_at s') \<longrightarrow> 0 < ss_gen s'"
    and at: "hz_at_ok g' s' (ss_at s')"
    and walks: "\<And>a. walks a (ss_at s') \<Longrightarrow> walks a (ss_at (ss ! i)) \<and> ss_gen s' = ss_gen (ss ! i) \<or> ss_gen s' \<le> hz_gen g \<and>
      (\<exists>j < length ss. ss_hazard (ss ! j) = Some a)"
    and looks: "\<And>b. b < length ss \<Longrightarrow> look_ok g (ss ! i) b (ss ! b) \<Longrightarrow> sess_ok g b (ss ! b) \<Longrightarrow> look_ok g s' b (ss ! b)"
  shows "hz_inv (ss[i := s']) g'"
proof (rule hz_inv_step [OF inv i])
  let ?s = "ss ! i"
  have ok: "sess_ok g i ?s" by (rule hz_invD(1) [OF inv i])
  have f: "flags_ok g i ?s" and h: "heap_ok g ?s" and a: "array_ok g ?s" and n: "gens_ok g ?s" using ok by (simp_all add: sess_ok_def)
  note own = same_fields_own [OF same heap]
  have eqs: "ss_active s' = ss_active ?s" "ss_hazard s' = ss_hazard ?s" "ss_size s' = ss_size ?s" "ss_inuse s' = ss_inuse ?s"
    "ss_n s' = ss_n ?s" "ss_stash s' = ss_stash ?s" "ss_uses s' = ss_uses ?s" using same by (simp_all add: same_fields_def)
  have owned: "owned s' = owned ?s" by (simp add: owned_def eqs view(2))
  have wp: "without_pend (ss_at s') = without_pend (ss_at ?s)" by (simp add: without_pend_def view(4) fun_eq_iff)
  show "hz_kept g g' j (ss ! j)" if "j < length ss" "j \<noteq> i" for j
    using that heap gen cnt locks unfolding hz_kept_def by auto
  show "sess_ok g' i s'" unfolding sess_ok_def
  proof (intro conjI)
    show "flags_ok g' i s'" using f cnt view(1,8) unfolding flags_ok_def eqs by auto
    show "heap_ok g' s'" using h unfolding heap_ok_def owned heap .
    show "array_ok g' s'" using a unfolding array_ok_def Let_def own eqs wp view(5,6) .
    show "gens_ok g' s'" using n gens lock gen unfolding gens_ok_def by auto
    show "hz_at_ok g' s' (ss_at s')" by (rule at)
  qed
  show "apart_ok s' (ss ! j)" if j: "j < length ss" "j \<noteq> i" "apart_ok ?s (ss ! j)" for j
    using j lock view(7) unfolding apart_ok_def owned by (cases "lock_of (ss_at s')") auto
  show "look_ok g s' b (ss ! b)" if "b < length ss" "look_ok g ?s b (ss ! b)" for b
    using looks that hz_invD(1) [OF inv that(1)] by blast
  show "look_ok g' t i s'" if t: "look_ok g t i ?s" "c < length ss" "c = i \<and> t = s' \<or> c \<noteq> i \<and> t = ss ! c" for c t
  proof -
    have w: "walk_ok g (ss_gen t) (ss_at t) i ?s" and sc: "scan_ok g (ss_at t) i ?s" and d: "disc_ok (ss_at t) (ss_stash t) i ?s"
      using t(1) by (simp_all add: look_ok_def)
    have stash: "snd ` set (ss_stash t) \<subseteq> set (owned (ss ! c))"
      using t(3) eqs(6) by (auto simp: owned_def)
    have tg: "ss_gen t \<le> hz_gen g" if "walks a (ss_at t)" for a
    proof (cases "c = i")
      case True
      then have "t = s'" using t(3) by blast
      then show ?thesis using walks [of a] that n unfolding gens_ok_def by auto
    next
      case False
      then have "t = ss ! c" using t(3) by blast
      then show ?thesis using hz_invD(1) [OF inv t(2)] by (simp add: sess_ok_def gens_ok_def)
    qed
    have aa: "array_at g' = array_at g" by (simp add: array_at_def heap fun_eq_iff)
    have "walk_ok g' (ss_gen t) (ss_at t) i s'"
    proof (cases "ss_at t")
      case (EvWalk r x j u b k)
      have "held (ss_gen t) b s'" if "held (ss_gen t) b ?s"
        using that view(3) [of "ss_gen t" b] tg [of b] unfolding held_def eqs EvWalk by auto
      then show ?thesis using w unfolding EvWalk by (simp add: aa)
    qed (use w own eqs in simp_all)
    moreover have "scan_ok g' (ss_at t) i s'"
    proof -
      have "checked g' s' = checked g ?s" unfolding checked_def eqs own view(4) by (simp add: fun_eq_iff)
      moreover have "before g' (ss_at t) = before g (ss_at t)" by (cases "ss_at t") (auto simp: fun_eq_iff aa)
      ultimately show ?thesis using sc by (simp add: scan_ok_def)
    qed
    moreover have "disc_ok (ss_at t) (ss_stash t) i s'" unfolding disc_ok_def
    proof (intro ballI impI)
      fix b assume b: "b \<in> snd ` set (ss_stash t)" "walks b (ss_at s')"
      from walks [OF b(2)] show "counted (ss_at t) i (ss_gen s')"
      proof (elim disjE conjE exE)
        assume "walks b (ss_at ?s)" "ss_gen s' = ss_gen ?s"
        then show ?thesis using d b(1) by (auto simp: disc_ok_def)
      next
        fix j assume j: "j < length ss" "ss_hazard (ss ! j) = Some b"
        have bo: "b \<in> set (owned (ss ! j))" by (rule owned_hazard [OF j(2)])
        have bc: "b \<in> set (owned (ss ! c))" using stash b(1) by blast
        have "j = c"
        proof (rule ccontr)
          assume "j \<noteq> c"
          then show False using hz_invD(2) [OF inv j(1) t(2)] bo bc unfolding apart_ok_def by blast
        qed
        have "distinct (owned (ss ! c))" using hz_invD(1) [OF inv t(2)] by (simp add: sess_ok_def heap_ok_def)
        moreover have "b \<in> snd ` set (ss_stash (ss ! c))" using b(1) t(3) eqs(6) by auto
        ultimately have False using j(2) \<open>j = c\<close> unfolding owned_def opt_list_def by (auto split: option.splits)
        then show ?thesis ..
      qed
    qed
    ultimately show ?thesis by (simp add: look_ok_def)
  qed
qed

text \<open>A step that only moves the thread.\<close>

lemma moved_step:
  assumes inv: "hz_inv ss g" and i: "i < length ss" and p: "ss_at (ss ! i) = p"
    and lock: "lock_of p' = None \<or> lock_of p' = lock_of p"
    and view: "at_active p' = at_active p" "limbo p' = limbo p" "\<And>v a. replaced v a p \<Longrightarrow> replaced v a p'" "pend p' = pend p"
      "is_count p' = is_count p" "is_grow_size p' = is_grow_size p" "api_locked p' \<longrightarrow> api_locked p" "p' = Opening \<longrightarrow> p = Opening"
    and entered: "entered p' \<longrightarrow> 0 < ss_gen (ss ! i)"
    and at: "hz_at_ok g (ss ! i) p \<Longrightarrow> hz_at_ok g (ss ! i) p'"
    and walks: "\<And>a. walks a p' \<Longrightarrow> walks a p \<or> (\<exists>j < length ss. ss_hazard (ss ! j) = Some a)"
    and looks: "\<And>b. b < length ss \<Longrightarrow> sess_ok g b (ss ! b) \<Longrightarrow> walk_ok g (ss_gen (ss ! i)) p b (ss ! b) \<Longrightarrow> scan_ok g p b (ss ! b) \<Longrightarrow>
      disc_ok p (ss_stash (ss ! i)) b (ss ! b) \<Longrightarrow>
      walk_ok g (ss_gen (ss ! i)) p' b (ss ! b) \<and> scan_ok g p' b (ss ! b) \<and> disc_ok p' (ss_stash (ss ! i)) b (ss ! b)"
  shows "hz_inv (ss[i := (ss ! i)\<lparr>ss_at := p'\<rparr>]) g"
proof (rule quiet_step [OF inv i])
  let ?s = "ss ! i"
  have ok: "sess_ok g i ?s" by (rule hz_invD(1) [OF inv i])
  then have n: "gens_ok g ?s" and a: "hz_at_ok g ?s p" using p by (simp_all add: sess_ok_def)
  show "same_fields ?s (?s\<lparr>ss_at := p'\<rparr>)" by (simp add: same_fields_def)
  show "hz_at_ok g (?s\<lparr>ss_at := p'\<rparr>) (ss_at (?s\<lparr>ss_at := p'\<rparr>))" using at [OF a] by (cases p') (simp_all add: own_array_def)
  show "hz_ref g r = RefLocked \<and> (lock_of (ss_at ?s) = Some r \<or> (\<forall>j < length ss. j \<noteq> i \<longrightarrow> lock_of (ss_at (ss ! j)) \<noteq> Some r))"
    if "lock_of (ss_at (?s\<lparr>ss_at := p'\<rparr>)) = Some r" for r
    using that lock n p unfolding gens_ok_def by auto
  show "look_ok g (?s\<lparr>ss_at := p'\<rparr>) b (ss ! b)" if "b < length ss" "look_ok g ?s b (ss ! b)" "sess_ok g b (ss ! b)" for b
    using looks [OF that(1,3)] that(2) p unfolding look_ok_def by simp
  show "walks a (ss_at ?s) \<and> ss_gen (?s\<lparr>ss_at := p'\<rparr>) = ss_gen ?s \<or> ss_gen (?s\<lparr>ss_at := p'\<rparr>) \<le> hz_gen g \<and> (\<exists>j < length ss. ss_hazard (ss ! j) = Some a)"
    if "walks a (ss_at (?s\<lparr>ss_at := p'\<rparr>))" for a
    using walks [of a] that p n unfolding gens_ok_def by auto
  show "ss_gen (?s\<lparr>ss_at := p'\<rparr>) \<le> hz_gen g" using n by (simp add: gens_ok_def)
qed (use assms in simp_all)

text \<open>The thread goes to a place that looks at no other session.\<close>

fun blind :: "hz_place \<Rightarrow> bool" where
  "blind (EvScan r c i) = False"
| "blind (EvInuse r c i) = False"
| "blind (EvArray r c i u) = False"
| "blind (EvWalk r c i u a k) = False"
| "blind (EvLeave r f) = False"
| "blind (Evicting r) = False"
| "blind (DiscGen k c) = False"
| "blind (DiscScan k c o' i) = False"
| "blind (DiscRead k c o' i) = False"
| "blind (DiscFree k o') = False"
| "blind _ = True"

lemma blind_look: "blind p \<Longrightarrow> walk_ok g v p b t \<and> scan_ok g p b t \<and> disc_ok p st b t"
  by (cases p) (simp_all add: scan_ok_def disc_ok_def)

lemma blind_walks: "blind p \<Longrightarrow> \<not> walks a p"
  by (cases p) simp_all

lemma blind_step:
  assumes inv: "hz_inv ss g" and i: "i < length ss" and p: "ss_at (ss ! i) = p" and blind: "blind p'"
    and lock: "lock_of p' = None \<or> lock_of p' = lock_of p"
    and view: "at_active p' = at_active p" "limbo p' = limbo p" "\<And>v a. replaced v a p \<Longrightarrow> replaced v a p'" "pend p' = pend p"
      "is_count p' = is_count p" "is_grow_size p' = is_grow_size p" "api_locked p' \<longrightarrow> api_locked p" "p' = Opening \<longrightarrow> p = Opening"
    and entered: "entered p' \<longrightarrow> 0 < ss_gen (ss ! i)"
    and at: "hz_at_ok g (ss ! i) p \<Longrightarrow> hz_at_ok g (ss ! i) p'"
  shows "hz_inv (ss[i := (ss ! i)\<lparr>ss_at := p'\<rparr>]) g"
  by (rule moved_step [OF inv i p lock view entered at]) (use blind_look [OF blind] blind_walks [OF blind] in blast)+

lemma sess_okD:
  assumes "sess_ok g j s"
  shows "flags_ok g j s" "heap_ok g s" "array_ok g s" "gens_ok g s" "hz_at_ok g s (ss_at s)"
  using assms by (simp_all add: sess_ok_def)

text \<open>An active session is one of those counted.\<close>

lemma active_counted: "sess_ok g b t \<Longrightarrow> walks a (ss_at t) \<Longrightarrow> b < hz_cnt g \<and> ss_active t \<and> 0 < ss_gen t"
  unfolding sess_ok_def flags_ok_def gens_ok_def by (cases "ss_at t") auto

lemma entries_mem: "r \<in># entries A \<longleftrightarrow> Some r \<in> set A"
  unfolding entries_def by force

lemma checked_uses:
  assumes "array_ok g t" "checked g t r k"
  shows "r \<in> set (ss_uses t)" and "k < ss_inuse t"
proof -
  let ?A = "own_array g t"
  have h: "ss_hazard t \<noteq> None" "k < length ?A" "?A ! k = Some r" "pend (ss_at t) \<noteq> Some k"
    using assms(2) by (simp_all add: checked_def)
  have e: "entries (without_pend (ss_at t) ?A) = mset (ss_uses t)" and u: "\<forall>k < length ?A. ?A ! k \<noteq> None \<longrightarrow> k < ss_inuse t"
    using assms(1) h(1) unfolding array_ok_def Let_def by blast+
  show "k < ss_inuse t" using u h by simp
  have "without_pend (ss_at t) ?A ! k = Some r" "k < length (without_pend (ss_at t) ?A)"
    using h(2-4) by (auto simp: without_pend_def split: option.splits)
  then have "Some r \<in> set (without_pend (ss_at t) ?A)" by (metis nth_mem)
  then have "r \<in># mset (ss_uses t)" unfolding e [symmetric] entries_mem .
  then show "r \<in> set (ss_uses t)" by simp
qed

lemma checked_counted:
  assumes "sess_ok g b t" "checked g t r k"
  shows "b < hz_cnt g" and "ss_active t" and "k < ss_inuse t" and "ss_hazard t \<noteq> None" and "ss_inuse t \<le> length (own_array g t)"
proof -
  note d = sess_okD [OF assms(1)]
  note c = checked_uses [OF d(3) assms(2)]
  show k: "k < ss_inuse t" by (rule c(2))
  have "ss_uses t \<noteq> []" using c(1) by auto
  then show "ss_active t" using d(1) unfolding flags_ok_def by blast
  then show "b < hz_cnt g" using d(1) unfolding flags_ok_def by blast
  show h: "ss_hazard t \<noteq> None" using assms(2) by (simp add: checked_def)
  show "ss_inuse t \<le> length (own_array g t)" using d(3) h unfolding array_ok_def Let_def by auto
qed

lemma inuse_length: "array_ok g t \<Longrightarrow> ss_hazard t \<noteq> None \<Longrightarrow> ss_inuse t \<le> length (own_array g t)"
  unfolding array_ok_def Let_def by auto

lemma find_Some: "List.find P xs = Some x \<Longrightarrow> P x \<and> x \<in> set xs"
  by (induction xs) (auto split: if_splits)

lemma inv_at: "hz_inv ss g \<Longrightarrow> i < length ss \<Longrightarrow> hz_at_ok g (ss ! i) (ss_at (ss ! i))"
  using hz_invD(1) sess_okD(5) by blast

lemma inv_gens: "hz_inv ss g \<Longrightarrow> i < length ss \<Longrightarrow> gens_ok g (ss ! i)"
  using hz_invD(1) sess_okD(4) by blast

lemma move_set_search:
  assumes "hz_inv ss g" "i < length ss" "ss_at (ss ! i) = SetTake r"
    and "hazard_slot (ss_n (ss ! i)) (ss_inuse (ss ! i)) (own_array g (ss ! i)) = Some k" "ss_n (ss ! i) < ss_inuse (ss ! i)"
  shows "hz_inv (ss[i := (ss ! i)\<lparr>ss_at := SetWrite r k\<rparr>]) g"
  by (rule blind_step [OF assms(1-3)])
    (use find_Some [OF assms(4) [unfolded hazard_slot_def]] assms(5) in auto)

lemma move_gen_read:
  assumes "hz_inv ss g" "i < length ss" "ss_at (ss ! i) = EvEnter r"
  shows "hz_inv (ss[i := (ss ! i)\<lparr>ss_at := EvPublish r (hz_gen g)\<rparr>]) g"
  by (rule blind_step [OF assms]) (use inv_gens [OF assms(1,2)] in \<open>simp_all add: gens_ok_def\<close>)

lemma move_gen_again:
  assumes "hz_inv ss g" "i < length ss" "ss_at (ss ! i) = EvAgain r"
  shows "hz_inv (ss[i := (ss ! i)\<lparr>ss_at := (if ss_gen (ss ! i) = hz_gen g then EvCnt r else EvEnter r)\<rparr>]) g"
  by (cases "ss_gen (ss ! i) = hz_gen g"; simp only: if_True if_False; rule blind_step [OF assms])
    (use inv_at [OF assms(1,2)] assms(3) in simp_all)

subsection \<open>The thread that looks for a hazard pointer\<close>

lemma move_check_cnt:
  assumes "hz_inv ss g" "i < length ss" "ss_at (ss ! i) = EvCnt r"
  shows "hz_inv (ss[i := (ss ! i)\<lparr>ss_at := EvScan r (hz_cnt g) 0\<rparr>]) g"
  by (rule moved_step [OF assms])
    (use inv_gens [OF assms(1,2)] assms(3) checked_counted(1) in \<open>auto simp: gens_ok_def scan_ok_def disc_ok_def\<close>)

lemma move_check_skip:
  assumes "hz_inv ss g" "i < length ss" "ss_at (ss ! i) = EvScan r c j" "\<not> ss_active (ss ! j)"
  shows "hz_inv (ss[i := (ss ! i)\<lparr>ss_at := EvScan r c (j + 1)\<rparr>]) g"
proof (rule moved_step [OF assms(1-3)])
  fix b assume b: "sess_ok g b (ss ! b)" "scan_ok g (EvScan r c j) b (ss ! b)"
  have "scan_ok g (EvScan r c (j + 1)) b (ss ! b)" unfolding scan_ok_def
  proof (intro allI impI)
    fix r' k assume k: "lock_of (EvScan r c (j + 1)) = Some r'" "checked g (ss ! b) r' k"
    then have "b < c" "j \<le> b" using b(2) by (auto simp: scan_ok_def)
    moreover have "b \<noteq> j" using checked_counted(2) [OF b(1) k(2)] assms(4) by auto
    ultimately show "before g (EvScan r c (j + 1)) b k" by simp
  qed
  then show "walk_ok g (ss_gen (ss ! i)) (EvScan r c (j + 1)) b (ss ! b) \<and> scan_ok g (EvScan r c (j + 1)) b (ss ! b) \<and>
      disc_ok (EvScan r c (j + 1)) (ss_stash (ss ! i)) b (ss ! b)" by (simp add: disc_ok_def)
qed (use inv_gens [OF assms(1,2)] assms(3) in \<open>simp_all add: gens_ok_def\<close>)

lemma move_check_active:
  assumes "hz_inv ss g" "i < length ss" "ss_at (ss ! i) = EvScan r c j" "ss_active (ss ! j)"
  shows "hz_inv (ss[i := (ss ! i)\<lparr>ss_at := EvInuse r c j\<rparr>]) g"
  by (rule moved_step [OF assms(1-3)])
    (use inv_gens [OF assms(1,2)] assms(3,4) sess_okD(1) in \<open>auto simp: gens_ok_def scan_ok_def disc_ok_def flags_ok_def\<close>)

lemma move_check_inuse:
  assumes "hz_inv ss g" "i < length ss" "ss_at (ss ! i) = EvInuse r c j"
  shows "hz_inv (ss[i := (ss ! i)\<lparr>ss_at := EvArray r c j (ss_inuse (ss ! j))\<rparr>]) g"
proof (rule moved_step [OF assms])
  fix b assume b: "sess_ok g b (ss ! b)" "scan_ok g (EvInuse r c j) b (ss ! b)" "walk_ok g (ss_gen (ss ! i)) (EvInuse r c j) b (ss ! b)"
  have "walk_ok g (ss_gen (ss ! i)) (EvArray r c j (ss_inuse (ss ! j))) b (ss ! b)"
    using b(3) inuse_length [OF sess_okD(3) [OF b(1)]] by auto
  moreover have "scan_ok g (EvArray r c j (ss_inuse (ss ! j))) b (ss ! b)" unfolding scan_ok_def
  proof (intro allI impI)
    fix r' k assume k: "lock_of (EvArray r c j (ss_inuse (ss ! j))) = Some r'" "checked g (ss ! b) r' k"
    then have "b < c" "j \<le> b" using b(2) by (auto simp: scan_ok_def)
    then show "before g (EvArray r c j (ss_inuse (ss ! j))) b k" using checked_counted(3) [OF b(1) k(2)] by (cases "b = j") auto
  qed
  ultimately show "walk_ok g (ss_gen (ss ! i)) (EvArray r c j (ss_inuse (ss ! j))) b (ss ! b) \<and> scan_ok g (EvArray r c j (ss_inuse (ss ! j))) b (ss ! b) \<and>
      disc_ok (EvArray r c j (ss_inuse (ss ! j))) (ss_stash (ss ! i)) b (ss ! b)" by (simp add: disc_ok_def)
qed (use inv_gens [OF assms(1,2)] assms(3) in \<open>simp_all add: gens_ok_def\<close>)

lemma move_check_array:
  assumes "hz_inv ss g" "i < length ss" "ss_at (ss ! i) = EvArray r c j u" and j: "j < length ss"
  shows "hz_inv (ss[i := (ss ! i)\<lparr>ss_at := EvWalk r c j u (the (ss_hazard (ss ! j))) 0\<rparr>]) g"
proof (rule moved_step [OF assms(1-3)])
  let ?a = "the (ss_hazard (ss ! j))"
  have w: "walk_ok g (ss_gen (ss ! i)) (EvArray r c j u) j (ss ! j)"
    using hz_invD(3) [OF assms(1,2) j] assms(3) by (simp add: look_ok_def)
  then have h: "ss_hazard (ss ! j) = Some ?a" by auto
  fix b assume b: "sess_ok g b (ss ! b)" "scan_ok g (EvArray r c j u) b (ss ! b)"
  have "walk_ok g (ss_gen (ss ! i)) (EvWalk r c j u ?a 0) b (ss ! b)"
    using w h by (auto simp: held_def own_array_def)
  moreover have "scan_ok g (EvWalk r c j u ?a 0) b (ss ! b)" unfolding scan_ok_def
  proof (intro allI impI)
    fix r' k assume k: "lock_of (EvWalk r c j u ?a 0) = Some r'" "checked g (ss ! b) r' k"
    then have "before g (EvArray r c j u) b k" using b(2) by (auto simp: scan_ok_def)
    then show "before g (EvWalk r c j u ?a 0) b k" using k by (auto simp: checked_def own_array_def)
  qed
  ultimately show "walk_ok g (ss_gen (ss ! i)) (EvWalk r c j u ?a 0) b (ss ! b) \<and> scan_ok g (EvWalk r c j u ?a 0) b (ss ! b) \<and>
      disc_ok (EvWalk r c j u ?a 0) (ss_stash (ss ! i)) b (ss ! b)" by (simp add: disc_ok_def)
next
  fix a assume "walks a (EvWalk r c j u (the (ss_hazard (ss ! j))) 0)"
  moreover have "walk_ok g (ss_gen (ss ! i)) (EvArray r c j u) j (ss ! j)"
    using hz_invD(3) [OF assms(1,2) j] assms(3) by (simp add: look_ok_def)
  ultimately show "walks a (EvArray r c j u) \<or> (\<exists>j < length ss. ss_hazard (ss ! j) = Some a)" using j by auto
qed (use inv_gens [OF assms(1,2)] assms(3) in \<open>simp_all add: gens_ok_def\<close>)

lemma move_check_slot:
  assumes "hz_inv ss g" "i < length ss" "ss_at (ss ! i) = EvWalk r c j u a k"
  shows "hz_inv (ss[i := (ss ! i)\<lparr>ss_at := (if array_at g a ! k = Some r then EvLeave r True else EvWalk r c j u a (k + 1))\<rparr>]) g"
proof (cases "array_at g a ! k = Some r")
  case True
  show ?thesis unfolding if_P [OF True]
    by (rule moved_step [OF assms])
      (use inv_gens [OF assms(1,2)] assms(3) in \<open>simp_all add: gens_ok_def scan_ok_def disc_ok_def\<close>)
next
  case False
  show ?thesis unfolding if_not_P [OF False]
  proof (rule moved_step [OF assms])
    fix b assume b: "scan_ok g (EvWalk r c j u a k) b (ss ! b)" "walk_ok g (ss_gen (ss ! i)) (EvWalk r c j u a k) b (ss ! b)"
    have "scan_ok g (EvWalk r c j u a (k + 1)) b (ss ! b)" unfolding scan_ok_def
    proof (intro allI impI)
      fix r' m assume m: "lock_of (EvWalk r c j u a (k + 1)) = Some r'" "checked g (ss ! b) r' m"
      then have bf: "before g (EvWalk r c j u a k) b m" using b(1) by (auto simp: scan_ok_def)
      moreover have "j = b \<longrightarrow> m \<noteq> k" if "\<not> j < b" using bf False that by auto
      ultimately show "before g (EvWalk r c j u a (k + 1)) b m" by auto
    qed
    then show "walk_ok g (ss_gen (ss ! i)) (EvWalk r c j u a (k + 1)) b (ss ! b) \<and> scan_ok g (EvWalk r c j u a (k + 1)) b (ss ! b) \<and>
      disc_ok (EvWalk r c j u a (k + 1)) (ss_stash (ss ! i)) b (ss ! b)" using b(2) by (simp add: disc_ok_def)
  qed (use inv_gens [OF assms(1,2)] assms(3) in \<open>simp_all add: gens_ok_def\<close>)
qed

lemma move_check_next:
  assumes "hz_inv ss g" "i < length ss" "ss_at (ss ! i) = EvWalk r c j u a k" "\<not> k < u"
  shows "hz_inv (ss[i := (ss ! i)\<lparr>ss_at := EvScan r c (j + 1)\<rparr>]) g"
proof (rule moved_step [OF assms(1-3)])
  fix b assume b: "scan_ok g (EvWalk r c j u a k) b (ss ! b)"
  have "scan_ok g (EvScan r c (j + 1)) b (ss ! b)"
    using b assms(4) unfolding scan_ok_def by fastforce
  then show "walk_ok g (ss_gen (ss ! i)) (EvScan r c (j + 1)) b (ss ! b) \<and> scan_ok g (EvScan r c (j + 1)) b (ss ! b) \<and>
      disc_ok (EvScan r c (j + 1)) (ss_stash (ss ! i)) b (ss ! b)" by (simp add: disc_ok_def)
qed (use inv_gens [OF assms(1,2)] assms(3) in \<open>simp_all add: gens_ok_def\<close>)

lemma move_check_end:
  assumes "hz_inv ss g" "i < length ss" "ss_at (ss ! i) = EvScan r c j" "\<not> j < c"
  shows "hz_inv (ss[i := (ss ! i)\<lparr>ss_at := EvLeave r False\<rparr>]) g"
  by (rule moved_step [OF assms(1-3)])
    (use inv_gens [OF assms(1,2)] assms(3,4) in \<open>auto simp: gens_ok_def scan_ok_def disc_ok_def\<close>)

subsection \<open>The oldest generation in use\<close>

lemma move_disc_gen:
  assumes "hz_inv ss g" "i < length ss" "ss_at (ss ! i) = DiscGen k c"
  shows "hz_inv (ss[i := (ss ! i)\<lparr>ss_at := DiscScan k c (hz_gen g) 0\<rparr>]) g"
  by (rule moved_step [OF assms]) (auto simp: scan_ok_def disc_ok_def)

lemma move_disc_cnt:
  assumes "hz_inv ss g" "i < length ss" "ss_at (ss ! i) = DiscCnt k"
  shows "hz_inv (ss[i := (ss ! i)\<lparr>ss_at := DiscGen k (hz_cnt g)\<rparr>]) g"
  by (rule moved_step [OF assms]) (auto simp: scan_ok_def disc_ok_def dest: active_counted)

lemma move_disc_skip:
  assumes "hz_inv ss g" "i < length ss" "ss_at (ss ! i) = DiscScan k c old j" "\<not> ss_active (ss ! j)"
  shows "hz_inv (ss[i := (ss ! i)\<lparr>ss_at := DiscScan k c old (j + 1)\<rparr>]) g"
proof (rule moved_step [OF assms(1-3)])
  fix b assume b: "sess_ok g b (ss ! b)" "disc_ok (DiscScan k c old j) (ss_stash (ss ! i)) b (ss ! b)"
  have "disc_ok (DiscScan k c old (j + 1)) (ss_stash (ss ! i)) b (ss ! b)" unfolding disc_ok_def
  proof (intro ballI impI)
    fix a assume a: "a \<in> snd ` set (ss_stash (ss ! i))" "walks a (ss_at (ss ! b))"
    then have c: "b < c \<and> (j \<le> b \<or> old \<le> ss_gen (ss ! b))" using b(2) by (auto simp: disc_ok_def)
    moreover have "b \<noteq> j" using active_counted [OF b(1) a(2)] assms(4) by auto
    ultimately show "counted (DiscScan k c old (j + 1)) b (ss_gen (ss ! b))" by auto
  qed
  then show "walk_ok g (ss_gen (ss ! i)) (DiscScan k c old (j + 1)) b (ss ! b) \<and> scan_ok g (DiscScan k c old (j + 1)) b (ss ! b) \<and>
      disc_ok (DiscScan k c old (j + 1)) (ss_stash (ss ! i)) b (ss ! b)" by (simp add: scan_ok_def)
qed simp_all

lemma move_disc_active:
  assumes "hz_inv ss g" "i < length ss" "ss_at (ss ! i) = DiscScan k c old j"
  shows "hz_inv (ss[i := (ss ! i)\<lparr>ss_at := DiscRead k c old j\<rparr>]) g"
  by (rule moved_step [OF assms]) (auto simp: scan_ok_def disc_ok_def)

lemma move_disc_read:
  assumes "hz_inv ss g" "i < length ss" "ss_at (ss ! i) = DiscRead k c old j" and v: "v = ss_gen (ss ! j)"
  shows "hz_inv (ss[i := (ss ! i)\<lparr>ss_at := DiscScan k c (if v \<noteq> 0 \<and> v < old then v else old) (j + 1)\<rparr>]) g"
    (is "hz_inv (ss[i := (ss ! i)\<lparr>ss_at := DiscScan k c ?old (j + 1)\<rparr>]) g")
proof (rule moved_step [OF assms(1-3)])
  fix b assume b: "b < length ss" "sess_ok g b (ss ! b)" "disc_ok (DiscRead k c old j) (ss_stash (ss ! i)) b (ss ! b)"
  have "disc_ok (DiscScan k c ?old (j + 1)) (ss_stash (ss ! i)) b (ss ! b)" unfolding disc_ok_def
  proof (intro ballI impI)
    fix a assume a: "a \<in> snd ` set (ss_stash (ss ! i))" "walks a (ss_at (ss ! b))"
    then have c: "b < c \<and> (j \<le> b \<or> old \<le> ss_gen (ss ! b))" using b(3) by (auto simp: disc_ok_def)
    have "?old \<le> ss_gen (ss ! b)" if "b = j" using active_counted [OF b(2) a(2)] that v by auto
    moreover have "?old \<le> old" by simp
    ultimately show "counted (DiscScan k c ?old (j + 1)) b (ss_gen (ss ! b))"
      using c by (cases "b = j") (auto simp del: if_split_asm)
  qed
  then show "walk_ok g (ss_gen (ss ! i)) (DiscScan k c ?old (j + 1)) b (ss ! b) \<and> scan_ok g (DiscScan k c ?old (j + 1)) b (ss ! b) \<and>
      disc_ok (DiscScan k c ?old (j + 1)) (ss_stash (ss ! i)) b (ss ! b)" by (simp add: scan_ok_def)
qed simp_all

lemma move_disc_end:
  assumes "hz_inv ss g" "i < length ss" "ss_at (ss ! i) = DiscScan k c old j" "\<not> j < c"
  shows "hz_inv (ss[i := (ss ! i)\<lparr>ss_at := DiscFree k old\<rparr>]) g"
  by (rule moved_step [OF assms(1-3)]) (use assms(4) in \<open>auto simp: scan_ok_def disc_ok_def\<close>)

text \<open>A step that moves the thread, and changes the state of a page or the thread's generation.\<close>

lemma set_ref_simps [simp]:
  "hz_heap (set_ref r v g) = hz_heap g" "hz_gen (set_ref r v g) = hz_gen g" "hz_cnt (set_ref r v g) = hz_cnt g"
  "hz_ref (set_ref r v g) = (hz_ref g)(r := v)" "array_at (set_ref r v g) = array_at g" "own_array (set_ref r v g) = own_array g"
  by (simp_all add: set_ref_def array_at_def own_array_def fun_eq_iff)

lemma moved_fields: "same_fields s (s\<lparr>ss_at := p\<rparr>)" "same_fields s (s\<lparr>ss_gen := v, ss_at := p\<rparr>)"
  by (simp_all add: same_fields_def)

lemma own_moved [simp]: "own_array g (s\<lparr>ss_at := p\<rparr>) = own_array g s" "own_array g (s\<lparr>ss_gen := v, ss_at := p\<rparr>) = own_array g s"
  by (simp_all add: own_array_def)

lemma move_lock:
  assumes inv: "hz_inv ss g" and i: "i < length ss" and at: "ss_at (ss ! i) = Idle" and unlocked: "hz_ref g r \<noteq> RefLocked"
    and p: "p = EvEnter r \<or> p = Other r \<or> p = Clear r True \<and> r \<in> set (ss_uses (ss ! i))"
  shows "hz_inv (ss[i := (ss ! i)\<lparr>ss_at := p\<rparr>]) (set_ref r RefLocked g)"
proof (rule quiet_step [OF inv i moved_fields(1)])
  have free: "lock_of (ss_at (ss ! j)) \<noteq> Some r" if "j < length ss" for j
    using inv_gens [OF inv that] unlocked unfolding gens_ok_def by blast
  show "hz_ref (set_ref r RefLocked g) q = RefLocked \<and> (lock_of (ss_at (ss ! i)) = Some q \<or> (\<forall>j < length ss. j \<noteq> i \<longrightarrow> lock_of (ss_at (ss ! j)) \<noteq> Some q))"
    if "lock_of (ss_at ((ss ! i)\<lparr>ss_at := p\<rparr>)) = Some q" for q
    using that p free by auto
  show "look_ok g ((ss ! i)\<lparr>ss_at := p\<rparr>) b (ss ! b)" for b
    using p blind_look [of p] unfolding look_ok_def by auto
qed (use at p inv_gens [OF inv i] in \<open>auto simp: gens_ok_def\<close>)

lemma move_unlock:
  assumes inv: "hz_inv ss g" and i: "i < length ss" and at: "ss_at (ss ! i) = EvBusy r \<or> ss_at (ss ! i) = Evicting r \<or> ss_at (ss ! i) = Other r"
  shows "hz_inv (ss[i := (ss ! i)\<lparr>ss_at := Idle\<rparr>]) (set_ref r v g)"
proof (rule quiet_step [OF inv i moved_fields(1)])
  have l: "lock_of (ss_at (ss ! i)) = Some r" using at by auto
  show "hz_ref (set_ref r v g) q = RefLocked"
    if "j < length ss" "j \<noteq> i" "lock_of (ss_at (ss ! j)) = Some q" "hz_ref g q = RefLocked" for j q
    using that hz_invD(2) [OF inv i that(1)] l unfolding apart_ok_def by auto
qed (use at inv_gens [OF inv i] in \<open>auto simp: gens_ok_def look_ok_def scan_ok_def disc_ok_def\<close>)

lemma move_gen_publish:
  assumes inv: "hz_inv ss g" and i: "i < length ss" and at: "ss_at (ss ! i) = EvPublish r v"
  shows "hz_inv (ss[i := (ss ! i)\<lparr>ss_gen := v, ss_at := EvAgain r\<rparr>]) g"
  by (rule quiet_step [OF inv i moved_fields(2)])
    (use at inv_gens [OF inv i] inv_at [OF inv i] in \<open>auto simp: gens_ok_def look_ok_def scan_ok_def disc_ok_def\<close>)

lemma move_gen_leave:
  assumes inv: "hz_inv ss g" and i: "i < length ss" and at: "ss_at (ss ! i) = EvLeave r found"
  shows "hz_inv (ss[i := (ss ! i)\<lparr>ss_gen := 0, ss_at := (if found then EvBusy r else Evicting r)\<rparr>]) g"
  by (cases found; simp only: if_True if_False; rule quiet_step [OF inv i moved_fields(2)])
    (use at inv_gens [OF inv i] in \<open>auto simp: gens_ok_def look_ok_def scan_ok_def disc_ok_def\<close>)

lemma move_grow_gen:
  assumes inv: "hz_inv ss g" and i: "i < length ss" and at: "ss_at (ss ! i) = GrowGen r old"
  shows "hz_inv (ss[i := (ss ! i)\<lparr>ss_at := GrowStash r (hz_gen g + 1) old\<rparr>]) (g\<lparr>hz_gen := hz_gen g + 1\<rparr>)"
  by (rule quiet_step [OF inv i moved_fields(1)])
    (use at inv_gens [OF inv i] inv_at [OF inv i] in \<open>auto simp: gens_ok_def look_ok_def scan_ok_def disc_ok_def\<close>)

text \<open>A step that changes the thread's own session and array, at a place where it looks at no other session.\<close>

lemma own_step:
  assumes inv: "hz_inv ss g" and i: "i < length ss" and blind: "blind (ss_at s')"
    and heap: "length (hz_heap g) \<le> length (hz_heap g')" "\<And>a. a < length (hz_heap g) \<Longrightarrow> a \<notin> set (owned (ss ! i)) \<Longrightarrow> hz_heap g' ! a = hz_heap g ! a"
    and gen: "hz_gen g' = hz_gen g" "hz_ref g' = hz_ref g"
    and cnt: "\<And>j. j < length ss \<Longrightarrow> j \<noteq> i \<Longrightarrow> ss_active (ss ! j) \<or> ss_at (ss ! j) = Opening \<Longrightarrow> j < hz_cnt g \<Longrightarrow> j < hz_cnt g'"
    and owned: "set (owned s') \<subseteq> set (owned (ss ! i)) \<union> {a. length (hz_heap g) \<le> a}"
    and lock: "lock_of (ss_at s') = None \<or> lock_of (ss_at s') = lock_of (ss_at (ss ! i))"
      "api_locked (ss_at s') \<Longrightarrow> api_locked (ss_at (ss ! i)) \<or> (\<forall>t \<in> set ss. \<not> api_locked (ss_at t))"
    and self: "sess_ok g i (ss ! i) \<Longrightarrow> sess_ok g' i s'"
    and walk: "\<And>v a. held v a (ss ! i) \<Longrightarrow> held v a s' \<and> length (array_at g a) \<le> length (array_at g' a)"
      "ss_hazard (ss ! i) \<noteq> None \<Longrightarrow> ss_hazard s' \<noteq> None \<and> length (own_array g (ss ! i)) \<le> length (own_array g' s')"
    and scan: "\<And>r k. checked g' s' r k \<Longrightarrow> hz_ref g r = RefLocked \<Longrightarrow> checked g (ss ! i) r k"
      "\<And>r k v a. checked g' s' r k \<Longrightarrow> held v a (ss ! i) \<Longrightarrow> array_at g a ! k = Some r \<Longrightarrow> array_at g' a ! k = Some r"
  shows "hz_inv (ss[i := s']) g'"
proof (rule hz_inv_step [OF inv i])
  let ?s = "ss ! i"
  have ok: "sess_ok g i ?s" by (rule hz_invD(1) [OF inv i])
  show "hz_kept g g' j (ss ! j)" if j: "j < length ss" "j \<noteq> i" for j
  proof -
    have "a \<notin> set (owned ?s)" if "a \<in> set (owned (ss ! j))" for a
      using hz_invD(2) [OF inv i j(1)] j(2) that unfolding apart_ok_def by blast
    then show ?thesis using heap gen cnt [OF j] unfolding hz_kept_def by auto
  qed
  show "sess_ok g' i s'" by (rule self [OF ok])
  show "apart_ok s' (ss ! j)" if j: "j < length ss" "j \<noteq> i" "apart_ok ?s (ss ! j)" for j
  proof -
    have o: "a < length (hz_heap g)" if "a \<in> set (owned (ss ! j))" for a
      using sess_okD(2) [OF hz_invD(1) [OF inv j(1)]] that unfolding heap_ok_def by blast
    have d: "set (owned ?s) \<inter> set (owned (ss ! j)) = {}" using j(3) by (simp add: apart_ok_def)
    have "a \<notin> set (owned s')" if a: "a \<in> set (owned (ss ! j))" for a
    proof
      assume "a \<in> set (owned s')"
      then have "a \<in> set (owned ?s) \<or> length (hz_heap g) \<le> a" using owned by blast
      then show False using d a o [OF a] by auto
    qed
    then have d': "set (owned s') \<inter> set (owned (ss ! j)) = {}" by blast
    have "\<not> (api_locked (ss_at s') \<and> api_locked (ss_at (ss ! j)))"
      using lock(2) j(3) nth_mem [OF j(1)] unfolding apart_ok_def by blast
    moreover have "lock_of (ss_at s') \<noteq> None \<longrightarrow> lock_of (ss_at s') \<noteq> lock_of (ss_at (ss ! j))"
      using lock(1) j(3) unfolding apart_ok_def by auto
    ultimately show ?thesis using d' unfolding apart_ok_def by simp
  qed
  show "look_ok g s' b (ss ! b)" for b using blind_look [OF blind] by (simp add: look_ok_def)
  show "look_ok g' t i s'" if t: "look_ok g t i ?s" "c < length ss" "c = i \<and> t = s' \<or> c \<noteq> i \<and> t = ss ! c" for c t
  proof (cases "c = i")
    case True
    then show ?thesis using t(3) blind_look [OF blind] by (simp add: look_ok_def)
  next
    case False
    then have tc: "t = ss ! c" using t(3) by blast
    have w: "walk_ok g (ss_gen t) (ss_at t) i ?s" and sc: "scan_ok g (ss_at t) i ?s" using t(1) by (simp_all add: look_ok_def)
    have w': "walk_ok g' (ss_gen t) (ss_at t) i s'"
    proof (cases "ss_at t")
      case (EvWalk r x j u b k)
      then show ?thesis using w walk(1) [of "ss_gen t" b] by auto
    next
      case (EvArray r x j u)
      then show ?thesis using w walk(2) by auto
    next
      case (EvInuse r x j)
      then show ?thesis using w walk(2) by auto
    qed (use w in simp_all)
    have "scan_ok g' (ss_at t) i s'" unfolding scan_ok_def
    proof (intro allI impI)
      fix r k assume l: "lock_of (ss_at t) = Some r" and c: "checked g' s' r k"
      have "hz_ref g r = RefLocked" using inv_gens [OF inv t(2)] l tc unfolding gens_ok_def by blast
      then have "before g (ss_at t) i k" using sc l scan(1) [OF c] by (simp add: scan_ok_def)
      then show "before g' (ss_at t) i k" using w scan(2) [OF c, of "ss_gen t"] l by (cases "ss_at t") auto
    qed
    moreover have "disc_ok (ss_at t) (ss_stash t) i s'" using blind_walks [OF blind] by (simp add: disc_ok_def)
    ultimately show ?thesis using w' by (simp add: look_ok_def)
  qed
qed

end
