(* ===== verification/HazardSafe.thy ===== *)
theory HazardSafe
  imports HazardInv
begin

text \<open>
  The steps that write an array or a count, one lemma for each, the freeing of a stashed array, and what
  the invariant of the reachable states gives.
\<close>

subsection \<open>The entries of an array\<close>

lemma entries_put: "k < length A \<Longrightarrow> A ! k = None \<Longrightarrow> entries (A[k := Some r]) = add_mset r (entries A)"
  by (simp add: entries_def mset_update)

lemma entries_replace: "k < length A \<Longrightarrow> A ! k = Some r \<Longrightarrow> entries A = add_mset r (entries (A[k := None]))"
  using entries_put [of k "A[k := None]" r] by simp (metis list_update_id)

lemma entries_empty: "entries A = {#} \<longleftrightarrow> (\<forall>k < length A. A ! k = None)"
proof -
  have "entries A = {#} \<longleftrightarrow> (\<forall>r. r \<notin># entries A)" by (metis multiset_nonemptyE empty_not_add_mset set_mset_empty empty_iff)
  also have "\<dots> \<longleftrightarrow> (\<forall>x \<in> set A. x = None)" unfolding entries_mem by (metis not_Some_eq)
  also have "\<dots> \<longleftrightarrow> (\<forall>k < length A. A ! k = None)" by (simp add: all_set_conv_all_nth)
  finally show ?thesis .
qed

lemma entries_new: "entries (replicate n None) = {#}" "entries (A @ replicate n None) = entries A"
proof -
  show e: "entries (replicate n None) = {#}" by (simp add: entries_empty)
  show "entries (A @ replicate n None) = entries A" using e by (simp add: entries_def)
qed

lemma size_entries: "\<forall>k < length A. A ! k \<noteq> None \<longrightarrow> k < u \<Longrightarrow> size (entries A) \<le> u"
proof -
  assume u: "\<forall>k < length A. A ! k \<noteq> None \<longrightarrow> k < u"
  have "size (entries A) = length (filter (\<lambda>x. x \<noteq> None) A)"
    unfolding entries_def by (simp flip: mset_filter)
  also have "\<dots> = card {k. k < length A \<and> A ! k \<noteq> None}" by (rule length_filter_conv_card)
  also have "\<dots> \<le> card {..<u}" by (rule card_mono) (use u in auto)
  finally show ?thesis by simp
qed

subsection \<open>Changes of the heap\<close>

lemma put_slot_simps [simp]:
  "length (hz_heap (put_slot a k v g)) = length (hz_heap g)" "hz_gen (put_slot a k v g) = hz_gen g"
  "hz_cnt (put_slot a k v g) = hz_cnt g" "hz_ref (put_slot a k v g) = hz_ref g"
  "b \<noteq> a \<Longrightarrow> hz_heap (put_slot a k v g) ! b = hz_heap g ! b"
  by (simp_all add: put_slot_def)

lemma put_slot_same: "a < length (hz_heap g) \<Longrightarrow> hz_heap (put_slot a k v g) ! a = Some ((array_at g a)[k := v])"
  by (simp add: put_slot_def)

lemma put_slot_at: "a < length (hz_heap g) \<Longrightarrow> array_at (put_slot a k v g) b = (if b = a then (array_at g a)[k := v] else array_at g b)"
  unfolding array_at_def [of "put_slot a k v g"] by (simp add: put_slot_same) (simp add: array_at_def)

lemma alloc_simps [simp]:
  "length (hz_heap (alloc_array A g)) = Suc (length (hz_heap g))" "hz_gen (alloc_array A g) = hz_gen g"
  "hz_cnt (alloc_array A g) = hz_cnt g" "hz_ref (alloc_array A g) = hz_ref g"
  "b < length (hz_heap g) \<Longrightarrow> hz_heap (alloc_array A g) ! b = hz_heap g ! b"
  "b < length (hz_heap g) \<Longrightarrow> array_at (alloc_array A g) b = array_at g b"
  "array_at (alloc_array A g) (length (hz_heap g)) = A"
  "hz_heap (alloc_array A g) ! length (hz_heap g) = Some A"
  by (simp_all add: alloc_array_def array_at_def nth_append)

lemma own_in_heap:
  assumes "sess_ok g j s" "ss_hazard s = Some a"
  shows "a < length (hz_heap g)"
  using sess_okD(2) [OF assms(1)] owned_hazard [OF assms(2)] unfolding heap_ok_def by blast

text \<open>The thread writes a slot of its array.\<close>

lemma write_step:
  assumes inv: "hz_inv ss g" and i: "i < length ss" and blind: "blind (ss_at s')"
    and h: "ss_hazard (ss ! i) = Some a" "ss_hazard s' = Some a" and stash: "ss_stash s' = ss_stash (ss ! i)" "ss_gen s' = ss_gen (ss ! i)"
    and limbo: "limbo (ss_at (ss ! i)) = None" "limbo (ss_at s') = None"
    and lock: "lock_of (ss_at s') = None \<or> lock_of (ss_at s') = lock_of (ss_at (ss ! i))" "\<not> api_locked (ss_at s')" "\<not> entered (ss_at s')"
    and self: "sess_ok g i (ss ! i) \<Longrightarrow> flags_ok g i s'"
      "sess_ok g i (ss ! i) \<Longrightarrow> array_ok (put_slot a k v g) s' \<and> hz_at_ok (put_slot a k v g) s' (ss_at s')"
    and scan: "\<And>r m. checked (put_slot a k v g) s' r m \<Longrightarrow> checked g (ss ! i) r m"
  shows "hz_inv (ss[i := s']) (put_slot a k v g)"
proof -
  have al: "a < length (hz_heap g)" by (rule own_in_heap [OF hz_invD(1) [OF inv i] h(1)])
  note at = put_slot_at [OF al]
  have owned: "owned s' = owned (ss ! i)" by (simp add: owned_def h stash limbo)
  have own: "own_array (put_slot a k v g) s' = (own_array g (ss ! i))[k := v]" by (simp add: own_array_def h at)
  have rep: "replaced w b (ss_at (ss ! i)) \<Longrightarrow> False" for w b using limbo(1) replaced_limbo by force
  show ?thesis
  proof (rule own_step [OF inv i blind])
    show "hz_heap (put_slot a k v g) ! b = hz_heap g ! b" if "b \<notin> set (owned (ss ! i))" for b
      using that owned_hazard [OF h(1)] by (cases "b = a") simp_all
    show "sess_ok (put_slot a k v g) i s'" if ok: "sess_ok g i (ss ! i)"
    proof -
      have "heap_ok (put_slot a k v g) s'" unfolding heap_ok_def owned
      proof (intro conjI ballI)
        show "distinct (owned (ss ! i))" using sess_okD(2) [OF ok] by (simp add: heap_ok_def)
        fix b assume "b \<in> set (owned (ss ! i))"
        then have "b < length (hz_heap g)" "hz_heap g ! b \<noteq> None" using sess_okD(2) [OF ok] by (simp_all add: heap_ok_def)
        then show "b < length (hz_heap (put_slot a k v g))" "hz_heap (put_slot a k v g) ! b \<noteq> None"
          using put_slot_same [OF al] by (simp, cases "b = a", simp_all)
      qed
      moreover have "flags_ok (put_slot a k v g) i s'" using self(1) [OF ok] by (simp add: flags_ok_def)
      moreover have "gens_ok (put_slot a k v g) s'" using sess_okD(4) [OF ok] lock(1,3) stash(2) unfolding gens_ok_def by auto
      ultimately show ?thesis using self(2) [OF ok] by (simp add: sess_ok_def)
    qed
    show "held w b s' \<and> length (array_at g b) \<le> length (array_at (put_slot a k v g) b)" if "held w b (ss ! i)" for w b
      using that rep unfolding held_def h stash at by auto
    show "array_at (put_slot a k v g) b ! m = Some r" if "checked (put_slot a k v g) s' r m" "array_at g b ! m = Some r" for r m w b
      using that by (cases "b = a") (simp_all add: at checked_def own_array_def h)
  qed (use h own owned lock in \<open>simp_all add: scan\<close>)
qed

text \<open>The array of a session, before and after.\<close>

lemma array_okD:
  assumes "sess_ok g j s" "ss_hazard s = Some a"
  shows "length (own_array g s) = (if is_grow_size (ss_at s) then 2 * ss_size s else ss_size s)" "0 < ss_size s" "ss_inuse s \<le> ss_size s"
    "\<And>k. k < length (own_array g s) \<Longrightarrow> own_array g s ! k \<noteq> None \<Longrightarrow> k < ss_inuse s"
    "entries (without_pend (ss_at s) (own_array g s)) = mset (ss_uses s)"
    "ss_n s = length (ss_uses s) + of_bool (is_count (ss_at s))"
  using sess_okD(3) [OF assms(1)] assms(2) unfolding array_ok_def Let_def by simp_all

lemma array_okI:
  assumes "ss_hazard s = Some a" "own_array g s = A"
    and "length A = (if is_grow_size (ss_at s) then 2 * ss_size s else ss_size s)" "0 < ss_size s" "ss_inuse s \<le> ss_size s"
    "\<And>k. k < length A \<Longrightarrow> A ! k \<noteq> None \<Longrightarrow> k < ss_inuse s"
    "entries (without_pend (ss_at s) A) = mset (ss_uses s)"
    "ss_n s = length (ss_uses s) + of_bool (is_count (ss_at s))"
  shows "array_ok g s"
  using assms unfolding array_ok_def Let_def by simp

lemma active_hazard:
  assumes "hz_inv ss g" "i < length ss" "at_active (ss_at (ss ! i))"
  obtains a where "ss_hazard (ss ! i) = Some a" "ss_active (ss ! i)"
  using sess_okD(1) [OF hz_invD(1) [OF assms(1,2)]] assms(3) unfolding flags_ok_def by auto

lemma own_put:
  assumes "sess_ok g j s" "ss_hazard s = Some a" "ss_hazard s' = Some a"
  shows "own_array (put_slot a k v g) s' = (own_array g s)[k := v]"
  using own_in_heap [OF assms(1,2)] assms(2,3) by (simp add: own_array_def put_slot_at)

lemma update_same: "A ! k = x \<Longrightarrow> A[k := x] = A"
  by auto

lemma cleared_slot: "(A[k := None]) ! m = Some q \<Longrightarrow> m < length A \<Longrightarrow> A ! m = Some q"
  by (cases "m = k") simp_all

lemma move_set_write:
  assumes inv: "hz_inv ss g" and i: "i < length ss" and at: "ss_at (ss ! i) = SetWrite r k"
  shows "hz_inv (ss[i := (ss ! i)\<lparr>ss_at := SetCheck r k\<rparr>]) (put_slot (the (ss_hazard (ss ! i))) k (Some r) g)"
proof -
  let ?s = "ss ! i"
  let ?A = "own_array g ?s"
  have ok: "sess_ok g i ?s" by (rule hz_invD(1) [OF inv i])
  obtain a where h: "ss_hazard ?s = Some a" by (rule active_hazard [OF inv i]) (use at in simp)
  note A = array_okD [OF ok h, unfolded at, simplified]
  have k: "k < ss_inuse ?s" "?A ! k = None" using inv_at [OF inv i] at by simp_all
  have kl: "k < length ?A" using k A by simp
  have "hz_inv (ss[i := ?s\<lparr>ss_at := SetCheck r k\<rparr>]) (put_slot a k (Some r) g)"
  proof (rule write_step [OF inv i])
    have o: "own_array (put_slot a k (Some r) g) (?s\<lparr>ss_at := SetCheck r k\<rparr>) = ?A[k := Some r]"
      by (rule own_put [OF ok h]) (simp add: h)
    have "array_ok (put_slot a k (Some r) g) (?s\<lparr>ss_at := SetCheck r k\<rparr>)"
      by (rule array_okI [of _ a, OF _ o])
        (use A k kl in \<open>auto simp: h without_pend_def nth_list_update update_same split: if_splits\<close>)
    then show "array_ok (put_slot a k (Some r) g) (?s\<lparr>ss_at := SetCheck r k\<rparr>) \<and>
        hz_at_ok (put_slot a k (Some r) g) (?s\<lparr>ss_at := SetCheck r k\<rparr>) (ss_at (?s\<lparr>ss_at := SetCheck r k\<rparr>))"
      using k kl o by simp
    show "checked g ?s q m" if "checked (put_slot a k (Some r) g) (?s\<lparr>ss_at := SetCheck r k\<rparr>) q m" for q m
      using that unfolding checked_def o by (auto simp: at h nth_list_update)
    show "flags_ok g i (?s\<lparr>ss_at := SetCheck r k\<rparr>)" using sess_okD(1) [OF ok] at by (simp add: flags_ok_def)
  qed (use at h in simp_all)
  then show ?thesis by (simp add: h)
qed

lemma move_set_undo:
  assumes inv: "hz_inv ss g" and i: "i < length ss" and at: "ss_at (ss ! i) = SetUndo r k"
  shows "hz_inv (ss[i := (ss ! i)\<lparr>ss_at := Idle\<rparr>]) (put_slot (the (ss_hazard (ss ! i))) k None g)"
proof -
  let ?s = "ss ! i"
  let ?A = "own_array g ?s"
  have ok: "sess_ok g i ?s" by (rule hz_invD(1) [OF inv i])
  obtain a where h: "ss_hazard ?s = Some a" by (rule active_hazard [OF inv i]) (use at in simp)
  note A = array_okD [OF ok h, unfolded at, simplified]
  have k: "k < ss_inuse ?s" "?A ! k = Some r" using inv_at [OF inv i] at by simp_all
  have "hz_inv (ss[i := ?s\<lparr>ss_at := Idle\<rparr>]) (put_slot a k None g)"
  proof (rule write_step [OF inv i])
    have o: "own_array (put_slot a k None g) (?s\<lparr>ss_at := Idle\<rparr>) = ?A[k := None]"
      by (rule own_put [OF ok h]) (simp add: h)
    have "array_ok (put_slot a k None g) (?s\<lparr>ss_at := Idle\<rparr>)"
      by (rule array_okI [of _ a, OF _ o])
        (use A k in \<open>auto simp: h without_pend_def nth_list_update split: if_splits\<close>)
    then show "array_ok (put_slot a k None g) (?s\<lparr>ss_at := Idle\<rparr>) \<and>
        hz_at_ok (put_slot a k None g) (?s\<lparr>ss_at := Idle\<rparr>) (ss_at (?s\<lparr>ss_at := Idle\<rparr>))" by simp
    show "checked g ?s q m" if "checked (put_slot a k None g) (?s\<lparr>ss_at := Idle\<rparr>) q m" for q m
      using that unfolding checked_def o by (auto simp: at h nth_list_update dest: cleared_slot split: if_splits)
    show "flags_ok g i (?s\<lparr>ss_at := Idle\<rparr>)" using sess_okD(1) [OF ok] at by (simp add: flags_ok_def)
  qed (use at h in simp_all)
  then show ?thesis by (simp add: h)
qed

lemma move_clear_slot:
  assumes inv: "hz_inv ss g" and i: "i < length ss" and at: "ss_at (ss ! i) = Clear r ev"
    and find: "hazard_find r (ss_inuse (ss ! i)) (own_array g (ss ! i)) = Some k"
  shows "hz_inv (ss[i := (ss ! i)\<lparr>ss_uses := remove1 r (ss_uses (ss ! i)), ss_at := ClearCount r ev\<rparr>])
    (put_slot (the (ss_hazard (ss ! i))) k None g)"
proof -
  let ?s = "ss ! i"
  let ?A = "own_array g ?s"
  let ?s' = "?s\<lparr>ss_uses := remove1 r (ss_uses ?s), ss_at := ClearCount r ev\<rparr>"
  have ok: "sess_ok g i ?s" by (rule hz_invD(1) [OF inv i])
  obtain a where h: "ss_hazard ?s = Some a" "ss_active ?s" by (rule active_hazard [OF inv i]) (use at in simp)
  note A = array_okD [OF ok h(1), unfolded at, simplified]
  have k: "k < ss_inuse ?s" "?A ! k = Some r" using find_Some [OF find [unfolded hazard_find_def]] by simp_all
  have r: "r \<in> set (ss_uses ?s)" using inv_at [OF inv i] at by simp
  have kl: "k < length ?A" using k A by simp
  have len: "length (ss_uses ?s) = Suc (length (remove1 r (ss_uses ?s)))"
    using r length_pos_if_in_set [OF r] by (simp add: length_remove1)
  have "entries ?A = mset (ss_uses ?s)" using A by (simp add: without_pend_def)
  then have e: "entries (?A[k := None]) = mset (remove1 r (ss_uses ?s))" using entries_replace [OF kl k(2)] by (metis add_mset_remove_trivial mset_remove1)
  have "hz_inv (ss[i := ?s']) (put_slot a k None g)"
  proof (rule write_step [OF inv i])
    have o: "own_array (put_slot a k None g) ?s' = ?A[k := None]" by (rule own_put [OF ok h(1)]) (simp add: h)
    have "array_ok (put_slot a k None g) ?s'"
      by (rule array_okI [of _ a, OF _ o])
        (use A k e len in \<open>auto simp: h without_pend_def nth_list_update split: if_splits\<close>)
    then show "array_ok (put_slot a k None g) ?s' \<and> hz_at_ok (put_slot a k None g) ?s' (ss_at ?s')" by simp
    show "checked g ?s q m" if "checked (put_slot a k None g) ?s' q m" for q m
      using that unfolding checked_def o by (auto simp: at h nth_list_update dest: cleared_slot split: if_splits)
    show "flags_ok g i ?s'" using sess_okD(1) [OF ok] at h by (simp add: flags_ok_def)
  qed (use at h in simp_all)
  then show ?thesis by (simp add: h)
qed

text \<open>A step that changes the thread's session and no array.\<close>

lemma session_step:
  assumes inv: "hz_inv ss g" and i: "i < length ss" and blind: "blind (ss_at s')"
    and g': "hz_heap g' = hz_heap g" "hz_gen g' = hz_gen g" "hz_ref g' = hz_ref g"
    and cnt: "\<And>j. j < length ss \<Longrightarrow> j \<noteq> i \<Longrightarrow> ss_active (ss ! j) \<or> ss_at (ss ! j) = Opening \<Longrightarrow> j < hz_cnt g \<Longrightarrow> j < hz_cnt g'"
    and owned: "mset (owned s') = mset (owned (ss ! i))"
    and lock: "lock_of (ss_at s') = None \<or> lock_of (ss_at s') = lock_of (ss_at (ss ! i))"
      "api_locked (ss_at s') \<Longrightarrow> api_locked (ss_at (ss ! i)) \<or> (\<forall>t \<in> set ss. \<not> api_locked (ss_at t))"
    and self: "sess_ok g i (ss ! i) \<Longrightarrow> flags_ok g' i s'" "sess_ok g i (ss ! i) \<Longrightarrow> array_ok g s'" "sess_ok g i (ss ! i) \<Longrightarrow> hz_at_ok g s' (ss_at s')"
      "ss_gen s' = ss_gen (ss ! i)" "\<not> entered (ss_at s')"
    and walk: "\<And>v a. held v a (ss ! i) \<Longrightarrow> held v a s'"
      "ss_hazard (ss ! i) \<noteq> None \<Longrightarrow> ss_hazard s' \<noteq> None \<and> length (own_array g (ss ! i)) \<le> length (own_array g s')"
    and scan: "\<And>r k. checked g s' r k \<Longrightarrow> hz_ref g r = RefLocked \<Longrightarrow> checked g (ss ! i) r k"
  shows "hz_inv (ss[i := s']) g'"
proof (rule own_step [OF inv i blind])
  have at: "array_at g' = array_at g" by (simp add: array_at_def g' fun_eq_iff)
  then have own: "own_array g' = own_array g" by (simp add: own_array_def fun_eq_iff)
  have so: "set (owned s') = set (owned (ss ! i))" by (rule mset_eq_setD [OF owned])
  show "set (owned s') \<subseteq> set (owned (ss ! i)) \<union> {a. length (hz_heap g) \<le> a}" using so by blast
  show "sess_ok g' i s'" if ok: "sess_ok g i (ss ! i)"
  proof -
    have "heap_ok g' s'" using sess_okD(2) [OF ok] mset_eq_imp_distinct_iff [OF owned] unfolding heap_ok_def so g' by blast
    moreover have "array_ok g' s'" using self(2) [OF ok] unfolding array_ok_def own .
    moreover have "gens_ok g' s'" using sess_okD(4) [OF ok] lock(1) self(4,5) g' unfolding gens_ok_def by auto
    moreover have "hz_at_ok g' s' (ss_at s')" using self(3) [OF ok] blind by (cases "ss_at s'") (simp_all add: own at g')
    ultimately show ?thesis using self(1) [OF ok] by (simp add: sess_ok_def)
  qed
  show "checked g (ss ! i) r k" if "checked g' s' r k" "hz_ref g r = RefLocked" for r k
    using scan that unfolding checked_def own by blast
qed (use cnt lock walk g' in \<open>simp_all add: array_at_def own_array_def\<close>)

lemma move_set_ok:
  assumes inv: "hz_inv ss g" and i: "i < length ss" and at: "ss_at (ss ! i) = SetCheck r k" and mem: "hz_ref g r = RefMem"
  shows "hz_inv (ss[i := (ss ! i)\<lparr>ss_n := ss_n (ss ! i) + 1, ss_uses := r # ss_uses (ss ! i), ss_at := Idle\<rparr>]) g"
proof -
  let ?s = "ss ! i"
  let ?s' = "?s\<lparr>ss_n := ss_n ?s + 1, ss_uses := r # ss_uses ?s, ss_at := Idle\<rparr>"
  have ok: "sess_ok g i ?s" by (rule hz_invD(1) [OF inv i])
  obtain a where h: "ss_hazard ?s = Some a" "ss_active ?s" by (rule active_hazard [OF inv i]) (use at in simp)
  note A = array_okD [OF ok h(1), unfolded at, simplified]
  have k: "k < ss_inuse ?s" "own_array g ?s ! k = Some r" using inv_at [OF inv i] at by simp_all
  have kl: "k < length (own_array g ?s)" using k A by simp
  have o: "own_array g ?s' = own_array g ?s" by (simp add: own_array_def)
  have e: "entries (own_array g ?s) = mset (r # ss_uses ?s)" using A entries_replace [OF kl k(2)] by (simp add: without_pend_def)
  show ?thesis
  proof (rule session_step [OF inv i])
    show "array_ok g ?s'" by (rule array_okI [of _ a, OF _ o]) (use A e in \<open>auto simp: h without_pend_def\<close>)
    show "checked g ?s q m" if "checked g ?s' q m" "hz_ref g q = RefLocked" for q m
    proof -
      have "m \<noteq> k" using that k(2) mem unfolding checked_def o by auto
      then show ?thesis using that(1) unfolding checked_def o by (simp add: at)
    qed
  qed (use at h sess_okD(1) [OF ok] in \<open>simp_all add: flags_ok_def owned_def held_def own_array_def\<close>)
qed

lemma move_set_next:
  assumes inv: "hz_inv ss g" and i: "i < length ss" and at: "ss_at (ss ! i) = SetTake r" and full: "ss_n (ss ! i) \<ge> ss_inuse (ss ! i)"
  shows "hz_inv (ss[i := (ss ! i)\<lparr>ss_inuse := ss_inuse (ss ! i) + 1, ss_at := SetWrite r (ss_inuse (ss ! i))\<rparr>]) g"
proof -
  let ?s = "ss ! i"
  let ?s' = "?s\<lparr>ss_inuse := ss_inuse ?s + 1, ss_at := SetWrite r (ss_inuse ?s)\<rparr>"
  have ok: "sess_ok g i ?s" by (rule hz_invD(1) [OF inv i])
  obtain a where h: "ss_hazard ?s = Some a" "ss_active ?s" by (rule active_hazard [OF inv i]) (use at in simp)
  note A = array_okD [OF ok h(1), unfolded at, simplified]
  have n: "ss_inuse ?s < ss_size ?s" using inv_at [OF inv i] at full by simp
  have o: "own_array g ?s' = own_array g ?s" by (simp add: own_array_def)
  have free: "own_array g ?s ! ss_inuse ?s = None" by (rule ccontr) (use A n in fastforce)
  show ?thesis
  proof (rule session_step [OF inv i])
    show "array_ok g ?s'" by (rule array_okI [of _ a, OF _ o]) (use A n in \<open>auto simp: h without_pend_def less_SucI\<close>)
    show "checked g ?s q m" if "checked g ?s' q m" for q m
      using that unfolding checked_def o by (simp add: at)
  qed (use at h sess_okD(1) [OF ok] free in \<open>simp_all add: flags_ok_def owned_def held_def own_array_def\<close>)
qed

lemma move_clear_count:
  assumes inv: "hz_inv ss g" and i: "i < length ss" and at: "ss_at (ss ! i) = ClearCount r ev"
  shows "hz_inv (ss[i := (ss ! i)\<lparr>ss_n := ss_n (ss ! i) - 1, ss_inuse := (if ss_n (ss ! i) - 1 = 0 then 0 else ss_inuse (ss ! i)),
    ss_at := (if ev then EvEnter r else Idle)\<rparr>]) g"
proof -
  let ?s = "ss ! i"
  let ?s' = "?s\<lparr>ss_n := ss_n ?s - 1, ss_inuse := (if ss_n ?s - 1 = 0 then 0 else ss_inuse ?s), ss_at := (if ev then EvEnter r else Idle)\<rparr>"
  have ok: "sess_ok g i ?s" by (rule hz_invD(1) [OF inv i])
  obtain a where h: "ss_hazard ?s = Some a" "ss_active ?s" by (rule active_hazard [OF inv i]) (use at in simp)
  note A = array_okD [OF ok h(1), unfolded at, simplified]
  have o: "own_array g ?s' = own_array g ?s" by (simp add: own_array_def)
  have e: "entries (own_array g ?s) = mset (ss_uses ?s)" using A by (simp add: without_pend_def)
  have none: "own_array g ?s ! k = None" if "ss_n ?s - 1 = 0" "k < length (own_array g ?s)" for k
    using e that A(6) entries_empty [of "own_array g ?s"] by simp
  have p: "pend (ss_at ?s') = None" "is_count (ss_at ?s') = False" "is_grow_size (ss_at ?s') = False" "limbo (ss_at ?s') = None" by simp_all
  show ?thesis
  proof (rule session_step [OF inv i])
    show "array_ok g ?s'"
    proof (rule array_okI [of _ a, OF _ o])
      show "m < ss_inuse ?s'" if m: "m < length (own_array g ?s)" "own_array g ?s ! m \<noteq> None" for m
        using m A(1,4) none [OF _ m(1)] by auto
      show "entries (without_pend (ss_at ?s') (own_array g ?s)) = mset (ss_uses ?s')" using e by (simp add: without_pend_def p)
    qed (use A h p in auto)
    show "checked g ?s q m" if "checked g ?s' q m" for q m
      using that unfolding checked_def o by (simp add: at)
    show "blind (ss_at ?s')" "hz_at_ok g ?s' (ss_at ?s')" by simp_all
    show "api_locked (ss_at ?s) \<or> (\<forall>t \<in> set ss. \<not> api_locked (ss_at t))" if "api_locked (ss_at ?s')" using that by (cases ev) simp_all
  qed (use at h sess_okD(1) [OF ok] in \<open>auto simp: flags_ok_def owned_def held_def own_array_def\<close>)
qed

lemma own_upd: "ss_hazard s' = ss_hazard s \<Longrightarrow> own_array g s' = own_array g s"
  by (simp add: own_array_def)

lemma array_ok_none: "ss_hazard s = None \<Longrightarrow> array_ok g s"
  by (simp add: array_ok_def)

lemma idle_uses: "sess_ok g i s \<Longrightarrow> \<not> at_active (ss_at s) \<Longrightarrow> ss_uses s = []"
  unfolding sess_ok_def flags_ok_def by blast

subsection \<open>Opening and closing a session\<close>

lemma move_open_cnt:
  assumes inv: "hz_inv ss g" and i: "i < length ss" and at: "ss_at (ss ! i) = Out" and free: "\<forall>t \<in> set ss. \<not> api_locked (ss_at t)"
  shows "hz_inv (ss[i := (ss ! i)\<lparr>ss_at := Opening\<rparr>]) (open_count i g)"
proof -
  have ok: "sess_ok g i (ss ! i)" by (rule hz_invD(1) [OF inv i])
  have arr: "array_ok g ((ss ! i)\<lparr>ss_at := Opening\<rparr>)" using sess_okD(3) [OF ok] at by (simp add: array_ok_def without_pend_def own_array_def)
  show ?thesis
    by (rule session_step [OF inv i])
      (use at free arr sess_okD(1) [OF ok] in \<open>auto simp: flags_ok_def owned_def held_def open_count_def checked_def own_array_def\<close>)
qed

lemma move_open_again:
  assumes inv: "hz_inv ss g" and i: "i < length ss" and at: "ss_at (ss ! i) = Opening" and h: "ss_hazard (ss ! i) \<noteq> None"
  shows "hz_inv (ss[i := (ss ! i)\<lparr>ss_active := True, ss_at := Idle\<rparr>]) g"
proof -
  have ok: "sess_ok g i (ss ! i)" by (rule hz_invD(1) [OF inv i])
  have arr: "array_ok g ((ss ! i)\<lparr>ss_active := True, ss_at := Idle\<rparr>)" using sess_okD(3) [OF ok] at by (simp add: array_ok_def without_pend_def own_array_def)
  show ?thesis
    by (rule session_step [OF inv i])
      (use at h arr sess_okD(1) [OF ok] in \<open>auto simp: flags_ok_def owned_def held_def checked_def own_array_def\<close>)
qed

lemma move_close:
  assumes inv: "hz_inv ss g" and i: "i < length ss" and at: "ss_at (ss ! i) = Idle" and u: "ss_uses (ss ! i) = []"
    and free: "\<forall>t \<in> set ss. \<not> api_locked (ss_at t)"
  shows "hz_inv (ss[i := (ss ! i)\<lparr>ss_active := False, ss_inuse := 0, ss_n := 0, ss_at := Closing\<rparr>]) g"
proof -
  let ?s = "ss ! i"
  let ?s' = "?s\<lparr>ss_active := False, ss_inuse := 0, ss_n := 0, ss_at := Closing\<rparr>"
  have ok: "sess_ok g i ?s" by (rule hz_invD(1) [OF inv i])
  obtain a where h: "ss_hazard ?s = Some a" "ss_active ?s" by (rule active_hazard [OF inv i]) (use at in simp)
  note A = array_okD [OF ok h(1), unfolded at, simplified]
  have e: "entries (own_array g ?s) = {#}" using A u by (simp add: without_pend_def)
  show ?thesis
  proof (rule session_step [OF inv i])
    show "array_ok g ?s'"
      by (rule array_okI [of _ a, OF _ own_upd]) (use A e h u in \<open>auto simp: without_pend_def entries_empty\<close>)
  qed (use at h u free sess_okD(1) [OF ok] in \<open>auto simp: flags_ok_def owned_def held_def checked_def own_array_def\<close>)
qed

lemma close_count_bound: "j < c \<Longrightarrow> ss_active (ss ! j) \<Longrightarrow> j < close_count ss c"
  by (induction c) (auto simp: less_Suc_eq)

lemma close_count_le: "close_count ss c \<le> c"
  by (induction c) auto

lemma move_close_cnt:
  assumes inv: "hz_inv ss g" and i: "i < length ss" and at: "ss_at (ss ! i) = Closing"
  shows "hz_inv (ss[i := (ss ! i)\<lparr>ss_at := Out\<rparr>]) (g\<lparr>hz_cnt := close_count ss (hz_cnt g)\<rparr>)"
proof -
  have ok: "sess_ok g i (ss ! i)" by (rule hz_invD(1) [OF inv i])
  have arr: "array_ok g ((ss ! i)\<lparr>ss_at := Out\<rparr>)" using sess_okD(3) [OF ok] at by (simp add: array_ok_def without_pend_def own_array_def)
  have no: "ss_at (ss ! j) \<noteq> Opening" if "j < length ss" "j \<noteq> i" for j
    using hz_invD(2) [OF inv i that(1)] that(2) at unfolding apart_ok_def by auto
  show ?thesis
    by (rule session_step [OF inv i])
      (use at no arr sess_okD(1) [OF ok] close_count_bound in \<open>auto simp: flags_ok_def owned_def held_def checked_def own_array_def\<close>)
qed

lemma not_owned_new: "sess_ok g i s \<Longrightarrow> length (hz_heap g) \<notin> set (owned s)"
  using sess_okD(2) unfolding heap_ok_def by blast

text \<open>A step that allocates an array.\<close>

lemma alloc_step:
  assumes inv: "hz_inv ss g" and i: "i < length ss" and blind: "blind (ss_at s')"
    and owned: "mset (owned s') = add_mset (length (hz_heap g)) (mset (owned (ss ! i)))"
    and lock: "lock_of (ss_at s') = None" "\<not> api_locked (ss_at s')" "\<not> entered (ss_at s')" "ss_gen s' = ss_gen (ss ! i)"
    and self: "sess_ok g i (ss ! i) \<Longrightarrow> flags_ok g i s'" "sess_ok g i (ss ! i) \<Longrightarrow> array_ok (alloc_array A g) s'"
      "sess_ok g i (ss ! i) \<Longrightarrow> hz_at_ok (alloc_array A g) s' (ss_at s')"
    and walk: "\<And>v a. held v a (ss ! i) \<Longrightarrow> held v a s'"
      "ss_hazard (ss ! i) \<noteq> None \<Longrightarrow> ss_hazard s' = ss_hazard (ss ! i)"
    and scan: "\<And>r k. checked (alloc_array A g) s' r k \<Longrightarrow> checked g (ss ! i) r k"
  shows "hz_inv (ss[i := s']) (alloc_array A g)"
proof (rule own_step [OF inv i blind])
  have ok: "sess_ok g i (ss ! i)" by (rule hz_invD(1) [OF inv i])
  have hl: "a < length (hz_heap g)" if "a \<in> set (owned (ss ! i))" for a
    using sess_okD(2) [OF ok] that by (simp add: heap_ok_def)
  have so: "set (owned s') = insert (length (hz_heap g)) (set (owned (ss ! i)))"
    using arg_cong [OF owned, of set_mset] by simp
  have dist: "distinct (owned s')"
    using mset_eq_imp_distinct_iff [of "owned s'" "length (hz_heap g) # owned (ss ! i)"] owned not_owned_new [OF ok] sess_okD(2) [OF ok]
    by (simp add: heap_ok_def)
  show "set (owned s') \<subseteq> set (owned (ss ! i)) \<union> {a. length (hz_heap g) \<le> a}" unfolding so by auto
  show "sess_ok (alloc_array A g) i s'" if ok: "sess_ok g i (ss ! i)"
  proof -
    have "heap_ok (alloc_array A g) s'" using sess_okD(2) [OF ok] dist unfolding heap_ok_def so by (auto simp: less_SucI)
    moreover have "gens_ok (alloc_array A g) s'" using sess_okD(4) [OF ok] lock unfolding gens_ok_def by auto
    moreover have "flags_ok (alloc_array A g) i s'" using self(1) [OF ok] by (simp add: flags_ok_def)
    ultimately show ?thesis using self(2,3) [OF ok] by (simp add: sess_ok_def)
  qed
  show "ss_hazard s' \<noteq> None \<and> length (own_array g (ss ! i)) \<le> length (own_array (alloc_array A g) s')" if h: "ss_hazard (ss ! i) \<noteq> None"
    using walk(2) [OF h] h hl [OF owned_hazard] by (auto simp: own_array_def)
  show "held v a s' \<and> length (array_at g a) \<le> length (array_at (alloc_array A g) a)" if "held v a (ss ! i)" for v a
    using walk(1) [OF that] hl [OF held_owned [OF that]] by simp
  show "array_at (alloc_array A g) a ! k = Some r" if "held v a (ss ! i)" "array_at g a ! k = Some r" for r k v a
    using that hl [OF held_owned [OF that(1)]] by simp
qed (use lock scan in \<open>simp_all add: less_SucI\<close>)

lemma move_open_first:
  assumes inv: "hz_inv ss g" and i: "i < length ss" and at: "ss_at (ss ! i) = Opening" and h: "ss_hazard (ss ! i) = None"
  shows "hz_inv (ss[i := (ss ! i)\<lparr>ss_hazard := Some (length (hz_heap g)), ss_size := hz_initial_slots, ss_inuse := 0, ss_n := 0, ss_active := True, ss_at := Idle\<rparr>])
    (alloc_array (replicate hz_initial_slots None) g)" (is "hz_inv (ss[i := ?s']) _")
proof -
  have ok: "sess_ok g i (ss ! i)" by (rule hz_invD(1) [OF inv i])
  have u: "ss_uses (ss ! i) = []" using idle_uses [OF ok] at by simp
  have own: "own_array (alloc_array (replicate hz_initial_slots None) g) ?s' = replicate hz_initial_slots None"
    by (simp add: own_array_def)
  show ?thesis
  proof (rule alloc_step [OF inv i])
    show "array_ok (alloc_array (replicate hz_initial_slots None) g) ?s'"
      by (rule array_okI [OF _ own]) (simp_all add: u without_pend_def entries_new hz_initial_slots_def)
    show "checked g (ss ! i) r k" if "checked (alloc_array (replicate hz_initial_slots None) g) ?s' r k" for r k
      using that unfolding checked_def own by auto
  qed (use at h sess_okD(1) [OF ok] in \<open>auto simp: flags_ok_def owned_def held_def opt_list_def\<close>)
qed

subsection \<open>Growing an array\<close>

lemma nth_grown: "length A = n \<Longrightarrow> k < 2 * n \<Longrightarrow> grown n A ! k = Some r \<longleftrightarrow> k < n \<and> A ! k = Some r"
  by (auto simp: grown_def nth_append)

lemma length_grown: "length A = n \<Longrightarrow> length (grown n A) = 2 * n"
  by (simp add: grown_def)

lemma entries_grown: "length A = n \<Longrightarrow> entries (grown n A) = entries A"
  by (simp add: grown_def entries_new)

lemma move_set_grow:
  assumes inv: "hz_inv ss g" and i: "i < length ss" and at: "ss_at (ss ! i) = SetSlot r"
  shows "hz_inv (ss[i := (ss ! i)\<lparr>ss_at := GrowPub r (length (hz_heap g))\<rparr>])
    (alloc_array (grown (ss_size (ss ! i)) (own_array g (ss ! i))) g)" (is "hz_inv (ss[i := ?s']) (alloc_array ?A' g)")
proof -
  let ?s = "ss ! i"
  have ok: "sess_ok g i ?s" by (rule hz_invD(1) [OF inv i])
  obtain a where h: "ss_hazard ?s = Some a" "ss_active ?s" by (rule active_hazard [OF inv i]) (use at in simp)
  note A = array_okD [OF ok h(1), unfolded at, simplified]
  have own: "own_array (alloc_array ?A' g) ?s' = own_array g ?s" using own_in_heap [OF ok h(1)] h(1) by (simp add: own_array_def)
  have "size (entries (own_array g ?s)) \<le> ss_inuse ?s" by (rule size_entries) (use A in auto)
  then have "length (ss_uses ?s) \<le> ss_inuse ?s" using A by (simp add: without_pend_def)
  then have n: "ss_n ?s < 2 * ss_size ?s" using A by simp
  show ?thesis
  proof (rule alloc_step [OF inv i])
    show "array_ok (alloc_array ?A' g) ?s'" by (rule array_okI [of _ a, OF _ own]) (use A h in \<open>auto simp: without_pend_def\<close>)
    show "hz_at_ok (alloc_array ?A' g) ?s' (ss_at ?s')" using n own by simp
    show "checked g ?s q k" if "checked (alloc_array ?A' g) ?s' q k" for q k using that unfolding checked_def own by (simp add: at)
  qed (use at h sess_okD(1) [OF ok] in \<open>auto simp: flags_ok_def owned_def held_def opt_list_def\<close>)
qed

lemma move_grow_pub:
  assumes inv: "hz_inv ss g" and i: "i < length ss" and at: "ss_at (ss ! i) = GrowPub r new"
  shows "hz_inv (ss[i := (ss ! i)\<lparr>ss_hazard := Some new, ss_at := GrowSize r (the (ss_hazard (ss ! i)))\<rparr>]) g" (is "hz_inv (ss[i := ?s']) g")
proof -
  let ?s = "ss ! i"
  let ?A = "own_array g ?s"
  have ok: "sess_ok g i ?s" by (rule hz_invD(1) [OF inv i])
  obtain a where h: "ss_hazard ?s = Some a" "ss_active ?s" by (rule active_hazard [OF inv i]) (use at in simp)
  note A = array_okD [OF ok h(1), unfolded at, simplified]
  have own: "own_array g ?s' = grown (ss_size ?s) ?A" and n: "ss_n ?s < 2 * ss_size ?s"
    using inv_at [OF inv i] at by (simp_all add: own_array_def)
  note g = nth_grown [OF A(1)] length_grown [OF A(1)] entries_grown [OF A(1)]
  show ?thesis
  proof (rule session_step [OF inv i])
    show "array_ok g ?s'" by (rule array_okI [of _ new, OF _ own]) (use A h g in \<open>auto simp: without_pend_def\<close>)
    show "checked g ?s q k" if "checked g ?s' q k" for q k using that A(1) unfolding checked_def own by (auto simp: g h at)
    show "ss_hazard ?s' \<noteq> None \<and> length ?A \<le> length (own_array g ?s')" unfolding own using A(1) g by simp
  qed (use at h n sess_okD(1) [OF ok] in \<open>auto simp: flags_ok_def owned_def held_def opt_list_def\<close>)
qed

lemma move_grow_size:
  assumes inv: "hz_inv ss g" and i: "i < length ss" and at: "ss_at (ss ! i) = GrowSize r old"
  shows "hz_inv (ss[i := (ss ! i)\<lparr>ss_size := ss_size (ss ! i) * 2, ss_at := GrowGen r old\<rparr>]) g" (is "hz_inv (ss[i := ?s']) g")
proof -
  let ?s = "ss ! i"
  have ok: "sess_ok g i ?s" by (rule hz_invD(1) [OF inv i])
  obtain a where h: "ss_hazard ?s = Some a" "ss_active ?s" by (rule active_hazard [OF inv i]) (use at in simp)
  note A = array_okD [OF ok h(1), unfolded at, simplified]
  have n: "ss_n ?s < 2 * ss_size ?s" using inv_at [OF inv i] at by simp
  show ?thesis
  proof (rule session_step [OF inv i])
    show "array_ok g ?s'" by (rule array_okI [of _ a, OF _ own_upd]) (use A h in \<open>auto simp: without_pend_def\<close>)
  qed (use at h n sess_okD(1) [OF ok] in \<open>auto simp: flags_ok_def owned_def held_def checked_def own_array_def\<close>)
qed

lemma move_grow_stash:
  assumes inv: "hz_inv ss g" and i: "i < length ss" and at: "ss_at (ss ! i) = GrowStash r gen old"
    and p: "p = DiscCnt (Some r) \<or> p = SetTake r"
  shows "hz_inv (ss[i := (ss ! i)\<lparr>ss_stash := ss_stash (ss ! i) @ [(gen, old)], ss_at := p\<rparr>]) g" (is "hz_inv (ss[i := ?s']) g")
proof -
  let ?s = "ss ! i"
  have ok: "sess_ok g i ?s" by (rule hz_invD(1) [OF inv i])
  obtain a where h: "ss_hazard ?s = Some a" "ss_active ?s" by (rule active_hazard [OF inv i]) (use at in simp)
  note A = array_okD [OF ok h(1), unfolded at, simplified]
  have n: "ss_n ?s < ss_size ?s" using inv_at [OF inv i] at by simp
  have q: "pend p = None" "is_count p = False" "is_grow_size p = False" "limbo p = None" "lock_of p = None" "\<not> api_locked p"
    "\<not> entered p" "at_active p" "blind p" using p by auto
  show ?thesis
  proof (rule session_step [OF inv i])
    show "array_ok g ?s'" by (rule array_okI [of _ a, OF _ own_upd]) (use A h q in \<open>auto simp: without_pend_def\<close>)
    show "hz_at_ok g ?s' (ss_at ?s')" using p n by auto
    show "held v b ?s'" if "held v b ?s" for v b using that unfolding held_def by (auto simp: at)
  qed (use at h q sess_okD(1) [OF ok] in \<open>auto simp: flags_ok_def owned_def checked_def own_array_def opt_list_def\<close>)
qed

subsection \<open>Freeing a stashed array\<close>

text \<open>No thread looks at an array whose generation is older than any in use.\<close>

lemma stashed_walk:
  assumes inv: "hz_inv ss g" and i: "i < length ss" and at: "ss_at (ss ! i) = DiscFree k oldest"
    and st: "ss_stash (ss ! i) = (gen, a) # rest" "gen < oldest" and c: "c < length ss" and w: "ss_at (ss ! c) = EvWalk r x i u b m"
  shows "b \<noteq> a"
proof
  assume b: "b = a"
  let ?s = "ss ! i" and ?t = "ss ! c"
  have ok: "sess_ok g i ?s" by (rule hz_invD(1) [OF inv i])
  have d: "distinct (owned ?s)" using sess_okD(2) [OF ok] by (simp add: heap_ok_def)
  have "held (ss_gen ?t) a ?s" using hz_invD(3) [OF inv c i] w b by (simp add: look_ok_def)
  moreover have "ss_hazard ?s \<noteq> Some a" using d st(1) by (auto simp: owned_def opt_list_def)
  moreover have "v < gen" if "(v', a) \<in> set (ss_stash ?s)" "v < v'" for v v'
  proof -
    have "a \<notin> snd ` set rest" using d st(1) by (auto simp: owned_def)
    then have "(v', a) \<notin> set rest" by force
    then show ?thesis using that st(1) by simp
  qed
  ultimately have "ss_gen ?t < gen" unfolding held_def by (auto simp: at)
  moreover have "oldest \<le> ss_gen ?t"
    using hz_invD(3) [OF inv i c] at st(1) w b by (auto simp: look_ok_def disc_ok_def)
  ultimately show False using st(2) by simp
qed

lemma free_simps [simp]:
  "length (hz_heap (free_array a g)) = length (hz_heap g)" "hz_gen (free_array a g) = hz_gen g"
  "hz_cnt (free_array a g) = hz_cnt g" "hz_ref (free_array a g) = hz_ref g"
  "b \<noteq> a \<Longrightarrow> hz_heap (free_array a g) ! b = hz_heap g ! b" "b \<noteq> a \<Longrightarrow> array_at (free_array a g) b = array_at g b"
  by (simp_all add: free_array_def array_at_def)

lemma move_disc_free:
  assumes inv: "hz_inv ss g" and i: "i < length ss" and at: "ss_at (ss ! i) = DiscFree k oldest"
    and st: "ss_stash (ss ! i) = (gen, a) # rest" "gen < oldest"
  shows "hz_inv (ss[i := (ss ! i)\<lparr>ss_stash := rest\<rparr>]) (free_array a g)"
proof (rule hz_inv_step [OF inv i])
  let ?s = "ss ! i"
  let ?s' = "?s\<lparr>ss_stash := rest\<rparr>"
  let ?g = "free_array a g"
  have ok: "sess_ok g i ?s" by (rule hz_invD(1) [OF inv i])
  obtain h where h: "ss_hazard ?s = Some h" "ss_active ?s" by (rule active_hazard [OF inv i]) (use at in simp)
  have d: "distinct (owned ?s)" using sess_okD(2) [OF ok] by (simp add: heap_ok_def)
  have os: "owned ?s = h # a # map snd rest" by (simp add: owned_def opt_list_def h st at)
  have os': "owned ?s' = h # map snd rest" by (simp add: owned_def opt_list_def h at)
  have ha: "h \<noteq> a" and na: "a \<notin> set (owned ?s')" using d unfolding os os' by auto
  have own: "own_array ?g ?s' = own_array g ?s" using ha by (simp add: own_array_def h)
  show "hz_kept g ?g j (ss ! j)" if j: "j < length ss" "j \<noteq> i" for j
  proof -
    have "b \<noteq> a" if "b \<in> set (owned (ss ! j))" for b
      using hz_invD(2) [OF inv i j(1)] j(2) that unfolding apart_ok_def os by auto
    then show ?thesis by (simp add: hz_kept_def)
  qed
  show "sess_ok ?g i ?s'"
  proof -
    have sub: "set (owned ?s') \<subseteq> set (owned ?s)" "distinct (owned ?s')" using d unfolding os os' by auto
    have "heap_ok ?g ?s'" unfolding heap_ok_def
    proof (intro conjI ballI)
      fix b assume b: "b \<in> set (owned ?s')"
      then have "b \<noteq> a" "b < length (hz_heap g)" "hz_heap g ! b \<noteq> None" using na sub sess_okD(2) [OF ok] unfolding heap_ok_def by auto
      then show "b < length (hz_heap ?g)" "hz_heap ?g ! b \<noteq> None" by simp_all
    qed (rule sub)
    moreover have "array_ok ?g ?s'"
      by (rule array_okI [OF _ own]) (use array_okD [OF ok h(1)] h(1) in simp_all)
    ultimately show ?thesis using sess_okD(1,4,5) [OF ok] at by (simp add: sess_ok_def flags_ok_def gens_ok_def)
  qed
  show "apart_ok ?s' (ss ! j)" if "apart_ok ?s (ss ! j)" for j
    using that unfolding apart_ok_def os os' by auto
  show "look_ok g ?s' b (ss ! b)" if "look_ok g ?s b (ss ! b)" for b
    using that st by (auto simp: look_ok_def at scan_ok_def disc_ok_def)
  show "look_ok ?g t i ?s'" if t: "look_ok g t i ?s" "c < length ss" "c = i \<and> t = ?s' \<or> c \<noteq> i \<and> t = ss ! c" for c t
  proof -
    have w: "walk_ok g (ss_gen t) (ss_at t) i ?s" and sc: "scan_ok g (ss_at t) i ?s" using t(1) by (simp_all add: look_ok_def)
    have ne: "b \<noteq> a" if e: "ss_at t = EvWalk r x i u b m" for r x u b m
    proof (cases "c = i")
      case True
      then show ?thesis using t(3) e at by simp
    next
      case False
      then show ?thesis using t(3) e stashed_walk [OF inv i at st t(2)] by blast
    qed
    have ch: "checked ?g ?s' = checked g ?s" unfolding checked_def own by (simp add: fun_eq_iff)
    have "walk_ok ?g (ss_gen t) (ss_at t) i ?s'"
    proof (cases "ss_at t")
      case (EvWalk r x j u b m)
      have "held (ss_gen t) b ?s'" if "j = i" "held (ss_gen t) b ?s"
        using that ne EvWalk st unfolding held_def by auto
      then show ?thesis using w ne EvWalk by auto
    qed (use w own in simp_all)
    moreover have "scan_ok ?g (ss_at t) i ?s'" unfolding scan_ok_def ch
    proof (intro allI impI)
      fix r m assume "lock_of (ss_at t) = Some r" "checked g ?s r m"
      then have "before g (ss_at t) i m" using sc by (simp add: scan_ok_def)
      then show "before ?g (ss_at t) i m" using ne by (cases "ss_at t") auto
    qed
    moreover have "disc_ok (ss_at t) (ss_stash t) i ?s'" by (simp add: disc_ok_def at)
    ultimately show ?thesis by (simp add: look_ok_def)
  qed
qed

subsection \<open>The sessions that are looked at\<close>

text \<open>The index of a session that a thread looks at is that of a session.\<close>

fun place_bound :: "nat \<Rightarrow> hz_place \<Rightarrow> bool" where
  "place_bound N (EvScan r c i) \<longleftrightarrow> c \<le> N"
| "place_bound N (EvInuse r c i) \<longleftrightarrow> c \<le> N \<and> i < N"
| "place_bound N (EvArray r c i u) \<longleftrightarrow> c \<le> N \<and> i < N"
| "place_bound N (EvWalk r c i u a k) \<longleftrightarrow> c \<le> N \<and> i < N"
| "place_bound N _ \<longleftrightarrow> True"

definition bounds_inv :: "hz_session list \<Rightarrow> hz_shared \<Rightarrow> bool" where
  "bounds_inv ss g \<longleftrightarrow> hz_cnt g \<le> length ss \<and> (\<forall>s \<in> set ss. place_bound (length ss) (ss_at s))"

lemma after_bound: "place_bound N (after_discard k)"
  by (cases k) simp_all

lemma bounds_session:
  assumes "hz_session_move ss i s g s' g'" "i < length ss" "hz_cnt g \<le> length ss" "place_bound (length ss) (ss_at s)"
  shows "hz_cnt g' \<le> length ss \<and> place_bound (length ss) (ss_at s')"
  using assms
proof (induction rule: hz_session_move.induct)
  case (close_cnt s g)
  then show ?case using close_count_le [of ss "hz_cnt g"] by simp
qed (simp_all add: open_count_def)

lemma bounds_set:
  assumes "hz_set_move s g s' g'" "i < length ss" "hz_cnt g \<le> length ss" "place_bound (length ss) (ss_at s)"
  shows "hz_cnt g' \<le> length ss \<and> place_bound (length ss) (ss_at s')"
  using assms
  by (induction rule: hz_set_move.induct) (simp_all add: after_bound)

lemma bounds_grow:
  assumes "hz_grow_move s g s' g'" "i < length ss" "hz_cnt g \<le> length ss" "place_bound (length ss) (ss_at s)"
  shows "hz_cnt g' \<le> length ss \<and> place_bound (length ss) (ss_at s')"
  using assms
  by (induction rule: hz_grow_move.induct) (simp_all add: after_bound)

lemma bounds_oldest:
  assumes "hz_oldest_move ss i s g s' g'" "i < length ss" "hz_cnt g \<le> length ss" "place_bound (length ss) (ss_at s)"
  shows "hz_cnt g' \<le> length ss \<and> place_bound (length ss) (ss_at s')"
  using assms
  by (induction rule: hz_oldest_move.induct) (simp_all add: after_bound)

lemma bounds_discard:
  assumes "hz_discard_move s g s' g'" "i < length ss" "hz_cnt g \<le> length ss" "place_bound (length ss) (ss_at s)"
  shows "hz_cnt g' \<le> length ss \<and> place_bound (length ss) (ss_at s')"
  using assms
  by (induction rule: hz_discard_move.induct) (simp_all add: after_bound)

lemma bounds_clear:
  assumes "hz_clear_move s g s' g'" "i < length ss" "hz_cnt g \<le> length ss" "place_bound (length ss) (ss_at s)"
  shows "hz_cnt g' \<le> length ss \<and> place_bound (length ss) (ss_at s')"
  using assms
  by (induction rule: hz_clear_move.induct) (simp_all add: after_bound)

lemma bounds_gen:
  assumes "hz_gen_move s g s' g'" "i < length ss" "hz_cnt g \<le> length ss" "place_bound (length ss) (ss_at s)"
  shows "hz_cnt g' \<le> length ss \<and> place_bound (length ss) (ss_at s')"
  using assms
  by (induction rule: hz_gen_move.induct) (simp_all add: after_bound)

lemma bounds_check:
  assumes "hz_check_move ss i s g s' g'" "i < length ss" "hz_cnt g \<le> length ss" "place_bound (length ss) (ss_at s)"
  shows "hz_cnt g' \<le> length ss \<and> place_bound (length ss) (ss_at s')"
  using assms
  by (induction rule: hz_check_move.induct) (simp_all add: after_bound)

lemma bounds_evict:
  assumes "hz_evict_move s g s' g'" "i < length ss" "hz_cnt g \<le> length ss" "place_bound (length ss) (ss_at s)"
  shows "hz_cnt g' \<le> length ss \<and> place_bound (length ss) (ss_at s')"
  using assms
  by (induction rule: hz_evict_move.induct) (simp_all add: after_bound)

lemma bounds_move:
  assumes "hz_move ss i s g s' g'" "i < length ss" "hz_cnt g \<le> length ss" "place_bound (length ss) (ss_at s)"
  shows "hz_cnt g' \<le> length ss \<and> place_bound (length ss) (ss_at s')"
  using assms(1)
  by (cases rule: hz_move.cases)
    (rule bounds_session bounds_set bounds_grow bounds_oldest bounds_discard bounds_clear bounds_gen bounds_check bounds_evict,
      assumption, rule assms(2), rule assms(3), rule assms(4))+

lemma bounds_step:
  assumes "bounds_inv ss g" "hz_move ss i (ss ! i) g s' g'" "i < length ss"
  shows "bounds_inv (ss[i := s']) g'"
proof -
  have "hz_cnt g' \<le> length ss \<and> place_bound (length ss) (ss_at s')"
    using bounds_move [OF assms(2,3)] assms(1) nth_mem [OF assms(3)] by (simp add: bounds_inv_def)
  then show ?thesis using assms(1) set_update_subset_insert [of ss i s'] unfolding bounds_inv_def by auto
qed

lemma after_discard_step:
  assumes "hz_inv ss g" "i < length ss" "ss_at (ss ! i) = DiscFree k old"
  shows "hz_inv (ss[i := (ss ! i)\<lparr>ss_at := after_discard k\<rparr>]) g"
  by (cases k; simp only: after_discard.simps; rule blind_step [OF assms]) simp_all

lemma hz_inv_session:
  assumes mv: "hz_session_move ss i (ss ! i) g s' g'" and inv: "hz_inv ss g" and b: "bounds_inv ss g" and i: "i < length ss"
  shows "hz_inv (ss[i := s']) g'"
  using mv
proof cases
  case open_cnt then show ?thesis using move_open_cnt [OF inv i] by blast
next
  case open_first then show ?thesis using move_open_first [OF inv i] by blast
next
  case open_again then show ?thesis using move_open_again [OF inv i] by blast
next
  case close then show ?thesis using move_close [OF inv i] by blast
next
  case close_cnt then show ?thesis using move_close_cnt [OF inv i] by blast
qed

lemma hz_inv_set:
  assumes mv: "hz_set_move (ss ! i) g s' g'" and inv: "hz_inv ss g" and b: "bounds_inv ss g" and i: "i < length ss"
  shows "hz_inv (ss[i := s']) g'"
  using mv
proof cases
  case (set r)
  show ?thesis unfolding set(1,2) by (rule blind_step [OF inv i set(3)]) (use set in simp_all)
next
  case (set_look r)
  show ?thesis unfolding set_look(1,2)
    by (cases "hz_ref g r = RefMem"; simp only: if_True if_False refl; rule blind_step [OF inv i set_look(3)]) simp_all
next
  case (set_fits r)
  show ?thesis unfolding set_fits(1,2) by (rule blind_step [OF inv i set_fits(3)]) (use set_fits in simp_all)
next
  case set_next then show ?thesis using move_set_next [OF inv i] by blast
next
  case set_search then show ?thesis using move_set_search [OF inv i] by blast
next
  case set_write then show ?thesis using move_set_write [OF inv i] by blast
next
  case set_ok then show ?thesis using move_set_ok [OF inv i] by blast
next
  case set_busy
  show ?thesis unfolding set_busy(1,2) by (rule blind_step [OF inv i set_busy(3)]) (use set_busy in simp_all)
next
  case set_undo then show ?thesis using move_set_undo [OF inv i] by blast
qed

lemma hz_inv_grow:
  assumes mv: "hz_grow_move (ss ! i) g s' g'" and inv: "hz_inv ss g" and b: "bounds_inv ss g" and i: "i < length ss"
  shows "hz_inv (ss[i := s']) g'"
  using mv
proof cases
  case set_grow then show ?thesis using move_set_grow [OF inv i] by blast
next
  case grow_pub then show ?thesis using move_grow_pub [OF inv i] by blast
next
  case grow_size then show ?thesis using move_grow_size [OF inv i] by blast
next
  case grow_gen then show ?thesis using move_grow_gen [OF inv i] by blast
next
  case (grow_stash r gen old)
  show ?thesis unfolding grow_stash by (rule move_grow_stash [OF inv i grow_stash(3)]) simp
qed

lemma hz_inv_oldest:
  assumes mv: "hz_oldest_move ss i (ss ! i) g s' g'" and inv: "hz_inv ss g" and b: "bounds_inv ss g" and i: "i < length ss"
  shows "hz_inv (ss[i := s']) g'"
  using mv
proof cases
  case disc_cnt then show ?thesis using move_disc_cnt [OF inv i] by blast
next
  case disc_gen then show ?thesis using move_disc_gen [OF inv i] by blast
next
  case disc_skip then show ?thesis using move_disc_skip [OF inv i] by blast
next
  case disc_active then show ?thesis using move_disc_active [OF inv i] by blast
next
  case disc_read then show ?thesis using move_disc_read [OF inv i] by blast
next
  case disc_end then show ?thesis using move_disc_end [OF inv i] by blast
qed

lemma hz_inv_discard:
  assumes mv: "hz_discard_move (ss ! i) g s' g'" and inv: "hz_inv ss g" and b: "bounds_inv ss g" and i: "i < length ss"
  shows "hz_inv (ss[i := s']) g'"
  using mv
proof cases
  case discard
  show ?thesis unfolding discard(1,2) by (rule blind_step [OF inv i discard(3)]) (use discard in simp_all)
next
  case disc_free then show ?thesis using move_disc_free [OF inv i] by blast
next
  case disc_stop then show ?thesis using after_discard_step [OF inv i] by blast
qed

lemma hz_inv_clear:
  assumes mv: "hz_clear_move (ss ! i) g s' g'" and inv: "hz_inv ss g" and b: "bounds_inv ss g" and i: "i < length ss"
  shows "hz_inv (ss[i := s']) g'"
  using mv
proof cases
  case clear
  show ?thesis unfolding clear(1,2) by (rule blind_step [OF inv i clear(3)]) (use clear in simp_all)
next
  case clear_slot then show ?thesis using move_clear_slot [OF inv i] by blast
next
  case clear_count then show ?thesis using move_clear_count [OF inv i] by blast
qed

lemma hz_inv_gen:
  assumes mv: "hz_gen_move (ss ! i) g s' g'" and inv: "hz_inv ss g" and b: "bounds_inv ss g" and i: "i < length ss"
  shows "hz_inv (ss[i := s']) g'"
  using mv
proof cases
  case gen_read then show ?thesis using move_gen_read [OF inv i] by blast
next
  case gen_publish then show ?thesis using move_gen_publish [OF inv i] by blast
next
  case gen_again then show ?thesis using move_gen_again [OF inv i] by blast
next
  case gen_leave then show ?thesis using move_gen_leave [OF inv i] by blast
qed

lemma hz_inv_check:
  assumes mv: "hz_check_move ss i (ss ! i) g s' g'" and inv: "hz_inv ss g" and b: "bounds_inv ss g" and i: "i < length ss"
  shows "hz_inv (ss[i := s']) g'"
  using mv
proof cases
  case check_cnt then show ?thesis using move_check_cnt [OF inv i] by blast
next
  case check_skip then show ?thesis using move_check_skip [OF inv i] by blast
next
  case check_active then show ?thesis using move_check_active [OF inv i] by blast
next
  case check_inuse then show ?thesis using move_check_inuse [OF inv i] by blast
next
  case (check_array r c j u)
  have "place_bound (length ss) (ss_at (ss ! i))" using b nth_mem [OF i] by (simp add: bounds_inv_def)
  then have "j < length ss" using check_array by simp
  then show ?thesis using move_check_array [OF inv i] check_array by blast
next
  case check_slot then show ?thesis using move_check_slot [OF inv i] by blast
next
  case check_next then show ?thesis using move_check_next [OF inv i] by blast
next
  case check_end then show ?thesis using move_check_end [OF inv i] by blast
qed

lemma hz_inv_evict:
  assumes mv: "hz_evict_move (ss ! i) g s' g'" and inv: "hz_inv ss g" and b: "bounds_inv ss g" and i: "i < length ss"
  shows "hz_inv (ss[i := s']) g'"
  using mv
proof cases
  case (lock_release r)
  have "hz_ref g r \<noteq> RefLocked" using lock_release(5) by simp
  then show ?thesis unfolding lock_release(1,2) by (rule move_lock [OF inv i lock_release(3)]) (use lock_release(4) in simp)
next
  case (lock_evict r)
  have "hz_ref g r \<noteq> RefLocked" using lock_evict(4) by simp
  then show ?thesis unfolding lock_evict(1,2) by (rule move_lock [OF inv i lock_evict(3)]) simp
next
  case evict_busy then show ?thesis using move_unlock [OF inv i] by blast
next
  case evict_done then show ?thesis using move_unlock [OF inv i] by blast
next
  case (lock_other r)
  show ?thesis unfolding lock_other(1,2) by (rule move_lock [OF inv i lock_other(3,4)]) simp
next
  case unlock_other then show ?thesis using move_unlock [OF inv i] by blast
qed

lemma hz_inv_move:
  assumes mv: "hz_move ss i (ss ! i) g s' g'" and inv: "hz_inv ss g" and b: "bounds_inv ss g" and i: "i < length ss"
  shows "hz_inv (ss[i := s']) g'"
  using mv
  by (cases rule: hz_move.cases)
    (rule hz_inv_session hz_inv_set hz_inv_grow hz_inv_oldest hz_inv_discard hz_inv_clear hz_inv_gen hz_inv_check hz_inv_evict,
      assumption, rule inv, rule b, rule i)+

lemma hz_inv_start: "hz_inv (sy_sessions (hz_start n refs)) (sy_shared (hz_start n refs)) \<and> bounds_inv (sy_sessions (hz_start n refs)) (sy_shared (hz_start n refs))"
  by (simp add: hz_start_def hz_inv_def bounds_inv_def sess_ok_def flags_ok_def heap_ok_def array_ok_def gens_ok_def apart_ok_def look_ok_def
      scan_ok_def disc_ok_def owned_def opt_list_def)

lemma hz_inv_reach: "hz_reach n y \<Longrightarrow> hz_inv (sy_sessions y) (sy_shared y) \<and> bounds_inv (sy_sessions y) (sy_shared y)"
proof (induction rule: hz_reach.induct)
  case (step y y')
  from step.hyps(2) show ?case
    by cases (use step.IH hz_inv_move bounds_step in force)
qed (rule hz_inv_start)

subsection \<open>What it gives\<close>

text \<open>A page that has a hazard pointer has a checked slot.\<close>

lemma used_checked:
  assumes ok: "sess_ok g j t" and r: "r \<in> set (ss_uses t)"
  obtains k where "checked g t r k"
proof -
  have "ss_active t" using sess_okD(1) [OF ok] r unfolding flags_ok_def by auto
  then have h: "ss_hazard t \<noteq> None" using sess_okD(1) [OF ok] unfolding flags_ok_def by blast
  have "r \<in># entries (without_pend (ss_at t) (own_array g t))"
    using sess_okD(3) [OF ok] h r unfolding array_ok_def Let_def by simp
  then have "Some r \<in> set (without_pend (ss_at t) (own_array g t))" by (simp add: entries_mem)
  then obtain k where k: "k < length (without_pend (ss_at t) (own_array g t))" "without_pend (ss_at t) (own_array g t) ! k = Some r"
    by (metis in_set_conv_nth)
  have "checked g t r k"
    using k h unfolding checked_def without_pend_def
    by (auto split: option.splits simp: nth_list_update dest: cleared_slot split: if_splits)
  then show ?thesis ..
qed

lemma evicting_unused:
  assumes "hz_inv ss g" "i < length ss" "j < length ss" "ss_at (ss ! i) = Evicting r"
  shows "r \<notin> set (ss_uses (ss ! j))"
proof
  assume "r \<in> set (ss_uses (ss ! j))"
  then obtain k where "checked g (ss ! j) r k" using used_checked [OF hz_invD(1) [OF assms(1,3)]] by blast
  then show False using hz_invD(3) [OF assms(1-3)] assms(4) by (auto simp: look_ok_def scan_ok_def)
qed

lemma walk_allocated:
  assumes inv: "hz_inv ss g" and i: "i < length ss" and j: "j < length ss" and w: "ss_at (ss ! i) = EvWalk r c j u a k"
  shows "a < length (hz_heap g) \<and> hz_heap g ! a \<noteq> None \<and> u \<le> length (array_at g a)"
proof -
  have h: "held (ss_gen (ss ! i)) a (ss ! j)" "u \<le> length (array_at g a)" using hz_invD(3) [OF inv i j] w by (simp_all add: look_ok_def)
  show ?thesis using sess_okD(2) [OF hz_invD(1) [OF inv j]] held_owned [OF h(1)] h(2) unfolding heap_ok_def by blast
qed

text \<open>The assertions of \<open>__wt_hazard_set_func\<close>, and the search of \<open>__wt_hazard_clear\<close>.\<close>

lemma count_inuse:
  assumes "array_ok g s" "ss_hazard s \<noteq> None"
  shows "length (ss_uses s) \<le> ss_inuse s" "ss_inuse s \<le> ss_size s"
proof -
  let ?A = "without_pend (ss_at s) (own_array g s)"
  show "ss_inuse s \<le> ss_size s" using assms unfolding array_ok_def Let_def by blast
  have u: "\<forall>k < length (own_array g s). own_array g s ! k \<noteq> None \<longrightarrow> k < ss_inuse s" and e: "entries ?A = mset (ss_uses s)"
    using assms unfolding array_ok_def Let_def by blast+
  have "\<forall>k < length ?A. ?A ! k \<noteq> None \<longrightarrow> k < ss_inuse s"
    using u unfolding without_pend_def by (auto split: option.splits dest: cleared_slot)
  then have "size (entries ?A) \<le> ss_inuse s" by (rule size_entries)
  then show "length (ss_uses s) \<le> ss_inuse s" by (simp add: e)
qed

lemma full_entries:
  assumes "\<And>k. k < u \<Longrightarrow> A ! k \<noteq> None" "u \<le> length A"
  shows "u \<le> size (entries A)"
proof -
  have "card {..<u} \<le> card {k. k < length A \<and> A ! k \<noteq> None}" by (rule card_mono) (use assms in auto)
  also have "\<dots> = length (filter (\<lambda>x. x \<noteq> None) A)" by (simp add: length_filter_conv_card)
  also have "\<dots> = size (entries A)" unfolding entries_def by (simp flip: mset_filter)
  finally show ?thesis by simp
qed

lemma slot_found:
  assumes inv: "hz_inv ss g" and i: "i < length ss" and at: "ss_at (ss ! i) = SetTake r" and n: "ss_n (ss ! i) < ss_inuse (ss ! i)"
  shows "hazard_slot (ss_n (ss ! i)) (ss_inuse (ss ! i)) (own_array g (ss ! i)) \<noteq> None"
proof
  let ?s = "ss ! i"
  assume "hazard_slot (ss_n ?s) (ss_inuse ?s) (own_array g ?s) = None"
  then have full: "own_array g ?s ! k \<noteq> None" if "k < ss_inuse ?s" for k
    using that unfolding hazard_slot_def by (auto simp: find_None_iff)
  have ok: "sess_ok g i ?s" by (rule hz_invD(1) [OF inv i])
  obtain a where h: "ss_hazard ?s = Some a" by (rule active_hazard [OF inv i]) (use at in simp)
  note A = array_okD [OF ok h, unfolded at, simplified]
  have "ss_inuse ?s \<le> size (entries (own_array g ?s))" by (rule full_entries) (use full A in auto)
  then show False using n A by (simp add: without_pend_def)
qed

lemma clear_found:
  assumes inv: "hz_inv ss g" and i: "i < length ss" and at: "ss_at (ss ! i) = Clear r ev"
  shows "hazard_find r (ss_inuse (ss ! i)) (own_array g (ss ! i)) \<noteq> None"
proof -
  have ok: "sess_ok g i (ss ! i)" by (rule hz_invD(1) [OF inv i])
  have "r \<in> set (ss_uses (ss ! i))" using inv_at [OF inv i] at by simp
  then obtain k where k: "checked g (ss ! i) r k" using used_checked [OF ok] by blast
  then have "k < ss_inuse (ss ! i)" "own_array g (ss ! i) ! k = Some r" using checked_counted(3) [OF ok] by (auto simp: checked_def)
  then show ?thesis unfolding hazard_find_def find_None_iff by auto
qed

lemma set_asserts:
  assumes inv: "hz_inv ss g" and i: "i < length ss" and at: "ss_at (ss ! i) = SetSlot r"
  shows "ss_n (ss ! i) \<le> ss_inuse (ss ! i) \<and> ss_inuse (ss ! i) \<le> ss_size (ss ! i)"
proof -
  obtain a where h: "ss_hazard (ss ! i) = Some a" by (rule active_hazard [OF inv i]) (use at in simp)
  note A = array_okD [OF hz_invD(1) [OF inv i] h, unfolded at, simplified]
  show ?thesis using count_inuse [OF sess_okD(3) [OF hz_invD(1) [OF inv i]]] h A by simp
qed

lemma take_asserts:
  assumes inv: "hz_inv ss g" and i: "i < length ss" and at: "ss_at (ss ! i) = SetTake r"
  shows "ss_n (ss ! i) \<le> ss_inuse (ss ! i) \<and> ss_inuse (ss ! i) \<le> ss_size (ss ! i) \<and> ss_n (ss ! i) < ss_size (ss ! i)"
proof -
  obtain a where h: "ss_hazard (ss ! i) = Some a" by (rule active_hazard [OF inv i]) (use at in simp)
  note A = array_okD [OF hz_invD(1) [OF inv i] h, unfolded at, simplified]
  show ?thesis using count_inuse [OF sess_okD(3) [OF hz_invD(1) [OF inv i]]] h A inv_at [OF inv i] at by simp
qed

lemma write_free:
  assumes "hz_inv ss g" "i < length ss" "ss_at (ss ! i) = SetWrite r k"
  shows "k < ss_inuse (ss ! i) \<and> own_array g (ss ! i) ! k = None"
  using inv_at [OF assms(1,2)] assms(3) by simp

lemma count_entries: "count (entries A) r = length (filter (\<lambda>x. x = Some r) A)"
proof (induction A)
  case (Cons x A)
  then show ?case by (cases x) (auto simp: entries_def)
qed (simp add: entries_def)

lemma hazard_count_uses:
  assumes inv: "hz_inv ss g" and i: "i < length ss" and at: "ss_at (ss ! i) = Idle"
  shows "wt_hazard_count r (ss_inuse (ss ! i)) (own_array g (ss ! i)) = count (mset (ss_uses (ss ! i))) r"
proof -
  let ?s = "ss ! i"
  let ?A = "own_array g ?s"
  obtain a where h: "ss_hazard ?s = Some a" by (rule active_hazard [OF inv i]) (use at in simp)
  note A = array_okD [OF hz_invD(1) [OF inv i] h, unfolded at, simplified]
  have u: "{k. k < length ?A \<and> ?A ! k = Some r} = {k. k < ss_inuse ?s \<and> ?A ! k = Some r}" using A by fastforce
  have "count (mset (ss_uses ?s)) r = count (entries ?A) r" using A by (simp add: without_pend_def)
  also have "\<dots> = card {k. k < length ?A \<and> ?A ! k = Some r}" by (simp add: count_entries length_filter_conv_card)
  also have "\<dots> = length (filter (\<lambda>k. ?A ! k = Some r) [0..<ss_inuse ?s])"
    unfolding u by (simp add: length_filter_conv_card) (rule arg_cong [of _ _ card], auto)
  finally show ?thesis by (simp add: wt_hazard_count_def)
qed

lemma close_clean:
  assumes inv: "hz_inv ss g" and i: "i < length ss" and at: "ss_at (ss ! i) = Idle" and u: "ss_uses (ss ! i) = []"
  shows "wt_hazard_close (ss_n (ss ! i)) (ss_inuse (ss ! i)) (own_array g (ss ! i)) = (own_array g (ss ! i), 0, False)"
proof -
  let ?s = "ss ! i"
  obtain a where h: "ss_hazard ?s = Some a" by (rule active_hazard [OF inv i]) (use at in simp)
  note A = array_okD [OF hz_invD(1) [OF inv i] h, unfolded at, simplified]
  have "\<forall>k < length (own_array g ?s). own_array g ?s ! k = None" using A u by (simp add: without_pend_def entries_empty)
  moreover have "ss_inuse ?s \<le> length (own_array g ?s)" "ss_n ?s = 0" using A u by simp_all
  ultimately show ?thesis by (auto simp: wt_hazard_close_def list_ex_iff)
qed


lemma hz_reach_step:
  "hz_reach n y \<Longrightarrow> i < length (sy_sessions y) \<Longrightarrow> hz_move (sy_sessions y) i (sy_sessions y ! i) (sy_shared y) s g \<Longrightarrow>
    hz_reach n \<lparr>sy_sessions = (sy_sessions y)[i := s], sy_shared = g\<rparr>"
  by (rule hz_reach.step, assumption, rule hz_step.intros)

lemma hazard_trace: "\<exists>y. hz_reach 2 y \<and> map ss_at (sy_sessions y) = [Idle, Evicting 5] \<and> map ss_uses (sy_sessions y) = [[7], []]"
proof -
  note [simp] = hz_start_def open_count_def alloc_array_def put_slot_def set_ref_def array_at_def own_array_def
  have [simp]: "0 < hz_initial_slots" by (simp add: hz_initial_slots_def)
  have [simp]: "replicate 2 x = [x, x]" for x :: hz_session by (simp add: numeral_2_eq_2)
  have s0: "hz_reach 2 (hz_start 2 (\<lambda>_. RefMem))" by (rule hz_reach.start) simp
  note s1 = hz_reach_step [of _ _ 0, OF s0 _ hz_move.in_session [OF hz_session_move.open_cnt], simplified]
  note s2 = hz_reach_step [of _ _ 0, OF s1 _ hz_move.in_session [OF hz_session_move.open_first], simplified]
  note s3 = hz_reach_step [of _ _ 0, OF s2 _ hz_move.in_set [OF hz_set_move.set [where r = 7]], simplified]
  note s4 = hz_reach_step [of _ _ 0, OF s3 _ hz_move.in_set [OF hz_set_move.set_look [where r = 7]], simplified]
  note s5 = hz_reach_step [of _ _ 0, OF s4 _ hz_move.in_set [OF hz_set_move.set_fits [where r = 7]], simplified]
  note s6 = hz_reach_step [of _ _ 0, OF s5 _ hz_move.in_set [OF hz_set_move.set_next [where r = 7]], simplified]
  note s7 = hz_reach_step [of _ _ 0, OF s6 _ hz_move.in_set [OF hz_set_move.set_write [where r = 7 and k = 0]], simplified]
  note s8 = hz_reach_step [of _ _ 0, OF s7 _ hz_move.in_set [OF hz_set_move.set_ok [where r = 7 and k = 0]], simplified]
  note s9 = hz_reach_step [of _ _ 1, OF s8 _ hz_move.in_session [OF hz_session_move.open_cnt], simplified]
  note s10 = hz_reach_step [of _ _ 1, OF s9 _ hz_move.in_session [OF hz_session_move.open_first], simplified]
  note s11 = hz_reach_step [of _ _ 1, OF s10 _ hz_move.in_evict [OF hz_evict_move.lock_evict [where r = 5]], simplified]
  note s12 = hz_reach_step [of _ _ 1, OF s11 _ hz_move.in_gen [OF hz_gen_move.gen_read [where r = 5]], simplified]
  note s13 = hz_reach_step [of _ _ 1, OF s12 _ hz_move.in_gen [OF hz_gen_move.gen_publish [where r = 5 and v = 1]], simplified]
  note s14 = hz_reach_step [of _ _ 1, OF s13 _ hz_move.in_gen [OF hz_gen_move.gen_again [where r = 5]], simplified]
  note s15 = hz_reach_step [of _ _ 1, OF s14 _ hz_move.in_check [OF hz_check_move.check_cnt [where r = 5]], simplified]
  note s16 = hz_reach_step [of _ _ 1, OF s15 _ hz_move.in_check [OF hz_check_move.check_active [where r = 5 and c = 2 and j = 0]], simplified]
  note s17 = hz_reach_step [of _ _ 1, OF s16 _ hz_move.in_check [OF hz_check_move.check_inuse [where r = 5 and c = 2 and j = 0]], simplified]
  note s18 = hz_reach_step [of _ _ 1, OF s17 _ hz_move.in_check [OF hz_check_move.check_array [where r = 5 and c = 2 and j = 0 and u = 1]], simplified]
  note s19 = hz_reach_step [of _ _ 1, OF s18 _ hz_move.in_check [OF hz_check_move.check_slot [where r = 5 and c = 2 and j = 0 and u = 1 and a = 0 and k = 0]], simplified]
  note s20 = hz_reach_step [of _ _ 1, OF s19 _ hz_move.in_check [OF hz_check_move.check_next [where r = 5 and c = 2 and j = 0 and u = 1 and a = 0 and k = 1]], simplified]
  note s21 = hz_reach_step [of _ _ 1, OF s20 _ hz_move.in_check [OF hz_check_move.check_active [where r = 5 and c = 2 and j = 1]], simplified]
  note s22 = hz_reach_step [of _ _ 1, OF s21 _ hz_move.in_check [OF hz_check_move.check_inuse [where r = 5 and c = 2 and j = 1]], simplified]
  note s23 = hz_reach_step [of _ _ 1, OF s22 _ hz_move.in_check [OF hz_check_move.check_array [where r = 5 and c = 2 and j = 1 and u = 0]], simplified]
  note s24 = hz_reach_step [of _ _ 1, OF s23 _ hz_move.in_check [OF hz_check_move.check_next [where r = 5 and c = 2 and j = 1 and u = 0 and a = 1 and k = 0]], simplified]
  note s25 = hz_reach_step [of _ _ 1, OF s24 _ hz_move.in_check [OF hz_check_move.check_end [where r = 5 and c = 2 and j = 2]], simplified]
  note s26 = hz_reach_step [of _ _ 1, OF s25 _ hz_move.in_gen [OF hz_gen_move.gen_leave [where r = 5 and found = False]], simplified]
  show ?thesis by (rule exI, rule conjI, rule s26) simp
qed

text \<open>C10: hazard pointers protect pages and the arrays of hazard pointers protect themselves. However the threads
  interleave, a page that a thread evicts (it locked the page and found no hazard pointer for it) is not
  in use by any thread; and a thread that walks a session's array, at any point of the walk, reads inside
  an array that is allocated, though the array may have been replaced and stashed meanwhile.\<close>

theorem hazard_safe:
  assumes "hz_reach n y" and "s \<in> set (sy_sessions y)"
  shows "(\<forall>r t. ss_at s = Evicting r \<and> t \<in> set (sy_sessions y) \<longrightarrow> r \<notin> set (ss_uses t)) \<and>
    (\<forall>r c j u a k. ss_at s = EvWalk r c j u a k \<and> k < u \<longrightarrow> (\<exists>A. hz_heap (sy_shared y) ! a = Some A \<and> k < length A))"
proof -
  have inv: "hz_inv (sy_sessions y) (sy_shared y)" and b: "bounds_inv (sy_sessions y) (sy_shared y)" using hz_inv_reach [OF assms(1)] by blast+
  obtain i where i: "i < length (sy_sessions y)" "sy_sessions y ! i = s" using assms(2) by (metis in_set_conv_nth)
  have "r \<notin> set (ss_uses t)" if e: "ss_at s = Evicting r" and t: "t \<in> set (sy_sessions y)" for r t
    using t i e evicting_unused [OF inv i(1)] by (metis in_set_conv_nth)
  moreover have "\<exists>A. hz_heap (sy_shared y) ! a = Some A \<and> k < length A" if w: "ss_at s = EvWalk r c j u a k" and k: "k < u" for r c j u a k
  proof -
    have "j < length (sy_sessions y)" using b assms(2) w unfolding bounds_inv_def by auto
    then have "hz_heap (sy_shared y) ! a \<noteq> None \<and> u \<le> length (array_at (sy_shared y) a)"
      using walk_allocated [OF inv i(1)] w i(2) by blast
    then show ?thesis using k unfolding array_at_def by auto
  qed
  ultimately show ?thesis by blast
qed

theorem hazard_safe_witness:
  "\<exists>y. hz_reach 2 y \<and> map ss_at (sy_sessions y) = [Idle, Evicting 5] \<and> map ss_uses (sy_sessions y) = [[7], []] \<and>
    5 \<notin> set (ss_uses (sy_sessions y ! 0))"
proof -
  obtain y where y: "hz_reach 2 y" "map ss_at (sy_sessions y) = [Idle, Evicting 5]" "map ss_uses (sy_sessions y) = [[7], []]"
    using hazard_trace by (elim exE conjE)
  have "length (map ss_at (sy_sessions y)) = 2" unfolding y(2) by simp
  then have l: "length (sy_sessions y) = 2" by simp
  then have "ss_at (sy_sessions y ! 1) = Evicting 5" using nth_map [of 1 "sy_sessions y" ss_at] y(2) by simp
  then have "5 \<notin> set (ss_uses (sy_sessions y ! 0))"
    using hazard_safe [OF y(1), of "sy_sessions y ! 1"] l by (simp add: nth_mem)
  then show ?thesis using y by (intro exI [of _ y] conjI)
qed

text \<open>C11: the assertions of the hazard pointer functions hold. When \<open>__wt_hazard_set_func\<close> grows the array or makes
  another slot visible, the counts are those it asserts; its search ends at an empty slot; the slot it
  writes is empty; \<open>__wt_hazard_clear\<close> finds the page and does not panic; \<open>__wt_hazard_count\<close> counts the uses;
  and \<open>__wt_hazard_close\<close> finds nothing when the thread uses no page.\<close>

theorem hazard_asserts:
  assumes "hz_reach n y" and "s \<in> set (sy_sessions y)"
  shows "(\<forall>r. ss_at s = SetSlot r \<and> ss_n s \<ge> ss_size s \<longrightarrow> ss_n s = ss_size s \<and> ss_inuse s = ss_size s) \<and>
    (\<forall>r. ss_at s = SetTake r \<and> ss_n s \<ge> ss_inuse s \<longrightarrow> ss_n s = ss_inuse s \<and> ss_inuse s < ss_size s) \<and>
    (\<forall>r. ss_at s = SetTake r \<and> ss_n s < ss_inuse s \<longrightarrow> ss_inuse s \<le> ss_size s \<and>
      hazard_slot (ss_n s) (ss_inuse s) (own_array (sy_shared y) s) \<noteq> None) \<and>
    (\<forall>r k. ss_at s = SetWrite r k \<longrightarrow> own_array (sy_shared y) s ! k = None) \<and>
    (\<forall>r ev. ss_at s = Clear r ev \<longrightarrow> hazard_find r (ss_inuse s) (own_array (sy_shared y) s) \<noteq> None) \<and>
    (\<forall>r. ss_at s = Idle \<longrightarrow> wt_hazard_count r (ss_inuse s) (own_array (sy_shared y) s) = count (mset (ss_uses s)) r) \<and>
    (ss_at s = Idle \<and> ss_uses s = [] \<longrightarrow>
      wt_hazard_close (ss_n s) (ss_inuse s) (own_array (sy_shared y) s) = (own_array (sy_shared y) s, 0, False))"
proof -
  have inv: "hz_inv (sy_sessions y) (sy_shared y)" using hz_inv_reach [OF assms(1)] by blast
  obtain i where i: "i < length (sy_sessions y)" and s: "s = sy_sessions y ! i" using assms(2) by (metis in_set_conv_nth)
  note A = set_asserts [OF inv i] and B = take_asserts [OF inv i] and C = slot_found [OF inv i] and D = write_free [OF inv i] and E = clear_found [OF inv i]
    and F = hazard_count_uses [OF inv i] and G = close_clean [OF inv i]
  show ?thesis unfolding s using A B C D E F G by (intro conjI allI impI; fastforce)
qed
theorem hazard_asserts_witness:
  "\<exists>y. hz_reach 2 y \<and> ss_at (sy_sessions y ! 0) = Idle \<and> ss_uses (sy_sessions y ! 0) = [7] \<and>
    wt_hazard_count 7 (ss_inuse (sy_sessions y ! 0)) (own_array (sy_shared y) (sy_sessions y ! 0)) = 1"
proof -
  obtain y where y: "hz_reach 2 y" "map ss_at (sy_sessions y) = [Idle, Evicting 5]" "map ss_uses (sy_sessions y) = [[7], []]"
    using hazard_trace by (elim exE conjE)
  have "length (map ss_at (sy_sessions y)) = 2" unfolding y(2) by simp
  then have l: "length (sy_sessions y) = 2" by simp
  have s: "ss_at (sy_sessions y ! 0) = Idle" "ss_uses (sy_sessions y ! 0) = [7]"
    using nth_map [of 0 "sy_sessions y" ss_at] nth_map [of 0 "sy_sessions y" ss_uses] y(2,3) l by simp_all
  have "wt_hazard_count 7 (ss_inuse (sy_sessions y ! 0)) (own_array (sy_shared y) (sy_sessions y ! 0)) = 1"
    using hazard_asserts [OF y(1), of "sy_sessions y ! 0"] s l by (simp add: nth_mem)
  then show ?thesis using y(1) s by (intro exI [of _ y] conjI)
qed

end
