(* ===== verification/Cell.thy ===== *)
theory Cell
  imports IntPack TimeWindow
begin

text \<open>
  Cells, the units that the image of a B-tree page is made of (\<open>src/include/cell.h\<close>,
  \<open>src/include/cell_inline.h\<close>): the functions that pack the bytes of a cell before its data, those that
  unpack a cell from a page, those that clear the transaction information of an earlier run, and the
  comparison of two value cells. Addresses are integers relative to the page image; a reader of a page is
  given its memory as a function from addresses to bytes, so that reading past the page is an address like
  any other.
\<close>

unbundle bit_operations_syntax

definition WT_CELL_KEY_SHORT :: u8 where "WT_CELL_KEY_SHORT = 0x01"
definition WT_CELL_KEY_SHORT_PFX :: u8 where "WT_CELL_KEY_SHORT_PFX = 0x02"
definition WT_CELL_VALUE_SHORT :: u8 where "WT_CELL_VALUE_SHORT = 0x03"
definition WT_CELL_SHORT_TYPE :: "u8 \<Rightarrow> u8" where "WT_CELL_SHORT_TYPE v = v AND 0x03"
definition WT_CELL_SHORT_MAX :: u64 where "WT_CELL_SHORT_MAX = 63"
definition WT_CELL_SHORT_SHIFT :: nat where "WT_CELL_SHORT_SHIFT = 2"
definition WT_CELL_64V :: u8 where "WT_CELL_64V = 0x04"
definition WT_CELL_SECOND_DESC :: u8 where "WT_CELL_SECOND_DESC = 0x08"

definition WT_CELL_PREPARE :: u8 where "WT_CELL_PREPARE = 0x01"
definition WT_CELL_TS_DURABLE_START :: u8 where "WT_CELL_TS_DURABLE_START = 0x02"
definition WT_CELL_TS_DURABLE_STOP :: u8 where "WT_CELL_TS_DURABLE_STOP = 0x04"
definition WT_CELL_TS_START :: u8 where "WT_CELL_TS_START = 0x08"
definition WT_CELL_TS_STOP :: u8 where "WT_CELL_TS_STOP = 0x10"
definition WT_CELL_TXN_START :: u8 where "WT_CELL_TXN_START = 0x20"
definition WT_CELL_TXN_STOP :: u8 where "WT_CELL_TXN_STOP = 0x40"

definition WT_CELL_ADDR_DEL :: u8 where "WT_CELL_ADDR_DEL = 0"
definition WT_CELL_ADDR_INT :: u8 where "WT_CELL_ADDR_INT = 0x10"
definition WT_CELL_ADDR_LEAF :: u8 where "WT_CELL_ADDR_LEAF = 0x20"
definition WT_CELL_ADDR_LEAF_NO :: u8 where "WT_CELL_ADDR_LEAF_NO = 0x30"
definition WT_CELL_DEL :: u8 where "WT_CELL_DEL = 0x40"
definition WT_CELL_KEY :: u8 where "WT_CELL_KEY = 0x50"
definition WT_CELL_KEY_OVFL :: u8 where "WT_CELL_KEY_OVFL = 0x60"
definition WT_CELL_KEY_OVFL_RM :: u8 where "WT_CELL_KEY_OVFL_RM = 0xc0"
definition WT_CELL_KEY_PFX :: u8 where "WT_CELL_KEY_PFX = 0x70"
definition WT_CELL_VALUE :: u8 where "WT_CELL_VALUE = 0x80"
definition WT_CELL_VALUE_COPY :: u8 where "WT_CELL_VALUE_COPY = 0x90"
definition WT_CELL_VALUE_OVFL :: u8 where "WT_CELL_VALUE_OVFL = 0xa0"
definition WT_CELL_VALUE_OVFL_RM :: u8 where "WT_CELL_VALUE_OVFL_RM = 0xb0"

definition WT_CELL_TYPE_MASK :: u8 where "WT_CELL_TYPE_MASK = 0xf0"
definition WT_CELL_TYPE :: "u8 \<Rightarrow> u8" where "WT_CELL_TYPE v = v AND WT_CELL_TYPE_MASK"
definition WT_CELL_SIZE_ADJUST :: u64 where "WT_CELL_SIZE_ADJUST = WT_CELL_SHORT_MAX + 1"

definition WT_CELL_UNPACK_OVERFLOW :: u8 where "WT_CELL_UNPACK_OVERFLOW = 0x1"
definition WT_CELL_UNPACK_TIME_WINDOW_CLEARED :: u8 where "WT_CELL_UNPACK_TIME_WINDOW_CLEARED = 0x2"

lemmas cell_short_defs = WT_CELL_KEY_SHORT_def WT_CELL_KEY_SHORT_PFX_def WT_CELL_VALUE_SHORT_def
lemmas cell_flag_defs = WT_CELL_PREPARE_def WT_CELL_TS_DURABLE_START_def WT_CELL_TS_DURABLE_STOP_def WT_CELL_TS_START_def
  WT_CELL_TS_STOP_def WT_CELL_TXN_START_def WT_CELL_TXN_STOP_def
lemmas cell_type_defs = WT_CELL_ADDR_DEL_def WT_CELL_ADDR_INT_def WT_CELL_ADDR_LEAF_def WT_CELL_ADDR_LEAF_NO_def WT_CELL_DEL_def
  WT_CELL_KEY_def WT_CELL_KEY_OVFL_def WT_CELL_KEY_OVFL_RM_def WT_CELL_KEY_PFX_def WT_CELL_VALUE_def WT_CELL_VALUE_COPY_def
  WT_CELL_VALUE_OVFL_def WT_CELL_VALUE_OVFL_RM_def

record page_deleted =
  pd_txnid :: u64
  pd_timestamp :: u64
  pd_durable_timestamp :: u64
  pd_prepare_state :: u8
  pd_previous_ref_state :: u8
  pd_committed :: bool
  pd_selected_for_write :: bool

subsection \<open>Packing\<close>

text \<open>The bytes \<open>__wt_vpack_uint\<close> stores on an unchecked buffer.\<close>

definition vpack :: "u64 \<Rightarrow> u8 list" where
  "vpack x = (case wt_vpack_uint 0 x of Inl e \<Rightarrow> [] | Inr bs \<Rightarrow> bs)"

text \<open>A field that is stored when a condition holds, with its bit of the second descriptor.\<close>

definition pack_if :: "bool \<Rightarrow> u64 \<Rightarrow> u8 list" where
  "pack_if c x = (if c then vpack x else [])"

definition flag_if :: "bool \<Rightarrow> u8 \<Rightarrow> u8" where
  "flag_if c f = (if c then f else 0)"

text \<open>The bit for the first descriptor, and the bytes after it.\<close>

definition cell_pack_value_validity :: "time_window \<Rightarrow> u8 \<times> u8 list" where
  "cell_pack_value_validity tw =
     (if WT_TIME_WINDOW_IS_EMPTY tw then (0, [])
      else
        let start_ts = tw_start_ts tw \<noteq> WT_TS_NONE;
            start_txn = tw_start_txn tw \<noteq> WT_TXN_NONE;
            durable_start = tw_durable_start_ts tw \<noteq> WT_TS_NONE \<and> tw_durable_start_ts tw - tw_start_ts tw > 0;
            stop_ts = tw_stop_ts tw \<noteq> WT_TS_MAX;
            stop_txn = tw_stop_txn tw \<noteq> WT_TXN_MAX;
            durable_stop = tw_durable_stop_ts tw \<noteq> WT_TS_NONE \<and> tw_durable_stop_ts tw - tw_stop_ts tw > 0;
            flags = flag_if start_ts WT_CELL_TS_START OR flag_if start_txn WT_CELL_TXN_START OR
              flag_if durable_start WT_CELL_TS_DURABLE_START OR flag_if stop_ts WT_CELL_TS_STOP OR
              flag_if stop_txn WT_CELL_TXN_STOP OR flag_if durable_stop WT_CELL_TS_DURABLE_STOP OR
              flag_if (tw_prepare tw \<noteq> 0) WT_CELL_PREPARE
        in (WT_CELL_SECOND_DESC,
          [flags] @ pack_if start_ts (tw_start_ts tw) @ pack_if start_txn (tw_start_txn tw) @
          pack_if durable_start (tw_durable_start_ts tw - tw_start_ts tw) @
          pack_if stop_ts (tw_stop_ts tw - tw_start_ts tw) @ pack_if stop_txn (tw_stop_txn tw - tw_start_txn tw) @
          pack_if durable_stop (tw_durable_stop_ts tw - tw_stop_ts tw)))"

definition cell_pack_addr_validity :: "time_aggregate \<Rightarrow> u8 \<times> u8 list" where
  "cell_pack_addr_validity ta =
     (if WT_TIME_AGGREGATE_IS_EMPTY ta then (0, [])
      else
        let start_ts = ta_oldest_start_ts ta \<noteq> WT_TS_NONE;
            start_txn = ta_newest_txn ta \<noteq> WT_TXN_NONE;
            durable_start = ta_newest_start_durable_ts ta \<noteq> WT_TS_NONE;
            stop_ts = ta_newest_stop_ts ta \<noteq> WT_TS_MAX;
            stop_txn = ta_newest_stop_txn ta \<noteq> WT_TXN_MAX;
            durable_stop = ta_newest_stop_durable_ts ta \<noteq> WT_TS_NONE;
            flags = flag_if start_ts WT_CELL_TS_START OR flag_if start_txn WT_CELL_TXN_START OR
              flag_if durable_start WT_CELL_TS_DURABLE_START OR flag_if stop_ts WT_CELL_TS_STOP OR
              flag_if stop_txn WT_CELL_TXN_STOP OR flag_if durable_stop WT_CELL_TS_DURABLE_STOP OR
              flag_if (ta_prepare ta \<noteq> 0) WT_CELL_PREPARE
        in (WT_CELL_SECOND_DESC,
          [flags] @ pack_if start_ts (ta_oldest_start_ts ta) @ pack_if start_txn (ta_newest_txn ta) @
          pack_if durable_start (ta_newest_start_durable_ts ta - ta_oldest_start_ts ta) @
          pack_if stop_ts (ta_newest_stop_ts ta - ta_oldest_start_ts ta) @
          pack_if stop_txn (ta_newest_stop_txn ta - ta_newest_txn ta) @
          pack_if durable_stop (ta_newest_stop_durable_ts ta - ta_newest_stop_ts ta)))"

text \<open>The fast-truncate information is written when it is there and the process wants it (\<open>fast_truncate_2022\<close>).\<close>

definition wt_cell_pack_addr ::
    "bool \<Rightarrow> u8 \<Rightarrow> u64 \<Rightarrow> page_deleted option \<Rightarrow> time_aggregate \<Rightarrow> u64 \<Rightarrow> u8 list" where
  "wt_cell_pack_addr fast_truncate cell_type recno page_del ta size_v =
     (let (d, validity) = cell_pack_addr_validity ta;
          del = (case page_del of
              Some pd \<Rightarrow> if fast_truncate then vpack (pd_txnid pd) @ vpack (pd_timestamp pd) @ vpack (pd_durable_timestamp pd) else []
            | None \<Rightarrow> []) in
      if recno = 0 then [d OR cell_type] @ validity @ del @ vpack size_v
      else [d OR cell_type OR WT_CELL_64V] @ validity @ del @ vpack recno @ vpack size_v)"

definition wt_cell_pack_value :: "time_window \<Rightarrow> u64 \<Rightarrow> u64 \<Rightarrow> u8 list" where
  "wt_cell_pack_value tw rle size_v =
     (let (d, bytes) = cell_pack_value_validity tw; validity = (d AND WT_CELL_SECOND_DESC \<noteq> 0) in
      if \<not> validity \<and> rle < 2 \<and> size_v \<le> WT_CELL_SHORT_MAX then
        [push_bit WT_CELL_SHORT_SHIFT (ucast size_v) OR WT_CELL_VALUE_SHORT] @ bytes
      else if \<not> validity \<and> rle < 2 then [d OR WT_CELL_VALUE] @ bytes @ vpack (size_v - WT_CELL_SIZE_ADJUST)
      else [d OR (WT_CELL_VALUE OR WT_CELL_64V)] @ bytes @ vpack rle @ vpack size_v)"

definition wt_cell_pack_copy :: "time_window \<Rightarrow> u64 \<Rightarrow> u64 \<Rightarrow> u8 list" where
  "wt_cell_pack_copy tw rle v =
     (let (d, bytes) = cell_pack_value_validity tw in
      if rle < 2 then [d OR WT_CELL_VALUE_COPY] @ bytes @ vpack v
      else [d OR (WT_CELL_VALUE_COPY OR WT_CELL_64V)] @ bytes @ vpack rle @ vpack v)"

definition wt_cell_pack_del :: "time_window \<Rightarrow> u64 \<Rightarrow> u8 list" where
  "wt_cell_pack_del tw rle =
     (let (d, bytes) = cell_pack_value_validity tw in
      if rle < 2 then [d OR WT_CELL_DEL] @ bytes
      else [d OR (WT_CELL_DEL OR WT_CELL_64V)] @ bytes @ vpack rle)"

definition wt_cell_pack_int_key :: "u64 \<Rightarrow> u8 list" where
  "wt_cell_pack_int_key size_v =
     (if size_v \<le> WT_CELL_SHORT_MAX then [push_bit WT_CELL_SHORT_SHIFT (ucast size_v) OR WT_CELL_KEY_SHORT]
      else [WT_CELL_KEY] @ vpack (size_v - WT_CELL_SIZE_ADJUST))"

definition wt_cell_pack_leaf_key :: "u8 \<Rightarrow> u64 \<Rightarrow> u8 list" where
  "wt_cell_pack_leaf_key prefix size_v =
     (if size_v \<le> WT_CELL_SHORT_MAX then
        if prefix = 0 then [push_bit WT_CELL_SHORT_SHIFT (ucast size_v) OR WT_CELL_KEY_SHORT]
        else [push_bit WT_CELL_SHORT_SHIFT (ucast size_v) OR WT_CELL_KEY_SHORT_PFX, prefix]
      else if prefix = 0 then [WT_CELL_KEY] @ vpack (size_v - WT_CELL_SIZE_ADJUST)
      else [WT_CELL_KEY_PFX, prefix] @ vpack (size_v - WT_CELL_SIZE_ADJUST))"

text \<open>A key has no time window.\<close>

definition wt_cell_pack_ovfl :: "u8 \<Rightarrow> time_window option \<Rightarrow> u64 \<Rightarrow> u64 \<Rightarrow> u8 list" where
  "wt_cell_pack_ovfl ty tw rle size_v =
     (let (d, bytes) = (if ty = WT_CELL_VALUE_OVFL \<or> ty = WT_CELL_VALUE_OVFL_RM then cell_pack_value_validity (the tw) else (0, [])) in
      if rle < 2 then [d OR ty] @ bytes @ vpack size_v
      else [d OR (ty OR WT_CELL_64V)] @ bytes @ vpack rle @ vpack size_v)"

subsection \<open>Cell types\<close>

definition wt_cell_type_raw :: "u8 \<Rightarrow> u8" where
  "wt_cell_type_raw b = (if WT_CELL_SHORT_TYPE b = 0 then WT_CELL_TYPE b else WT_CELL_SHORT_TYPE b)"

definition wt_cell_type :: "u8 \<Rightarrow> u8" where
  "wt_cell_type b =
     (let s = WT_CELL_SHORT_TYPE b in
      if s = WT_CELL_KEY_SHORT \<or> s = WT_CELL_KEY_SHORT_PFX then WT_CELL_KEY
      else if s = WT_CELL_VALUE_SHORT then WT_CELL_VALUE
      else let ty = WT_CELL_TYPE b in
        if ty = WT_CELL_KEY_PFX then WT_CELL_KEY
        else if ty = WT_CELL_KEY_OVFL_RM then WT_CELL_KEY_OVFL
        else if ty = WT_CELL_VALUE_OVFL_RM then WT_CELL_VALUE_OVFL
        else ty)"

definition wt_cell_type_reset :: "u8 \<Rightarrow> u8 \<Rightarrow> u8" where
  "wt_cell_type_reset b new_type = (b AND NOT WT_CELL_TYPE_MASK) OR WT_CELL_TYPE new_type"

subsection \<open>Unpacking\<close>

text \<open>
  Memory gives the byte at every address; addresses are relative to the page image (\<open>dsk\<close>), which is at 0.
  \<open>end\<close> is the address just after the page, when the caller wants checks.
\<close>

type_synonym memory = "int \<Rightarrow> u8"

definition bytes_at :: "memory \<Rightarrow> int \<Rightarrow> nat \<Rightarrow> u8 list" where
  "bytes_at mem p n = map (\<lambda>i. mem (p + int i)) [0..<n]"

text \<open>
  \<open>__wt_vunpack_uint(&p, end == NULL ? 0 : WT_PTRDIFF(end, p), &x)\<close>: the value and the address after it. No
  packed integer is read from more than 16 bytes.
\<close>

definition vunpack_limit :: "int option \<Rightarrow> int \<Rightarrow> nat" where
  "vunpack_limit e p = (case e of None \<Rightarrow> 0 | Some x \<Rightarrow> nat ((x - p) mod 2 ^ 64))"

definition vunpack_at :: "memory \<Rightarrow> int option \<Rightarrow> int \<Rightarrow> (u64 \<times> int) result" where
  "vunpack_at mem e p =
     wt_ret (wt_vunpack_uint (vunpack_limit e p) (bytes_at mem p 16)) (\<lambda>(x, rest). Inr (x, p + 16 - int (length rest)))"

definition wt_cell_len_chk :: "int option \<Rightarrow> int \<Rightarrow> int \<Rightarrow> unit result" where
  "wt_cell_len_chk e start len =
     (case e of None \<Rightarrow> Inr () | Some x \<Rightarrow> if start < 0 \<or> start + len > x then Inl WT_ERROR else Inr ())"

definition cell_flag_isset :: "u8 \<Rightarrow> u8 \<Rightarrow> bool" where
  "cell_flag_isset flags f \<longleftrightarrow> flags AND f \<noteq> 0"

text \<open>An optional field: what to do with its value, or without it.\<close>

definition unpack_field :: "memory \<Rightarrow> int option \<Rightarrow> bool \<Rightarrow> (u64 \<Rightarrow> 's \<Rightarrow> 's) \<Rightarrow> ('s \<Rightarrow> 's) \<Rightarrow> 's \<times> int \<Rightarrow> ('s \<times> int) result" where
  "unpack_field mem e c upd dflt sp =
     (case sp of (s, p) \<Rightarrow> if c then wt_ret (vunpack_at mem e p) (\<lambda>(x, p). Inr (upd x s, p)) else Inr (dflt s, p))"

definition cell_unpack_value_validity :: "memory \<Rightarrow> int option \<Rightarrow> u8 \<Rightarrow> int \<Rightarrow> time_window \<Rightarrow> (time_window \<times> int) result" where
  "cell_unpack_value_validity mem e flags p tw =
     wt_ret (unpack_field mem e (cell_flag_isset flags WT_CELL_TS_START) (\<lambda>v tw. tw\<lparr>tw_start_ts := v\<rparr>) id
       (if cell_flag_isset flags WT_CELL_PREPARE then tw\<lparr>tw_prepare := 1\<rparr> else tw, p)) (\<lambda>sp.
     wt_ret (unpack_field mem e (cell_flag_isset flags WT_CELL_TXN_START) (\<lambda>v tw. tw\<lparr>tw_start_txn := v\<rparr>) id sp) (\<lambda>sp.
     wt_ret (unpack_field mem e (cell_flag_isset flags WT_CELL_TS_DURABLE_START)
       (\<lambda>v tw. tw\<lparr>tw_durable_start_ts := v + tw_start_ts tw\<rparr>) (\<lambda>tw. tw\<lparr>tw_durable_start_ts := tw_start_ts tw\<rparr>) sp) (\<lambda>sp.
     wt_ret (unpack_field mem e (cell_flag_isset flags WT_CELL_TS_STOP) (\<lambda>v tw. tw\<lparr>tw_stop_ts := v + tw_start_ts tw\<rparr>) id sp) (\<lambda>sp.
     wt_ret (unpack_field mem e (cell_flag_isset flags WT_CELL_TXN_STOP) (\<lambda>v tw. tw\<lparr>tw_stop_txn := v + tw_start_txn tw\<rparr>) id sp) (\<lambda>sp.
     unpack_field mem e (cell_flag_isset flags WT_CELL_TS_DURABLE_STOP) (\<lambda>v tw. tw\<lparr>tw_durable_stop_ts := v + tw_stop_ts tw\<rparr>)
       (\<lambda>tw. tw\<lparr>tw_durable_stop_ts := (if tw_stop_ts tw \<noteq> WT_TS_MAX then tw_stop_ts tw else WT_TS_NONE)\<rparr>) sp)))))"

definition cell_unpack_addr_validity :: "memory \<Rightarrow> int option \<Rightarrow> u8 \<Rightarrow> int \<Rightarrow> time_aggregate \<Rightarrow> (time_aggregate \<times> int) result" where
  "cell_unpack_addr_validity mem e flags p ta =
     wt_ret (unpack_field mem e (cell_flag_isset flags WT_CELL_TS_START) (\<lambda>v ta. ta\<lparr>ta_oldest_start_ts := v\<rparr>) id
       (if cell_flag_isset flags WT_CELL_PREPARE then ta\<lparr>ta_prepare := 1\<rparr> else ta, p)) (\<lambda>sp.
     wt_ret (unpack_field mem e (cell_flag_isset flags WT_CELL_TXN_START) (\<lambda>v ta. ta\<lparr>ta_newest_txn := v\<rparr>) id sp) (\<lambda>sp.
     wt_ret (unpack_field mem e (cell_flag_isset flags WT_CELL_TS_DURABLE_START)
       (\<lambda>v ta. ta\<lparr>ta_newest_start_durable_ts := v + ta_oldest_start_ts ta\<rparr>) id sp) (\<lambda>sp.
     wt_ret (unpack_field mem e (cell_flag_isset flags WT_CELL_TS_STOP) (\<lambda>v ta. ta\<lparr>ta_newest_stop_ts := v + ta_oldest_start_ts ta\<rparr>) id sp) (\<lambda>sp.
     wt_ret (unpack_field mem e (cell_flag_isset flags WT_CELL_TXN_STOP) (\<lambda>v ta. ta\<lparr>ta_newest_stop_txn := v + ta_newest_txn ta\<rparr>) id sp) (\<lambda>sp.
     unpack_field mem e (cell_flag_isset flags WT_CELL_TS_DURABLE_STOP) (\<lambda>v ta. ta\<lparr>ta_newest_stop_durable_ts := v + ta_newest_stop_ts ta\<rparr>) id sp)))))"

text \<open>
  The unpacked cell: the common fields, the time window of a value cell (\<open>WT_CELL_UNPACK_KV\<close>), and the time
  aggregate and fast-truncate information of an address cell (\<open>WT_CELL_UNPACK_ADDR\<close>). A null pointer is \<open>None\<close>.
\<close>

record cell_unpack =
  cu_cell :: "int option"
  cu_v :: u64
  cu_data :: "int option"
  cu_size :: u32
  cu_len :: u32
  cu_prefix :: u8
  cu_raw :: u8
  cu_type :: u8
  cu_flags :: u8
  cu_tw :: time_window
  cu_ta :: time_aggregate
  cu_del :: page_deleted

definition is_addr_cell :: "u8 \<Rightarrow> bool" where
  "is_addr_cell raw \<longleftrightarrow> raw \<in> {WT_CELL_ADDR_DEL, WT_CELL_ADDR_INT, WT_CELL_ADDR_LEAF, WT_CELL_ADDR_LEAF_NO}"

definition is_value_cell :: "u8 \<Rightarrow> bool" where
  "is_value_cell raw \<longleftrightarrow> raw \<in> {WT_CELL_DEL, WT_CELL_VALUE, WT_CELL_VALUE_COPY, WT_CELL_VALUE_OVFL, WT_CELL_VALUE_OVFL_RM}"

definition is_ovfl_cell :: "u8 \<Rightarrow> bool" where
  "is_ovfl_cell raw \<longleftrightarrow> raw \<in> {WT_CELL_KEY_OVFL, WT_CELL_KEY_OVFL_RM, WT_CELL_VALUE_OVFL, WT_CELL_VALUE_OVFL_RM}"

text \<open>
  The validity window, if the cell has one: the caller's kind of cell is checked, and the second descriptor
  is skipped. \<open>addr\<close> is whether the caller unpacks an address cell.
\<close>

definition cell_unpack_validity ::
    "memory \<Rightarrow> bool \<Rightarrow> int option \<Rightarrow> u8 \<Rightarrow> u8 \<Rightarrow> int \<Rightarrow> time_window \<Rightarrow> time_aggregate \<Rightarrow> ((time_window \<times> time_aggregate) \<times> int) result" where
  "cell_unpack_validity mem addr e b raw p tw ta =
     (if is_addr_cell raw then
        if \<not> addr then Inl WT_ERROR
        else if b AND WT_CELL_SECOND_DESC = 0 then Inr ((tw, ta), p)
        else let flags = mem p; p = p + 1 in
          wt_ret (wt_cell_len_chk e p 0) (\<lambda>_.
          wt_ret (cell_unpack_addr_validity mem e flags p ta) (\<lambda>(ta, p). Inr ((tw, ta), p)))
      else if is_value_cell raw then
        if addr then Inl WT_ERROR
        else if b AND WT_CELL_SECOND_DESC = 0 then Inr ((tw, ta), p)
        else let flags = mem p; p = p + 1 in
          wt_ret (wt_cell_len_chk e p 0) (\<lambda>_.
          wt_ret (cell_unpack_value_validity mem e flags p tw) (\<lambda>(tw, p). Inr ((tw, ta), p)))
      else Inr ((tw, ta), p))"

text \<open>Fast-truncate information: 0 is no prepare in progress, and the leaf page is on disk.\<close>

definition cell_unpack_page_del :: "memory \<Rightarrow> bool \<Rightarrow> int option \<Rightarrow> u8 \<Rightarrow> int \<Rightarrow> page_deleted \<Rightarrow> (page_deleted \<times> int) result" where
  "cell_unpack_page_del mem ft e raw p pd =
     (if raw = WT_CELL_ADDR_DEL \<and> ft then
        wt_ret (vunpack_at mem e p) (\<lambda>(txnid, p).
        wt_ret (vunpack_at mem e p) (\<lambda>(ts, p).
        wt_ret (vunpack_at mem e p) (\<lambda>(durable, p).
        Inr (\<lparr>pd_txnid = txnid, pd_timestamp = ts, pd_durable_timestamp = durable, pd_prepare_state = 0,
            pd_previous_ref_state = 0, pd_committed = True, pd_selected_for_write = True\<rparr>, p))))
      else Inr (pd, p))"

text \<open>
  The special actions of the types: a copy cell goes on at the cell it refers to, a deleted cell has no data,
  and the others have their data after its length.
\<close>

definition cell_unpack_data ::
    "memory \<Rightarrow> bool \<Rightarrow> int option \<Rightarrow> int \<Rightarrow> u8 \<Rightarrow> time_window \<Rightarrow> cell_unpack \<Rightarrow> int \<Rightarrow>
     (cell_unpack \<times> time_window \<times> (int \<times> u64 \<times> u32) option) result" where
  "cell_unpack_data mem addr e cell raw tw u p =
     (if raw = WT_CELL_VALUE_COPY then
        if addr then Inl WT_ERROR
        else wt_ret (vunpack_at mem e p) (\<lambda>(v, p).
          Inr (u, tw, Some (cell - sint v, cu_v u, word_of_int (p - cell))))
      else if is_ovfl_cell raw \<or> is_addr_cell raw \<or> raw \<in> {WT_CELL_KEY, WT_CELL_KEY_PFX, WT_CELL_VALUE} then
        wt_ret (vunpack_at mem e p) (\<lambda>(v, p).
        let v = (if raw = WT_CELL_KEY \<or> raw = WT_CELL_KEY_PFX \<or> (raw = WT_CELL_VALUE \<and> cu_v u = 0 \<and> mem cell AND WT_CELL_SECOND_DESC = 0)
            then v + WT_CELL_SIZE_ADJUST else v) in
        Inr (u\<lparr>cu_flags := (if is_ovfl_cell raw then WT_CELL_UNPACK_OVERFLOW else 0), cu_data := Some p,
            cu_size := ucast v, cu_len := word_of_int (p - cell) + ucast v\<rparr>, tw, None))
      else if raw = WT_CELL_DEL then Inr (u\<lparr>cu_len := word_of_int (p - cell)\<rparr>, tw, None)
      else Inl WT_ERROR)"

text \<open>
  One pass over a cell: the unpacked cell, the window that was read, and for a copy cell the address to go on
  with and the copy's RLE and length.
\<close>

definition cell_unpack_pass ::
    "memory \<Rightarrow> bool \<Rightarrow> bool \<Rightarrow> int option \<Rightarrow> int \<Rightarrow> cell_unpack \<Rightarrow> (cell_unpack \<times> time_window \<times> (int \<times> u64 \<times> u32) option) result" where
  "cell_unpack_pass mem ft addr e cell u =
     wt_ret (wt_cell_len_chk e cell 0) (\<lambda>_.
     let b = mem cell; raw = wt_cell_type_raw b;
         u = u\<lparr>cu_v := 0, cu_raw := raw, cu_type := wt_cell_type b, cu_flags := 0\<rparr> in
     if raw = WT_CELL_KEY_SHORT_PFX then
       wt_ret (wt_cell_len_chk e cell 1) (\<lambda>_.
       let size_v = ucast (drop_bit WT_CELL_SHORT_SHIFT b) in
       Inr (u\<lparr>cu_prefix := mem (cell + 1), cu_data := Some (cell + 2), cu_size := size_v, cu_len := 2 + size_v\<rparr>, WT_TIME_WINDOW_INIT, None))
     else if raw = WT_CELL_KEY_SHORT \<or> raw = WT_CELL_VALUE_SHORT then
       let size_v = ucast (drop_bit WT_CELL_SHORT_SHIFT b) in
       Inr (u\<lparr>cu_prefix := 0, cu_data := Some (cell + 1), cu_size := size_v, cu_len := 1 + size_v\<rparr>, WT_TIME_WINDOW_INIT, None)
     else
       let u = u\<lparr>cu_prefix := 0, cu_data := None, cu_size := 0, cu_len := 0\<rparr>; p = cell + 1 in
       wt_ret (if raw = WT_CELL_KEY_PFX then
           wt_ret (wt_cell_len_chk e (p + 1) 0) (\<lambda>_. Inr (u\<lparr>cu_prefix := mem p\<rparr>, p + 1))
         else Inr (u, p)) (\<lambda>(u, p).
       wt_ret (cell_unpack_validity mem addr e b raw p WT_TIME_WINDOW_INIT (cu_ta u)) (\<lambda>((tw, ta), p).
       wt_ret (cell_unpack_page_del mem ft e raw p (cu_del u)) (\<lambda>(pd, p).
       let u = u\<lparr>cu_ta := ta, cu_del := pd\<rparr> in
       wt_ret (unpack_field mem e (b AND WT_CELL_64V \<noteq> 0) (\<lambda>v u. u\<lparr>cu_v := v\<rparr>) id (u, p)) (\<lambda>(u, p).
       cell_unpack_data mem addr e cell raw tw u p)))))"

text \<open>
  The end of the function: a copy cell keeps its own RLE, length and type, and the length check is made at
  the address of the cell that was unpacked last.
\<close>

definition cell_unpack_finish :: "int option \<Rightarrow> bool \<Rightarrow> int \<Rightarrow> (u64 \<times> u32) option \<Rightarrow> cell_unpack \<Rightarrow> cell_unpack result" where
  "cell_unpack_finish e addr cell copy u =
     (let u = (case copy of Some (v, len) \<Rightarrow> if addr then u else u\<lparr>cu_v := v, cu_len := len, cu_raw := WT_CELL_VALUE_COPY\<rparr> | None \<Rightarrow> u) in
      wt_ret (wt_cell_len_chk e cell (uint (cu_len u))) (\<lambda>_. Inr u))"

text \<open>The passes, with \<open>copy_cell_restart\<close>; a run that does not come to an end is \<open>None\<close>.\<close>

partial_function (option) cell_unpack_loop ::
    "memory \<Rightarrow> bool \<Rightarrow> bool \<Rightarrow> int option \<Rightarrow> int \<Rightarrow> cell_unpack \<Rightarrow> (u64 \<times> u32) option \<Rightarrow> cell_unpack result option" where
  "cell_unpack_loop mem ft addr e cell u copy =
     (case cell_unpack_pass mem ft addr e cell u of
        Inl err \<Rightarrow> Some (Inl err)
      | Inr (u, tw, next) \<Rightarrow>
          let u = (if copy = None \<and> \<not> addr then u\<lparr>cu_tw := tw\<rparr> else u) in
          (case next of
             None \<Rightarrow> Some (cell_unpack_finish e addr cell copy u)
           | Some (cell, v, len) \<Rightarrow> cell_unpack_loop mem ft addr e cell u (Some (v, len))))"

definition wt_cell_unpack_safe ::
    "memory \<Rightarrow> bool \<Rightarrow> bool \<Rightarrow> int option \<Rightarrow> int \<Rightarrow> cell_unpack \<Rightarrow> cell_unpack result option" where
  "wt_cell_unpack_safe mem ft addr e cell u =
     cell_unpack_loop mem ft addr e cell (u\<lparr>cu_cell := Some cell, cu_ta := (if addr then WT_TIME_AGGREGATE_INIT else cu_ta u)\<rparr>) None"

subsection \<open>Cells of a previous run\<close>

definition cell_page_del_window_cleanup :: "page_deleted \<Rightarrow> page_deleted \<times> bool" where
  "cell_page_del_window_cleanup pd =
     (if pd_txnid pd \<noteq> WT_TXN_MAX then
        (pd\<lparr>pd_txnid := WT_TXN_NONE, pd_timestamp := (if pd_timestamp pd = WT_TS_MAX then WT_TS_NONE else pd_timestamp pd)\<rparr>, True)
      else (pd, False))"

definition set_cleared :: "bool \<Rightarrow> cell_unpack \<Rightarrow> cell_unpack" where
  "set_cleared c u = (if c then u\<lparr>cu_flags := cu_flags u OR WT_CELL_UNPACK_TIME_WINDOW_CLEARED\<rparr> else u)"

definition cell_addr_window_cleanup :: "bool \<Rightarrow> cell_unpack \<Rightarrow> cell_unpack" where
  "cell_addr_window_cleanup ft u =
     (let ta = cu_ta u; c1 = ta_newest_txn ta \<noteq> WT_TXN_NONE; c2 = ta_newest_stop_txn ta \<noteq> WT_TXN_MAX;
          ta = (if c1 then ta\<lparr>ta_newest_txn := WT_TXN_NONE\<rparr> else ta);
          ta = (if c2 then ta\<lparr>ta_newest_stop_txn := WT_TXN_NONE,
              ta_newest_stop_ts := (if ta_newest_stop_ts ta = WT_TS_MAX then WT_TS_NONE else ta_newest_stop_ts ta)\<rparr> else ta);
          u = set_cleared (c1 \<or> c2) (u\<lparr>cu_ta := ta\<rparr>) in
      if cu_raw u = WT_CELL_ADDR_DEL \<and> ft then
        let (pd, c3) = cell_page_del_window_cleanup (cu_del u) in set_cleared c3 (u\<lparr>cu_del := pd\<rparr>)
      else u)"

definition cell_kv_window_cleanup :: "cell_unpack \<Rightarrow> cell_unpack" where
  "cell_kv_window_cleanup u =
     (let tw = cu_tw u; c1 = tw_start_txn tw \<noteq> WT_TXN_NONE; c2 = tw_stop_txn tw \<noteq> WT_TXN_MAX;
          tw = (if c1 then tw\<lparr>tw_start_txn := WT_TXN_NONE\<rparr> else tw);
          tw = (if c2 then tw\<lparr>tw_stop_txn := WT_TXN_NONE,
              tw_stop_ts := (if tw_stop_ts tw = WT_TS_MAX then WT_TS_NONE else tw_stop_ts tw)\<rparr> else tw) in
      set_cleared (c1 \<or> c2) (u\<lparr>cu_tw := tw\<rparr>))"

text \<open>
  The tree and the session as the functions see them: whether a checkpoint is read and the write generations
  of it, of the tree and of the page, and the debug flag to leave the windows alone.
\<close>

record cell_run =
  cr_reading_checkpoint :: bool
  cr_checkpoint_write_gen :: u64
  cr_base_write_gen :: u64
  cr_write_gen :: u64
  cr_do_not_clear :: bool

definition cell_from_run :: "cell_run \<Rightarrow> bool" where
  "cell_from_run r =
     (let write_gen = (if cr_reading_checkpoint r \<and> cr_checkpoint_write_gen r \<noteq> 0 then cr_checkpoint_write_gen r
          else cr_base_write_gen r) in
      \<not> cr_write_gen r > write_gen \<and> \<not> cr_do_not_clear r)"

definition cell_unpack_window_cleanup :: "cell_run \<Rightarrow> bool \<Rightarrow> bool \<Rightarrow> cell_unpack \<Rightarrow> cell_unpack" where
  "cell_unpack_window_cleanup r ft addr u =
     (if \<not> cell_from_run r then u else if addr then cell_addr_window_cleanup ft u else cell_kv_window_cleanup u)"

definition cell_redo_page_del_cleanup :: "cell_run \<Rightarrow> page_deleted \<Rightarrow> page_deleted" where
  "cell_redo_page_del_cleanup r pd =
     (if cr_write_gen r > cr_base_write_gen r then pd else if cr_do_not_clear r then pd
      else fst (cell_page_del_window_cleanup pd))"

definition wt_cell_unpack_addr :: "memory \<Rightarrow> bool \<Rightarrow> cell_run \<Rightarrow> int \<Rightarrow> cell_unpack \<Rightarrow> cell_unpack result option" where
  "wt_cell_unpack_addr mem ft r cell u =
     map_option (map_sum id (cell_unpack_window_cleanup r ft True)) (wt_cell_unpack_safe mem ft True None cell u)"

text \<open>A null cell is an empty value; its data is the empty string, whose address is left out.\<close>

definition wt_cell_unpack_kv :: "memory \<Rightarrow> bool \<Rightarrow> cell_run \<Rightarrow> int option \<Rightarrow> cell_unpack \<Rightarrow> cell_unpack result option" where
  "wt_cell_unpack_kv mem ft r cell u =
     (case cell of
        None \<Rightarrow> Some (Inr (u\<lparr>cu_cell := None, cu_v := 0, cu_data := None, cu_size := 0, cu_len := 0, cu_prefix := 0,
          cu_raw := WT_CELL_VALUE, cu_type := WT_CELL_VALUE, cu_flags := 0, cu_tw := WT_TIME_WINDOW_INIT\<rparr>))
      | Some c \<Rightarrow> map_option (map_sum id (cell_unpack_window_cleanup r ft False)) (wt_cell_unpack_safe mem ft False None c u))"

definition wt_cell_rle :: "cell_unpack \<Rightarrow> u64" where
  "wt_cell_rle u = (if cu_v u < 2 then 1 else cu_v u)"

definition wt_cell_total_len :: "cell_unpack \<Rightarrow> u32" where
  "wt_cell_total_len u = cu_len u"

text \<open>The cell after a key: none at the end of the page (\<open>mem_size\<close>) or if it is another key.\<close>

definition wt_cell_leaf_value_parse :: "memory \<Rightarrow> int \<Rightarrow> int \<Rightarrow> int option" where
  "wt_cell_leaf_value_parse mem mem_size cell =
     (if cell \<ge> mem_size then None
      else if wt_cell_type_raw (mem cell) \<in>
        {WT_CELL_KEY, WT_CELL_KEY_OVFL, WT_CELL_KEY_OVFL_RM, WT_CELL_KEY_PFX, WT_CELL_KEY_SHORT, WT_CELL_KEY_SHORT_PFX} then None
      else Some cell)"

subsection \<open>Comparing value cells\<close>

text \<open>A field that is skipped.\<close>

definition skip_field :: "memory \<Rightarrow> bool \<Rightarrow> int \<Rightarrow> int result" where
  "skip_field mem c p = (if c then wt_ret (vunpack_at mem None p) (\<lambda>(_, p). Inr p) else Inr p)"

text \<open>The length field of a value cell and the address after it, \<open>None\<close> if it is no value.\<close>

definition value_match_len :: "memory \<Rightarrow> int \<Rightarrow> (u64 \<times> int) option result" where
  "value_match_len mem a =
     (let b = mem a in
      if WT_CELL_SHORT_TYPE b = WT_CELL_VALUE_SHORT then Inr (Some (ucast (drop_bit WT_CELL_SHORT_SHIFT b), a + 1))
      else if WT_CELL_TYPE b = WT_CELL_VALUE then
        let rle = (b AND WT_CELL_64V \<noteq> 0); validity = (b AND WT_CELL_SECOND_DESC \<noteq> 0); flags = mem (a + 1);
            p = (if validity then a + 2 else a + 1) in
        wt_ret (skip_field mem (validity \<and> cell_flag_isset flags WT_CELL_TS_DURABLE_START) p) (\<lambda>p.
        wt_ret (skip_field mem (validity \<and> cell_flag_isset flags WT_CELL_TS_DURABLE_STOP) p) (\<lambda>p.
        wt_ret (skip_field mem (validity \<and> cell_flag_isset flags WT_CELL_TS_START) p) (\<lambda>p.
        wt_ret (skip_field mem (validity \<and> cell_flag_isset flags WT_CELL_TS_STOP) p) (\<lambda>p.
        wt_ret (skip_field mem (validity \<and> cell_flag_isset flags WT_CELL_TXN_START) p) (\<lambda>p.
        wt_ret (skip_field mem (validity \<and> cell_flag_isset flags WT_CELL_TXN_STOP) p) (\<lambda>p.
        wt_ret (skip_field mem rle p) (\<lambda>p.
        wt_ret (vunpack_at mem None p) (\<lambda>(len, p). Inr (Some (len, p))))))))))
      else Inr None)"

definition wt_cell_pack_value_match :: "memory \<Rightarrow> int \<Rightarrow> int \<Rightarrow> int \<Rightarrow> bool result" where
  "wt_cell_pack_value_match mem page_cell val_cell val_data =
     wt_ret (value_match_len mem page_cell) (\<lambda>x. case x of None \<Rightarrow> Inr False | Some (alen, a) \<Rightarrow>
     wt_ret (value_match_len mem val_cell) (\<lambda>y. case y of None \<Rightarrow> Inr False | Some (blen, b) \<Rightarrow>
     Inr (alen = blen \<and> bytes_at mem a (unat alen) = bytes_at mem val_data (unat alen))))"

end
