(* ===== verification/CellBytes.thy ===== *)
theory CellBytes
  imports Cell
begin

text \<open>
  What the functions that unpack a cell make of bytes that a pack function wrote: packed integers, time
  windows and aggregates, descriptor bytes, and one pass over a cell of each form.
\<close>

subsection \<open>Packed integers in memory\<close>

text \<open>The bytes are in memory from an address on; and a page that ends at \<open>e\<close> has room for them.\<close>

definition holds :: "memory \<Rightarrow> int \<Rightarrow> u8 list \<Rightarrow> bool" where
  "holds mem p bs \<longleftrightarrow> bytes_at mem p (length bs) = bs"

definition within :: "int option \<Rightarrow> int \<Rightarrow> nat \<Rightarrow> bool" where
  "within e p n \<longleftrightarrow> (case e of None \<Rightarrow> True | Some x \<Rightarrow> 0 \<le> p \<and> p + int n \<le> x \<and> x < 2 ^ 32)"

lemma length_bytes_at [simp]: "length (bytes_at mem p n) = n"
  by (simp add: bytes_at_def)

lemma bytes_at_add: "bytes_at mem p (m + n) = bytes_at mem p m @ bytes_at mem (p + int m) n"
proof -
  have "map f [m..<m + n] = map (\<lambda>i. f (i + m)) [0..<n]" for f :: "nat \<Rightarrow> u8"
    by (rule nth_equalityI) (simp_all add: add.commute)
  then have "map (\<lambda>i. mem (p + int i)) [m..<m + n] = map (\<lambda>i. mem (p + int m + int i)) [0..<n]"
    by (simp add: add.commute add.left_commute)
  then show ?thesis by (simp add: bytes_at_def upt_add_eq_append [of 0 m n])
qed

lemma holds_append [simp]: "holds mem p (xs @ ys) \<longleftrightarrow> holds mem p xs \<and> holds mem (p + int (length xs)) ys"
  by (simp add: holds_def bytes_at_add)

lemma holds_Nil [simp]: "holds mem p []"
  by (simp add: holds_def bytes_at_def)

lemma bytes_at_Suc: "bytes_at mem p (Suc n) = mem p # bytes_at mem (p + 1) n"
  using bytes_at_add [of mem p 1 n] by (simp add: bytes_at_def)

lemma holds_Cons [simp]: "holds mem p (b # bs) \<longleftrightarrow> mem p = b \<and> holds mem (p + 1) bs"
  by (auto simp: holds_def bytes_at_Suc)

lemma within_append: "within e p (m + n) \<longleftrightarrow> within e p (m + n) \<and> within e p m \<and> within e (p + int m) n"
  by (auto simp: within_def split: option.splits)

lemma within_le: "within e p n \<Longrightarrow> m \<le> n \<Longrightarrow> within e p m"
  by (auto simp: within_def split: option.splits)

lemma within_off: "within e p n \<Longrightarrow> m + k \<le> n \<Longrightarrow> within e (p + int m) k"
  by (auto simp: within_def split: option.splits)

lemma vpack_Inr: "wt_vpack_uint 0 x = Inr (vpack x)"
  using wt_vpack_uint_total [of 0 x] by (auto simp: vpack_def)

lemma length_vpack: "length (vpack x) = wt_vsize_uint x"
  using wt_vpack_uint_total [of 0 x] by (auto simp: vpack_def)

lemma vsize_uint_pos: "0 < wt_vsize_uint x"
  using WT_LEADING_ZEROS_spec(1) [of "x - (POS_2BYTE_MAX + 1)"]
  by (auto simp: wt_vsize_uint_def wt_vsize_posint_def WT_INTPACK64_MAXSIZE_def)

lemma vpack_bound: "0 < length (vpack x)" "length (vpack x) \<le> 9"
  using vsize_uint_pos [of x] wt_vsize_uint_le [of x] by (simp_all add: length_vpack WT_INTPACK64_MAXSIZE_def)

lemma vunpack_limit_within: "within e p n \<Longrightarrow> 0 < n \<Longrightarrow> vunpack_limit e p = 0 \<or> n \<le> vunpack_limit e p"
  by (auto simp: within_def vunpack_limit_def split: option.splits)

lemma vunpack_at_holds:
  assumes h: "holds mem p (vpack x)" and w: "within e p (length (vpack x))"
  shows "vunpack_at mem e p = Inr (x, p + int (length (vpack x)))"
proof -
  let ?n = "length (vpack x)"
  have "bytes_at mem p 16 = bytes_at mem p (?n + (16 - ?n))" using vpack_bound(2) [of x] by simp
  then have b: "bytes_at mem p 16 = vpack x @ bytes_at mem (p + int ?n) (16 - ?n)"
    using h unfolding bytes_at_add holds_def by simp
  have "wt_vunpack_uint (vunpack_limit e p) (vpack x @ bytes_at mem (p + int ?n) (16 - ?n)) =
      Inr (x, bytes_at mem (p + int ?n) (16 - ?n))"
    by (rule wt_vunpack_uint_vpack [OF vpack_Inr]) (use vunpack_limit_within [OF w] vpack_bound(1) in auto)
  then show ?thesis using vpack_bound(2) [of x] by (simp add: vunpack_at_def b)
qed

lemma field_steps:
  assumes "holds mem p (pack_if c x @ bs)" "within e p (length (pack_if c x @ bs))"
  shows "unpack_field mem e c upd dflt (s, p) = Inr (if c then upd x s else dflt s, p + int (length (pack_if c x)))"
    and "holds mem (p + int (length (pack_if c x))) bs" and "within e (p + int (length (pack_if c x))) (length bs)"
proof -
  show "unpack_field mem e c upd dflt (s, p) = Inr (if c then upd x s else dflt s, p + int (length (pack_if c x)))"
    using assms within_le [OF assms(2)] vunpack_at_holds [of mem p x e] by (cases c) (simp_all add: unpack_field_def pack_if_def)
  show "within e (p + int (length (pack_if c x))) (length bs)" by (rule within_off [OF assms(2)]) simp
qed (use assms in simp)

subsection \<open>The second descriptor\<close>

definition validity_flags :: "bool \<Rightarrow> bool \<Rightarrow> bool \<Rightarrow> bool \<Rightarrow> bool \<Rightarrow> bool \<Rightarrow> bool \<Rightarrow> u8" where
  "validity_flags a b c d e f g = flag_if a WT_CELL_TS_START OR flag_if b WT_CELL_TXN_START OR flag_if c WT_CELL_TS_DURABLE_START OR
     flag_if d WT_CELL_TS_STOP OR flag_if e WT_CELL_TXN_STOP OR flag_if f WT_CELL_TS_DURABLE_STOP OR flag_if g WT_CELL_PREPARE"

lemma flag_isset_or: "cell_flag_isset (x OR y) f \<longleftrightarrow> cell_flag_isset x f \<or> cell_flag_isset y f"
  unfolding cell_flag_isset_def by (simp add: bit.conj_disj_distrib2 or_eq_0_iff)

lemma flag_isset_if: "cell_flag_isset (flag_if c x) f \<longleftrightarrow> c \<and> cell_flag_isset x f"
  by (simp add: cell_flag_isset_def flag_if_def)

lemma validity_flags_isset:
  "cell_flag_isset (validity_flags a b c d e f g) WT_CELL_TS_START = a"
  "cell_flag_isset (validity_flags a b c d e f g) WT_CELL_TXN_START = b"
  "cell_flag_isset (validity_flags a b c d e f g) WT_CELL_TS_DURABLE_START = c"
  "cell_flag_isset (validity_flags a b c d e f g) WT_CELL_TS_STOP = d"
  "cell_flag_isset (validity_flags a b c d e f g) WT_CELL_TXN_STOP = e"
  "cell_flag_isset (validity_flags a b c d e f g) WT_CELL_TS_DURABLE_STOP = f"
  "cell_flag_isset (validity_flags a b c d e f g) WT_CELL_PREPARE = g"
  unfolding validity_flags_def flag_isset_or flag_isset_if by (simp_all add: cell_flag_isset_def cell_flag_defs)

subsection \<open>Windows and aggregates come back\<close>

text \<open>
  The windows that come back as they were: a start without a durable time has to be 0, a stop without one
  has to be none or 0, and a durable stop is no \<open>WT_TS_MAX\<close> when there is no stop. Valid windows are of
  this kind, but for the last.
\<close>

definition window_storable :: "time_window \<Rightarrow> bool" where
  "window_storable tw \<longleftrightarrow> (tw_durable_start_ts tw = WT_TS_NONE \<longrightarrow> tw_start_ts tw = WT_TS_NONE) \<and>
     (tw_durable_stop_ts tw = WT_TS_NONE \<longrightarrow> tw_stop_ts tw = WT_TS_MAX \<or> tw_stop_ts tw = WT_TS_NONE) \<and>
     (tw_durable_stop_ts tw = WT_TS_MAX \<longrightarrow> tw_stop_ts tw \<noteq> WT_TS_MAX) \<and> tw_prepare tw \<le> 1"

lemma u8_le_1: "(x :: u8) \<le> 1 \<longleftrightarrow> x = 0 \<or> x = 1"
proof
  assume "x \<le> 1"
  then have "unat x = unat (0 :: u8) \<or> unat x = unat (1 :: u8)" by (auto simp: word_le_nat_alt)
  then show "x = 0 \<or> x = 1" by (simp only: word_unat_eq_iff)
qed auto

lemma u64_diff_pos: "(x :: u64) - y > 0 \<longleftrightarrow> x \<noteq> y"
  by (simp only: word_greater_zero_iff) simp

lemma value_validity_roundtrip:
  assumes pk: "cell_pack_value_validity tw = (WT_CELL_SECOND_DESC, flags # bs)" and st: "window_storable tw"
    and h: "holds mem p bs" and w: "within e p (length bs)"
  shows "cell_unpack_value_validity mem e flags p WT_TIME_WINDOW_INIT = Inr (tw, p + int (length bs))"
proof -
  let ?a = "tw_start_ts tw \<noteq> WT_TS_NONE" and ?b = "tw_start_txn tw \<noteq> WT_TXN_NONE"
  let ?c = "tw_durable_start_ts tw \<noteq> WT_TS_NONE \<and> tw_durable_start_ts tw - tw_start_ts tw > 0"
  let ?d = "tw_stop_ts tw \<noteq> WT_TS_MAX" and ?e = "tw_stop_txn tw \<noteq> WT_TXN_MAX"
  let ?f = "tw_durable_stop_ts tw \<noteq> WT_TS_NONE \<and> tw_durable_stop_ts tw - tw_stop_ts tw > 0" and ?g = "tw_prepare tw \<noteq> 0"
  let ?A = "pack_if ?a (tw_start_ts tw)" and ?B = "pack_if ?b (tw_start_txn tw)" and ?C = "pack_if ?c (tw_durable_start_ts tw - tw_start_ts tw)"
  let ?D = "pack_if ?d (tw_stop_ts tw - tw_start_ts tw)" and ?E = "pack_if ?e (tw_stop_txn tw - tw_start_txn tw)"
  let ?F = "pack_if ?f (tw_durable_stop_ts tw - tw_stop_ts tw)"
  have ne: "\<not> WT_TIME_WINDOW_IS_EMPTY tw" using pk by (auto simp: cell_pack_value_validity_def)
  have bs: "bs = ?A @ ?B @ ?C @ ?D @ ?E @ ?F" and fl: "flags = validity_flags ?a ?b ?c ?d ?e ?f ?g"
    using pk ne by (simp_all add: cell_pack_value_validity_def validity_flags_def Let_def)
  note h' = h [unfolded bs] and w' = w [unfolded bs]
  define p1 where "p1 = p + int (length ?A)"
  note s1 = field_steps [OF h' w', folded p1_def]
  define p2 where "p2 = p1 + int (length ?B)"
  note s2 = field_steps [OF s1(2,3), folded p2_def]
  define p3 where "p3 = p2 + int (length ?C)"
  note s3 = field_steps [OF s2(2,3), folded p3_def]
  define p4 where "p4 = p3 + int (length ?D)"
  note s4 = field_steps [OF s3(2,3), folded p4_def]
  define p5 where "p5 = p4 + int (length ?E)"
  note s5 = field_steps [OF s4(2,3), folded p5_def]
  define p6 where "p6 = p5 + int (length ?F)"
  have s6: "unpack_field mem e ?f upd dflt (s, p5) = Inr (if ?f then upd (tw_durable_stop_ts tw - tw_stop_ts tw) s else dflt s, p6)"
    for upd dflt and s :: time_window unfolding p6_def by (rule field_steps(1) [of _ _ _ _ "[]"]) (use s5(2,3) in simp_all)
  have q: "p6 = p + int (length bs)" unfolding bs p6_def p5_def p4_def p3_def p2_def p1_def by simp
  define t0 where "t0 = WT_TIME_WINDOW_INIT\<lparr>tw_prepare := tw_prepare tw\<rparr>"
  have t0: "(if ?g then WT_TIME_WINDOW_INIT\<lparr>tw_prepare := 1\<rparr> else WT_TIME_WINDOW_INIT) = t0"
    using st by (auto simp: window_storable_def u8_le_1 t0_def WT_TIME_WINDOW_INIT_def)
  define t1 where "t1 = t0\<lparr>tw_start_ts := tw_start_ts tw\<rparr>"
  have t1: "(if ?a then t0\<lparr>tw_start_ts := tw_start_ts tw\<rparr> else id t0) = t1" by (auto simp: t0_def t1_def WT_TIME_WINDOW_INIT_def)
  define t2 where "t2 = t1\<lparr>tw_start_txn := tw_start_txn tw\<rparr>"
  have t2: "(if ?b then t1\<lparr>tw_start_txn := tw_start_txn tw\<rparr> else id t1) = t2" by (auto simp: t0_def t1_def t2_def WT_TIME_WINDOW_INIT_def)
  define t3 where "t3 = t2\<lparr>tw_durable_start_ts := tw_durable_start_ts tw\<rparr>"
  have t3: "(if ?c then t2\<lparr>tw_durable_start_ts := tw_durable_start_ts tw - tw_start_ts tw + tw_start_ts t2\<rparr>
      else t2\<lparr>tw_durable_start_ts := tw_start_ts t2\<rparr>) = t3"
    using st by (auto simp: window_storable_def t0_def t1_def t2_def t3_def u64_diff_pos)
  define t4 where "t4 = t3\<lparr>tw_stop_ts := tw_stop_ts tw\<rparr>"
  have t4: "(if ?d then t3\<lparr>tw_stop_ts := tw_stop_ts tw - tw_start_ts tw + tw_start_ts t3\<rparr> else id t3) = t4"
    by (auto simp: t0_def t1_def t2_def t3_def t4_def WT_TIME_WINDOW_INIT_def)
  define t5 where "t5 = t4\<lparr>tw_stop_txn := tw_stop_txn tw\<rparr>"
  have t5: "(if ?e then t4\<lparr>tw_stop_txn := tw_stop_txn tw - tw_start_txn tw + tw_start_txn t4\<rparr> else id t4) = t5"
    by (auto simp: t0_def t1_def t2_def t3_def t4_def t5_def WT_TIME_WINDOW_INIT_def)
  have t6: "(if ?f then t5\<lparr>tw_durable_stop_ts := tw_durable_stop_ts tw - tw_stop_ts tw + tw_stop_ts t5\<rparr>
      else t5\<lparr>tw_durable_stop_ts := (if tw_stop_ts t5 \<noteq> WT_TS_MAX then tw_stop_ts t5 else WT_TS_NONE)\<rparr>) = tw"
    using st by (auto simp: window_storable_def t0_def t1_def t2_def t3_def t4_def t5_def u64_diff_pos WT_TIME_WINDOW_INIT_def)
  show ?thesis
    unfolding cell_unpack_value_validity_def fl validity_flags_isset t0 s1(1) wt_ret_simps t1 s2(1) t2 s3(1) t3 s4(1) t4 s5(1) t5 s6 t6 q ..
qed

lemma addr_validity_roundtrip:
  assumes pk: "cell_pack_addr_validity ta = (WT_CELL_SECOND_DESC, flags # bs)" and st: "ta_prepare ta \<le> 1"
    and h: "holds mem p bs" and w: "within e p (length bs)"
  shows "cell_unpack_addr_validity mem e flags p WT_TIME_AGGREGATE_INIT = Inr (ta\<lparr>ta_init_merge := 0\<rparr>, p + int (length bs))"
proof -
  let ?a = "ta_oldest_start_ts ta \<noteq> WT_TS_NONE"
  let ?b = "ta_newest_txn ta \<noteq> WT_TXN_NONE"
  let ?c = "ta_newest_start_durable_ts ta \<noteq> WT_TS_NONE"
  let ?d = "ta_newest_stop_ts ta \<noteq> WT_TS_MAX"
  let ?e = "ta_newest_stop_txn ta \<noteq> WT_TXN_MAX"
  let ?f = "ta_newest_stop_durable_ts ta \<noteq> WT_TS_NONE"
  let ?g = "ta_prepare ta \<noteq> 0"
  let ?A = "pack_if ?a (ta_oldest_start_ts ta)"
  let ?B = "pack_if ?b (ta_newest_txn ta)"
  let ?C = "pack_if ?c (ta_newest_start_durable_ts ta - ta_oldest_start_ts ta)"
  let ?D = "pack_if ?d (ta_newest_stop_ts ta - ta_oldest_start_ts ta)"
  let ?E = "pack_if ?e (ta_newest_stop_txn ta - ta_newest_txn ta)"
  let ?F = "pack_if ?f (ta_newest_stop_durable_ts ta - ta_newest_stop_ts ta)"
  have ne: "\<not> WT_TIME_AGGREGATE_IS_EMPTY ta" using pk by (auto simp: cell_pack_addr_validity_def)
  have bs: "bs = ?A @ ?B @ ?C @ ?D @ ?E @ ?F" and fl: "flags = validity_flags ?a ?b ?c ?d ?e ?f ?g"
    using pk ne by (simp_all add: cell_pack_addr_validity_def validity_flags_def Let_def)
  note h' = h [unfolded bs] and w' = w [unfolded bs]
  define p1 where "p1 = p + int (length ?A)"
  note s1 = field_steps [OF h' w', folded p1_def]
  define p2 where "p2 = p1 + int (length ?B)"
  note s2 = field_steps [OF s1(2,3), folded p2_def]
  define p3 where "p3 = p2 + int (length ?C)"
  note s3 = field_steps [OF s2(2,3), folded p3_def]
  define p4 where "p4 = p3 + int (length ?D)"
  note s4 = field_steps [OF s3(2,3), folded p4_def]
  define p5 where "p5 = p4 + int (length ?E)"
  note s5 = field_steps [OF s4(2,3), folded p5_def]
  define p6 where "p6 = p5 + int (length ?F)"
  have s6: "unpack_field mem e ?f upd dflt (s, p5) = Inr (if ?f then upd (ta_newest_stop_durable_ts ta - ta_newest_stop_ts ta) s else dflt s, p6)"
    for upd dflt and s :: time_aggregate unfolding p6_def by (rule field_steps(1) [of _ _ _ _ "[]"]) (use s5(2,3) in simp_all)
  have q: "p6 = p + int (length bs)" unfolding bs p6_def p5_def p4_def p3_def p2_def p1_def by simp
  define t0 where "t0 = WT_TIME_AGGREGATE_INIT\<lparr>ta_prepare := ta_prepare ta\<rparr>"
  have t0: "(if ?g then WT_TIME_AGGREGATE_INIT\<lparr>ta_prepare := 1\<rparr> else WT_TIME_AGGREGATE_INIT) = t0"
    using st by (auto simp: u8_le_1 t0_def WT_TIME_AGGREGATE_INIT_def)
  define t1 where "t1 = t0\<lparr>ta_oldest_start_ts := ta_oldest_start_ts ta\<rparr>"
  have t1: "(if ?a then t0\<lparr>ta_oldest_start_ts := ta_oldest_start_ts ta\<rparr> else id t0) = t1"
    by (auto simp: t0_def t1_def WT_TIME_AGGREGATE_INIT_def)
  define t2 where "t2 = t1\<lparr>ta_newest_txn := ta_newest_txn ta\<rparr>"
  have t2: "(if ?b then t1\<lparr>ta_newest_txn := ta_newest_txn ta\<rparr> else id t1) = t2"
    by (auto simp: t0_def t1_def t2_def WT_TIME_AGGREGATE_INIT_def)
  define t3 where "t3 = t2\<lparr>ta_newest_start_durable_ts := ta_newest_start_durable_ts ta\<rparr>"
  have t3: "(if ?c then t2\<lparr>ta_newest_start_durable_ts := ta_newest_start_durable_ts ta - ta_oldest_start_ts ta + ta_oldest_start_ts t2\<rparr> else id t2) = t3"
    by (auto simp: t0_def t1_def t2_def t3_def WT_TIME_AGGREGATE_INIT_def)
  define t4 where "t4 = t3\<lparr>ta_newest_stop_ts := ta_newest_stop_ts ta\<rparr>"
  have t4: "(if ?d then t3\<lparr>ta_newest_stop_ts := ta_newest_stop_ts ta - ta_oldest_start_ts ta + ta_oldest_start_ts t3\<rparr> else id t3) = t4"
    by (auto simp: t0_def t1_def t2_def t3_def t4_def WT_TIME_AGGREGATE_INIT_def)
  define t5 where "t5 = t4\<lparr>ta_newest_stop_txn := ta_newest_stop_txn ta\<rparr>"
  have t5: "(if ?e then t4\<lparr>ta_newest_stop_txn := ta_newest_stop_txn ta - ta_newest_txn ta + ta_newest_txn t4\<rparr> else id t4) = t5"
    by (auto simp: t0_def t1_def t2_def t3_def t4_def t5_def WT_TIME_AGGREGATE_INIT_def)
  have t6: "(if ?f then t5\<lparr>ta_newest_stop_durable_ts := ta_newest_stop_durable_ts ta - ta_newest_stop_ts ta + ta_newest_stop_ts t5\<rparr> else id t5) = ta\<lparr>ta_init_merge := 0\<rparr>"
    by (auto simp: t0_def t1_def t2_def t3_def t4_def t5_def WT_TIME_AGGREGATE_INIT_def)
  show ?thesis
    unfolding cell_unpack_addr_validity_def fl validity_flags_isset t0 s1(1) wt_ret_simps t1 s2(1) t2 s3(1) t3 s4(1) t4 s5(1) t5 s6 t6 q ..
qed

subsection \<open>Descriptor bytes\<close>

lemmas cell_byte_defs = cell_type_defs cell_short_defs WT_CELL_64V_def WT_CELL_SECOND_DESC_def WT_CELL_SHORT_TYPE_def WT_CELL_TYPE_def
  WT_CELL_TYPE_MASK_def flag_if_def

definition long_types :: "u8 set" where
  "long_types = {WT_CELL_ADDR_DEL, WT_CELL_ADDR_INT, WT_CELL_ADDR_LEAF, WT_CELL_ADDR_LEAF_NO, WT_CELL_DEL, WT_CELL_KEY, WT_CELL_KEY_OVFL,
     WT_CELL_KEY_OVFL_RM, WT_CELL_KEY_PFX, WT_CELL_VALUE, WT_CELL_VALUE_COPY, WT_CELL_VALUE_OVFL, WT_CELL_VALUE_OVFL_RM}"

definition desc :: "u8 \<Rightarrow> u8 \<Rightarrow> bool \<Rightarrow> u8" where
  "desc d ty c = d OR (ty OR flag_if c WT_CELL_64V)"

definition collapse :: "u8 \<Rightarrow> u8" where
  "collapse ty = (if ty = WT_CELL_KEY_PFX then WT_CELL_KEY else if ty = WT_CELL_KEY_OVFL_RM then WT_CELL_KEY_OVFL
     else if ty = WT_CELL_VALUE_OVFL_RM then WT_CELL_VALUE_OVFL else ty)"

definition desc_facts :: "u8 \<Rightarrow> u8 \<Rightarrow> bool \<Rightarrow> bool" where
  "desc_facts d ty c \<longleftrightarrow> wt_cell_type_raw (desc d ty c) = ty \<and> wt_cell_type (desc d ty c) = collapse ty \<and>
     (desc d ty c AND WT_CELL_64V = 0 \<longleftrightarrow> \<not> c) \<and> (desc d ty c AND WT_CELL_SECOND_DESC = 0 \<longleftrightarrow> d = 0)"

lemma desc_facts_all: "\<forall>ty \<in> set [WT_CELL_ADDR_DEL, WT_CELL_ADDR_INT, WT_CELL_ADDR_LEAF, WT_CELL_ADDR_LEAF_NO, WT_CELL_DEL, WT_CELL_KEY,
     WT_CELL_KEY_OVFL, WT_CELL_KEY_OVFL_RM, WT_CELL_KEY_PFX, WT_CELL_VALUE, WT_CELL_VALUE_COPY, WT_CELL_VALUE_OVFL, WT_CELL_VALUE_OVFL_RM].
    \<forall>d \<in> set [0, WT_CELL_SECOND_DESC]. \<forall>c \<in> set [True, False]. desc_facts d ty c"
  by code_simp

lemma desc_byte:
  assumes "d = 0 \<or> d = WT_CELL_SECOND_DESC" "ty \<in> long_types"
  shows "wt_cell_type_raw (desc d ty c) = ty" "wt_cell_type (desc d ty c) = collapse ty"
    "desc d ty c AND WT_CELL_64V \<noteq> 0 \<longleftrightarrow> c" "desc d ty c AND WT_CELL_SECOND_DESC = 0 \<longleftrightarrow> d = 0"
proof -
  have "ty \<in> set [WT_CELL_ADDR_DEL, WT_CELL_ADDR_INT, WT_CELL_ADDR_LEAF, WT_CELL_ADDR_LEAF_NO, WT_CELL_DEL, WT_CELL_KEY,
     WT_CELL_KEY_OVFL, WT_CELL_KEY_OVFL_RM, WT_CELL_KEY_PFX, WT_CELL_VALUE, WT_CELL_VALUE_COPY, WT_CELL_VALUE_OVFL, WT_CELL_VALUE_OVFL_RM]"
    using assms(2) by (simp add: long_types_def)
  moreover have "d \<in> set [0, WT_CELL_SECOND_DESC]" "c \<in> set [True, False]" using assms(1) by auto
  ultimately have "desc_facts d ty c" using desc_facts_all by blast
  then show "wt_cell_type_raw (desc d ty c) = ty" "wt_cell_type (desc d ty c) = collapse ty"
    "desc d ty c AND WT_CELL_64V \<noteq> 0 \<longleftrightarrow> c" "desc d ty c AND WT_CELL_SECOND_DESC = 0 \<longleftrightarrow> d = 0"
    unfolding desc_facts_def by blast+
qed

lemma value_validity_cases:
  assumes "cell_pack_value_validity tw = (d, bytes)"
  obtains "d = 0" "bytes = []" "tw = WT_TIME_WINDOW_INIT"
  | flags bs where "d = WT_CELL_SECOND_DESC" "bytes = flags # bs"
  using assms by (auto simp: cell_pack_value_validity_def WT_TIME_WINDOW_IS_EMPTY_def WT_TIME_WINDOW_INIT_def Let_def split: if_splits)

lemma addr_validity_cases:
  assumes "cell_pack_addr_validity ta = (d, bytes)"
  obtains "d = 0" "bytes = []" "WT_TIME_AGGREGATE_IS_EMPTY ta"
  | flags bs where "d = WT_CELL_SECOND_DESC" "bytes = flags # bs" "\<not> WT_TIME_AGGREGATE_IS_EMPTY ta"
  using assms by (auto simp: cell_pack_addr_validity_def Let_def split: if_splits)

lemma validity_desc: "cell_pack_value_validity tw = (d, bytes) \<Longrightarrow> d = 0 \<or> d = WT_CELL_SECOND_DESC"
  "cell_pack_addr_validity ta = (d, bytes) \<Longrightarrow> d = 0 \<or> d = WT_CELL_SECOND_DESC"
  by (auto elim: value_validity_cases addr_validity_cases)

lemma len_chk_within: "within e p n \<Longrightarrow> int k \<le> int n \<Longrightarrow> wt_cell_len_chk e p (int k) = Inr ()"
  by (auto simp: within_def wt_cell_len_chk_def split: option.splits)

lemma unpack_value_validity:
  assumes pk: "cell_pack_value_validity tw = (d, bytes)" and st: "window_storable tw"
    and h: "holds mem p bytes" and w: "within e p (length bytes)" and raw: "is_value_cell raw" "b AND WT_CELL_SECOND_DESC = 0 \<longleftrightarrow> d = 0"
  shows "cell_unpack_validity mem False e b raw p WT_TIME_WINDOW_INIT ta = Inr ((tw, ta), p + int (length bytes))"
proof -
  have na: "\<not> is_addr_cell raw" using raw(1) by (auto simp: is_value_cell_def is_addr_cell_def cell_type_defs)
  show ?thesis
  proof (cases rule: value_validity_cases [OF pk])
    case 1
    then show ?thesis using na raw by (simp add: cell_unpack_validity_def)
  next
    case (2 flags bs)
    have "within e (p + 1) (length bs)" using within_off [OF w, of 1 "length bs"] 2 by simp
    then have "wt_cell_len_chk e (p + 1) 0 = Inr ()" using len_chk_within [of e "p + 1" "length bs" 0] by simp
    moreover have "cell_unpack_value_validity mem e flags (p + 1) WT_TIME_WINDOW_INIT = Inr (tw, p + 1 + int (length bs))"
      by (rule value_validity_roundtrip [OF pk [unfolded 2] st]) (use h \<open>within e (p + 1) (length bs)\<close> 2 in simp_all)
    ultimately show ?thesis using na raw h 2 by (simp add: cell_unpack_validity_def WT_CELL_SECOND_DESC_def Let_def)
  qed
qed

lemma unpack_addr_validity:
  assumes pk: "cell_pack_addr_validity ta = (d, bytes)" and st: "ta_prepare ta \<le> 1"
    and h: "holds mem p bytes" and w: "within e p (length bytes)" and raw: "is_addr_cell raw" "b AND WT_CELL_SECOND_DESC = 0 \<longleftrightarrow> d = 0"
  shows "cell_unpack_validity mem True e b raw p tw WT_TIME_AGGREGATE_INIT =
    Inr ((tw, if WT_TIME_AGGREGATE_IS_EMPTY ta then WT_TIME_AGGREGATE_INIT else ta\<lparr>ta_init_merge := 0\<rparr>), p + int (length bytes))"
proof (cases rule: addr_validity_cases [OF pk])
  case 1
  then show ?thesis using raw by (simp add: cell_unpack_validity_def)
next
  case (2 flags bs)
  have "within e (p + 1) (length bs)" using within_off [OF w, of 1 "length bs"] 2 by simp
  then have "wt_cell_len_chk e (p + 1) 0 = Inr ()" using len_chk_within [of e "p + 1" "length bs" 0] by simp
  moreover have "cell_unpack_addr_validity mem e flags (p + 1) WT_TIME_AGGREGATE_INIT = Inr (ta\<lparr>ta_init_merge := 0\<rparr>, p + 1 + int (length bs))"
    by (rule addr_validity_roundtrip [OF pk [unfolded 2(1,2)] st]) (use h \<open>within e (p + 1) (length bs)\<close> 2 in simp_all)
  ultimately show ?thesis using raw h 2 by (simp add: cell_unpack_validity_def WT_CELL_SECOND_DESC_def Let_def)
qed

subsection \<open>The pack functions in one form\<close>

lemma pack_del_form: "cell_pack_value_validity tw = (d, bytes) \<Longrightarrow>
    wt_cell_pack_del tw rle = desc d WT_CELL_DEL (\<not> rle < 2) # bytes @ pack_if (\<not> rle < 2) rle"
  by (simp add: wt_cell_pack_del_def desc_def pack_if_def flag_if_def)

lemma pack_copy_form: "cell_pack_value_validity tw = (d, bytes) \<Longrightarrow>
    wt_cell_pack_copy tw rle v = desc d WT_CELL_VALUE_COPY (\<not> rle < 2) # bytes @ pack_if (\<not> rle < 2) rle @ vpack v"
  by (simp add: wt_cell_pack_copy_def desc_def pack_if_def flag_if_def)

lemma pack_ovfl_value_form: "cell_pack_value_validity tw = (d, bytes) \<Longrightarrow> ty = WT_CELL_VALUE_OVFL \<or> ty = WT_CELL_VALUE_OVFL_RM \<Longrightarrow>
    wt_cell_pack_ovfl ty (Some tw) rle n = desc d ty (\<not> rle < 2) # bytes @ pack_if (\<not> rle < 2) rle @ vpack n"
  by (auto simp: wt_cell_pack_ovfl_def desc_def pack_if_def flag_if_def)

lemma pack_ovfl_key_form: "ty = WT_CELL_KEY_OVFL \<or> ty = WT_CELL_KEY_OVFL_RM \<Longrightarrow>
    wt_cell_pack_ovfl ty None rle n = desc 0 ty (\<not> rle < 2) # pack_if (\<not> rle < 2) rle @ vpack n"
  by (auto simp: wt_cell_pack_ovfl_def desc_def pack_if_def flag_if_def cell_type_defs)

lemma pack_value_form:
  assumes "cell_pack_value_validity tw = (d, bytes)" "\<not> (d = 0 \<and> rle < 2 \<and> n \<le> WT_CELL_SHORT_MAX)"
  shows "wt_cell_pack_value tw rle n = desc d WT_CELL_VALUE (\<not> (d = 0 \<and> rle < 2)) # bytes @ pack_if (\<not> (d = 0 \<and> rle < 2)) rle @
    vpack (if d = 0 \<and> rle < 2 then n - WT_CELL_SIZE_ADJUST else n)"
proof -
  have "d AND WT_CELL_SECOND_DESC = 0 \<longleftrightarrow> d = 0" using validity_desc(1) [OF assms(1)] by (auto simp: WT_CELL_SECOND_DESC_def)
  then show ?thesis using assms by (auto simp: wt_cell_pack_value_def desc_def pack_if_def flag_if_def Let_def)
qed

subsection \<open>One pass over a packed cell\<close>

definition len_types :: "u8 set" where
  "len_types = {WT_CELL_ADDR_DEL, WT_CELL_ADDR_INT, WT_CELL_ADDR_LEAF, WT_CELL_ADDR_LEAF_NO, WT_CELL_KEY, WT_CELL_KEY_OVFL,
     WT_CELL_KEY_OVFL_RM, WT_CELL_VALUE, WT_CELL_VALUE_OVFL, WT_CELL_VALUE_OVFL_RM}"

lemma long_not_short:
  assumes "raw \<in> long_types"
  shows "raw \<noteq> WT_CELL_KEY_SHORT_PFX" "raw \<noteq> WT_CELL_KEY_SHORT" "raw \<noteq> WT_CELL_VALUE_SHORT"
  using assms by (auto simp: long_types_def cell_type_defs cell_short_defs)

text \<open>The cell as it is filled in: what a pass sets.\<close>

definition filled :: "u8 \<Rightarrow> u64 \<Rightarrow> int option \<Rightarrow> u32 \<Rightarrow> u32 \<Rightarrow> u8 \<Rightarrow> u8 \<Rightarrow> time_aggregate \<Rightarrow> page_deleted \<Rightarrow> cell_unpack \<Rightarrow> cell_unpack" where
  "filled b v dat n len prefix flags ta pd u =
     u\<lparr>cu_v := v, cu_data := dat, cu_size := n, cu_len := len, cu_prefix := prefix, cu_raw := wt_cell_type_raw b, cu_type := wt_cell_type b,
       cu_flags := flags, cu_ta := ta, cu_del := pd\<rparr>"

definition cell_size_adjust :: "u8 \<Rightarrow> u64 \<Rightarrow> u64 \<Rightarrow> u64" where
  "cell_size_adjust b v m =
     (let raw = wt_cell_type_raw b in
      if raw = WT_CELL_KEY \<or> raw = WT_CELL_KEY_PFX \<or> (raw = WT_CELL_VALUE \<and> v = 0 \<and> b AND WT_CELL_SECOND_DESC = 0) then m + WT_CELL_SIZE_ADJUST else m)"

lemma pass_len_cell:
  assumes b: "mem cell = b" and raw: "wt_cell_type_raw b \<in> len_types" and w0: "within e cell n"
    and val: "cell_unpack_validity mem addr e b (wt_cell_type_raw b) (cell + 1) WT_TIME_WINDOW_INIT (cu_ta u) = Inr ((tw, ta), p1)"
    and del: "cell_unpack_page_del mem ft e (wt_cell_type_raw b) p1 (cu_del u) = Inr (pd, p2)"
    and h: "holds mem p2 (pack_if c rle @ vpack m)" and w: "within e p2 (length (pack_if c rle @ vpack m))"
    and c: "b AND WT_CELL_64V \<noteq> 0 \<longleftrightarrow> c"
  defines "p3 \<equiv> p2 + int (length (pack_if c rle @ vpack m))" and "v \<equiv> (if c then rle else 0)"
  shows "cell_unpack_pass mem ft addr e cell u = Inr (filled b v (Some p3) (ucast (cell_size_adjust b v m))
      (word_of_int (p3 - cell) + ucast (cell_size_adjust b v m)) 0 (if is_ovfl_cell (wt_cell_type_raw b) then WT_CELL_UNPACK_OVERFLOW else 0) ta pd u, tw, None)"
proof -
  let ?r = "wt_cell_type_raw b"
  have long: "?r \<in> long_types" using raw by (auto simp: long_types_def len_types_def)
  have ns: "?r \<noteq> WT_CELL_KEY_PFX" "?r \<noteq> WT_CELL_VALUE_COPY" "is_ovfl_cell ?r \<or> is_addr_cell ?r \<or> ?r \<in> {WT_CELL_KEY, WT_CELL_KEY_PFX, WT_CELL_VALUE}"
    using raw by (auto simp: len_types_def is_ovfl_cell_def is_addr_cell_def cell_type_defs)
  have chk: "wt_cell_len_chk e cell 0 = Inr ()" using len_chk_within [OF w0, of 0] by simp
  note f = field_steps [OF h w]
  have len: "vunpack_at mem e (p2 + int (length (pack_if c rle))) = Inr (m, p3)"
    using vunpack_at_holds [OF f(2,3)] by (simp add: p3_def algebra_simps)
  show ?thesis
    unfolding cell_unpack_pass_def cell_unpack_data_def chk wt_ret_simps Let_def b if_not_P [OF long_not_short(1) [OF long]]
    using ns long_not_short(2,3) [OF long] 
    by (simp add: val del f(1) c len) (simp add: filled_def cell_size_adjust_def v_def Let_def)
qed

lemma key_no_validity: "\<not> is_addr_cell raw \<Longrightarrow> \<not> is_value_cell raw \<Longrightarrow> cell_unpack_validity mem addr e b raw p tw ta = Inr ((tw, ta), p)"
  by (simp add: cell_unpack_validity_def)

lemma no_page_del: "\<not> (raw = WT_CELL_ADDR_DEL \<and> ft) \<Longrightarrow> cell_unpack_page_del mem ft e raw p pd = Inr (pd, p)"
  by (auto simp: cell_unpack_page_del_def)

text \<open>A deleted value.\<close>

lemma pass_del_cell:
  assumes b: "mem cell = b" and raw: "wt_cell_type_raw b = WT_CELL_DEL" and w0: "within e cell n"
    and val: "cell_unpack_validity mem False e b WT_CELL_DEL (cell + 1) WT_TIME_WINDOW_INIT (cu_ta u) = Inr ((tw, ta), p1)"
    and h: "holds mem p1 (pack_if c rle)" and w: "within e p1 (length (pack_if c rle))"
    and c: "b AND WT_CELL_64V \<noteq> 0 \<longleftrightarrow> c"
  defines "p2 \<equiv> p1 + int (length (pack_if c rle))"
  shows "cell_unpack_pass mem ft False e cell u = Inr (filled b (if c then rle else 0) None 0 (word_of_int (p2 - cell)) 0 0 ta (cu_del u) u, tw, None)"
proof -
  have chk: "wt_cell_len_chk e cell 0 = Inr ()" using len_chk_within [OF w0, of 0] by simp
  have f: "unpack_field mem e c upd dflt (s, p1) = Inr (if c then upd rle s else dflt s, p2)" for upd dflt and s :: cell_unpack
    unfolding p2_def by (rule field_steps(1) [of _ _ _ _ "[]"]) (use h w in simp_all)
  have "WT_CELL_DEL \<in> long_types" by (simp add: long_types_def)
  note ns = long_not_short [OF this]
  have nt: "WT_CELL_DEL \<noteq> WT_CELL_KEY_PFX" "WT_CELL_DEL \<noteq> WT_CELL_VALUE_COPY"
    "\<not> (is_ovfl_cell WT_CELL_DEL \<or> is_addr_cell WT_CELL_DEL \<or> WT_CELL_DEL \<in> {WT_CELL_KEY, WT_CELL_KEY_PFX, WT_CELL_VALUE})"
    "\<not> (WT_CELL_DEL = WT_CELL_ADDR_DEL \<and> ft)"
    by (auto simp: is_ovfl_cell_def is_addr_cell_def cell_type_defs)
  show ?thesis
    unfolding cell_unpack_pass_def cell_unpack_data_def chk wt_ret_simps Let_def b raw if_not_P [OF ns(1)]
    using ns nt by (simp add: val no_page_del f c) (simp add: filled_def raw)
qed

text \<open>A copy cell.\<close>

lemma pass_copy_cell:
  assumes b: "mem cell = b" and raw: "wt_cell_type_raw b = WT_CELL_VALUE_COPY" and w0: "within e cell n"
    and val: "cell_unpack_validity mem False e b WT_CELL_VALUE_COPY (cell + 1) WT_TIME_WINDOW_INIT (cu_ta u) = Inr ((tw, ta), p1)"
    and h: "holds mem p1 (pack_if c rle @ vpack m)" and w: "within e p1 (length (pack_if c rle @ vpack m))"
    and c: "b AND WT_CELL_64V \<noteq> 0 \<longleftrightarrow> c"
  defines "p2 \<equiv> p1 + int (length (pack_if c rle @ vpack m))" and "v \<equiv> (if c then rle else 0)"
  shows "cell_unpack_pass mem ft False e cell u =
    Inr (filled b v None 0 0 0 0 ta (cu_del u) u, tw, Some (cell - sint m, v, word_of_int (p2 - cell)))"
proof -
  have chk: "wt_cell_len_chk e cell 0 = Inr ()" using len_chk_within [OF w0, of 0] by simp
  note f = field_steps [OF h w]
  have len: "vunpack_at mem e (p1 + int (length (pack_if c rle))) = Inr (m, p2)"
    using vunpack_at_holds [OF f(2,3)] by (simp add: p2_def algebra_simps)
  have "WT_CELL_VALUE_COPY \<in> long_types" by (simp add: long_types_def)
  note ns = long_not_short [OF this]
  have nt: "WT_CELL_VALUE_COPY \<noteq> WT_CELL_KEY_PFX" "\<not> (WT_CELL_VALUE_COPY = WT_CELL_ADDR_DEL \<and> ft)"
    by (auto simp: cell_type_defs)
  show ?thesis
    unfolding cell_unpack_pass_def cell_unpack_data_def chk wt_ret_simps Let_def b raw if_not_P [OF ns(1)]
    using ns nt by (simp add: val no_page_del f(1) c len) (simp add: filled_def v_def raw)
qed

text \<open>Short keys and values.\<close>

definition short_desc :: "u64 \<Rightarrow> u8 \<Rightarrow> u8" where
  "short_desc n ty = push_bit WT_CELL_SHORT_SHIFT (ucast n) OR ty"

lemma short_desc_facts:
  assumes "n \<le> WT_CELL_SHORT_MAX" "ty = WT_CELL_KEY_SHORT \<or> ty = WT_CELL_KEY_SHORT_PFX \<or> ty = WT_CELL_VALUE_SHORT"
  shows "wt_cell_type_raw (short_desc n ty) = ty" "ucast (drop_bit WT_CELL_SHORT_SHIFT (short_desc n ty)) = (ucast n :: u32)"
    "wt_cell_type (short_desc n ty) = (if ty = WT_CELL_VALUE_SHORT then WT_CELL_VALUE else WT_CELL_KEY)"
proof -
  obtain k where k: "n = of_nat k" "k < 64" 
  proof
    show "n = of_nat (unat n)" by simp
    show "unat n < 64" using assms(1) by (simp add: WT_CELL_SHORT_MAX_def word_le_nat_alt)
  qed
  have all: "\<forall>k \<in> set [0..<64]. \<forall>ty \<in> set [WT_CELL_KEY_SHORT, WT_CELL_KEY_SHORT_PFX, WT_CELL_VALUE_SHORT].
      wt_cell_type_raw (short_desc (of_nat k) ty) = ty \<and> ucast (drop_bit WT_CELL_SHORT_SHIFT (short_desc (of_nat k) ty)) = (of_nat k :: u32) \<and>
      wt_cell_type (short_desc (of_nat k) ty) = (if ty = WT_CELL_VALUE_SHORT then WT_CELL_VALUE else WT_CELL_KEY)"
    by code_simp
  have "k < 2 ^ 64" using k(2) by (rule less_trans) simp
  then have "unat n = k" unfolding k(1) by (simp add: unat_of_nat)
  then have "uint n = int k" by (metis of_nat_unat)
  then have "ucast n = (of_nat k :: u32)" unfolding ucast_eq by simp
  then have u: "ucast (of_nat k :: u64) = (of_nat k :: u32)" unfolding k(1) .
  have "k \<in> set [0..<64]" "ty \<in> set [WT_CELL_KEY_SHORT, WT_CELL_KEY_SHORT_PFX, WT_CELL_VALUE_SHORT]" using k(2) assms(2) by auto
  then have F: "wt_cell_type_raw (short_desc (of_nat k) ty) = ty \<and> ucast (drop_bit WT_CELL_SHORT_SHIFT (short_desc (of_nat k) ty)) = (of_nat k :: u32) \<and>
      wt_cell_type (short_desc (of_nat k) ty) = (if ty = WT_CELL_VALUE_SHORT then WT_CELL_VALUE else WT_CELL_KEY)" using all by blast
  show "wt_cell_type_raw (short_desc n ty) = ty" unfolding k(1) by (rule F [THEN conjunct1])
  show "ucast (drop_bit WT_CELL_SHORT_SHIFT (short_desc n ty)) = (ucast n :: u32)" unfolding k(1) u by (rule F [THEN conjunct2, THEN conjunct1])
  show "wt_cell_type (short_desc n ty) = (if ty = WT_CELL_VALUE_SHORT then WT_CELL_VALUE else WT_CELL_KEY)"
    unfolding k(1) by (rule F [THEN conjunct2, THEN conjunct2])
qed

subsection \<open>Packed cells come back\<close>

lemma pass_short_cell:
  assumes b: "mem cell = short_desc n ty" and n: "n \<le> WT_CELL_SHORT_MAX" and ty: "ty = WT_CELL_KEY_SHORT \<or> ty = WT_CELL_VALUE_SHORT"
    and w0: "within e cell k"
  shows "cell_unpack_pass mem ft addr e cell u =
    Inr (filled (short_desc n ty) 0 (Some (cell + 1)) (ucast n) (1 + ucast n) 0 0 (cu_ta u) (cu_del u) u, WT_TIME_WINDOW_INIT, None)"
proof -
  have ty': "ty = WT_CELL_KEY_SHORT \<or> ty = WT_CELL_KEY_SHORT_PFX \<or> ty = WT_CELL_VALUE_SHORT" using ty by blast
  note f = short_desc_facts [OF n ty']
  have chk: "wt_cell_len_chk e cell 0 = Inr ()" using len_chk_within [OF w0, of 0] by simp
  have np: "ty \<noteq> WT_CELL_KEY_SHORT_PFX" using ty by (auto simp: cell_short_defs)
  show ?thesis
    unfolding cell_unpack_pass_def cell_unpack_data_def chk wt_ret_simps Let_def b f(1) if_not_P [OF np] if_P [OF ty] f(2)
    by (simp add: filled_def f(1))
qed

lemma pass_short_pfx_cell:
  assumes b: "mem cell = short_desc n WT_CELL_KEY_SHORT_PFX" "mem (cell + 1) = prefix" and n: "n \<le> WT_CELL_SHORT_MAX"
    and w0: "within e cell k" "1 \<le> k"
  shows "cell_unpack_pass mem ft addr e cell u =
    Inr (filled (short_desc n WT_CELL_KEY_SHORT_PFX) 0 (Some (cell + 2)) (ucast n) (2 + ucast n) prefix 0 (cu_ta u) (cu_del u) u, WT_TIME_WINDOW_INIT, None)"
proof -
  note f = short_desc_facts [OF n, of WT_CELL_KEY_SHORT_PFX, simplified]
  have chk: "wt_cell_len_chk e cell 0 = Inr ()" "wt_cell_len_chk e cell 1 = Inr ()"
    using len_chk_within [OF w0(1), of 0] len_chk_within [OF w0(1), of 1] w0(2) by simp_all
  show ?thesis
    unfolding cell_unpack_pass_def cell_unpack_data_def chk wt_ret_simps Let_def b f(1) f(2)
    by (simp add: filled_def f(1) chk)
qed

lemma pass_pfx_cell:
  assumes b: "mem cell = WT_CELL_KEY_PFX" "mem (cell + 1) = prefix" and h: "holds mem (cell + 2) (vpack m)"
    and w: "within e cell (2 + length (vpack m))"
  shows "cell_unpack_pass mem ft addr e cell u =
    Inr (filled WT_CELL_KEY_PFX 0 (Some (cell + 2 + int (length (vpack m)))) (ucast (m + WT_CELL_SIZE_ADJUST))
      (word_of_int (2 + int (length (vpack m))) + ucast (m + WT_CELL_SIZE_ADJUST)) prefix 0 (cu_ta u) (cu_del u) u, WT_TIME_WINDOW_INIT, None)"
proof -
  have d: "desc 0 WT_CELL_KEY_PFX False = WT_CELL_KEY_PFX" by (simp add: desc_def flag_if_def)
  have l: "WT_CELL_KEY_PFX \<in> long_types" by (simp add: long_types_def)
  note f = desc_byte [of 0 WT_CELL_KEY_PFX False, unfolded d, OF disjI1 l, OF refl]
  note ns = long_not_short [OF l]
  have chk: "wt_cell_len_chk e cell 0 = Inr ()" "wt_cell_len_chk e (cell + 2) 0 = Inr ()"
    using len_chk_within [OF w, of 0] len_chk_within [OF within_off [OF w, of 2 "length (vpack m)"], of 0] by simp_all
  have nt: "\<not> is_addr_cell WT_CELL_KEY_PFX" "\<not> is_value_cell WT_CELL_KEY_PFX" "\<not> is_ovfl_cell WT_CELL_KEY_PFX" "WT_CELL_KEY_PFX \<noteq> WT_CELL_VALUE_COPY"
    "\<not> (WT_CELL_KEY_PFX = WT_CELL_ADDR_DEL \<and> ft)"
    by (auto simp: is_addr_cell_def is_value_cell_def is_ovfl_cell_def cell_type_defs)
  have len: "vunpack_at mem e (cell + 2) = Inr (m, cell + 2 + int (length (vpack m)))"
    by (rule vunpack_at_holds [OF h]) (use within_off [OF w, of 2 "length (vpack m)"] in simp)
  have v: "WT_CELL_KEY_PFX AND WT_CELL_64V = 0" using f(3) by simp
  have a: "cell + 1 + 1 = cell + 2" by simp
  show ?thesis
    unfolding cell_unpack_pass_def cell_unpack_data_def chk wt_ret_simps Let_def b f(1) if_not_P [OF ns(1)]
    using ns nt by (simp add: key_no_validity no_page_del a chk unpack_field_def v len b) (simp add: filled_def f(1))
qed

text \<open>From the pass to the whole function.\<close>

lemma unpack_once:
  assumes "cell_unpack_pass mem ft addr e cell (u\<lparr>cu_cell := Some cell, cu_ta := (if addr then WT_TIME_AGGREGATE_INIT else cu_ta u)\<rparr>) = Inr (u', tw, None)"
    and "wt_cell_len_chk e cell (uint (cu_len u')) = Inr ()"
  shows "wt_cell_unpack_safe mem ft addr e cell u = Some (Inr (if addr then u' else u'\<lparr>cu_tw := tw\<rparr>))"
  unfolding wt_cell_unpack_safe_def cell_unpack_loop.simps [of mem ft addr e cell]
  using assms by (simp add: cell_unpack_finish_def Let_def)

lemma unat_ucast_u32: "unat (ucast (x :: u64) :: u32) = unat x mod 2 ^ 32"
  by (simp add: unsigned_ucast_eq take_bit_eq_mod)

lemma uint_len:
  assumes "n + unat (k :: u64) < 2 ^ 32"
  shows "uint (of_nat n + ucast k :: u32) = int n + uint k"
proof -
  have "unat (of_nat n + ucast k :: u32) = (n + unat k) mod 2 ^ 32"
    by (simp only: unat_word_ariths unat_of_nat unat_ucast_u32 mod_add_left_eq mod_add_right_eq) (simp add: mod_add_right_eq)
  also have "\<dots> = n + unat k" using assms by (rule mod_less)
  finally have "int (unat (of_nat n + ucast k :: u32)) = int n + int (unat k)" by simp
  then show ?thesis by simp
qed

lemma len_chk_data:
  assumes "within e cell (n + unat (k :: u64))" "n + unat k < 2 ^ 32"
  shows "wt_cell_len_chk e cell (uint (of_nat n + ucast k :: u32)) = Inr ()"
  unfolding uint_len [OF assms(2)] using len_chk_within [OF assms(1), of "n + unat k"] by simp

end
