(* ===== verification/CellRoundtrip.thy ===== *)
theory CellRoundtrip
  imports CellBytes
begin

text \<open>
  Packed cells come back when they are unpacked: the cells of leaf pages and the keys of internal pages
  (\<open>kv_unpack\<close>), address cells with their fast-truncate information (\<open>addr_unpack\<close>), and copy cells
  (\<open>copy_unpack\<close>).
\<close>

text \<open>
  The cells of a leaf page, and keys of internal pages, with the bytes their pack function writes before
  the data, and the size of the data.
\<close>

datatype kv_cell =
    KvKey u8 u64
  | KvIntKey u64
  | KvKeyOvfl u8 u64 u64
  | KvValue time_window u64 u64
  | KvValueOvfl u8 time_window u64 u64
  | KvDel time_window u64

fun kv_bytes :: "kv_cell \<Rightarrow> u8 list" where
  "kv_bytes (KvKey prefix n) = wt_cell_pack_leaf_key prefix n"
| "kv_bytes (KvIntKey n) = wt_cell_pack_int_key n"
| "kv_bytes (KvKeyOvfl ty rle n) = wt_cell_pack_ovfl ty None rle n"
| "kv_bytes (KvValue tw rle n) = wt_cell_pack_value tw rle n"
| "kv_bytes (KvValueOvfl ty tw rle n) = wt_cell_pack_ovfl ty (Some tw) rle n"
| "kv_bytes (KvDel tw rle) = wt_cell_pack_del tw rle"

fun kv_size :: "kv_cell \<Rightarrow> u64" where
  "kv_size (KvKey prefix n) = n"
| "kv_size (KvIntKey n) = n"
| "kv_size (KvKeyOvfl ty rle n) = n"
| "kv_size (KvValue tw rle n) = n"
| "kv_size (KvValueOvfl ty tw rle n) = n"
| "kv_size (KvDel tw rle) = 0"

fun kv_window :: "kv_cell \<Rightarrow> time_window" where
  "kv_window (KvValue tw rle n) = tw"
| "kv_window (KvValueOvfl ty tw rle n) = tw"
| "kv_window (KvDel tw rle) = tw"
| "kv_window _ = WT_TIME_WINDOW_INIT"

fun kv_rle :: "kv_cell \<Rightarrow> u64" where
  "kv_rle (KvKeyOvfl ty rle n) = rle"
| "kv_rle (KvValue tw rle n) = rle"
| "kv_rle (KvValueOvfl ty tw rle n) = rle"
| "kv_rle (KvDel tw rle) = rle"
| "kv_rle _ = 0"

fun kv_prefix :: "kv_cell \<Rightarrow> u8" where
  "kv_prefix (KvKey prefix n) = prefix"
| "kv_prefix _ = 0"

fun kv_type :: "kv_cell \<Rightarrow> u8" where
  "kv_type (KvKey prefix n) = WT_CELL_KEY"
| "kv_type (KvIntKey n) = WT_CELL_KEY"
| "kv_type (KvKeyOvfl ty rle n) = WT_CELL_KEY_OVFL"
| "kv_type (KvValue tw rle n) = WT_CELL_VALUE"
| "kv_type (KvValueOvfl ty tw rle n) = WT_CELL_VALUE_OVFL"
| "kv_type (KvDel tw rle) = WT_CELL_DEL"

text \<open>Overflow cells have one of their types, windows can be stored.\<close>

fun kv_ok :: "kv_cell \<Rightarrow> bool" where
  "kv_ok (KvKeyOvfl ty rle n) \<longleftrightarrow> ty = WT_CELL_KEY_OVFL \<or> ty = WT_CELL_KEY_OVFL_RM"
| "kv_ok (KvValue tw rle n) \<longleftrightarrow> window_storable tw"
| "kv_ok (KvValueOvfl ty tw rle n) \<longleftrightarrow> (ty = WT_CELL_VALUE_OVFL \<or> ty = WT_CELL_VALUE_OVFL_RM) \<and> window_storable tw"
| "kv_ok (KvDel tw rle) \<longleftrightarrow> window_storable tw"
| "kv_ok _ \<longleftrightarrow> True"

definition rle_of :: "u64 \<Rightarrow> u64" where
  "rle_of rle = (if rle < 2 then 1 else rle)"

definition unpacked_as :: "kv_cell \<Rightarrow> int \<Rightarrow> cell_unpack \<Rightarrow> bool" where
  "unpacked_as c cell u \<longleftrightarrow> cu_cell u = Some cell \<and> cu_type u = kv_type c \<and> cu_tw u = kv_window c \<and> wt_cell_rle u = rle_of (kv_rle c) \<and>
     cu_prefix u = kv_prefix c \<and> cu_size u = ucast (kv_size c) \<and> uint (cu_len u) = int (length (kv_bytes c)) + uint (kv_size c) \<and>
     (kv_type c \<noteq> WT_CELL_DEL \<longrightarrow> cu_data u = Some (cell + int (length (kv_bytes c)))) \<and>
     (cu_flags u = WT_CELL_UNPACK_OVERFLOW \<longleftrightarrow> kv_type c = WT_CELL_KEY_OVFL \<or> kv_type c = WT_CELL_VALUE_OVFL)"

lemma size_adjust_back: "\<not> n \<le> WT_CELL_SHORT_MAX \<Longrightarrow> n - WT_CELL_SIZE_ADJUST + WT_CELL_SIZE_ADJUST = (n :: u64)"
  by simp

text \<open>A cell with a length: from its pieces to the unpacked cell.\<close>

lemma pass_packed:
  fixes u :: cell_unpack
  assumes d: "d = 0 \<or> d = WT_CELL_SECOND_DESC" and ty: "ty \<in> len_types" "\<not> is_addr_cell ty"
    and h: "holds mem cell (desc d ty c # bytes @ pack_if c rle @ vpack m)"
    and adj: "cell_size_adjust (desc d ty c) (if c then rle else 0) m = n"
    and w: "within e cell (length (desc d ty c # bytes @ pack_if c rle @ vpack m))"
    and val: "\<And>u :: cell_unpack. cell_unpack_validity mem False e (desc d ty c) ty (cell + 1) WT_TIME_WINDOW_INIT (cu_ta u) = Inr ((tw, cu_ta u), cell + 1 + int (length bytes))"
  shows "\<exists>r. cell_unpack_pass mem ft False e cell u = Inr (r, tw, None) \<and> cu_cell r = cu_cell u \<and> cu_tw r = cu_tw u \<and> cu_type r = collapse ty \<and>
    cu_v r = (if c then rle else 0) \<and> cu_prefix r = 0 \<and> cu_size r = ucast n \<and>
    cu_len r = of_nat (length (desc d ty c # bytes @ pack_if c rle @ vpack m)) + ucast n \<and>
    cu_data r = Some (cell + int (length (desc d ty c # bytes @ pack_if c rle @ vpack m))) \<and>
    cu_flags r = (if is_ovfl_cell ty then WT_CELL_UNPACK_OVERFLOW else 0)"
proof -
  let ?b = "desc d ty c"
  let ?l = "length (?b # bytes @ pack_if c rle @ vpack m)"
  have long: "ty \<in> long_types" using ty(1) by (auto simp: long_types_def len_types_def)
  note f = desc_byte [OF d long]
  have b: "mem cell = ?b" using h by simp
  have q: "cell + 1 + int (length bytes) + int (length (pack_if c rle @ vpack m)) = cell + int ?l" by simp
  have h2: "holds mem (cell + 1 + int (length bytes)) (pack_if c rle @ vpack m)" using h by (simp add: add.assoc)
  have w2: "within e (cell + 1 + int (length bytes)) (length (pack_if c rle @ vpack m))"
    using within_off [OF w, of "Suc (length bytes)" "length (pack_if c rle @ vpack m)"] by (simp add: add.assoc)
  have del: "cell_unpack_page_del mem ft e (wt_cell_type_raw ?b) (cell + 1 + int (length bytes)) (cu_del u) = Inr (cu_del u, cell + 1 + int (length bytes))"
    unfolding f(1) by (rule no_page_del) (use ty(2) in \<open>auto simp: is_addr_cell_def\<close>)
  have rawl: "wt_cell_type_raw ?b \<in> len_types" using ty(1) f(1) by simp
  have val': "cell_unpack_validity mem False e ?b (wt_cell_type_raw ?b) (cell + 1) WT_TIME_WINDOW_INIT (cu_ta u) = Inr ((tw, cu_ta u), cell + 1 + int (length bytes))"
    unfolding f(1) by (rule val)
  define r where "r = filled ?b (if c then rle else 0) (Some (cell + int ?l)) (ucast n)
      (word_of_int (cell + int ?l - cell) + ucast n) 0 (if is_ovfl_cell ty then WT_CELL_UNPACK_OVERFLOW else 0) (cu_ta u) (cu_del u) u"
  have pass: "cell_unpack_pass mem ft False e cell u = Inr (r, tw, None)"
    using pass_len_cell [OF b rawl w val' del h2 w2 f(3)] unfolding q adj f(1) r_def .
  have wl: "word_of_int (cell + int ?l - cell) = (of_nat ?l :: u32)" by simp
  have "cu_len r = of_nat ?l + ucast n" by (simp add: r_def filled_def)
  moreover have "cu_cell r = cu_cell u" "cu_tw r = cu_tw u" "cu_type r = collapse ty" "cu_v r = (if c then rle else 0)" "cu_prefix r = 0"
    "cu_size r = ucast n" "cu_data r = Some (cell + int ?l)" "cu_flags r = (if is_ovfl_cell ty then WT_CELL_UNPACK_OVERFLOW else 0)"
    unfolding r_def filled_def by (simp_all add: f)
  ultimately show ?thesis using pass by blast
qed

lemma finish_pass:
  assumes pass: "cell_unpack_pass mem ft False e cell (u\<lparr>cu_cell := Some cell\<rparr>) = Inr (r, tw, None)"
    and len_r: "cu_len r = of_nat (length (kv_bytes c)) + ucast (kv_size c)"
    and w: "within e cell (length (kv_bytes c) + unat (kv_size c))" and len: "length (kv_bytes c) + unat (kv_size c) < 2 ^ 32"
    and r: "cu_cell r = Some cell" "cu_type r = kv_type c" "wt_cell_rle r = rle_of (kv_rle c)" "cu_prefix r = kv_prefix c" "cu_size r = ucast (kv_size c)"
      "kv_type c \<noteq> WT_CELL_DEL \<Longrightarrow> cu_data r = Some (cell + int (length (kv_bytes c)))" "tw = kv_window c"
      "cu_flags r = WT_CELL_UNPACK_OVERFLOW \<longleftrightarrow> kv_type c = WT_CELL_KEY_OVFL \<or> kv_type c = WT_CELL_VALUE_OVFL"
  shows "\<exists>u'. wt_cell_unpack_safe mem ft False e cell u = Some (Inr u') \<and> unpacked_as c cell u'"
proof -
  have eq: "u\<lparr>cu_cell := Some cell, cu_ta := (if False then WT_TIME_AGGREGATE_INIT else cu_ta u)\<rparr> = u\<lparr>cu_cell := Some cell\<rparr>" by simp
  have lc: "wt_cell_len_chk e cell (uint (cu_len r)) = Inr ()" unfolding len_r by (rule len_chk_data [OF w len])
  have ul: "uint (cu_len r) = int (length (kv_bytes c)) + uint (kv_size c)" unfolding len_r by (rule uint_len [OF len])
  have "wt_cell_unpack_safe mem ft False e cell u = Some (Inr (r\<lparr>cu_tw := tw\<rparr>))" using unpack_once [of mem ft False e cell u, unfolded eq, OF pass lc] by simp
  moreover have "wt_cell_rle (r\<lparr>cu_tw := tw\<rparr>) = wt_cell_rle r" by (simp add: wt_cell_rle_def)
  ultimately show ?thesis using ul r by (intro exI [of _ "r\<lparr>cu_tw := tw\<rparr>"]) (auto simp: unpacked_as_def)
qed

lemma desc_key: "desc 0 ty False = ty"
  by (simp add: desc_def flag_if_def)

lemma key_types: "WT_CELL_KEY \<in> len_types" "\<not> is_addr_cell WT_CELL_KEY" "\<not> is_value_cell WT_CELL_KEY" "\<not> is_ovfl_cell WT_CELL_KEY"
  "WT_CELL_KEY_OVFL \<in> len_types" "\<not> is_addr_cell WT_CELL_KEY_OVFL" "\<not> is_value_cell WT_CELL_KEY_OVFL" "is_ovfl_cell WT_CELL_KEY_OVFL"
  "WT_CELL_KEY_OVFL_RM \<in> len_types" "\<not> is_addr_cell WT_CELL_KEY_OVFL_RM" "\<not> is_value_cell WT_CELL_KEY_OVFL_RM" "is_ovfl_cell WT_CELL_KEY_OVFL_RM"
  "WT_CELL_VALUE \<in> len_types" "\<not> is_addr_cell WT_CELL_VALUE" "is_value_cell WT_CELL_VALUE" "\<not> is_ovfl_cell WT_CELL_VALUE"
  "WT_CELL_VALUE_OVFL \<in> len_types" "\<not> is_addr_cell WT_CELL_VALUE_OVFL" "is_value_cell WT_CELL_VALUE_OVFL" "is_ovfl_cell WT_CELL_VALUE_OVFL"
  "WT_CELL_VALUE_OVFL_RM \<in> len_types" "\<not> is_addr_cell WT_CELL_VALUE_OVFL_RM" "is_value_cell WT_CELL_VALUE_OVFL_RM" "is_ovfl_cell WT_CELL_VALUE_OVFL_RM"
  by (auto simp: len_types_def is_addr_cell_def is_value_cell_def is_ovfl_cell_def cell_type_defs)

lemma collapse_types: "collapse WT_CELL_KEY = WT_CELL_KEY" "collapse WT_CELL_KEY_OVFL = WT_CELL_KEY_OVFL" "collapse WT_CELL_KEY_OVFL_RM = WT_CELL_KEY_OVFL"
  "collapse WT_CELL_VALUE = WT_CELL_VALUE" "collapse WT_CELL_VALUE_OVFL = WT_CELL_VALUE_OVFL" "collapse WT_CELL_VALUE_OVFL_RM = WT_CELL_VALUE_OVFL"
  "collapse WT_CELL_DEL = WT_CELL_DEL" "collapse WT_CELL_KEY_PFX = WT_CELL_KEY"
  by (simp_all add: collapse_def cell_type_defs)

lemma kv_types_differ: "WT_CELL_KEY \<noteq> WT_CELL_DEL" "WT_CELL_KEY \<noteq> WT_CELL_KEY_OVFL" "WT_CELL_KEY \<noteq> WT_CELL_VALUE_OVFL" "WT_CELL_KEY_OVFL \<noteq> WT_CELL_DEL"
  "WT_CELL_VALUE \<noteq> WT_CELL_DEL" "WT_CELL_VALUE \<noteq> WT_CELL_KEY_OVFL" "WT_CELL_VALUE \<noteq> WT_CELL_VALUE_OVFL" "WT_CELL_VALUE_OVFL \<noteq> WT_CELL_DEL"
  "WT_CELL_DEL \<noteq> WT_CELL_KEY_OVFL" "WT_CELL_DEL \<noteq> WT_CELL_VALUE_OVFL" "WT_CELL_UNPACK_OVERFLOW \<noteq> 0"
  by (simp_all add: cell_type_defs WT_CELL_UNPACK_OVERFLOW_def)

text \<open>A key with its length packed, and a key in one byte.\<close>

lemma unpack_long_key:
  assumes n: "\<not> n \<le> WT_CELL_SHORT_MAX" and h: "holds mem cell (WT_CELL_KEY # vpack (n - WT_CELL_SIZE_ADJUST))"
    and w: "within e cell (length (WT_CELL_KEY # vpack (n - WT_CELL_SIZE_ADJUST)) + unat n)"
    and len: "length (WT_CELL_KEY # vpack (n - WT_CELL_SIZE_ADJUST)) + unat n < 2 ^ 32"
    and c: "kv_bytes c = WT_CELL_KEY # vpack (n - WT_CELL_SIZE_ADJUST)" "kv_size c = n" "kv_window c = WT_TIME_WINDOW_INIT" "kv_rle c = 0"
      "kv_prefix c = 0" "kv_type c = WT_CELL_KEY"
  shows "\<exists>u'. wt_cell_unpack_safe mem ft False e cell u = Some (Inr u') \<and> unpacked_as c cell u'"
proof -
  let ?m = "n - WT_CELL_SIZE_ADJUST"
  have form: "WT_CELL_KEY # vpack ?m = desc 0 WT_CELL_KEY False # [] @ pack_if False 0 @ vpack ?m" by (simp add: desc_key pack_if_def)
  have adj: "cell_size_adjust (desc 0 WT_CELL_KEY False) (if False then 0 else 0) ?m = n"
    using desc_byte(1) [of 0 WT_CELL_KEY False] by (simp add: cell_size_adjust_def long_types_def Let_def)
  obtain r where r: "cell_unpack_pass mem ft False e cell (u\<lparr>cu_cell := Some cell\<rparr>) = Inr (r, WT_TIME_WINDOW_INIT, None)" "cu_cell r = Some cell"
      "cu_type r = collapse WT_CELL_KEY" "cu_v r = (if False then 0 else 0)" "cu_prefix r = 0" "cu_size r = ucast n"
      "cu_len r = of_nat (length (WT_CELL_KEY # vpack ?m)) + ucast n" "cu_data r = Some (cell + int (length (WT_CELL_KEY # vpack ?m)))"
      "cu_flags r = (if is_ovfl_cell WT_CELL_KEY then WT_CELL_UNPACK_OVERFLOW else 0)"
    using pass_packed [OF disjI1 [OF refl] key_types(1,2) h [unfolded form] adj within_le [OF w [unfolded form]], of WT_TIME_WINDOW_INIT ft "u\<lparr>cu_cell := Some cell\<rparr>"]
    unfolding form [symmetric] by (auto simp: key_no_validity key_types)
  show ?thesis
    by (rule finish_pass [OF r(1)]) (use r w len in \<open>simp_all add: c collapse_types wt_cell_rle_def rle_of_def key_types kv_types_differ\<close>)
qed

lemma unpack_short:
  assumes n: "n \<le> WT_CELL_SHORT_MAX" and ty: "ty = WT_CELL_KEY_SHORT \<or> ty = WT_CELL_VALUE_SHORT" and b: "mem cell = short_desc n ty"
    and w: "within e cell (1 + unat n)" and len: "1 + unat n < 2 ^ 32"
    and c: "kv_bytes c = [short_desc n ty]" "kv_size c = n" "kv_window c = WT_TIME_WINDOW_INIT" "rle_of (kv_rle c) = 1"
      "kv_prefix c = 0" "kv_type c = (if ty = WT_CELL_VALUE_SHORT then WT_CELL_VALUE else WT_CELL_KEY)"
  shows "\<exists>u'. wt_cell_unpack_safe mem ft False e cell u = Some (Inr u') \<and> unpacked_as c cell u'"
proof -
  let ?u = "u\<lparr>cu_cell := Some cell\<rparr>"
  define r where "r = filled (short_desc n ty) 0 (Some (cell + 1)) (ucast n) (1 + ucast n) 0 0 (cu_ta ?u) (cu_del ?u) ?u"
  have pass: "cell_unpack_pass mem ft False e cell ?u = Inr (r, WT_TIME_WINDOW_INIT, None)"
    unfolding r_def by (rule pass_short_cell [of mem cell n ty, OF b n ty w])
  have "cu_type r = kv_type c" using short_desc_facts(3) [OF n, of ty] ty by (auto simp: r_def filled_def c(6))
  moreover have "cu_cell r = Some cell" "cu_v r = 0" "cu_prefix r = 0" "cu_size r = ucast n" "cu_data r = Some (cell + 1)" "cu_flags r = 0"
    "cu_len r = of_nat 1 + ucast n" unfolding r_def filled_def by simp_all
  ultimately show ?thesis
    by (intro finish_pass [OF pass]) (use c ty w len in \<open>auto simp: wt_cell_rle_def kv_types_differ\<close>)
qed

text \<open>Keys with a prefix count.\<close>

lemma unpack_pfx_short:
  assumes c: "c = KvKey prefix n" "prefix \<noteq> 0" and n: "n \<le> WT_CELL_SHORT_MAX" and h: "holds mem cell (kv_bytes c)"
    and w: "within e cell (length (kv_bytes c) + unat (kv_size c))" and len: "length (kv_bytes c) + unat (kv_size c) < 2 ^ 32"
  shows "\<exists>u'. wt_cell_unpack_safe mem ft False e cell u = Some (Inr u') \<and> unpacked_as c cell u'"
proof -
  have kb: "kv_bytes c = [short_desc n WT_CELL_KEY_SHORT_PFX, prefix]" using c n by (simp add: wt_cell_pack_leaf_key_def short_desc_def)
  have kb': "wt_cell_pack_leaf_key prefix n = [short_desc n WT_CELL_KEY_SHORT_PFX, prefix]" using kb c(1) by simp
  have b: "mem cell = short_desc n WT_CELL_KEY_SHORT_PFX" "mem (cell + 1) = prefix" using h unfolding kb by simp_all
  have "within e cell (2 + unat n)" "1 \<le> 2 + unat n" using w c kb by simp_all
  note pass = pass_short_pfx_cell [OF b n this]
  show ?thesis
    by (rule finish_pass [OF pass _ w len])
      (use short_desc_facts(3) [OF n, of WT_CELL_KEY_SHORT_PFX] in \<open>auto simp: kb' c(1) filled_def wt_cell_rle_def rle_of_def kv_types_differ cell_short_defs\<close>)
qed

lemma unpack_pfx_long:
  assumes c: "c = KvKey prefix n" "prefix \<noteq> 0" and n: "\<not> n \<le> WT_CELL_SHORT_MAX" and h: "holds mem cell (kv_bytes c)"
    and w: "within e cell (length (kv_bytes c) + unat (kv_size c))" and len: "length (kv_bytes c) + unat (kv_size c) < 2 ^ 32"
  shows "\<exists>u'. wt_cell_unpack_safe mem ft False e cell u = Some (Inr u') \<and> unpacked_as c cell u'"
proof -
  let ?m = "n - WT_CELL_SIZE_ADJUST"
  have kb: "kv_bytes c = WT_CELL_KEY_PFX # prefix # vpack ?m" using c n by (simp add: wt_cell_pack_leaf_key_def)
  have kb': "wt_cell_pack_leaf_key prefix n = WT_CELL_KEY_PFX # prefix # vpack ?m" using kb c(1) by simp
  have b: "mem cell = WT_CELL_KEY_PFX" "mem (cell + 1) = prefix" "holds mem (cell + 2) (vpack ?m)" using h unfolding kb by (simp_all add: add.assoc)
  have "within e cell (2 + length (vpack ?m))" by (rule within_le [OF w]) (simp add: kb)
  note pass = pass_pfx_cell [OF b this, unfolded size_adjust_back [OF n]]
  have "wt_cell_type WT_CELL_KEY_PFX = WT_CELL_KEY"
    using desc_byte(2) [of 0 WT_CELL_KEY_PFX False] by (simp add: desc_key collapse_types long_types_def)
  then show ?thesis
    by (intro finish_pass [OF pass _ w len])
      (auto simp: kb' c(1) filled_def wt_cell_rle_def rle_of_def kv_types_differ of_nat_Suc algebra_simps)
qed

lemma unpack_del:
  assumes c: "c = KvDel tw rle" and st: "window_storable tw" and h: "holds mem cell (kv_bytes c)"
    and w: "within e cell (length (kv_bytes c) + unat (kv_size c))" and len: "length (kv_bytes c) + unat (kv_size c) < 2 ^ 32"
  shows "\<exists>u'. wt_cell_unpack_safe mem ft False e cell u = Some (Inr u') \<and> unpacked_as c cell u'"
proof -
  obtain d bytes where pk: "cell_pack_value_validity tw = (d, bytes)" by (cases "cell_pack_value_validity tw")
  let ?c = "\<not> rle < 2"
  let ?b = "desc d WT_CELL_DEL ?c"
  have kb: "kv_bytes c = ?b # bytes @ pack_if ?c rle" using pack_del_form [OF pk] c by simp
  have w0: "within e cell (length (kv_bytes c))" by (rule within_le [OF w]) simp
  have f: "wt_cell_type_raw ?b = WT_CELL_DEL" "wt_cell_type ?b = WT_CELL_DEL" "?b AND WT_CELL_64V \<noteq> 0 \<longleftrightarrow> ?c" "?b AND WT_CELL_SECOND_DESC = 0 \<longleftrightarrow> d = 0"
    using desc_byte [OF validity_desc(1) [OF pk], of WT_CELL_DEL] by (simp_all add: long_types_def collapse_types)
  have h': "mem cell = ?b" "holds mem (cell + 1) bytes" "holds mem (cell + 1 + int (length bytes)) (pack_if ?c rle)"
    using h unfolding kb by simp_all
  have w': "within e (cell + 1) (length bytes)" using within_off [OF w0, of 1 "length bytes"] by (simp add: kb)
  have w'': "within e (cell + 1 + int (length bytes)) (length (pack_if ?c rle))"
    using within_off [OF w0, of "Suc (length bytes)" "length (pack_if ?c rle)"] by (simp add: kb add.assoc)
  let ?u = "u\<lparr>cu_cell := Some cell\<rparr>"
  have val: "cell_unpack_validity mem False e ?b WT_CELL_DEL (cell + 1) WT_TIME_WINDOW_INIT (cu_ta ?u) = Inr ((tw, cu_ta ?u), cell + 1 + int (length bytes))"
    by (rule unpack_value_validity [OF pk st h'(2) w' _ f(4)]) (simp add: is_value_cell_def)
  note pass = pass_del_cell [OF h'(1) f(1) w0 val h'(3) w'' f(3)]
  have q: "cell + 1 + int (length bytes) + int (length (pack_if ?c rle)) - cell = int (length (kv_bytes c))" by (simp add: kb)
  show ?thesis
    by (rule finish_pass [OF pass [unfolded q] _ w len])
      (simp_all add: filled_def c wt_cell_rle_def rle_of_def f kv_types_differ kv_types_differ [symmetric])
qed

lemma less_2: "(x :: u64) < 2 \<longleftrightarrow> x = 0 \<or> x = 1"
proof
  assume "x < 2"
  then have "unat x = unat (0 :: u64) \<or> unat x = unat (1 :: u64)" by (auto simp: word_less_nat_alt)
  then show "x = 0 \<or> x = 1" by (simp only: word_unat_eq_iff)
qed auto

text \<open>The pass over a value, also when it is a copy that refers to it.\<close>

lemma value_pass:
  fixes u :: cell_unpack
  assumes st: "window_storable tw" and h: "holds mem cell (wt_cell_pack_value tw rle n)"
    and w: "within e cell (length (wt_cell_pack_value tw rle n) + unat n)"
  shows "\<exists>r. cell_unpack_pass mem ft False e cell u = Inr (r, tw, None) \<and> cu_cell r = cu_cell u \<and> cu_tw r = cu_tw u \<and> cu_type r = WT_CELL_VALUE \<and>
    wt_cell_rle r = rle_of rle \<and> cu_prefix r = 0 \<and> cu_size r = ucast n \<and>
    cu_len r = of_nat (length (wt_cell_pack_value tw rle n)) + ucast n \<and>
    cu_data r = Some (cell + int (length (wt_cell_pack_value tw rle n))) \<and> cu_flags r = 0"
proof -
  let ?B = "wt_cell_pack_value tw rle n"
  obtain d bytes where pk: "cell_pack_value_validity tw = (d, bytes)" by (cases "cell_pack_value_validity tw")
  show ?thesis
  proof (cases "d = 0 \<and> rle < 2 \<and> n \<le> WT_CELL_SHORT_MAX")
    case True
    then have tw: "tw = WT_TIME_WINDOW_INIT" "bytes = []"
      using value_validity_cases [OF pk] by (auto simp: WT_CELL_SECOND_DESC_def)
    have kb: "?B = [short_desc n WT_CELL_VALUE_SHORT]"
      using True pk tw(2) by (simp add: wt_cell_pack_value_def short_desc_def)
    have n: "n \<le> WT_CELL_SHORT_MAX" using True by simp
    have b: "mem cell = short_desc n WT_CELL_VALUE_SHORT" using h by (simp add: kb)
    show ?thesis
      using pass_short_cell [of mem cell n WT_CELL_VALUE_SHORT, OF b n disjI2 [OF refl] w, of ft False u]
        short_desc_facts(3) [OF n, of WT_CELL_VALUE_SHORT] True
      unfolding kb by (simp add: filled_def tw wt_cell_rle_def rle_of_def)
  next
    case False
    let ?c = "\<not> (d = 0 \<and> rle < 2)"
    let ?m = "if d = 0 \<and> rle < 2 then n - WT_CELL_SIZE_ADJUST else n"
    have kb: "?B = desc d WT_CELL_VALUE ?c # bytes @ pack_if ?c rle @ vpack ?m"
      using pack_value_form [OF pk False] .
    have f: "wt_cell_type_raw (desc d WT_CELL_VALUE ?c) = WT_CELL_VALUE" "desc d WT_CELL_VALUE ?c AND WT_CELL_SECOND_DESC = 0 \<longleftrightarrow> d = 0"
      using desc_byte [OF validity_desc(1) [OF pk], of WT_CELL_VALUE] by (simp_all add: long_types_def)
    have adj: "cell_size_adjust (desc d WT_CELL_VALUE ?c) (if ?c then rle else 0) ?m = n"
      using f False by (auto simp: cell_size_adjust_def Let_def cell_type_defs less_2)
    have wl: "within e cell (length ?B)" by (rule within_le [OF w]) simp
    have w0: "within e (cell + 1) (length bytes)" using within_off [OF wl, of 1 "length bytes"] by (simp add: kb)
    have h0: "holds mem (cell + 1) bytes" using h by (simp add: kb)
    have val: "cell_unpack_validity mem False e (desc d WT_CELL_VALUE ?c) WT_CELL_VALUE (cell + 1) WT_TIME_WINDOW_INIT (cu_ta u) =
        Inr ((tw, cu_ta u), cell + 1 + int (length bytes))" for u :: cell_unpack
      by (rule unpack_value_validity [OF pk st h0 w0 key_types(15) f(2)])
    obtain r where r: "cell_unpack_pass mem ft False e cell u = Inr (r, tw, None)" "cu_cell r = cu_cell u" "cu_tw r = cu_tw u"
      "cu_type r = collapse WT_CELL_VALUE" "cu_v r = (if ?c then rle else 0)" "cu_prefix r = 0" "cu_size r = ucast n"
      "cu_len r = of_nat (length ?B) + ucast n" "cu_data r = Some (cell + int (length ?B))"
      "cu_flags r = (if is_ovfl_cell WT_CELL_VALUE then WT_CELL_UNPACK_OVERFLOW else 0)"
      using pass_packed [OF validity_desc(1) [OF pk] key_types(13,14) h [unfolded kb] adj wl [unfolded kb] val, of ft u]
      unfolding kb [symmetric] by blast
    have "wt_cell_rle r = rle_of rle" using r(5) by (auto simp: wt_cell_rle_def rle_of_def)
    then show ?thesis using r by (simp add: collapse_types key_types)
  qed
qed

lemma unpack_value:
  assumes c: "c = KvValue tw rle n" and st: "window_storable tw" and h: "holds mem cell (kv_bytes c)"
    and w: "within e cell (length (kv_bytes c) + unat (kv_size c))" and len: "length (kv_bytes c) + unat (kv_size c) < 2 ^ 32"
  shows "\<exists>u'. wt_cell_unpack_safe mem ft False e cell u = Some (Inr u') \<and> unpacked_as c cell u'"
proof -
  note c' = c [symmetric]
  obtain r where r: "cell_unpack_pass mem ft False e cell (u\<lparr>cu_cell := Some cell\<rparr>) = Inr (r, tw, None)" "cu_cell r = Some cell"
      "cu_type r = WT_CELL_VALUE" "wt_cell_rle r = rle_of rle" "cu_prefix r = 0" "cu_size r = ucast n"
      "cu_len r = of_nat (length (kv_bytes c)) + ucast n" "cu_data r = Some (cell + int (length (kv_bytes c)))" "cu_flags r = 0"
    using value_pass [OF st, of mem cell rle n e ft "u\<lparr>cu_cell := Some cell\<rparr>"] h w unfolding c by auto
  show ?thesis
    by (rule finish_pass [OF r(1)]) (use r w len in \<open>simp_all add: c kv_types_differ kv_types_differ [symmetric]\<close>)
qed

lemma unpack_value_ovfl:
  assumes c: "c = KvValueOvfl ty tw rle n" "ty = WT_CELL_VALUE_OVFL \<or> ty = WT_CELL_VALUE_OVFL_RM" and st: "window_storable tw" and h: "holds mem cell (kv_bytes c)"
    and w: "within e cell (length (kv_bytes c) + unat (kv_size c))" and len: "length (kv_bytes c) + unat (kv_size c) < 2 ^ 32"
  shows "\<exists>u'. wt_cell_unpack_safe mem ft False e cell u = Some (Inr u') \<and> unpacked_as c cell u'"
proof -
  obtain d bytes where pk: "cell_pack_value_validity tw = (d, bytes)" by (cases "cell_pack_value_validity tw")
  let ?c = "\<not> rle < 2"
  have kb: "kv_bytes c = desc d ty ?c # bytes @ pack_if ?c rle @ vpack n"
    using pack_ovfl_value_form [OF pk c(2)] c by simp
  have T: "ty \<in> len_types" "\<not> is_addr_cell ty" "is_value_cell ty" "is_ovfl_cell ty" "collapse ty = WT_CELL_VALUE_OVFL" "ty \<in> long_types"
    using c(2) key_types collapse_types by (auto simp: long_types_def)
  have f: "wt_cell_type_raw (desc d ty ?c) = ty" "desc d ty ?c AND WT_CELL_SECOND_DESC = 0 \<longleftrightarrow> d = 0"
    using desc_byte [OF validity_desc(1) [OF pk] T(6)] by simp_all
  have adj: "cell_size_adjust (desc d ty ?c) (if ?c then rle else 0) n = n"
    using f(1) c(2) by (auto simp: cell_size_adjust_def Let_def cell_type_defs)
  have w0: "within e (cell + 1) (length bytes)" using within_off [OF w, of 1 "length bytes"] by (simp add: kb)
  have h0: "holds mem (cell + 1) bytes" using h by (simp add: kb)
  have val: "cell_unpack_validity mem False e (desc d ty ?c) ty (cell + 1) WT_TIME_WINDOW_INIT (cu_ta u) =
      Inr ((tw, cu_ta u), cell + 1 + int (length bytes))" for u :: cell_unpack
    by (rule unpack_value_validity [OF pk st h0 w0 T(3) f(2)])
  have nk: "kv_size c = n" using c by simp
  obtain r where r: "cell_unpack_pass mem ft False e cell (u\<lparr>cu_cell := Some cell\<rparr>) = Inr (r, tw, None)" "cu_cell r = Some cell"
      "cu_type r = collapse ty" "cu_v r = (if ?c then rle else 0)" "cu_prefix r = 0" "cu_size r = ucast n"
      "cu_len r = of_nat (length (kv_bytes c)) + ucast n" "cu_data r = Some (cell + int (length (kv_bytes c)))"
      "cu_flags r = (if is_ovfl_cell ty then WT_CELL_UNPACK_OVERFLOW else 0)"
    using pass_packed [OF validity_desc(1) [OF pk] T(1,2) h [unfolded kb] adj within_le [OF w [unfolded kb]] val, of ft "u\<lparr>cu_cell := Some cell\<rparr>"]
    unfolding kb [symmetric] by auto
  have "wt_cell_rle r = rle_of rle" using r(4) by (auto simp: wt_cell_rle_def rle_of_def)
  then show ?thesis
    by (intro finish_pass [OF r(1)]) (use r w len in \<open>simp_all add: c T kv_types_differ kv_types_differ [symmetric]\<close>)
qed

lemma unpack_key_ovfl:
  assumes c: "c = KvKeyOvfl ty rle n" "ty = WT_CELL_KEY_OVFL \<or> ty = WT_CELL_KEY_OVFL_RM" and h: "holds mem cell (kv_bytes c)"
    and w: "within e cell (length (kv_bytes c) + unat (kv_size c))" and len: "length (kv_bytes c) + unat (kv_size c) < 2 ^ 32"
  shows "\<exists>u'. wt_cell_unpack_safe mem ft False e cell u = Some (Inr u') \<and> unpacked_as c cell u'"
proof -
  let ?c = "\<not> rle < 2"
  have kb: "kv_bytes c = desc 0 ty ?c # [] @ pack_if ?c rle @ vpack n"
    using pack_ovfl_key_form [OF c(2)] c by simp
  have T: "ty \<in> len_types" "\<not> is_addr_cell ty" "\<not> is_value_cell ty" "is_ovfl_cell ty" "collapse ty = WT_CELL_KEY_OVFL" "ty \<in> long_types"
    using c(2) key_types collapse_types by (auto simp: long_types_def)
  have adj: "cell_size_adjust (desc 0 ty ?c) (if ?c then rle else 0) n = n"
    using desc_byte(1) [OF disjI1 [OF refl] T(6)] c(2) by (auto simp: cell_size_adjust_def Let_def cell_type_defs)
  have nk: "kv_size c = n" using c by simp
  have val: "cell_unpack_validity mem False e (desc 0 ty ?c) ty (cell + 1) WT_TIME_WINDOW_INIT (cu_ta u) =
      Inr ((WT_TIME_WINDOW_INIT, cu_ta u), cell + 1 + int (length ([] :: u8 list)))" for u :: cell_unpack
    using key_no_validity [OF T(2,3)] by simp
  obtain r where r: "cell_unpack_pass mem ft False e cell (u\<lparr>cu_cell := Some cell\<rparr>) = Inr (r, WT_TIME_WINDOW_INIT, None)" "cu_cell r = Some cell"
      "cu_type r = collapse ty" "cu_v r = (if ?c then rle else 0)" "cu_prefix r = 0" "cu_size r = ucast n"
      "cu_len r = of_nat (length (kv_bytes c)) + ucast n" "cu_data r = Some (cell + int (length (kv_bytes c)))"
      "cu_flags r = (if is_ovfl_cell ty then WT_CELL_UNPACK_OVERFLOW else 0)"
    using pass_packed [OF disjI1 [OF refl] T(1,2) h [unfolded kb] adj within_le [OF w [unfolded kb]] val, of ft "u\<lparr>cu_cell := Some cell\<rparr>"]
    unfolding kb [symmetric] by auto
  have "wt_cell_rle r = rle_of rle" using r(4) by (auto simp: wt_cell_rle_def rle_of_def)
  then show ?thesis
    by (intro finish_pass [OF r(1)]) (use r w len in \<open>simp_all add: c T kv_types_differ kv_types_differ [symmetric]\<close>)
qed

lemma kv_unpack:
  assumes ok: "kv_ok c" and h: "holds mem cell (kv_bytes c)" and w: "within e cell (length (kv_bytes c) + unat (kv_size c))"
    and len: "length (kv_bytes c) + unat (kv_size c) < 2 ^ 32"
  shows "\<exists>u'. wt_cell_unpack_safe mem ft False e cell u = Some (Inr u') \<and> unpacked_as c cell u'"
proof (cases c)
  case (KvKey prefix n)
  show ?thesis
  proof (cases "prefix = 0")
    case True
    show ?thesis
    proof (cases "n \<le> WT_CELL_SHORT_MAX")
      case n: True
      have kb: "kv_bytes c = [short_desc n WT_CELL_KEY_SHORT]" using KvKey True n by (simp add: wt_cell_pack_leaf_key_def short_desc_def)
      show ?thesis by (rule unpack_short [of n WT_CELL_KEY_SHORT]) (use KvKey n True h w len kb in \<open>simp_all add: rle_of_def cell_short_defs\<close>)
    next
      case n: False
      have kb: "kv_bytes c = WT_CELL_KEY # vpack (n - WT_CELL_SIZE_ADJUST)" using KvKey True n by (simp add: wt_cell_pack_leaf_key_def)
      show ?thesis by (rule unpack_long_key [OF n]) (use KvKey True h w len kb in simp_all)
    qed
  next
    case False
    then show ?thesis using unpack_pfx_short [OF KvKey False _ h w len] unpack_pfx_long [OF KvKey False _ h w len] by blast
  qed
next
  case (KvIntKey n)
  show ?thesis
  proof (cases "n \<le> WT_CELL_SHORT_MAX")
    case n: True
    have kb: "kv_bytes c = [short_desc n WT_CELL_KEY_SHORT]" using KvIntKey n by (simp add: wt_cell_pack_int_key_def short_desc_def)
    show ?thesis by (rule unpack_short [of n WT_CELL_KEY_SHORT]) (use KvIntKey n h w len kb in \<open>simp_all add: rle_of_def cell_short_defs\<close>)
  next
    case n: False
    have kb: "kv_bytes c = WT_CELL_KEY # vpack (n - WT_CELL_SIZE_ADJUST)" using KvIntKey n by (simp add: wt_cell_pack_int_key_def)
    show ?thesis by (rule unpack_long_key [OF n]) (use KvIntKey h w len kb in simp_all)
  qed
qed (use unpack_key_ovfl [OF _ _ h w len] unpack_value [OF _ _ h w len] unpack_value_ovfl [OF _ _ _ h w len] unpack_del [OF _ _ h w len] ok in auto)

subsection \<open>Address cells\<close>

lemma addr_types: "is_addr_cell ty \<Longrightarrow> ty \<in> len_types \<and> ty \<in> long_types \<and> collapse ty = ty \<and> \<not> is_ovfl_cell ty \<and> ty \<noteq> WT_CELL_KEY \<and>
    ty \<noteq> WT_CELL_KEY_PFX \<and> ty \<noteq> WT_CELL_VALUE"
  unfolding is_addr_cell_def insert_iff empty_iff
  by (elim disjE; simp add: len_types_def long_types_def collapse_def is_ovfl_cell_def cell_type_defs)

definition del_bytes :: "page_deleted \<Rightarrow> u8 list" where
  "del_bytes pd = vpack (pd_txnid pd) @ vpack (pd_timestamp pd) @ vpack (pd_durable_timestamp pd)"

definition committed_del :: "page_deleted \<Rightarrow> page_deleted" where
  "committed_del pd = \<lparr>pd_txnid = pd_txnid pd, pd_timestamp = pd_timestamp pd, pd_durable_timestamp = pd_durable_timestamp pd,
     pd_prepare_state = 0, pd_previous_ref_state = 0, pd_committed = True, pd_selected_for_write = True\<rparr>"

lemma unpack_page_del:
  assumes h: "holds mem p (del_bytes pd)" and w: "within e p (length (del_bytes pd))"
  shows "cell_unpack_page_del mem True e WT_CELL_ADDR_DEL p pd0 = Inr (committed_del pd, p + int (length (del_bytes pd)))"
proof -
  let ?A = "vpack (pd_txnid pd)" and ?B = "vpack (pd_timestamp pd)" and ?C = "vpack (pd_durable_timestamp pd)"
  have h': "holds mem p ?A" "holds mem (p + int (length ?A)) ?B" "holds mem (p + int (length ?A) + int (length ?B)) ?C"
    using h by (simp_all add: del_bytes_def add.assoc)
  have w': "within e p (length ?A)" "within e (p + int (length ?A)) (length ?B)" "within e (p + int (length ?A) + int (length ?B)) (length ?C)"
    using w by (auto simp: del_bytes_def within_def split: option.splits)
  show ?thesis
    using vunpack_at_holds [OF h'(1) w'(1)] vunpack_at_holds [OF h'(2) w'(2)] vunpack_at_holds [OF h'(3) w'(3)]
    by (simp add: cell_unpack_page_del_def committed_del_def del_bytes_def add.assoc)
qed

text \<open>The fast-truncate information a cell is packed with, if any.\<close>

definition packed_del :: "bool \<Rightarrow> page_deleted option \<Rightarrow> page_deleted option" where
  "packed_del fast page_del = (if fast then page_del else None)"

lemma pack_addr_form: "cell_pack_addr_validity ta = (d, bytes) \<Longrightarrow> wt_cell_pack_addr fast ty recno page_del ta n =
    desc d ty (recno \<noteq> 0) # bytes @ (case packed_del fast page_del of None \<Rightarrow> [] | Some pd \<Rightarrow> del_bytes pd) @ pack_if (recno \<noteq> 0) recno @ vpack n"
  by (simp add: wt_cell_pack_addr_def desc_def pack_if_def flag_if_def packed_del_def del_bytes_def or.assoc split: option.splits)

lemma addr_unpack:
  assumes ty: "is_addr_cell ty" and prep: "ta_prepare ta \<le> 1" and ft: "packed_del fast page_del \<noteq> None \<longleftrightarrow> ty = WT_CELL_ADDR_DEL \<and> ft"
    and h: "holds mem cell (wt_cell_pack_addr fast ty recno page_del ta n)"
    and w: "within e cell (length (wt_cell_pack_addr fast ty recno page_del ta n) + unat n)"
    and len: "length (wt_cell_pack_addr fast ty recno page_del ta n) + unat n < 2 ^ 32"
  shows "\<exists>u'. wt_cell_unpack_safe mem ft True e cell u = Some (Inr u') \<and> cu_cell u' = Some cell \<and> cu_type u' = ty \<and> cu_v u' = recno \<and>
    cu_ta u' = (if WT_TIME_AGGREGATE_IS_EMPTY ta then WT_TIME_AGGREGATE_INIT else ta\<lparr>ta_init_merge := 0\<rparr>) \<and>
    cu_del u' = (case packed_del fast page_del of None \<Rightarrow> cu_del u | Some pd \<Rightarrow> committed_del pd) \<and>
    cu_data u' = Some (cell + int (length (wt_cell_pack_addr fast ty recno page_del ta n))) \<and> cu_size u' = ucast n \<and>
    uint (cu_len u') = int (length (wt_cell_pack_addr fast ty recno page_del ta n)) + uint n"
proof -
  let ?B = "wt_cell_pack_addr fast ty recno page_del ta n"
  let ?c = "recno \<noteq> 0"
  let ?D = "case packed_del fast page_del of None \<Rightarrow> [] | Some pd \<Rightarrow> del_bytes pd"
  obtain d bytes where pk: "cell_pack_addr_validity ta = (d, bytes)" by (cases "cell_pack_addr_validity ta")
  let ?b = "desc d ty ?c"
  have B: "?B = ?b # bytes @ ?D @ pack_if ?c recno @ vpack n" by (rule pack_addr_form [OF pk])
  note T = addr_types [OF ty]
  have f: "wt_cell_type_raw ?b = ty" "wt_cell_type ?b = ty" "?b AND WT_CELL_64V \<noteq> 0 \<longleftrightarrow> ?c" "?b AND WT_CELL_SECOND_DESC = 0 \<longleftrightarrow> d = 0"
    using desc_byte [OF validity_desc(2) [OF pk], of ty] T by simp_all
  let ?u = "u\<lparr>cu_cell := Some cell, cu_ta := (if True then WT_TIME_AGGREGATE_INIT else cu_ta u)\<rparr>"
  let ?ta = "if WT_TIME_AGGREGATE_IS_EMPTY ta then WT_TIME_AGGREGATE_INIT else ta\<lparr>ta_init_merge := 0\<rparr>"
  let ?pd = "case packed_del fast page_del of None \<Rightarrow> cu_del u | Some pd \<Rightarrow> committed_del pd"
  define p1 where "p1 = cell + 1 + int (length bytes)"
  define p2 where "p2 = p1 + int (length ?D)"
  have hh: "mem cell = ?b" "holds mem (cell + 1) bytes" "holds mem p1 ?D" "holds mem p2 (pack_if ?c recno @ vpack n)"
    using h unfolding B holds_Cons holds_append p1_def p2_def by (simp_all only: add.assoc)
  have wl: "within e cell (length ?B)" by (rule within_le [OF w]) simp
  have ww: "within e (cell + 1) (length bytes)" "within e p1 (length ?D)" "within e p2 (length (pack_if ?c recno @ vpack n))"
    using wl unfolding B p1_def p2_def by (auto simp: within_def split: option.splits)
  have val: "cell_unpack_validity mem True e ?b (wt_cell_type_raw ?b) (cell + 1) WT_TIME_WINDOW_INIT (cu_ta ?u) = Inr ((WT_TIME_WINDOW_INIT, ?ta), p1)"
    unfolding f(1) p1_def using unpack_addr_validity [OF pk prep hh(2) ww(1) ty f(4)] by simp
  have del: "cell_unpack_page_del mem ft e (wt_cell_type_raw ?b) p1 (cu_del ?u) = Inr (?pd, p2)"
  proof (cases "packed_del fast page_del")
    case None
    then show ?thesis using ft no_page_del [of ty ft] by (simp add: f p2_def)
  next
    case (Some pd)
    then have "ty = WT_CELL_ADDR_DEL" "ft" using ft by auto
    then show ?thesis using Some unpack_page_del [of mem p1 pd e] hh(3) ww(2) unfolding f(1) by (simp add: p2_def)
  qed
  have q: "p2 + int (length (pack_if ?c recno @ vpack n)) = cell + int (length ?B)" unfolding B p2_def p1_def by simp
  have rl: "wt_cell_type_raw ?b \<in> len_types" using f(1) T by simp
  have adj: "cell_size_adjust ?b (if ?c then recno else 0) n = n" using f(1) T by (simp add: cell_size_adjust_def Let_def)
  define r where "r = filled ?b (if ?c then recno else 0) (Some (cell + int (length ?B))) (ucast n)
      (word_of_int (cell + int (length ?B) - cell) + ucast n) 0 (if is_ovfl_cell ty then WT_CELL_UNPACK_OVERFLOW else 0) ?ta ?pd ?u"
  have pass: "cell_unpack_pass mem ft True e cell ?u = Inr (r, WT_TIME_WINDOW_INIT, None)"
    using pass_len_cell [OF hh(1) rl wl val del hh(4) ww(3) f(3)] unfolding q adj r_def f(1) .
  have "word_of_int (cell + int (length ?B) - cell) = (of_nat (length ?B) :: u32)" by simp
  then have len_r: "cu_len r = of_nat (length ?B) + ucast n" by (simp add: r_def filled_def)
  have lc: "wt_cell_len_chk e cell (uint (cu_len r)) = Inr ()" unfolding len_r by (rule len_chk_data [OF w len])
  have ul: "uint (cu_len r) = int (length ?B) + uint n" unfolding len_r by (rule uint_len [OF len])
  have "wt_cell_unpack_safe mem ft True e cell u = Some (Inr r)" using unpack_once [OF pass lc] by simp
  moreover have "cu_cell r = Some cell" "cu_type r = ty" "cu_v r = recno" "cu_ta r = ?ta" "cu_del r = ?pd" "cu_data r = Some (cell + int (length ?B))"
    "cu_size r = ucast n" unfolding r_def filled_def by (simp_all add: f)
  ultimately show ?thesis using ul by blast
qed

subsection \<open>Copy cells\<close>

lemma length_pack_if: "length (pack_if c x) \<le> 9"
  using vpack_bound(2) [of x] by (simp add: pack_if_def)

lemma validity_length: "length (snd (cell_pack_value_validity tw)) \<le> 55"
proof -
  have six: "length a \<le> 9 \<Longrightarrow> length b \<le> 9 \<Longrightarrow> length c \<le> 9 \<Longrightarrow> length d \<le> 9 \<Longrightarrow> length e \<le> 9 \<Longrightarrow> length f \<le> 9 \<Longrightarrow>
      length ([x] @ a @ b @ c @ d @ e @ f) \<le> 55" for a b c d e f :: "u8 list" and x by simp
  show ?thesis unfolding cell_pack_value_validity_def Let_def
    by (simp only: snd_conv if_distrib [of snd], rule if_split [THEN iffD2], intro conjI impI, simp, rule six)
      (rule length_pack_if)+
qed

text \<open>A copy cell has at most 74 bytes, no more than the other kinds: \<open>WT_CELL\<close> has room for 98.\<close>

lemma copy_length: "length (wt_cell_pack_copy tw rle v) \<le> 74"
proof -
  obtain d bytes where pk: "cell_pack_value_validity tw = (d, bytes)" by (cases "cell_pack_value_validity tw")
  then have "length bytes \<le> 55" using validity_length [of tw] by simp
  then show ?thesis using pack_copy_form [OF pk, of rle v] length_pack_if [of "\<not> rle < 2" rle] vpack_bound(2) [of v] by simp
qed

lemma copy_unpack:
  assumes st: "window_storable tw" "window_storable tw0" and v: "0 \<le> sint v"
    and h0: "holds mem (cell - sint v) (wt_cell_pack_value tw0 rle0 n)" and w0: "within e (cell - sint v) (length (wt_cell_pack_value tw0 rle0 n) + unat n)"
    and h: "holds mem cell (wt_cell_pack_copy tw rle v)" and w: "within e cell (length (wt_cell_pack_copy tw rle v))"
  shows "\<exists>u'. wt_cell_unpack_safe mem ft False e cell u = Some (Inr u') \<and> cu_cell u' = Some cell \<and> cu_type u' = WT_CELL_VALUE \<and>
    cu_raw u' = WT_CELL_VALUE_COPY \<and> cu_tw u' = tw \<and> wt_cell_rle u' = rle_of rle \<and>
    cu_data u' = Some (cell - sint v + int (length (wt_cell_pack_value tw0 rle0 n))) \<and> cu_size u' = ucast n \<and>
    uint (cu_len u') = int (length (wt_cell_pack_copy tw rle v))"
proof -
  let ?B = "wt_cell_pack_copy tw rle v"
  let ?c = "\<not> rle < 2"
  obtain d bytes where pk: "cell_pack_value_validity tw = (d, bytes)" by (cases "cell_pack_value_validity tw")
  let ?b = "desc d WT_CELL_VALUE_COPY ?c"
  have B: "?B = ?b # bytes @ pack_if ?c rle @ vpack v" by (rule pack_copy_form [OF pk])
  have f: "wt_cell_type_raw ?b = WT_CELL_VALUE_COPY" "?b AND WT_CELL_64V \<noteq> 0 \<longleftrightarrow> ?c" "?b AND WT_CELL_SECOND_DESC = 0 \<longleftrightarrow> d = 0"
    using desc_byte [OF validity_desc(1) [OF pk], of WT_CELL_VALUE_COPY] by (simp_all add: long_types_def)
  let ?u = "u\<lparr>cu_cell := Some cell, cu_ta := (if False then WT_TIME_AGGREGATE_INIT else cu_ta u)\<rparr>"
  define p1 where "p1 = cell + 1 + int (length bytes)"
  have hh: "mem cell = ?b" "holds mem (cell + 1) bytes" "holds mem p1 (pack_if ?c rle @ vpack v)"
    using h unfolding B holds_Cons holds_append p1_def by (simp_all only: add.assoc)
  have ww: "within e (cell + 1) (length bytes)" "within e p1 (length (pack_if ?c rle @ vpack v))"
    using w unfolding B p1_def by (auto simp: within_def split: option.splits)
  have val: "cell_unpack_validity mem False e ?b WT_CELL_VALUE_COPY (cell + 1) WT_TIME_WINDOW_INIT (cu_ta ?u) = Inr ((tw, cu_ta ?u), p1)"
    unfolding p1_def by (rule unpack_value_validity [OF pk st(1) hh(2) ww(1) _ f(3)]) (simp add: is_value_cell_def)
  have q: "p1 + int (length (pack_if ?c rle @ vpack v)) - cell = int (length ?B)" unfolding B p1_def by simp
  have pass: "cell_unpack_pass mem ft False e cell ?u = Inr (filled ?b (if ?c then rle else 0) None 0 0 0 0 (cu_ta ?u) (cu_del ?u) ?u, tw,
      Some (cell - sint v, if ?c then rle else 0, word_of_int (int (length ?B))))"
    using pass_copy_cell [OF hh(1) f(1) w val hh(3) ww(2) f(2)] unfolding q .
  define u1 where "u1 = (filled ?b (if ?c then rle else 0) None 0 0 0 0 (cu_ta ?u) (cu_del ?u) ?u)\<lparr>cu_tw := tw\<rparr>"
  have u1: "cu_cell u1 = Some cell" "cu_tw u1 = tw" by (simp_all add: u1_def filled_def)
  obtain r where r: "cell_unpack_pass mem ft False e (cell - sint v) u1 = Inr (r, tw0, None)" "cu_cell r = Some cell" "cu_tw r = tw"
      "cu_type r = WT_CELL_VALUE" "cu_size r = ucast n" "cu_data r = Some (cell - sint v + int (length (wt_cell_pack_value tw0 rle0 n)))"
    using value_pass [OF st(2) h0 w0, of ft u1] unfolding u1 by blast
  let ?len = "word_of_int (int (length ?B)) :: u32"
  let ?r = "r\<lparr>cu_v := (if ?c then rle else 0), cu_len := ?len, cu_raw := WT_CELL_VALUE_COPY\<rparr>"
  have "length ?B < 2 ^ 32" using copy_length [of tw rle v] by (rule le_less_trans) simp
  then have ul: "uint ?len = int (length ?B)" using uint_len [of "length ?B" 0] by simp
  have lc: "wt_cell_len_chk e (cell - sint v) (uint ?len) = Inr ()"
    unfolding ul using w w0 v by (auto simp: within_def wt_cell_len_chk_def split: option.splits)
  have "cell_unpack_loop mem ft False e (cell - sint v) u1 (Some (if ?c then rle else 0, ?len)) = Some (Inr ?r)"
    unfolding cell_unpack_loop.simps [of mem ft False e "cell - sint v"] r(1)
    using lc by (simp add: cell_unpack_finish_def Let_def)
  then have "wt_cell_unpack_safe mem ft False e cell u = Some (Inr ?r)"
    unfolding wt_cell_unpack_safe_def cell_unpack_loop.simps [of mem ft False e cell ?u] pass
    by (simp add: u1_def Let_def)
  moreover have "wt_cell_rle ?r = rle_of rle" by (auto simp: wt_cell_rle_def rle_of_def)
  ultimately show ?thesis using r ul by (intro exI [of _ ?r]) simp
qed

end
