(* ===== verification/CellBounds.thy ===== *)
theory CellBounds
  imports CellRoundtrip
begin

text \<open>
  What \<open>__wt_cell_unpack_safe\<close> does on any bytes: when its loop over copy cells ends (\<open>unpack_ends\<close>,
  \<open>copy_of_itself_hangs\<close>), the type of cell it returns (\<open>unpack_typed\<close>) and that the data is inside the page
  (\<open>unpack_within\<close>); what the comparison of value cells leaves out (\<open>value_match_ignores_64_bytes\<close>); the walk
  over the cells of a page (\<open>page_walk\<close>); and the properties of cells.
\<close>

subsection \<open>The loop over copy cells\<close>

text \<open>A copy cell that refers to itself is unpacked for ever, even with checks.\<close>

lemma loop_stuck:
  assumes stuck: "\<And>u. \<exists>u' tw v l. cell_unpack_pass mem ft addr e cell u = Inr (u', tw, Some (cell, v, l))"
  shows "cell_unpack_loop mem ft addr e cell u copy = None"
proof (rule ccontr)
  define Q where "Q = (\<lambda>m f a e' (c :: int) (u :: cell_unpack) (cp :: (u64 \<times> u32) option) (y :: cell_unpack result).
    \<not> (m = mem \<and> f = ft \<and> a = addr \<and> e' = e \<and> c = cell))"
  assume "cell_unpack_loop mem ft addr e cell u copy \<noteq> None"
  then obtain y where y: "cell_unpack_loop mem ft addr e cell u copy = Some y" by blast
  have "Q mem ft addr e cell u copy y"
  proof (rule cell_unpack_loop.raw_induct [OF _ y])
    fix loop m f a e' c u cp y
    assume IH: "\<And>m f a e' c u cp y. loop m f a e' c u cp = Some y \<Longrightarrow> Q m f a e' c u cp y"
      and step: "(case cell_unpack_pass m f a e' c u of Inl err \<Rightarrow> Some (Inl err)
        | Inr (u, tw, next) \<Rightarrow> let u = if cp = None \<and> \<not> a then u\<lparr>cu_tw := tw\<rparr> else u
            in case next of None \<Rightarrow> Some (cell_unpack_finish e' a c cp u) | Some (cell, v, len) \<Rightarrow> loop m f a e' cell u (Some (v, len))) = Some y"
    show "Q m f a e' c u cp y"
      unfolding Q_def
    proof
      assume eq: "m = mem \<and> f = ft \<and> a = addr \<and> e' = e \<and> c = cell"
      obtain u' tw v l where "cell_unpack_pass mem ft addr e cell u = Inr (u', tw, Some (cell, v, l))" using stuck by blast
      then have "loop mem ft addr e cell (if cp = None \<and> \<not> addr then u'\<lparr>cu_tw := tw\<rparr> else u') (Some (v, l)) = Some y"
        using step eq by (simp add: Let_def)
      then show False using IH unfolding Q_def by blast
    qed
  qed
  then show False unfolding Q_def by simp
qed

lemma copy_pass:
  assumes st: "window_storable tw" and h: "holds mem cell (wt_cell_pack_copy tw rle v)"
    and w: "within e cell (length (wt_cell_pack_copy tw rle v))"
  shows "\<exists>u' x l. cell_unpack_pass mem ft False e cell u = Inr (u', tw, Some (cell - sint v, x, l))"
proof -
  let ?B = "wt_cell_pack_copy tw rle v" and ?c = "\<not> rle < 2"
  obtain d bytes where pk: "cell_pack_value_validity tw = (d, bytes)" by (cases "cell_pack_value_validity tw")
  let ?b = "desc d WT_CELL_VALUE_COPY ?c"
  have B: "?B = ?b # bytes @ pack_if ?c rle @ vpack v" by (rule pack_copy_form [OF pk])
  have f: "wt_cell_type_raw ?b = WT_CELL_VALUE_COPY" "?b AND WT_CELL_64V \<noteq> 0 \<longleftrightarrow> ?c" "?b AND WT_CELL_SECOND_DESC = 0 \<longleftrightarrow> d = 0"
    using desc_byte [OF validity_desc(1) [OF pk], of WT_CELL_VALUE_COPY] by (simp_all add: long_types_def)
  define p1 where "p1 = cell + 1 + int (length bytes)"
  have hh: "mem cell = ?b" "holds mem (cell + 1) bytes" "holds mem p1 (pack_if ?c rle @ vpack v)"
    using h unfolding B holds_Cons holds_append p1_def by (simp_all only: add.assoc)
  have ww: "within e (cell + 1) (length bytes)" "within e p1 (length (pack_if ?c rle @ vpack v))"
    using w unfolding B p1_def by (auto simp: within_def split: option.splits)
  have val: "cell_unpack_validity mem False e ?b WT_CELL_VALUE_COPY (cell + 1) WT_TIME_WINDOW_INIT (cu_ta u) = Inr ((tw, cu_ta u), p1)"
    unfolding p1_def by (rule unpack_value_validity [OF pk st hh(2) ww(1) _ f(3)]) (simp add: is_value_cell_def)
  show ?thesis using pass_copy_cell [OF hh(1) f(1) w val hh(3) ww(2) f(2)] by simp
qed

lemma copy_of_itself_hangs:
  assumes "window_storable tw" "holds mem cell (wt_cell_pack_copy tw rle 0)" "within e cell (length (wt_cell_pack_copy tw rle 0))"
  shows "wt_cell_unpack_safe mem ft False e cell u = None"
proof -
  have "\<exists>u' tw' v l. cell_unpack_pass mem ft False e cell u = Inr (u', tw', Some (cell, v, l))" for u
    using copy_pass [OF assms, of ft u] by simp blast
  then show ?thesis unfolding wt_cell_unpack_safe_def by (rule loop_stuck)
qed

text \<open>With checks, a run comes to an end when every copy cell refers to one before it.\<close>

lemma loop_ends:
  assumes "\<And>c u u' tw n v l. c \<le> cell \<Longrightarrow> cell_unpack_pass mem ft addr (Some x) c u = Inr (u', tw, Some (n, v, l)) \<Longrightarrow> n < c"
  shows "\<exists>r. cell_unpack_loop mem ft addr (Some x) cell u copy = Some r"
  using assms
proof (induction "nat (cell + 1)" arbitrary: cell u copy rule: less_induct)
  case less
  show ?case
  proof (cases "cell_unpack_pass mem ft addr (Some x) cell u")
    case (Inl err)
    then show ?thesis by (simp add: cell_unpack_loop.simps [of mem ft addr "Some x" cell])
  next
    case (Inr r)
    obtain u' tw nxt where r: "r = (u', tw, nxt)" by (cases r)
    show ?thesis
    proof (cases nxt)
      case None
      then show ?thesis using Inr r by (simp add: cell_unpack_loop.simps [of mem ft addr "Some x" cell] Let_def)
    next
      case (Some y)
      obtain n v l where y: "y = (n, v, l)" by (cases y)
      have n: "n < cell" using less.prems [of cell u u' tw n v l] Inr r Some y by simp
      have "0 \<le> cell"
      proof (rule ccontr)
        assume "\<not> 0 \<le> cell"
        then have "wt_cell_len_chk (Some x) cell 0 = Inl WT_ERROR" by (simp add: wt_cell_len_chk_def)
        then show False using Inr by (simp add: cell_unpack_pass_def)
      qed
      then have "nat (n + 1) < nat (cell + 1)" using n by simp
      then have "\<exists>r. cell_unpack_loop mem ft addr (Some x) n (if copy = None \<and> \<not> addr then u'\<lparr>cu_tw := tw\<rparr> else u') (Some (v, l)) = Some r"
        by (rule less.hyps) (use less.prems n in force)
      then show ?thesis using Inr r Some y by (simp add: cell_unpack_loop.simps [of mem ft addr "Some x" cell] Let_def)
    qed
  qed
qed

subsection \<open>Bounds\<close>

lemma vunpack_at_mono: "vunpack_at mem e p = Inr (x, q) \<Longrightarrow> p < q"
  using wt_vunpack_uint_shorter [of "vunpack_limit e p" "bytes_at mem p 16"] by (auto simp: vunpack_at_def wt_ret_Inr_iff)

lemma unpack_field_mono: "unpack_field mem e c upd dflt (s, p) = Inr (s', q) \<Longrightarrow> p \<le> q"
  using vunpack_at_mono by (fastforce simp: unpack_field_def wt_ret_Inr_iff split: if_splits)

lemma value_validity_mono: "cell_unpack_value_validity mem e flags p tw = Inr (tw', q) \<Longrightarrow> p \<le> q"
  unfolding cell_unpack_value_validity_def wt_ret_Inr_iff by (elim exE conjE) (clarsimp, meson order.trans unpack_field_mono)

lemma addr_validity_mono: "cell_unpack_addr_validity mem e flags p ta = Inr (ta', q) \<Longrightarrow> p \<le> q"
  unfolding cell_unpack_addr_validity_def wt_ret_Inr_iff by (elim exE conjE) (clarsimp, meson order.trans unpack_field_mono)

lemma validity_mono: "cell_unpack_validity mem addr e b raw p tw ta = Inr (s, q) \<Longrightarrow> p \<le> q"
  using value_validity_mono addr_validity_mono by (fastforce simp: cell_unpack_validity_def Let_def wt_ret_Inr_iff split: if_splits)

lemma page_del_mono:
  assumes "cell_unpack_page_del mem ft e raw p pd = Inr (pd', q)"
  shows "p \<le> q"
proof (cases "raw = WT_CELL_ADDR_DEL \<and> ft")
  case True
  obtain x1 p1 x2 p2 x3 p3 where "vunpack_at mem e p = Inr (x1, p1)" "vunpack_at mem e p1 = Inr (x2, p2)" "vunpack_at mem e p2 = Inr (x3, p3)" "p3 = q"
    using assms True by (auto simp: cell_unpack_page_del_def wt_ret_Inr_iff)
  then have "p < p1" "p1 < p2" "p2 < q" using vunpack_at_mono by blast+
  then show ?thesis by simp
next
  case False
  then show ?thesis using assms by (auto simp: cell_unpack_page_del_def)
qed

text \<open>What one pass gives, whatever the bytes.\<close>

definition cell_types :: "u8 set" where
  "cell_types = {WT_CELL_KEY_SHORT_PFX, WT_CELL_KEY_SHORT, WT_CELL_VALUE_SHORT, WT_CELL_KEY_PFX, WT_CELL_DEL} \<union> len_types"

definition pass_facts :: "memory \<Rightarrow> bool \<Rightarrow> int \<Rightarrow> cell_unpack \<Rightarrow> bool" where
  "pass_facts mem addr cell r \<longleftrightarrow> cu_raw r = wt_cell_type_raw (mem cell) \<and> cu_type r = wt_cell_type (mem cell) \<and>
     cu_raw r \<in> cell_types \<and> cu_flags r = (if is_ovfl_cell (cu_raw r) then WT_CELL_UNPACK_OVERFLOW else 0) \<and>
     (is_addr_cell (cu_raw r) \<longrightarrow> addr) \<and> (is_value_cell (cu_raw r) \<longrightarrow> \<not> addr) \<and> (cu_data r = None \<longleftrightarrow> cu_raw r = WT_CELL_DEL) \<and>
     (\<forall>d. cu_data r = Some d \<longrightarrow> cell < d \<and> cu_len r = word_of_int (d - cell) + cu_size r)"

lemma validity_kind:
  "cell_unpack_validity mem addr e b raw p tw ta = Inr s \<Longrightarrow> (is_addr_cell raw \<longrightarrow> addr) \<and> (is_value_cell raw \<longrightarrow> \<not> addr)"
  by (auto simp: cell_unpack_validity_def is_addr_cell_def is_value_cell_def cell_type_defs split: if_splits)

lemma short_kinds: "raw \<in> {WT_CELL_KEY_SHORT_PFX, WT_CELL_KEY_SHORT, WT_CELL_VALUE_SHORT} \<Longrightarrow> \<not> is_addr_cell raw \<and> \<not> is_value_cell raw \<and>
   \<not> is_ovfl_cell raw \<and> raw \<noteq> WT_CELL_DEL \<and> raw \<in> cell_types"
  by (auto simp: is_addr_cell_def is_value_cell_def is_ovfl_cell_def cell_type_defs cell_short_defs cell_types_def)

lemma len_kinds: "raw \<noteq> WT_CELL_DEL \<Longrightarrow> is_ovfl_cell raw \<or> is_addr_cell raw \<or> raw \<in> {WT_CELL_KEY, WT_CELL_KEY_PFX, WT_CELL_VALUE} \<Longrightarrow>
   raw \<in> cell_types"
  by (auto simp: is_addr_cell_def is_ovfl_cell_def cell_types_def len_types_def)

lemma not_len_kind: "\<not> is_ovfl_cell WT_CELL_DEL" "\<not> is_addr_cell WT_CELL_DEL" "WT_CELL_DEL \<notin> {WT_CELL_KEY, WT_CELL_KEY_PFX, WT_CELL_VALUE}" "WT_CELL_DEL \<noteq> WT_CELL_VALUE_COPY"
  "WT_CELL_DEL \<in> cell_types"
  by (auto simp: is_addr_cell_def is_ovfl_cell_def cell_type_defs cell_types_def)

lemma field_v_keeps:
  assumes "unpack_field mem e c (\<lambda>v u. u\<lparr>cu_v := v\<rparr>) id (u :: cell_unpack, p) = Inr (u', q)"
  shows "\<exists>v. u' = u\<lparr>cu_v := v\<rparr>"
proof (cases c)
  case True
  then show ?thesis using assms by (auto simp: unpack_field_def wt_ret_Inr_iff)
next
  case False
  then show ?thesis using assms by (auto simp: unpack_field_def intro!: exI [of _ "cu_v u"])
qed

lemma data_last:
  fixes u :: cell_unpack
  assumes "cell_unpack_data mem addr e cell raw tw u p = Inr (r, tw', None)" "cell < p" "cu_data u = None" "cu_flags u = 0"
  shows "cu_raw r = cu_raw u \<and> cu_type r = cu_type u \<and> cu_flags r = (if is_ovfl_cell raw then WT_CELL_UNPACK_OVERFLOW else 0) \<and>
    raw \<in> cell_types \<and> (cu_data r = None \<longleftrightarrow> raw = WT_CELL_DEL) \<and>
    (\<forall>d. cu_data r = Some d \<longrightarrow> cell < d \<and> cu_len r = word_of_int (d - cell) + cu_size r)"
proof (cases "raw = WT_CELL_DEL")
  case True
  then show ?thesis using assms not_len_kind by (auto simp: cell_unpack_data_def)
next
  case False
  note len = len_kinds [OF False]
  have nc: "raw \<noteq> WT_CELL_VALUE_COPY"
    using assms(1) by (auto simp: cell_unpack_data_def wt_ret_Inr_iff split: if_splits)
  then have k: "is_ovfl_cell raw \<or> is_addr_cell raw \<or> raw \<in> {WT_CELL_KEY, WT_CELL_KEY_PFX, WT_CELL_VALUE}"
    using assms(1) False by (auto simp: cell_unpack_data_def split: if_splits)
  obtain v q where v: "vunpack_at mem e p = Inr (v, q)"
    using assms(1) unfolding cell_unpack_data_def if_not_P [OF nc] if_P [OF k] by (auto simp: wt_ret_Inr_iff)
  have "cell < q" using vunpack_at_mono [OF v] assms(2) by simp
  moreover have "\<exists>n. r = u\<lparr>cu_flags := (if is_ovfl_cell raw then WT_CELL_UNPACK_OVERFLOW else 0), cu_data := Some q, cu_size := ucast (n :: u64),
      cu_len := word_of_int (q - cell) + ucast n\<rparr>"
    using assms(1) unfolding cell_unpack_data_def if_not_P [OF nc] if_P [OF k] v wt_ret_simps Let_def by auto
  ultimately show ?thesis using len k False by auto
qed

lemma data_copy:
  "cell_unpack_data mem addr e cell raw tw u p = Inr (r, tw', Some y) \<Longrightarrow> raw = WT_CELL_VALUE_COPY \<and> \<not> addr"
  by (auto simp: cell_unpack_data_def wt_ret_Inr_iff Let_def split: if_splits)

lemma pass_long:
  fixes u0 :: cell_unpack
  assumes "cell_unpack_pass mem ft addr e cell u0 = Inr (r, tw, nxt)"
    "wt_cell_type_raw (mem cell) \<noteq> WT_CELL_KEY_SHORT_PFX" "\<not> (wt_cell_type_raw (mem cell) = WT_CELL_KEY_SHORT \<or> wt_cell_type_raw (mem cell) = WT_CELL_VALUE_SHORT)"
  shows "\<exists>(u :: cell_unpack) p s tw1. cu_raw u = wt_cell_type_raw (mem cell) \<and> cu_type u = wt_cell_type (mem cell) \<and> cu_flags u = 0 \<and>
    cu_data u = None \<and> cell < p \<and> cell_unpack_validity mem addr e (mem cell) (wt_cell_type_raw (mem cell)) (fst s) WT_TIME_WINDOW_INIT (snd s) = Inr tw1 \<and>
    cell_unpack_data mem addr e cell (wt_cell_type_raw (mem cell)) tw u p = Inr (r, tw, nxt)"
proof -
  let ?raw = "wt_cell_type_raw (mem cell)"
  let ?u = "u0\<lparr>cu_v := 0, cu_raw := ?raw, cu_type := wt_cell_type (mem cell), cu_flags := 0, cu_prefix := 0, cu_data := None, cu_size := 0, cu_len := 0\<rparr>"
  obtain u1 p1 where 1: "(if ?raw = WT_CELL_KEY_PFX then
           wt_ret (wt_cell_len_chk e (cell + 1 + 1) 0) (\<lambda>_. Inr (?u\<lparr>cu_prefix := mem (cell + 1)\<rparr>, cell + 1 + 1))
         else Inr (?u, cell + 1)) = Inr (u1, p1)" and r: "wt_ret (cell_unpack_validity mem addr e (mem cell) ?raw p1 WT_TIME_WINDOW_INIT (cu_ta u1)) (\<lambda>((tw, ta), p).
       wt_ret (cell_unpack_page_del mem ft e ?raw p (cu_del u1)) (\<lambda>(pd, p).
       wt_ret (unpack_field mem e (mem cell AND WT_CELL_64V \<noteq> 0) (\<lambda>v u. u\<lparr>cu_v := v\<rparr>) id (u1\<lparr>cu_ta := ta, cu_del := pd\<rparr>, p)) (\<lambda>(u, p).
       cell_unpack_data mem addr e cell ?raw tw u p))) = Inr (r, tw, nxt)"
    using assms(1) unfolding cell_unpack_pass_def Let_def if_not_P [OF assms(2)] if_not_P [OF assms(3)]
      wt_ret_Inr_iff [of "wt_cell_len_chk _ _ _"] wt_ret_Inr_iff [of "if _ then _ else _"]
    by (elim exE conjE) (simp only: split_paired_All split: prod.split_asm)
  have u1: "\<exists>x. u1 = ?u\<lparr>cu_prefix := x\<rparr>" and p1: "cell < p1" using 1 by (auto simp: wt_ret_Inr_iff split: if_splits intro: exI [of _ 0])
  obtain tw' ta p2 where 2: "cell_unpack_validity mem addr e (mem cell) ?raw p1 WT_TIME_WINDOW_INIT (cu_ta u1) = Inr ((tw', ta), p2)"
    and r2: "wt_ret (cell_unpack_page_del mem ft e ?raw p2 (cu_del u1)) (\<lambda>(pd, p).
       wt_ret (unpack_field mem e (mem cell AND WT_CELL_64V \<noteq> 0) (\<lambda>v u. u\<lparr>cu_v := v\<rparr>) id (u1\<lparr>cu_ta := ta, cu_del := pd\<rparr>, p)) (\<lambda>(u, p).
       cell_unpack_data mem addr e cell ?raw tw' u p)) = Inr (r, tw, nxt)"
    using r unfolding wt_ret_Inr_iff [of "cell_unpack_validity _ _ _ _ _ _ _ _"] by auto
  obtain pd p3 where 3: "cell_unpack_page_del mem ft e ?raw p2 (cu_del u1) = Inr (pd, p3)"
    and r3: "wt_ret (unpack_field mem e (mem cell AND WT_CELL_64V \<noteq> 0) (\<lambda>v u. u\<lparr>cu_v := v\<rparr>) id (u1\<lparr>cu_ta := ta, cu_del := pd\<rparr>, p3)) (\<lambda>(u, p).
       cell_unpack_data mem addr e cell ?raw tw' u p) = Inr (r, tw, nxt)"
    using r2 unfolding wt_ret_Inr_iff [of "cell_unpack_page_del _ _ _ _ _ _"] by auto
  obtain u4 p4 where 4: "unpack_field mem e (mem cell AND WT_CELL_64V \<noteq> 0) (\<lambda>v u. u\<lparr>cu_v := v\<rparr>) id (u1\<lparr>cu_ta := ta, cu_del := pd\<rparr>, p3) = Inr (u4, p4)"
    and r4: "cell_unpack_data mem addr e cell ?raw tw' u4 p4 = Inr (r, tw, nxt)"
    using r3 unfolding wt_ret_Inr_iff [of "unpack_field _ _ _ _ _ _"] by auto
  have p4: "cell < p4" using p1 validity_mono [OF 2] page_del_mono [OF 3] unpack_field_mono [OF 4] by simp
  obtain x y where u4: "u4 = ?u\<lparr>cu_prefix := x, cu_ta := ta, cu_del := pd, cu_v := y\<rparr>" using field_v_keeps [OF 4] u1 by auto
  have "tw' = tw" using r4 by (auto simp: cell_unpack_data_def wt_ret_Inr_iff Let_def split: if_splits)
  then show ?thesis
    using 2 r4 p4 by (intro exI [of _ u4] exI [of _ p4] exI [of _ "(p1, cu_ta u1)"] exI [of _ "((tw', ta), p2)"]) (simp add: u4)
qed

lemma pass_last:
  fixes u :: cell_unpack
  assumes "cell_unpack_pass mem ft addr e cell u = Inr (r, tw, None)"
  shows "pass_facts mem addr cell r"
proof -
  let ?raw = "wt_cell_type_raw (mem cell)"
  consider (pfx) "?raw = WT_CELL_KEY_SHORT_PFX" | (short) "?raw \<noteq> WT_CELL_KEY_SHORT_PFX" "?raw = WT_CELL_KEY_SHORT \<or> ?raw = WT_CELL_VALUE_SHORT"
    | (long) "?raw \<noteq> WT_CELL_KEY_SHORT_PFX" "\<not> (?raw = WT_CELL_KEY_SHORT \<or> ?raw = WT_CELL_VALUE_SHORT)" by blast
  then show ?thesis
  proof cases
    case pfx
    note k = short_kinds [of ?raw, unfolded pfx, simplified]
    have "\<exists>n x. r = u\<lparr>cu_v := 0, cu_raw := ?raw, cu_type := wt_cell_type (mem cell), cu_flags := 0, cu_prefix := x,
        cu_data := Some (cell + 2), cu_size := n, cu_len := 2 + n\<rparr>"
      using assms unfolding cell_unpack_pass_def Let_def if_P [OF pfx] by (auto simp: wt_ret_Inr_iff)
    then show ?thesis using k pfx by (auto simp: pass_facts_def)
  next
    case short
    have k: "\<not> is_addr_cell ?raw \<and> \<not> is_value_cell ?raw \<and> \<not> is_ovfl_cell ?raw \<and> ?raw \<noteq> WT_CELL_DEL \<and> ?raw \<in> cell_types" by (rule short_kinds) (use short(2) in auto)
    have "\<exists>n. r = u\<lparr>cu_v := 0, cu_raw := ?raw, cu_type := wt_cell_type (mem cell), cu_flags := 0, cu_prefix := 0,
        cu_data := Some (cell + 1), cu_size := n, cu_len := 1 + n\<rparr>"
      using assms unfolding cell_unpack_pass_def Let_def if_not_P [OF short(1)] if_P [OF short(2)] by (auto simp: wt_ret_Inr_iff)
    then show ?thesis using k by (auto simp: pass_facts_def)
  next
    case long
    obtain u1 p s tw1 where u1: "cu_raw (u1 :: cell_unpack) = ?raw" "cu_type u1 = wt_cell_type (mem cell)" "cu_flags u1 = 0" "cu_data u1 = None" "cell < p"
      and val: "cell_unpack_validity mem addr e (mem cell) ?raw (fst s) WT_TIME_WINDOW_INIT (snd s) = Inr tw1"
      and data: "cell_unpack_data mem addr e cell ?raw tw u1 p = Inr (r, tw, None)"
      using pass_long [OF assms long] by blast
    show ?thesis using data_last [OF data u1(5,4,3)] validity_kind [OF val] u1(1,2) by (simp add: pass_facts_def)
  qed
qed

lemma pass_copy:
  fixes u :: cell_unpack
  assumes "cell_unpack_pass mem ft addr e cell u = Inr (r, tw, Some y)"
  shows "wt_cell_type_raw (mem cell) = WT_CELL_VALUE_COPY \<and> \<not> addr"
proof -
  let ?raw = "wt_cell_type_raw (mem cell)"
  have n: "?raw \<noteq> WT_CELL_KEY_SHORT_PFX" "\<not> (?raw = WT_CELL_KEY_SHORT \<or> ?raw = WT_CELL_VALUE_SHORT)"
    using assms by (auto simp: cell_unpack_pass_def Let_def wt_ret_Inr_iff split: if_splits)
  show ?thesis using pass_long [OF assms n] data_copy by blast
qed

lemma pass_facts_tw [simp]: "pass_facts mem addr cell (r\<lparr>cu_tw := tw\<rparr>) = pass_facts mem addr cell r"
  by (simp add: pass_facts_def)

definition loop_last :: "memory \<Rightarrow> bool \<Rightarrow> int option \<Rightarrow> int \<Rightarrow> (u64 \<times> u32) option \<Rightarrow> cell_unpack \<Rightarrow> bool" where
  "loop_last mem addr e cell copy r \<longleftrightarrow> (\<exists>c cp u. pass_facts mem addr c u \<and> cell_unpack_finish e addr c cp u = Inr r \<and>
     (cp = None \<longrightarrow> copy = None \<and> c = cell) \<and> (cp \<noteq> None \<longrightarrow> copy \<noteq> None \<or> \<not> addr \<and> wt_cell_type_raw (mem cell) = WT_CELL_VALUE_COPY))"

lemma loop_last_holds:
  assumes "cell_unpack_loop mem ft addr e cell u copy = Some (Inr r)"
  shows "loop_last mem addr e cell copy r"
proof -
  define Q where "Q = (\<lambda>mem (ft :: bool) addr e cell (u :: cell_unpack) copy (y :: cell_unpack result). \<forall>r. y = Inr r \<longrightarrow> loop_last mem addr e cell copy r)"
  have "Q mem ft addr e cell u copy (Inr r)"
  proof (rule cell_unpack_loop.raw_induct [OF _ assms])
    fix loop mem ft addr e cell u copy y
    assume IH: "\<And>m f a e' c u cp y. loop m f a e' c u cp = Some y \<Longrightarrow> Q m f a e' c u cp y"
      and step: "(case cell_unpack_pass mem ft addr e cell u of Inl err \<Rightarrow> Some (Inl err)
        | Inr (u, tw, next) \<Rightarrow> let u = if copy = None \<and> \<not> addr then u\<lparr>cu_tw := tw\<rparr> else u
            in case next of None \<Rightarrow> Some (cell_unpack_finish e addr cell copy u) | Some (cell, v, len) \<Rightarrow> loop mem ft addr e cell u (Some (v, len))) = Some y"
    show "Q mem ft addr e cell u copy y"
      unfolding Q_def
    proof (intro allI impI)
      fix r
      assume y: "y = Inr r"
      obtain u1 tw nxt where p: "cell_unpack_pass mem ft addr e cell u = Inr (u1, tw, nxt)"
        using step y by (cases "cell_unpack_pass mem ft addr e cell u") auto
      define u2 where "u2 = (if copy = None \<and> \<not> addr then u1\<lparr>cu_tw := tw\<rparr> else u1)"
      show "loop_last mem addr e cell copy r"
      proof (cases nxt)
        case None
        have f: "pass_facts mem addr cell u2" using pass_last [OF p [unfolded None]] by (cases addr) (simp_all add: u2_def)
        have "cell_unpack_finish e addr cell copy u2 = Inr r" using step p y None by (simp add: u2_def)
        then show ?thesis using f unfolding loop_last_def by (cases copy) blast+
      next
        case (Some z)
        obtain c v l where z: "z = (c, v, l)" by (cases z)
        have k: "wt_cell_type_raw (mem cell) = WT_CELL_VALUE_COPY \<and> \<not> addr" by (rule pass_copy [OF p [unfolded Some]])
        have "loop mem ft addr e c u2 (Some (v, l)) = Some (Inr r)" using step p y Some z by (simp add: u2_def)
        then have "loop_last mem addr e c (Some (v, l)) r" using IH unfolding Q_def by blast
        then show ?thesis using k unfolding loop_last_def by blast
      qed
    qed
  qed
  then show ?thesis unfolding Q_def by simp
qed

lemma finish_copy: "cell_unpack_finish e False c (Some cp) u = Inr r \<Longrightarrow>
    r = u\<lparr>cu_v := fst cp, cu_len := snd cp, cu_raw := WT_CELL_VALUE_COPY\<rparr>"
  by (cases cp) (simp add: cell_unpack_finish_def wt_ret_Inr_iff)

lemma finish_plain: "cell_unpack_finish e addr c None u = Inr r \<Longrightarrow> r = u \<and> wt_cell_len_chk e c (uint (cu_len u)) = Inr ()"
  by (auto simp: cell_unpack_finish_def wt_ret_Inr_iff)

text \<open>A successful unpack: either of the cell itself, or of a copy cell with the contents of another cell.\<close>

lemma unpack_last:
  assumes "wt_cell_unpack_safe mem ft addr e cell u = Some (Inr r)"
  shows "(pass_facts mem addr cell r \<and> cu_raw r \<noteq> WT_CELL_VALUE_COPY \<and> wt_cell_len_chk e cell (uint (cu_len r)) = Inr ()) \<or>
    (\<not> addr \<and> wt_cell_type_raw (mem cell) = WT_CELL_VALUE_COPY \<and> cu_raw r = WT_CELL_VALUE_COPY \<and>
     (\<exists>c u1. pass_facts mem addr c u1 \<and> cu_type r = cu_type u1 \<and> cu_flags r = cu_flags u1 \<and> cu_data r = cu_data u1 \<and> cu_size r = cu_size u1))"
proof -
  obtain c cp u1 where f: "pass_facts mem addr c u1" "cell_unpack_finish e addr c cp u1 = Inr r" and n: "cp = None \<longrightarrow> c = cell"
      and s: "cp \<noteq> None \<longrightarrow> \<not> addr \<and> wt_cell_type_raw (mem cell) = WT_CELL_VALUE_COPY"
    using loop_last_holds [OF assms [unfolded wt_cell_unpack_safe_def]] unfolding loop_last_def by blast
  have nc: "WT_CELL_VALUE_COPY \<notin> cell_types" by (auto simp: cell_types_def len_types_def cell_type_defs cell_short_defs)
  show ?thesis
  proof (cases cp)
    case None
    then show ?thesis using finish_plain [OF f(2) [unfolded None]] f(1) n nc by (auto simp: pass_facts_def)
  next
    case (Some y)
    then have a: "addr = False" using s by blast
    have "r = u1\<lparr>cu_v := fst y, cu_len := snd y, cu_raw := WT_CELL_VALUE_COPY\<rparr>" using finish_copy f(2) Some a by blast
    then show ?thesis using s f(1) Some by (intro disjI2) (auto intro!: exI [of _ c] exI [of _ u1])
  qed
qed

text \<open>The type of a cell against its raw type.\<close>

lemma and_3: "(b :: u8) AND 3 \<in> {0, 1, 2, 3}"
proof -
  have "b AND 3 \<le> 3" by (rule word_and_le1)
  then have "unat (b AND 3) \<le> 3" by (simp add: word_le_nat_alt)
  then have "unat (b AND 3) \<in> {0, 1, 2, 3}" by auto
  moreover have "b AND 3 = word_of_nat (unat (b AND 3))" by simp
  ultimately obtain n where n: "n \<in> {0, 1, 2, 3}" "b AND 3 = word_of_nat n" by blast
  then show ?thesis by auto
qed

lemma and_f0: "(b :: u8) AND 0xf0 \<noteq> 1 \<and> b AND 0xf0 \<noteq> 2 \<and> b AND 0xf0 \<noteq> 3"
proof -
  have "\<not> bit (b AND 0xf0) 0" "\<not> bit (b AND 0xf0) 1" by (simp_all add: bit_and_iff)
  moreover have "bit (1 :: u8) 0" "bit (2 :: u8) 1" "bit (3 :: u8) 0" by simp_all
  ultimately show ?thesis by metis
qed

lemma type_of_raw:
  "wt_cell_type b = (if wt_cell_type_raw b = WT_CELL_KEY_SHORT \<or> wt_cell_type_raw b = WT_CELL_KEY_SHORT_PFX then WT_CELL_KEY
     else if wt_cell_type_raw b = WT_CELL_VALUE_SHORT then WT_CELL_VALUE else collapse (wt_cell_type_raw b))"
  using and_3 [of b] and_f0 [of b]
  by (auto simp: wt_cell_type_def wt_cell_type_raw_def collapse_def WT_CELL_SHORT_TYPE_def WT_CELL_TYPE_def WT_CELL_TYPE_MASK_def cell_short_defs Let_def)

lemma types_collapse: "raw \<in> cell_types \<Longrightarrow> raw \<notin> {WT_CELL_KEY_SHORT_PFX, WT_CELL_KEY_SHORT, WT_CELL_VALUE_SHORT} \<Longrightarrow>
    collapse raw \<in> {WT_CELL_ADDR_DEL, WT_CELL_ADDR_INT, WT_CELL_ADDR_LEAF, WT_CELL_ADDR_LEAF_NO, WT_CELL_DEL, WT_CELL_KEY, WT_CELL_KEY_OVFL,
      WT_CELL_VALUE, WT_CELL_VALUE_OVFL} \<and> (is_addr_cell (collapse raw) \<longrightarrow> is_addr_cell raw) \<and>
    (is_ovfl_cell raw \<longleftrightarrow> collapse raw = WT_CELL_KEY_OVFL \<or> collapse raw = WT_CELL_VALUE_OVFL) \<and> (raw = WT_CELL_DEL \<longleftrightarrow> collapse raw = WT_CELL_DEL)"
  unfolding cell_types_def len_types_def
  by (elim UnE insertE) (simp_all add: collapse_def is_addr_cell_def is_ovfl_cell_def cell_type_defs cell_short_defs)

text \<open>The types of an unpacked cell.\<close>

definition type_facts :: "bool \<Rightarrow> cell_unpack \<Rightarrow> bool" where
  "type_facts addr r \<longleftrightarrow> cu_type r \<in> {WT_CELL_ADDR_DEL, WT_CELL_ADDR_INT, WT_CELL_ADDR_LEAF, WT_CELL_ADDR_LEAF_NO, WT_CELL_DEL, WT_CELL_KEY,
      WT_CELL_KEY_OVFL, WT_CELL_VALUE, WT_CELL_VALUE_OVFL} \<and> (is_addr_cell (cu_type r) \<longrightarrow> addr) \<and>
    (cu_flags r = (if cu_type r = WT_CELL_KEY_OVFL \<or> cu_type r = WT_CELL_VALUE_OVFL then WT_CELL_UNPACK_OVERFLOW else 0)) \<and>
    (cu_data r = None \<longleftrightarrow> cu_type r = WT_CELL_DEL)"

lemma pass_types:
  assumes "pass_facts mem addr cell r"
  shows "type_facts addr r"
proof (cases "cu_raw r \<in> {WT_CELL_KEY_SHORT_PFX, WT_CELL_KEY_SHORT, WT_CELL_VALUE_SHORT}")
  case True
  then have t: "cu_type r = WT_CELL_KEY \<or> cu_type r = WT_CELL_VALUE"
    using assms type_of_raw [of "mem cell"] unfolding pass_facts_def by (metis insertE empty_iff)
  have f: "WT_CELL_KEY \<noteq> WT_CELL_DEL" "WT_CELL_VALUE \<noteq> WT_CELL_DEL" "\<not> is_addr_cell WT_CELL_KEY" "\<not> is_addr_cell WT_CELL_VALUE"
    "WT_CELL_KEY \<noteq> WT_CELL_KEY_OVFL" "WT_CELL_VALUE \<noteq> WT_CELL_VALUE_OVFL" "WT_CELL_KEY \<noteq> WT_CELL_VALUE_OVFL" "WT_CELL_VALUE \<noteq> WT_CELL_KEY_OVFL"
    by (simp_all add: cell_type_defs is_addr_cell_def)
  show ?thesis using t f short_kinds [OF True] assms unfolding type_facts_def pass_facts_def by (elim disjE) auto
next
  case False
  have t: "cu_type r = collapse (cu_raw r)" using assms False type_of_raw [of "mem cell"] by (simp add: pass_facts_def)
  have "cu_raw r \<in> cell_types" using assms unfolding pass_facts_def by blast
  note c = types_collapse [OF this False]
  show ?thesis unfolding type_facts_def t using c assms unfolding pass_facts_def by auto
qed

lemma unpack_typed:
  assumes "wt_cell_unpack_safe mem ft addr e cell u = Some (Inr r)"
  shows "type_facts addr r \<and> (cu_raw r = WT_CELL_VALUE_COPY \<or> cu_raw r \<in> cell_types) \<and> cu_raw r = wt_cell_type_raw (mem cell) \<and>
    (is_addr_cell (cu_raw r) \<longrightarrow> addr) \<and> (is_value_cell (cu_raw r) \<longrightarrow> \<not> addr)"
proof -
  consider (plain) "pass_facts mem addr cell r" | (copy) c u1 where "\<not> addr" "wt_cell_type_raw (mem cell) = WT_CELL_VALUE_COPY" "cu_raw r = WT_CELL_VALUE_COPY"
    "pass_facts mem addr c u1" "cu_type r = cu_type u1" "cu_flags r = cu_flags u1" "cu_data r = cu_data u1"
    using unpack_last [OF assms] by blast
  then show ?thesis
  proof cases
    case plain
    then show ?thesis using pass_types by (auto simp: pass_facts_def)
  next
    case copy
    have "\<not> is_addr_cell WT_CELL_VALUE_COPY" by (simp add: is_addr_cell_def cell_type_defs)
    then show ?thesis using pass_types [OF copy(4)] copy by (auto simp: type_facts_def)
  qed
qed

lemma unpack_within:
  assumes s: "wt_cell_unpack_safe mem ft addr (Some x) cell u = Some (Inr r)" and raw: "cu_raw r \<noteq> WT_CELL_VALUE_COPY" and d: "cu_data r = Some d"
    and wrap: "d - cell + uint (cu_size r) < 2 ^ 32"
  shows "0 \<le> cell \<and> cell < d \<and> d + uint (cu_size r) \<le> x"
proof -
  have f: "pass_facts mem addr cell r" and c: "wt_cell_len_chk (Some x) cell (uint (cu_len r)) = Inr ()"
    using unpack_last [OF s] raw by blast+
  have dl: "cell < d" and l: "cu_len r = word_of_int (d - cell) + cu_size r" using f d by (simp_all add: pass_facts_def)
  have "cu_len r = word_of_int (d - cell + uint (cu_size r))" using l by simp
  moreover have "0 \<le> d - cell + uint (cu_size r)" using dl by (simp add: add_nonneg_nonneg)
  ultimately have "uint (cu_len r) = d - cell + uint (cu_size r)" using wrap by (simp only: uint_word_of_int) (simp add: take_bit_int_eq_self)
  then show ?thesis using c dl by (auto simp: wt_cell_len_chk_def split: if_splits)
qed

text \<open>All copy cells up to an address refer to cells before them.\<close>

definition copies_go_back :: "memory \<Rightarrow> bool \<Rightarrow> int \<Rightarrow> int \<Rightarrow> bool" where
  "copies_go_back mem ft x cell \<longleftrightarrow> (\<forall>c u u' tw n v l. 0 \<le> c \<longrightarrow> c \<le> cell \<longrightarrow>
     cell_unpack_pass mem ft False (Some x) c u = Inr (u', tw, Some (n, v, l)) \<longrightarrow> n < c)"

lemma pass_not_negative: "cell_unpack_pass mem ft addr (Some x) c u = Inr y \<Longrightarrow> 0 \<le> c"
  by (auto simp: cell_unpack_pass_def wt_ret_Inr_iff wt_cell_len_chk_def split: if_splits)

lemma unpack_ends:
  assumes "addr \<or> copies_go_back mem ft x cell"
  shows "\<exists>r. wt_cell_unpack_safe mem ft addr (Some x) cell u = Some r"
  unfolding wt_cell_unpack_safe_def
proof (rule loop_ends)
  fix c u u' tw n v l
  assume c: "c \<le> cell" and p: "cell_unpack_pass mem ft addr (Some x) c u = Inr (u', tw, Some (n, v, l))"
  have a: "addr = False" using pass_copy [OF p] by blast
  have "copies_go_back mem ft x cell" using assms a by blast
  then show "n < c" using p [unfolded a] c pass_not_negative [OF p] unfolding copies_go_back_def by blast
qed

lemma vunpack_at_end_unchecked: "vunpack_at mem (Some x) x = vunpack_at mem None x"
  by (simp add: vunpack_at_def vunpack_limit_def)

text \<open>The bytes of two 64 byte values, stored with a length of 0, are not compared at all.\<close>

lemma value_match_len_64:
  assumes "holds mem a (wt_cell_pack_value WT_TIME_WINDOW_INIT 0 64)"
  shows "value_match_len mem a = Inr (Some (0, a + 2))"
proof -
  have b: "wt_cell_pack_value WT_TIME_WINDOW_INIT 0 64 = [0x80] @ vpack 0" by code_simp
  have m: "mem a = 0x80" "holds mem (a + 1) (vpack 0)" using assms unfolding b by simp_all
  have l: "length (vpack 0) = 1" by code_simp
  have f: "WT_CELL_SHORT_TYPE 0x80 \<noteq> WT_CELL_VALUE_SHORT" "WT_CELL_TYPE 0x80 = WT_CELL_VALUE" "(0x80 :: u8) AND WT_CELL_64V = 0" "(0x80 :: u8) AND WT_CELL_SECOND_DESC = 0"
    by code_simp+
  have "vunpack_at mem None (a + 1) = Inr (0, a + 1 + int (length (vpack 0)))"
    by (rule vunpack_at_holds [OF m(2)]) (simp add: within_def)
  then show ?thesis unfolding value_match_len_def Let_def m(1) if_not_P [OF f(1)] if_P [OF f(2)] by (simp add: f skip_field_def l)
qed

lemma value_match_ignores_64_bytes:
  assumes "holds mem a (wt_cell_pack_value WT_TIME_WINDOW_INIT 0 64)" "holds mem b (wt_cell_pack_value WT_TIME_WINDOW_INIT 0 64)"
  shows "wt_cell_pack_value_match mem a b d = Inr True"
  by (simp add: wt_cell_pack_value_match_def value_match_len_64 [OF assms(1)] value_match_len_64 [OF assms(2)] bytes_at_def)

subsection \<open>The cells of a page\<close>

text \<open>\<open>WT_CELL_FOREACH_KV\<close>: the unpacked cells its body sees, from an address on, as many as the page has entries.\<close>

primrec wt_cell_foreach_kv :: "memory \<Rightarrow> bool \<Rightarrow> cell_run \<Rightarrow> nat \<Rightarrow> int \<Rightarrow> cell_unpack \<Rightarrow> cell_unpack list result option" where
  "wt_cell_foreach_kv mem ft r 0 cell u = Some (Inr [])"
| "wt_cell_foreach_kv mem ft r (Suc i) cell u =
     (case wt_cell_unpack_kv mem ft r (Some cell) u of
        None \<Rightarrow> None
      | Some (Inl err) \<Rightarrow> Some (Inl err)
      | Some (Inr u) \<Rightarrow> map_option (map_sum id ((#) u)) (wt_cell_foreach_kv mem ft r i (cell + uint (cu_len u)) u))"

definition page_image :: "(kv_cell \<times> u8 list) list \<Rightarrow> u8 list" where
  "page_image cs = concat (map (\<lambda>(c, data). kv_bytes c @ data) cs)"

definition cell_ok :: "kv_cell \<times> u8 list \<Rightarrow> bool" where
  "cell_ok cd \<longleftrightarrow> kv_ok (fst cd) \<and> length (snd cd) = unat (kv_size (fst cd)) \<and> length (kv_bytes (fst cd)) + length (snd cd) < 2 ^ 32"

text \<open>An unpacked cell and its data are as they were packed, but for what is cleared of an earlier run.\<close>

definition read_back :: "memory \<Rightarrow> bool \<Rightarrow> cell_run \<Rightarrow> kv_cell \<times> u8 list \<Rightarrow> cell_unpack \<Rightarrow> bool" where
  "read_back mem ft r cd u' \<longleftrightarrow> (\<exists>cell u. u' = cell_unpack_window_cleanup r ft False u \<and> unpacked_as (fst cd) cell u \<and>
     bytes_at mem (cell + int (length (kv_bytes (fst cd)))) (length (snd cd)) = snd cd)"

lemma cleanup_len: "cu_len (cell_unpack_window_cleanup r ft False u) = cu_len u"
  by (simp add: cell_unpack_window_cleanup_def cell_kv_window_cleanup_def set_cleared_def Let_def)

lemma page_walk:
  assumes "\<And>cd. cd \<in> set cs \<Longrightarrow> cell_ok cd" "holds mem cell (page_image cs)"
  shows "\<exists>us. wt_cell_foreach_kv mem ft r (length cs) cell u = Some (Inr us) \<and> list_all2 (read_back mem ft r) cs us"
  using assms
proof (induction cs arbitrary: cell u)
  case Nil
  then show ?case by simp
next
  case (Cons cd cs)
  obtain c data where cd: "cd = (c, data)" by (cases cd)
  have ok: "kv_ok c" "length data = unat (kv_size c)" "length (kv_bytes c) + length data < 2 ^ 32"
    using Cons.prems(1) [of cd] by (simp_all add: cell_ok_def cd)
  have h: "holds mem cell (kv_bytes c)" "holds mem (cell + int (length (kv_bytes c))) data"
    "holds mem (cell + int (length (kv_bytes c)) + int (length data)) (page_image cs)"
    using Cons.prems(2) unfolding page_image_def cd by (simp_all add: add.assoc)
  obtain u1 where u1: "wt_cell_unpack_safe mem ft False None cell u = Some (Inr u1)" "unpacked_as c cell u1"
    using kv_unpack [OF ok(1) h(1), of None ft u] ok(2,3) by (auto simp: within_def)
  let ?u1 = "cell_unpack_window_cleanup r ft False u1"
  have kv: "wt_cell_unpack_kv mem ft r (Some cell) u = Some (Inr ?u1)" by (simp add: wt_cell_unpack_kv_def u1(1))
  have len: "uint (cu_len ?u1) = int (length (kv_bytes c)) + int (length data)"
    using u1(2) ok(2) by (simp add: cleanup_len unpacked_as_def)
  obtain us where us: "wt_cell_foreach_kv mem ft r (length cs) (cell + uint (cu_len ?u1)) ?u1 = Some (Inr us)" "list_all2 (read_back mem ft r) cs us"
    using Cons.IH [of "cell + int (length (kv_bytes c)) + int (length data)" ?u1] Cons.prems(1) h(3) by (auto simp: len add.assoc)
  have "read_back mem ft r cd ?u1"
    using u1(2) h(2) unfolding read_back_def holds_def cd by (intro exI [of _ cell] exI [of _ u1]) simp
  then show ?case using kv us by (intro exI [of _ "?u1 # us"]) simp
qed

subsection \<open>Properties\<close>

definition page_memory :: "u8 list \<Rightarrow> memory" where
  "page_memory bs a = (if 0 \<le> a \<and> nat a < length bs then bs ! nat a else 0)"

lemma page_memory_holds: "holds (page_memory (xs @ ys @ zs)) (int (length xs)) ys"
  by (auto simp: holds_def bytes_at_def page_memory_def nth_append nat_add_distrib intro!: nth_equalityI)

text \<open>C12: what is written to a leaf page comes back. A walk over a page image made of the bytes of packed cells
  and their data yields the cells in order: each with its type, prefix, run length, size and time window
  (but for what is cleared of an earlier run), with its data pointer at its data.\<close>

theorem page_cells_roundtrip:
  assumes "\<forall>cd \<in> set cs. cell_ok cd" "holds mem cell (page_image cs)"
  shows "\<exists>us. wt_cell_foreach_kv mem ft r (length cs) cell u = Some (Inr us) \<and> list_all2 (read_back mem ft r) cs us"
  using page_walk assms by blast

definition page_example :: "(kv_cell \<times> u8 list) list" where
  "page_example = [(KvKey 0 2, [7, 8]), (KvValue (WT_TIME_WINDOW_INIT\<lparr>tw_start_ts := 5, tw_durable_start_ts := 6, tw_start_txn := 9\<rparr>) 0 1, [9])]"

theorem page_cells_roundtrip_witness:
  "\<forall>ft r u. \<exists>us. wt_cell_foreach_kv (page_memory (page_image page_example)) ft r 2 0 u = Some (Inr us) \<and>
    list_all2 (read_back (page_memory (page_image page_example)) ft r) page_example us"
proof (intro allI)
  fix ft r u
  have l: "length page_example = 2" by code_simp
  have "map (kv_ok \<circ> fst) page_example = [True, True] \<and> map (\<lambda>(c, data). length data = unat (kv_size c)) page_example = [True, True] \<and>
      map (\<lambda>(c, data). length (kv_bytes c) < 99) page_example = [True, True]" by code_simp
  then have ok: "\<forall>cd \<in> set page_example. cell_ok cd" unfolding page_example_def by (simp add: cell_ok_def)
  show "\<exists>us. wt_cell_foreach_kv (page_memory (page_image page_example)) ft r 2 0 u = Some (Inr us) \<and>
    list_all2 (read_back (page_memory (page_image page_example)) ft r) page_example us"
    using page_cells_roundtrip [OF ok, of "page_memory (page_image page_example)" 0 ft r u]
      page_memory_holds [of "[]" "page_image page_example" "[]"] unfolding l by simp
qed

text \<open>C17: a copy cell is unpacked with its own time window, run length and length, and with the data of the value
  cell that it refers to.\<close>

theorem copy_cell_roundtrip:
  assumes "window_storable tw" "window_storable tw0" "0 \<le> sint v"
    and "holds mem (cell - sint v) (wt_cell_pack_value tw0 rle0 n)" "within e (cell - sint v) (length (wt_cell_pack_value tw0 rle0 n) + unat n)"
    and "holds mem cell (wt_cell_pack_copy tw rle v)" "within e cell (length (wt_cell_pack_copy tw rle v))"
  shows "\<exists>u'. wt_cell_unpack_safe mem ft False e cell u = Some (Inr u') \<and> cu_cell u' = Some cell \<and> cu_type u' = WT_CELL_VALUE \<and>
    cu_raw u' = WT_CELL_VALUE_COPY \<and> cu_tw u' = tw \<and> wt_cell_rle u' = rle_of rle \<and>
    cu_data u' = Some (cell - sint v + int (length (wt_cell_pack_value tw0 rle0 n))) \<and> cu_size u' = ucast n \<and>
    uint (cu_len u') = int (length (wt_cell_pack_copy tw rle v))"
  by (rule copy_unpack [OF assms])

definition copy_page :: "u8 list" where
  "copy_page = wt_cell_pack_value WT_TIME_WINDOW_INIT 0 2 @ [7, 7] @ wt_cell_pack_copy WT_TIME_WINDOW_INIT 0 3"

lemma copy_page_facts: "length (wt_cell_pack_value WT_TIME_WINDOW_INIT 0 2) = 1" "length (wt_cell_pack_copy WT_TIME_WINDOW_INIT 0 3) = 2"
  "window_storable WT_TIME_WINDOW_INIT" "map (wt_cell_type_raw \<circ> page_memory copy_page) [0, 1, 2] = [WT_CELL_VALUE_SHORT, WT_CELL_VALUE_SHORT, WT_CELL_VALUE_SHORT]"
  by code_simp+

lemma copy_page_holds: "holds (page_memory copy_page) 0 (wt_cell_pack_value WT_TIME_WINDOW_INIT 0 2)"
  "holds (page_memory copy_page) 3 (wt_cell_pack_copy WT_TIME_WINDOW_INIT 0 3)"
  using page_memory_holds [of "[]" "wt_cell_pack_value WT_TIME_WINDOW_INIT 0 2" "[7, 7] @ wt_cell_pack_copy WT_TIME_WINDOW_INIT 0 3"]
    page_memory_holds [of "wt_cell_pack_value WT_TIME_WINDOW_INIT 0 2 @ [7, 7]" "wt_cell_pack_copy WT_TIME_WINDOW_INIT 0 3" "[]"]
  by (simp_all add: copy_page_def copy_page_facts(1))

theorem copy_cell_roundtrip_witness:
  "\<forall>u. \<exists>u'. wt_cell_unpack_safe (page_memory copy_page) False False (Some 5) 3 u = Some (Inr u') \<and> cu_data u' = Some 1 \<and> cu_size u' = 2"
proof
  fix u
  have v: "sint (3 :: u64) = 3" by simp
  show "\<exists>u'. wt_cell_unpack_safe (page_memory copy_page) False False (Some 5) 3 u = Some (Inr u') \<and> cu_data u' = Some 1 \<and> cu_size u' = 2"
    using copy_cell_roundtrip [OF copy_page_facts(3) copy_page_facts(3), of 3 "page_memory copy_page" 3 0 2 "Some 5" 0 False u]
      copy_page_holds by (auto simp: v copy_page_facts within_def)
qed




lemma copy_page_value:
  obtains r where "wt_cell_unpack_safe (page_memory copy_page) False False (Some 5) 0 u = Some (Inr r)" "unpacked_as (KvValue WT_TIME_WINDOW_INIT 0 2) 0 r"
  using kv_unpack [of "KvValue WT_TIME_WINDOW_INIT 0 2" "page_memory copy_page" 0 "Some 5" False u] copy_page_holds(1) copy_page_facts
  by (auto simp: within_def)


text \<open>C13: unpacking with checks gives data inside the page, whatever the bytes of the page, for all cells but copies,
  when the length of the cell does not exceed 32 bits.\<close>

theorem cell_unpack_within:
  assumes "wt_cell_unpack_safe mem ft addr (Some x) cell u = Some (Inr r)" "cu_raw r \<noteq> WT_CELL_VALUE_COPY" "cu_data r = Some d"
    and "d - cell + uint (cu_size r) < 2 ^ 32"
  shows "0 \<le> cell \<and> cell < d \<and> d + uint (cu_size r) \<le> x"
  by (rule unpack_within [OF assms])

theorem cell_unpack_within_witness:
  "\<forall>u. \<exists>r d. wt_cell_unpack_safe (page_memory copy_page) False False (Some 5) 0 u = Some (Inr r) \<and> cu_data r = Some d \<and> 0 < d \<and> d + uint (cu_size r) \<le> 5"
proof
  fix u
  obtain r where r: "wt_cell_unpack_safe (page_memory copy_page) False False (Some 5) 0 u = Some (Inr r)" "unpacked_as (KvValue WT_TIME_WINDOW_INIT 0 2) 0 r"
    by (rule copy_page_value)
  have raw: "cu_raw r \<noteq> WT_CELL_VALUE_COPY"
    using unpack_typed [OF r(1)] copy_page_facts(4) by (simp add: cell_type_defs cell_short_defs)
  have "WT_CELL_VALUE \<noteq> WT_CELL_DEL" by (simp add: cell_type_defs)
  then have d: "cu_data r = Some 1" "cu_size r = 2" using r(2) copy_page_facts(1) by (simp_all add: unpacked_as_def)
  then show "\<exists>r d. wt_cell_unpack_safe (page_memory copy_page) False False (Some 5) 0 u = Some (Inr r) \<and> cu_data r = Some d \<and> 0 < d \<and> d + uint (cu_size r) \<le> 5"
    using cell_unpack_within [OF r(1) raw d(1)] r(1) by (intro exI [of _ r] exI [of _ 1]) simp
qed

text \<open>C16: address cells come back with their time aggregate, record number, size and data, and deleted ones with the
  fast-truncate information, marked committed and the leaf page on disk.\<close>

theorem addr_cell_roundtrip:
  assumes "is_addr_cell ty" "ta_prepare ta \<le> 1" "packed_del fast page_del \<noteq> None \<longleftrightarrow> ty = WT_CELL_ADDR_DEL \<and> ft"
    and "holds mem cell (wt_cell_pack_addr fast ty recno page_del ta n)"
    and "within e cell (length (wt_cell_pack_addr fast ty recno page_del ta n) + unat n)"
    and "length (wt_cell_pack_addr fast ty recno page_del ta n) + unat n < 2 ^ 32"
  shows "\<exists>u'. wt_cell_unpack_safe mem ft True e cell u = Some (Inr u') \<and> cu_cell u' = Some cell \<and> cu_type u' = ty \<and> cu_v u' = recno \<and>
    cu_ta u' = (if WT_TIME_AGGREGATE_IS_EMPTY ta then WT_TIME_AGGREGATE_INIT else ta\<lparr>ta_init_merge := 0\<rparr>) \<and>
    cu_del u' = (case packed_del fast page_del of None \<Rightarrow> cu_del u | Some pd \<Rightarrow> committed_del pd) \<and>
    cu_data u' = Some (cell + int (length (wt_cell_pack_addr fast ty recno page_del ta n))) \<and> cu_size u' = ucast n \<and>
    uint (cu_len u') = int (length (wt_cell_pack_addr fast ty recno page_del ta n)) + uint n"
  by (rule addr_unpack [OF assms])

definition deleted_page :: page_deleted where
  "deleted_page = \<lparr>pd_txnid = 11, pd_timestamp = 12, pd_durable_timestamp = 13, pd_prepare_state = 0, pd_previous_ref_state = 0,
     pd_committed = True, pd_selected_for_write = False\<rparr>"

theorem addr_cell_roundtrip_witness:
  "\<forall>u. \<exists>u'. wt_cell_unpack_safe (page_memory (wt_cell_pack_addr True WT_CELL_ADDR_DEL 0 (Some deleted_page) WT_TIME_AGGREGATE_INIT 3 @ [1, 2, 3]))
      True True (Some 1000) 0 u = Some (Inr u') \<and> cu_type u' = WT_CELL_ADDR_DEL \<and> pd_timestamp (cu_del u') = 12 \<and> cu_size u' = 3"
proof
  fix u
  let ?B = "wt_cell_pack_addr True WT_CELL_ADDR_DEL 0 (Some deleted_page) WT_TIME_AGGREGATE_INIT 3"
  have f: "is_addr_cell WT_CELL_ADDR_DEL" "ta_prepare WT_TIME_AGGREGATE_INIT \<le> 1" "length ?B \<le> 50" "unat (3 :: u64) = 3" by code_simp+
  have d: "packed_del True (Some deleted_page) \<noteq> None \<longleftrightarrow> WT_CELL_ADDR_DEL = WT_CELL_ADDR_DEL \<and> True" by (simp add: packed_del_def)
  have h: "holds (page_memory (?B @ [1, 2, 3])) 0 ?B" using page_memory_holds [of "[]" ?B "[1, 2, 3]"] by simp
  have w: "within (Some 1000) 0 (length ?B + unat (3 :: u64))" using f(3,4) by (simp add: within_def)
  have l: "length ?B + unat (3 :: u64) < 2 ^ 32" using f(3,4) by simp
  show "\<exists>u'. wt_cell_unpack_safe (page_memory (?B @ [1, 2, 3])) True True (Some 1000) 0 u = Some (Inr u') \<and> cu_type u' = WT_CELL_ADDR_DEL \<and>
      pd_timestamp (cu_del u') = 12 \<and> cu_size u' = 3"
    using addr_cell_roundtrip [OF f(1,2) d h w l, of u]
    by (elim exE) (auto simp: packed_del_def committed_del_def deleted_page_def)
qed

end
