(* ===== verification/Spec2Isabelle.thy ===== *)
theory Spec2Isabelle
  imports Wt_Prelude IntPack KeyCompare BlockAddr SkipList ExtList BlockAlloc BlockCkpt BlockSession
    Txn SnapSort TxnPinned TxnSnapshot TimeWindow TxnVisibility TxnMvcc Hex TxnTimestamp TxnReaders Modify RWLock StructPack LogThreads HazardSafe CellBounds
begin

text \<open>
  \<^bold>\<open>A verification development for the WiredTiger storage engine\<close>, the C code under
  \<open>src/wiredtiger-11.1.0/wiredtiger-11.1.0/src\<close> (file names below are relative to it).

  \<^bold>\<open>The program.\<close> The engine keeps tables as B-trees of pages. Pages are stored as blocks of a file: the
  block manager keeps the free and used extents of the file in skip lists, allocates from them and writes
  them out with each checkpoint. Changes are made in transactions: a transaction reads by a snapshot of the
  running transaction IDs and by timestamps, updates form a list per key, newest first, and older values are
  kept while some reader may need them. Changes are logged: threads put their records in a slot's buffer,
  and the slot is written out once. A thread that uses a page in memory has a hazard pointer for it, which
  the threads that evict pages look for. Keys, values and addresses are packed into byte strings whose order is the order of the
  values. The parts share the connection's state and call each other directly; the locks of
  \<open>src/support/mtx_rw.c\<close> and compare-and-swap order them.

  \<^bold>\<open>How code is modelled.\<close> A definition has the name of the C function without its leading underscores
  (\<open>__wt_vpack_uint\<close> is \<open>wt_vpack_uint\<close>); a loop of a function or a macro has a name of its own. A struct is a
  record with the fields the modelled code uses; unsigned integers are words of their width, with the
  wrap-around of the code, file offsets and sizes in the block manager are integers. A function that
  returns an error code and hands values back through pointers is a function into \<open>'a result\<close>, \<open>Inl\<close> of the error or \<open>Inr\<close> of the values. In the
  block manager an error drops the state that was changed before it; in the transaction code the
  changed state is returned with the error. Assertions, statistics, messages and diagnostic builds are not
  modelled. A random choice of the code (the depth of a skip list entry) is an argument. Code that runs
  between two reads of shared data is an argument (\<open>between\<close>, \<open>before\<close>, \<open>after\<close>: what other threads do
  there) or, where the order matters, a step relation whose steps are the code's reads and swaps, for any number of threads, sequentially consistent.

  \<^bold>\<open>The theories.\<close>

    \<^item> \<open>Wt_Prelude\<close>: machine words, error codes, results, and the lemmas on them that the others share.
    \<^item> \<open>IntPack\<close> (\<open>include/intpack_inline.h\<close>), \<open>KeyCompare\<close> (\<open>include/btree_cmp_inline.h\<close>), \<open>StructPack\<close>
      (\<open>include/packing_inline.h\<close>), \<open>BlockAddr\<close> (\<open>block/block_addr.c\<close>), \<open>Hex\<close> (\<open>support/hex.c\<close>): the encodings. Unpacking gives back
      what was packed and consumes exactly its bytes; the order of packed integers is the order of the
      integers; sizes are computed exactly and packing stays inside its buffer.
    \<^item> \<open>SkipList\<close>, \<open>ExtList\<close> (\<open>block/block_ext.c\<close>): the extent lists. The searches of a skip list are those of its sorted
      list of extents, and inserting, removing, merging and overlap removal are the operations on the set
      of offsets the list stands for.
    \<^item> \<open>BlockAlloc\<close>, \<open>BlockCkpt\<close>, \<open>BlockSession\<close> (\<open>block/block_ext.c\<close>, \<open>block/block_ckpt.c\<close>, \<open>block/block_write.c\<close>, \<open>block/block_session.c\<close>): allocation
      never hands out bytes that are in use, best and first fit pick the extent they mean to, lists of a
      checkpoint are written, read, merged and reconciled exactly.
    \<^item> \<open>Txn\<close>, \<open>SnapSort\<close>, \<open>TxnPinned\<close>, \<open>TxnSnapshot\<close>, \<open>TxnTimestamp\<close>, \<open>TxnReaders\<close> (\<open>txn/txn.c\<close>, \<open>txn/txn_timestamp.c\<close>, \<open>include/txn_inline.h\<close>, \<open>support/generation.c\<close>): transaction IDs, snapshots,
      the oldest and pinned IDs and timestamps, and their checks.
    \<^item> \<open>TimeWindow\<close>, \<open>TxnVisibility\<close>, \<open>TxnMvcc\<close> (\<open>include/timestamp_inline.h\<close>, \<open>include/txn_inline.h\<close>): which update a reader sees; the step
      relation of \<open>TxnMvcc\<close> runs transactions against one another and shows that a snapshot reads one
      state of the data and that what is called globally visible is visible to all readers.
    \<^item> \<open>Modify\<close> (\<open>support/modify.c\<close>): partial updates, applied by three routines that agree with applying the entries in order.
    \<^item> \<open>RWLock\<close> (\<open>support/mtx_rw.c\<close>): the ticket lock: a writer is alone, and whoever waits is waiting for someone.
    \<^item> \<open>LogSlot\<close>, \<open>LogThreads\<close> (\<open>log/log_slot.c\<close>, \<open>log/log.c\<close>, \<open>include/log.h\<close>): the log's slots and the threads that use them:
      no two records are given the same bytes, and a slot is written out by one thread, after all others are done.
    \<^item> \<open>Hazard\<close>, \<open>HazardInv\<close>, \<open>HazardSafe\<close> (\<open>support/hazard.c\<close>, \<open>support/generation.c\<close>, \<open>session/session_api.c\<close>, \<open>evict/evict_page.c\<close>): hazard
      pointers, the growth of their arrays and the freeing of old ones: no page is evicted that a thread uses, no
      array is read after it was freed.
    \<^item> \<open>Cell\<close>, \<open>CellBytes\<close>, \<open>CellRoundtrip\<close>, \<open>CellBounds\<close> (\<open>include/cell.h\<close>, \<open>include/cell_inline.h\<close>): the cells of page images,
      over memory that is a function from addresses to bytes: cells that were packed come back, alone and in a walk over a page; on
      any bytes unpacking with checks yields a well-formed cell inside the page, but for the gaps the theories name.

  The interfaces are locales interpreted on the model's own operations: \<open>byte_codec\<close> in \<open>IntPack\<close> (an encoder
  and its decoder), \<open>range_list\<close> in \<open>ExtList\<close> (a list of extents as a set of offsets). A lemma named \<open>x_witness\<close> applies the theorem \<open>x\<close> to a concrete case.

  \<^bold>\<open>Bounds.\<close> No definition uses fuel: loops are recursions over a list or with a measure that is proved to fall; the
  four whose end is a theorem of its own are partial functions into an option. In \<open>LogThreads\<close> a record has at
  most \<open>2 ^ 30\<close> bytes and a log file at most \<open>2 ^ 31\<close>; larger records are not refused by the code and do
  wrap around (\<open>slot_end_wraps\<close>).

  \<^bold>\<open>Not modelled.\<close> The building and verifying of whole page images, reconciliation, tree walks and splits, which pages to evict and how, cursors, sessions,
  schema, metadata, configuration parsing, the history store, checkpoints, recovery, LSM trees, tiered storage,
  the operating system layer and the utilities. Some of these are sequences of calls with no law of their own;
  others, such as splits and eviction, work on memory shared with readers and need a model of the pages first.
\<close>

end
